(* ===== verification/Prelude.thy ===== *)
theory Prelude
  imports Main "HOL-Library.Word" "HOL-Library.Multiset" "HOL-Library.Sublist"
    "HOL-Library.Code_Target_Nat"
begin

text \<open>
  Shared vocabulary of the development: the integer types of the C++ sources, the casts
  that may wrap, the ceiling division every block count uses, and generic facts on lists,
  multisets and options that the component theories rely on.
\<close>

section \<open>Collections of rewrite rules\<close>

named_theorems pool_simps \<open>unfolding rules of the paged KV pool\<close>
named_theorems slot_simps \<open>unfolding rules of the slot manager\<close>

section \<open>Integer types\<close>

text \<open>
  A \<open>uint32_t\<close> or \<open>size_t\<close> quantity is a \<open>nat\<close> and every narrowing cast of the source is
  written as \<^term>\<open>u32\<close>; a C++ \<open>int\<close> is an \<open>int\<close>. Generation counters and request ids are
  64-bit words, because their wrap-around is part of the code.
\<close>

type_synonym u8 = "8 word"
type_synonym u64 = "64 word"
type_synonym token = int

definition u32_max :: nat where
  "u32_max = 4294967295"

definition u32 :: "nat \<Rightarrow> nat" where
  "u32 n = n mod 4294967296"

lemma u32_id [simp]: "n \<le> u32_max \<Longrightarrow> u32 n = n"
  by (simp add: u32_def u32_max_def)

lemma u32_le [simp]: "u32 n \<le> u32_max"
proof -
  have "n mod 4294967296 < 4294967296" by simp
  then show ?thesis by (simp add: u32_def u32_max_def)
qed

text \<open>The conversions between a signed \<open>int\<close> and the unsigned types, with their wrap-around.\<close>

definition u32_of_int :: "int \<Rightarrow> nat" where
  "u32_of_int i = nat (i mod 4294967296)"

definition u64_of_int :: "int \<Rightarrow> nat" where
  "u64_of_int i = nat (i mod 18446744073709551616)"

definition int32_of :: "int \<Rightarrow> int" where
  "int32_of i = (i + 2147483648) mod 4294967296 - 2147483648"

abbreviation int_max :: int where
  "int_max \<equiv> 2147483647"

lemma u32_of_int_id [simp]: "0 \<le> i \<Longrightarrow> i \<le> 4294967295 \<Longrightarrow> u32_of_int i = nat i"
  by (simp add: u32_of_int_def)

lemma u64_of_int_id [simp]: "0 \<le> i \<Longrightarrow> i \<le> 9223372036854775807 \<Longrightarrow> u64_of_int i = nat i"
  by (simp add: u64_of_int_def)

lemma int32_of_id [simp]: "- 2147483648 \<le> i \<Longrightarrow> i \<le> 2147483647 \<Longrightarrow> int32_of i = i"
  by (simp add: int32_of_def)

text \<open>\<open>std::to_string\<close> of an unsigned value.\<close>

fun dec_string :: "nat \<Rightarrow> string" where
  "dec_string n = (if n < 10 then [char_of (48 + n)] else dec_string (n div 10) @ [char_of (48 + n mod 10)])"

declare dec_string.simps [simp del]

section \<open>Ceiling division\<close>

definition ceil_div :: "nat \<Rightarrow> nat \<Rightarrow> nat" where
  "ceil_div n b = (if n = 0 then 0 else 1 + (n - 1) div b)"

lemma ceil_div_0 [simp]: "ceil_div 0 b = 0"
  by (simp add: ceil_div_def)

lemma ceil_div_le_iff:
  assumes "0 < b"
  shows "ceil_div n b \<le> k \<longleftrightarrow> n \<le> k * b"
proof (cases n)
  case (Suc m)
  have "ceil_div n b \<le> k \<longleftrightarrow> m div b < k"
    by (auto simp: Suc ceil_div_def)
  also have "\<dots> \<longleftrightarrow> m < k * b"
    using assms by (simp add: less_mult_imp_div_less div_less_iff_less_mult)
  finally show ?thesis by (simp add: Suc Suc_le_eq)
qed simp

lemma ceil_div_mono: "0 < b \<Longrightarrow> m \<le> n \<Longrightarrow> ceil_div m b \<le> ceil_div n b"
  by (meson ceil_div_le_iff order.refl order.trans)

lemma le_ceil_div_mult: "0 < b \<Longrightarrow> n \<le> ceil_div n b * b"
  using ceil_div_le_iff by blast

lemma ceil_div_le_self: "0 < b \<Longrightarrow> ceil_div n b \<le> n"
  by (simp add: ceil_div_le_iff)

lemma ceil_div_alt: "0 < b \<Longrightarrow> (n + b - 1) div b = ceil_div n b"
  by (cases n) (auto simp: ceil_div_def div_add_self2)

lemma ceil_div_Suc: "ceil_div (Suc n) b = Suc (n div b)"
  by (simp add: ceil_div_def)

lemma ceil_div_mod:
  assumes "0 < b"
  shows "ceil_div n b = (if n mod b = 0 then n div b else Suc (n div b))"
proof (cases n)
  case (Suc m)
  then show ?thesis by (simp add: ceil_div_Suc div_Suc)
qed simp

text \<open>The block starts among the positions \<open>[l..<l + n]\<close> are the blocks the range adds.\<close>

lemma block_starts:
  assumes "0 < b"
  shows "map (\<lambda>i. i div b) (filter (\<lambda>i. i mod b = 0) [l..<l + n]) = [ceil_div l b..<ceil_div (l + n) b]"
proof (induction n)
  case (Suc n)
  have le: "ceil_div l b \<le> ceil_div (l + n) b" by (rule ceil_div_mono [OF assms]) simp
  show ?case
    using Suc le by (auto simp: ceil_div_Suc ceil_div_mod [OF assms, of "l + n"] split: if_splits)
qed simp

lemma div_less_ceil_div:
  assumes "0 < b" "i < n"
  shows "i div b < ceil_div n b"
proof -
  have "i div b \<le> (n - 1) div b" using assms by (intro div_le_mono) simp
  then show ?thesis using assms by (simp add: ceil_div_def)
qed

section \<open>Lists and multisets\<close>

lemma find_SomeD: "find P xs = Some x \<Longrightarrow> x \<in> set xs \<and> P x"
  by (auto simp: find_Some_iff)

lemma distinct_remdups_adj_sorted:
  "sorted xs \<Longrightarrow> distinct (remdups_adj (xs :: 'a :: linorder list))"
  by (induction xs rule: remdups_adj.induct) (auto simp: order.strict_iff_order)

lemma mset_update_swap:
  assumes "i < length xs" "j < length xs" "i \<noteq> j"
  shows "mset ((xs[i := xs ! j])[j := v]) = mset (xs[i := v])"
proof -
  have "(xs[i := xs ! j])[j := v] = (xs[i := v])[i := xs[i := v] ! j, j := xs[i := v] ! i]"
    using assms by (simp add: list_update_swap)
  also have "mset \<dots> = mset (xs[i := v])"
    using assms by (intro mset_swap) simp_all
  finally show ?thesis .
qed

lemma mset_butlast: "xs \<noteq> [] \<Longrightarrow> mset (butlast xs) = mset xs - {#last xs#}"
  by (induction xs) auto

lemma distinct_mset_eq_set: "mset xs = mset ys \<Longrightarrow> distinct xs = distinct ys"
  by (rule mset_eq_imp_distinct_iff)

lemma distinct_submset:
  assumes "mset xs \<subseteq># mset ys" "distinct ys"
  shows "distinct xs"
  unfolding distinct_count_atmost_1
proof
  fix a
  have "count (mset xs) a \<le> count (mset ys) a" using assms(1) by (rule mset_subset_eq_count)
  also have "\<dots> \<le> 1" using assms(2) by (simp add: distinct_count_atmost_1)
  finally show "count (mset xs) a = (if a \<in> set xs then 1 else 0)"
    by (auto simp: le_Suc_eq)
qed

lemma take_of_snoc:
  assumes "take (Suc (length xs)) ys = xs @ [x]"
  shows "take (length xs) ys = xs"
  using arg_cong [OF assms, of "take (length xs)"] by (simp add: min_def)

lemma sum_list_map_update:
  fixes f :: "'a \<Rightarrow> 'b::cancel_comm_monoid_add"
  assumes "i < length xs"
  shows "sum_list (map f (xs[i := y])) + f (xs ! i) = sum_list (map f xs) + f y"
  using assms
proof (induction xs arbitrary: i)
  case (Cons x xs)
  then show ?case by (cases i) (auto simp: ac_simps)
qed simp

lemma sum_list_map_ge:
  fixes f :: "'a \<Rightarrow> 'b multiset"
  assumes "i < length xs"
  shows "f (xs ! i) \<subseteq># sum_list (map f xs)"
  using assms
proof (induction xs arbitrary: i)
  case (Cons x xs)
  then show ?case
    by (cases i) (auto intro: subset_mset.order_trans [OF _ mset_subset_eq_add_right])
qed simp

lemma sum_list_map_two_ge:
  fixes f :: "'a \<Rightarrow> 'b multiset"
  assumes "i < length xs" "j < length xs" "i \<noteq> j"
  shows "f (xs ! i) + f (xs ! j) \<subseteq># sum_list (map f xs)"
  using assms
proof (induction xs arbitrary: i j)
  case (Cons x xs)
  have one: "f (xs ! k) + f x \<subseteq># f x + sum_list (map f xs)" if "k < length xs" for k
    using sum_list_map_ge [of k xs f] that by (simp add: add.commute)
  show ?case
  proof (cases i; cases j)
    fix i' j' assume "i = Suc i'" "j = Suc j'"
    with Cons have "f (xs ! i') + f (xs ! j') \<subseteq># sum_list (map f xs)" by simp
    then show ?thesis using \<open>i = Suc i'\<close> \<open>j = Suc j'\<close>
      by (auto intro: subset_mset.order_trans [OF _ mset_subset_eq_add_right])
  qed (use Cons.prems one in \<open>auto simp: add.commute\<close>)
qed simp

lemma filter_upt_update:
  assumes "i < length xs" "P (xs ! i)" "\<not> P y"
  shows "mset (filter (\<lambda>k. P (xs ! k)) [0..<length xs]) =
         add_mset i (mset (filter (\<lambda>k. P (xs[i := y] ! k)) [0..<length xs]))"
proof -
  have "[0..<length xs] = [0..<i] @ i # [Suc i..<length xs]"
    using assms(1) upt_add_eq_append [of 0 i "length xs - i"] by (simp add: upt_conv_Cons)
  moreover have "filter (\<lambda>k. P (xs[i := y] ! k)) [0..<i] = filter (\<lambda>k. P (xs ! k)) [0..<i]"
    by (rule filter_cong) auto
  moreover have "filter (\<lambda>k. P (xs[i := y] ! k)) [Suc i..<length xs] = filter (\<lambda>k. P (xs ! k)) [Suc i..<length xs]"
    by (rule filter_cong) auto
  ultimately show ?thesis using assms by simp
qed

end
