(* ===== verification/Std_Heap.thy ===== *)
theory Std_Heap
  imports Prelude
begin

text \<open>
  The C++ heap algorithms \<open>std::push_heap\<close> and \<open>std::pop_heap\<close> on a vector, with the
  comparator as a parameter. The bodies follow libstdc++: a push sifts the last element up
  from the hole it leaves, a pop walks the hole from the root down to a leaf along the
  larger child and then sifts the displaced last element up from there. The sources use
  them with \<open>std::greater\<close> (lowest index first) and with the draft tree's \<open>Worse\<close>.
\<close>

function sift_up :: "('a \<Rightarrow> 'a \<Rightarrow> bool) \<Rightarrow> 'a list \<Rightarrow> nat \<Rightarrow> 'a \<Rightarrow> 'a list" where
  "sift_up cmp xs hole v =
     (if hole > 0 \<and> cmp (xs ! ((hole - 1) div 2)) v
      then sift_up cmp (xs[hole := xs ! ((hole - 1) div 2)]) ((hole - 1) div 2) v
      else xs[hole := v])"
  by pat_completeness auto
termination
  by (relation "measure (\<lambda>(cmp, xs, hole, v). hole)") auto

declare sift_up.simps [simp del]

definition push_heap :: "('a \<Rightarrow> 'a \<Rightarrow> bool) \<Rightarrow> 'a list \<Rightarrow> 'a list" where
  "push_heap cmp xs = sift_up cmp xs (length xs - 1) (last xs)"

definition larger_child :: "('a \<Rightarrow> 'a \<Rightarrow> bool) \<Rightarrow> 'a list \<Rightarrow> nat \<Rightarrow> nat \<Rightarrow> nat" where
  "larger_child cmp xs n hole =
     (if 2 * hole + 2 < n
      then (if cmp (xs ! (2 * hole + 2)) (xs ! (2 * hole + 1)) then 2 * hole + 1 else 2 * hole + 2)
      else 2 * hole + 1)"

lemma larger_child_gt [simp]: "hole < larger_child cmp xs n hole"
  by (simp add: larger_child_def)

lemma larger_child_less: "2 * hole + 1 < n \<Longrightarrow> larger_child cmp xs n hole < n"
  by (simp add: larger_child_def)

function sink_hole :: "('a \<Rightarrow> 'a \<Rightarrow> bool) \<Rightarrow> 'a list \<Rightarrow> nat \<Rightarrow> 'a list \<times> nat" where
  "sink_hole cmp xs hole =
     (if 2 * hole + 1 < length xs
      then sink_hole cmp (xs[hole := xs ! larger_child cmp xs (length xs) hole])
                     (larger_child cmp xs (length xs) hole)
      else (xs, hole))"
  by pat_completeness auto
termination
proof (relation "measure (\<lambda>(cmp, xs, hole). length xs - hole)", goal_cases)
  case (2 cmp xs hole)
  then have "hole < length xs" by simp
  then have "length xs - larger_child cmp xs (length xs) hole < length xs - hole"
    by (rule diff_less_mono2 [OF larger_child_gt])
  then show ?case by simp
qed simp

declare sink_hole.simps [simp del]

text \<open>
  \<open>pop_heap\<close> followed by \<open>pop_back\<close>, the only way the sources use it: the front leaves the
  vector and the rest is a heap again.
\<close>

definition pop_heap_back :: "('a \<Rightarrow> 'a \<Rightarrow> bool) \<Rightarrow> 'a list \<Rightarrow> 'a list" where
  "pop_heap_back cmp xs =
     (if butlast xs = [] then []
      else (let (zs, hole) = sink_hole cmp (butlast xs) 0 in sift_up cmp zs hole (last xs)))"

section \<open>Elements are only moved\<close>

lemma length_sift_up [simp]: "length (sift_up cmp xs h v) = length xs"
proof (induction cmp xs h v rule: sift_up.induct)
  case (1 cmp xs h v)
  then show ?case by (subst sift_up.simps) simp
qed

lemma mset_sift_up: "h < length xs \<Longrightarrow> mset (sift_up cmp xs h v) = mset (xs[h := v])"
proof (induction cmp xs h v rule: sift_up.induct)
  case (1 cmp xs h v)
  show ?case
  proof (cases "h > 0 \<and> cmp (xs ! ((h - 1) div 2)) v")
    case True
    then have "(h - 1) div 2 < h" by linarith
    then show ?thesis
      using 1 True by (subst sift_up.simps) (simp add: mset_update_swap)
  next
    case False
    then show ?thesis by (subst sift_up.simps) auto
  qed
qed

lemma mset_sink_hole:
  "h < length xs \<Longrightarrow> sink_hole cmp xs h = (ys, h') \<Longrightarrow>
     h' < length ys \<and> length ys = length xs \<and> mset (ys[h' := v]) = mset (xs[h := v])"
proof (induction cmp xs h arbitrary: ys h' rule: sink_hole.induct)
  case (1 cmp xs h)
  show ?case
  proof (cases "2 * h + 1 < length xs")
    case True
    define c where "c = larger_child cmp xs (length xs) h"
    have c: "c < length xs" "c \<noteq> h"
      using True by (auto simp: c_def larger_child_def)
    from "1.prems"(2) True have "sink_hole cmp (xs[h := xs ! c]) c = (ys, h')"
      by (subst (asm) sink_hole.simps) (simp add: c_def)
    from "1.IH" [OF True, folded c_def, OF _ this] c have "h' < length ys \<and> length ys = length xs \<and>
        mset (ys[h' := v]) = mset (xs[h := xs ! c, c := v])"
      by simp
    then show ?thesis using c "1.prems"(1) by (simp add: mset_update_swap)
  next
    case False
    with "1.prems" show ?thesis by (subst (asm) sink_hole.simps) auto
  qed
qed

section \<open>The heap property\<close>

text \<open>\<open>cmp a b\<close> reads "a goes after b": a heap never has a parent that goes after its child.\<close>

definition is_heap :: "('a \<Rightarrow> 'a \<Rightarrow> bool) \<Rightarrow> 'a list \<Rightarrow> bool" where
  "is_heap cmp xs \<longleftrightarrow> (\<forall>i \<in> {0<..<length xs}. \<not> cmp (xs ! ((i - 1) div 2)) (xs ! i))"

text \<open>
  The invariant of both loops: every edge that does not touch the hole is in order, and
  every child of the hole is in order below the hole's parent.
\<close>

definition hole_ok :: "('a \<Rightarrow> 'a \<Rightarrow> bool) \<Rightarrow> 'a list \<Rightarrow> nat \<Rightarrow> bool" where
  "hole_ok cmp xs h \<longleftrightarrow> h < length xs \<and>
     (\<forall>i \<in> {0<..<length xs}. i \<noteq> h \<and> (i - 1) div 2 \<noteq> h \<longrightarrow> \<not> cmp (xs ! ((i - 1) div 2)) (xs ! i)) \<and>
     (\<forall>i \<in> {0<..<length xs}. 0 < h \<and> (i - 1) div 2 = h \<longrightarrow> \<not> cmp (xs ! ((h - 1) div 2)) (xs ! i))"

locale strict_weak_order =
  fixes cmp :: "'a \<Rightarrow> 'a \<Rightarrow> bool"
  assumes cmp_irrefl: "\<not> cmp x x"
    and cmp_trans: "cmp x y \<Longrightarrow> cmp y z \<Longrightarrow> cmp x z"
    and cmp_neg_trans: "\<not> cmp x y \<Longrightarrow> \<not> cmp y z \<Longrightarrow> \<not> cmp x z"
begin

lemma cmp_asym: "cmp x y \<Longrightarrow> \<not> cmp y x"
  using cmp_irrefl cmp_trans by blast

lemma hole_okD:
  assumes "hole_ok cmp xs h" "0 < i" "i < length xs"
  shows "i \<noteq> h \<Longrightarrow> (i - 1) div 2 \<noteq> h \<Longrightarrow> \<not> cmp (xs ! ((i - 1) div 2)) (xs ! i)"
    and "0 < h \<Longrightarrow> (i - 1) div 2 = h \<Longrightarrow> \<not> cmp (xs ! ((h - 1) div 2)) (xs ! i)"
  using assms by (auto simp: hole_ok_def)

lemma hole_up:
  assumes ok: "hole_ok cmp xs h" and h: "0 < h" and p: "p = (h - 1) div 2"
  shows "hole_ok cmp (xs[h := xs ! p]) p"
proof -
  have len: "h < length xs" using ok by (simp add: hole_ok_def)
  have ph: "p < h" using h p by linarith
  have up: "\<not> cmp (xs ! ((p - 1) div 2)) (xs ! p)" if "0 < p"
    using hole_okD(1) [OF ok that, of] ph len that by simp
  have "\<not> cmp (xs[h := xs ! p] ! ((i - 1) div 2)) (xs[h := xs ! p] ! i)"
    if i: "0 < i" "i < length xs" "i \<noteq> p" "(i - 1) div 2 \<noteq> p" for i
  proof (cases "(i - 1) div 2 = h")
    case True
    then have "i \<noteq> h" using i by linarith
    then show ?thesis using hole_okD(2) [OF ok i(1,2) h True] True len p by simp
  next
    case False
    then show ?thesis using hole_okD(1) [OF ok i(1,2)] i p by (cases "i = h") auto
  qed
  moreover have "\<not> cmp (xs[h := xs ! p] ! ((p - 1) div 2)) (xs[h := xs ! p] ! i)"
    if i: "0 < i" "i < length xs" "0 < p" "(i - 1) div 2 = p" for i
  proof -
    have q: "(p - 1) div 2 \<noteq> h" using ph by linarith
    show ?thesis
    proof (cases "i = h")
      case True
      then show ?thesis using up i(3) q len by simp
    next
      case False
      then have "\<not> cmp (xs ! p) (xs ! i)" using hole_okD(1) [OF ok i(1,2)] i(4) ph by simp
      then show ?thesis using cmp_neg_trans [OF up [OF i(3)]] False q by simp
    qed
  qed
  ultimately show ?thesis using ph len by (simp add: hole_ok_def)
qed

lemma sift_up_heap:
  assumes "hole_ok cmp xs h"
    and "\<forall>i \<in> {0<..<length xs}. (i - 1) div 2 = h \<longrightarrow> \<not> cmp v (xs ! i)"
  shows "is_heap cmp (sift_up cmp xs h v)"
  using assms
proof (induction h arbitrary: xs rule: less_induct)
  case (less h)
  define p where "p = (h - 1) div 2"
  have len: "h < length xs" using less.prems by (simp add: hole_ok_def)
  show ?case
  proof (cases "h > 0 \<and> cmp (xs ! p) v")
    case True
    then have ph: "p < h" by (simp add: p_def) linarith
    have "\<not> cmp v (xs[h := xs ! p] ! i)" if i: "0 < i" "i < length xs" "(i - 1) div 2 = p" for i
    proof (cases "i = h")
      case True
      then show ?thesis using \<open>h > 0 \<and> cmp (xs ! p) v\<close> len cmp_asym by simp
    next
      case False
      then have "\<not> cmp (xs ! p) (xs ! i)"
        using hole_okD(1) [OF less.prems(1) i(1,2)] i(3) ph by simp
      then show ?thesis using True False cmp_trans by auto
    qed
    then have "is_heap cmp (sift_up cmp (xs[h := xs ! p]) p v)"
      using less.IH [OF ph hole_up [OF less.prems(1) _ p_def]] True by simp
    then show ?thesis using True by (subst sift_up.simps) (simp add: p_def)
  next
    case False
    have "\<not> cmp (xs[h := v] ! ((i - 1) div 2)) (xs[h := v] ! i)" if i: "0 < i" "i < length xs" for i
    proof -
      have "(i - 1) div 2 \<noteq> i" using i by linarith
      then show ?thesis
        using hole_okD(1) [OF less.prems(1) i] less.prems(2) False i len
        by (cases "i = h"; cases "(i - 1) div 2 = h") (auto simp: p_def)
    qed
    then show ?thesis using False by (subst sift_up.simps) (auto simp: p_def is_heap_def)
  qed
qed

lemma hole_down:
  assumes ok: "hole_ok cmp xs h" and ch: "2 * h + 1 < length xs"
    and c: "c = larger_child cmp xs (length xs) h"
  shows "hole_ok cmp (xs[h := xs ! c]) c"
proof -
  have c_cases: "c = 2 * h + 1 \<or> c = 2 * h + 2" and cl: "c < length xs"
    using larger_child_less [OF ch, of cmp xs] by (auto simp: c larger_child_def)
  then have par: "(c - 1) div 2 = h" and hc: "h < c" by auto
  have sib: "\<not> cmp (xs ! c) (xs ! i)" if "(i - 1) div 2 = h" "0 < i" "i < length xs" for i
  proof -
    have "i = 2 * h + 1 \<or> i = 2 * h + 2" using that by linarith
    moreover have "\<not> cmp (xs ! (2 * h + 1)) (xs ! (2 * h + 2))" if "c = 2 * h + 1" "2 * h + 2 < length xs"
      using that cmp_asym c by (auto simp: larger_child_def split: if_splits)
    moreover have "\<not> cmp (xs ! (2 * h + 2)) (xs ! (2 * h + 1))" if "c = 2 * h + 2"
      using that c by (auto simp: larger_child_def split: if_splits)
    ultimately show ?thesis using that(3) c_cases cmp_irrefl by auto
  qed
  have "\<not> cmp (xs[h := xs ! c] ! ((i - 1) div 2)) (xs[h := xs ! c] ! i)"
    if i: "0 < i" "i < length xs" "i \<noteq> c" "(i - 1) div 2 \<noteq> c" for i
  proof -
    have "(i - 1) div 2 \<noteq> i" using i by linarith
    then show ?thesis
      using hole_okD(1) [OF ok i(1,2)] hole_okD(2) [OF ok _ cl] sib [OF _ i(1,2)] hc par i
      by (cases "i = h"; cases "(i - 1) div 2 = h") auto
  qed
  moreover have "\<not> cmp (xs[h := xs ! c] ! ((c - 1) div 2)) (xs[h := xs ! c] ! i)"
    if i: "0 < i" "i < length xs" "(i - 1) div 2 = c" for i
    using hole_okD(1) [OF ok i(1,2)] i par hc cl by auto
  ultimately show ?thesis using cl by (simp add: hole_ok_def)
qed

lemma sink_hole_ok:
  "hole_ok cmp xs h \<Longrightarrow> sink_hole cmp xs h = (ys, h') \<Longrightarrow>
     hole_ok cmp ys h' \<and> length ys \<le> 2 * h' + 1"
proof (induction "length xs - h" arbitrary: xs h rule: less_induct)
  case less
  show ?case
  proof (cases "2 * h + 1 < length xs")
    case True
    define c where "c = larger_child cmp xs (length xs) h"
    have "length xs - c < length xs - h"
      using True by (intro diff_less_mono2) (simp_all add: c_def)
    moreover have "sink_hole cmp (xs[h := xs ! c]) c = (ys, h')"
      using less.prems(2) True by (subst (asm) sink_hole.simps) (simp add: c_def)
    ultimately show ?thesis
      using less.hyps [OF _ hole_down [OF less.prems(1) True c_def]] by simp
  next
    case False
    then show ?thesis using less.prems by (subst (asm) sink_hole.simps) auto
  qed
qed

lemma is_heap_butlast: "is_heap cmp xs \<Longrightarrow> is_heap cmp (butlast xs)"
  by (auto simp: is_heap_def nth_butlast)

lemma is_heap_hole: "is_heap cmp xs \<Longrightarrow> xs \<noteq> [] \<Longrightarrow> hole_ok cmp xs 0"
  by (auto simp: is_heap_def hole_ok_def)

lemma push_heap_is_heap: "is_heap cmp xs \<Longrightarrow> is_heap cmp (push_heap cmp (xs @ [v]))"
  unfolding push_heap_def
  by (rule sift_up_heap) (auto simp: hole_ok_def is_heap_def nth_append)

lemma pop_heap_is_heap:
  assumes "is_heap cmp xs"
  shows "is_heap cmp (pop_heap_back cmp xs)"
proof (cases "butlast xs = []")
  case True
  then show ?thesis by (simp add: pop_heap_back_def is_heap_def)
next
  case False
  obtain ys h where s: "sink_hole cmp (butlast xs) 0 = (ys, h)" by fastforce
  have ok: "hole_ok cmp ys h" "length ys \<le> 2 * h + 1"
    using sink_hole_ok [OF is_heap_hole [OF is_heap_butlast [OF assms] False] s] by auto
  have "is_heap cmp (sift_up cmp ys h (last xs))"
  proof (rule sift_up_heap [OF ok(1)], intro ballI impI)
    fix i assume "i \<in> {0<..<length ys}" "(i - 1) div 2 = h"
    with ok(2) have False by simp linarith
    then show "\<not> cmp (last xs) (ys ! i)" ..
  qed
  then show ?thesis using s False by (simp add: pop_heap_back_def)
qed

lemma heap_front: "is_heap cmp xs \<Longrightarrow> i < length xs \<Longrightarrow> \<not> cmp (xs ! 0) (xs ! i)"
proof (induction i rule: less_induct)
  case (less i)
  show ?case
  proof (cases "i = 0")
    case False
    then have "(i - 1) div 2 < i" by linarith
    with less have "\<not> cmp (xs ! 0) (xs ! ((i - 1) div 2))" by simp
    moreover have "\<not> cmp (xs ! ((i - 1) div 2)) (xs ! i)"
      using less.prems False by (simp add: is_heap_def)
    ultimately show ?thesis by (rule cmp_neg_trans)
  qed (simp add: cmp_irrefl)
qed

end

lemma mset_push_heap: "mset (push_heap cmp (xs @ [v])) = add_mset v (mset xs)"
  by (simp add: push_heap_def mset_sift_up)

lemma mset_pop_heap_back:
  assumes "xs \<noteq> []"
  shows "mset (pop_heap_back cmp xs) = mset xs - {#hd xs#}"
proof (cases "butlast xs = []")
  case True
  then show ?thesis using assms by (cases xs) (auto simp: pop_heap_back_def split: if_splits)
next
  case False
  obtain ys h where s: "sink_hole cmp (butlast xs) 0 = (ys, h)" by fastforce
  have "0 < length (butlast xs)" using False by (rule length_greater_0_conv [THEN iffD2])
  then have sk: "h < length ys" "mset (ys[h := last xs]) = mset ((butlast xs)[0 := last xs])"
    using mset_sink_hole [OF _ s, of "last xs"] by auto
  have "mset (pop_heap_back cmp xs) = mset ((butlast xs)[0 := last xs])"
    using s False sk by (simp add: pop_heap_back_def mset_sift_up)
  also obtain z zs where "butlast xs = z # zs" using False by (cases "butlast xs") auto
  then have "mset ((butlast xs)[0 := last xs]) = mset xs - {#hd xs#}"
    using assms by (cases xs) (auto simp: mset_butlast split: if_splits)
  finally show ?thesis .
qed

end
