(* ===== verification/Paged_Kv_Pool.thy ===== *)
theory Paged_Kv_Pool
  imports Std_Heap
begin

text \<open>
  The block allocator behind paged attention (\<open>common/concurrency/paged_kv_pool.h\<close> and
  \<open>.cpp\<close>): sequence slots with generations, per-sequence block tables, private reservations
  and the global free lists. The pool keeps indices only. Every operation returns its status
  and the new pool; \<open>std::bad_alloc\<close> is not modelled (the header leaves the pool state
  unspecified then).
\<close>

section \<open>Data\<close>

datatype PagedKvStatus =
  Ok | InvalidArgument | DuplicateRequest | SequenceSlotsExhausted | BlocksExhausted | StaleHandle

fun paged_kv_status_string :: "PagedKvStatus \<Rightarrow> string" where
  "paged_kv_status_string Ok = ''ok''"
| "paged_kv_status_string InvalidArgument = ''invalid argument''"
| "paged_kv_status_string DuplicateRequest = ''duplicate request''"
| "paged_kv_status_string SequenceSlotsExhausted = ''sequence slots exhausted''"
| "paged_kv_status_string BlocksExhausted = ''physical blocks exhausted''"
| "paged_kv_status_string StaleHandle = ''stale sequence handle''"

record PagedKvSequenceHandle =
  handle_slot :: nat
  handle_generation :: u64

definition default_handle :: PagedKvSequenceHandle where
  "default_handle = \<lparr>handle_slot = u32_max, handle_generation = 0\<rparr>"

record PagedKvWriteSlot =
  logical_position :: nat
  physical_block :: nat
  block_offset :: nat
  physical_token_index :: nat

definition default_write_slot :: PagedKvWriteSlot where
  "default_write_slot =
     \<lparr>logical_position = 0, physical_block = 0, block_offset = 0, physical_token_index = 0\<rparr>"

record PagedKvAppendResult =
  ar_status :: PagedKvStatus
  ar_token_count :: nat
  ar_write_slots :: "PagedKvWriteSlot list"
  ar_first :: PagedKvWriteSlot
  ar_last :: PagedKvWriteSlot

definition append_status :: "PagedKvStatus \<Rightarrow> PagedKvAppendResult" where
  "append_status st = \<lparr>ar_status = st, ar_token_count = 0, ar_write_slots = [],
     ar_first = default_write_slot, ar_last = default_write_slot\<rparr>"

record PagedKvSequenceSnapshot =
  snap_kv_seq_len :: nat
  snap_block_table :: "nat list"
  snap_reserved_block_count :: nat

record SequenceState =
  request_id :: u64
  generation :: u64
  kv_seq_len :: nat
  active :: bool
  block_table :: "nat list"
  retry_blocks :: "nat list"
  reserved_blocks :: "nat list"

definition fresh_sequence :: SequenceState where
  "fresh_sequence = \<lparr>request_id = 0, generation = 0, kv_seq_len = 0, active = False,
     block_table = [], retry_blocks = [], reserved_blocks = []\<rparr>"

record PagedKvPool =
  block_size :: nat
  physical_block_count :: nat
  sequences :: "SequenceState list"
  free_sequence_slots :: "nat list"
  free_blocks :: "nat list"
  request_to_slot :: "u64 \<rightharpoonup> nat"

section \<open>Free lists\<close>

definition take_lowest :: "nat list \<Rightarrow> nat \<times> nat list" where
  "take_lowest free_list = (hd free_list, pop_heap_back (>) free_list)"

definition give_back :: "nat list \<Rightarrow> nat \<Rightarrow> nat list" where
  "give_back free_list index = push_heap (>) (free_list @ [index])"

definition refill :: "nat \<Rightarrow> nat list" where
  "refill n = [0..<n]"

section \<open>Operations\<close>

definition blocks_for_tokens :: "PagedKvPool \<Rightarrow> nat \<Rightarrow> nat" where
  "blocks_for_tokens p token_count =
     (if token_count = 0 then 0 else 1 + (token_count - 1) div block_size p)"

definition validate :: "PagedKvPool \<Rightarrow> PagedKvSequenceHandle \<Rightarrow> PagedKvStatus" where
  "validate p h =
     (if handle_slot h \<ge> length (sequences p) then StaleHandle
      else let s = sequences p ! handle_slot h in
        if \<not> active s \<or> generation s \<noteq> handle_generation h then StaleHandle else Ok)"

text \<open>The constructor throws \<open>std::invalid_argument\<close> (\<open>None\<close>) on impossible dimensions.\<close>

definition new_pool :: "nat \<Rightarrow> nat \<Rightarrow> nat \<Rightarrow> PagedKvPool option" where
  "new_pool n_blocks max_seqs bsize =
     (if n_blocks = 0 \<or> max_seqs = 0 \<or> bsize = 0 \<or> n_blocks * bsize > u32_max then None
      else Some \<lparr>block_size = bsize, physical_block_count = n_blocks,
        sequences = replicate max_seqs fresh_sequence,
        free_sequence_slots = refill max_seqs, free_blocks = refill n_blocks,
        request_to_slot = Map.empty\<rparr>)"

definition max_sequences :: "PagedKvPool \<Rightarrow> nat" where
  "max_sequences p = u32 (length (sequences p))"

definition active_sequence_count :: "PagedKvPool \<Rightarrow> nat" where
  "active_sequence_count p = u32 (card (dom (request_to_slot p)))"

definition free_block_count :: "PagedKvPool \<Rightarrow> nat" where
  "free_block_count p = u32 (length (free_blocks p))"

fun take_reserved_blocks :: "nat \<Rightarrow> SequenceState \<Rightarrow> nat list \<Rightarrow> SequenceState \<times> nat list" where
  "take_reserved_blocks 0 s free = (s, free)"
| "take_reserved_blocks (Suc n) s free =
     (let (b, free') = take_lowest free in
      take_reserved_blocks n (s\<lparr>reserved_blocks := give_back (reserved_blocks s) b\<rparr>) free')"

fun extend_loop :: "nat \<Rightarrow> SequenceState \<Rightarrow> nat list \<Rightarrow> SequenceState \<times> nat list" where
  "extend_loop 0 s free = (s, free)"
| "extend_loop (Suc n) s free =
     (if retry_blocks s \<noteq> []
      then extend_loop n (s\<lparr>block_table := block_table s @ [last (retry_blocks s)],
                            retry_blocks := butlast (retry_blocks s)\<rparr>) free
      else if reserved_blocks s = []
      then (let (b, free') = take_lowest free in
            extend_loop n (s\<lparr>block_table := block_table s @ [b]\<rparr>) free')
      else (let (b, rest) = take_lowest (reserved_blocks s) in
            extend_loop n (s\<lparr>block_table := block_table s @ [b], reserved_blocks := rest\<rparr>) free))"

definition extend_block_table ::
  "SequenceState \<Rightarrow> nat list \<Rightarrow> nat \<Rightarrow> PagedKvStatus \<times> SequenceState \<times> nat list" where
  "extend_block_table s free required =
     (let current = u32 (length (block_table s)) in
      if required \<le> current then (Ok, s, free)
      else let additional = required - current;
               available = length (retry_blocks s) + length (reserved_blocks s) + length free in
        if additional > available then (BlocksExhausted, s, free)
        else (Ok, extend_loop additional s free))"

definition put_sequence :: "PagedKvPool \<Rightarrow> nat \<Rightarrow> SequenceState \<Rightarrow> nat list \<Rightarrow> PagedKvPool" where
  "put_sequence p i s free = p\<lparr>sequences := (sequences p)[i := s], free_blocks := free\<rparr>"

text \<open>Generation 0 is reserved for handles that were never issued, so the counter skips it.\<close>

definition next_generation :: "u64 \<Rightarrow> u64" where
  "next_generation g = (if g + 1 = 0 then 1 else g + 1)"

definition acquire_reserved ::
  "PagedKvPool \<Rightarrow> u64 \<Rightarrow> nat \<Rightarrow> PagedKvSequenceHandle \<Rightarrow>
     PagedKvStatus \<times> PagedKvSequenceHandle \<times> PagedKvPool" where
  "acquire_reserved p rid token_capacity out =
     (if request_to_slot p rid \<noteq> None then (DuplicateRequest, out, p)
      else if free_sequence_slots p = [] then (SequenceSlotsExhausted, out, p)
      else let reserve_blocks = blocks_for_tokens p token_capacity in
        if reserve_blocks > length (free_blocks p) then (BlocksExhausted, out, p)
        else let (i, slots') = take_lowest (free_sequence_slots p);
                 s = sequences p ! i;
                 gen = next_generation (generation s);
                 (s', free') = take_reserved_blocks reserve_blocks
                    (s\<lparr>request_id := rid, generation := gen, active := True\<rparr>) (free_blocks p)
             in (Ok, \<lparr>handle_slot = i, handle_generation = gen\<rparr>,
                 (put_sequence p i s' free')\<lparr>free_sequence_slots := slots',
                    request_to_slot := (request_to_slot p)(rid \<mapsto> i)\<rparr>))"

definition acquire ::
  "PagedKvPool \<Rightarrow> u64 \<Rightarrow> PagedKvSequenceHandle \<Rightarrow>
     PagedKvStatus \<times> PagedKvSequenceHandle \<times> PagedKvPool" where
  "acquire p rid out = acquire_reserved p rid 0 out"

definition owned_blocks :: "SequenceState \<Rightarrow> nat list" where
  "owned_blocks s = block_table s @ retry_blocks s @ reserved_blocks s"

definition reserve_capacity ::
  "PagedKvPool \<Rightarrow> PagedKvSequenceHandle \<Rightarrow> nat \<Rightarrow> PagedKvStatus \<times> PagedKvPool" where
  "reserve_capacity p h token_capacity =
     (if validate p h \<noteq> Ok then (validate p h, p)
      else let s = sequences p ! handle_slot h;
               target = blocks_for_tokens p token_capacity;
               owned = length (block_table s) + length (retry_blocks s) + length (reserved_blocks s) in
        if target \<le> owned then (Ok, p)
        else let additional = target - u32 owned in
          if additional > length (free_blocks p) then (BlocksExhausted, p)
          else let (s', free') = take_reserved_blocks additional s (free_blocks p)
               in (Ok, put_sequence p (handle_slot h) s' free'))"

definition make_slot :: "PagedKvPool \<Rightarrow> SequenceState \<Rightarrow> nat \<Rightarrow> PagedKvWriteSlot" where
  "make_slot p s pos =
     (let phys = block_table s ! (pos div block_size p); off = pos mod block_size p in
      \<lparr>logical_position = pos, physical_block = phys, block_offset = off,
       physical_token_index = phys * block_size p + off\<rparr>)"

definition append_rows ::
  "PagedKvPool \<Rightarrow> PagedKvSequenceHandle \<Rightarrow> nat \<Rightarrow> bool \<Rightarrow> PagedKvAppendResult \<times> PagedKvPool" where
  "append_rows p h token_count only_first_last_slots =
     (if validate p h \<noteq> Ok \<or> token_count = 0 then (append_status (validate p h), p)
      else let s = sequences p ! handle_slot h in
        if token_count > u32_max - kv_seq_len s then (append_status InvalidArgument, p)
        else let old_len = kv_seq_len s; new_len = old_len + token_count;
                 (st, s', free') = extend_block_table s (free_blocks p) (blocks_for_tokens p new_len) in
          if st \<noteq> Ok then (append_status st, p)
          else ((append_status Ok)\<lparr>ar_token_count := token_count,
                  ar_write_slots := (if only_first_last_slots then []
                     else map (\<lambda>i. make_slot p s' (old_len + i)) [0..<token_count]),
                  ar_first := (if only_first_last_slots then make_slot p s' old_len
                     else default_write_slot),
                  ar_last := (if only_first_last_slots then make_slot p s' (new_len - 1)
                     else default_write_slot)\<rparr>,
                put_sequence p (handle_slot h) (s'\<lparr>kv_seq_len := new_len\<rparr>) free'))"

function rollback_loop :: "nat \<Rightarrow> SequenceState \<Rightarrow> SequenceState" where
  "rollback_loop restored_blocks s =
     (if length (block_table s) > restored_blocks
      then rollback_loop restored_blocks
             (s\<lparr>block_table := butlast (block_table s),
                retry_blocks := retry_blocks s @ [last (block_table s)]\<rparr>)
      else s)"
  by pat_completeness auto
termination
  by (relation "measure (\<lambda>(r, s). length (block_table s))") auto

declare rollback_loop.simps [simp del]

definition rollback_append ::
  "PagedKvPool \<Rightarrow> PagedKvSequenceHandle \<Rightarrow> nat \<Rightarrow> PagedKvStatus \<times> PagedKvPool" where
  "rollback_append p h token_count =
     (if validate p h \<noteq> Ok then (validate p h, p)
      else let s = sequences p ! handle_slot h in
        if token_count > kv_seq_len s then (InvalidArgument, p)
        else let restored = kv_seq_len s - token_count;
                 s' = rollback_loop (blocks_for_tokens p restored) s
             in (Ok, put_sequence p (handle_slot h) (s'\<lparr>kv_seq_len := restored\<rparr>) (free_blocks p)))"

definition clear ::
  "PagedKvPool \<Rightarrow> PagedKvSequenceHandle \<Rightarrow> PagedKvStatus \<times> PagedKvPool" where
  "clear p h =
     (if validate p h \<noteq> Ok then (validate p h, p)
      else let s = sequences p ! handle_slot h;
               free' = foldl give_back (foldl give_back (foldl give_back (free_blocks p)
                         (block_table s)) (reserved_blocks s)) (retry_blocks s)
           in (Ok, put_sequence p (handle_slot h)
                 (s\<lparr>kv_seq_len := 0, block_table := [], reserved_blocks := [], retry_blocks := []\<rparr>)
                 free'))"

definition release ::
  "PagedKvPool \<Rightarrow> PagedKvSequenceHandle \<Rightarrow> PagedKvStatus \<times> PagedKvPool" where
  "release p h =
     (let (st, p1) = clear p h in
      if st \<noteq> Ok then (st, p1)
      else let s = sequences p1 ! handle_slot h in
        (Ok, p1\<lparr>request_to_slot := (request_to_slot p1)(request_id s := None),
                sequences := (sequences p1)[handle_slot h := s\<lparr>request_id := 0, active := False\<rparr>],
                free_sequence_slots := give_back (free_sequence_slots p1) (handle_slot h)\<rparr>))"

definition reset :: "PagedKvPool \<Rightarrow> PagedKvPool" where
  "reset p = p\<lparr>request_to_slot := Map.empty,
     sequences := map (\<lambda>s. s\<lparr>request_id := 0, kv_seq_len := 0, active := False,
        block_table := [], reserved_blocks := [], retry_blocks := []\<rparr>) (sequences p),
     free_sequence_slots := refill (u32 (length (sequences p))),
     free_blocks := refill (physical_block_count p)\<rparr>"

definition sequence ::
  "PagedKvPool \<Rightarrow> PagedKvSequenceHandle \<Rightarrow> PagedKvSequenceSnapshot \<Rightarrow>
     PagedKvStatus \<times> PagedKvSequenceSnapshot" where
  "sequence p h out =
     (if validate p h \<noteq> Ok then (validate p h, out)
      else let s = sequences p ! handle_slot h in
        (Ok, \<lparr>snap_kv_seq_len = kv_seq_len s, snap_block_table = block_table s,
              snap_reserved_block_count = u32 (length (retry_blocks s) + length (reserved_blocks s))\<rparr>))"

definition owned_block_count ::
  "PagedKvPool \<Rightarrow> PagedKvSequenceHandle \<Rightarrow> nat \<Rightarrow> PagedKvStatus \<times> nat" where
  "owned_block_count p h out =
     (if validate p h \<noteq> Ok then (validate p h, out)
      else let s = sequences p ! handle_slot h in
        (Ok, u32 (length (block_table s) + length (retry_blocks s) + length (reserved_blocks s))))"

section \<open>The free lists hand out the lowest index\<close>

interpretation gt_order: strict_weak_order "(>) :: nat \<Rightarrow> nat \<Rightarrow> bool"
  by unfold_locales auto

text \<open>
  What the pool relies on of its free lists, and that the heap vectors provide it: an index
  given back is an element again, and a taken index is the least element.
\<close>

locale lowest_first_list =
  fixes take :: "nat list \<Rightarrow> nat \<times> nat list"
    and give :: "nat list \<Rightarrow> nat \<Rightarrow> nat list"
    and fill :: "nat \<Rightarrow> nat list"
    and ok :: "nat list \<Rightarrow> bool"
  assumes take_mset: "ok xs \<Longrightarrow> xs \<noteq> [] \<Longrightarrow> take xs = (b, ys) \<Longrightarrow> mset xs = add_mset b (mset ys)"
    and take_least: "ok xs \<Longrightarrow> xs \<noteq> [] \<Longrightarrow> take xs = (b, ys) \<Longrightarrow> x \<in> set xs \<Longrightarrow> b \<le> x"
    and take_ok: "ok xs \<Longrightarrow> take xs = (b, ys) \<Longrightarrow> ok ys"
    and give_mset: "mset (give xs b) = add_mset b (mset xs)"
    and give_ok: "ok xs \<Longrightarrow> ok (give xs b)"
    and fill_eq: "fill n = [0..<n]"
    and fill_ok: "ok (fill n)"
begin

lemma foldl_give_mset: "mset (foldl give xs ys) = mset ys + mset xs"
  by (induction ys arbitrary: xs) (auto simp: give_mset)

lemma foldl_give_ok: "ok xs \<Longrightarrow> ok (foldl give xs ys)"
  by (induction ys arbitrary: xs) (auto intro: give_ok)

lemma take_length: "ok xs \<Longrightarrow> xs \<noteq> [] \<Longrightarrow> take xs = (b, ys) \<Longrightarrow> length xs = Suc (length ys)"
  by (metis size_add_mset size_mset take_mset)

lemma take_from_range:
  assumes "ok xs" "mset xs = mset [k..<n]" "k < n" "take xs = (b, ys)"
  shows "b = k" and "mset ys = mset [Suc k..<n]" and "ok ys"
proof -
  have ne: "xs \<noteq> []" using assms(2,3) by (auto simp: mset_set_empty_iff)
  have st: "set xs = {k..<n}" using arg_cong [OF assms(2), of set_mset] by simp
  have "b \<in> set xs" using take_mset [OF assms(1) ne assms(4)] by (metis set_mset_mset union_single_eq_member)
  then have "k \<le> b" using st by simp
  moreover have "b \<le> k" using take_least [OF assms(1) ne assms(4)] st assms(3) by simp
  ultimately show "b = k" by simp
  then show "mset ys = mset [Suc k..<n]"
    using take_mset [OF assms(1) ne assms(4)] assms(2,3) by (simp add: upt_conv_Cons)
  show "ok ys" using take_ok assms by blast
qed

end

interpretation free_list: lowest_first_list take_lowest give_back refill "is_heap (>)"
proof (unfold_locales, goal_cases)
  case (1 xs b ys)
  then show ?case
    by (auto simp: take_lowest_def mset_pop_heap_back)
next
  case (2 xs b ys x)
  then obtain i where "x = xs ! i" "i < length xs" by (auto simp: in_set_conv_nth)
  with 2 show ?case using gt_order.heap_front [of xs i] by (auto simp: take_lowest_def hd_conv_nth)
next
  case (3 xs b ys)
  then show ?case by (auto simp: take_lowest_def intro: gt_order.pop_heap_is_heap)
next
  case (4 xs b)
  then show ?case by (simp add: give_back_def mset_push_heap)
next
  case (5 xs b)
  then show ?case by (simp add: give_back_def gt_order.push_heap_is_heap)
next
  case (6 n)
  then show ?case by (simp add: refill_def)
next
  case (7 n)
  then show ?case by (auto simp: refill_def is_heap_def)
qed

section \<open>Conservation of blocks in one sequence\<close>

abbreviation same_identity :: "SequenceState \<Rightarrow> SequenceState \<Rightarrow> bool" where
  "same_identity s s' \<equiv> request_id s' = request_id s \<and> generation s' = generation s \<and>
     kv_seq_len s' = kv_seq_len s \<and> active s' = active s"

text \<open>What a reservation does, as a relation between the two states.\<close>

definition reserves :: "nat \<Rightarrow> SequenceState \<Rightarrow> nat list \<Rightarrow> SequenceState \<Rightarrow> nat list \<Rightarrow> bool" where
  "reserves n s free s' free' \<longleftrightarrow>
     mset (owned_blocks s') + mset free' = mset (owned_blocks s) + mset free \<and>
     is_heap (>) free' \<and> is_heap (>) (reserved_blocks s') \<and> same_identity s s' \<and>
     block_table s' = block_table s \<and> retry_blocks s' = retry_blocks s \<and>
     length (reserved_blocks s') = length (reserved_blocks s) + n \<and> length free = n + length free'"

lemma length_give_back [simp]: "length (give_back xs b) = Suc (length xs)"
  by (metis free_list.give_mset size_add_mset size_mset)

lemma take_reserved_blocks_spec:
  "take_reserved_blocks n s free = (s', free') \<Longrightarrow> n \<le> length free \<Longrightarrow> is_heap (>) free \<Longrightarrow>
     is_heap (>) (reserved_blocks s) \<Longrightarrow> reserves n s free s' free'"
proof (induction n s free arbitrary: s' free' rule: take_reserved_blocks.induct)
  case (1 s free)
  then show ?case by (auto simp: reserves_def)
next
  case (2 n s free)
  obtain b free1 where t: "take_lowest free = (b, free1)" by fastforce
  have ne: "free \<noteq> []" using "2.prems"(2) by auto
  note m = free_list.take_mset [OF "2.prems"(3) ne t] free_list.take_length [OF "2.prems"(3) ne t]
    free_list.take_ok [OF "2.prems"(3) t]
  let ?s = "s\<lparr>reserved_blocks := give_back (reserved_blocks s) b\<rparr>"
  have "reserves n ?s free1 s' free'"
  proof (rule "2.IH" [OF t [symmetric] refl])
    show "take_reserved_blocks n ?s free1 = (s', free')" using "2.prems"(1) t by simp
  qed (use "2.prems" m in \<open>auto intro: free_list.give_ok\<close>)
  then show ?case using m by (auto simp: reserves_def owned_blocks_def free_list.give_mset)
qed

text \<open>What growing a block table does, as a relation between the two states.\<close>

definition extends :: "nat \<Rightarrow> SequenceState \<Rightarrow> nat list \<Rightarrow> SequenceState \<Rightarrow> nat list \<Rightarrow> bool" where
  "extends n s free s' free' \<longleftrightarrow>
     mset (owned_blocks s') + mset free' = mset (owned_blocks s) + mset free \<and>
     is_heap (>) free' \<and> is_heap (>) (reserved_blocks s') \<and>
     same_identity s s' \<and>
     length (block_table s') = length (block_table s) + n \<and>
     take (length (block_table s)) (block_table s') = block_table s \<and>
     (n \<le> length (retry_blocks s) + length (reserved_blocks s) \<longrightarrow> free' = free)"

lemma extend_loop_spec:
  "extend_loop n s free = (s', free') \<Longrightarrow>
     n \<le> length (retry_blocks s) + length (reserved_blocks s) + length free \<Longrightarrow>
     is_heap (>) free \<Longrightarrow> is_heap (>) (reserved_blocks s) \<Longrightarrow> extends n s free s' free'"
proof (induction n s free arbitrary: s' free' rule: extend_loop.induct)
  case (1 s free)
  then show ?case by (auto simp: extends_def)
next
  case (2 n s free)
  consider (retry) "retry_blocks s \<noteq> []"
    | (free) "retry_blocks s = []" "reserved_blocks s = []"
    | (reserved) "retry_blocks s = []" "reserved_blocks s \<noteq> []" by blast
  then show ?case
  proof cases
    case retry
    let ?s = "s\<lparr>block_table := block_table s @ [last (retry_blocks s)],
                 retry_blocks := butlast (retry_blocks s)\<rparr>"
    have len: "0 < length (retry_blocks s)" using retry by simp
    have "extends n ?s free s' free'"
    proof (rule "2.IH"(1) [OF retry])
      show "extend_loop n ?s free = (s', free')" using "2.prems"(1) retry by simp
    qed (use "2.prems" len in auto)
    moreover have "mset (owned_blocks ?s) = mset (owned_blocks s)"
      using retry by (simp add: owned_blocks_def mset_butlast)
    ultimately show ?thesis using len by (auto simp: extends_def dest: take_of_snoc)
  next
    case free
    obtain b free1 where t: "take_lowest free = (b, free1)" by fastforce
    let ?s = "s\<lparr>block_table := block_table s @ [b]\<rparr>"
    have ne: "free \<noteq> []" using "2.prems" free by auto
    note m = free_list.take_mset [OF "2.prems"(3) ne t] free_list.take_length [OF "2.prems"(3) ne t]
      free_list.take_ok [OF "2.prems"(3) t]
    have "extends n ?s free1 s' free'"
    proof (rule "2.IH"(2) [OF _ free(2) t [symmetric] refl])
      show "extend_loop n ?s free1 = (s', free')" using "2.prems"(1) free t by simp
    qed (use "2.prems" free m in auto)
    then show ?thesis using free m by (auto simp: extends_def owned_blocks_def dest: take_of_snoc)
  next
    case reserved
    obtain b rest where t: "take_lowest (reserved_blocks s) = (b, rest)" by fastforce
    let ?s = "s\<lparr>block_table := block_table s @ [b], reserved_blocks := rest\<rparr>"
    note m = free_list.take_mset [OF "2.prems"(4) reserved(2) t]
      free_list.take_length [OF "2.prems"(4) reserved(2) t] free_list.take_ok [OF "2.prems"(4) t]
    have "extends n ?s free s' free'"
    proof (rule "2.IH"(3) [OF _ reserved(2) t [symmetric] refl])
      show "extend_loop n ?s free = (s', free')" using "2.prems"(1) reserved t by simp
    qed (use "2.prems" reserved m in auto)
    then show ?thesis using reserved m by (auto simp: extends_def owned_blocks_def dest: take_of_snoc)
  qed
qed

lemma extend_loop_retry:
  "extend_loop (length new) (s\<lparr>retry_blocks := R @ rev new\<rparr>) free =
     (s\<lparr>block_table := block_table s @ new, retry_blocks := R\<rparr>, free)"
proof (induction new arbitrary: s)
  case (Cons b new)
  show ?case
    using Cons.IH [of "s\<lparr>block_table := block_table s @ [b]\<rparr>"]
    by (simp add: butlast_append flip: append_assoc)
qed simp

lemma rollback_loop_eq:
  "k \<le> length (block_table s) \<Longrightarrow>
   rollback_loop k s = s\<lparr>block_table := take k (block_table s),
      retry_blocks := retry_blocks s @ rev (drop k (block_table s))\<rparr>"
proof (induction k s rule: rollback_loop.induct)
  case (1 k s)
  show ?case
  proof (cases "k < length (block_table s)")
    case True
    then obtain xs x where bt: "block_table s = xs @ [x]" by (metis list.size(3) not_less0 rev_exhaust)
    with "1.IH" [OF True] True show ?thesis by (subst rollback_loop.simps) simp
  next
    case False
    with "1.prems" show ?thesis by (subst rollback_loop.simps) simp
  qed
qed

section \<open>The pool invariant\<close>

definition seq_inv :: "nat \<Rightarrow> SequenceState \<Rightarrow> bool" where
  "seq_inv bs s \<longleftrightarrow> is_heap (>) (reserved_blocks s) \<and>
     length (block_table s) = ceil_div (kv_seq_len s) bs \<and>
     (\<not> active s \<longrightarrow> kv_seq_len s = 0 \<and> owned_blocks s = [])"

text \<open>
  Every physical block is either free or owned by exactly one sequence (as an equation of
  multisets, so nothing is lost and nothing is shared), the free slots are the inactive ones,
  and the request index is the inverse of the active slots' request ids.
\<close>

definition pool_inv :: "PagedKvPool \<Rightarrow> bool" where
  "pool_inv p \<longleftrightarrow>
     0 < block_size p \<and> 0 < physical_block_count p \<and>
     physical_block_count p * block_size p \<le> u32_max \<and> length (sequences p) \<le> u32_max \<and>
     (\<forall>s \<in> set (sequences p). seq_inv (block_size p) s) \<and>
     is_heap (>) (free_blocks p) \<and> is_heap (>) (free_sequence_slots p) \<and>
     mset (free_blocks p) + sum_list (map (\<lambda>s. mset (owned_blocks s)) (sequences p))
       = mset [0..<physical_block_count p] \<and>
     mset (free_sequence_slots p)
       = mset (filter (\<lambda>i. \<not> active (sequences p ! i)) [0..<length (sequences p)]) \<and>
     (\<forall>r i. request_to_slot p r = Some i \<longleftrightarrow>
        i < length (sequences p) \<and> active (sequences p ! i) \<and> request_id (sequences p ! i) = r)"

lemma pool_invD:
  assumes "pool_inv p"
  shows "0 < block_size p" "0 < physical_block_count p"
    "physical_block_count p * block_size p \<le> u32_max" "length (sequences p) \<le> u32_max"
    "i < length (sequences p) \<Longrightarrow> seq_inv (block_size p) (sequences p ! i)"
    "is_heap (>) (free_blocks p)" "is_heap (>) (free_sequence_slots p)"
    "mset (free_blocks p) + sum_list (map (\<lambda>s. mset (owned_blocks s)) (sequences p))
       = mset [0..<physical_block_count p]"
    "mset (free_sequence_slots p)
       = mset (filter (\<lambda>i. \<not> active (sequences p ! i)) [0..<length (sequences p)])"
    "request_to_slot p r = Some i \<longleftrightarrow>
        i < length (sequences p) \<and> active (sequences p ! i) \<and> request_id (sequences p ! i) = r"
  using assms by (simp_all add: pool_inv_def)

lemma active_sequence_count_inv:
  assumes inv: "pool_inv p"
  shows "active_sequence_count p = length (filter active (sequences p))"
proof -
  let ?I = "{i. i < length (sequences p) \<and> active (sequences p ! i)}"
  have "bij_betw (\<lambda>i. request_id (sequences p ! i)) ?I (dom (request_to_slot p))"
    unfolding bij_betw_def inj_on_def using inv
    by (auto simp: pool_inv_def dom_def image_def) (metis option.inject)
  then have "card (dom (request_to_slot p)) = length (filter active (sequences p))"
    by (simp add: bij_betw_same_card [symmetric] length_filter_conv_card)
  moreover have "length (filter active (sequences p)) \<le> u32_max"
    using pool_invD(4) [OF inv] by (meson le_trans length_filter_le)
  ultimately show ?thesis by (simp add: active_sequence_count_def)
qed

lemma blocks_for_tokens_ceil [pool_simps]: "blocks_for_tokens p n = ceil_div n (block_size p)"
  by (simp add: blocks_for_tokens_def ceil_div_def)

lemma blocks_le_u32:
  assumes "pool_inv p"
  shows "physical_block_count p \<le> u32_max"
  using pool_invD(1,3) [OF assms] by (metis One_nat_def Suc_leI le_trans mult.right_neutral mult_le_mono2)

lemma free_owned_le:
  assumes "pool_inv p" "i < length (sequences p)"
  shows "length (free_blocks p) + length (owned_blocks (sequences p ! i)) \<le> physical_block_count p"
proof -
  have "mset (owned_blocks (sequences p ! i)) \<subseteq># sum_list (map (\<lambda>s. mset (owned_blocks s)) (sequences p))"
    using sum_list_map_ge [OF assms(2), of "\<lambda>s. mset (owned_blocks s)"] .
  then have "mset (free_blocks p) + mset (owned_blocks (sequences p ! i)) \<subseteq># mset [0..<physical_block_count p]"
    using pool_invD(8) [OF assms(1)] by (metis mset_subset_eq_mono_add_left_cancel)
  from size_mset_mono [OF this] show ?thesis by simp
qed

lemma free_le: "pool_inv p \<Longrightarrow> length (free_blocks p) \<le> physical_block_count p"
  using arg_cong [OF pool_invD(8) [of p], of size] by simp

lemma owned_le_u32:
  "pool_inv p \<Longrightarrow> i < length (sequences p) \<Longrightarrow> length (owned_blocks (sequences p ! i)) \<le> u32_max"
  using free_owned_le blocks_le_u32 by fastforce

lemma length_owned: "length (owned_blocks s) =
    length (block_table s) + length (retry_blocks s) + length (reserved_blocks s)"
  by (simp add: owned_blocks_def)

lemma put_sequence_simps [simp, pool_simps]:
  "block_size (put_sequence p i s free) = block_size p"
  "physical_block_count (put_sequence p i s free) = physical_block_count p"
  "sequences (put_sequence p i s free) = (sequences p)[i := s]"
  "free_sequence_slots (put_sequence p i s free) = free_sequence_slots p"
  "free_blocks (put_sequence p i s free) = free"
  "request_to_slot (put_sequence p i s free) = request_to_slot p"
  by (simp_all add: put_sequence_def)

lemma blocks_conserved:
  assumes inv: "pool_inv p" and i: "i < length (sequences p)"
    and cons: "mset (owned_blocks s') + mset free' = mset (owned_blocks (sequences p ! i)) + mset (free_blocks p)"
  shows "mset free' + sum_list (map (\<lambda>s. mset (owned_blocks s)) ((sequences p)[i := s']))
    = mset [0..<physical_block_count p]"
proof -
  let ?f = "\<lambda>s. mset (owned_blocks s)"
  have "sum_list (map ?f ((sequences p)[i := s'])) + ?f (sequences p ! i) = sum_list (map ?f (sequences p)) + ?f s'"
    using sum_list_map_update [OF i] .
  then have "mset free' + sum_list (map ?f ((sequences p)[i := s'])) + ?f (sequences p ! i)
      = sum_list (map ?f (sequences p)) + (?f s' + mset free')"
    by (simp add: ac_simps)
  also have "\<dots> = mset (free_blocks p) + sum_list (map ?f (sequences p)) + ?f (sequences p ! i)"
    unfolding cons by (simp add: ac_simps)
  finally have "mset free' + sum_list (map ?f ((sequences p)[i := s']))
      = mset (free_blocks p) + sum_list (map ?f (sequences p))"
    by (rule add_right_imp_eq)
  then show ?thesis using pool_invD(8) [OF inv] by simp
qed

lemma seq_inv_update:
  "pool_inv p \<Longrightarrow> seq_inv (block_size p) s' \<Longrightarrow> \<forall>s \<in> set ((sequences p)[i := s']). seq_inv (block_size p) s"
  using set_update_subset_insert [of "sequences p" i s'] by (auto simp: pool_inv_def)

lemma pool_inv_put:
  assumes inv: "pool_inv p" and i: "i < length (sequences p)"
    and s': "seq_inv (block_size p) s'" "active s' = active (sequences p ! i)"
      "request_id s' = request_id (sequences p ! i)"
    and cons: "mset (owned_blocks s') + mset free' = mset (owned_blocks (sequences p ! i)) + mset (free_blocks p)"
    and heap: "is_heap (>) free'"
  shows "pool_inv (put_sequence p i s' free')"
proof -
  have "active ((sequences p)[i := s'] ! k) = active (sequences p ! k)"
    "request_id ((sequences p)[i := s'] ! k) = request_id (sequences p ! k)" for k
    using s' i by (cases "k = i"; simp)+
  then show ?thesis
    using inv blocks_conserved [OF inv i cons] heap seq_inv_update [OF inv s'(1), of i]
    by (simp add: pool_inv_def)
qed

section \<open>Every operation, branch by branch\<close>

abbreviation seq_of :: "PagedKvPool \<Rightarrow> PagedKvSequenceHandle \<Rightarrow> SequenceState" where
  "seq_of p h \<equiv> sequences p ! handle_slot h"

lemma validate_Ok: "validate p h = Ok \<longleftrightarrow> handle_slot h < length (sequences p) \<and>
     active (seq_of p h) \<and> generation (seq_of p h) = handle_generation h"
  by (auto simp: validate_def Let_def)

lemma validate_not_Ok: "validate p h \<noteq> Ok \<longleftrightarrow> validate p h = StaleHandle"
  by (auto simp: validate_def Let_def)

lemma put_sequence_id [simp]: "put_sequence p i (sequences p ! i) (free_blocks p) = p"
  by (simp add: put_sequence_def)

lemma reserves_refl: "is_heap (>) free \<Longrightarrow> is_heap (>) (reserved_blocks s) \<Longrightarrow> reserves 0 s free s free"
  by (simp add: reserves_def)

lemma extends_refl: "is_heap (>) free \<Longrightarrow> is_heap (>) (reserved_blocks s) \<Longrightarrow> extends 0 s free s free"
  by (simp add: extends_def)

lemma reserves_seq_inv: "reserves n s free s' free' \<Longrightarrow> seq_inv bs s \<Longrightarrow> active s \<Longrightarrow> seq_inv bs s'"
  by (auto simp: reserves_def seq_inv_def)

lemma reserve_capacity_cases:
  assumes inv: "pool_inv p" and eq: "reserve_capacity p h c = (st, p')"
  obtains (stale) "st = StaleHandle" "validate p h = StaleHandle" "p' = p"
    | (exhausted) "st = BlocksExhausted" "validate p h = Ok" "p' = p"
        "length (owned_blocks (seq_of p h)) + length (free_blocks p) < ceil_div c (block_size p)"
    | (ok) s' free' where "st = Ok" "validate p h = Ok" "p' = put_sequence p (handle_slot h) s' free'"
        "reserves (ceil_div c (block_size p) - length (owned_blocks (seq_of p h)))
           (seq_of p h) (free_blocks p) s' free'"
        "ceil_div c (block_size p) \<le> length (owned_blocks (seq_of p h)) + length (free_blocks p)"
proof (cases "validate p h = Ok")
  case False
  then have v: "validate p h = StaleHandle" by (simp add: validate_not_Ok)
  then show ?thesis using stale eq by (auto simp: reserve_capacity_def)
next
  case True
  let ?s = "seq_of p h" and ?t = "ceil_div c (block_size p)"
  have i: "handle_slot h < length (sequences p)" using True by (simp add: validate_Ok)
  have u: "u32 (length (owned_blocks ?s)) = length (owned_blocks ?s)"
    using owned_le_u32 [OF inv i] by simp
  note eq' = eq [unfolded reserve_capacity_def Let_def blocks_for_tokens_ceil, folded length_owned, unfolded u]
  have heaps: "is_heap (>) (free_blocks p)" "is_heap (>) (reserved_blocks ?s)"
    using pool_invD(5,6) [OF inv] i by (auto simp: seq_inv_def)
  consider (fits) "?t \<le> length (owned_blocks ?s)"
    | (no) "\<not> ?t \<le> length (owned_blocks ?s)" "?t - length (owned_blocks ?s) > length (free_blocks p)"
    | (yes) "\<not> ?t \<le> length (owned_blocks ?s)" "?t - length (owned_blocks ?s) \<le> length (free_blocks p)"
    by linarith
  then show ?thesis
  proof cases
    case fits
    then have "st = Ok" "p' = p" using eq' True by auto
    then show ?thesis using fits reserves_refl [OF heaps] by (intro ok [OF _ True]) auto
  next
    case no
    then have "st = BlocksExhausted" "p' = p" using eq' True by auto
    then show ?thesis using no True by (intro exhausted) auto
  next
    case yes
    obtain s' free' where t: "take_reserved_blocks (?t - length (owned_blocks ?s)) ?s (free_blocks p) = (s', free')"
      by fastforce
    have "st = Ok" "p' = put_sequence p (handle_slot h) s' free'"
      using eq' True yes t by auto
    then show ?thesis
      using yes by (intro ok [OF _ True _ take_reserved_blocks_spec [OF t yes(2) heaps]]) auto
  qed
qed

lemma extends_seq_inv:
  assumes "extends n s free s' free'" "length (block_table s) + n = ceil_div len bs" "active s"
  shows "seq_inv bs (s'\<lparr>kv_seq_len := len\<rparr>)"
  using assms by (simp add: extends_def seq_inv_def)

definition append_ok_result ::
  "PagedKvPool \<Rightarrow> SequenceState \<Rightarrow> nat \<Rightarrow> nat \<Rightarrow> bool \<Rightarrow> PagedKvAppendResult" where
  "append_ok_result p s' len n ofl = \<lparr>ar_status = Ok, ar_token_count = n,
     ar_write_slots = (if ofl then [] else map (\<lambda>i. make_slot p s' (len + i)) [0..<n]),
     ar_first = (if ofl then make_slot p s' len else default_write_slot),
     ar_last = (if ofl then make_slot p s' (len + n - 1) else default_write_slot)\<rparr>"

lemma append_ok_result_fold:
  "(append_status Ok)\<lparr>ar_token_count := n,
     ar_write_slots := (if ofl then [] else map (\<lambda>i. make_slot p s' (len + i)) [0..<n]),
     ar_first := (if ofl then make_slot p s' len else default_write_slot),
     ar_last := (if ofl then make_slot p s' (len + n - 1) else default_write_slot)\<rparr>
   = append_ok_result p s' len n ofl"
  by (simp add: append_ok_result_def append_status_def)

lemma append_rows_cases:
  assumes inv: "pool_inv p" and eq: "append_rows p h n ofl = (r, p')"
  obtains (stale) "r = append_status StaleHandle" "validate p h = StaleHandle" "p' = p"
    | (none) "r = append_status Ok" "validate p h = Ok" "n = 0" "p' = p"
    | (overflow) "r = append_status InvalidArgument" "validate p h = Ok" "0 < n" "p' = p"
        "kv_seq_len (seq_of p h) + n > u32_max"
    | (exhausted) "r = append_status BlocksExhausted" "validate p h = Ok" "0 < n" "p' = p"
        "length (owned_blocks (seq_of p h)) + length (free_blocks p)
           < ceil_div (kv_seq_len (seq_of p h) + n) (block_size p)"
    | (ok) s' free' where "validate p h = Ok" "0 < n" "kv_seq_len (seq_of p h) + n \<le> u32_max"
        "r = append_ok_result p s' (kv_seq_len (seq_of p h)) n ofl"
        "p' = put_sequence p (handle_slot h) (s'\<lparr>kv_seq_len := kv_seq_len (seq_of p h) + n\<rparr>) free'"
        "extends (ceil_div (kv_seq_len (seq_of p h) + n) (block_size p) - length (block_table (seq_of p h)))
           (seq_of p h) (free_blocks p) s' free'"
        "extend_block_table (seq_of p h) (free_blocks p)
           (ceil_div (kv_seq_len (seq_of p h) + n) (block_size p)) = (Ok, s', free')"
        "ceil_div (kv_seq_len (seq_of p h) + n) (block_size p)
           \<le> length (owned_blocks (seq_of p h)) + length (free_blocks p)"
proof (cases "validate p h = Ok \<and> 0 < n \<and> kv_seq_len (seq_of p h) + n \<le> u32_max")
  case False
  then consider "validate p h \<noteq> Ok" | "validate p h = Ok" "n = 0"
    | "validate p h = Ok" "0 < n" "u32_max < kv_seq_len (seq_of p h) + n" by linarith
  then show ?thesis
  proof cases
    case 3
    then have "n > u32_max - kv_seq_len (seq_of p h)" by linarith
    then show ?thesis using 3 overflow eq by (simp add: append_rows_def Let_def)
  qed (use stale none eq validate_not_Ok [of p h] in \<open>auto simp: append_rows_def\<close>)
next
  case True
  let ?s = "seq_of p h" and ?t = "ceil_div (kv_seq_len (seq_of p h) + n) (block_size p)"
  have i: "handle_slot h < length (sequences p)" using True by (simp add: validate_Ok)
  have u: "u32 (length (block_table ?s)) = length (block_table ?s)"
    using owned_le_u32 [OF inv i] by (simp add: length_owned)
  obtain st0 s0 f0 where x: "extend_block_table ?s (free_blocks p) ?t = (st0, s0, f0)"
    by (rule prod_cases3)
  have "\<not> n > u32_max - kv_seq_len (seq_of p h)" using True by linarith
  then have "append_rows p h n ofl = (if st0 \<noteq> Ok then (append_status st0, p)
      else (append_ok_result p s0 (kv_seq_len ?s) n ofl,
        put_sequence p (handle_slot h) (s0\<lparr>kv_seq_len := kv_seq_len ?s + n\<rparr>) f0))"
    using True by (simp add: append_rows_def Let_def blocks_for_tokens_ceil x append_ok_result_fold)
  then have eq': "(if st0 \<noteq> Ok then (append_status st0, p)
      else (append_ok_result p s0 (kv_seq_len ?s) n ofl,
        put_sequence p (handle_slot h) (s0\<lparr>kv_seq_len := kv_seq_len ?s + n\<rparr>) f0)) = (r, p')"
    using eq by simp
  have heaps: "is_heap (>) (free_blocks p)" "is_heap (>) (reserved_blocks ?s)"
    using pool_invD(5,6) [OF inv] i by (auto simp: seq_inv_def)
  consider (fits) "?t \<le> length (block_table ?s)"
    | (no) "\<not> ?t \<le> length (block_table ?s)"
        "?t - length (block_table ?s) > length (retry_blocks ?s) + length (reserved_blocks ?s) + length (free_blocks p)"
    | (yes) "\<not> ?t \<le> length (block_table ?s)"
        "?t - length (block_table ?s) \<le> length (retry_blocks ?s) + length (reserved_blocks ?s) + length (free_blocks p)"
    by linarith
  then show ?thesis
  proof cases
    case fits
    have e: "extend_block_table ?s (free_blocks p) ?t = (Ok, ?s, free_blocks p)"
      using fits by (simp add: extend_block_table_def u)
    with x eq' have "r = append_ok_result p ?s (kv_seq_len ?s) n ofl"
      "p' = put_sequence p (handle_slot h) (?s\<lparr>kv_seq_len := kv_seq_len ?s + n\<rparr>) (free_blocks p)"
      by auto
    then show ?thesis
      using True fits extends_refl [OF heaps] by (intro ok [OF _ _ _ _ _ _ e]) (auto simp: length_owned)
  next
    case no
    then have "extend_block_table ?s (free_blocks p) ?t = (BlocksExhausted, ?s, free_blocks p)"
      by (simp add: extend_block_table_def u)
    with x eq' have "r = append_status BlocksExhausted" "p' = p" by auto
    then show ?thesis using no True by (intro exhausted) (auto simp: length_owned)
  next
    case yes
    obtain s' free' where t: "extend_loop (?t - length (block_table ?s)) ?s (free_blocks p) = (s', free')"
      by fastforce
    then have e: "extend_block_table ?s (free_blocks p) ?t = (Ok, s', free')"
      using yes by (simp add: extend_block_table_def u Let_def)
    with x eq' have "r = append_ok_result p s' (kv_seq_len ?s) n ofl"
      "p' = put_sequence p (handle_slot h) (s'\<lparr>kv_seq_len := kv_seq_len ?s + n\<rparr>) free'"
      by auto
    then show ?thesis
      using True yes by (intro ok [OF _ _ _ _ _ extend_loop_spec [OF t yes(2) heaps] e]) (auto simp: length_owned)
  qed
qed

lemma clear_ok:
  assumes inv: "pool_inv p" and v: "validate p h = Ok"
  obtains s' free' where "clear p h = (Ok, put_sequence p (handle_slot h) s' free')"
    "request_id s' = request_id (seq_of p h)" "generation s' = generation (seq_of p h)" "active s'"
    "kv_seq_len s' = 0" "owned_blocks s' = []"
    "mset free' = mset (owned_blocks (seq_of p h)) + mset (free_blocks p)" "is_heap (>) free'"
proof
  let ?s = "seq_of p h"
  let ?free = "foldl give_back (foldl give_back (foldl give_back (free_blocks p)
     (block_table ?s)) (reserved_blocks ?s)) (retry_blocks ?s)"
  let ?s' = "?s\<lparr>kv_seq_len := 0, block_table := [], reserved_blocks := [], retry_blocks := []\<rparr>"
  show "clear p h = (Ok, put_sequence p (handle_slot h) ?s' ?free)"
    using v by (simp add: clear_def Let_def)
  show "mset ?free = mset (owned_blocks (seq_of p h)) + mset (free_blocks p)"
    by (simp add: free_list.foldl_give_mset owned_blocks_def)
  show "is_heap (>) ?free"
    using inv by (intro free_list.foldl_give_ok) (simp add: pool_inv_def)
qed (use v in \<open>auto simp: owned_blocks_def validate_Ok\<close>)

lemma clear_stale: "validate p h \<noteq> Ok \<Longrightarrow> clear p h = (StaleHandle, p)"
  by (simp add: clear_def validate_not_Ok)

lemma free_slot_iff:
  assumes "pool_inv p"
  shows "i \<in> set (free_sequence_slots p) \<longleftrightarrow> i < length (sequences p) \<and> \<not> active (sequences p ! i)"
  using arg_cong [OF pool_invD(9) [OF assms], of set_mset] by (auto simp: set_eq_iff)

lemma acquire_reserved_cases:
  assumes inv: "pool_inv p" and eq: "acquire_reserved p rid c out = (st, out', p')"
  obtains (duplicate) "st = DuplicateRequest" "out' = out" "p' = p" "request_to_slot p rid \<noteq> None"
    | (slots) "st = SequenceSlotsExhausted" "out' = out" "p' = p" "free_sequence_slots p = []"
    | (blocks) "st = BlocksExhausted" "out' = out" "p' = p"
        "length (free_blocks p) < ceil_div c (block_size p)"
    | (ok) i slots' s' free' where "st = Ok" "request_to_slot p rid = None"
        "take_lowest (free_sequence_slots p) = (i, slots')" "free_sequence_slots p \<noteq> []"
        "i < length (sequences p)" "\<not> active (sequences p ! i)"
        "out' = \<lparr>handle_slot = i, handle_generation = next_generation (generation (sequences p ! i))\<rparr>"
        "p' = (put_sequence p i s' free')\<lparr>free_sequence_slots := slots',
            request_to_slot := (request_to_slot p)(rid \<mapsto> i)\<rparr>"
        "reserves (ceil_div c (block_size p)) ((sequences p ! i)\<lparr>request_id := rid,
            generation := next_generation (generation (sequences p ! i)), active := True\<rparr>)
            (free_blocks p) s' free'"
        "ceil_div c (block_size p) \<le> length (free_blocks p)"
proof -
  consider (1) "request_to_slot p rid \<noteq> None"
    | (2) "request_to_slot p rid = None" "free_sequence_slots p = []"
    | (3) "request_to_slot p rid = None" "free_sequence_slots p \<noteq> []"
        "length (free_blocks p) < ceil_div c (block_size p)"
    | (4) "request_to_slot p rid = None" "free_sequence_slots p \<noteq> []"
        "ceil_div c (block_size p) \<le> length (free_blocks p)" by linarith
  then show ?thesis
  proof cases
    case 4
    obtain i slots' where t: "take_lowest (free_sequence_slots p) = (i, slots')" by fastforce
    let ?s = "(sequences p ! i)\<lparr>request_id := rid,
            generation := next_generation (generation (sequences p ! i)), active := True\<rparr>"
    obtain s' free' where r: "take_reserved_blocks (ceil_div c (block_size p)) ?s (free_blocks p) = (s', free')"
      by fastforce
    have "i \<in> set (free_sequence_slots p)"
      using free_list.take_mset [OF pool_invD(7) [OF inv] 4(2) t]
      by (metis set_mset_mset union_single_eq_member)
    then have i: "i < length (sequences p)" "\<not> active (sequences p ! i)"
      using free_slot_iff [OF inv] by auto
    then have "is_heap (>) (reserved_blocks ?s)"
      using pool_invD(5) [OF inv i(1)] by (simp add: seq_inv_def)
    then have rs: "reserves (ceil_div c (block_size p)) ?s (free_blocks p) s' free'"
      using take_reserved_blocks_spec [OF r 4(3) pool_invD(6) [OF inv]] by simp
    have "st = Ok" "out' = \<lparr>handle_slot = i, handle_generation = next_generation (generation (sequences p ! i))\<rparr>"
      "p' = (put_sequence p i s' free')\<lparr>free_sequence_slots := slots',
            request_to_slot := (request_to_slot p)(rid \<mapsto> i)\<rparr>"
      using eq 4 t r by (auto simp: acquire_reserved_def Let_def blocks_for_tokens_ceil)
    then show ?thesis using 4 t i rs by (intro ok)
  qed (use eq duplicate slots blocks in \<open>auto simp: acquire_reserved_def Let_def blocks_for_tokens_ceil\<close>)
qed

section \<open>Every operation keeps the invariant\<close>

lemma new_pool_inv:
  assumes "new_pool n_blocks max_seqs bsize = Some p" "max_seqs \<le> u32_max"
  shows "pool_inv p"
proof -
  have "sum_list (map (\<lambda>s. mset (owned_blocks s)) (replicate max_seqs fresh_sequence)) = {#}"
    by (induction max_seqs) (simp_all add: fresh_sequence_def owned_blocks_def)
  moreover have "filter (\<lambda>i. \<not> active (replicate max_seqs fresh_sequence ! i)) [0..<max_seqs] = [0..<max_seqs]"
    by (simp add: filter_id_conv fresh_sequence_def)
  moreover have "seq_inv bsize fresh_sequence"
    by (simp add: seq_inv_def fresh_sequence_def is_heap_def owned_blocks_def)
  ultimately show ?thesis
    using assms free_list.fill_ok
    by (auto simp: new_pool_def pool_inv_def refill_def fresh_sequence_def split: if_splits)
qed

lemma reserve_capacity_inv:
  assumes "pool_inv p" "reserve_capacity p h c = (st, p')"
  shows "pool_inv p'"
  using assms
proof (cases rule: reserve_capacity_cases)
  case (ok s' free')
  then have "handle_slot h < length (sequences p)" "active (seq_of p h)" by (auto simp: validate_Ok)
  then show ?thesis unfolding ok(3)
    using ok(4) reserves_seq_inv [OF ok(4)] pool_invD(5) [OF assms(1)]
    by (intro pool_inv_put [OF assms(1)]) (auto simp: reserves_def)
qed (use assms in auto)

lemma append_rows_inv:
  assumes "pool_inv p" "append_rows p h n ofl = (r, p')"
  shows "pool_inv p'"
  using assms
proof (cases rule: append_rows_cases)
  case (ok s' free')
  then have h: "handle_slot h < length (sequences p)" "active (seq_of p h)" by (auto simp: validate_Ok)
  have "length (block_table (seq_of p h)) = ceil_div (kv_seq_len (seq_of p h)) (block_size p)"
    using pool_invD(5) [OF assms(1) h(1)] by (simp add: seq_inv_def)
  also have "\<dots> \<le> ceil_div (kv_seq_len (seq_of p h) + n) (block_size p)"
    using pool_invD(1) [OF assms(1)] by (intro ceil_div_mono) auto
  finally have "seq_inv (block_size p) (s'\<lparr>kv_seq_len := kv_seq_len (seq_of p h) + n\<rparr>)"
    using h by (intro extends_seq_inv [OF ok(6)]) auto
  then show ?thesis unfolding ok(5)
    using ok(6) h by (intro pool_inv_put [OF assms(1)]) (auto simp: extends_def owned_blocks_def)
qed (use assms in auto)

lemma rollback_append_ok:
  assumes "pool_inv p" "validate p h = Ok" "n \<le> kv_seq_len (seq_of p h)"
  defines "k \<equiv> ceil_div (kv_seq_len (seq_of p h) - n) (block_size p)"
  shows "k \<le> length (block_table (seq_of p h))"
    and "rollback_append p h n = (Ok, put_sequence p (handle_slot h)
      ((seq_of p h)\<lparr>block_table := take k (block_table (seq_of p h)),
         retry_blocks := retry_blocks (seq_of p h) @ rev (drop k (block_table (seq_of p h))),
         kv_seq_len := kv_seq_len (seq_of p h) - n\<rparr>)
      (free_blocks p))"
proof -
  have h: "handle_slot h < length (sequences p)" using assms by (simp add: validate_Ok)
  have "length (block_table (seq_of p h)) = ceil_div (kv_seq_len (seq_of p h)) (block_size p)"
    using pool_invD(5) [OF assms(1) h] by (simp add: seq_inv_def)
  then show k: "k \<le> length (block_table (seq_of p h))"
    using pool_invD(1) [OF assms(1)] by (simp add: k_def ceil_div_mono)
  show "rollback_append p h n = (Ok, put_sequence p (handle_slot h)
      ((seq_of p h)\<lparr>block_table := take k (block_table (seq_of p h)),
         retry_blocks := retry_blocks (seq_of p h) @ rev (drop k (block_table (seq_of p h))),
         kv_seq_len := kv_seq_len (seq_of p h) - n\<rparr>)
      (free_blocks p))"
    using assms(2,3) rollback_loop_eq [OF k]
    by (simp add: rollback_append_def Let_def blocks_for_tokens_ceil k_def)
qed

lemma rollback_append_inv:
  assumes inv: "pool_inv p" and eq: "rollback_append p h n = (st, p')"
  shows "pool_inv p'"
proof (cases "validate p h = Ok \<and> n \<le> kv_seq_len (seq_of p h)")
  case True
  note ok = rollback_append_ok [OF inv conjunct1 [OF True] conjunct2 [OF True]]
  have h: "handle_slot h < length (sequences p)" "active (seq_of p h)" using True by (auto simp: validate_Ok)
  let ?k = "ceil_div (kv_seq_len (seq_of p h) - n) (block_size p)" and ?s = "seq_of p h"
  have "mset (take ?k (block_table ?s)) + mset (drop ?k (block_table ?s)) = mset (block_table ?s)"
    by (metis append_take_drop_id mset_append)
  then show ?thesis
    using ok eq h pool_invD(5,6) [OF inv]
    by (auto intro!: pool_inv_put [OF inv] simp: seq_inv_def owned_blocks_def ac_simps)
next
  case False
  then have "p' = p" using eq by (auto simp: rollback_append_def Let_def split: if_splits)
  then show ?thesis using inv by simp
qed

lemma clear_inv:
  assumes inv: "pool_inv p" and eq: "clear p h = (st, p')"
  shows "pool_inv p'"
proof (cases "validate p h = Ok")
  case True
  have h: "handle_slot h < length (sequences p)" "active (seq_of p h)" using True by (auto simp: validate_Ok)
  from inv True show ?thesis
  proof (cases rule: clear_ok)
    case (1 s' free')
    have "seq_inv (block_size p) s'" using 1 by (auto simp: seq_inv_def owned_blocks_def is_heap_def)
    then show ?thesis using 1 h eq by (auto intro!: pool_inv_put [OF inv])
  qed
qed (use assms clear_stale [of p h] in auto)

lemma release_cases:
  assumes inv: "pool_inv p" and eq: "release p h = (st, p')"
  obtains (stale) "st = StaleHandle" "validate p h = StaleHandle" "p' = p"
    | (ok) s' free' where "st = Ok" "validate p h = Ok"
        "p' = (put_sequence p (handle_slot h) s' free')\<lparr>
            request_to_slot := (request_to_slot p)(request_id (seq_of p h) := None),
            free_sequence_slots := give_back (free_sequence_slots p) (handle_slot h)\<rparr>"
        "\<not> active s'" "request_id s' = 0" "generation s' = generation (seq_of p h)"
        "kv_seq_len s' = 0" "owned_blocks s' = []"
        "mset free' = mset (owned_blocks (seq_of p h)) + mset (free_blocks p)" "is_heap (>) free'"
proof (cases "validate p h = Ok")
  case False
  then show ?thesis using stale eq clear_stale [OF False] by (auto simp: release_def validate_not_Ok)
next
  case True
  then have h: "handle_slot h < length (sequences p)" by (simp add: validate_Ok)
  from inv True show ?thesis
  proof (cases rule: clear_ok)
    case (1 s' free')
    have "st = Ok" "p' = (put_sequence p (handle_slot h) (s'\<lparr>request_id := 0, active := False\<rparr>) free')\<lparr>
            request_to_slot := (request_to_slot p)(request_id (seq_of p h) := None),
            free_sequence_slots := give_back (free_sequence_slots p) (handle_slot h)\<rparr>"
      using eq 1(1,2) h by (auto simp: release_def Let_def put_sequence_def)
    then show ?thesis
      using True 1 by (intro ok [of "s'\<lparr>request_id := 0, active := False\<rparr>" free']) (auto simp: owned_blocks_def)
  qed
qed

lemma release_inv:
  assumes inv: "pool_inv p" and eq: "release p h = (st, p')"
  shows "pool_inv p'"
  using assms
proof (cases rule: release_cases)
  case (ok s' free')
  let ?i = "handle_slot h"
  have h: "?i < length (sequences p)" "active (seq_of p h)" using ok(2) by (auto simp: validate_Ok)
  have slots: "mset (give_back (free_sequence_slots p) ?i)
      = mset (filter (\<lambda>k. \<not> active ((sequences p)[?i := s'] ! k)) [0..<length (sequences p)])"
    using filter_upt_update [of ?i "(sequences p)[?i := s']" "\<lambda>s. \<not> active s" "seq_of p h"] h ok(4)
      pool_invD(9) [OF inv]
    by (simp add: free_list.give_mset)
  have idx: "((request_to_slot p)(request_id (seq_of p h) := None)) r = Some k \<longleftrightarrow>
      k < length (sequences p) \<and> active ((sequences p)[?i := s'] ! k) \<and> request_id ((sequences p)[?i := s'] ! k) = r"
    for r k
  proof (cases "k = ?i")
    case True
    then show ?thesis using h ok(4) pool_invD(10) [OF inv, of r k] by auto
  next
    case False
    have "request_id (sequences p ! k) \<noteq> request_id (seq_of p h)"
      if "k < length (sequences p)" "active (sequences p ! k)"
      using that False h pool_invD(10) [OF inv] by (metis option.inject)
    then show ?thesis using False pool_invD(10) [OF inv, of r k] by auto
  qed
  have sq: "seq_inv (block_size p) s'" using ok by (auto simp: seq_inv_def owned_blocks_def is_heap_def)
  have "mset free' + sum_list (map (\<lambda>s. mset (owned_blocks s)) ((sequences p)[?i := s']))
    = mset [0..<physical_block_count p]"
    using ok by (intro blocks_conserved [OF inv h(1)]) auto
  then show ?thesis
    using inv slots idx ok(3,10) seq_inv_update [OF inv sq, of ?i] free_list.give_ok [OF pool_invD(7) [OF inv]]
    unfolding pool_inv_def by (simp del: fun_upd_apply mset_upt)
qed (use assms in auto)

lemma acquire_reserved_inv:
  assumes inv: "pool_inv p" and eq: "acquire_reserved p rid c out = (st, out', p')"
  shows "pool_inv p'"
  using assms
proof (cases rule: acquire_reserved_cases)
  case (ok i slots' s' free')
  have s': "active s'" "request_id s' = rid" and heaps: "is_heap (>) free'"
    using ok(9) by (auto simp: reserves_def)
  have sq: "seq_inv (block_size p) s'"
    using reserves_seq_inv [OF ok(9), of "block_size p"] pool_invD(5) [OF inv ok(5)] ok(6)
    by (auto simp: seq_inv_def owned_blocks_def)
  have slots: "mset slots' = mset (filter (\<lambda>k. \<not> active ((sequences p)[i := s'] ! k)) [0..<length (sequences p)])"
    using filter_upt_update [of i "sequences p" "\<lambda>s. \<not> active s" s'] ok(5,6) s'
      pool_invD(9) [OF inv] free_list.take_mset [OF pool_invD(7) [OF inv] ok(4,3)]
    by simp
  have idx: "((request_to_slot p)(rid \<mapsto> i)) r = Some k \<longleftrightarrow>
      k < length (sequences p) \<and> active ((sequences p)[i := s'] ! k) \<and> request_id ((sequences p)[i := s'] ! k) = r"
    for r k
    using pool_invD(10) [OF inv, of r k] pool_invD(10) [OF inv, of rid k] ok(2,5,6) s'
    by (cases "k = i") auto
  have "mset free' + sum_list (map (\<lambda>s. mset (owned_blocks s)) ((sequences p)[i := s']))
    = mset [0..<physical_block_count p]"
    using ok(9) by (intro blocks_conserved [OF inv ok(5)]) (auto simp: reserves_def owned_blocks_def)
  then show ?thesis
    using inv slots idx heaps ok(8) seq_inv_update [OF inv sq, of i]
      free_list.take_ok [OF pool_invD(7) [OF inv] ok(3)]
    unfolding pool_inv_def by (simp del: fun_upd_apply mset_upt)
qed (use assms in auto)

lemma reset_inv:
  assumes "pool_inv p"
  shows "pool_inv (reset p)"
proof -
  let ?f = "\<lambda>s. s\<lparr>request_id := 0, kv_seq_len := 0, active := False,
        block_table := [], reserved_blocks := [], retry_blocks := []\<rparr>"
  have "sum_list (map (\<lambda>s. mset (owned_blocks s)) (map ?f xs)) = {#}" for xs :: "SequenceState list"
    by (induction xs) (simp_all add: owned_blocks_def)
  moreover have "filter (\<lambda>i. \<not> active (map ?f (sequences p) ! i)) [0..<length (sequences p)] = [0..<length (sequences p)]"
    by (simp add: filter_id_conv)
  moreover have "seq_inv (block_size p) (?f s)" for s
    by (simp add: seq_inv_def is_heap_def owned_blocks_def)
  ultimately show ?thesis
    using assms free_list.fill_ok unfolding pool_inv_def reset_def
    by (auto simp: refill_def simp del: mset_upt)
qed

end
