(* ===== verification/Slot_Kv.thy ===== *)
theory Slot_Kv
  imports Paged_Kv_Pool
begin

text \<open>
  The allocator interface \<open>SlotKv\<close> (\<open>slot_kv.h\<close>) as a record of functions over an allocator state,
  one per virtual member, and its adapter \<open>PoolSlotKv\<close>. The laws a client may rely on are the
  locale \<open>slot_kv_contract\<close>; \<open>PoolSlotKv\<close> is proved to meet them.
\<close>

record 'kv SlotKv =
  kv_block_size :: "'kv \<Rightarrow> nat"
  kv_physical_block_count :: "'kv \<Rightarrow> nat"
  kv_max_sequences :: "'kv \<Rightarrow> nat"
  kv_free_block_count :: "'kv \<Rightarrow> nat"
  kv_acquire_reserved :: "'kv \<Rightarrow> u64 \<Rightarrow> nat \<Rightarrow> PagedKvSequenceHandle \<Rightarrow>
    PagedKvStatus \<times> PagedKvSequenceHandle \<times> 'kv"
  kv_reserve_capacity :: "'kv \<Rightarrow> PagedKvSequenceHandle \<Rightarrow> nat \<Rightarrow> PagedKvStatus \<times> 'kv"
  kv_append :: "'kv \<Rightarrow> PagedKvSequenceHandle \<Rightarrow> nat \<Rightarrow> bool \<Rightarrow> PagedKvAppendResult \<times> 'kv"
  kv_rollback_append :: "'kv \<Rightarrow> PagedKvSequenceHandle \<Rightarrow> nat \<Rightarrow> PagedKvStatus \<times> 'kv"
  kv_clear :: "'kv \<Rightarrow> PagedKvSequenceHandle \<Rightarrow> PagedKvStatus \<times> 'kv"
  kv_release :: "'kv \<Rightarrow> PagedKvSequenceHandle \<Rightarrow> PagedKvStatus \<times> 'kv"
  kv_owned_block_count :: "'kv \<Rightarrow> PagedKvSequenceHandle \<Rightarrow> nat \<Rightarrow> PagedKvStatus \<times> nat"

definition PoolSlotKv :: "PagedKvPool SlotKv" where
  "PoolSlotKv = \<lparr>
     kv_block_size = block_size,
     kv_physical_block_count = physical_block_count,
     kv_max_sequences = max_sequences,
     kv_free_block_count = free_block_count,
     kv_acquire_reserved = acquire_reserved,
     kv_reserve_capacity = reserve_capacity,
     kv_append = append_rows,
     kv_rollback_append = rollback_append,
     kv_clear = clear,
     kv_release = release,
     kv_owned_block_count = owned_block_count\<rparr>"

lemma PoolSlotKv_simps [simp]:
  "kv_block_size PoolSlotKv = block_size"
  "kv_physical_block_count PoolSlotKv = physical_block_count"
  "kv_max_sequences PoolSlotKv = max_sequences"
  "kv_free_block_count PoolSlotKv = free_block_count"
  "kv_acquire_reserved PoolSlotKv = acquire_reserved"
  "kv_reserve_capacity PoolSlotKv = reserve_capacity"
  "kv_append PoolSlotKv = append_rows"
  "kv_rollback_append PoolSlotKv = rollback_append"
  "kv_clear PoolSlotKv = clear"
  "kv_release PoolSlotKv = release"
  "kv_owned_block_count PoolSlotKv = owned_block_count"
  by (simp_all add: PoolSlotKv_def)

section \<open>The contract\<close>

text \<open>
  The client's view of an allocator state: for each live handle the stored length and the number
  of blocks the sequence owns (visible, rolled back or reserved). An operation on \<open>h\<close> keeps the
  pool's shape and the view of every other handle.
\<close>

type_synonym 'kv kv_view = "'kv \<Rightarrow> PagedKvSequenceHandle \<Rightarrow> (nat \<times> nat) option"

definition kv_frame :: "'kv SlotKv \<Rightarrow> 'kv kv_view \<Rightarrow> 'kv \<Rightarrow> PagedKvSequenceHandle \<Rightarrow> 'kv \<Rightarrow> bool" where
  "kv_frame K view k h k' \<longleftrightarrow>
     kv_block_size K k' = kv_block_size K k \<and>
     kv_physical_block_count K k' = kv_physical_block_count K k \<and>
     kv_max_sequences K k' = kv_max_sequences K k \<and>
     (\<forall>h'. h' \<noteq> h \<longrightarrow> view k' h' = view k h')"

lemma kv_frame_refl [simp]: "kv_frame K view k h k"
  by (simp add: kv_frame_def)

lemma kv_frameD:
  assumes "kv_frame K view k h k'"
  shows "kv_block_size K k' = kv_block_size K k" "kv_physical_block_count K k' = kv_physical_block_count K k"
    "kv_max_sequences K k' = kv_max_sequences K k" "h' \<noteq> h \<Longrightarrow> view k' h' = view k h'"
  using assms by (auto simp: kv_frame_def)

locale slot_kv_contract =
  fixes K :: "'kv SlotKv" and good :: "'kv \<Rightarrow> bool" and view :: "'kv kv_view"
  assumes block_size_pos: "good k \<Longrightarrow> 0 < kv_block_size K k"
    and pool_rows_bound: "good k \<Longrightarrow> kv_physical_block_count K k * kv_block_size K k \<le> u32_max"
    and stored_in_owned: "good k \<Longrightarrow> view k h = Some (len, own) \<Longrightarrow>
          ceil_div len (kv_block_size K k) \<le> own \<and> own + kv_free_block_count K k \<le> kv_physical_block_count K k"
    and acquire_good: "good k \<Longrightarrow> kv_acquire_reserved K k rid c out = (st, h, k') \<Longrightarrow> good k'"
    and acquire_frame: "good k \<Longrightarrow> kv_acquire_reserved K k rid c out = (Ok, h, k') \<Longrightarrow> kv_frame K view k h k'"
    and acquire_view: "good k \<Longrightarrow> kv_acquire_reserved K k rid c out = (Ok, h, k') \<Longrightarrow>
          view k h = None \<and> view k' h = Some (0, ceil_div c (kv_block_size K k))"
    and acquire_fail: "good k \<Longrightarrow> kv_acquire_reserved K k rid c out = (st, h, k') \<Longrightarrow> st \<noteq> Ok \<Longrightarrow> k' = k"
    and reserve_good: "good k \<Longrightarrow> kv_reserve_capacity K k h c = (st, k') \<Longrightarrow> good k'"
    and reserve_frame: "good k \<Longrightarrow> kv_reserve_capacity K k h c = (st, k') \<Longrightarrow> kv_frame K view k h k'"
    and reserve_ok: "good k \<Longrightarrow> view k h = Some (len, own) \<Longrightarrow>
          kv_reserve_capacity K k h c = (st, k') \<Longrightarrow>
          ceil_div c (kv_block_size K k) \<le> own + kv_free_block_count K k \<Longrightarrow>
          st = Ok \<and> view k' h = Some (len, max own (ceil_div c (kv_block_size K k))) \<and>
          kv_free_block_count K k' = kv_free_block_count K k - (ceil_div c (kv_block_size K k) - own)"
    and reserve_exhausted: "good k \<Longrightarrow> view k h = Some (len, own) \<Longrightarrow>
          kv_reserve_capacity K k h c = (st, k') \<Longrightarrow>
          own + kv_free_block_count K k < ceil_div c (kv_block_size K k) \<Longrightarrow> st = BlocksExhausted \<and> k' = k"
    and append_good: "good k \<Longrightarrow> kv_append K k h n ofl = (r, k') \<Longrightarrow> good k'"
    and append_frame: "good k \<Longrightarrow> kv_append K k h n ofl = (r, k') \<Longrightarrow> kv_frame K view k h k'"
    and append_fail: "good k \<Longrightarrow> kv_append K k h n ofl = (r, k') \<Longrightarrow> ar_status r \<noteq> Ok \<Longrightarrow> k' = k"
    and append_view: "good k \<Longrightarrow> view k h = Some (len, own) \<Longrightarrow> kv_append K k h n ofl = (r, k') \<Longrightarrow>
          ar_status r = Ok \<Longrightarrow> \<exists>own' \<ge> own. view k' h = Some (len + n, own')"
    and append_result: "good k \<Longrightarrow> view k h = Some (len, own) \<Longrightarrow> kv_append K k h n False = (r, k') \<Longrightarrow>
          ar_status r = Ok \<Longrightarrow> ar_token_count r = n \<and> length (ar_write_slots r) = n \<and>
          (\<forall>i < n. logical_position (ar_write_slots r ! i) = len + i)"
    and append_reserved: "good k \<Longrightarrow> view k h = Some (len, own) \<Longrightarrow> kv_append K k h n ofl = (r, k') \<Longrightarrow>
          len + n \<le> own * kv_block_size K k \<Longrightarrow>
          ar_status r = Ok \<and> view k' h = Some (len + n, own) \<and> kv_free_block_count K k' = kv_free_block_count K k"
    and rollback_good: "good k \<Longrightarrow> kv_rollback_append K k h n = (st, k') \<Longrightarrow> good k'"
    and rollback_frame: "good k \<Longrightarrow> kv_rollback_append K k h n = (st, k') \<Longrightarrow> kv_frame K view k h k'"
    and rollback_view: "good k \<Longrightarrow> view k h = Some (len, own) \<Longrightarrow> n \<le> len \<Longrightarrow>
          kv_rollback_append K k h n = (st, k') \<Longrightarrow> st = Ok \<and> view k' h = Some (len - n, own)"
    and clear_good: "good k \<Longrightarrow> kv_clear K k h = (st, k') \<Longrightarrow> good k'"
    and clear_frame: "good k \<Longrightarrow> kv_clear K k h = (st, k') \<Longrightarrow> kv_frame K view k h k'"
    and clear_view: "good k \<Longrightarrow> view k h = Some (len, own) \<Longrightarrow> kv_clear K k h = (st, k') \<Longrightarrow>
          st = Ok \<and> view k' h = Some (0, 0) \<and> kv_free_block_count K k' = kv_free_block_count K k + own"
    and release_good: "good k \<Longrightarrow> kv_release K k h = (st, k') \<Longrightarrow> good k'"
    and release_frame: "good k \<Longrightarrow> kv_release K k h = (st, k') \<Longrightarrow> kv_frame K view k h k'"
    and release_view: "good k \<Longrightarrow> view k h = Some (len, own) \<Longrightarrow> kv_release K k h = (st, k') \<Longrightarrow>
          st = Ok \<and> view k' h = None \<and> kv_free_block_count K k' = kv_free_block_count K k + own"
    and owned_count: "good k \<Longrightarrow> view k h = Some (len, own) \<Longrightarrow> kv_owned_block_count K k h z = (Ok, own)"
begin

lemma owned_bound:
  assumes "good k" "view k h = Some (len, own)"
  shows "own * kv_block_size K k \<le> u32_max" "len \<le> own * kv_block_size K k" "len \<le> u32_max"
proof -
  have o: "ceil_div len (kv_block_size K k) \<le> own" "own \<le> kv_physical_block_count K k"
    using stored_in_owned [OF assms] by auto
  show 1: "own * kv_block_size K k \<le> u32_max"
    using mult_le_mono1 [OF o(2), of "kv_block_size K k"] pool_rows_bound [OF assms(1)] by (rule order_trans)
  show 2: "len \<le> own * kv_block_size K k"
    using o(1) block_size_pos [OF assms(1)] by (simp add: ceil_div_le_iff)
  from 1 2 show "len \<le> u32_max" by simp
qed

end

section \<open>The pool meets the contract\<close>

definition pool_view :: "PagedKvPool kv_view" where
  "pool_view p h =
     (if validate p h = Ok then Some (kv_seq_len (seq_of p h), length (owned_blocks (seq_of p h))) else None)"

lemma pool_view_Some: "pool_view p h = Some (len, own) \<longleftrightarrow>
   validate p h = Ok \<and> len = kv_seq_len (seq_of p h) \<and> own = length (owned_blocks (seq_of p h))"
  by (auto simp: pool_view_def)

lemma max_sequences_inv [simp]: "pool_inv p \<Longrightarrow> max_sequences p = length (sequences p)"
  using pool_invD(4) by (simp add: max_sequences_def)

lemma free_block_count_inv: "pool_inv p \<Longrightarrow> free_block_count p = length (free_blocks p)"
  using free_le blocks_le_u32 by (fastforce simp: free_block_count_def)

text \<open>Replacing the sequence behind \<open>h\<close> by one of the same generation is invisible elsewhere.\<close>

lemma pool_view_put:
  assumes "sequences p' = (sequences p)[handle_slot h := s']" "h' \<noteq> h"
    "handle_slot h < length (sequences p)" "generation s' = handle_generation h"
    "active (seq_of p h) \<longrightarrow> generation (seq_of p h) = handle_generation h"
  shows "pool_view p' h' = pool_view p h'"
proof (cases "handle_slot h' = handle_slot h")
  case True
  then have "handle_generation h' \<noteq> handle_generation h" using assms(2) by (cases h; cases h') auto
  then show ?thesis using True assms by (auto simp: pool_view_def validate_def)
qed (use assms in \<open>auto simp: pool_view_def validate_def\<close>)

lemma pool_frame_put:
  assumes "sequences p' = (sequences p)[handle_slot h := s']" "block_size p' = block_size p"
    "physical_block_count p' = physical_block_count p"
    "validate p h = Ok" "generation s' = generation (seq_of p h)"
  shows "kv_frame PoolSlotKv pool_view p h p'"
  using assms pool_view_put [OF assms(1)] by (auto simp: kv_frame_def max_sequences_def validate_Ok)

lemma validate_put:
  assumes "sequences p' = (sequences p)[handle_slot h := s']" "handle_slot h < length (sequences p)"
    "active s'" "generation s' = handle_generation h"
  shows "pool_view p' h = Some (kv_seq_len s', length (owned_blocks s'))"
  using assms by (simp add: pool_view_def validate_Ok)

lemma length_owned_eq:
  "mset (owned_blocks s') + mset free' = mset (owned_blocks s) + mset free \<Longrightarrow>
     length (owned_blocks s') + length free' = length (owned_blocks s) + length free"
  by (metis size_mset size_union)

lemma pool_stored_in_owned:
  assumes inv: "pool_inv p" and v: "pool_view p h = Some (len, own)"
  shows "ceil_div len (block_size p) \<le> own \<and> own + free_block_count p \<le> physical_block_count p"
proof -
  have i: "handle_slot h < length (sequences p)" using v by (simp add: pool_view_Some validate_Ok)
  show ?thesis
    using v pool_invD(5) [OF inv i] free_owned_le [OF inv i] free_block_count_inv [OF inv]
    by (auto simp: pool_view_Some seq_inv_def length_owned)
qed

lemma pool_acquire:
  assumes inv: "pool_inv p" and eq: "acquire_reserved p rid c out = (Ok, h, p')"
  shows "kv_frame PoolSlotKv pool_view p h p' \<and>
    pool_view p h = None \<and> pool_view p' h = Some (0, ceil_div c (block_size p))"
  using inv eq
proof (cases rule: acquire_reserved_cases)
  case (ok i slots' s' free')
  have free: "kv_seq_len (sequences p ! i) = 0" "owned_blocks (sequences p ! i) = []"
    using pool_invD(5) [OF inv ok(5)] ok(6) by (auto simp: seq_inv_def)
  then have own: "length (owned_blocks s') = ceil_div c (block_size p)"
    using ok(9) by (auto simp: reserves_def owned_blocks_def)
  have seqs: "sequences p' = (sequences p)[handle_slot h := s']" using ok by simp
  have "kv_frame PoolSlotKv pool_view p h p'"
    using ok pool_view_put [OF seqs] by (auto simp: kv_frame_def max_sequences_def reserves_def)
  moreover have "pool_view p h = None \<and> pool_view p' h = Some (0, ceil_div c (block_size p))"
    using validate_put [OF seqs] ok own free by (auto simp: pool_view_def validate_Ok reserves_def)
  ultimately show ?thesis by blast
qed auto

lemma pool_acquire_fail:
  assumes inv: "pool_inv p" and eq: "acquire_reserved p rid c out = (st, h, p')" and "st \<noteq> Ok"
  shows "p' = p"
  using inv eq by (cases rule: acquire_reserved_cases) (use assms(3) in auto)

lemma pool_reserve:
  assumes inv: "pool_inv p" and eq: "reserve_capacity p h c = (st, p')"
  shows "kv_frame PoolSlotKv pool_view p h p'"
    and "pool_view p h = Some (len, own) \<Longrightarrow> ceil_div c (block_size p) \<le> own + free_block_count p \<Longrightarrow>
      st = Ok \<and> pool_view p' h = Some (len, max own (ceil_div c (block_size p))) \<and>
      free_block_count p' = free_block_count p - (ceil_div c (block_size p) - own)"
    and "pool_view p h = Some (len, own) \<Longrightarrow> own + free_block_count p < ceil_div c (block_size p) \<Longrightarrow>
      st = BlocksExhausted \<and> p' = p"
proof -
  note fc = free_block_count_inv [OF inv] free_block_count_inv [OF reserve_capacity_inv [OF inv eq]]
  have "kv_frame PoolSlotKv pool_view p h p' \<and>
    (pool_view p h = Some (len, own) \<longrightarrow> ceil_div c (block_size p) \<le> own + free_block_count p \<longrightarrow>
      st = Ok \<and> pool_view p' h = Some (len, max own (ceil_div c (block_size p))) \<and>
      free_block_count p' = free_block_count p - (ceil_div c (block_size p) - own)) \<and>
    (pool_view p h = Some (len, own) \<longrightarrow> own + free_block_count p < ceil_div c (block_size p) \<longrightarrow>
      st = BlocksExhausted \<and> p' = p)"
    using inv eq
  proof (cases rule: reserve_capacity_cases)
    case (ok s' free')
    have seqs: "sequences p' = (sequences p)[handle_slot h := s']" using ok by simp
    have own: "length (owned_blocks s') = max (length (owned_blocks (seq_of p h))) (ceil_div c (block_size p))"
      using ok(4) by (auto simp: reserves_def length_owned max_def)
    show ?thesis
      using ok own pool_frame_put [OF seqs] validate_put [OF seqs] fc
      by (auto simp: reserves_def pool_view_Some validate_Ok)
  qed (use fc in \<open>auto simp: pool_view_Some\<close>)
  then show "kv_frame PoolSlotKv pool_view p h p'"
    and "pool_view p h = Some (len, own) \<Longrightarrow> ceil_div c (block_size p) \<le> own + free_block_count p \<Longrightarrow>
      st = Ok \<and> pool_view p' h = Some (len, max own (ceil_div c (block_size p))) \<and>
      free_block_count p' = free_block_count p - (ceil_div c (block_size p) - own)"
    and "pool_view p h = Some (len, own) \<Longrightarrow> own + free_block_count p < ceil_div c (block_size p) \<Longrightarrow>
      st = BlocksExhausted \<and> p' = p"
    by blast+
qed

lemma pool_append_fail:
  assumes inv: "pool_inv p" and eq: "append_rows p h n ofl = (r, p')" and bad: "ar_status r \<noteq> Ok"
  shows "p' = p"
  using inv eq by (cases rule: append_rows_cases) (use bad in \<open>auto simp: append_ok_result_def append_status_def\<close>)

lemma pool_append_frame:
  assumes inv: "pool_inv p" and eq: "append_rows p h n ofl = (r, p')"
  shows "kv_frame PoolSlotKv pool_view p h p'"
  using inv eq
proof (cases rule: append_rows_cases)
  case (ok s' free')
  then show ?thesis
    by (intro pool_frame_put [where s' = "s'\<lparr>kv_seq_len := kv_seq_len (seq_of p h) + n\<rparr>"]) (auto simp: extends_def)
qed auto

lemma extends_owned:
  assumes "extends n s free s' free'"
  shows "length (owned_blocks s) \<le> length (owned_blocks s')"
    and "n \<le> length (retry_blocks s) + length (reserved_blocks s) \<Longrightarrow>
      length (owned_blocks s') = length (owned_blocks s) \<and> free' = free"
proof -
  have eq: "length (owned_blocks s') + length free' = length (owned_blocks s) + length free"
    using assms by (intro length_owned_eq) (simp add: extends_def)
  show *: "n \<le> length (retry_blocks s) + length (reserved_blocks s) \<Longrightarrow>
      length (owned_blocks s') = length (owned_blocks s) \<and> free' = free"
    using assms eq by (auto simp: extends_def)
  show "length (owned_blocks s) \<le> length (owned_blocks s')"
  proof (cases "n \<le> length (retry_blocks s) + length (reserved_blocks s)")
    case False
    then show ?thesis using assms by (simp add: extends_def length_owned)
  qed (use * in auto)
qed

lemma pool_append_view:
  assumes inv: "pool_inv p" and v: "pool_view p h = Some (len, own)"
    and eq: "append_rows p h n ofl = (r, p')" and ok: "ar_status r = Ok"
  shows "\<exists>own' \<ge> own. pool_view p' h = Some (len + n, own')"
  using inv eq
proof (cases rule: append_rows_cases)
  case (ok s' free')
  have seqs: "sequences p' = (sequences p)[handle_slot h := s'\<lparr>kv_seq_len := len + n\<rparr>]"
    using ok(5) v by (simp add: pool_view_Some)
  show ?thesis
    using validate_put [OF seqs] extends_owned(1) [OF ok(6)] v ok(1,6)
    by (auto simp: pool_view_Some validate_Ok extends_def owned_blocks_def)
qed (use v ok in \<open>auto simp: append_status_def pool_view_Some\<close>)

lemma pool_append_result:
  assumes inv: "pool_inv p" and v: "pool_view p h = Some (len, own)"
    and eq: "append_rows p h n False = (r, p')" and ok: "ar_status r = Ok"
  shows "ar_token_count r = n \<and> length (ar_write_slots r) = n \<and>
    (\<forall>i < n. logical_position (ar_write_slots r ! i) = len + i)"
  using inv eq
  by (cases rule: append_rows_cases)
    (use v ok in \<open>auto simp: append_ok_result_def append_status_def pool_view_Some make_slot_def Let_def\<close>)

lemma pool_append_reserved:
  assumes inv: "pool_inv p" and v: "pool_view p h = Some (len, own)"
    and eq: "append_rows p h n ofl = (r, p')" and fits: "len + n \<le> own * block_size p"
  shows "ar_status r = Ok \<and> pool_view p' h = Some (len + n, own) \<and> free_block_count p' = free_block_count p"
proof -
  have i: "handle_slot h < length (sequences p)" using v by (simp add: pool_view_Some validate_Ok)
  have le: "ceil_div (len + n) (block_size p) \<le> own" using fits pool_invD(1) [OF inv] by (simp add: ceil_div_le_iff)
  have "own * block_size p \<le> physical_block_count p * block_size p"
    using free_owned_le [OF inv i] v by (intro mult_le_mono1) (simp add: pool_view_Some)
  then have bound: "len + n \<le> u32_max" using fits pool_invD(3) [OF inv] by linarith
  from inv eq show ?thesis
  proof (cases rule: append_rows_cases)
    case (ok s' free')
    have seqs: "sequences p' = (sequences p)[handle_slot h := s'\<lparr>kv_seq_len := len + n\<rparr>]"
      using ok(5) v by (simp add: pool_view_Some)
    have own: "length (owned_blocks s') = own \<and> free' = free_blocks p"
      using extends_owned(2) [OF ok(6)] le v by (simp add: pool_view_Some length_owned)
    show ?thesis
      using validate_put [OF seqs] own v ok(1,4,5,6)
      by (auto simp: pool_view_Some validate_Ok extends_def owned_blocks_def append_ok_result_def free_block_count_def)
  qed (use v le bound in \<open>auto simp: pool_view_Some append_status_def\<close>)
qed

lemma pool_rollback_frame:
  assumes inv: "pool_inv p" and eq: "rollback_append p h n = (st, p')"
  shows "kv_frame PoolSlotKv pool_view p h p'"
proof (cases "validate p h = Ok \<and> n \<le> kv_seq_len (seq_of p h)")
  case True
  then obtain s' where "p' = put_sequence p (handle_slot h) s' (free_blocks p)" "generation s' = generation (seq_of p h)"
    using rollback_append_ok(2) [OF inv, of h n] eq by auto
  with True show ?thesis by (intro pool_frame_put [where s' = s']) auto
qed (use eq in \<open>auto simp: rollback_append_def Let_def split: if_splits\<close>)

lemma pool_rollback_view:
  assumes inv: "pool_inv p" and v: "pool_view p h = Some (len, own)" and n: "n \<le> len"
    and eq: "rollback_append p h n = (st, p')"
  shows "st = Ok \<and> pool_view p' h = Some (len - n, own)"
proof -
  have ok: "validate p h = Ok" "n \<le> kv_seq_len (seq_of p h)" using v n by (auto simp: pool_view_Some)
  note rb = rollback_append_ok [OF inv ok]
  have "handle_slot h < length (sequences p)" using ok by (simp add: validate_Ok)
  then show ?thesis
    using rb eq v by (auto simp: pool_view_Some validate_Ok owned_blocks_def)
qed

lemma pool_clear_frame:
  assumes inv: "pool_inv p" and eq: "clear p h = (st, p')"
  shows "kv_frame PoolSlotKv pool_view p h p'"
proof (cases "validate p h = Ok")
  case True
  from inv True obtain s' free' where c: "clear p h = (Ok, put_sequence p (handle_slot h) s' free')"
    "generation s' = generation (seq_of p h)" by (rule clear_ok)
  show ?thesis using c eq True by (intro pool_frame_put [where s' = s']) auto
qed (use eq clear_stale in auto)

lemma pool_clear_view:
  assumes inv: "pool_inv p" and v: "pool_view p h = Some (len, own)" and eq: "clear p h = (st, p')"
  shows "st = Ok \<and> pool_view p' h = Some (0, 0) \<and> free_block_count p' = free_block_count p + own"
proof -
  have ok: "validate p h = Ok" using v by (auto simp: pool_view_Some)
  from inv ok obtain s' free' where c: "clear p h = (Ok, put_sequence p (handle_slot h) s' free')"
    "generation s' = generation (seq_of p h)" "active s'" "kv_seq_len s' = 0" "owned_blocks s' = []"
    "mset free' = mset (owned_blocks (seq_of p h)) + mset (free_blocks p)" by (rule clear_ok)
  have "length free' = own + length (free_blocks p)"
    using c(6) v by (metis pool_view_Some size_mset size_union)
  then show ?thesis
    using c eq ok free_block_count_inv [OF inv] free_block_count_inv [OF clear_inv [OF inv eq]]
    by (auto simp: pool_view_Some validate_Ok)
qed

lemma pool_release_frame:
  assumes inv: "pool_inv p" and eq: "release p h = (st, p')"
  shows "kv_frame PoolSlotKv pool_view p h p'"
  using inv eq
proof (cases rule: release_cases)
  case (ok s' free')
  then show ?thesis by (intro pool_frame_put [where s' = s']) auto
qed auto

lemma pool_release_view:
  assumes inv: "pool_inv p" and v: "pool_view p h = Some (len, own)" and eq: "release p h = (st, p')"
  shows "st = Ok \<and> pool_view p' h = None \<and> free_block_count p' = free_block_count p + own"
  using inv eq
proof (cases rule: release_cases)
  case (ok s' free')
  have "length free' = own + length (free_blocks p)"
    using ok(9) v by (metis pool_view_Some size_mset size_union)
  then show ?thesis
    using ok free_block_count_inv [OF inv] free_block_count_inv [OF release_inv [OF inv eq]]
    by (auto simp: pool_view_def validate_Ok)
qed (use v in \<open>simp add: pool_view_Some\<close>)

lemma pool_owned_count:
  assumes inv: "pool_inv p" and v: "pool_view p h = Some (len, own)"
  shows "owned_block_count p h z = (Ok, own)"
  using v owned_le_u32 [OF inv, of "handle_slot h"]
  by (auto simp: owned_block_count_def pool_view_Some validate_Ok length_owned Let_def)

lemmas pool_kv_laws =
  pool_invD(1) pool_invD(3) pool_stored_in_owned pool_owned_count
  acquire_reserved_inv conjunct1 [OF pool_acquire] conjunct2 [OF pool_acquire] pool_acquire_fail
  reserve_capacity_inv pool_reserve
  append_rows_inv pool_append_frame pool_append_fail pool_append_view pool_append_result pool_append_reserved
  rollback_append_inv pool_rollback_frame pool_rollback_view
  clear_inv pool_clear_frame pool_clear_view release_inv pool_release_frame pool_release_view

interpretation pool_kv: slot_kv_contract PoolSlotKv pool_inv pool_view
  by (unfold_locales, unfold PoolSlotKv_simps) (rule pool_kv_laws; assumption)+

end
