(* ===== verification/Sampler_Cfg.thy ===== *)
theory Sampler_Cfg
  imports Prelude
begin

text \<open>
  The request's sampling configuration (\<open>common/sampler.h\<close>). A C++ \<open>float\<close> is one of the IEEE
  special values or a dyadic number \<open>m * 2^e\<close>; comparisons of such values are exact, so no
  rounding enters here. The sign of a zero is not represented: no comparison observes it.
\<close>

section \<open>Float comparisons\<close>

datatype float32 = Dyadic int int | PosInf | NegInf | NaN

definition dyadic_less :: "int \<Rightarrow> int \<Rightarrow> int \<Rightarrow> int \<Rightarrow> bool" where
  "dyadic_less m e m' e' = (let k = min e e' in m * 2 ^ nat (e - k) < m' * 2 ^ nat (e' - k))"

fun f_less :: "float32 \<Rightarrow> float32 \<Rightarrow> bool" where
  "f_less NaN _ = False"
| "f_less _ NaN = False"
| "f_less NegInf y = (y \<noteq> NegInf)"
| "f_less _ NegInf = False"
| "f_less PosInf _ = False"
| "f_less _ PosInf = True"
| "f_less (Dyadic m e) (Dyadic m' e') = dyadic_less m e m' e'"

definition f_eq :: "float32 \<Rightarrow> float32 \<Rightarrow> bool" where
  "f_eq x y = (x \<noteq> NaN \<and> y \<noteq> NaN \<and> \<not> f_less x y \<and> \<not> f_less y x)"

abbreviation f_le :: "float32 \<Rightarrow> float32 \<Rightarrow> bool" where
  "f_le x y \<equiv> f_less x y \<or> f_eq x y"

abbreviation f0 :: float32 where "f0 \<equiv> Dyadic 0 0"
abbreviation f1 :: float32 where "f1 \<equiv> Dyadic 1 0"

section \<open>The configuration\<close>

text \<open>\<open>constraint\<close> is the shared output-constraint object, named by its address.\<close>

record SamplerCfg =
  temp :: float32
  top_p :: float32
  top_k :: int
  rep_pen :: float32
  rep_window :: int
  seed :: u64
  has_seed :: bool
  freq_pen :: float32
  pres_pen :: float32
  constraint :: "nat option"

definition default_sampler :: SamplerCfg where
  "default_sampler = \<lparr>temp = f0, top_p = f1, top_k = 0, rep_pen = f1, rep_window = 256, seed = 0,
     has_seed = False, freq_pen = f0, pres_pen = f0, constraint = None\<rparr>"

definition needs_logit_processing :: "SamplerCfg \<Rightarrow> bool" where
  "needs_logit_processing c \<longleftrightarrow>
     f_less f0 (temp c) \<or> f_less f1 (rep_pen c) \<or> \<not> f_eq (freq_pen c) f0 \<or>
     \<not> f_eq (pres_pen c) f0 \<or> constraint c \<noteq> None"

definition greedy_under_constraint :: "SamplerCfg \<Rightarrow> bool" where
  "greedy_under_constraint c \<longleftrightarrow>
     constraint c \<noteq> None \<and> f_le (temp c) f0 \<and> f_le (rep_pen c) f1 \<and>
     f_eq (freq_pen c) f0 \<and> f_eq (pres_pen c) f0"

definition seeded :: "SamplerCfg \<Rightarrow> bool" where
  "seeded c \<longleftrightarrow> has_seed c \<or> seed c \<noteq> 0"

text \<open>\<open>rd1\<close> and \<open>rd2\<close> are the two draws from \<open>std::random_device\<close>.\<close>

definition request_rng_seed :: "SamplerCfg \<Rightarrow> 32 word \<Rightarrow> 32 word \<Rightarrow> u64" where
  "request_rng_seed c rd1 rd2 =
     (if seeded c then seed c else xor (push_bit 32 (ucast rd1)) (ucast rd2))"

end
