(* ===== verification/Prefix_Store.thy ===== *)
theory Prefix_Store
  imports Prelude
begin

text \<open>
  The checkpoint protocol between the scheduler and an engine (\<open>prefix_store.h\<close>): opaque
  references, capture tickets, the plan a request is admitted with and what the engine reports.
\<close>

record PrefixStoreRef =
  ref_id :: u64
  ref_tokens :: int

definition default_ref :: PrefixStoreRef where
  "default_ref = \<lparr>ref_id = 0, ref_tokens = 0\<rparr>"

definition ref_empty :: "PrefixStoreRef \<Rightarrow> bool" where
  "ref_empty r \<longleftrightarrow> ref_id r = 0 \<and> ref_tokens r = 0"

definition ref_valid :: "PrefixStoreRef \<Rightarrow> bool" where
  "ref_valid r \<longleftrightarrow> ref_id r \<noteq> 0 \<and> ref_tokens r > 0"

definition ref_equal :: "PrefixStoreRef \<Rightarrow> PrefixStoreRef \<Rightarrow> bool" where
  "ref_equal a b \<longleftrightarrow> ref_id a = ref_id b \<and> ref_tokens a = ref_tokens b"

record PrefixCaptureTicket =
  ticket_id :: u64
  checkpoint :: PrefixStoreRef

definition default_ticket :: PrefixCaptureTicket where
  "default_ticket = \<lparr>ticket_id = 0, checkpoint = default_ref\<rparr>"

definition ticket_valid :: "PrefixCaptureTicket \<Rightarrow> bool" where
  "ticket_valid t \<longleftrightarrow> ticket_id t \<noteq> 0 \<and> ref_valid (checkpoint t)"

definition ticket_equal :: "PrefixCaptureTicket \<Rightarrow> PrefixCaptureTicket \<Rightarrow> bool" where
  "ticket_equal a b \<longleftrightarrow> ticket_id a = ticket_id b \<and> ref_equal (checkpoint a) (checkpoint b)"

record PrefixStorePlan =
  plan_restore :: PrefixStoreRef
  plan_capture :: PrefixCaptureTicket
  restore_points :: "int list"

record PrefixStoreAdmission =
  adm_restored :: PrefixStoreRef
  adm_invalidated :: PrefixStoreRef
  adm_capture :: PrefixCaptureTicket
  restore_attempted :: bool
  restore_elapsed_us :: nat

definition default_admission :: PrefixStoreAdmission where
  "default_admission = \<lparr>adm_restored = default_ref, adm_invalidated = default_ref,
     adm_capture = default_ticket, restore_attempted = False, restore_elapsed_us = 0\<rparr>"

definition malformed_restore_state :: "PrefixStoreAdmission \<Rightarrow> bool" where
  "malformed_restore_state a =
     (let has_result = (\<not> ref_empty (adm_restored a) \<or> \<not> ref_empty (adm_invalidated a)) in
      restore_attempted a \<noteq> has_result \<or>
      (\<not> ref_empty (adm_restored a) \<and> \<not> ref_valid (adm_restored a)) \<or>
      (\<not> ref_empty (adm_invalidated a) \<and> \<not> ref_valid (adm_invalidated a)))"

datatype PrefixStoreEventStatus = EvNone | EvSaved | EvFailed

record PrefixStoreEvent =
  ev_status :: PrefixStoreEventStatus
  ev_ticket :: PrefixCaptureTicket
  ev_error :: string
  ev_bytes :: nat
  ev_elapsed_us :: nat

definition attempted :: "PrefixStoreEvent \<Rightarrow> bool" where
  "attempted e \<longleftrightarrow> ev_status e \<noteq> EvNone"

lemma ref_equal_iff [simp]: "ref_equal a b \<longleftrightarrow> a = b"
  by (cases a; cases b) (simp add: ref_equal_def)

lemma ticket_equal_iff [simp]: "ticket_equal a b \<longleftrightarrow> a = b"
  by (cases a; cases b) (simp add: ticket_equal_def)

lemma ref_valid_not_empty: "ref_valid r \<Longrightarrow> \<not> ref_empty r"
  by (simp add: ref_valid_def ref_empty_def)

text \<open>An untouched admission record is well formed: it claims no restore attempt.\<close>

lemma default_admission_well_formed: "\<not> malformed_restore_state default_admission"
  by (simp add: malformed_restore_state_def default_admission_def default_ref_def ref_empty_def)

end
