(* ===== verification/Seq_Slot_Manager.thy ===== *)
theory Seq_Slot_Manager
  imports Slot_Kv Sampler_Cfg Prefix_Store
begin

text \<open>
  The host-side state of the concurrent serving slots (\<open>seq_slot_manager.h\<close>,
  \<open>seq_slot_manager.cpp\<close>). Every operation takes the allocator's member functions \<open>K\<close> (a
  \<^typ>\<open>'kv SlotKv\<close>) and the manager, which holds the allocator's state. Log output and
  \<open>std::bad_alloc\<close> are not modelled; \<open>std::mt19937_64\<close> is represented by the seed its stream
  starts from, since this component only seeds it.
\<close>

section \<open>Slots\<close>

datatype SeqSlotPhase = SeqFree | SeqPrefill | SeqDecode | SeqSuspended | SeqRecompute

record SeqSlot =
  phase :: SeqSlotPhase
  handle :: PagedKvSequenceHandle
  original_prompt_len :: int
  prompt_len :: int
  cur_pos :: int
  sampler :: SamplerCfg
  pending_capture :: PrefixCaptureTicket
  rng :: u64
  sample_history :: "token list"
  staged_tokens :: "token list"

definition fresh_slot :: SeqSlot where
  "fresh_slot = \<lparr>phase = SeqFree, handle = default_handle, original_prompt_len = 0, prompt_len = 0,
     cur_pos = 0, sampler = default_sampler, pending_capture = default_ticket,
     rng = 0x9E3779B97F4A7C15, sample_history = [], staged_tokens = []\<rparr>"

definition generated_tokens :: "SeqSlot \<Rightarrow> int" where
  "generated_tokens s =
     (if length (sample_history s) > u64_of_int (original_prompt_len s)
      then int32_of (int (length (sample_history s) - u64_of_int (original_prompt_len s)))
      else 0)"

definition penalty_history :: "SeqSlot \<Rightarrow> token list" where
  "penalty_history s =
     (let gen = generated_tokens s; keep = max 0 (min gen (rep_window (sampler s))) in
      drop (length (sample_history s) - nat keep) (sample_history s))"

abbreviation slot_active :: "SeqSlot \<Rightarrow> bool" where
  "slot_active s \<equiv> phase s \<noteq> SeqFree"

definition parked :: "SeqSlot \<Rightarrow> bool" where
  "parked s \<longleftrightarrow> phase s = SeqSuspended \<or> phase s = SeqRecompute"

section \<open>The manager\<close>

record 'kv SeqSlotManager =
  kv :: 'kv
  max_ctx :: int
  slots :: "SeqSlot list"

definition new_manager :: "'kv SlotKv \<Rightarrow> 'kv \<Rightarrow> int \<Rightarrow> 'kv SeqSlotManager" where
  "new_manager K k ctx =
     \<lparr>kv = k, max_ctx = ctx, slots = replicate (kv_max_sequences K k) fresh_slot\<rparr>"

definition decoding_count :: "'kv SeqSlotManager \<Rightarrow> nat" where
  "decoding_count m = length (filter (\<lambda>s. phase s = SeqDecode) (slots m))"

definition decode_headroom_capacity :: "'kv SlotKv \<Rightarrow> 'kv SeqSlotManager \<Rightarrow> int \<Rightarrow> nat" where
  "decode_headroom_capacity K m logical_tokens =
     u32 (min (u64_of_int (max_ctx m)) (nat (max 0 logical_tokens) + kv_block_size K (kv m)))"

definition capacity_fits_pool :: "'kv SlotKv \<Rightarrow> 'kv SeqSlotManager \<Rightarrow> nat \<Rightarrow> bool" where
  "capacity_fits_pool K m token_capacity =
     (let blocks = (if token_capacity = 0 then 0 else 1 + (token_capacity - 1) div kv_block_size K (kv m))
      in blocks \<le> kv_physical_block_count K (kv m))"

text \<open>The two loops of \<open>protect_decode_headroom\<close>: collect the missing blocks, then move them.\<close>

fun collect_topups ::
  "'kv SlotKv \<Rightarrow> 'kv SeqSlotManager \<Rightarrow> SeqSlot list \<Rightarrow> (PagedKvSequenceHandle \<times> nat) list \<Rightarrow> nat \<Rightarrow>
     PagedKvStatus + ((PagedKvSequenceHandle \<times> nat) list \<times> nat)" where
  "collect_topups K m [] topups total_additional = Inr (topups, total_additional)"
| "collect_topups K m (s # ss) topups total_additional =
     (if phase s \<noteq> SeqDecode then collect_topups K m ss topups total_additional
      else let capacity = decode_headroom_capacity K m (cur_pos s) in
        if \<not> capacity_fits_pool K m capacity then collect_topups K m ss topups total_additional
        else let (status, owned) = kv_owned_block_count K (kv m) (handle s) 0 in
          if status \<noteq> Ok then Inl status
          else let target = (if capacity = 0 then 0 else 1 + (capacity - 1) div kv_block_size K (kv m)) in
            if target \<le> owned then collect_topups K m ss topups total_additional
            else collect_topups K m ss (topups @ [(handle s, capacity)]) (total_additional + u32 (target - owned)))"

fun apply_topups ::
  "'kv SlotKv \<Rightarrow> (PagedKvSequenceHandle \<times> nat) list \<Rightarrow> 'kv \<Rightarrow> PagedKvStatus \<times> 'kv" where
  "apply_topups K [] k = (Ok, k)"
| "apply_topups K ((h, c) # ts) k =
     (let (status, k') = kv_reserve_capacity K k h c in
      if status \<noteq> Ok then (status, k') else apply_topups K ts k')"

definition protect_decode_headroom ::
  "'kv SlotKv \<Rightarrow> 'kv SeqSlotManager \<Rightarrow> PagedKvStatus \<times> 'kv SeqSlotManager" where
  "protect_decode_headroom K m =
     (case collect_topups K m (slots m) [] 0 of
        Inl status \<Rightarrow> (status, m)
      | Inr (topups, total_additional) \<Rightarrow>
          if total_additional > kv_free_block_count K (kv m) then (BlocksExhausted, m)
          else let (status, k') = apply_topups K topups (kv m) in (status, m\<lparr>kv := k'\<rparr>))"

definition is_active :: "'kv SeqSlotManager \<Rightarrow> int \<Rightarrow> bool" where
  "is_active m i \<longleftrightarrow> 0 \<le> i \<and> i < int (length (slots m)) \<and> slot_active (slots m ! nat i)"

definition is_prefilling :: "'kv SeqSlotManager \<Rightarrow> int \<Rightarrow> bool" where
  "is_prefilling m i \<longleftrightarrow> is_active m i \<and> phase (slots m ! nat i) = SeqPrefill"

definition has_prefill_prompt_at_least :: "'kv SeqSlotManager \<Rightarrow> int \<Rightarrow> bool" where
  "has_prefill_prompt_at_least m tokens \<longleftrightarrow>
     tokens \<le> 0 \<or> (\<exists>s \<in> set (slots m). phase s = SeqPrefill \<and> prompt_len s \<ge> tokens)"

abbreviation put_slot :: "'kv SeqSlotManager \<Rightarrow> int \<Rightarrow> SeqSlot \<Rightarrow> 'kv SeqSlotManager" where
  "put_slot m i s \<equiv> m\<lparr>slots := (slots m)[nat i := s]\<rparr>"

subsection \<open>Admission\<close>

datatype AdmitStatus = Admitted | Busy | CapacityExceeded | AdmitFailed

record AdmitResult =
  admit_status :: AdmitStatus
  admit_slot :: int
  admit_error :: string
  admit_prefix_store :: PrefixStoreAdmission

definition admit_error_result :: "AdmitStatus \<Rightarrow> string \<Rightarrow> AdmitResult" where
  "admit_error_result st e =
     \<lparr>admit_status = st, admit_slot = -1, admit_error = e, admit_prefix_store = default_admission\<rparr>"

fun first_free :: "SeqSlot list \<Rightarrow> int \<Rightarrow> int" where
  "first_free [] i = -1"
| "first_free (s # ss) i = (if \<not> slot_active s then i else first_free ss (i + 1))"

definition admit ::
  "'kv SlotKv \<Rightarrow> 'kv SeqSlotManager \<Rightarrow> u64 \<Rightarrow> token list \<Rightarrow> SamplerCfg \<Rightarrow> 32 word \<Rightarrow> 32 word \<Rightarrow>
     AdmitResult \<times> 'kv SeqSlotManager" where
  "admit K m rid prompt smp rd1 rd2 =
     (if \<exists>s \<in> set (slots m). parked s
      then (admit_error_result Busy ''parked requests have priority on KV capacity'', m)
      else if prompt = [] then (admit_error_result AdmitFailed ''empty prompt'', m)
      else if length prompt > u64_of_int (max_ctx m)
      then (admit_error_result CapacityExceeded ''prompt exceeds max_ctx'', m)
      else let plen = int32_of (int (length prompt));
               pool_capacity = kv_physical_block_count K (kv m) * kv_block_size K (kv m) in
        if u64_of_int plen > pool_capacity
        then (admit_error_result CapacityExceeded
                (''prompt needs '' @ dec_string (nat plen) @ '' KV tokens but the pool holds '' @
                 dec_string pool_capacity @ ''; raise --kv-pool-tokens or shorten the prompt''), m)
        else let i = first_free (slots m) 0 in
          if i < 0 then (admit_error_result Busy ''all decode slots are busy'', m)
          else let (headroom, m1) = protect_decode_headroom K m in
            if headroom \<noteq> Ok
            then (if headroom = BlocksExhausted
                  then admit_error_result Busy ''existing decoders need the available KV headroom''
                  else admit_error_result AdmitFailed (paged_kv_status_string headroom), m1)
            else let wanted = decode_headroom_capacity K m1 plen;
                     capacity = (if \<not> capacity_fits_pool K m1 wanted then u32_of_int plen else wanted);
                     (status, h, k') = kv_acquire_reserved K (kv m1) rid capacity default_handle;
                     m2 = m1\<lparr>kv := k'\<rparr> in
              if status \<noteq> Ok
              then (admit_error_result
                      (if status = SequenceSlotsExhausted \<or> status = BlocksExhausted then Busy else AdmitFailed)
                      (if status = BlocksExhausted
                       then ''not enough unreserved KV blocks for the prompt and decode headroom''
                       else paged_kv_status_string status), m2)
              else let s = slots m2 ! nat i;
                       s' = s\<lparr>phase := SeqPrefill, handle := h, cur_pos := 0, original_prompt_len := plen,
                             prompt_len := plen, sampler := smp, sample_history := prompt,
                             rng := (if needs_logit_processing smp then request_rng_seed smp rd1 rd2
                                     else ucast rd1)\<rparr> in
                ((admit_error_result Admitted [])\<lparr>admit_slot := i\<rparr>, put_slot m2 i s'))"

subsection \<open>Prefill\<close>

record PrefillChunk =
  pc_ok :: bool
  pc_rows :: "int list"
  pc_new_blocks :: "int list"
  pc_first_new_block :: int

definition empty_chunk :: PrefillChunk where
  "empty_chunk = \<lparr>pc_ok = False, pc_rows = [], pc_new_blocks = [], pc_first_new_block = -1\<rparr>"

text \<open>
  The loop over the write slots, shared by \<open>append_prefill\<close> and \<open>append_tokens\<close>: physical rows,
  blocks entered at offset 0 and the index of the first of them.
\<close>

fun collect_rows :: "nat \<Rightarrow> PagedKvWriteSlot list \<Rightarrow> int list \<times> int list \<times> int \<Rightarrow> int list \<times> int list \<times> int" where
  "collect_rows bs [] acc = acc"
| "collect_rows bs (w # ws) (rows, blocks, first) =
     (let rows' = rows @ [int (physical_token_index w)] in
      if block_offset w = 0
      then collect_rows bs ws (rows', blocks @ [int32_of (int (physical_block w))],
             if first < 0 then int32_of (int (logical_position w div bs)) else first)
      else collect_rows bs ws (rows', blocks, first))"

definition append_prefill ::
  "'kv SlotKv \<Rightarrow> 'kv SeqSlotManager \<Rightarrow> int \<Rightarrow> int \<Rightarrow> PrefillChunk \<times> 'kv SeqSlotManager" where
  "append_prefill K m i n =
     (if \<not> is_prefilling m i \<or> n < 1 then (empty_chunk, m)
      else let s = slots m ! nat i in
        if cur_pos s > prompt_len s \<or> n > prompt_len s - cur_pos s then (empty_chunk, m)
        else let (app, k') = kv_append K (kv m) (handle s) (u32_of_int n) False; m1 = m\<lparr>kv := k'\<rparr> in
          if ar_status app \<noteq> Ok then (empty_chunk, m1)
          else let (rows, blocks, first) = collect_rows (kv_block_size K k') (ar_write_slots app) ([], [], -1) in
            (\<lparr>pc_ok = True, pc_rows = rows, pc_new_blocks = blocks, pc_first_new_block = first\<rparr>,
             put_slot m1 i (s\<lparr>cur_pos := cur_pos s + n\<rparr>)))"

definition seed_restored_prefix ::
  "'kv SlotKv \<Rightarrow> 'kv SeqSlotManager \<Rightarrow> int \<Rightarrow> int \<Rightarrow> PrefillChunk \<times> 'kv SeqSlotManager" where
  "seed_restored_prefix K m i restored =
     (if \<not> is_prefilling m i \<or> cur_pos (slots m ! nat i) \<noteq> 0 \<or> restored \<le> 0 \<or>
         restored \<ge> prompt_len (slots m ! nat i)
      then (empty_chunk, m) else append_prefill K m i restored)"

definition commit_prefill :: "'kv SeqSlotManager \<Rightarrow> int \<Rightarrow> 'kv SeqSlotManager" where
  "commit_prefill m i =
     (if \<not> is_prefilling m i then m
      else let s = slots m ! nat i in
        if cur_pos s \<noteq> prompt_len s then m else put_slot m i (s\<lparr>phase := SeqDecode\<rparr>))"

subsection \<open>Decode\<close>

record StepAppend =
  sa_ok :: bool
  sa_busy :: bool
  physical_row :: int
  physical_rows :: "int list"
  sa_count :: int
  sa_position :: int
  new_block :: int
  new_block_index :: int
  new_blocks :: "int list"
  first_new_block :: int

definition empty_step :: StepAppend where
  "empty_step = \<lparr>sa_ok = False, sa_busy = False, physical_row = -1, physical_rows = [], sa_count = 0,
     sa_position = -1, new_block = -1, new_block_index = -1, new_blocks = [], first_new_block = -1\<rparr>"

text \<open>\<open>fed_tokens\<close> is a pointer to \<open>n_tokens\<close> values; \<open>None\<close> is the null pointer.\<close>

definition append_tokens ::
  "'kv SlotKv \<Rightarrow> 'kv SeqSlotManager \<Rightarrow> int \<Rightarrow> token list option \<Rightarrow> int \<Rightarrow> StepAppend \<times> 'kv SeqSlotManager" where
  "append_tokens K m i fed n =
     (if \<not> is_active m i \<or> phase (slots m ! nat i) \<noteq> SeqDecode \<or> fed = None \<or> n < 1 then (empty_step, m)
      else let s = slots m ! nat i in
        if staged_tokens s \<noteq> [] \<or> cur_pos s > max_ctx m \<or> n > max_ctx m - cur_pos s then (empty_step, m)
        else let (app, k') = kv_append K (kv m) (handle s) (u32_of_int n) False; m1 = m\<lparr>kv := k'\<rparr> in
          if ar_status app \<noteq> Ok \<or> ar_token_count app \<noteq> u32_of_int n
          then (empty_step\<lparr>sa_busy := (ar_status app = BlocksExhausted)\<rparr>, m1)
          else if length (ar_write_slots app) \<noteq> u64_of_int n \<or>
                  logical_position (hd (ar_write_slots app)) \<noteq> u32_of_int (cur_pos s) \<or>
                  logical_position (last (ar_write_slots app)) \<noteq> u32_of_int (cur_pos s + n - 1)
          then (let (rollback, k'') = kv_rollback_append K k' (handle s) (u32_of_int n)
                in (empty_step, m1\<lparr>kv := k''\<rparr>))
          else let (rows, blocks, first) = collect_rows (kv_block_size K k') (ar_write_slots app) ([], [], -1) in
            (\<lparr>sa_ok = True, sa_busy = False, physical_row = hd rows, physical_rows = rows, sa_count = n,
              sa_position = cur_pos s,
              new_block = (if blocks = [] then -1 else hd blocks),
              new_block_index = (if blocks = [] then -1 else first),
              new_blocks = blocks, first_new_block = first\<rparr>,
             put_slot m1 i (s\<lparr>staged_tokens := take (nat n) (the fed)\<rparr>)))"

definition append_token ::
  "'kv SlotKv \<Rightarrow> 'kv SeqSlotManager \<Rightarrow> int \<Rightarrow> token \<Rightarrow> StepAppend \<times> 'kv SeqSlotManager" where
  "append_token K m i t = append_tokens K m i (Some [t]) 1"

definition commit_step :: "'kv SeqSlotManager \<Rightarrow> int \<Rightarrow> 'kv SeqSlotManager" where
  "commit_step m i =
     (if \<not> is_active m i then m
      else let s = slots m ! nat i in
        if staged_tokens s = [] then m
        else put_slot m i (s\<lparr>sample_history := sample_history s @ staged_tokens s,
               cur_pos := cur_pos s + int (length (staged_tokens s)), staged_tokens := []\<rparr>))"

definition rollback_step :: "'kv SlotKv \<Rightarrow> 'kv SeqSlotManager \<Rightarrow> int \<Rightarrow> bool \<times> 'kv SeqSlotManager" where
  "rollback_step K m i =
     (if \<not> is_active m i then (False, m)
      else let s = slots m ! nat i in
        if staged_tokens s = [] then (False, m)
        else let (status, k') = kv_rollback_append K (kv m) (handle s) (u32 (length (staged_tokens s)));
                 m1 = m\<lparr>kv := k'\<rparr> in
          if status \<noteq> Ok then (False, m1)
          else (True, put_slot m1 i (s\<lparr>staged_tokens := []\<rparr>)))"

text \<open>
  The preflight loop of \<open>reserve_decode\<close> (\<open>None\<close> is its \<open>return false\<close>) and the loop that reserves.
\<close>

fun decode_growth_blocks ::
  "'kv SlotKv \<Rightarrow> 'kv SeqSlotManager \<Rightarrow> (SeqSlot \<times> int) list \<Rightarrow> nat \<Rightarrow> nat option" where
  "decode_growth_blocks K m [] additional = Some additional"
| "decode_growth_blocks K m ((s, tokens) # rest) additional =
     (if phase s \<noteq> SeqDecode then (if tokens \<noteq> 0 then None else decode_growth_blocks K m rest additional)
      else if tokens < 1 \<or> staged_tokens s \<noteq> [] \<or> tokens > max_ctx m - cur_pos s then None
      else let (status, owned) = kv_owned_block_count K (kv m) (handle s) 0 in
        if status \<noteq> Ok then None
        else let extent = u64_of_int (cur_pos s + tokens);
                 needed = (extent + kv_block_size K (kv m) - 1) div kv_block_size K (kv m) in
          decode_growth_blocks K m rest (if needed > owned then additional + (needed - owned) else additional))"

fun reserve_growth ::
  "'kv SlotKv \<Rightarrow> (SeqSlot \<times> int) list \<Rightarrow> 'kv \<Rightarrow> bool \<times> 'kv" where
  "reserve_growth K [] k = (True, k)"
| "reserve_growth K ((s, tokens) # rest) k =
     (if tokens = 0 then reserve_growth K rest k
      else let (status, k') = kv_reserve_capacity K k (handle s) (u32_of_int (cur_pos s + tokens)) in
        if status \<noteq> Ok then (False, k') else reserve_growth K rest k')"

definition reserve_decode :: "'kv SlotKv \<Rightarrow> 'kv SeqSlotManager \<Rightarrow> int list \<Rightarrow> bool \<times> 'kv SeqSlotManager" where
  "reserve_decode K m growth =
     (if length growth \<noteq> length (slots m) then (False, m)
      else case decode_growth_blocks K m (zip (slots m) growth) 0 of
        None \<Rightarrow> (False, m)
      | Some additional \<Rightarrow>
          if additional > kv_free_block_count K (kv m) then (False, m)
          else let (ok, k') = reserve_growth K (zip (slots m) growth) (kv m) in (ok, m\<lparr>kv := k'\<rparr>))"

subsection \<open>Parking, resuming and retiring\<close>

definition detach_kv :: "'kv SlotKv \<Rightarrow> 'kv SeqSlotManager \<Rightarrow> int \<Rightarrow> bool \<times> 'kv SeqSlotManager" where
  "detach_kv K m i =
     (if \<not> is_active m i then (False, m)
      else let s = slots m ! nat i in
        if parked s \<or> staged_tokens s \<noteq> [] then (False, m)
        else let (status, k') = kv_clear K (kv m) (handle s); m1 = m\<lparr>kv := k'\<rparr> in
          if status \<noteq> Ok then (False, m1) else (True, put_slot m1 i (s\<lparr>phase := SeqSuspended\<rparr>)))"

definition resume_token_capacity :: "'kv SlotKv \<Rightarrow> 'kv SeqSlotManager \<Rightarrow> SeqSlot \<Rightarrow> nat" where
  "resume_token_capacity K m s =
     (if phase s = SeqRecompute
      then (let headroom = decode_headroom_capacity K m (prompt_len s) in
            if capacity_fits_pool K m headroom then headroom else u32_of_int (prompt_len s))
      else u32_of_int (max (prompt_len s) (min (max_ctx m) (cur_pos s + 1))))"

definition attach_kv :: "'kv SlotKv \<Rightarrow> 'kv SeqSlotManager \<Rightarrow> int \<Rightarrow> bool \<times> 'kv SeqSlotManager" where
  "attach_kv K m i =
     (if \<not> is_active m i then (False, m)
      else let s = slots m ! nat i in
        if phase s \<noteq> SeqSuspended then (False, m)
        else let (status, k1) = kv_reserve_capacity K (kv m) (handle s) (resume_token_capacity K m s) in
          if status \<noteq> Ok then (False, m\<lparr>kv := k1\<rparr>)
          else let (app, k2) = kv_append K k1 (handle s) (u32_of_int (cur_pos s)) True in
            if ar_status app \<noteq> Ok
            then (False, m\<lparr>kv := snd (kv_clear K k2 (handle s))\<rparr>)
            else (True, put_slot (m\<lparr>kv := k2\<rparr>) i
                    (s\<lparr>phase := (if cur_pos s < prompt_len s then SeqPrefill else SeqDecode)\<rparr>)))"

definition evict_for_recompute ::
  "'kv SlotKv \<Rightarrow> 'kv SeqSlotManager \<Rightarrow> int \<Rightarrow> token \<Rightarrow> bool \<times> 'kv SeqSlotManager" where
  "evict_for_recompute K m i pending_token =
     (if \<not> is_active m i then (False, m)
      else let s = slots m ! nat i in
        if phase s = SeqRecompute \<or> staged_tokens s \<noteq> [] then (False, m)
        else let history = int (length (sample_history s)) + (if pending_token \<ge> 0 then 1 else 0) in
          if history < 1 \<or> history > max_ctx m \<or> \<not> capacity_fits_pool K m (u32_of_int history) then (False, m)
          else let (status, k') = (if phase s = SeqSuspended then (Ok, kv m) else kv_clear K (kv m) (handle s)) in
            if status \<noteq> Ok then (False, m\<lparr>kv := k'\<rparr>)
            else let hist' = (if pending_token \<ge> 0 then sample_history s @ [pending_token] else sample_history s) in
              (True, put_slot (m\<lparr>kv := k'\<rparr>) i
                 (s\<lparr>sample_history := hist', prompt_len := int32_of (int (length hist')), cur_pos := 0,
                    phase := SeqRecompute\<rparr>)))"

definition resume_recompute :: "'kv SlotKv \<Rightarrow> 'kv SeqSlotManager \<Rightarrow> int \<Rightarrow> bool \<times> 'kv SeqSlotManager" where
  "resume_recompute K m i =
     (if \<not> is_active m i then (False, m)
      else let s = slots m ! nat i in
        if phase s \<noteq> SeqRecompute then (False, m)
        else let (status, k') = kv_reserve_capacity K (kv m) (handle s) (resume_token_capacity K m s) in
          if status \<noteq> Ok then (False, m\<lparr>kv := k'\<rparr>)
          else (True, put_slot (m\<lparr>kv := k'\<rparr>) i (s\<lparr>phase := SeqPrefill\<rparr>)))"

definition kv_restore_feasible :: "'kv SlotKv \<Rightarrow> 'kv SeqSlotManager \<Rightarrow> int \<Rightarrow> bool" where
  "kv_restore_feasible K m i =
     (if \<not> is_active m i then False
      else let s = slots m ! nat i in
        if \<not> parked s then False
        else let capacity = resume_token_capacity K m s;
                 needed = (if capacity = 0 then 0 else 1 + (capacity - 1) div kv_block_size K (kv m));
                 margin = 1 + length (filter (\<lambda>o'. slot_active o' \<and> \<not> parked o') (slots m)) in
          needed + margin \<le> kv_free_block_count K (kv m))"

definition retire :: "'kv SlotKv \<Rightarrow> 'kv SeqSlotManager \<Rightarrow> int \<Rightarrow> 'kv SeqSlotManager" where
  "retire K m i =
     (if i < 0 \<or> i \<ge> int (length (slots m)) then m
      else let s = slots m ! nat i in
        if \<not> slot_active s then m
        else let (status, k') = kv_release K (kv m) (handle s) in put_slot (m\<lparr>kv := k'\<rparr>) i fresh_slot)"

text \<open>The destructor retires every slot in turn.\<close>

definition destroy_manager :: "'kv SlotKv \<Rightarrow> 'kv SeqSlotManager \<Rightarrow> 'kv SeqSlotManager" where
  "destroy_manager K m = foldl (\<lambda>m' i. retire K m' (int i)) m [0..<length (slots m)]"

section \<open>The row loop\<close>

lemma collect_rows_eq:
  assumes "\<forall>w \<in> set ws. int (logical_position w div bs) \<le> int_max" "- 1 \<le> first"
  shows "collect_rows bs ws (rows, blocks, first) =
    (rows @ map (\<lambda>w. int (physical_token_index w)) ws,
     blocks @ map (\<lambda>w. int32_of (int (physical_block w))) (filter (\<lambda>w. block_offset w = 0) ws),
     if first < 0 then (case filter (\<lambda>w. block_offset w = 0) ws of [] \<Rightarrow> first | w # _ \<Rightarrow> int (logical_position w div bs))
     else first)"
  using assms
proof (induction ws arbitrary: rows blocks first)
  case (Cons w ws)
  have w: "int32_of (int (logical_position w div bs)) = int (logical_position w div bs)" using Cons.prems(1) by simp
  show ?case
  proof (cases "block_offset w = 0 \<and> first < 0")
    case True
    then show ?thesis using Cons.IH [of "int (logical_position w div bs)"] Cons.prems(1) by (simp add: w Let_def)
  next
    case False
    then show ?thesis using Cons.IH [of first] Cons.prems by (auto simp: w Let_def)
  qed
qed (auto split: list.splits)

lemma collect_rows_length: "length (fst (collect_rows bs ws acc)) = length (fst acc) + length ws"
  by (induction bs ws acc rule: collect_rows.induct) (simp_all add: Let_def)

lemma collect_rows_rows: "(rows, blocks, first) = collect_rows bs ws ([], b, f) \<Longrightarrow> length rows = length ws"
  using collect_rows_length [of bs ws "([], b, f)"] by (metis add_0 fst_conv list.size(3))

text \<open>A successful append depends on the allocator's state only through what \<open>append\<close> returns.\<close>

lemma append_tokens_kv_cong:
  assumes eq: "append_tokens K m i fed n = (r, m')" and ok: "sa_ok r"
    and k: "kv_append K k (handle (slots m ! nat i)) (u32_of_int n) False =
      kv_append K (kv m) (handle (slots m ! nat i)) (u32_of_int n) False"
  shows "append_tokens K (m\<lparr>kv := k\<rparr>) i fed n = (r, m')"
proof -
  have guards: "\<not> (\<not> is_active m i \<or> phase (slots m ! nat i) \<noteq> SeqDecode \<or> fed = None \<or> n < 1)"
    "\<not> (staged_tokens (slots m ! nat i) \<noteq> [] \<or> cur_pos (slots m ! nat i) > max_ctx m \<or> n > max_ctx m - cur_pos (slots m ! nat i))"
    using eq ok by (auto simp: append_tokens_def Let_def empty_step_def split: if_splits)
  have act: "is_active (m\<lparr>kv := k\<rparr>) i = is_active m i" by (simp add: is_active_def)
  obtain y where fed: "fed = Some y" using guards by auto
  obtain app k' where a: "kv_append K (kv m) (handle (slots m ! nat i)) (u32_of_int n) False = (app, k')" by fastforce
  obtain rb k'' where b: "kv_rollback_append K k' (handle (slots m ! nat i)) (u32_of_int n) = (rb, k'')" by fastforce
  obtain rows blocks first where c: "collect_rows (kv_block_size K k') (ar_write_slots app) ([], [], -1) = (rows, blocks, first)"
    by (rule prod_cases3)
  show ?thesis
    using eq guards by (simp add: append_tokens_def Let_def act k a b c fed)
qed

end
