(* ===== verification/Seq_Slot_Inv.thy ===== *)
theory Seq_Slot_Inv
  imports Seq_Slot_Manager
begin

text \<open>
  The slot manager's invariant and its preservation by every operation, for any allocator that
  meets \<open>slot_kv_contract\<close>: what a slot records (phase, position, history, staged tokens) always
  agrees with what the allocator stores for its handle.
\<close>

section \<open>The invariant\<close>

text \<open>
  \<open>slot_ok ctx bs v s\<close>: the slot's record against the allocator's view \<open>v\<close> of its handle. A prefilling
  slot owns blocks for its whole prompt; a decoding slot has stored exactly its history plus the
  staged tokens; a parked slot owns nothing.
\<close>

definition slot_ok :: "int \<Rightarrow> nat \<Rightarrow> (nat \<times> nat) option \<Rightarrow> SeqSlot \<Rightarrow> bool" where
  "slot_ok ctx bs v s \<longleftrightarrow>
     (slot_active s \<longrightarrow> 1 \<le> original_prompt_len s \<and> original_prompt_len s \<le> int (length (sample_history s)) \<and>
        int (length (sample_history s)) \<le> ctx \<and> 0 \<le> cur_pos s) \<and>
     (case phase s of
        SeqFree \<Rightarrow> staged_tokens s = []
      | SeqPrefill \<Rightarrow> staged_tokens s = [] \<and> cur_pos s \<le> prompt_len s \<and>
          prompt_len s = int (length (sample_history s)) \<and>
          (\<exists>own. v = Some (nat (cur_pos s), own) \<and> nat (prompt_len s) \<le> own * bs)
      | SeqDecode \<Rightarrow> prompt_len s \<le> cur_pos s \<and> cur_pos s = int (length (sample_history s)) \<and>
          cur_pos s + int (length (staged_tokens s)) \<le> ctx \<and>
          (\<exists>own. v = Some (nat (cur_pos s) + length (staged_tokens s), own))
      | SeqSuspended \<Rightarrow> staged_tokens s = [] \<and> v = Some (0, 0) \<and>
          max (prompt_len s) (cur_pos s) = int (length (sample_history s))
      | SeqRecompute \<Rightarrow> staged_tokens s = [] \<and> v = Some (0, 0) \<and> cur_pos s = 0 \<and>
          prompt_len s = int (length (sample_history s)))"

definition handles_distinct :: "SeqSlot list \<Rightarrow> bool" where
  "handles_distinct ss \<longleftrightarrow>
     (\<forall>i < length ss. \<forall>j < length ss. i \<noteq> j \<longrightarrow> slot_active (ss ! i) \<longrightarrow> slot_active (ss ! j) \<longrightarrow>
        handle (ss ! i) \<noteq> handle (ss ! j))"

definition mgr_inv :: "'kv SlotKv \<Rightarrow> ('kv \<Rightarrow> bool) \<Rightarrow> 'kv kv_view \<Rightarrow> 'kv SeqSlotManager \<Rightarrow> bool" where
  "mgr_inv K good view m \<longleftrightarrow>
     good (kv m) \<and> 0 \<le> max_ctx m \<and> max_ctx m \<le> int_max \<and> handles_distinct (slots m) \<and>
     (\<forall>h. view (kv m) h \<noteq> None \<longrightarrow> (\<exists>s \<in> set (slots m). slot_active s \<and> handle s = h)) \<and>
     (\<forall>s \<in> set (slots m). slot_ok (max_ctx m) (kv_block_size K (kv m)) (view (kv m) (handle s)) s)"

lemma mgr_invD:
  assumes "mgr_inv K good view m"
  shows "good (kv m)" "0 \<le> max_ctx m" "max_ctx m \<le> int_max" "handles_distinct (slots m)"
    "i < length (slots m) \<Longrightarrow>
       slot_ok (max_ctx m) (kv_block_size K (kv m)) (view (kv m) (handle (slots m ! i))) (slots m ! i)"
  using assms by (auto simp: mgr_inv_def)

lemma no_orphan:
  assumes "mgr_inv K good view m" "view (kv m) h \<noteq> None"
  obtains i where "i < length (slots m)" "slot_active (slots m ! i)" "handle (slots m ! i) = h"
proof -
  have "\<exists>s \<in> set (slots m). slot_active s \<and> handle s = h" using assms unfolding mgr_inv_def by blast
  then show ?thesis using that by (metis in_set_conv_nth)
qed

lemma slot_ok_view:
  "slot_ok ctx bs v s \<Longrightarrow> slot_active s \<Longrightarrow> \<exists>len own. v = Some (len, own)"
  by (cases "phase s") (auto simp: slot_ok_def)

lemma handles_distinct_update:
  assumes "handles_distinct ss"
    "slot_active s' \<Longrightarrow> \<forall>j < length ss. j \<noteq> i \<longrightarrow> slot_active (ss ! j) \<longrightarrow> handle (ss ! j) \<noteq> handle s'"
  shows "handles_distinct (ss[i := s'])"
proof (cases "i < length ss")
  case True
  show ?thesis
    using assms unfolding handles_distinct_def
    by (auto simp: nth_list_update [OF True] split: if_splits)
qed (use assms in \<open>simp add: list_update_beyond\<close>)

lemma handles_distinct_Cons:
  "handles_distinct (s # ss) \<Longrightarrow> handles_distinct ss \<and>
     (slot_active s \<longrightarrow> (\<forall>s' \<in> set ss. slot_active s' \<longrightarrow> handle s' \<noteq> handle s))"
  unfolding handles_distinct_def by (fastforce simp: in_set_conv_nth)

lemma handles_distinct_filter:
  "handles_distinct ss \<Longrightarrow> (\<And>s. P s \<Longrightarrow> slot_active s) \<Longrightarrow> distinct (map handle (filter P ss))"
proof (induction ss)
  case (Cons s ss)
  then show ?case using handles_distinct_Cons [of s ss] by auto
qed simp

context slot_kv_contract
begin

text \<open>Changing one slot together with the allocator's entry for its handle.\<close>

lemma mgr_inv_put:
  assumes inv: "mgr_inv K good view m" and i: "i < length (slots m)"
    and k': "good k'" "kv_frame K view (kv m) h k'"
    and s': "slot_ok (max_ctx m) (kv_block_size K (kv m)) (view k' (handle s')) s'"
    and h: "\<And>j. j < length (slots m) \<Longrightarrow> j \<noteq> i \<Longrightarrow> slot_active (slots m ! j) \<Longrightarrow> handle (slots m ! j) \<noteq> h"
    and hs: "slot_active s' \<Longrightarrow> handle s' = h"
    and old: "slot_active (slots m ! i) \<Longrightarrow> handle (slots m ! i) = h"
    and new: "view k' h \<noteq> None \<Longrightarrow> slot_active s'"
  shows "mgr_inv K good view (m\<lparr>kv := k', slots := (slots m)[i := s']\<rparr>)"
proof -
  have orphan: "\<exists>s \<in> set ((slots m)[i := s']). slot_active s \<and> handle s = h'" if v: "view k' h' \<noteq> None" for h'
  proof (cases "h' = h")
    case True
    then show ?thesis using v new hs i set_update_memI by metis
  next
    case False
    with v have "view (kv m) h' \<noteq> None" using kv_frameD(4) [OF k'(2)] by metis
    then obtain j where j: "j < length (slots m)" "slot_active (slots m ! j)" "handle (slots m ! j) = h'"
      by (rule no_orphan [OF inv])
    then have "j \<noteq> i" using old False by auto
    then have "slots m ! j \<in> set ((slots m)[i := s'])"
      using j(1) by (metis length_list_update nth_list_update_neq nth_mem)
    then show ?thesis using j by blast
  qed
  have bs: "kv_block_size K k' = kv_block_size K (kv m)" using kv_frameD(1) [OF k'(2)] .
  have other: "slot_ok (max_ctx m) (kv_block_size K (kv m)) (view k' (handle (slots m ! j))) (slots m ! j)"
    if j: "j < length (slots m)" "j \<noteq> i" for j
  proof (cases "slot_active (slots m ! j)")
    case True
    then show ?thesis using mgr_invD(5) [OF inv j(1)] kv_frameD(4) [OF k'(2) h [OF j True]] by simp
  next
    case False
    then show ?thesis using mgr_invD(5) [OF inv j(1)] by (simp add: slot_ok_def)
  qed
  have "slot_ok (max_ctx m) (kv_block_size K k') (view k' (handle s)) s" if "s \<in> set ((slots m)[i := s'])" for s
    using that s' other bs by (auto simp: in_set_conv_nth nth_list_update [OF i])
  moreover have "handles_distinct ((slots m)[i := s'])"
    using mgr_invD(4) [OF inv] h hs by (intro handles_distinct_update) auto
  ultimately show ?thesis using inv k'(1) orphan by (simp add: mgr_inv_def)
qed

lemma mgr_inv_put_active:
  assumes inv: "mgr_inv K good view m" and i: "i < length (slots m)" "slot_active (slots m ! i)"
    and k': "good k'" "kv_frame K view (kv m) (handle (slots m ! i)) k'"
    and s': "slot_ok (max_ctx m) (kv_block_size K (kv m)) (view k' (handle s')) s'"
    and hs: "slot_active s' \<Longrightarrow> handle s' = handle (slots m ! i)"
    and new: "slot_active s' \<or> view k' (handle (slots m ! i)) = None"
  shows "mgr_inv K good view (m\<lparr>kv := k', slots := (slots m)[i := s']\<rparr>)"
  using mgr_invD(4) [OF inv] i hs new
  by (intro mgr_inv_put [OF inv i(1) k' s']) (auto simp: handles_distinct_def)

lemma mgr_inv_kv:
  assumes inv: "mgr_inv K good view m" and i: "i < length (slots m)" "slot_active (slots m ! i)"
    and k': "good k'" "kv_frame K view (kv m) (handle (slots m ! i)) k'"
    and s': "slot_ok (max_ctx m) (kv_block_size K (kv m)) (view k' (handle (slots m ! i))) (slots m ! i)"
  shows "mgr_inv K good view (m\<lparr>kv := k'\<rparr>)"
  using mgr_inv_put_active [OF inv i k' s'] i by simp

lemma mgr_inv_slot:
  assumes inv: "mgr_inv K good view m" and i: "i < length (slots m)" "slot_active (slots m ! i)"
    and s': "slot_ok (max_ctx m) (kv_block_size K (kv m)) (view (kv m) (handle s')) s'"
    and hs: "handle s' = handle (slots m ! i)" "slot_active s'"
  shows "mgr_inv K good view (m\<lparr>slots := (slots m)[i := s']\<rparr>)"
  using mgr_inv_put_active [OF inv i mgr_invD(1) [OF inv] kv_frame_refl s'] hs by simp

section \<open>Capacities\<close>

lemma headroom_capacity:
  assumes inv: "mgr_inv K good view m" and n: "0 \<le> n" "n \<le> max_ctx m"
  shows "decode_headroom_capacity K m n = min (nat (max_ctx m)) (nat n + kv_block_size K (kv m))"
    and "nat n \<le> decode_headroom_capacity K m n"
proof -
  have "nat (max_ctx m) \<le> u32_max" using mgr_invD(2,3) [OF inv] by (simp add: u32_max_def)
  then have "min (nat (max_ctx m)) (nat n + kv_block_size K (kv m)) \<le> u32_max" by simp
  then show "decode_headroom_capacity K m n = min (nat (max_ctx m)) (nat n + kv_block_size K (kv m))"
    using mgr_invD(2,3) [OF inv] n by (simp add: decode_headroom_capacity_def)
  then show "nat n \<le> decode_headroom_capacity K m n" using n by simp
qed

lemma capacity_fits_iff:
  "capacity_fits_pool K m c \<longleftrightarrow> ceil_div c (kv_block_size K (kv m)) \<le> kv_physical_block_count K (kv m)"
  by (simp add: capacity_fits_pool_def ceil_div_def Let_def)

lemma target_blocks: "(if c = 0 then 0 else 1 + (c - 1) div bs) = ceil_div c bs"
  by (simp add: ceil_div_def)

lemma first_free_cases:
  "first_free ss j = -1 \<and> (\<forall>s \<in> set ss. slot_active s) \<or>
   (\<exists>i < length ss. first_free ss j = j + int i \<and> \<not> slot_active (ss ! i))"
proof (induction ss arbitrary: j)
  case (Cons s ss)
  show ?case
  proof (cases "slot_active s")
    case True
    from Cons.IH [of "j + 1"] show ?thesis
    proof (elim disjE exE conjE)
      fix i assume "i < length ss" "first_free ss (j + 1) = j + 1 + int i" "\<not> slot_active (ss ! i)"
      then show ?thesis using True by (intro disjI2 exI [of _ "Suc i"]) auto
    qed (use True in auto)
  qed auto
qed simp

section \<open>Reserving for decoders\<close>

text \<open>Reserving for a decoding slot keeps the invariant and never shrinks what a slot owns.\<close>

lemma reserve_decoder_inv:
  assumes inv: "mgr_inv K good view m" and i: "i < length (slots m)" "phase (slots m ! i) = SeqDecode"
    and eq: "kv_reserve_capacity K (kv m) (handle (slots m ! i)) c = (st, k')"
  shows "mgr_inv K good view (m\<lparr>kv := k'\<rparr>)"
proof -
  note good = mgr_invD(1) [OF inv] and ok = mgr_invD(5) [OF inv i(1)]
  let ?h = "handle (slots m ! i)"
  obtain len own where v: "view (kv m) ?h = Some (len, own)" using slot_ok_view [OF ok] i by auto
  have "\<exists>own'. view k' ?h = Some (len, own')"
    using reserve_ok [OF good v eq] reserve_exhausted [OF good v eq] v by (cases "ceil_div c (kv_block_size K (kv m)) \<le> own + kv_free_block_count K (kv m)") auto
  then show ?thesis
    using ok i v by (intro mgr_inv_kv [OF inv i(1) _ reserve_good [OF good eq] reserve_frame [OF good eq]])
      (auto simp: slot_ok_def)
qed

text \<open>The loop that reserves: with enough free blocks for the whole cohort, every step succeeds.\<close>

lemma apply_topups_all:
  assumes "good k" "distinct (map fst ts)" "\<forall>(h, c) \<in> set ts. view k h \<noteq> None"
    and "(\<Sum>(h, c) \<leftarrow> ts. ceil_div c (kv_block_size K k) - snd (the (view k h))) \<le> kv_free_block_count K k"
  shows "\<exists>k'. apply_topups K ts k = (Ok, k') \<and> good k' \<and>
    kv_block_size K k' = kv_block_size K k \<and> kv_physical_block_count K k' = kv_physical_block_count K k \<and>
    (\<forall>(h, c) \<in> set ts. view k' h =
       Some (fst (the (view k h)), max (snd (the (view k h))) (ceil_div c (kv_block_size K k)))) \<and>
    (\<forall>h. h \<notin> fst ` set ts \<longrightarrow> view k' h = view k h)"
  using assms
proof (induction ts arbitrary: k)
  case (Cons t ts)
  obtain h c where t: "t = (h, c)" by fastforce
  obtain len own where v: "view k h = Some (len, own)" using Cons.prems(3) t by auto
  obtain st k1 where eq: "kv_reserve_capacity K k h c = (st, k1)" by fastforce
  note good = Cons.prems(1) and frame = reserve_frame [OF Cons.prems(1) eq]
  have fits: "ceil_div c (kv_block_size K k) \<le> own + kv_free_block_count K k"
    using Cons.prems(4) t v by simp
  have k1: "st = Ok" "view k1 h = Some (len, max own (ceil_div c (kv_block_size K k)))"
    "kv_free_block_count K k1 = kv_free_block_count K k - (ceil_div c (kv_block_size K k) - own)"
    using reserve_ok [OF good v eq fits] by auto
  have other: "view k1 h' = view k h'" if "h' \<in> fst ` set ts" for h'
    using kv_frameD(4) [OF frame] Cons.prems(2) t that by (metis distinct.simps(2) fst_conv list.map(2) set_map)
  have "\<exists>k'. apply_topups K ts k1 = (Ok, k') \<and> good k' \<and>
    kv_block_size K k' = kv_block_size K k1 \<and> kv_physical_block_count K k' = kv_physical_block_count K k1 \<and>
    (\<forall>(h, c) \<in> set ts. view k' h =
       Some (fst (the (view k1 h)), max (snd (the (view k1 h))) (ceil_div c (kv_block_size K k1)))) \<and>
    (\<forall>h. h \<notin> fst ` set ts \<longrightarrow> view k' h = view k1 h)"
  proof (rule Cons.IH [OF reserve_good [OF good eq]])
    show "distinct (map fst ts)" using Cons.prems(2) by simp
    show "\<forall>(h, c) \<in> set ts. view k1 h \<noteq> None" using Cons.prems(3) other by fastforce
    have "(\<Sum>(h, c) \<leftarrow> ts. ceil_div c (kv_block_size K k1) - snd (the (view k1 h)))
        = (\<Sum>(h, c) \<leftarrow> ts. ceil_div c (kv_block_size K k) - snd (the (view k h)))"
      using other kv_frameD(1) [OF frame] by (intro arg_cong [where f = sum_list] map_cong) force+
    then show "(\<Sum>(h, c) \<leftarrow> ts. ceil_div c (kv_block_size K k1) - snd (the (view k1 h))) \<le> kv_free_block_count K k1"
      using Cons.prems(4) t v k1(3) by simp
  qed
  then obtain k' where k': "apply_topups K ts k1 = (Ok, k')" "good k'"
    "kv_block_size K k' = kv_block_size K k1" "kv_physical_block_count K k' = kv_physical_block_count K k1"
    "\<forall>(h, c) \<in> set ts. view k' h =
       Some (fst (the (view k1 h)), max (snd (the (view k1 h))) (ceil_div c (kv_block_size K k1)))"
    "\<forall>h. h \<notin> fst ` set ts \<longrightarrow> view k' h = view k1 h" by blast
  have "h \<notin> fst ` set ts" using Cons.prems(2) t by simp
  then show ?case
    using t eq k1 k' other kv_frameD [OF frame] v by (intro exI [of _ k']) (auto simp: case_prod_beta)
qed simp

lemma apply_topups_inv:
  assumes "mgr_inv K good view m"
    and "\<forall>(h, c) \<in> set ts. \<exists>i < length (slots m). phase (slots m ! i) = SeqDecode \<and> h = handle (slots m ! i)"
    and "apply_topups K ts (kv m) = (st, k')"
  shows "mgr_inv K good view (m\<lparr>kv := k'\<rparr>)"
  using assms
proof (induction ts arbitrary: m)
  case (Cons t ts)
  obtain h c where t: "t = (h, c)" by fastforce
  obtain i where i: "i < length (slots m)" "phase (slots m ! i) = SeqDecode" "h = handle (slots m ! i)"
    using Cons.prems(2) t by auto
  obtain st1 k1 where eq: "kv_reserve_capacity K (kv m) h c = (st1, k1)" by fastforce
  have inv1: "mgr_inv K good view (m\<lparr>kv := k1\<rparr>)"
    using reserve_decoder_inv [OF Cons.prems(1) i(1,2)] eq i(3) by blast
  show ?case
  proof (cases "st1 = Ok")
    case True
    then show ?thesis using Cons.IH [OF inv1] Cons.prems(2,3) t eq by auto
  qed (use Cons.prems(3) t eq inv1 in auto)
qed auto

lemma reserve_growth_topups:
  "reserve_growth K xs k =
     (let (st, k') = apply_topups K (map (\<lambda>(s, t). (handle s, u32_of_int (cur_pos s + t)))
        (filter (\<lambda>(s, t). t \<noteq> 0) xs)) k in (st = Ok, k'))"
proof (induction xs arbitrary: k)
  case (Cons x xs)
  obtain s t where x: "x = (s, t)" by fastforce
  show ?case
    using Cons.IH
    by (cases "kv_reserve_capacity K k (handle s) (u32_of_int (cur_pos s + t))") (auto simp: x)
qed simp

lemma fits_u32:
  assumes "good k" "n \<le> kv_physical_block_count K k"
  shows "n \<le> u32_max"
proof -
  have "n * 1 \<le> kv_physical_block_count K k * kv_block_size K k"
    using assms(2) block_size_pos [OF assms(1)] by (intro mult_le_mono) auto
  then show ?thesis using pool_rows_bound [OF assms(1)] by simp
qed

lemma collect_topups_eq:
  assumes inv: "mgr_inv K good view m" and sub: "set ss \<subseteq> set (slots m)"
  defines "cap \<equiv> \<lambda>s :: SeqSlot. decode_headroom_capacity K m (cur_pos s)"
    and "own \<equiv> \<lambda>s. snd (the (view (kv m) (handle s)))"
  defines "miss \<equiv> \<lambda>s. ceil_div (cap s) (kv_block_size K (kv m)) - own s"
  defines "need \<equiv> \<lambda>s. phase s = SeqDecode \<and> capacity_fits_pool K m (cap s) \<and> 0 < miss s"
  shows "collect_topups K m ss ts n =
    Inr (ts @ map (\<lambda>s. (handle s, cap s)) (filter need ss), n + sum_list (map miss (filter need ss)))"
  using sub
proof (induction ss arbitrary: ts n)
  case (Cons s ss)
  show ?case
  proof (cases "phase s = SeqDecode \<and> capacity_fits_pool K m (cap s)")
    case True
    from Cons.prems obtain i where i: "i < length (slots m)" "s = slots m ! i" by (auto simp: in_set_conv_nth)
    obtain len where v: "view (kv m) (handle s) = Some (len, own s)"
      using slot_ok_view [OF mgr_invD(5) [OF inv i(1)]] True i by (auto simp: own_def)
    have "miss s \<le> kv_physical_block_count K (kv m)"
      using True by (simp add: capacity_fits_iff miss_def le_diff_conv)
    then have "u32 (miss s) = miss s" using fits_u32 [OF mgr_invD(1) [OF inv]] by simp
    moreover have "collect_topups K m (s # ss) ts n =
        (if ceil_div (cap s) (kv_block_size K (kv m)) \<le> own s then collect_topups K m ss ts n
         else collect_topups K m ss (ts @ [(handle s, cap s)]) (n + u32 (miss s)))"
      using True by (simp add: owned_count [OF mgr_invD(1) [OF inv] v] target_blocks Let_def cap_def miss_def)
    moreover have "need s \<longleftrightarrow> \<not> ceil_div (cap s) (kv_block_size K (kv m)) \<le> own s"
      using True by (simp add: need_def miss_def not_le)
    ultimately show ?thesis using Cons by simp
  qed (use Cons in \<open>auto simp: need_def cap_def\<close>)
qed simp

lemma protect_headroom_spec:
  assumes inv: "mgr_inv K good view m" and eq: "protect_decode_headroom K m = (st, m')"
  shows "mgr_inv K good view m' \<and> slots m' = slots m \<and> max_ctx m' = max_ctx m \<and>
    kv_block_size K (kv m') = kv_block_size K (kv m) \<and>
    kv_physical_block_count K (kv m') = kv_physical_block_count K (kv m) \<and>
    (st \<noteq> Ok \<longrightarrow> st = BlocksExhausted \<and> m' = m) \<and>
    (st = Ok \<longrightarrow> (\<forall>s \<in> set (slots m). phase s = SeqDecode \<longrightarrow>
       capacity_fits_pool K m (decode_headroom_capacity K m (cur_pos s)) \<longrightarrow>
       ceil_div (decode_headroom_capacity K m (cur_pos s)) (kv_block_size K (kv m))
         \<le> snd (the (view (kv m') (handle s)))))"
proof -
  let ?bs = "kv_block_size K (kv m)"
  define cap where "cap = (\<lambda>s :: SeqSlot. decode_headroom_capacity K m (cur_pos s))"
  define miss where "miss = (\<lambda>s :: SeqSlot. ceil_div (cap s) ?bs - snd (the (view (kv m) (handle s))))"
  define need where "need = (\<lambda>s :: SeqSlot. phase s = SeqDecode \<and> capacity_fits_pool K m (cap s) \<and> 0 < miss s)"
  let ?ts = "map (\<lambda>s. (handle s, cap s)) (filter need (slots m))"
  have coll: "collect_topups K m (slots m) [] 0 = Inr (?ts, sum_list (map miss (filter need (slots m))))"
    using collect_topups_eq [OF inv subset_refl, of "[]" 0] by (simp add: need_def miss_def cap_def)
  have dec: "\<forall>(h, c) \<in> set ?ts. \<exists>i < length (slots m). phase (slots m ! i) = SeqDecode \<and> h = handle (slots m ! i)"
    by (auto simp: need_def in_set_conv_nth)
  show ?thesis
  proof (cases "sum_list (map miss (filter need (slots m))) > kv_free_block_count K (kv m)")
    case True
    then show ?thesis using eq coll inv by (simp add: protect_decode_headroom_def)
  next
    case False
    have live: "\<forall>(h, c) \<in> set ?ts. view (kv m) h \<noteq> None"
      using slot_ok_view mgr_invD(5) [OF inv] dec by fastforce
    have dist: "distinct (map fst ?ts)"
      using handles_distinct_filter [OF mgr_invD(4) [OF inv], of need] by (simp add: need_def comp_def)
    have total: "(\<Sum>(h, c) \<leftarrow> ?ts. ceil_div c ?bs - snd (the (view (kv m) h))) \<le> kv_free_block_count K (kv m)"
      using False by (simp add: comp_def miss_def)
    obtain k' where k': "apply_topups K ?ts (kv m) = (Ok, k')" "kv_block_size K k' = ?bs"
      "kv_physical_block_count K k' = kv_physical_block_count K (kv m)"
      "\<forall>(h, c) \<in> set ?ts. view k' h =
         Some (fst (the (view (kv m) h)), max (snd (the (view (kv m) h))) (ceil_div c ?bs))"
      "\<forall>h. h \<notin> fst ` set ?ts \<longrightarrow> view k' h = view (kv m) h"
      using apply_topups_all [OF mgr_invD(1) [OF inv] dist live total] by blast
    have m': "st = Ok" "m' = m\<lparr>kv := k'\<rparr>" using eq coll False k'(1) by (auto simp: protect_decode_headroom_def)
    have "ceil_div (cap s) ?bs \<le> snd (the (view k' (handle s)))"
      if s: "s \<in> set (slots m)" "phase s = SeqDecode" "capacity_fits_pool K m (cap s)" for s
    proof (cases "need s")
      case True
      then have "(handle s, cap s) \<in> set ?ts" using s by auto
      from bspec [OF k'(4) this] show ?thesis by simp
    next
      case False
      then have le: "ceil_div (cap s) ?bs \<le> snd (the (view (kv m) (handle s)))" using s by (simp add: need_def miss_def)
      show ?thesis
      proof (cases "handle s \<in> fst ` set ?ts")
        case True
        then obtain t where t: "handle s = fst t" "t \<in> set ?ts" by (rule imageE)
        have "view k' (fst t) = Some (fst (the (view (kv m) (fst t))), max (snd (the (view (kv m) (fst t)))) (ceil_div (snd t) ?bs))"
          using bspec [OF k'(4) t(2)] by (simp add: case_prod_beta)
        then show ?thesis using le by (simp add: t(1))
      qed (use k'(5) le in simp)
    qed
    then show ?thesis using m' k' apply_topups_inv [OF inv dec k'(1)] by (simp add: cap_def)
  qed
qed

section \<open>Every operation preserves the invariant\<close>

lemma is_activeD: "is_active m i \<Longrightarrow> nat i < length (slots m) \<and> slot_active (slots m ! nat i)"
  by (auto simp: is_active_def)

lemma is_prefillingD:
  "is_prefilling m i \<Longrightarrow> nat i < length (slots m) \<and> phase (slots m ! nat i) = SeqPrefill"
  by (auto simp: is_prefilling_def is_active_def)

lemma new_manager_inv:
  assumes "good k" "0 \<le> ctx" "ctx \<le> int_max" "\<And>h. view k h = None"
  shows "mgr_inv K good view (new_manager K k ctx)"
  using assms by (auto simp: mgr_inv_def new_manager_def handles_distinct_def fresh_slot_def slot_ok_def)

lemma append_prefill_cases:
  assumes inv: "mgr_inv K good view m" and eq: "append_prefill K m i n = (r, m')"
  obtains (refused) "r = empty_chunk" "m' = m"
      "\<not> is_prefilling m i \<or> n < 1 \<or> n > prompt_len (slots m ! nat i) - cur_pos (slots m ! nat i)"
    | (ok) app k' own where "is_prefilling m i" "1 \<le> n"
        "n \<le> prompt_len (slots m ! nat i) - cur_pos (slots m ! nat i)"
        "kv_append K (kv m) (handle (slots m ! nat i)) (nat n) False = (app, k')" "ar_status app = Ok"
        "view (kv m) (handle (slots m ! nat i)) = Some (nat (cur_pos (slots m ! nat i)), own)"
        "view k' (handle (slots m ! nat i)) = Some (nat (cur_pos (slots m ! nat i)) + nat n, own)"
        "nat (prompt_len (slots m ! nat i)) \<le> own * kv_block_size K (kv m)"
        "pc_ok r" "(pc_rows r, pc_new_blocks r, pc_first_new_block r) =
           collect_rows (kv_block_size K (kv m)) (ar_write_slots app) ([], [], -1)"
        "m' = m\<lparr>kv := k', slots := (slots m)[nat i := (slots m ! nat i)\<lparr>cur_pos := cur_pos (slots m ! nat i) + n\<rparr>]\<rparr>"
proof (cases "is_prefilling m i \<and> 1 \<le> n \<and> n \<le> prompt_len (slots m ! nat i) - cur_pos (slots m ! nat i)")
  case True
  let ?s = "slots m ! nat i"
  note idx = is_prefillingD [OF conjunct1 [OF True]] and good = mgr_invD(1) [OF inv]
  have ok: "slot_ok (max_ctx m) (kv_block_size K (kv m)) (view (kv m) (handle ?s)) ?s"
    using mgr_invD(5) [OF inv] idx by blast
  then obtain own where own: "view (kv m) (handle ?s) = Some (nat (cur_pos ?s), own)"
    "nat (prompt_len ?s) \<le> own * kv_block_size K (kv m)" and b: "0 \<le> cur_pos ?s" "cur_pos ?s \<le> prompt_len ?s"
    "prompt_len ?s \<le> int_max"
    using idx mgr_invD(3) [OF inv] by (auto simp: slot_ok_def)
  obtain app k' where app: "kv_append K (kv m) (handle ?s) (nat n) False = (app, k')" by fastforce
  have "nat (cur_pos ?s) + nat n \<le> own * kv_block_size K (kv m)" using own(2) b True by linarith
  note res = append_reserved [OF good own(1) app this]
  have u: "u32_of_int n = nat n" using True b by simp
  have bs: "kv_block_size K k' = kv_block_size K (kv m)" using kv_frameD(1) [OF append_frame [OF good app]] .
  obtain rows blocks first where c: "collect_rows (kv_block_size K k') (ar_write_slots app) ([], [], -1) = (rows, blocks, first)"
    by (rule prod_cases3)
  show ?thesis
    using eq True app res u own b c bs by (intro that(2) [of app k' own]) (auto simp: append_prefill_def Let_def)
next
  case False
  have "cur_pos (slots m ! nat i) \<le> prompt_len (slots m ! nat i)" if "is_prefilling m i"
    using mgr_invD(5) [OF inv, of "nat i"] is_prefillingD [OF that] by (auto simp: slot_ok_def)
  then show ?thesis using False eq by (intro refused) (auto simp: append_prefill_def Let_def split: if_splits)
qed

lemma append_prefill_inv:
  assumes inv: "mgr_inv K good view m" and eq: "append_prefill K m i n = (r, m')"
  shows "mgr_inv K good view m'"
  using inv eq
proof (cases rule: append_prefill_cases)
  case (ok app k' own)
  let ?s = "slots m ! nat i"
  note idx = is_prefillingD [OF ok(1)] and good = mgr_invD(1) [OF inv]
  have s: "slot_ok (max_ctx m) (kv_block_size K (kv m)) (view (kv m) (handle ?s)) ?s"
    using mgr_invD(5) [OF inv] idx by blast
  have "slot_ok (max_ctx m) (kv_block_size K (kv m)) (view k' (handle ?s)) (?s\<lparr>cur_pos := cur_pos ?s + n\<rparr>)"
    using s ok idx by (auto simp: slot_ok_def nat_add_distrib)
  then show ?thesis
    using idx append_good [OF good ok(4)] append_frame [OF good ok(4)] inv
    by (simp only: ok(11)) (rule mgr_inv_put_active, auto)
qed (use inv in simp)

lemma commit_prefill_inv:
  assumes inv: "mgr_inv K good view m"
  shows "mgr_inv K good view (commit_prefill m i)"
proof (cases "is_prefilling m i \<and> cur_pos (slots m ! nat i) = prompt_len (slots m ! nat i)")
  case True
  note idx = is_prefillingD [OF conjunct1 [OF True]]
  have "mgr_inv K good view (m\<lparr>slots := (slots m)[nat i := (slots m ! nat i)\<lparr>phase := SeqDecode\<rparr>]\<rparr>)"
    using mgr_invD(5) [OF inv, of "nat i"] idx True by (intro mgr_inv_slot [OF inv]) (auto simp: slot_ok_def)
  then show ?thesis using True by (simp add: commit_prefill_def Let_def)
qed (use inv in \<open>auto simp: commit_prefill_def Let_def\<close>)

lemma append_tokens_cases:
  assumes inv: "mgr_inv K good view m" and fed: "n \<le> int (length ts)"
    and eq: "append_tokens K m i (Some ts) n = (r, m')"
  obtains (refused) "r = empty_step" "m' = m"
      "\<not> is_active m i \<or> phase (slots m ! nat i) \<noteq> SeqDecode \<or> n < 1 \<or> staged_tokens (slots m ! nat i) \<noteq> [] \<or>
       n > max_ctx m - cur_pos (slots m ! nat i)"
    | (failed) st app where "r = empty_step\<lparr>sa_busy := (st = BlocksExhausted)\<rparr>" "m' = m" "st \<noteq> Ok"
        "kv_append K (kv m) (handle (slots m ! nat i)) (nat n) False = (app, kv m)" "ar_status app = st"
        "phase (slots m ! nat i) = SeqDecode" "nat i < length (slots m)"
        "n \<le> max_ctx m - cur_pos (slots m ! nat i)" "staged_tokens (slots m ! nat i) = []"
    | (ok) app k' own own' where "nat i < length (slots m)" "phase (slots m ! nat i) = SeqDecode" "1 \<le> n"
        "staged_tokens (slots m ! nat i) = []" "n \<le> max_ctx m - cur_pos (slots m ! nat i)"
        "kv_append K (kv m) (handle (slots m ! nat i)) (nat n) False = (app, k')" "ar_status app = Ok"
        "view (kv m) (handle (slots m ! nat i)) = Some (nat (cur_pos (slots m ! nat i)), own)"
        "view k' (handle (slots m ! nat i)) = Some (nat (cur_pos (slots m ! nat i)) + nat n, own')"
        "sa_ok r" "\<not> sa_busy r" "sa_count r = n" "sa_position r = cur_pos (slots m ! nat i)"
        "(physical_rows r, new_blocks r, first_new_block r) =
           collect_rows (kv_block_size K (kv m)) (ar_write_slots app) ([], [], -1)"
        "m' = m\<lparr>kv := k', slots := (slots m)[nat i := (slots m ! nat i)\<lparr>staged_tokens := take (nat n) ts\<rparr>]\<rparr>"
proof (cases "is_active m i \<and> phase (slots m ! nat i) = SeqDecode \<and> 1 \<le> n \<and> staged_tokens (slots m ! nat i) = [] \<and>
      n \<le> max_ctx m - cur_pos (slots m ! nat i)")
  case False
  have "cur_pos (slots m ! nat i) \<le> max_ctx m" if "is_active m i" "phase (slots m ! nat i) = SeqDecode"
    using mgr_invD(5) [OF inv, of "nat i"] is_activeD [OF that(1)] that(2) by (auto simp: slot_ok_def)
  then show ?thesis using False eq by (intro refused) (auto simp: append_tokens_def Let_def split: if_splits)
next
  case True
  let ?s = "slots m ! nat i"
  note idx = is_activeD [OF conjunct1 [OF True]] and good = mgr_invD(1) [OF inv]
  have s: "slot_ok (max_ctx m) (kv_block_size K (kv m)) (view (kv m) (handle ?s)) ?s"
    using mgr_invD(5) [OF inv] idx by blast
  then obtain own where own: "view (kv m) (handle ?s) = Some (nat (cur_pos ?s), own)"
    and b: "0 \<le> cur_pos ?s" "cur_pos ?s + n \<le> int_max" "n \<le> int_max" "cur_pos ?s \<le> max_ctx m"
    using idx True mgr_invD(3) [OF inv] by (auto simp: slot_ok_def)
  obtain app k' where app: "kv_append K (kv m) (handle ?s) (nat n) False = (app, k')" by fastforce
  have u: "u32_of_int n = nat n" "u64_of_int n = nat n" "u32_of_int (cur_pos ?s) = nat (cur_pos ?s)"
    "u32_of_int (cur_pos ?s + n - 1) = nat (cur_pos ?s + n - 1)"
    using True b by simp_all
  show ?thesis
  proof (cases "ar_status app = Ok")
    case False
    have k': "k' = kv m" using append_fail [OF good app False] .
    have "append_tokens K m i (Some ts) n = (empty_step\<lparr>sa_busy := (ar_status app = BlocksExhausted)\<rparr>, m)"
      using True False b by (simp add: append_tokens_def Let_def u app [unfolded k'])
    then show ?thesis using True False app k' eq idx
      by (intro failed [of "ar_status app" app]) simp_all
  next
    case ok: True
    obtain own' where own': "view k' (handle ?s) = Some (nat (cur_pos ?s) + nat n, own')"
      using append_view [OF good own app ok] by blast
    note res = append_result [OF good own app ok]
    have ne: "ar_write_slots app \<noteq> []" using res True by auto
    have pos: "logical_position (hd (ar_write_slots app)) = nat (cur_pos ?s)"
      "logical_position (last (ar_write_slots app)) = nat (cur_pos ?s + n - 1)"
      using res ne True b by (auto simp: hd_conv_nth last_conv_nth nat_add_distrib nat_diff_distrib')
    have bs: "kv_block_size K k' = kv_block_size K (kv m)" using kv_frameD(1) [OF append_frame [OF good app]] .
    obtain rows blocks first where c: "collect_rows (kv_block_size K k') (ar_write_slots app) ([], [], -1) = (rows, blocks, first)"
      by (rule prod_cases3)
    have "append_tokens K m i (Some ts) n =
       (\<lparr>sa_ok = True, sa_busy = False, physical_row = hd rows, physical_rows = rows, sa_count = n,
         sa_position = cur_pos ?s, new_block = (if blocks = [] then -1 else hd blocks),
         new_block_index = (if blocks = [] then -1 else first), new_blocks = blocks, first_new_block = first\<rparr>,
        m\<lparr>kv := k', slots := (slots m)[nat i := ?s\<lparr>staged_tokens := take (nat n) ts\<rparr>]\<rparr>)"
      using True b ok res pos by (simp add: append_tokens_def Let_def u app c)
    then have r: "r = \<lparr>sa_ok = True, sa_busy = False, physical_row = hd rows, physical_rows = rows, sa_count = n,
         sa_position = cur_pos ?s, new_block = (if blocks = [] then -1 else hd blocks),
         new_block_index = (if blocks = [] then -1 else first), new_blocks = blocks, first_new_block = first\<rparr>"
      and m': "m' = m\<lparr>kv := k', slots := (slots m)[nat i := ?s\<lparr>staged_tokens := take (nat n) ts\<rparr>]\<rparr>"
      using eq by simp_all
    show ?thesis
      by (rule that(3) [OF _ _ _ _ _ app ok own own']) (use True idx c bs in \<open>simp_all add: r m'\<close>)
  qed
qed

lemma append_tokens_inv:
  assumes inv: "mgr_inv K good view m" and fed: "n \<le> int (length ts)"
    and eq: "append_tokens K m i (Some ts) n = (r, m')"
  shows "mgr_inv K good view m'"
  using inv fed eq
proof (cases rule: append_tokens_cases)
  case (ok app k' own own')
  let ?s = "slots m ! nat i"
  note good = mgr_invD(1) [OF inv] and s = mgr_invD(5) [OF inv ok(1)]
  have len: "length (take (nat n) ts) = nat n" using fed ok(3) by simp
  have "slot_ok (max_ctx m) (kv_block_size K (kv m)) (view k' (handle ?s)) (?s\<lparr>staged_tokens := take (nat n) ts\<rparr>)"
    using s ok(2-5,9) len by (auto simp: slot_ok_def)
  then show ?thesis
    using ok(1,2) append_good [OF good ok(6)] append_frame [OF good ok(6)] inv
    by (simp only: ok(15)) (rule mgr_inv_put_active, auto)
qed (use inv in simp_all)

lemma commit_step_inv:
  assumes inv: "mgr_inv K good view m"
  shows "mgr_inv K good view (commit_step m i)"
proof (cases "is_active m i \<and> staged_tokens (slots m ! nat i) \<noteq> []")
  case True
  let ?s = "slots m ! nat i"
  let ?t = "?s\<lparr>sample_history := sample_history ?s @ staged_tokens ?s,
               cur_pos := cur_pos ?s + int (length (staged_tokens ?s)), staged_tokens := []\<rparr>"
  note idx = is_activeD [OF conjunct1 [OF True]]
  have s: "slot_ok (max_ctx m) (kv_block_size K (kv m)) (view (kv m) (handle ?s)) ?s"
    using mgr_invD(5) [OF inv] idx by blast
  have "slot_ok (max_ctx m) (kv_block_size K (kv m)) (view (kv m) (handle ?s)) ?t"
    using s True idx by (cases "phase ?s") (auto simp: slot_ok_def nat_add_distrib)
  then have "mgr_inv K good view (m\<lparr>slots := (slots m)[nat i := ?t]\<rparr>)"
    using idx by (intro mgr_inv_slot [OF inv]) simp_all
  then show ?thesis using True by (simp add: commit_step_def Let_def)
qed (use inv in \<open>auto simp: commit_step_def Let_def\<close>)

lemma rollback_step_cases:
  assumes inv: "mgr_inv K good view m" and eq: "rollback_step K m i = (r, m')"
  obtains (refused) "\<not> r" "m' = m" "\<not> is_active m i \<or> staged_tokens (slots m ! nat i) = []"
    | (ok) k' own where r "nat i < length (slots m)" "phase (slots m ! nat i) = SeqDecode"
        "staged_tokens (slots m ! nat i) \<noteq> []"
        "kv_rollback_append K (kv m) (handle (slots m ! nat i)) (length (staged_tokens (slots m ! nat i))) = (Ok, k')"
        "view k' (handle (slots m ! nat i)) = Some (nat (cur_pos (slots m ! nat i)), own)"
        "m' = m\<lparr>kv := k', slots := (slots m)[nat i := (slots m ! nat i)\<lparr>staged_tokens := []\<rparr>]\<rparr>"
proof (cases "is_active m i \<and> staged_tokens (slots m ! nat i) \<noteq> []")
  case True
  let ?s = "slots m ! nat i"
  note idx = is_activeD [OF conjunct1 [OF True]] and good = mgr_invD(1) [OF inv]
  have s: "slot_ok (max_ctx m) (kv_block_size K (kv m)) (view (kv m) (handle ?s)) ?s"
    using mgr_invD(5) [OF inv] idx by blast
  then have dec: "phase ?s = SeqDecode" using True idx by (cases "phase ?s") (auto simp: slot_ok_def)
  then obtain own where v: "view (kv m) (handle ?s) = Some (nat (cur_pos ?s) + length (staged_tokens ?s), own)"
    using s by (auto simp: slot_ok_def)
  obtain st k' where rb: "kv_rollback_append K (kv m) (handle ?s) (length (staged_tokens ?s)) = (st, k')" by fastforce
  have u: "u32 (length (staged_tokens ?s)) = length (staged_tokens ?s)"
    using owned_bound(3) [OF good v] by simp
  have k': "st = Ok" "view k' (handle ?s) = Some (nat (cur_pos ?s), own)"
    using rollback_view [OF good v _ rb] by auto
  have "rollback_step K m i = (True, m\<lparr>kv := k', slots := (slots m)[nat i := ?s\<lparr>staged_tokens := []\<rparr>]\<rparr>)"
    using True k'(1) by (simp add: rollback_step_def Let_def u rb)
  then show ?thesis using that(2) [of k' own] eq idx dec True rb k' by simp
next
  case False
  then have "rollback_step K m i = (False, m)" by (auto simp: rollback_step_def Let_def)
  then show ?thesis using that(1) eq False by auto
qed

lemma rollback_step_inv:
  assumes inv: "mgr_inv K good view m" and eq: "rollback_step K m i = (r, m')"
  shows "mgr_inv K good view m'"
  using inv eq
proof (cases rule: rollback_step_cases)
  case (ok k' own)
  note good = mgr_invD(1) [OF inv] and s = mgr_invD(5) [OF inv ok(2)]
  have "slot_ok (max_ctx m) (kv_block_size K (kv m)) (view k' (handle (slots m ! nat i)))
      ((slots m ! nat i)\<lparr>staged_tokens := []\<rparr>)"
    using s ok(3,6) by (auto simp: slot_ok_def)
  then show ?thesis
    using ok(2,3) rollback_good [OF good ok(5)] rollback_frame [OF good ok(5)] inv
    by (simp only: ok(7)) (rule mgr_inv_put_active, auto)
qed (use inv in simp)

lemma parked_clear:
  assumes inv: "mgr_inv K good view m" and i: "i < length (slots m)" "slot_active (slots m ! i)"
    and eq: "kv_clear K (kv m) (handle (slots m ! i)) = (st, k')"
    and s': "slot_ok (max_ctx m) (kv_block_size K (kv m)) (Some (0, 0)) s'" "handle s' = handle (slots m ! i)"
      "slot_active s'"
  shows "st = Ok" "mgr_inv K good view (m\<lparr>kv := k', slots := (slots m)[i := s']\<rparr>)"
proof -
  note good = mgr_invD(1) [OF inv]
  obtain len own where v: "view (kv m) (handle (slots m ! i)) = Some (len, own)"
    using slot_ok_view [OF mgr_invD(5) [OF inv i(1)] i(2)] by blast
  note c = clear_view [OF good v eq]
  show "st = Ok" using c by simp
  show "mgr_inv K good view (m\<lparr>kv := k', slots := (slots m)[i := s']\<rparr>)"
    using c s' by (intro mgr_inv_put_active [OF inv i clear_good [OF good eq] clear_frame [OF good eq]]) simp_all
qed

lemma detach_kv_cases:
  assumes inv: "mgr_inv K good view m" and eq: "detach_kv K m i = (r, m')"
  obtains (refused) "\<not> r" "m' = m"
    | (ok) k' where r "is_active m i" "\<not> parked (slots m ! nat i)" "staged_tokens (slots m ! nat i) = []"
        "kv_clear K (kv m) (handle (slots m ! nat i)) = (Ok, k')"
        "m' = m\<lparr>kv := k', slots := (slots m)[nat i := (slots m ! nat i)\<lparr>phase := SeqSuspended\<rparr>]\<rparr>"
        "mgr_inv K good view m'"
proof (cases "is_active m i \<and> \<not> parked (slots m ! nat i) \<and> staged_tokens (slots m ! nat i) = []")
  case True
  let ?s = "slots m ! nat i"
  note idx = is_activeD [OF conjunct1 [OF True]]
  have s: "slot_ok (max_ctx m) (kv_block_size K (kv m)) (view (kv m) (handle ?s)) ?s"
    using mgr_invD(5) [OF inv] idx by blast
  obtain st k' where c: "kv_clear K (kv m) (handle ?s) = (st, k')" by fastforce
  have ok': "slot_ok (max_ctx m) (kv_block_size K (kv m)) (Some (0, 0)) (?s\<lparr>phase := SeqSuspended\<rparr>)"
    using s True idx by (cases "phase ?s") (auto simp: slot_ok_def parked_def)
  note pc = parked_clear [OF inv _ _ c ok']
  have "detach_kv K m i = (True, m\<lparr>kv := k', slots := (slots m)[nat i := ?s\<lparr>phase := SeqSuspended\<rparr>]\<rparr>)"
    using True c pc idx by (simp add: detach_kv_def Let_def)
  then show ?thesis using that(2) [of k'] eq True c pc idx by simp
next
  case False
  then have "detach_kv K m i = (False, m)" by (auto simp: detach_kv_def Let_def)
  then show ?thesis using that(1) eq by simp
qed

lemma detach_kv_inv:
  assumes inv: "mgr_inv K good view m" and eq: "detach_kv K m i = (r, m')"
  shows "mgr_inv K good view m'"
  using inv eq by (cases rule: detach_kv_cases) (use inv in auto)

lemma evict_cases:
  assumes inv: "mgr_inv K good view m" and eq: "evict_for_recompute K m i t = (r, m')"
  defines "s \<equiv> slots m ! nat i"
  defines "hist \<equiv> sample_history s @ (if t \<ge> 0 then [t] else [])"
  obtains (refused) "\<not> r" "m' = m"
    | (ok) k' where r "is_active m i" "phase s \<noteq> SeqRecompute" "staged_tokens s = []"
        "int (length hist) \<le> max_ctx m" "capacity_fits_pool K m (length hist)"
        "good k'" "kv_frame K view (kv m) (handle s) k'" "view k' (handle s) = Some (0, 0)"
        "m' = m\<lparr>kv := k', slots := (slots m)[nat i := s\<lparr>sample_history := hist, prompt_len := int (length hist),
           cur_pos := 0, phase := SeqRecompute\<rparr>]\<rparr>"
proof (cases "is_active m i \<and> phase s \<noteq> SeqRecompute \<and> staged_tokens s = [] \<and> int (length hist) \<le> max_ctx m \<and>
      capacity_fits_pool K m (length hist)")
  case True
  note idx = is_activeD [OF conjunct1 [OF True]] and good = mgr_invD(1) [OF inv]
  have sok: "slot_ok (max_ctx m) (kv_block_size K (kv m)) (view (kv m) (handle s)) s"
    using mgr_invD(5) [OF inv] idx by (auto simp: s_def)
  have bnd: "int (length hist) \<le> int_max" "1 \<le> int (length hist)"
    using True mgr_invD(3) [OF inv] sok idx by (auto simp: slot_ok_def s_def hist_def)
  have len: "int (length hist) = int (length (sample_history s)) + (if t \<ge> 0 then 1 else 0)" by (simp add: hist_def)
  have hist: "(if t \<ge> 0 then sample_history s @ [t] else sample_history s) = hist" by (simp add: hist_def)
  have u: "u32_of_int (int (length hist)) = length hist" using bnd by simp
  obtain st k' where c: "(if phase s = SeqSuspended then (Ok, kv m) else kv_clear K (kv m) (handle s)) = (st, k')"
    by fastforce
  have k': "st = Ok \<and> good k' \<and> kv_frame K view (kv m) (handle s) k' \<and> view k' (handle s) = Some (0, 0)"
  proof (cases "phase s = SeqSuspended")
    case True
    then show ?thesis using c sok good by (auto simp: slot_ok_def)
  next
    case False
    then have cl: "kv_clear K (kv m) (handle s) = (st, k')" using c by simp
    obtain l own where v: "view (kv m) (handle s) = Some (l, own)"
      using slot_ok_view [OF sok] idx by (auto simp: s_def)
    show ?thesis using clear_view [OF good v cl] clear_good [OF good cl] clear_frame [OF good cl] by simp
  qed
  have "evict_for_recompute K m i t = (True, m\<lparr>kv := k', slots := (slots m)[nat i := s\<lparr>sample_history := hist,
      prompt_len := int (length hist), cur_pos := 0, phase := SeqRecompute\<rparr>]\<rparr>)"
    unfolding evict_for_recompute_def Let_def s_def [symmetric] len [symmetric] hist c
    using True bnd k' by (auto simp: u)
  then show ?thesis using that(2) [of k'] eq True k' by simp
next
  case False
  have len: "int (length hist) = int (length (sample_history s)) + (if t \<ge> 0 then 1 else 0)" by (simp add: hist_def)
  have "u32_of_int (int (length hist)) = length hist" if "int (length hist) \<le> max_ctx m"
    using that mgr_invD(3) [OF inv] by simp
  then have "evict_for_recompute K m i t = (False, m)"
    unfolding evict_for_recompute_def Let_def s_def [symmetric] len [symmetric] using False by auto
  then show ?thesis using that(1) eq by simp
qed

lemma evict_inv:
  assumes inv: "mgr_inv K good view m" and eq: "evict_for_recompute K m i t = (r, m')"
  shows "mgr_inv K good view m'"
  using inv eq
proof (cases rule: evict_cases)
  case (ok k')
  let ?s = "slots m ! nat i"
  note idx = is_activeD [OF ok(2)]
  have "slot_ok (max_ctx m) (kv_block_size K (kv m)) (view (kv m) (handle ?s)) ?s"
    using mgr_invD(5) [OF inv] idx by blast
  then show ?thesis
    using ok idx inv by (simp only: ok(10)) (rule mgr_inv_put_active, auto simp: slot_ok_def)
qed (use inv in simp)

lemma resume_capacity:
  assumes inv: "mgr_inv K good view m" and i: "i < length (slots m)" "parked (slots m ! i)"
  shows "nat (max (prompt_len (slots m ! i)) (cur_pos (slots m ! i))) \<le> resume_token_capacity K m (slots m ! i)"
proof -
  let ?s = "slots m ! i"
  have s: "slot_ok (max_ctx m) (kv_block_size K (kv m)) (view (kv m) (handle ?s)) ?s" using mgr_invD(5) [OF inv i(1)] .
  show ?thesis
  proof (cases "phase ?s = SeqRecompute")
    case True
    then have b: "0 \<le> prompt_len ?s" "prompt_len ?s \<le> max_ctx m" "cur_pos ?s = 0" using s by (auto simp: slot_ok_def)
    then show ?thesis
      using True headroom_capacity(2) [OF inv b(1,2)] mgr_invD(3) [OF inv] by (simp add: resume_token_capacity_def Let_def)
  next
    case False
    then have ph: "phase ?s = SeqSuspended" using i by (simp add: parked_def)
    then have b: "0 \<le> cur_pos ?s" "cur_pos ?s \<le> max_ctx m" "prompt_len ?s \<le> max_ctx m"
      using s by (auto simp: slot_ok_def)
    then have "0 \<le> max (prompt_len ?s) (min (max_ctx m) (cur_pos ?s + 1))"
      "max (prompt_len ?s) (min (max_ctx m) (cur_pos ?s + 1)) \<le> int_max"
      using mgr_invD(3) [OF inv] by auto
    then show ?thesis using ph b by (simp add: resume_token_capacity_def)
  qed
qed

text \<open>The reservation step shared by \<open>attach_kv\<close> and \<open>resume_recompute\<close>.\<close>

lemma reserve_parked:
  assumes inv: "mgr_inv K good view m" and i: "i < length (slots m)" "parked (slots m ! i)"
    and eq: "kv_reserve_capacity K (kv m) (handle (slots m ! i)) (resume_token_capacity K m (slots m ! i)) = (st, k')"
  shows "st \<noteq> Ok \<longrightarrow> k' = kv m \<and> st = BlocksExhausted"
    "st = Ok \<longrightarrow> (\<exists>own. view k' (handle (slots m ! i)) = Some (0, own) \<and>
       nat (max (prompt_len (slots m ! i)) (cur_pos (slots m ! i))) \<le> own * kv_block_size K (kv m))"
proof -
  let ?s = "slots m ! i" and ?c = "resume_token_capacity K m (slots m ! i)"
  let ?bs = "kv_block_size K (kv m)"
  note good = mgr_invD(1) [OF inv]
  have "slot_ok (max_ctx m) ?bs (view (kv m) (handle ?s)) ?s" using mgr_invD(5) [OF inv i(1)] .
  then have v: "view (kv m) (handle ?s) = Some (0, 0)" using i by (auto simp: slot_ok_def parked_def)
  have le: "?c \<le> ceil_div ?c ?bs * ?bs" using le_ceil_div_mult block_size_pos [OF good] by blast
  show "st \<noteq> Ok \<longrightarrow> k' = kv m \<and> st = BlocksExhausted"
    using reserve_ok [OF good v eq] reserve_exhausted [OF good v eq] by (meson linorder_not_less)
  show "st = Ok \<longrightarrow> (\<exists>own. view k' (handle ?s) = Some (0, own) \<and> nat (max (prompt_len ?s) (cur_pos ?s)) \<le> own * ?bs)"
  proof
    assume "st = Ok"
    then have "ceil_div ?c ?bs \<le> 0 + kv_free_block_count K (kv m)"
      using reserve_exhausted [OF good v eq] by (metis PagedKvStatus.distinct(7) linorder_not_less)
    from reserve_ok [OF good v eq this] have "view k' (handle ?s) = Some (0, ceil_div ?c ?bs)" by simp
    then show "\<exists>own. view k' (handle ?s) = Some (0, own) \<and> nat (max (prompt_len ?s) (cur_pos ?s)) \<le> own * ?bs"
      using resume_capacity [OF inv i] le by auto
  qed
qed

lemma attach_kv_cases:
  assumes inv: "mgr_inv K good view m" and eq: "attach_kv K m i = (r, m')"
  defines "s \<equiv> slots m ! nat i"
  obtains (refused) "\<not> r" "m' = m"
      "is_active m i \<and> phase s = SeqSuspended \<longrightarrow>
         kv_free_block_count K (kv m) < ceil_div (resume_token_capacity K m s) (kv_block_size K (kv m))"
    | (ok) k' own where r "is_active m i" "phase s = SeqSuspended" "good k'" "kv_frame K view (kv m) (handle s) k'"
        "view k' (handle s) = Some (nat (cur_pos s), own)"
        "nat (max (prompt_len s) (cur_pos s)) \<le> own * kv_block_size K (kv m)"
        "m' = m\<lparr>kv := k', slots := (slots m)[nat i :=
            s\<lparr>phase := (if cur_pos s < prompt_len s then SeqPrefill else SeqDecode)\<rparr>]\<rparr>"
proof (cases "is_active m i \<and> phase s = SeqSuspended")
  case True
  note idx = is_activeD [OF conjunct1 [OF True]] and good = mgr_invD(1) [OF inv]
  have park: "parked (slots m ! nat i)" using True by (simp add: parked_def s_def)
  have sok: "slot_ok (max_ctx m) (kv_block_size K (kv m)) (view (kv m) (handle s)) s"
    using mgr_invD(5) [OF inv] idx by (auto simp: s_def)
  then have v: "view (kv m) (handle s) = Some (0, 0)" and b: "0 \<le> cur_pos s" "cur_pos s \<le> int_max"
    using True mgr_invD(3) [OF inv] by (auto simp: slot_ok_def)
  obtain st k1 where rs: "kv_reserve_capacity K (kv m) (handle s) (resume_token_capacity K m s) = (st, k1)" by fastforce
  note res = reserve_parked [OF inv conjunct1 [OF idx] park rs [unfolded s_def], folded s_def]
  show ?thesis
  proof (cases "st = Ok")
    case False
    then have "attach_kv K m i = (False, m)"
      using res(1) True rs unfolding attach_kv_def Let_def s_def [symmetric] by simp
    moreover have "kv_free_block_count K (kv m) < ceil_div (resume_token_capacity K m s) (kv_block_size K (kv m))"
      using reserve_ok [OF good v rs] False by (metis add_0 linorder_not_less)
    ultimately show ?thesis using that(1) eq by simp
  next
    case ok: True
    obtain own where own: "view k1 (handle s) = Some (0, own)"
      "nat (max (prompt_len s) (cur_pos s)) \<le> own * kv_block_size K (kv m)" using res(2) ok by auto
    note good1 = reserve_good [OF good rs] and frame1 = reserve_frame [OF good rs]
    obtain app k2 where app: "kv_append K k1 (handle s) (nat (cur_pos s)) True = (app, k2)" by fastforce
    have "nat (cur_pos s) \<le> nat (max (prompt_len s) (cur_pos s))" by simp
    then have "0 + nat (cur_pos s) \<le> own * kv_block_size K k1"
      using own(2) kv_frameD(1) [OF frame1] by simp
    note ap = append_reserved [OF good1 own(1) app this]
    have frame2: "kv_frame K view (kv m) (handle s) k2"
      using frame1 append_frame [OF good1 app] by (simp add: kv_frame_def)
    have "attach_kv K m i = (True, m\<lparr>kv := k2, slots := (slots m)[nat i :=
        s\<lparr>phase := (if cur_pos s < prompt_len s then SeqPrefill else SeqDecode)\<rparr>]\<rparr>)"
      unfolding attach_kv_def Let_def s_def [symmetric] rs using True ok ap b app by simp
    then show ?thesis
      using that(2) [of k2 own] eq True append_good [OF good1 app] frame2 ap own(2) by simp
  qed
next
  case False
  then have "attach_kv K m i = (False, m)" unfolding attach_kv_def Let_def s_def [symmetric] by auto
  then show ?thesis using that(1) eq False by simp
qed

lemma attach_kv_inv:
  assumes inv: "mgr_inv K good view m" and eq: "attach_kv K m i = (r, m')"
  shows "mgr_inv K good view m'"
  using inv eq
proof (cases rule: attach_kv_cases)
  case (ok k' own)
  let ?s = "slots m ! nat i"
  note idx = is_activeD [OF ok(2)]
  have "slot_ok (max_ctx m) (kv_block_size K (kv m)) (view (kv m) (handle ?s)) ?s"
    using mgr_invD(5) [OF inv] idx by blast
  then show ?thesis
    using ok(3-7) idx inv by (simp only: ok(8)) (rule mgr_inv_put_active, auto simp: slot_ok_def)
qed (use inv in simp)

lemma resume_recompute_cases:
  assumes inv: "mgr_inv K good view m" and eq: "resume_recompute K m i = (r, m')"
  defines "s \<equiv> slots m ! nat i"
  obtains (refused) "\<not> r" "m' = m"
    | (ok) k' own where r "is_active m i" "phase s = SeqRecompute" "good k'" "kv_frame K view (kv m) (handle s) k'"
        "view k' (handle s) = Some (0, own)" "nat (prompt_len s) \<le> own * kv_block_size K (kv m)"
        "m' = m\<lparr>kv := k', slots := (slots m)[nat i := s\<lparr>phase := SeqPrefill\<rparr>]\<rparr>"
proof (cases "is_active m i \<and> phase s = SeqRecompute")
  case True
  note idx = is_activeD [OF conjunct1 [OF True]] and good = mgr_invD(1) [OF inv]
  have park: "parked (slots m ! nat i)" using True by (simp add: parked_def s_def)
  obtain st k1 where rs: "kv_reserve_capacity K (kv m) (handle s) (resume_token_capacity K m s) = (st, k1)" by fastforce
  note res = reserve_parked [OF inv conjunct1 [OF idx] park rs [unfolded s_def], folded s_def]
  show ?thesis
  proof (cases "st = Ok")
    case False
    then have "resume_recompute K m i = (False, m)"
      using res(1) True rs unfolding resume_recompute_def Let_def s_def [symmetric] by simp
    then show ?thesis using that(1) eq by simp
  next
    case ok: True
    obtain own where own: "view k1 (handle s) = Some (0, own)"
      "nat (max (prompt_len s) (cur_pos s)) \<le> own * kv_block_size K (kv m)" using res(2) ok by auto
    have "resume_recompute K m i = (True, m\<lparr>kv := k1, slots := (slots m)[nat i := s\<lparr>phase := SeqPrefill\<rparr>]\<rparr>)"
      unfolding resume_recompute_def Let_def s_def [symmetric] rs using True ok by simp
    moreover have "nat (prompt_len s) \<le> own * kv_block_size K (kv m)" using own(2) by linarith
    ultimately show ?thesis
      using that(2) [of k1 own] eq True reserve_good [OF good rs] reserve_frame [OF good rs] own by simp
  qed
next
  case False
  then have "resume_recompute K m i = (False, m)" unfolding resume_recompute_def Let_def s_def [symmetric] by auto
  then show ?thesis using that(1) eq by simp
qed

lemma resume_recompute_inv:
  assumes inv: "mgr_inv K good view m" and eq: "resume_recompute K m i = (r, m')"
  shows "mgr_inv K good view m'"
  using inv eq
proof (cases rule: resume_recompute_cases)
  case (ok k' own)
  let ?s = "slots m ! nat i"
  note idx = is_activeD [OF ok(2)]
  have "slot_ok (max_ctx m) (kv_block_size K (kv m)) (view (kv m) (handle ?s)) ?s"
    using mgr_invD(5) [OF inv] idx by blast
  then show ?thesis
    using ok(3-7) idx inv by (simp only: ok(8)) (rule mgr_inv_put_active, auto simp: slot_ok_def)
qed (use inv in simp)

lemma retire_inv:
  assumes inv: "mgr_inv K good view m"
  shows "mgr_inv K good view (retire K m i)"
proof (cases "is_active m i")
  case True
  note idx = is_activeD [OF True] and good = mgr_invD(1) [OF inv]
  obtain st k' where rl: "kv_release K (kv m) (handle (slots m ! nat i)) = (st, k')" by fastforce
  obtain len own where v: "view (kv m) (handle (slots m ! nat i)) = Some (len, own)"
    using slot_ok_view mgr_invD(5) [OF inv] idx by blast
  have "mgr_inv K good view (m\<lparr>kv := k', slots := (slots m)[nat i := fresh_slot]\<rparr>)"
    using idx release_view [OF good v rl] by (intro mgr_inv_put_active [OF inv _ _ release_good [OF good rl] release_frame [OF good rl]])
      (auto simp: slot_ok_def fresh_slot_def)
  then show ?thesis using True rl by (simp add: retire_def is_active_def Let_def)
qed (use inv in \<open>auto simp: retire_def is_active_def Let_def\<close>)

lemma decode_growth_Some:
  assumes inv: "mgr_inv K good view m" and sub: "fst ` set xs \<subseteq> set (slots m)"
    and eq: "decode_growth_blocks K m xs a = Some b"
  shows "(\<forall>(s, t) \<in> set xs. (phase s \<noteq> SeqDecode \<longrightarrow> t = 0) \<and>
       (phase s = SeqDecode \<longrightarrow> 1 \<le> t \<and> staged_tokens s = [] \<and> t \<le> max_ctx m - cur_pos s)) \<and>
    b = a + (\<Sum>(s, t) \<leftarrow> filter (\<lambda>(s, t). t \<noteq> 0) xs.
      ceil_div (nat (cur_pos s + t)) (kv_block_size K (kv m)) - snd (the (view (kv m) (handle s))))"
  using sub eq
proof (induction xs arbitrary: a)
  case (Cons x xs)
  obtain s t where x: "x = (s, t)" by fastforce
  show ?case
  proof (cases "phase s = SeqDecode")
    case True
    let ?bs = "kv_block_size K (kv m)"
    note good = mgr_invD(1) [OF inv]
    from Cons.prems(1) x obtain i where i: "i < length (slots m)" "s = slots m ! i" by (auto simp: in_set_conv_nth)
    have sok: "slot_ok (max_ctx m) ?bs (view (kv m) (handle s)) s" using mgr_invD(5) [OF inv i(1)] i(2) by simp
    then obtain l own where v: "view (kv m) (handle s) = Some (l, own)" using slot_ok_view True by fastforce
    have g: "1 \<le> t" "staged_tokens s = []" "t \<le> max_ctx m - cur_pos s"
      using Cons.prems(2) True x by (auto split: if_splits)
    have b: "0 \<le> cur_pos s + t" "cur_pos s + t \<le> int_max"
      using sok True g mgr_invD(3) [OF inv] by (auto simp: slot_ok_def)
    have "decode_growth_blocks K m xs (a + (ceil_div (nat (cur_pos s + t)) ?bs - own)) = Some b"
      using Cons.prems(2) True g b block_size_pos [OF good]
      by (simp add: x owned_count [OF good v] Let_def ceil_div_alt [symmetric] split: if_splits)
    from Cons.IH [OF _ this] Cons.prems(1) show ?thesis using x True g v by simp
  next
    case False
    then show ?thesis using Cons x by (auto split: if_splits)
  qed
qed simp

lemma map_handle_zip:
  "length gs = length ss \<Longrightarrow> (\<And>s t. (s, t) \<in> set (zip ss gs) \<Longrightarrow> P s t \<Longrightarrow> slot_active s) \<Longrightarrow> handles_distinct ss \<Longrightarrow>
     distinct (map (\<lambda>(s, t). handle s) (filter (\<lambda>(s, t). P s t) (zip ss gs)))"
proof (induction ss arbitrary: gs)
  case (Cons s ss)
  then obtain g gs' where g: "gs = g # gs'" by (cases gs) auto
  note d = handles_distinct_Cons [OF Cons.prems(3)]
  have "distinct (map (\<lambda>(s, t). handle s) (filter (\<lambda>(s, t). P s t) (zip ss gs')))"
    using Cons g d by auto
  moreover have "handle s \<notin> (\<lambda>(s, t). handle s) ` {x \<in> set (zip ss gs'). case x of (s, t) \<Rightarrow> P s t}" if "P s g"
  proof
    assume "handle s \<in> (\<lambda>(s, t). handle s) ` {x \<in> set (zip ss gs'). case x of (s, t) \<Rightarrow> P s t}"
    then obtain s' t where st: "(s', t) \<in> set (zip ss gs')" "P s' t" "handle s' = handle s" by auto
    then have "s' \<in> set ss" "slot_active s'" "slot_active s"
      using Cons.prems(2) g that by (auto dest: set_zip_leftD)
    then show False using d st(3) by auto
  qed
  ultimately show ?case using g by simp
qed simp

lemma reserve_decode_spec:
  assumes inv: "mgr_inv K good view m" and eq: "reserve_decode K m growth = (r, m')"
  shows "mgr_inv K good view m' \<and> slots m' = slots m \<and> max_ctx m' = max_ctx m \<and> (\<not> r \<longrightarrow> m' = m) \<and>
    kv_block_size K (kv m') = kv_block_size K (kv m) \<and>
    (r \<longrightarrow> length growth = length (slots m) \<and> (\<forall>i < length (slots m). phase (slots m ! i) = SeqDecode \<longrightarrow>
       1 \<le> growth ! i \<and> staged_tokens (slots m ! i) = [] \<and> growth ! i \<le> max_ctx m - cur_pos (slots m ! i) \<and>
       (\<exists>len own. view (kv m') (handle (slots m ! i)) = Some (len, own) \<and>
          nat (cur_pos (slots m ! i) + growth ! i) \<le> own * kv_block_size K (kv m))))"
proof (cases "length growth = length (slots m)")
  case len: True
  let ?bs = "kv_block_size K (kv m)" and ?xs = "zip (slots m) growth"
  note good = mgr_invD(1) [OF inv]
  show ?thesis
  proof (cases "decode_growth_blocks K m ?xs 0")
    case None
    then show ?thesis using eq len inv by (simp add: reserve_decode_def)
  next
    case (Some b)
    have sub: "fst ` set ?xs \<subseteq> set (slots m)" using set_zip_leftD by fastforce
    note dg = decode_growth_Some [OF inv sub Some]
    let ?ts = "map (\<lambda>(s, t). (handle s, u32_of_int (cur_pos s + t))) (filter (\<lambda>(s, t). t \<noteq> 0) ?xs)"
    show ?thesis
    proof (cases "b > kv_free_block_count K (kv m)")
      case True
      then show ?thesis using eq len inv Some by (simp add: reserve_decode_def)
    next
      case False
      have act: "phase s = SeqDecode" if "(s, t) \<in> set ?xs" "t \<noteq> 0" for s t using dg that by auto
      have ext: "u32_of_int (cur_pos s + t) = nat (cur_pos s + t)" if st: "(s, t) \<in> set ?xs" "t \<noteq> 0" for s t
      proof -
        have "s \<in> set (slots m)" using st by (auto dest: set_zip_leftD)
        then have "slot_ok (max_ctx m) ?bs (view (kv m) (handle s)) s" using inv by (simp add: mgr_inv_def)
        then show ?thesis using dg st act [OF st] mgr_invD(3) [OF inv] by (auto simp: slot_ok_def)
      qed
      have dec: "\<forall>(h, c) \<in> set ?ts. \<exists>i < length (slots m). phase (slots m ! i) = SeqDecode \<and> h = handle (slots m ! i)"
      proof (clarsimp)
        fix s t assume st: "(s, t) \<in> set ?xs" "t \<noteq> 0"
        then obtain i where "i < length (slots m)" "slots m ! i = s" by (auto simp: set_zip)
        then show "\<exists>i < length (slots m). phase (slots m ! i) = SeqDecode \<and> handle s = handle (slots m ! i)"
          using act [OF st] by auto
      qed
      have live: "\<forall>(h, c) \<in> set ?ts. view (kv m) h \<noteq> None"
        using slot_ok_view mgr_invD(5) [OF inv] dec by fastforce
      have "distinct (map (\<lambda>(s, t). handle s) (filter (\<lambda>(s, t). t \<noteq> 0) ?xs))"
        by (rule map_handle_zip [OF len _ mgr_invD(4) [OF inv]]) (drule (1) act, simp)
      then have dist: "distinct (map fst ?ts)" by (simp add: comp_def case_prod_unfold)
      have "(\<Sum>(h, c) \<leftarrow> ?ts. ceil_div c ?bs - snd (the (view (kv m) h))) =
          (\<Sum>(s, t) \<leftarrow> filter (\<lambda>(s, t). t \<noteq> 0) ?xs. ceil_div (nat (cur_pos s + t)) ?bs - snd (the (view (kv m) (handle s))))"
        using ext by (auto simp: comp_def case_prod_beta intro!: arg_cong [where f = sum_list] map_cong)
      then have total: "(\<Sum>(h, c) \<leftarrow> ?ts. ceil_div c ?bs - snd (the (view (kv m) h))) \<le> kv_free_block_count K (kv m)"
        using dg False by simp
      obtain k' where k': "apply_topups K ?ts (kv m) = (Ok, k')" "good k'" "kv_block_size K k' = ?bs"
        "\<forall>(h, c) \<in> set ?ts. view k' h =
           Some (fst (the (view (kv m) h)), max (snd (the (view (kv m) h))) (ceil_div c ?bs))"
        using apply_topups_all [OF good dist live total] by blast
      have m': "r" "m' = m\<lparr>kv := k'\<rparr>"
        using eq len Some False k'(1) by (auto simp: reserve_decode_def reserve_growth_topups)
      have "1 \<le> growth ! i \<and> staged_tokens (slots m ! i) = [] \<and> growth ! i \<le> max_ctx m - cur_pos (slots m ! i) \<and>
         (\<exists>len own. view k' (handle (slots m ! i)) = Some (len, own) \<and>
            nat (cur_pos (slots m ! i) + growth ! i) \<le> own * ?bs)"
        if i: "i < length (slots m)" "phase (slots m ! i) = SeqDecode" for i
      proof -
        let ?s = "slots m ! i" and ?g = "growth ! i"
        have st: "(?s, ?g) \<in> set ?xs" using i len by (auto simp: set_zip)
        then have g: "1 \<le> ?g" "staged_tokens ?s = []" "?g \<le> max_ctx m - cur_pos ?s" using dg i(2) by auto
        then have in_ts: "(handle ?s, nat (cur_pos ?s + ?g)) \<in> set ?ts" using st ext [OF st] by force
        have "nat (cur_pos ?s + ?g) \<le> ceil_div (nat (cur_pos ?s + ?g)) ?bs * ?bs"
          using le_ceil_div_mult block_size_pos [OF good] by blast
        also have "\<dots> \<le> max (snd (the (view (kv m) (handle ?s)))) (ceil_div (nat (cur_pos ?s + ?g)) ?bs) * ?bs" by simp
        finally show ?thesis using g bspec [OF k'(4) in_ts] by simp
      qed
      then show ?thesis using m' k' len apply_topups_inv [OF inv dec k'(1)] by simp
    qed
  qed
qed (use eq inv in \<open>simp add: reserve_decode_def\<close>)

lemma admit_cases:
  assumes inv: "mgr_inv K good view m" and eq: "admit K m rid prompt smp rd1 rd2 = (r, m')"
  obtains (refused) "admit_status r \<noteq> Admitted" "mgr_inv K good view m'" "slots m' = slots m" "max_ctx m' = max_ctx m"
    | (ok) i m1 h k' cap where "admit_status r = Admitted" "admit_slot r = int i" "i < length (slots m)"
        "\<not> slot_active (slots m ! i)" "prompt \<noteq> []" "int (length prompt) \<le> max_ctx m"
        "\<forall>s \<in> set (slots m). \<not> parked s"
        "protect_decode_headroom K m = (Ok, m1)"
        "kv_acquire_reserved K (kv m1) rid cap default_handle = (Ok, h, k')"
        "length prompt \<le> cap"
        "m' = m1\<lparr>kv := k', slots := (slots m)[i := (slots m ! i)\<lparr>phase := SeqPrefill, handle := h, cur_pos := 0,
           original_prompt_len := int (length prompt), prompt_len := int (length prompt), sampler := smp,
           sample_history := prompt,
           rng := (if needs_logit_processing smp then request_rng_seed smp rd1 rd2 else ucast rd1)\<rparr>]\<rparr>"
proof -
  let ?n = "length prompt" and ?i = "first_free (slots m) 0"
  have u: "u64_of_int (max_ctx m) = nat (max_ctx m)" using mgr_invD(2,3) [OF inv] by simp
  show thesis
  proof (cases "(\<exists>s \<in> set (slots m). parked s) \<or> prompt = [] \<or> nat (max_ctx m) < ?n \<or>
      kv_physical_block_count K (kv m) * kv_block_size K (kv m) < ?n \<or> ?i < 0")
    case True
    have "int32_of (int ?n) = int ?n \<and> u64_of_int (int ?n) = ?n" if "\<not> nat (max_ctx m) < ?n"
      using that mgr_invD(2,3) [OF inv] by simp
    then have "m' = m \<and> admit_status r \<noteq> Admitted"
      using eq True by (auto simp: admit_def Let_def u admit_error_result_def split: if_splits)
    then show ?thesis using inv refused by blast
  next
    case False
    have n: "int32_of (int ?n) = int ?n" "u64_of_int (int ?n) = ?n" "u32_of_int (int ?n) = ?n" "int ?n \<le> max_ctx m"
      using False mgr_invD(2,3) [OF inv] by auto
    obtain i where i: "i < length (slots m)" "?i = int i" "\<not> slot_active (slots m ! i)"
      using first_free_cases [of "slots m" 0] False by auto
    obtain st m1 where prot: "protect_decode_headroom K m = (st, m1)" by fastforce
    note spec = protect_headroom_spec [OF inv prot]
    define cap where "cap = (if \<not> capacity_fits_pool K m1 (decode_headroom_capacity K m1 (int ?n)) then ?n
        else decode_headroom_capacity K m1 (int ?n))"
    obtain st2 h k' where acq: "kv_acquire_reserved K (kv m1) rid cap default_handle = (st2, h, k')"
      by (rule prod_cases3)
    have adm: "admit K m rid prompt smp rd1 rd2 =
      (if st \<noteq> Ok then (if st = BlocksExhausted
                  then admit_error_result Busy ''existing decoders need the available KV headroom''
                  else admit_error_result AdmitFailed (paged_kv_status_string st), m1)
       else if st2 \<noteq> Ok
              then (admit_error_result
                      (if st2 = SequenceSlotsExhausted \<or> st2 = BlocksExhausted then Busy else AdmitFailed)
                      (if st2 = BlocksExhausted
                       then ''not enough unreserved KV blocks for the prompt and decode headroom''
                       else paged_kv_status_string st2), m1\<lparr>kv := k'\<rparr>)
              else ((admit_error_result Admitted [])\<lparr>admit_slot := int i\<rparr>,
                m1\<lparr>kv := k', slots := (slots m1)[i := (slots m1 ! i)\<lparr>phase := SeqPrefill, handle := h, cur_pos := 0,
                  original_prompt_len := int ?n, prompt_len := int ?n, sampler := smp, sample_history := prompt,
                  rng := (if needs_logit_processing smp then request_rng_seed smp rd1 rd2 else ucast rd1)\<rparr>]\<rparr>))"
      using False i n prot acq unfolding admit_def Let_def u n cap_def by simp
    have inv1: "mgr_inv K good view m1" and m1: "slots m1 = slots m" "max_ctx m1 = max_ctx m" using spec by auto
    show ?thesis
    proof (cases "st = Ok \<and> st2 = Ok")
      case True
      have "?n \<le> cap"
        using headroom_capacity(2) [OF inv1, of "int ?n"] n m1 by (auto simp: cap_def)
      then show ?thesis
        using that(2) [of i m1 cap h k'] True adm eq i False n prot acq m1 by (simp add: admit_error_result_def)
    next
      case bad: False
      have "m1\<lparr>kv := k'\<rparr> = m1" if "st2 \<noteq> Ok" using acquire_fail [OF mgr_invD(1) [OF inv1] acq that] by simp
      then have "admit_status r \<noteq> Admitted \<and> m' = m1"
        using adm eq bad by (auto simp: admit_error_result_def split: if_splits)
      then show ?thesis using refused inv1 m1 by simp
    qed
  qed
qed

lemma admit_inv:
  assumes inv: "mgr_inv K good view m" and eq: "admit K m rid prompt smp rd1 rd2 = (r, m')"
  shows "mgr_inv K good view m'"
  using inv eq
proof (cases rule: admit_cases)
  case (ok i m1 h k' cap)
  note spec = protect_headroom_spec [OF inv ok(8)]
  have inv1: "mgr_inv K good view m1" and m1: "slots m1 = slots m" "max_ctx m1 = max_ctx m"
    "kv_block_size K (kv m1) = kv_block_size K (kv m)" using spec by auto
  note good1 = mgr_invD(1) [OF inv1]
  note acq = acquire_view [OF good1 ok(9)]
  have "length prompt \<le> ceil_div cap (kv_block_size K (kv m1)) * kv_block_size K (kv m1)"
    using ok(10) le_ceil_div_mult [of "kv_block_size K (kv m1)" cap] block_size_pos [OF good1] by linarith
  moreover have "handle (slots m ! j) \<noteq> h" if "j < length (slots m)" "slot_active (slots m ! j)" for j
    using slot_ok_view [OF mgr_invD(5) [OF inv1, of j]] that acq m1 by auto
  moreover have "staged_tokens (slots m ! i) = []" using mgr_invD(5) [OF inv ok(3)] ok(4) by (simp add: slot_ok_def)
  moreover have "1 \<le> length prompt" using ok(5) by (cases prompt) auto
  ultimately show ?thesis
    unfolding ok(11) m1(1) [symmetric] using ok(3,4,6) acq m1
    by (intro mgr_inv_put [OF inv1 _ acquire_good [OF good1 ok(9)] acquire_frame [OF good1 ok(9)]])
      (auto simp: slot_ok_def)
qed

section \<open>Sequences of operations\<close>

end

text \<open>
  The calls the scheduler makes; \<open>StepTokens i ts\<close> feeds the array \<open>ts\<close> with its own length.
\<close>

datatype mgr_event =
    Admit u64 "token list" SamplerCfg "32 word" "32 word"
  | Prefill int int
  | SeedPrefix int int
  | CommitPrefill int
  | StepTokens int "token list"
  | CommitStep int
  | RollbackStep int
  | ReserveDecode "int list"
  | Detach int
  | Attach int
  | Evict int token
  | Resume int
  | Retire int

fun mgr_exec :: "'kv SlotKv \<Rightarrow> 'kv SeqSlotManager \<Rightarrow> mgr_event \<Rightarrow> 'kv SeqSlotManager" where
  "mgr_exec K m (Admit rid prompt smp rd1 rd2) = snd (admit K m rid prompt smp rd1 rd2)"
| "mgr_exec K m (Prefill i n) = snd (append_prefill K m i n)"
| "mgr_exec K m (SeedPrefix i n) = snd (seed_restored_prefix K m i n)"
| "mgr_exec K m (CommitPrefill i) = commit_prefill m i"
| "mgr_exec K m (StepTokens i ts) = snd (append_tokens K m i (Some ts) (int (length ts)))"
| "mgr_exec K m (CommitStep i) = commit_step m i"
| "mgr_exec K m (RollbackStep i) = snd (rollback_step K m i)"
| "mgr_exec K m (ReserveDecode growth) = snd (reserve_decode K m growth)"
| "mgr_exec K m (Detach i) = snd (detach_kv K m i)"
| "mgr_exec K m (Attach i) = snd (attach_kv K m i)"
| "mgr_exec K m (Evict i t) = snd (evict_for_recompute K m i t)"
| "mgr_exec K m (Resume i) = snd (resume_recompute K m i)"
| "mgr_exec K m (Retire i) = retire K m i"

context slot_kv_contract
begin

lemma seed_restored_prefix_inv:
  "mgr_inv K good view m \<Longrightarrow> seed_restored_prefix K m i n = (r, m') \<Longrightarrow> mgr_inv K good view m'"
  by (auto simp: seed_restored_prefix_def split: if_splits dest: append_prefill_inv)

lemma mgr_exec_inv:
  assumes "mgr_inv K good view m"
  shows "mgr_inv K good view (mgr_exec K m e)"
proof (cases e)
  case (StepTokens i ts)
  then show ?thesis
    using append_tokens_inv [OF assms order_refl prod.collapse [symmetric]] by simp
next
  case (ReserveDecode growth)
  then show ?thesis
    using conjunct1 [OF reserve_decode_spec [OF assms prod.collapse [symmetric], of growth]] by simp
qed (use assms in \<open>auto intro!: commit_prefill_inv commit_step_inv retire_inv
      intro: admit_inv [OF assms prod.collapse [symmetric]] append_prefill_inv [OF assms prod.collapse [symmetric]]
        seed_restored_prefix_inv [OF assms prod.collapse [symmetric]]
        rollback_step_inv [OF assms prod.collapse [symmetric]] detach_kv_inv [OF assms prod.collapse [symmetric]]
        attach_kv_inv [OF assms prod.collapse [symmetric]] evict_inv [OF assms prod.collapse [symmetric]]
        resume_recompute_inv [OF assms prod.collapse [symmetric]]\<close>)

end

end
