(* ===== verification/Seq_Slot_Reach.thy ===== *)
theory Seq_Slot_Reach
  imports Seq_Slot_Inv
begin

text \<open>
  The managers reachable by sequences of operations on the paged pool, and what an operation leaves alone: the slots it does not address
  and the shape of the pool.
\<close>

section \<open>Reachable managers\<close>

inductive mgr_reachable :: "PagedKvPool SeqSlotManager \<Rightarrow> bool" where
  start: "new_pool n_blocks max_seqs bsize = Some p \<Longrightarrow> max_seqs \<le> u32_max \<Longrightarrow> 0 \<le> ctx \<Longrightarrow> ctx \<le> int_max \<Longrightarrow>
    mgr_reachable (new_manager PoolSlotKv p ctx)"
| step: "mgr_reachable m \<Longrightarrow> mgr_reachable (mgr_exec PoolSlotKv m e)"

abbreviation pool_mgr_inv :: "PagedKvPool SeqSlotManager \<Rightarrow> bool" where
  "pool_mgr_inv \<equiv> mgr_inv PoolSlotKv pool_inv pool_view"

lemma mgr_reachable_inv: "mgr_reachable m \<Longrightarrow> pool_mgr_inv m"
proof (induction rule: mgr_reachable.induct)
  case (start n_blocks max_seqs bsize p ctx)
  have "pool_view p h = None" for h
    using start(1) by (auto simp: new_pool_def pool_view_def validate_def fresh_sequence_def split: if_splits)
  then show ?case using pool_kv.new_manager_inv new_pool_inv start by blast
qed (rule pool_kv.mgr_exec_inv)

lemma mgr_reachable_run: "mgr_reachable m \<Longrightarrow> mgr_reachable (foldl (mgr_exec PoolSlotKv) m es)"
  by (induction es arbitrary: m) (auto intro: mgr_reachable.step)

lemmas manager_slot_ok = mgr_invD(5) [where K = PoolSlotKv, simplified PoolSlotKv_simps]

section \<open>Manager operations and the other slots\<close>

fun addresses :: "mgr_event \<Rightarrow> nat \<Rightarrow> bool" where
  "addresses (Admit _ _ _ _ _) i = False"
| "addresses (ReserveDecode _) i = False"
| "addresses (Prefill j _) i = (j = int i)"
| "addresses (SeedPrefix j _) i = (j = int i)"
| "addresses (CommitPrefill j) i = (j = int i)"
| "addresses (StepTokens j _) i = (j = int i)"
| "addresses (CommitStep j) i = (j = int i)"
| "addresses (RollbackStep j) i = (j = int i)"
| "addresses (Detach j) i = (j = int i)"
| "addresses (Attach j) i = (j = int i)"
| "addresses (Evict j _) i = (j = int i)"
| "addresses (Resume j) i = (j = int i)"
| "addresses (Retire j) i = (j = int i)"

definition kept :: "nat \<Rightarrow> 'kv SeqSlotManager \<Rightarrow> 'kv SeqSlotManager \<Rightarrow> bool" where
  "kept i m m' \<longleftrightarrow> length (slots m') = length (slots m) \<and> slots m' ! i = slots m ! i \<and> max_ctx m' = max_ctx m"

lemma kept_refl [simp]: "kept i m m" "kept i m (m\<lparr>kv := k\<rparr>)"
  by (simp_all add: kept_def)

lemma kept_put: "kept i m m' \<Longrightarrow> nat j \<noteq> i \<Longrightarrow> kept i m (put_slot m' j s)"
  by (simp add: kept_def)

lemma kept_protect: "protect_decode_headroom K m = (st, m') \<Longrightarrow> kept i m m'"
  by (auto simp: kept_def protect_decode_headroom_def Let_def split: sum.splits prod.splits if_splits)

lemma active_other: "is_active m j \<Longrightarrow> j \<noteq> int i \<Longrightarrow> nat j \<noteq> i"
  by (auto simp: kept_def is_active_def)

lemma first_free_other:
  "slot_active (ss ! i) \<Longrightarrow> i < length ss \<Longrightarrow> 0 \<le> k \<Longrightarrow> first_free ss k \<noteq> k + int i"
proof (induction ss arbitrary: i k)
  case (Cons s ss)
  have ge: "first_free ss k' < 0 \<or> k' \<le> first_free ss k'" for ss :: "SeqSlot list" and k'
    by (induction ss arbitrary: k') (auto, smt (verit))
  show ?case
  proof (cases i)
    case 0
    then show ?thesis using Cons.prems ge [of ss "k + 1"] by auto
  next
    case (Suc i')
    then show ?thesis using Cons.IH [of i' "k + 1"] Cons.prems by (auto simp: kept_def algebra_simps)
  qed
qed simp

lemma kept_admit:
  assumes i: "i < length (slots m)" "slot_active (slots m ! i)" and eq: "admit K m rid prompt smp a b = (r, m')"
  shows "kept i m m'"
proof -
  obtain st m1 where p: "protect_decode_headroom K m = (st, m1)" by fastforce
  then have k: "kept i m m1" by (rule kept_protect)
  have ff: "nat (first_free (slots m) 0) \<noteq> i" if "\<not> first_free (slots m) 0 < 0"
    using first_free_other [OF i(2,1), of 0] that by auto
  have "kept i m (snd (admit K m rid prompt smp a b))"
    using k ff by (simp add: admit_def Let_def p split_beta kept_def)
  then show ?thesis using eq by simp
qed

lemma kept_exec:
  assumes i: "i < length (slots m)" "slot_active (slots m ! i)" and e: "\<not> addresses e i"
  shows "kept i m (mgr_exec K m e)"
proof (cases e)
  case (Admit rid prompt smp a b)
  then show ?thesis using kept_admit [OF i prod.collapse [symmetric]] by simp
next
  case (ReserveDecode growth)
  then show ?thesis by (auto simp: kept_def reserve_decode_def Let_def split: option.splits prod.splits)
next
  case (Prefill j n)
  then show ?thesis using e by (auto simp: kept_def append_prefill_def Let_def is_prefilling_def dest: active_other split: prod.splits)
next
  case (SeedPrefix j n)
  then show ?thesis using e by (auto simp: kept_def seed_restored_prefix_def append_prefill_def Let_def is_prefilling_def dest: active_other split: prod.splits)
next
  case (CommitPrefill j)
  then show ?thesis using e by (auto simp: kept_def commit_prefill_def Let_def is_prefilling_def dest: active_other)
next
  case (StepTokens j ts)
  then show ?thesis using e by (auto simp: kept_def append_tokens_def Let_def dest: active_other split: prod.splits)
next
  case (CommitStep j)
  then show ?thesis using e by (auto simp: kept_def commit_step_def Let_def dest: active_other)
next
  case (RollbackStep j)
  then show ?thesis using e by (auto simp: kept_def rollback_step_def Let_def dest: active_other split: prod.splits)
next
  case (Detach j)
  then show ?thesis using e by (auto simp: kept_def detach_kv_def Let_def dest: active_other split: prod.splits)
next
  case (Attach j)
  then show ?thesis using e by (auto simp: kept_def attach_kv_def Let_def dest: active_other split: prod.splits)
next
  case (Evict j t)
  then show ?thesis using e by (auto simp: kept_def evict_for_recompute_def Let_def dest: active_other split: prod.splits)
next
  case (Resume j)
  then show ?thesis using e by (auto simp: kept_def resume_recompute_def Let_def dest: active_other split: prod.splits)
next
  case (Retire j)
  then show ?thesis using e by (auto simp: kept_def retire_def Let_def split: prod.splits)
qed

lemma mgr_exec_length: "length (slots (mgr_exec K m e)) = length (slots m)"
proof (cases e)
  case (Admit rid prompt smp a b)
  have "length (slots (snd (protect_decode_headroom K m))) = length (slots m)"
    by (auto simp: protect_decode_headroom_def Let_def split: sum.splits prod.splits)
  then show ?thesis unfolding Admit by (simp add: admit_def Let_def split_beta)
qed (auto simp: append_prefill_def seed_restored_prefix_def commit_prefill_def append_tokens_def commit_step_def rollback_step_def
      reserve_decode_def detach_kv_def attach_kv_def evict_for_recompute_def resume_recompute_def retire_def Let_def
      split: prod.splits option.splits)

section \<open>The shape of the pool\<close>

abbreviation kv_shape :: "'kv SlotKv \<Rightarrow> 'kv \<Rightarrow> nat \<times> nat" where
  "kv_shape K k \<equiv> (kv_block_size K k, kv_physical_block_count K k)"

context slot_kv_contract
begin

definition keeps :: "'kv \<Rightarrow> 'kv \<Rightarrow> bool" where
  "keeps k k' \<longleftrightarrow> (good k \<longrightarrow> good k' \<and> kv_shape K k' = kv_shape K k)"

lemma keeps_refl [simp]: "keeps k k"
  by (simp add: keeps_def)

lemma keeps_trans: "keeps a b \<Longrightarrow> keeps b c \<Longrightarrow> keeps a c"
  by (simp add: keeps_def)

lemma keepsI: "(good k \<Longrightarrow> good k') \<Longrightarrow> (good k \<Longrightarrow> kv_frame K view k h k') \<Longrightarrow> keeps k k'"
  by (simp add: keeps_def kv_frame_def)

lemma keeps_acquire:
  assumes eq: "kv_acquire_reserved K k rid c out = (st, h, k')"
  shows "keeps k k'"
proof (cases "st = Ok")
  case True
  then show ?thesis using keepsI acquire_good [OF _ eq] acquire_frame [OF _ eq [unfolded True]] by blast
next
  case False
  then show ?thesis using acquire_fail [OF _ eq] by (auto simp: keeps_def)
qed

lemma keeps_reserve: "kv_reserve_capacity K k h c = (st, k') \<Longrightarrow> keeps k k'"
  by (rule keepsI [OF reserve_good reserve_frame])

lemma keeps_append: "kv_append K k h n ofl = (r, k') \<Longrightarrow> keeps k k'"
  by (rule keepsI [OF append_good append_frame])

lemma keeps_rollback: "kv_rollback_append K k h n = (st, k') \<Longrightarrow> keeps k k'"
  by (rule keepsI [OF rollback_good rollback_frame])

lemma keeps_clear: "kv_clear K k h = (st, k') \<Longrightarrow> keeps k k'"
  by (rule keepsI [OF clear_good clear_frame])

lemma keeps_release: "kv_release K k h = (st, k') \<Longrightarrow> keeps k k'"
  by (rule keepsI [OF release_good release_frame])

lemmas keeps_ops = keeps_acquire keeps_reserve keeps_append keeps_rollback keeps_clear keeps_release

lemma keeps_clear_snd: "keeps k (snd (kv_clear K k h))"
  by (rule keeps_ops(5) [OF prod.collapse [symmetric]])

lemma keeps_topups: "apply_topups K ts k = (st, k') \<Longrightarrow> keeps k k'"
  by (induction ts arbitrary: k) (auto simp: Let_def split: prod.splits if_splits, (meson keeps_reserve keeps_trans)+)

lemma keeps_growth: "reserve_growth K gs k = (b, k') \<Longrightarrow> keeps k k'"
  by (induction gs arbitrary: k) (auto simp: Let_def split: prod.splits if_splits, (meson keeps_reserve keeps_trans)+)

lemma keeps_protect: "protect_decode_headroom K m = (st, m') \<Longrightarrow> keeps (kv m) (kv m')"
  by (auto simp: protect_decode_headroom_def Let_def split: sum.splits prod.splits if_splits dest: keeps_topups)

lemma keeps_admit: "admit K m rid prompt smp a b = (r, m') \<Longrightarrow> keeps (kv m) (kv m')"
  by (auto simp: admit_def Let_def split: if_splits prod.splits dest!: keeps_protect keeps_ops(1) intro: keeps_trans)

lemma keeps_prefill: "append_prefill K m i n = (r, m') \<Longrightarrow> keeps (kv m) (kv m')"
  by (auto simp: append_prefill_def Let_def split: if_splits prod.splits dest!: keeps_ops(3))

lemma keeps_tokens: "append_tokens K m i fed n = (r, m') \<Longrightarrow> keeps (kv m) (kv m')"
  by (auto simp: append_tokens_def Let_def split: if_splits prod.splits dest!: keeps_ops(3,4) intro: keeps_trans)

lemma keeps_exec: "keeps (kv m) (kv (mgr_exec K m e))"
proof (cases e)
  case (Admit rid prompt smp a b)
  then show ?thesis using keeps_admit [OF prod.collapse [symmetric]] by simp
next
  case (Prefill j n)
  then show ?thesis using keeps_prefill [OF prod.collapse [symmetric]] by simp
next
  case (SeedPrefix j n)
  then show ?thesis using keeps_prefill [OF prod.collapse [symmetric]] by (simp add: seed_restored_prefix_def)
next
  case (StepTokens j ts)
  then show ?thesis using keeps_tokens [OF prod.collapse [symmetric]] by simp
next
  case (ReserveDecode growth)
  then show ?thesis by (auto simp: reserve_decode_def Let_def split: option.splits prod.splits dest: keeps_growth)
next
  case (Attach j)
  then show ?thesis
    by (auto simp: attach_kv_def Let_def split: prod.splits dest!: keeps_ops(2,3) intro: keeps_trans keeps_clear_snd)
next
  case (Evict j t)
  then show ?thesis by (auto simp: evict_for_recompute_def Let_def split: prod.splits if_splits dest!: keeps_ops(5))
qed (auto simp: commit_prefill_def commit_step_def rollback_step_def detach_kv_def resume_recompute_def retire_def Let_def
      split: prod.splits dest: keeps_ops)

end

end
