(* ===== verification/Paged_Kv_Props.thy ===== *)
theory Paged_Kv_Props
  imports Paged_Kv_Pool
begin

text \<open>
  The pool as a state machine over its public operations, and the guarantees its clients
  rely on in every reachable state: exclusive ownership of blocks and KV rows, atomic
  failure, reservations that no other sequence can strand, exact retry after a rollback,
  dense allocation from a fresh pool, and rejection of stale handles.
\<close>

section \<open>The pool as a state machine\<close>

datatype pool_event =
    Acquire u64 nat
  | Reserve PagedKvSequenceHandle nat
  | Append PagedKvSequenceHandle nat bool
  | Rollback PagedKvSequenceHandle nat
  | Clear PagedKvSequenceHandle
  | Release PagedKvSequenceHandle
  | Reset

fun pool_exec :: "PagedKvPool \<Rightarrow> pool_event \<Rightarrow> PagedKvPool" where
  "pool_exec p (Acquire rid c) = snd (snd (acquire_reserved p rid c default_handle))"
| "pool_exec p (Reserve h c) = snd (reserve_capacity p h c)"
| "pool_exec p (Append h n ofl) = snd (append_rows p h n ofl)"
| "pool_exec p (Rollback h n) = snd (rollback_append p h n)"
| "pool_exec p (Clear h) = snd (clear p h)"
| "pool_exec p (Release h) = snd (release p h)"
| "pool_exec p Reset = reset p"

abbreviation pool_run :: "PagedKvPool \<Rightarrow> pool_event list \<Rightarrow> PagedKvPool" where
  "pool_run \<equiv> foldl pool_exec"

inductive pool_reachable :: "PagedKvPool \<Rightarrow> bool" where
  start: "new_pool n_blocks max_seqs bsize = Some p \<Longrightarrow> max_seqs \<le> u32_max \<Longrightarrow> pool_reachable p"
| step: "pool_reachable p \<Longrightarrow> pool_reachable (pool_exec p e)"

lemma pool_exec_inv: "pool_inv p \<Longrightarrow> pool_inv (pool_exec p e)"
proof (cases e)
  case (Acquire rid c)
  then show "pool_inv p \<Longrightarrow> ?thesis"
    by (cases "acquire_reserved p rid c default_handle") (auto dest: acquire_reserved_inv)
next
  case (Reserve h c)
  then show "pool_inv p \<Longrightarrow> ?thesis"
    by (cases "reserve_capacity p h c") (auto dest: reserve_capacity_inv)
next
  case (Append h n ofl)
  then show "pool_inv p \<Longrightarrow> ?thesis"
    by (cases "append_rows p h n ofl") (auto dest: append_rows_inv)
next
  case (Rollback h n)
  then show "pool_inv p \<Longrightarrow> ?thesis"
    by (cases "rollback_append p h n") (auto dest: rollback_append_inv)
next
  case (Clear h)
  then show "pool_inv p \<Longrightarrow> ?thesis" by (cases "clear p h") (auto dest: clear_inv)
next
  case (Release h)
  then show "pool_inv p \<Longrightarrow> ?thesis" by (cases "release p h") (auto dest: release_inv)
qed (simp add: reset_inv)

lemma pool_reachable_inv: "pool_reachable p \<Longrightarrow> pool_inv p"
  by (induction rule: pool_reachable.induct) (auto intro: new_pool_inv pool_exec_inv)

lemma pool_run_inv: "pool_inv p \<Longrightarrow> pool_inv (pool_run p es)"
  by (induction es arbitrary: p) (auto intro: pool_exec_inv)

section \<open>Ownership\<close>

lemma mset_concat_owned:
  "mset (concat (map owned_blocks xs)) = sum_list (map (\<lambda>s. mset (owned_blocks s)) xs)"
  by (induction xs) auto

text \<open>
  C1. In every pool reachable from construction through any sequence of operations, the free
  list and the blocks owned by the sequences (visible, retried and reserved) are together
  exactly the physical blocks, each once: no block is lost, duplicated or shared.
\<close>

theorem blocks_partition:
  assumes "pool_reachable p"
  shows "distinct (free_blocks p @ concat (map owned_blocks (sequences p))) \<and>
    set (free_blocks p @ concat (map owned_blocks (sequences p))) = {..<physical_block_count p}"
proof -
  have eq: "mset (free_blocks p @ concat (map owned_blocks (sequences p))) = mset [0..<physical_block_count p]"
    using pool_invD(8) [OF pool_reachable_inv [OF assms]] by (simp add: mset_concat_owned)
  show ?thesis
    using mset_eq_imp_distinct_iff [OF eq] mset_eq_setD [OF eq]
    by (simp only: distinct_upt set_upt atLeast0LessThan simp_thms)
qed

lemma owned_disjoint:
  assumes inv: "pool_inv p" and ij: "i < length (sequences p)" "j < length (sequences p)" "i \<noteq> j"
  shows "set (owned_blocks (sequences p ! i)) \<inter> set (owned_blocks (sequences p ! j)) = {}"
proof -
  let ?f = "\<lambda>s. mset (owned_blocks s)"
  have "?f (sequences p ! i) + ?f (sequences p ! j) \<subseteq># mset [0..<physical_block_count p]"
    using sum_list_map_two_ge [OF ij, of ?f] pool_invD(8) [OF inv]
    by (metis mset_subset_eq_add_right subset_mset.order_trans)
  then have "mset (owned_blocks (sequences p ! i) @ owned_blocks (sequences p ! j)) \<subseteq># mset [0..<physical_block_count p]"
    by simp
  from distinct_submset [OF this distinct_upt] show ?thesis by auto
qed

lemma owned_distinct:
  assumes inv: "pool_inv p" and i: "i < length (sequences p)"
  shows "distinct (owned_blocks (sequences p ! i))"
    and "b \<in> set (owned_blocks (sequences p ! i)) \<Longrightarrow> b < physical_block_count p"
proof -
  let ?f = "\<lambda>s. mset (owned_blocks s)"
  have sub: "mset (owned_blocks (sequences p ! i)) \<subseteq># mset [0..<physical_block_count p]"
    using sum_list_map_ge [OF i, of ?f] pool_invD(8) [OF inv]
    by (metis mset_subset_eq_add_right subset_mset.order_trans)
  from distinct_submset [OF sub distinct_upt] show "distinct (owned_blocks (sequences p ! i))" .
  show "b < physical_block_count p" if "b \<in> set (owned_blocks (sequences p ! i))"
    using set_mset_mono [OF sub] that by auto
qed

text \<open>The KV row that holds logical position \<open>pos\<close> of the sequence behind a handle.\<close>

definition kv_row :: "PagedKvPool \<Rightarrow> PagedKvSequenceHandle \<Rightarrow> nat \<Rightarrow> nat" where
  "kv_row p h pos = physical_token_index (make_slot p (seq_of p h) pos)"

lemma kv_row_eq: "kv_row p h pos =
    block_table (seq_of p h) ! (pos div block_size p) * block_size p + pos mod block_size p"
  by (simp add: kv_row_def make_slot_def Let_def)

lemma table_index:
  assumes "pool_inv p" "validate p h = Ok" "pos < kv_seq_len (seq_of p h)"
  shows "pos div block_size p < length (block_table (seq_of p h))"
proof -
  have "handle_slot h < length (sequences p)" using assms(2) by (simp add: validate_Ok)
  then have "length (block_table (seq_of p h)) = ceil_div (kv_seq_len (seq_of p h)) (block_size p)"
    using pool_invD(5) [OF assms(1)] by (simp add: seq_inv_def)
  then show ?thesis using div_less_ceil_div [OF pool_invD(1) [OF assms(1)] assms(3)] by simp
qed

lemma row_decompose:
  fixes b b' :: nat
  assumes "0 < bs" "b * bs + o1 = b' * bs + o2" "o1 < bs" "o2 < bs"
  shows "b = b' \<and> o1 = o2"
proof -
  have "(b * bs + o1) div bs = b" "(b' * bs + o2) div bs = b'" using assms(1,3,4) by simp_all
  then have "b = b'" using assms(2) by simp
  then show ?thesis using assms(2) by simp
qed

text \<open>
  C2. Two positions of live sequences never share a row of the pooled KV buffer, and every
  row lies inside the buffer: in a reachable pool the map from (live sequence, position) to
  physical rows is injective and bounded.
\<close>

theorem kv_rows_never_alias:
  assumes reach: "pool_reachable p"
    and h1: "validate p h1 = Ok" "pos1 < kv_seq_len (seq_of p h1)"
    and h2: "validate p h2 = Ok" "pos2 < kv_seq_len (seq_of p h2)"
  shows "kv_row p h1 pos1 < physical_block_count p * block_size p \<and>
    (kv_row p h1 pos1 = kv_row p h2 pos2 \<longrightarrow> h1 = h2 \<and> pos1 = pos2)"
proof
  let ?bs = "block_size p"
  note inv = pool_reachable_inv [OF reach]
  have bs: "0 < ?bs" by (rule pool_invD(1) [OF inv])
  have s: "handle_slot h1 < length (sequences p)" "handle_slot h2 < length (sequences p)"
    using h1(1) h2(1) by (auto simp: validate_Ok)
  note t1 = table_index [OF inv h1] and t2 = table_index [OF inv h2]
  have b1: "block_table (seq_of p h1) ! (pos1 div ?bs) \<in> set (owned_blocks (seq_of p h1))"
    and b2: "block_table (seq_of p h2) ! (pos2 div ?bs) \<in> set (owned_blocks (seq_of p h2))"
    using t1 t2 by (auto simp: owned_blocks_def)
  have "kv_row p h1 pos1 < (block_table (seq_of p h1) ! (pos1 div ?bs) + 1) * ?bs"
    using bs by (simp add: kv_row_eq)
  also have "\<dots> \<le> physical_block_count p * ?bs"
    using owned_distinct(2) [OF inv s(1) b1] by (intro mult_le_mono1) simp
  finally show "kv_row p h1 pos1 < physical_block_count p * ?bs" .
  show "kv_row p h1 pos1 = kv_row p h2 pos2 \<longrightarrow> h1 = h2 \<and> pos1 = pos2"
  proof
    assume "kv_row p h1 pos1 = kv_row p h2 pos2"
    with bs have eq: "block_table (seq_of p h1) ! (pos1 div ?bs) = block_table (seq_of p h2) ! (pos2 div ?bs)"
      "pos1 mod ?bs = pos2 mod ?bs"
      using row_decompose [OF bs, of _ "pos1 mod ?bs" _ "pos2 mod ?bs"] by (auto simp: kv_row_eq)
    have slot: "handle_slot h1 = handle_slot h2"
      using owned_disjoint [OF inv s] b1 b2 eq(1) by auto
    have "distinct (block_table (seq_of p h1))"
      using owned_distinct(1) [OF inv s(1)] by (simp add: owned_blocks_def)
    then have "pos1 div ?bs = pos2 div ?bs"
      using eq(1) slot t1 t2 by (simp add: nth_eq_iff_index_eq)
    then have "pos1 = pos2" using eq(2) by (metis div_mult_mod_eq)
    moreover have "h1 = h2" using h1(1) h2(1) slot by (simp add: validate_Ok)
    ultimately show "h1 = h2 \<and> pos1 = pos2" by simp
  qed
qed

section \<open>Append\<close>

lemma append_ok_fields:
  assumes "ar_status r = Ok" "append_rows p h n ofl = (r, p')" "pool_inv p" "0 < n"
  obtains s' free' where "validate p h = Ok" "kv_seq_len (seq_of p h) + n \<le> u32_max"
    "r = append_ok_result p s' (kv_seq_len (seq_of p h)) n ofl"
    "p' = put_sequence p (handle_slot h) (s'\<lparr>kv_seq_len := kv_seq_len (seq_of p h) + n\<rparr>) free'"
    "extends (ceil_div (kv_seq_len (seq_of p h) + n) (block_size p) - length (block_table (seq_of p h)))
       (seq_of p h) (free_blocks p) s' free'"
    "extend_block_table (seq_of p h) (free_blocks p)
       (ceil_div (kv_seq_len (seq_of p h) + n) (block_size p)) = (Ok, s', free')"
  using assms(3,2)
proof (cases rule: append_rows_cases)
  case (ok s' free')
  then show ?thesis using that by blast
qed (use assms(1,4) in \<open>auto simp: append_status_def\<close>)

lemma make_slot_cong: "block_table s = block_table s' \<Longrightarrow> block_size p = block_size p' \<Longrightarrow>
    make_slot p s pos = make_slot p' s' pos"
  by (simp add: make_slot_def Let_def)

lemma append_rows_effect:
  assumes inv: "pool_inv p" and eq: "append_rows p h n False = (r, p')"
    and ok: "ar_status r = Ok" and n: "0 < n"
  shows "length (ar_write_slots r) = n \<and> ar_token_count r = n \<and>
    kv_seq_len (seq_of p' h) = kv_seq_len (seq_of p h) + n \<and> validate p' h = Ok \<and>
    (\<forall>i < n. logical_position (ar_write_slots r ! i) = kv_seq_len (seq_of p h) + i \<and>
       physical_token_index (ar_write_slots r ! i) = kv_row p' h (kv_seq_len (seq_of p h) + i)) \<and>
    (\<forall>pos < kv_seq_len (seq_of p h). kv_row p' h pos = kv_row p h pos) \<and>
    (\<forall>j. j \<noteq> handle_slot h \<longrightarrow> sequences p' ! j = sequences p ! j)"
proof -
  obtain s' free' where v: "validate p h = Ok"
    and r: "r = append_ok_result p s' (kv_seq_len (seq_of p h)) n False"
    and p': "p' = put_sequence p (handle_slot h) (s'\<lparr>kv_seq_len := kv_seq_len (seq_of p h) + n\<rparr>) free'"
    and ext: "extends (ceil_div (kv_seq_len (seq_of p h) + n) (block_size p) - length (block_table (seq_of p h)))
       (seq_of p h) (free_blocks p) s' free'"
    using append_ok_fields [OF ok eq inv n] by blast
  have h: "handle_slot h < length (sequences p)" using v by (simp add: validate_Ok)
  have seq': "seq_of p' h = s'\<lparr>kv_seq_len := kv_seq_len (seq_of p h) + n\<rparr>" using h by (simp add: p')
  have new: "kv_row p' h pos = physical_token_index (make_slot p s' pos)" for pos
    unfolding kv_row_def seq' by (rule arg_cong [OF make_slot_cong]) (simp_all add: p')
  have old: "kv_row p' h pos = kv_row p h pos" if "pos < kv_seq_len (seq_of p h)" for pos
  proof -
    have "pos div block_size p < length (block_table (seq_of p h))"
      using table_index [OF inv v that] .
    moreover have "take (length (block_table (seq_of p h))) (block_table s') = block_table (seq_of p h)"
      using ext by (simp add: extends_def)
    ultimately have "block_table s' ! (pos div block_size p) = block_table (seq_of p h) ! (pos div block_size p)"
      by (metis nth_take)
    then show ?thesis unfolding new by (simp add: kv_row_eq make_slot_def Let_def)
  qed
  have "validate p' h = Ok"
    using v ext by (simp add: validate_Ok seq' p' extends_def)
  then show ?thesis
    using old new h by (simp add: r append_ok_result_def seq' p' make_slot_def Let_def)
qed

text \<open>
  C3. A successful append of \<open>n > 0\<close> tokens returns one destination per token, in logical
  order from the old length on, and each destination is the row the new block table assigns to
  that position. The rows of earlier positions stay where they were, the length grows by \<open>n\<close>,
  and no other sequence changes.
\<close>

theorem append_assigns_rows:
  assumes reach: "pool_reachable p" and eq: "append_rows p h n False = (r, p')"
    and ok: "ar_status r = Ok" and n: "0 < n"
  shows "length (ar_write_slots r) = n \<and> ar_token_count r = n \<and>
    kv_seq_len (seq_of p' h) = kv_seq_len (seq_of p h) + n \<and> validate p' h = Ok \<and>
    (\<forall>i < n. logical_position (ar_write_slots r ! i) = kv_seq_len (seq_of p h) + i \<and>
       physical_token_index (ar_write_slots r ! i) = kv_row p' h (kv_seq_len (seq_of p h) + i)) \<and>
    (\<forall>pos < kv_seq_len (seq_of p h). kv_row p' h pos = kv_row p h pos) \<and>
    (\<forall>j. j \<noteq> handle_slot h \<longrightarrow> sequences p' ! j = sequences p ! j)"
  by (rule append_rows_effect [OF pool_reachable_inv [OF reach] eq ok n])

text \<open>
  C7. Any status other than \<open>Ok\<close> leaves the pool exactly as it was, for every operation that
  reports a status.
\<close>

theorem failure_is_atomic:
  assumes "pool_reachable p"
  shows "(acquire_reserved p rid c out = (st, out', p') \<longrightarrow> st \<noteq> Ok \<longrightarrow> p' = p \<and> out' = out) \<and>
    (reserve_capacity p h c = (st, p') \<longrightarrow> st \<noteq> Ok \<longrightarrow> p' = p) \<and>
    (append_rows p h n ofl = (r, p') \<longrightarrow> ar_status r \<noteq> Ok \<longrightarrow> p' = p \<and> ar_write_slots r = []) \<and>
    (rollback_append p h n = (st, p') \<longrightarrow> st \<noteq> Ok \<longrightarrow> p' = p) \<and>
    (clear p h = (st, p') \<longrightarrow> st \<noteq> Ok \<longrightarrow> p' = p) \<and>
    (release p h = (st, p') \<longrightarrow> st \<noteq> Ok \<longrightarrow> p' = p)"
proof (intro conjI)
  note inv = pool_reachable_inv [OF assms]
  show "acquire_reserved p rid c out = (st, out', p') \<longrightarrow> st \<noteq> Ok \<longrightarrow> p' = p \<and> out' = out"
    using acquire_reserved_cases [OF inv] by metis
  show "reserve_capacity p h c = (st, p') \<longrightarrow> st \<noteq> Ok \<longrightarrow> p' = p"
    using reserve_capacity_cases [OF inv] by metis
  show "append_rows p h n ofl = (r, p') \<longrightarrow> ar_status r \<noteq> Ok \<longrightarrow> p' = p \<and> ar_write_slots r = []"
  proof (intro impI)
    assume eq: "append_rows p h n ofl = (r, p')" and "ar_status r \<noteq> Ok"
    from inv eq show "p' = p \<and> ar_write_slots r = []"
      by (cases rule: append_rows_cases)
        (use \<open>ar_status r \<noteq> Ok\<close> in \<open>auto simp: append_status_def append_ok_result_def\<close>)
  qed
  show "rollback_append p h n = (st, p') \<longrightarrow> st \<noteq> Ok \<longrightarrow> p' = p"
    by (auto simp: rollback_append_def Let_def split: if_splits)
  show "clear p h = (st, p') \<longrightarrow> st \<noteq> Ok \<longrightarrow> p' = p"
    by (auto simp: clear_def Let_def split: if_splits)
  show "release p h = (st, p') \<longrightarrow> st \<noteq> Ok \<longrightarrow> p' = p"
    using release_cases [OF inv] by metis
qed

section \<open>Reservations under interleaving\<close>

fun event_handle :: "pool_event \<Rightarrow> PagedKvSequenceHandle option" where
  "event_handle (Acquire rid c) = None"
| "event_handle (Reserve h c) = Some h"
| "event_handle (Append h n ofl) = Some h"
| "event_handle (Rollback h n) = Some h"
| "event_handle (Clear h) = Some h"
| "event_handle (Release h) = Some h"
| "event_handle Reset = None"

text \<open>An operation on a handle rewrites at most that handle's own slot.\<close>

lemma exec_on_handle:
  assumes inv: "pool_inv p" and e: "event_handle e = Some h"
  shows "pool_exec p e = p \<or> validate p h = Ok \<and> (\<exists>s'.
     sequences (pool_exec p e) = (sequences p)[handle_slot h := s'] \<and>
     generation s' = generation (seq_of p h) \<and>
     block_size (pool_exec p e) = block_size p)"
proof (cases e)
  case (Reserve h' c)
  obtain st p' where eq: "reserve_capacity p h c = (st, p')" by fastforce
  from inv eq show ?thesis
    by (cases rule: reserve_capacity_cases) (use e Reserve eq in \<open>auto simp: reserves_def\<close>)
next
  case (Append h' n ofl)
  obtain r p' where eq: "append_rows p h n ofl = (r, p')" by fastforce
  from inv eq show ?thesis
    by (cases rule: append_rows_cases) (use e Append eq in \<open>auto simp: extends_def\<close>)
next
  case (Rollback h' n)
  show ?thesis
  proof (cases "validate p h = Ok \<and> n \<le> kv_seq_len (seq_of p h)")
    case True
    then show ?thesis using rollback_append_ok(2) [OF inv] e Rollback by auto
  next
    case False
    then show ?thesis using e Rollback by (auto simp: rollback_append_def Let_def)
  qed
next
  case (Clear h')
  show ?thesis
  proof (cases "validate p h = Ok")
    case True
    from inv True show ?thesis by (cases rule: clear_ok) (use e Clear True in auto)
  qed (use e Clear clear_stale in auto)
next
  case (Release h')
  obtain st p' where eq: "release p h = (st, p')" by fastforce
  from inv eq show ?thesis
    by (cases rule: release_cases) (use e Release eq in auto)
qed (use e in auto)

lemma exec_acquire:
  assumes inv: "pool_inv p"
  shows "pool_exec p (Acquire rid c) = p \<or> (\<exists>i s'. i < length (sequences p) \<and> \<not> active (sequences p ! i) \<and>
     sequences (pool_exec p (Acquire rid c)) = (sequences p)[i := s'] \<and> active s' \<and>
     generation s' = next_generation (generation (sequences p ! i)) \<and>
     block_size (pool_exec p (Acquire rid c)) = block_size p)"
proof -
  obtain st out' p' where eq: "acquire_reserved p rid c default_handle = (st, out', p')"
    by (rule prod_cases3)
  from inv eq show ?thesis
    by (cases rule: acquire_reserved_cases) (use eq in \<open>auto simp: reserves_def\<close>)
qed

lemma exec_other:
  assumes inv: "pool_inv p" and v: "validate p h = Ok"
    and e: "event_handle e \<noteq> Some h" "e \<noteq> Reset"
  shows "seq_of (pool_exec p e) h = seq_of p h" "validate (pool_exec p e) h = Ok"
    "block_size (pool_exec p e) = block_size p"
proof -
  have *: "seq_of (pool_exec p e) h = seq_of p h \<and> length (sequences (pool_exec p e)) = length (sequences p)
      \<and> block_size (pool_exec p e) = block_size p"
  proof (cases "event_handle e")
    case None
    then obtain rid c where "e = Acquire rid c" using e(2) by (cases e) auto
    then show ?thesis
      using exec_acquire [OF inv, of rid c] v
      by (auto simp: validate_Ok nth_list_update)
  next
    case (Some h')
    then show ?thesis
      using exec_on_handle [OF inv Some] v e(1)
      by (cases "handle_slot h' = handle_slot h") (auto simp: validate_Ok)
  qed
  then show "seq_of (pool_exec p e) h = seq_of p h" "block_size (pool_exec p e) = block_size p" by auto
  from * v show "validate (pool_exec p e) h = Ok" by (simp add: validate_Ok)
qed

text \<open>
  The capacity invariant of a reservation: the blocks a sequence owns cover its length plus
  \<open>m\<close> further tokens.
\<close>

definition covers :: "PagedKvPool \<Rightarrow> PagedKvSequenceHandle \<Rightarrow> nat \<Rightarrow> bool" where
  "covers p h m \<longleftrightarrow> pool_inv p \<and> validate p h = Ok \<and>
     ceil_div (kv_seq_len (seq_of p h) + m) (block_size p) \<le> length (owned_blocks (seq_of p h))"

lemma covers_bound:
  assumes "covers p h m"
  shows "kv_seq_len (seq_of p h) + m \<le> u32_max"
proof -
  have inv: "pool_inv p" and h: "handle_slot h < length (sequences p)"
    using assms by (auto simp: covers_def validate_Ok)
  have "kv_seq_len (seq_of p h) + m \<le> ceil_div (kv_seq_len (seq_of p h) + m) (block_size p) * block_size p"
    by (rule le_ceil_div_mult [OF pool_invD(1) [OF inv]])
  also have "\<dots> \<le> physical_block_count p * block_size p"
    using assms free_owned_le [OF inv h] by (intro mult_le_mono1) (simp add: covers_def)
  also have "\<dots> \<le> u32_max" by (rule pool_invD(3) [OF inv])
  finally show ?thesis .
qed

lemma covers_append:
  assumes cov: "covers p h m" and n: "0 < n" "n \<le> m" and eq: "append_rows p h n ofl = (r, p')"
  shows "ar_status r = Ok" "covers p' h (m - n)"
proof -
  have inv: "pool_inv p" and v: "validate p h = Ok" using cov by (auto simp: covers_def)
  have h: "handle_slot h < length (sequences p)" using v by (simp add: validate_Ok)
  have le: "ceil_div (kv_seq_len (seq_of p h) + n) (block_size p) \<le> length (owned_blocks (seq_of p h))"
    using cov n ceil_div_mono [OF pool_invD(1) [OF inv], of "kv_seq_len (seq_of p h) + n" "kv_seq_len (seq_of p h) + m"]
    by (simp add: covers_def)
  from inv eq have "ar_status r = Ok \<and> covers p' h (m - n)"
  proof (cases rule: append_rows_cases)
    case (ok s' free')
    have inv': "pool_inv p'" by (rule append_rows_inv [OF inv eq])
    have "length (owned_blocks (seq_of p h)) = length (owned_blocks s') \<or> free' \<noteq> free_blocks p"
      using ok(6) by (auto simp: extends_def dest: arg_cong [of _ _ size])
    moreover have "free' = free_blocks p" using ok(6) le by (auto simp: extends_def length_owned)
    ultimately show ?thesis
      using ok cov inv' h n v by (auto simp: covers_def append_ok_result_def validate_Ok extends_def owned_blocks_def)
  qed (use v n le covers_bound [OF cov] in auto)
  then show "ar_status r = Ok" "covers p' h (m - n)" by auto
qed

fun appended :: "PagedKvSequenceHandle \<Rightarrow> pool_event list \<Rightarrow> nat" where
  "appended h [] = 0"
| "appended h (e # es) = (case e of Append h' n ofl \<Rightarrow> if h' = h then n else 0 | _ \<Rightarrow> 0) + appended h es"

fun appends_ok :: "PagedKvPool \<Rightarrow> PagedKvSequenceHandle \<Rightarrow> pool_event list \<Rightarrow> bool" where
  "appends_ok p h [] = True"
| "appends_ok p h (e # es) =
     ((case e of Append h' n ofl \<Rightarrow> h' = h \<longrightarrow> ar_status (fst (append_rows p h n ofl)) = Ok | _ \<Rightarrow> True) \<and>
      appends_ok (pool_exec p e) h es)"

definition foreign_or_append :: "PagedKvSequenceHandle \<Rightarrow> pool_event \<Rightarrow> bool" where
  "foreign_or_append h e \<longleftrightarrow> (\<exists>n ofl. e = Append h n ofl) \<or> event_handle e \<noteq> Some h \<and> e \<noteq> Reset"

lemma appends_ok_covers:
  "covers p h m \<Longrightarrow> appended h es \<le> m \<Longrightarrow> \<forall>e \<in> set es. foreign_or_append h e \<Longrightarrow> appends_ok p h es"
proof (induction es arbitrary: p m)
  case (Cons e es)
  show ?case
  proof (cases "\<exists>n ofl. e = Append h n ofl")
    case True
    then obtain n ofl where e: "e = Append h n ofl" by blast
    obtain r p' where eq: "append_rows p h n ofl = (r, p')" by fastforce
    show ?thesis
    proof (cases "n = 0")
      case True
      then have "r = append_status Ok" "p' = p"
        using eq Cons.prems(1) by (auto simp: append_rows_def covers_def)
      then show ?thesis using Cons e eq True by (auto simp: append_status_def)
    next
      case False
      then have "ar_status r = Ok" "covers p' h (m - n)"
        using covers_append [OF Cons.prems(1) _ _ eq] Cons.prems(2) e by auto
      then show ?thesis using Cons.IH [of p' "m - n"] Cons.prems e eq by auto
    qed
  next
    case False
    then have f: "event_handle e \<noteq> Some h" "e \<noteq> Reset" using Cons.prems(3) by (auto simp: foreign_or_append_def)
    have inv: "pool_inv p" and v: "validate p h = Ok" using Cons.prems(1) by (auto simp: covers_def)
    have "covers (pool_exec p e) h m"
      using Cons.prems(1) exec_other [OF inv v f] pool_exec_inv [OF inv, of e] by (simp add: covers_def)
    moreover have "\<not> (\<exists>n ofl. e = Append h n ofl)" by (rule False)
    ultimately show ?thesis using Cons.IH [of "pool_exec p e" m] Cons.prems by (auto split: pool_event.splits)
  qed
qed simp

text \<open>
  C8. Admission cannot strand a prompt: once \<open>acquire_reserved\<close> has succeeded for
  \<open>c\<close> tokens, every append of the admitted sequence succeeds up to \<open>c\<close> tokens in total, however
  the appends are chunked and whatever operations of other sequences (including new
  admissions that drain the free list) come in between.
\<close>

theorem reservation_never_stranded:
  assumes reach: "pool_reachable p" and acq: "acquire_reserved p rid c out = (Ok, h, p1)"
    and tot: "appended h es \<le> c" and es: "\<forall>e \<in> set es. foreign_or_append h e"
  shows "appends_ok p1 h es"
proof (rule appends_ok_covers [OF _ tot es])
  note inv = pool_reachable_inv [OF reach]
  from inv acq show "covers p1 h c"
  proof (cases rule: acquire_reserved_cases)
    case (ok i slots' s' free')
    have "kv_seq_len (sequences p ! i) = 0" using pool_invD(5) [OF inv ok(5)] ok(6) by (simp add: seq_inv_def)
    then show ?thesis
      using ok acquire_reserved_inv [OF inv acq]
      by (auto simp: covers_def validate_Ok reserves_def owned_blocks_def)
  qed auto
qed

section \<open>Rollback and retry\<close>

lemma extend_retry_block_table:
  assumes "length (block_table s) + length new \<le> u32_max" "retry_blocks s = R @ rev new"
  shows "extend_block_table s free (length (block_table s) + length new) =
    (Ok, s\<lparr>block_table := block_table s @ new, retry_blocks := R\<rparr>, free)"
proof (cases "new = []")
  case True
  then show ?thesis using assms by (simp add: extend_block_table_def)
next
  case False
  have "s = s\<lparr>retry_blocks := R @ rev new\<rparr>" using assms(2) by (cases s) simp
  then have "extend_loop (length new) s free = (s\<lparr>block_table := block_table s @ new, retry_blocks := R\<rparr>, free)"
    using extend_loop_retry [where new = new and s = s and R = R and free = free] by simp
  then show ?thesis using assms False by (simp add: extend_block_table_def Let_def)
qed

lemma rollback_retry_inv:
  assumes inv: "pool_inv p" and eq: "append_rows p h n ofl = (r, p1)"
    and ok: "ar_status r = Ok" and n: "0 < n"
  shows "\<exists>p2. rollback_append p1 h n = (Ok, p2) \<and> append_rows p2 h n ofl = (r, p1)"
proof -
  let ?s = "seq_of p h" and ?L = "kv_seq_len (seq_of p h)" and ?bs = "block_size p" and ?i = "handle_slot h"
  obtain s' free' where v: "validate p h = Ok" and bound: "?L + n \<le> u32_max"
    and r: "r = append_ok_result p s' ?L n ofl"
    and p1: "p1 = put_sequence p ?i (s'\<lparr>kv_seq_len := ?L + n\<rparr>) free'"
    and ext: "extends (ceil_div (?L + n) ?bs - length (block_table ?s)) ?s (free_blocks p) s' free'"
    using append_ok_fields [OF ok eq inv n] by blast
  have h: "?i < length (sequences p)" using v by (simp add: validate_Ok)
  have inv1: "pool_inv p1" by (rule append_rows_inv [OF inv eq])
  have bt: "length (block_table ?s) = ceil_div ?L ?bs"
    using pool_invD(5) [OF inv h] by (simp add: seq_inv_def)
  define new where "new = drop (length (block_table ?s)) (block_table s')"
  have bt': "block_table s' = block_table ?s @ new"
    using ext unfolding new_def extends_def by (metis append_take_drop_id)
  have len: "length (block_table ?s) + length new = ceil_div (?L + n) ?bs"
    using ext bt ceil_div_mono [OF pool_invD(1) [OF inv], of ?L "?L + n"] by (simp add: bt' extends_def)
  define s2 where "s2 = s'\<lparr>block_table := block_table ?s,
      retry_blocks := retry_blocks s' @ rev new, kv_seq_len := ?L\<rparr>"
  have v1: "validate p1 h = Ok" using v h ext by (simp add: p1 validate_Ok extends_def)
  have rb: "rollback_append p1 h n = (Ok, put_sequence p1 ?i s2 free')"
    using rollback_append_ok(2) [OF inv1 v1, of n] h bt by (simp add: p1 s2_def bt')
  define p2 where "p2 = put_sequence p1 ?i s2 free'"
  have p2: "seq_of p2 h = s2" "block_size p2 = ?bs" "free_blocks p2 = free'"
    "\<And>x. put_sequence p2 ?i x free' = put_sequence p1 ?i x free'"
    using h by (simp_all add: p2_def p1 put_sequence_def)
  have "validate p2 h = Ok" using v1 h ext by (simp add: p2_def p1 s2_def validate_Ok)
  moreover have "length (block_table s2) + length new \<le> u32_max"
    using owned_le_u32 [OF inv1, of ?i] h by (simp add: p1 s2_def length_owned bt')
  then have "extend_block_table s2 free' (ceil_div (?L + n) ?bs) =
      (Ok, s2\<lparr>block_table := block_table ?s @ new, retry_blocks := retry_blocks s'\<rparr>, free')"
    using extend_retry_block_table [of s2 new "retry_blocks s'" free'] len by (simp add: s2_def)
  moreover have "s2\<lparr>block_table := block_table ?s @ new, retry_blocks := retry_blocks s', kv_seq_len := ?L + n\<rparr>
      = s'\<lparr>kv_seq_len := ?L + n\<rparr>"
    by (simp add: s2_def bt' [symmetric])
  moreover have "make_slot p2 (s2\<lparr>block_table := block_table ?s @ new, retry_blocks := retry_blocks s'\<rparr>) pos
      = make_slot p s' pos" for pos
    by (rule make_slot_cong) (simp_all add: p2 bt')
  moreover have "\<not> n > u32_max - ?L" using bound by linarith
  moreover have "kv_seq_len s2 = ?L" by (simp add: s2_def)
  ultimately have "append_rows p2 h n ofl = (r, put_sequence p1 ?i (s'\<lparr>kv_seq_len := ?L + n\<rparr>) free')"
    using n by (simp add: append_rows_def Let_def p2 blocks_for_tokens_ceil r append_ok_result_def append_status_def)
  also have "put_sequence p1 ?i (s'\<lparr>kv_seq_len := ?L + n\<rparr>) free' = p1" by (simp add: p1 put_sequence_def)
  finally show ?thesis using rb p2_def by blast
qed

text \<open>
  C9. Rolling back an append and repeating it reproduces it exactly: the rollback succeeds,
  the retried append returns the same rows, and the pool is the one the first append left.
\<close>

theorem rollback_then_retry:
  assumes reach: "pool_reachable p" and eq: "append_rows p h n ofl = (r, p1)"
    and ok: "ar_status r = Ok" and n: "0 < n"
  shows "\<exists>p2. rollback_append p1 h n = (Ok, p2) \<and> append_rows p2 h n ofl = (r, p1)"
  by (rule rollback_retry_inv [OF pool_reachable_inv [OF reach] eq ok n])

section \<open>Dense allocation from an idle pool\<close>

lemma take_reserved_range:
  "take_reserved_blocks n s free = (s', free') \<Longrightarrow> n \<le> m - j \<Longrightarrow> is_heap (>) free \<Longrightarrow>
     mset free = mset [j..<m] \<Longrightarrow> mset (reserved_blocks s) = mset [0..<j] \<Longrightarrow>
     mset free' = mset [j + n..<m] \<and> mset (reserved_blocks s') = mset [0..<j + n]"
proof (induction n s free arbitrary: s' free' j rule: take_reserved_blocks.induct)
  case (2 n s free)
  obtain b free1 where t: "take_lowest free = (b, free1)" by fastforce
  note range = free_list.take_from_range [OF "2.prems"(3,4) _ t]
  have "mset (give_back (reserved_blocks s) b) = mset [0..<Suc j]"
    using "2.prems"(2,5) range by (simp add: free_list.give_mset upt_conv_Cons del: mset_upt)
  then show ?case
    using "2.IH" [OF t [symmetric] refl, where j = "Suc j"] "2.prems" range t by (simp del: mset_upt)
qed simp

lemma extend_loop_range:
  "extend_loop n s free = (s', free') \<Longrightarrow> retry_blocks s = [] \<Longrightarrow> block_table s = [0..<a] \<Longrightarrow>
     mset (reserved_blocks s) = mset [a..<k] \<Longrightarrow> mset free = mset [max a k..<m] \<Longrightarrow>
     is_heap (>) (reserved_blocks s) \<Longrightarrow> is_heap (>) free \<Longrightarrow> a + n \<le> m \<Longrightarrow>
     block_table s' = [0..<a + n]"
proof (induction n s free arbitrary: s' free' a rule: extend_loop.induct)
  case (2 n s free)
  show ?case
  proof (cases "a < k")
    case True
    obtain b rest where t: "take_lowest (reserved_blocks s) = (b, rest)" by fastforce
    note range = free_list.take_from_range [OF "2.prems"(6,4) True t]
    have ne: "reserved_blocks s \<noteq> []" using "2.prems"(4) True by (auto simp: mset_set_empty_iff)
    let ?s = "s\<lparr>block_table := block_table s @ [b], reserved_blocks := rest\<rparr>"
    have "block_table s' = [0..<Suc a + n]"
      by (rule "2.IH"(3) [OF _ ne t [symmetric] refl, where a = "Suc a"])
        (use "2.prems" range t ne True in \<open>auto simp: max_def simp del: mset_upt\<close>)
    then show ?thesis by simp
  next
    case False
    then have none: "reserved_blocks s = []" using "2.prems"(4) by simp
    obtain b free1 where t: "take_lowest free = (b, free1)" by fastforce
    have m: "max a k = a" using False by simp
    note range = free_list.take_from_range [OF "2.prems"(7,5) _ t, unfolded m]
    let ?s = "s\<lparr>block_table := block_table s @ [b]\<rparr>"
    have "block_table s' = [0..<Suc a + n]"
      by (rule "2.IH"(2) [OF _ none t [symmetric] refl, where a = "Suc a"])
        (use "2.prems" range t none False in \<open>auto simp: max_def simp del: mset_upt\<close>)
    then show ?thesis by simp
  qed
qed simp

lemma idle_free_blocks:
  assumes inv: "pool_inv p" and idle: "\<forall>s \<in> set (sequences p). \<not> active s"
  shows "mset (free_blocks p) = mset [0..<physical_block_count p]"
proof -
  have "sum_list (map (\<lambda>s. mset (owned_blocks s)) xs) = {#}"
    if "\<forall>s \<in> set xs. owned_blocks s = []" for xs using that by (induction xs) auto
  moreover have "\<forall>s \<in> set (sequences p). owned_blocks s = []" using inv idle by (auto simp: pool_inv_def seq_inv_def)
  ultimately show ?thesis using pool_invD(8) [OF inv] by (simp del: mset_upt)
qed

lemma idle_acquire:
  assumes inv: "pool_inv p" and idle: "\<forall>s \<in> set (sequences p). \<not> active s"
    and acq: "acquire_reserved p rid c out = (Ok, h, p1)"
  defines "k \<equiv> ceil_div c (block_size p)" and "m \<equiv> physical_block_count p"
  shows "k \<le> m" "block_size p1 = block_size p" "block_table (seq_of p1 h) = []"
    "retry_blocks (seq_of p1 h) = []" "kv_seq_len (seq_of p1 h) = 0"
    "mset (reserved_blocks (seq_of p1 h)) = mset [0..<k]" "mset (free_blocks p1) = mset [k..<m]"
proof -
  from inv acq have "k \<le> m \<and> block_size p1 = block_size p \<and> block_table (seq_of p1 h) = [] \<and>
    retry_blocks (seq_of p1 h) = [] \<and> kv_seq_len (seq_of p1 h) = 0 \<and>
    mset (reserved_blocks (seq_of p1 h)) = mset [0..<k] \<and> mset (free_blocks p1) = mset [k..<m]"
  proof (cases rule: acquire_reserved_cases)
    case (ok j slots' s' free')
    let ?s = "(sequences p ! j)\<lparr>request_id := rid,
            generation := next_generation (generation (sequences p ! j)), active := True\<rparr>"
    have empty: "owned_blocks (sequences p ! j) = []" "kv_seq_len (sequences p ! j) = 0"
      using pool_invD(5) [OF inv ok(5)] ok(6) by (auto simp: seq_inv_def)
    have km: "k \<le> m" using ok(10) free_le [OF inv] by (simp add: k_def m_def)
    obtain s0 f0 where t: "take_reserved_blocks k ?s (free_blocks p) = (s0, f0)" by fastforce
    have "p1 = (put_sequence p j s0 f0)\<lparr>free_sequence_slots := slots',
            request_to_slot := (request_to_slot p)(rid \<mapsto> j)\<rparr>"
      using acq ok(2,3,4,10) t by (auto simp: acquire_reserved_def Let_def blocks_for_tokens_ceil k_def)
    then have p1: "seq_of p1 h = s0" "free_blocks p1 = f0" "block_size p1 = block_size p"
      using ok(5,7) by auto
    have heaps: "is_heap (>) (reserved_blocks ?s)" using pool_invD(5) [OF inv ok(5)] by (simp add: seq_inv_def)
    have "mset f0 = mset [k..<m]" "mset (reserved_blocks s0) = mset [0..<k]"
      using take_reserved_range [OF t _ pool_invD(6) [OF inv] idle_free_blocks [OF inv idle]] empty km
      by (auto simp: owned_blocks_def m_def)
    then show ?thesis
      using p1 km empty take_reserved_blocks_spec [OF t ok(10) [folded k_def] pool_invD(6) [OF inv] heaps]
      by (auto simp: reserves_def owned_blocks_def)
  qed auto
  then show "k \<le> m" "block_size p1 = block_size p" "block_table (seq_of p1 h) = []"
    "retry_blocks (seq_of p1 h) = []" "kv_seq_len (seq_of p1 h) = 0"
    "mset (reserved_blocks (seq_of p1 h)) = mset [0..<k]" "mset (free_blocks p1) = mset [k..<m]"
    by blast+
qed

text \<open>
  A pool with no live sequence (fresh, reset, or fully drained) hands out blocks in
  ascending order: after an admission, with or without a reservation, the \<open>i\<close>-th appended token is
  written to row \<open>i\<close> of the KV buffer. The dense prefill path relies on this.
\<close>

theorem idle_pool_allocates_densely:
  assumes reach: "pool_reachable p" and idle: "\<forall>s \<in> set (sequences p). \<not> active s"
    and acq: "acquire_reserved p rid c out = (Ok, h, p1)"
    and app: "append_rows p1 h n False = (r, p2)" and ok: "ar_status r = Ok" and i: "i < n"
  shows "physical_token_index (ar_write_slots r ! i) = i"
proof -
  note inv = pool_reachable_inv [OF reach]
  note inv1 = acquire_reserved_inv [OF inv acq] and q = idle_acquire [OF inv idle acq]
  let ?s0 = "seq_of p1 h" and ?a = "ceil_div n (block_size p)" and ?m = "physical_block_count p"
  from i have "0 < n" by simp
  then obtain s1 f1 where v1: "validate p1 h = Ok"
    and r: "r = append_ok_result p1 s1 (kv_seq_len ?s0) n False"
    and eb: "extend_block_table ?s0 (free_blocks p1) (ceil_div (kv_seq_len ?s0 + n) (block_size p1)) = (Ok, s1, f1)"
    using append_ok_fields [OF ok app inv1] by metis
  have len: "length (free_blocks p1) = ?m - ceil_div c (block_size p)"
    "length (reserved_blocks ?s0) = ceil_div c (block_size p)"
    using mset_eq_length [OF q(6)] mset_eq_length [OF q(7)] by auto
  have loop: "extend_loop ?a ?s0 (free_blocks p1) = (s1, f1)" and am: "?a \<le> ?m"
    using eb q(1-5) len by (auto simp: extend_block_table_def Let_def split: if_splits)
  have heaps: "is_heap (>) (reserved_blocks ?s0)" "is_heap (>) (free_blocks p1)"
    using pool_invD(5,6) [OF inv1] v1 by (auto simp: seq_inv_def validate_Ok)
  have "block_table s1 = [0..<0 + ?a]"
    by (rule extend_loop_range [OF loop q(4) _ q(6) _ heaps, where m = ?m])
      (use q am in \<open>auto simp del: mset_upt\<close>)
  moreover have "i div block_size p < ?a" using div_less_ceil_div [OF pool_invD(1) [OF inv] i] .
  ultimately show ?thesis
    using i by (simp add: r append_ok_result_def q make_slot_def Let_def)
qed

section \<open>Stale handles\<close>

lemma next_generation_nonzero [simp]: "next_generation g \<noteq> 0"
  by (simp add: next_generation_def)

text \<open>On the non-zero words the generation counter is a cycle of length \<open>2^64 - 1\<close>.\<close>

lemma unat_bound64: "unat (g :: u64) < 2 ^ 64"
  using unsigned_less [of g] by simp

lemma unat_next_generation:
  assumes "g \<noteq> 0"
  shows "unat (next_generation g) - 1 = Suc (unat g - 1) mod (2 ^ 64 - 1)"
proof -
  have g: "0 < unat g" using assms by (simp add: unat_gt_0)
  have lt: "unat g < 2 ^ 64" by (rule unat_bound64)
  show ?thesis
  proof (cases "g + 1 = 0")
    case True
    then have "g = - 1" by (simp add: eq_neg_iff_add_eq_0)
    then have "unat g = 2 ^ 64 - 1" by (simp add: unsigned_minus_1_eq_mask mask_eq_exp_minus_1)
    then show ?thesis using True by (simp add: next_generation_def)
  next
    case False
    then have "unat (g + 1) = Suc (unat g)" by (metis Suc_eq_plus1 add.commute unatSuc)
    moreover from this have "Suc (unat g) < 2 ^ 64" using unat_bound64 [of "g + 1"] by simp
    ultimately show ?thesis using False g by (simp add: next_generation_def)
  qed
qed

lemma generation_iterate:
  assumes "g \<noteq> 0"
  shows "unat ((next_generation ^^ k) g) - 1 = (unat g - 1 + k) mod (2 ^ 64 - 1) \<and> (next_generation ^^ k) g \<noteq> 0"
proof (induction k)
  case 0
  have "unat g - 1 < 2 ^ 64 - 1" using unat_bound64 [of g] assms by (simp add: unat_gt_0)
  then show ?case using assms by simp
next
  case (Suc k)
  then show ?case
    using unat_next_generation [of "(next_generation ^^ k) g"] by (simp add: mod_Suc_eq)
qed

lemma generation_no_repeat:
  assumes "g \<noteq> 0" "0 < k" "k < 2 ^ 64 - 1"
  shows "(next_generation ^^ k) g \<noteq> g"
proof
  assume "(next_generation ^^ k) g = g"
  then have "unat g - 1 = (unat g - 1 + k) mod (2 ^ 64 - 1)"
    using generation_iterate [OF assms(1), of k] by simp
  then have "(unat g - 1) mod (2 ^ 64 - 1) = (unat g - 1 + k) mod (2 ^ 64 - 1)" by (metis mod_mod_trivial)
  then have "(2 ^ 64 - 1) dvd k"
    by (metis add_diff_cancel_left' le_add1 mod_eq_dvd_iff_nat)
  then show False using assms(2,3) by (simp add: nat_dvd_not_less)
qed

lemma exec_length:
  assumes inv: "pool_inv p"
  shows "length (sequences (pool_exec p e)) = length (sequences p)"
proof (cases "event_handle e")
  case (Some h)
  then show ?thesis using exec_on_handle [OF inv Some] by auto
next
  case None
  then consider (acq) rid c where "e = Acquire rid c" | "e = Reset" by (cases e) auto
  then show ?thesis
  proof cases
    case acq
    then show ?thesis using exec_acquire [OF inv, of rid c] by auto
  qed (simp add: reset_def)
qed

lemma exec_generation:
  assumes inv: "pool_inv p" and i: "i < length (sequences p)"
  shows "length (sequences (pool_exec p e)) = length (sequences p) \<and>
    (generation (sequences (pool_exec p e) ! i) = generation (sequences p ! i) \<and>
       (active (sequences (pool_exec p e) ! i) \<longrightarrow> active (sequences p ! i)) \<or>
     (\<exists>rid c. e = Acquire rid c) \<and>
       generation (sequences (pool_exec p e) ! i) = next_generation (generation (sequences p ! i)))"
proof (cases "event_handle e")
  case (Some h)
  then show ?thesis
    using exec_on_handle [OF inv Some] i
    by (cases "handle_slot h = i") (auto simp: validate_Ok)
next
  case None
  then consider (acq) rid c where "e = Acquire rid c" | "e = Reset" by (cases e) auto
  then show ?thesis
  proof cases
    case acq
    then show ?thesis using exec_acquire [OF inv, of rid c] i by (auto simp: nth_list_update split: if_splits)
  qed (use i in \<open>simp add: reset_def\<close>)
qed

fun acquisitions :: "pool_event list \<Rightarrow> nat" where
  "acquisitions [] = 0"
| "acquisitions (e # es) = (case e of Acquire rid c \<Rightarrow> 1 | _ \<Rightarrow> 0) + acquisitions es"

lemma run_generation:
  "pool_inv p \<Longrightarrow> i < length (sequences p) \<Longrightarrow>
   \<exists>k \<le> acquisitions es. generation (sequences (pool_run p es) ! i) = (next_generation ^^ k) (generation (sequences p ! i)) \<and>
     (k = 0 \<longrightarrow> active (sequences (pool_run p es) ! i) \<longrightarrow> active (sequences p ! i))"
proof (induction es arbitrary: p)
  case (Cons e es)
  let ?p = "pool_exec p e"
  have i': "i < length (sequences ?p)" using exec_generation [OF Cons.prems, of e] Cons.prems by simp
  obtain k where k: "k \<le> acquisitions es"
    "generation (sequences (pool_run ?p es) ! i) = (next_generation ^^ k) (generation (sequences ?p ! i))"
    "k = 0 \<longrightarrow> active (sequences (pool_run ?p es) ! i) \<longrightarrow> active (sequences ?p ! i)"
    using Cons.IH [OF pool_exec_inv [OF Cons.prems(1), of e] i'] by blast
  from exec_generation [OF Cons.prems, of e] show ?case
  proof (elim conjE disjE)
    assume "generation (sequences ?p ! i) = generation (sequences p ! i)"
      "active (sequences ?p ! i) \<longrightarrow> active (sequences p ! i)"
    then show ?thesis using k by (intro exI [of _ k]) auto
  next
    assume "\<exists>rid c. e = Acquire rid c"
      "generation (sequences ?p ! i) = next_generation (generation (sequences p ! i))"
    then show ?thesis
      using k by (intro exI [of _ "Suc k"]) (auto simp: funpow_swap1)
  qed
qed simp

text \<open>Live sequences never carry the reserved generation 0.\<close>

lemma reachable_generation_nonzero:
  "pool_reachable p \<Longrightarrow> \<forall>i < length (sequences p). active (sequences p ! i) \<longrightarrow> generation (sequences p ! i) \<noteq> 0"
proof (induction rule: pool_reachable.induct)
  case (start n_blocks max_seqs bsize p)
  then show ?case by (auto simp: new_pool_def fresh_sequence_def split: if_splits)
next
  case (step p e)
  note gen = exec_generation [OF pool_reachable_inv [OF step.hyps], where e = e]
  show ?case
  proof (intro allI impI)
    fix i assume i: "i < length (sequences (pool_exec p e))" and act: "active (sequences (pool_exec p e) ! i)"
    then have "i < length (sequences p)"
      using exec_length [OF pool_reachable_inv [OF step.hyps], of e] by simp
    then show "generation (sequences (pool_exec p e) ! i) \<noteq> 0"
      using gen [of i] act step.IH by auto
  qed
qed

text \<open>
  C10. A released handle stays stale: after \<open>release\<close> succeeds, no sequence of operations makes
  the old handle valid again, even when its slot is re-acquired, as long as fewer than
  \<open>2^64 - 1\<close> acquisitions follow (the generation counter wraps only then).
\<close>

theorem released_handle_stays_stale:
  assumes reach: "pool_reachable p" and rel: "release p h = (Ok, p1)"
    and few: "acquisitions es < 2 ^ 64 - 1"
  shows "validate (pool_run p1 es) h = StaleHandle"
proof -
  note inv = pool_reachable_inv [OF reach]
  note inv1 = release_inv [OF inv rel]
  let ?i = "handle_slot h"
  obtain v: "validate p h = Ok" and s1: "\<not> active (seq_of p1 h)" "generation (seq_of p1 h) = handle_generation h"
    "length (sequences p1) = length (sequences p)"
    using inv rel by (cases rule: release_cases) (auto simp: validate_Ok)
  have i: "?i < length (sequences p1)" using v s1 by (simp add: validate_Ok)
  have g: "handle_generation h \<noteq> 0" using reachable_generation_nonzero [OF reach] v by (auto simp: validate_Ok)
  obtain k where k: "k \<le> acquisitions es"
    "generation (seq_of (pool_run p1 es) h) = (next_generation ^^ k) (handle_generation h)"
    "k = 0 \<longrightarrow> \<not> active (seq_of (pool_run p1 es) h)"
    using run_generation [OF inv1 i, of es] s1 by auto
  have "k = 0 \<or> (next_generation ^^ k) (handle_generation h) \<noteq> handle_generation h"
    using generation_no_repeat [OF g] k(1) few by auto
  then have "validate (pool_run p1 es) h \<noteq> Ok" using k by (auto simp: validate_Ok)
  then show ?thesis by (simp add: validate_not_Ok)
qed

section \<open>Witnesses\<close>

text \<open>A pool of four two-row blocks serving two sequences, after an acquisition, an append and a second acquisition.\<close>

definition demo_pool :: PagedKvPool where
  "demo_pool = the (new_pool 4 2 2)"

definition demo_handle :: "nat \<Rightarrow> u64 \<Rightarrow> PagedKvSequenceHandle" where
  "demo_handle i g = \<lparr>handle_slot = i, handle_generation = g\<rparr>"

definition demo_busy :: PagedKvPool where
  "demo_busy = pool_run demo_pool [Acquire 7 4, Append (demo_handle 0 1) 3 False, Acquire 8 2, Append (demo_handle 1 1) 2 False]"

lemma demo_pool_reachable: "pool_reachable demo_pool"
proof -
  have "new_pool 4 2 2 \<noteq> None" by code_simp
  then have "new_pool 4 2 2 = Some demo_pool" by (auto simp: demo_pool_def)
  then show ?thesis by (rule pool_reachable.start) (simp add: u32_max_def)
qed

lemma pool_reachable_run: "pool_reachable p \<Longrightarrow> pool_reachable (pool_run p es)"
  by (induction es arbitrary: p) (auto intro: pool_reachable.step)

lemma demo_busy_reachable: "pool_reachable demo_busy"
  unfolding demo_busy_def by (rule pool_reachable_run [OF demo_pool_reachable])

theorem blocks_partition_witness:
  "distinct (free_blocks demo_busy @ concat (map owned_blocks (sequences demo_busy))) \<and>
   concat (map owned_blocks (sequences demo_busy)) = [0, 1, 2]"
  using blocks_partition [OF demo_busy_reachable] by (intro conjI) (blast, code_simp)

theorem kv_rows_never_alias_witness:
  "kv_row demo_busy (demo_handle 0 1) 2 = 2 \<and> kv_row demo_busy (demo_handle 1 1) 1 = 5 \<and>
   kv_row demo_busy (demo_handle 0 1) 2 < physical_block_count demo_busy * block_size demo_busy"
proof -
  have "validate demo_busy (demo_handle 0 1) = Ok" "2 < kv_seq_len (seq_of demo_busy (demo_handle 0 1))"
    "validate demo_busy (demo_handle 1 1) = Ok" "1 < kv_seq_len (seq_of demo_busy (demo_handle 1 1))"
    by code_simp+
  note kv_rows_never_alias [OF demo_busy_reachable this]
  moreover have "kv_row demo_busy (demo_handle 0 1) 2 = 2" "kv_row demo_busy (demo_handle 1 1) 1 = 5" by code_simp+
  ultimately show ?thesis by blast
qed

theorem append_assigns_rows_witness:
  "length (ar_write_slots (fst (append_rows demo_busy (demo_handle 0 1) 1 False))) = 1 \<and>
   kv_seq_len (seq_of (snd (append_rows demo_busy (demo_handle 0 1) 1 False)) (demo_handle 0 1)) = 4"
proof -
  have "ar_status (fst (append_rows demo_busy (demo_handle 0 1) 1 False)) = Ok"
    "kv_seq_len (seq_of demo_busy (demo_handle 0 1)) = 3" by code_simp+
  then show ?thesis
    using append_assigns_rows [OF demo_busy_reachable prod.collapse [symmetric], of "demo_handle 0 1" 1] by simp
qed

theorem failure_is_atomic_witness:
  "fst (acquire_reserved demo_busy 9 1 (demo_handle 5 5)) \<noteq> Ok \<and>
   snd (snd (acquire_reserved demo_busy 9 1 (demo_handle 5 5))) = demo_busy \<and>
   ar_status (fst (append_rows demo_busy (demo_handle 0 1) 4 False)) = BlocksExhausted \<and>
   snd (append_rows demo_busy (demo_handle 0 1) 4 False) = demo_busy"
proof -
  have "fst (acquire_reserved demo_busy 9 1 (demo_handle 5 5)) \<noteq> Ok"
    "ar_status (fst (append_rows demo_busy (demo_handle 0 1) 4 False)) = BlocksExhausted" by code_simp+
  with failure_is_atomic [OF demo_busy_reachable, of 9 1 "demo_handle 5 5"]
    failure_is_atomic [OF demo_busy_reachable, where h = "demo_handle 0 1" and n = 4 and ofl = False]
  show ?thesis by (metis PagedKvStatus.distinct(13) PagedKvStatus.simps(8) prod.collapse)
qed

theorem reservation_never_stranded_witness:
  "appends_ok (pool_exec demo_pool (Acquire 7 4)) (demo_handle 0 1)
     [Append (demo_handle 0 1) 3 False, Acquire 8 2, Append (demo_handle 1 1) 2 False, Append (demo_handle 0 1) 1 True]"
proof -
  have *: "fst (acquire_reserved demo_pool 7 4 default_handle) = Ok"
    "fst (snd (acquire_reserved demo_pool 7 4 default_handle)) = demo_handle 0 1" by code_simp+
  have "acquire_reserved demo_pool 7 4 default_handle = (Ok, demo_handle 0 1, pool_exec demo_pool (Acquire 7 4))"
    using * by (metis pool_exec.simps(1) prod.collapse)
  then show ?thesis
    by (rule reservation_never_stranded [OF demo_pool_reachable])
      (code_simp, auto simp: foreign_or_append_def demo_handle_def)
qed

theorem rollback_then_retry_witness:
  "\<exists>p2. rollback_append (snd (append_rows demo_busy (demo_handle 0 1) 1 False)) (demo_handle 0 1) 1 = (Ok, p2) \<and>
     append_rows p2 (demo_handle 0 1) 1 False = append_rows demo_busy (demo_handle 0 1) 1 False"
proof -
  have "ar_status (fst (append_rows demo_busy (demo_handle 0 1) 1 False)) = Ok" by code_simp
  then show ?thesis
    using rollback_then_retry [OF demo_busy_reachable prod.collapse [symmetric], of "demo_handle 0 1" 1] by simp
qed

theorem idle_pool_allocates_densely_witness:
  "physical_token_index (ar_write_slots (fst (append_rows (pool_exec demo_pool (Acquire 7 4)) (demo_handle 0 1) 3 False)) ! 2) = 2"
proof -
  have *: "fst (acquire_reserved demo_pool 7 4 default_handle) = Ok"
    "fst (snd (acquire_reserved demo_pool 7 4 default_handle)) = demo_handle 0 1" by code_simp+
  have acq: "acquire_reserved demo_pool 7 4 default_handle = (Ok, demo_handle 0 1, pool_exec demo_pool (Acquire 7 4))"
    using * by (metis pool_exec.simps(1) prod.collapse)
  have "\<forall>s \<in> set (sequences demo_pool). \<not> active s"
    "ar_status (fst (append_rows (pool_exec demo_pool (Acquire 7 4)) (demo_handle 0 1) 3 False)) = Ok" by code_simp+
  then show ?thesis
    using idle_pool_allocates_densely [OF demo_pool_reachable _ acq prod.collapse [symmetric]] by simp
qed

theorem released_handle_stays_stale_witness:
  "validate (pool_run (snd (release demo_busy (demo_handle 0 1))) [Acquire 9 1]) (demo_handle 0 1) = StaleHandle"
proof -
  have "fst (release demo_busy (demo_handle 0 1)) = Ok" "acquisitions [Acquire 9 1] < 2 ^ 64 - 1" by code_simp+
  then show ?thesis
    using released_handle_stays_stale [OF demo_busy_reachable] by (metis prod.collapse)
qed
end
