(* ===== verification/Seq_Slot_Props.thy ===== *)
theory Seq_Slot_Props
  imports Seq_Slot_Reach Paged_Kv_Props
begin

text \<open>
  What the slot manager guarantees when it runs on the paged pool: every reachable manager keeps
  its slots in step with the pool, admitted prompts never wait, decoders keep their headroom, and
  parking, resuming and retiring lose neither tokens nor blocks.
\<close>

text \<open>
  C11. The slots agree with the pool. In every reachable manager: a prefilling slot has stored
  exactly its first \<open>cur_pos\<close> prompt tokens and owns blocks for the whole prompt; a decoding slot
  has stored its whole history plus the staged tokens and stays within \<open>max_ctx\<close>; a parked slot
  holds no block; and each live sequence of the pool belongs to exactly one active slot.
\<close>

theorem slots_agree_with_pool:
  assumes "mgr_reachable m" "i < length (slots m)" "s = slots m ! i"
  shows "(phase s = SeqPrefill \<longrightarrow> (\<exists>own. pool_view (kv m) (handle s) = Some (nat (cur_pos s), own) \<and>
      0 \<le> cur_pos s \<and> cur_pos s \<le> prompt_len s \<and> prompt_len s = int (length (sample_history s)) \<and>
      nat (prompt_len s) \<le> own * block_size (kv m))) \<and>
    (phase s = SeqDecode \<longrightarrow> (\<exists>own. pool_view (kv m) (handle s) =
        Some (length (sample_history s) + length (staged_tokens s), own)) \<and>
      cur_pos s = int (length (sample_history s)) \<and>
      int (length (sample_history s) + length (staged_tokens s)) \<le> max_ctx m) \<and>
    (parked s \<longrightarrow> pool_view (kv m) (handle s) = Some (0, 0)) \<and>
    (\<forall>h. pool_view (kv m) h \<noteq> None \<longrightarrow> (\<exists>!j. j < length (slots m) \<and> slot_active (slots m ! j) \<and> handle (slots m ! j) = h))"
proof (intro conjI allI impI)
  note inv = mgr_reachable_inv [OF assms(1)]
  have ok: "slot_ok (max_ctx m) (block_size (kv m)) (pool_view (kv m) (handle s)) s"
    using manager_slot_ok [OF inv assms(2)] assms(3) by simp
  show "\<exists>own. pool_view (kv m) (handle s) = Some (nat (cur_pos s), own) \<and> 0 \<le> cur_pos s \<and>
      cur_pos s \<le> prompt_len s \<and> prompt_len s = int (length (sample_history s)) \<and>
      nat (prompt_len s) \<le> own * block_size (kv m)" if "phase s = SeqPrefill"
    using ok that by (auto simp: slot_ok_def)
  show "\<exists>own. pool_view (kv m) (handle s) = Some (length (sample_history s) + length (staged_tokens s), own)"
    "cur_pos s = int (length (sample_history s))"
    "int (length (sample_history s) + length (staged_tokens s)) \<le> max_ctx m" if "phase s = SeqDecode"
    using ok that by (auto simp: slot_ok_def)
  show "pool_view (kv m) (handle s) = Some (0, 0)" if "parked s" using ok that by (auto simp: slot_ok_def parked_def)
  show "\<exists>!j. j < length (slots m) \<and> slot_active (slots m ! j) \<and> handle (slots m ! j) = h"
    if v: "pool_view (kv m) h \<noteq> None" for h
    by (rule no_orphan [OF inv v]) (use mgr_invD(4) [OF inv] in \<open>auto simp: handles_distinct_def\<close>)
qed

section \<open>Prefill\<close>

text \<open>
  C12. An admitted prompt never waits: in every reachable manager, feeding a prefilling slot any
  chunk of its remaining prompt succeeds, returns one row per token, and advances the slot.
\<close>

theorem admitted_prefill_never_waits:
  assumes reach: "mgr_reachable m" and pre: "is_prefilling m i"
    and n: "1 \<le> n" "n \<le> prompt_len (slots m ! nat i) - cur_pos (slots m ! nat i)"
  shows "\<exists>r m'. append_prefill PoolSlotKv m i n = (r, m') \<and> pc_ok r \<and> length (pc_rows r) = nat n \<and>
    cur_pos (slots m' ! nat i) = cur_pos (slots m ! nat i) + n"
proof -
  note inv = mgr_reachable_inv [OF reach]
  obtain r m' where eq: "append_prefill PoolSlotKv m i n = (r, m')" by fastforce
  from inv eq show ?thesis
  proof (cases rule: pool_kv.append_prefill_cases)
    case (ok app k' own)
    have "length (ar_write_slots app) = nat n"
      using pool_kv.append_result [OF mgr_invD(1) [OF inv] ok(6,4,5)] by simp
    then have "length (pc_rows r) = nat n" using collect_rows_rows [OF ok(10)] by simp
    then show ?thesis using eq ok(9,11) pool_kv.is_prefillingD [OF pre] by auto
  qed (use pre n in auto)
qed

text \<open>What an append returns, seen through the row loop.\<close>

lemma append_rows_delta:
  assumes inv: "pool_inv p" and eq: "append_rows p h n False = (r, p')" and ok: "ar_status r = Ok" and n: "0 < n"
    and bound: "int (kv_seq_len (seq_of p h) + n) \<le> int_max"
    and c: "(rows, blocks, first) = collect_rows (block_size p) (ar_write_slots r) ([], [], -1)"
  shows "rows = map (\<lambda>pos. int (kv_row p' h pos)) [kv_seq_len (seq_of p h)..<kv_seq_len (seq_of p h) + n] \<and>
    take (length (block_table (seq_of p h))) (block_table (seq_of p' h)) = block_table (seq_of p h) \<and>
    blocks = map (\<lambda>b. int32_of (int b)) (drop (length (block_table (seq_of p h))) (block_table (seq_of p' h))) \<and>
    first = (if blocks = [] then -1 else int (length (block_table (seq_of p h))))"
proof -
  let ?L = "kv_seq_len (seq_of p h)" and ?bs = "block_size p"
  obtain s' free' where v: "validate p h = Ok"
    and r: "r = append_ok_result p s' ?L n False"
    and p': "p' = put_sequence p (handle_slot h) (s'\<lparr>kv_seq_len := ?L + n\<rparr>) free'"
    and ext: "extends (ceil_div (?L + n) ?bs - length (block_table (seq_of p h))) (seq_of p h) (free_blocks p) s' free'"
    using append_ok_fields [OF ok eq inv n] by blast
  have h: "handle_slot h < length (sequences p)" using v by (simp add: validate_Ok)
  have bs: "0 < ?bs" using pool_invD(1) [OF inv] .
  have old: "length (block_table (seq_of p h)) = ceil_div ?L ?bs" using pool_invD(5) [OF inv h] by (simp add: seq_inv_def)
  have new: "length (block_table s') = ceil_div (?L + n) ?bs" and pre: "take (length (block_table (seq_of p h))) (block_table s') = block_table (seq_of p h)"
    using ext old ceil_div_mono [OF bs, of ?L "?L + n"] by (auto simp: extends_def)
  have tab: "block_table (seq_of p' h) = block_table s'" using h by (simp add: p')
  let ?ws = "map (make_slot p s') [?L..<?L + n]"
  have ws: "ar_write_slots r = ?ws"
    unfolding r append_ok_result_def by (rule nth_equalityI) simp_all
  have pos: "\<forall>w \<in> set ?ws. int (logical_position w div ?bs) \<le> int_max"
  proof
    fix w assume "w \<in> set ?ws"
    then have "logical_position w < ?L + n" by (auto simp: make_slot_def Let_def)
    moreover have "logical_position w div ?bs \<le> logical_position w" by simp
    ultimately show "int (logical_position w div ?bs) \<le> int_max" using bound by linarith
  qed
  let ?starts = "filter (\<lambda>i. i mod ?bs = 0) [?L..<?L + n]"
  have fil: "filter (\<lambda>w. block_offset w = 0) ?ws = map (make_slot p s') ?starts"
    by (simp add: filter_map comp_def make_slot_def Let_def)
  have st: "map (\<lambda>i. i div ?bs) ?starts = [ceil_div ?L ?bs..<ceil_div (?L + n) ?bs]" by (rule block_starts [OF bs])
  have "blocks = map (\<lambda>i. int32_of (int (block_table s' ! (i div ?bs)))) ?starts"
    using c collect_rows_eq [OF pos, of "-1" "[]" "[]"] ws fil by (simp add: make_slot_def Let_def comp_def)
  also have "\<dots> = map (\<lambda>j. int32_of (int (block_table s' ! j))) (map (\<lambda>i. i div ?bs) ?starts)" by simp
  also have "\<dots> = map (\<lambda>b. int32_of (int b)) (drop (ceil_div ?L ?bs) (block_table s'))"
    unfolding st by (rule nth_equalityI) (simp_all add: new)
  finally have blocks: "blocks = map (\<lambda>b. int32_of (int b)) (drop (ceil_div ?L ?bs) (block_table s'))" .
  have first: "first = (case ?starts of [] \<Rightarrow> -1 | i # _ \<Rightarrow> int (i div ?bs))"
    using c collect_rows_eq [OF pos, of "-1" "[]" "[]"] ws fil
    by (cases ?starts) (simp_all add: make_slot_def Let_def)
  have "first = (if blocks = [] then -1 else int (ceil_div ?L ?bs))"
  proof (cases ?starts)
    case Nil
    then have "ceil_div (?L + n) ?bs \<le> ceil_div ?L ?bs" using st by (metis list.map(1) upt_eq_Nil_conv le_0_eq linorder_not_less order_less_imp_le)
    then show ?thesis using first Nil blocks new by simp
  next
    case (Cons i rest)
    then have "i div ?bs = ceil_div ?L ?bs" "ceil_div ?L ?bs < ceil_div (?L + n) ?bs"
      using st [symmetric] Cons by (simp_all add: upt_eq_Cons_conv)
    then show ?thesis using first Cons blocks new by auto
  qed
  moreover have "rows = map (\<lambda>pos. int (kv_row p' h pos)) [?L..<?L + n]"
    using c collect_rows_eq [OF pos, of "-1" "[]" "[]"] ws h
    by (simp add: kv_row_def p' make_slot_def Let_def)
  ultimately show ?thesis using blocks pre tab old by simp
qed

text \<open>
  The block-table delta is exact: after a prefill chunk, the slot's block table in the pool is
  the old one followed by the blocks reported in \<open>new_blocks\<close> (as 32-bit values), starting at
  \<open>first_new_block\<close>, and \<open>rows\<close> are the rows this table gives the new positions. Patching the device
  column with the delta therefore reproduces the pool's table.
\<close>

theorem prefill_delta_is_exact:
  assumes reach: "mgr_reachable m" and eq: "append_prefill PoolSlotKv m i n = (r, m')" and ok: "pc_ok r"
    and h: "h = handle (slots m ! nat i)"
  shows "take (length (block_table (seq_of (kv m) h))) (block_table (seq_of (kv m') h)) = block_table (seq_of (kv m) h) \<and>
    pc_new_blocks r = map (\<lambda>b. int32_of (int b))
      (drop (length (block_table (seq_of (kv m) h))) (block_table (seq_of (kv m') h))) \<and>
    pc_first_new_block r = (if pc_new_blocks r = [] then -1 else int (length (block_table (seq_of (kv m) h)))) \<and>
    pc_rows r = map (\<lambda>pos. int (kv_row (kv m') h pos))
      [nat (cur_pos (slots m ! nat i))..<nat (cur_pos (slots m ! nat i)) + nat n]"
proof -
  note inv = mgr_reachable_inv [OF reach]
  from inv eq show ?thesis
  proof (cases rule: pool_kv.append_prefill_cases)
    case (ok app k' own)
    have v: "kv_seq_len (seq_of (kv m) h) = nat (cur_pos (slots m ! nat i))" using ok(6) h by (simp add: pool_view_Some)
    have s: "slot_ok (max_ctx m) (block_size (kv m)) (pool_view (kv m) h) (slots m ! nat i)"
      using manager_slot_ok [OF inv] pool_kv.is_prefillingD [OF ok(1)] h by simp
    have "int (kv_seq_len (seq_of (kv m) h) + nat n) \<le> int_max"
      using s ok(1-3) v mgr_invD(3) [OF inv] pool_kv.is_prefillingD [OF ok(1)] by (auto simp: slot_ok_def)
    from append_rows_delta [OF mgr_invD(1) [OF inv] _ ok(5) _ this, of k'] show ?thesis
      using ok h v by auto
  qed (use ok in \<open>simp add: empty_chunk_def\<close>)
qed

section \<open>Decode\<close>

text \<open>A decoder that owns blocks for the fed tokens is served.\<close>

lemma append_tokens_owned:
  assumes inv: "pool_mgr_inv m" and j: "j < length (slots m)" "phase (slots m ! j) = SeqDecode"
    and v: "pool_view (kv m) (handle (slots m ! j)) = Some (len, own)"
    and ts: "ts \<noteq> []" "int (length ts) \<le> max_ctx m - cur_pos (slots m ! j)" "staged_tokens (slots m ! j) = []"
    and own: "nat (cur_pos (slots m ! j)) + length ts \<le> own * block_size (kv m)"
  shows "\<exists>r m'. append_tokens PoolSlotKv m (int j) (Some ts) (int (length ts)) = (r, m') \<and> sa_ok r \<and>
    slots m' = (slots m)[j := (slots m ! j)\<lparr>staged_tokens := ts\<rparr>] \<and> max_ctx m' = max_ctx m \<and>
    block_size (kv m') = block_size (kv m) \<and>
    (\<forall>h. h \<noteq> handle (slots m ! j) \<longrightarrow> pool_view (kv m') h = pool_view (kv m) h)"
proof -
  let ?s = "slots m ! j"
  have s: "slot_ok (max_ctx m) (block_size (kv m)) (pool_view (kv m) (handle ?s)) ?s"
    using manager_slot_ok [OF inv j(1)] by simp
  then have len: "len = nat (cur_pos ?s)" using v j ts(3) by (auto simp: slot_ok_def)
  obtain r m' where eq: "append_tokens PoolSlotKv m (int j) (Some ts) (int (length ts)) = (r, m')" by fastforce
  note good = mgr_invD(1) [OF inv]
  from inv order_refl eq show ?thesis
  proof (cases rule: pool_kv.append_tokens_cases)
    case refused
    moreover have "is_active m (int j)" using j by (simp add: is_active_def)
    ultimately show ?thesis using j ts by (cases ts) auto
  next
    case (failed st app)
    then show ?thesis using pool_kv.append_reserved [OF good v, of "length ts" False app "kv m"] own len by simp
  next
    case (ok app k' own1 own2)
    have "kv_frame PoolSlotKv pool_view (kv m) (handle ?s) k'"
      using pool_kv.append_frame [OF good ok(6)] by simp
    then show ?thesis using eq ok(10,15) by (auto simp: kv_frame_def)
  qed
qed

text \<open>
  C13. A younger admission cannot take a decoder's next page: right after a successful \<open>admit\<close>,
  every decoding slot whose rolling headroom fits the pool at all can append up to a block of
  tokens without waiting.
\<close>

theorem admission_protects_decoders:
  assumes reach: "mgr_reachable m" and eq: "admit PoolSlotKv m rid prompt smp rd1 rd2 = (r, m')"
    and adm: "admit_status r = Admitted"
    and j: "j < length (slots m')" "phase (slots m' ! j) = SeqDecode" "staged_tokens (slots m' ! j) = []"
    and fits: "capacity_fits_pool PoolSlotKv m' (decode_headroom_capacity PoolSlotKv m' (cur_pos (slots m' ! j)))"
    and ts: "ts \<noteq> []" "length ts \<le> block_size (kv m')" "int (length ts) \<le> max_ctx m' - cur_pos (slots m' ! j)"
  shows "sa_ok (fst (append_tokens PoolSlotKv m' (int j) (Some ts) (int (length ts))))"
proof -
  note inv = mgr_reachable_inv [OF reach]
  have inv': "pool_mgr_inv m'" by (rule pool_kv.admit_inv [OF inv eq])
  from inv eq show ?thesis
  proof (cases rule: pool_kv.admit_cases)
    case (ok i m1 h k' cap)
    let ?s = "slots m' ! j"
    note spec = pool_kv.protect_headroom_spec [OF inv ok(8)]
    note acq = pool_kv.acquire_view [OF mgr_invD(1) [OF conjunct1 [OF spec]] ok(9)]
      and frame = pool_kv.acquire_frame [OF mgr_invD(1) [OF conjunct1 [OF spec]] ok(9)]
    have shape: "kv_block_size PoolSlotKv k' = kv_block_size PoolSlotKv (kv m)"
      "kv_physical_block_count PoolSlotKv k' = kv_physical_block_count PoolSlotKv (kv m)"
      "max_ctx m' = max_ctx m" "kv m' = k'"
      using spec kv_frameD [OF frame] ok(11) by auto
    have ij: "i \<noteq> j" using j(1,2) ok(3,11) by auto
    then have s: "?s = slots m ! j" "j < length (slots m)" using ok(11) j(1) by auto
    have cap: "decode_headroom_capacity PoolSlotKv m' n = decode_headroom_capacity PoolSlotKv m n"
      "capacity_fits_pool PoolSlotKv m' c = capacity_fits_pool PoolSlotKv m c" for n c
      using shape by (simp_all add: decode_headroom_capacity_def capacity_fits_pool_def)
    have "slot_ok (max_ctx m') (block_size (kv m')) (pool_view (kv m') (handle ?s)) ?s"
      using manager_slot_ok [OF inv' j(1)] by simp
    then obtain own where v: "pool_view k' (handle ?s) = Some (nat (cur_pos ?s), own)"
      and pos: "0 \<le> cur_pos ?s" "cur_pos ?s \<le> max_ctx m"
      using j shape by (auto simp: slot_ok_def)
    have "handle ?s \<noteq> h" using acq v s j mgr_invD(5) [OF conjunct1 [OF spec], of j] spec
      by (auto dest!: slot_ok_view)
    then have "pool_view (kv m1) (handle ?s) = pool_view k' (handle ?s)" using kv_frameD(4) [OF frame] by metis
    then have "ceil_div (decode_headroom_capacity PoolSlotKv m (cur_pos ?s)) (block_size (kv m)) \<le> own"
      using spec s j(2) fits v unfolding cap by (metis PoolSlotKv_simps(1) nth_mem option.sel snd_conv)
    then have "decode_headroom_capacity PoolSlotKv m (cur_pos ?s) \<le> own * block_size (kv m)"
      using pool_invD(1) [OF mgr_invD(1) [OF inv]] by (simp add: ceil_div_le_iff)
    moreover have "nat (cur_pos ?s) + length ts \<le> decode_headroom_capacity PoolSlotKv m (cur_pos ?s)"
      using pool_kv.headroom_capacity(1) [OF inv pos] ts shape pos by auto
    ultimately have "nat (cur_pos ?s) + length ts \<le> own * block_size (kv m')" using shape by simp
    then show ?thesis
      using append_tokens_owned [OF inv' j(1,2) _ ts(1,3) j(3)] v shape(4) by fastforce
  qed (use adm in simp)
qed

text \<open>Running the decode appends of a cohort one after the other.\<close>

fun cohort_ok :: "PagedKvPool SeqSlotManager \<Rightarrow> (nat \<times> token list) list \<Rightarrow> bool" where
  "cohort_ok m [] = True"
| "cohort_ok m ((j, ts) # rest) =
     (let (r, m') = append_tokens PoolSlotKv m (int j) (Some ts) (int (length ts)) in sa_ok r \<and> cohort_ok m' rest)"

lemma cohort_served:
  assumes "pool_mgr_inv m" "distinct (map fst work)"
    and "\<forall>(j, ts) \<in> set work. j < length (slots m) \<and> phase (slots m ! j) = SeqDecode \<and> ts \<noteq> [] \<and>
      int (length ts) \<le> max_ctx m - cur_pos (slots m ! j) \<and> staged_tokens (slots m ! j) = [] \<and>
      (\<exists>len own. pool_view (kv m) (handle (slots m ! j)) = Some (len, own) \<and>
         nat (cur_pos (slots m ! j)) + length ts \<le> own * block_size (kv m))"
  shows "cohort_ok m work"
  using assms
proof (induction work arbitrary: m)
  case (Cons w work)
  obtain j ts where w: "w = (j, ts)" by fastforce
  have j: "j < length (slots m)" "phase (slots m ! j) = SeqDecode" "ts \<noteq> []"
    "int (length ts) \<le> max_ctx m - cur_pos (slots m ! j)" "staged_tokens (slots m ! j) = []"
    using Cons.prems(3) w by auto
  obtain len own where v: "pool_view (kv m) (handle (slots m ! j)) = Some (len, own)"
    "nat (cur_pos (slots m ! j)) + length ts \<le> own * block_size (kv m)"
    using Cons.prems(3) w by auto
  obtain r m' where a: "append_tokens PoolSlotKv m (int j) (Some ts) (int (length ts)) = (r, m')" "sa_ok r"
    "slots m' = (slots m)[j := (slots m ! j)\<lparr>staged_tokens := ts\<rparr>]" "max_ctx m' = max_ctx m"
    "block_size (kv m') = block_size (kv m)"
    "\<forall>h. h \<noteq> handle (slots m ! j) \<longrightarrow> pool_view (kv m') h = pool_view (kv m) h"
    using append_tokens_owned [OF Cons.prems(1) j(1,2) v(1) j(3,4,5) v(2)] by blast
  have inv': "pool_mgr_inv m'" using pool_kv.append_tokens_inv [OF Cons.prems(1) order_refl a(1)] .
  have "cohort_ok m' work"
  proof (rule Cons.IH [OF inv'])
    show "distinct (map fst work)" using Cons.prems(2) by simp
    show "\<forall>(j, ts) \<in> set work. j < length (slots m') \<and> phase (slots m' ! j) = SeqDecode \<and> ts \<noteq> [] \<and>
      int (length ts) \<le> max_ctx m' - cur_pos (slots m' ! j) \<and> staged_tokens (slots m' ! j) = [] \<and>
      (\<exists>len own. pool_view (kv m') (handle (slots m' ! j)) = Some (len, own) \<and>
         nat (cur_pos (slots m' ! j)) + length ts \<le> own * block_size (kv m'))"
    proof (intro ballI, clarify)
      fix j' ts' assume jt: "(j', ts') \<in> set work"
      then have ne: "j' \<noteq> j" using Cons.prems(2) w by force
      have old: "j' < length (slots m) \<and> phase (slots m ! j') = SeqDecode \<and> ts' \<noteq> [] \<and>
        int (length ts') \<le> max_ctx m - cur_pos (slots m ! j') \<and> staged_tokens (slots m ! j') = [] \<and>
        (\<exists>len own. pool_view (kv m) (handle (slots m ! j')) = Some (len, own) \<and>
         nat (cur_pos (slots m ! j')) + length ts' \<le> own * block_size (kv m))"
        using Cons.prems(3) jt by auto
      have "handle (slots m ! j') \<noteq> handle (slots m ! j)"
        using mgr_invD(4) [OF Cons.prems(1)] old j(1,2) ne by (auto simp: handles_distinct_def)
      then show "j' < length (slots m') \<and> phase (slots m' ! j') = SeqDecode \<and> ts' \<noteq> [] \<and>
        int (length ts') \<le> max_ctx m' - cur_pos (slots m' ! j') \<and> staged_tokens (slots m' ! j') = [] \<and>
        (\<exists>len own. pool_view (kv m') (handle (slots m' ! j')) = Some (len, own) \<and>
         nat (cur_pos (slots m' ! j')) + length ts' \<le> own * block_size (kv m'))"
        using old a ne by simp
    qed
  qed
  then show ?case using w a(1,2) by simp
qed simp

text \<open>
  C14. \<open>reserve_decode\<close> is all-or-nothing for the cohort: when it refuses, the manager is unchanged;
  when it succeeds, the appends of the whole cohort, each of at most its announced growth and in
  any order, all succeed.
\<close>

theorem reserve_decode_serves_cohort:
  assumes reach: "mgr_reachable m" and eq: "reserve_decode PoolSlotKv m growth = (r, m')"
  shows "(\<not> r \<longrightarrow> m' = m) \<and>
    (r \<longrightarrow> (\<forall>work. distinct (map fst work) \<longrightarrow>
       (\<forall>(j, ts) \<in> set work. j < length (slots m) \<and> phase (slots m ! j) = SeqDecode \<and> ts \<noteq> [] \<and>
          int (length ts) \<le> growth ! j) \<longrightarrow> cohort_ok m' work))"
proof (intro conjI impI allI)
  note inv = mgr_reachable_inv [OF reach]
  note spec = pool_kv.reserve_decode_spec [OF inv eq, unfolded PoolSlotKv_simps]
  show "m' = m" if "\<not> r" using spec that by blast
  fix work :: "(nat \<times> token list) list" assume r and d: "distinct (map fst work)"
    and work: "\<forall>(j, ts) \<in> set work. j < length (slots m) \<and> phase (slots m ! j) = SeqDecode \<and> ts \<noteq> [] \<and>
          int (length ts) \<le> growth ! j"
  show "cohort_ok m' work"
  proof (rule cohort_served [OF conjunct1 [OF spec] d], intro ballI, clarify)
    fix j ts assume "(j, ts) \<in> set work"
    then have j: "j < length (slots m)" "phase (slots m ! j) = SeqDecode" "ts \<noteq> []" "int (length ts) \<le> growth ! j"
      using work by auto
    have "slot_ok (max_ctx m) (block_size (kv m)) (pool_view (kv m) (handle (slots m ! j))) (slots m ! j)"
      using manager_slot_ok [OF inv j(1)] by simp
    then have pos: "0 \<le> cur_pos (slots m ! j)" using j by (auto simp: slot_ok_def)
    obtain len own where v: "pool_view (kv m') (handle (slots m ! j)) = Some (len, own)"
      "nat (cur_pos (slots m ! j) + growth ! j) \<le> own * block_size (kv m)" "staged_tokens (slots m ! j) = []"
      "growth ! j \<le> max_ctx m - cur_pos (slots m ! j)"
      using spec \<open>r\<close> j by blast
    then show "j < length (slots m') \<and> phase (slots m' ! j) = SeqDecode \<and> ts \<noteq> [] \<and>
      int (length ts) \<le> max_ctx m' - cur_pos (slots m' ! j) \<and> staged_tokens (slots m' ! j) = [] \<and>
      (\<exists>len own. pool_view (kv m') (handle (slots m' ! j)) = Some (len, own) \<and>
         nat (cur_pos (slots m' ! j)) + length ts \<le> own * block_size (kv m'))"
      using spec j pos by (auto simp: nat_add_distrib)
  qed
qed

text \<open>
  A staged step can be undone and repeated: after a successful append of tokens, \<open>rollback_step\<close>
  succeeds, leaves every slot as it was before the append, and appending the same tokens again
  yields the same rows and the same manager.
\<close>

theorem rollback_step_then_retry:
  assumes reach: "mgr_reachable m" and eq: "append_tokens PoolSlotKv m i (Some ts) (int (length ts)) = (r, m1)"
    and ok: "sa_ok r"
  shows "\<exists>m2. rollback_step PoolSlotKv m1 i = (True, m2) \<and> slots m2 = slots m \<and>
    append_tokens PoolSlotKv m2 i (Some ts) (int (length ts)) = (r, m1)"
proof -
  note inv = mgr_reachable_inv [OF reach]
  have inv1: "pool_mgr_inv m1" by (rule pool_kv.append_tokens_inv [OF inv order_refl eq])
  from inv order_refl eq show ?thesis
  proof (cases rule: pool_kv.append_tokens_cases)
    case (ok app k1 own own')
    let ?s = "slots m ! nat i" and ?h = "handle (slots m ! nat i)"
    have n: "0 < length ts" "nat (int (length ts)) = length ts" using ok(3) by auto
    have app: "append_rows (kv m) ?h (length ts) False = (app, k1)" using ok(6) by simp
    obtain k2 where k2: "rollback_append k1 ?h (length ts) = (Ok, k2)" "append_rows k2 ?h (length ts) False = (app, k1)"
      using rollback_retry_inv [OF mgr_invD(1) [OF inv] app ok(7) n(1)] by blast
    have m1: "kv m1 = k1" "slots m1 ! nat i = ?s\<lparr>staged_tokens := ts\<rparr>" "max_ctx m1 = max_ctx m"
      using ok(1,15) by simp_all
    obtain b m2 where rb: "rollback_step PoolSlotKv m1 i = (b, m2)" by fastforce
    have i: "0 \<le> i" "is_active m1 i" using eq ok n
      by (auto simp: append_tokens_def is_active_def empty_step_def split: if_splits)
    have slots1: "slots m1 = (slots m)[nat i := ?s\<lparr>staged_tokens := ts\<rparr>]" using ok(15) by simp
    have st1: "staged_tokens (slots m1 ! nat i) = ts" "handle (slots m1 ! nat i) = ?h" using m1(2) by simp_all
    have undo: "(?s\<lparr>staged_tokens := ts\<rparr>)\<lparr>staged_tokens := []\<rparr> = ?s" using ok(4) by simp
    have "b \<and> m2 = m1\<lparr>kv := k2, slots := slots m\<rparr>"
      using inv1 rb
    proof (cases rule: pool_kv.rollback_step_cases)
      case refused
      then show ?thesis using i st1 n by simp
    next
      case (ok k' own)
      then have "k' = k2" using k2(1) m1(1) st1 by simp
      moreover have "(slots m1)[nat i := (slots m1 ! nat i)\<lparr>staged_tokens := []\<rparr>] = slots m"
        unfolding m1(2) undo using slots1 by simp
      ultimately show ?thesis using ok(1,7) by simp
    qed
    then have m2: "b" "m2 = m1\<lparr>kv := k2, slots := slots m\<rparr>" by simp_all
    have "m2 = m\<lparr>kv := k2\<rparr>" using m2(2) ok(15) by simp
    moreover have "int (length ts) \<le> int_max"
      using ok(5) mgr_invD(3) [OF inv] manager_slot_ok [OF inv ok(1)] ok(2) by (auto simp: slot_ok_def)
    then have "append_rows k2 ?h (u32_of_int (int (length ts))) False = append_rows (kv m) ?h (u32_of_int (int (length ts))) False"
      using app k2(2) by simp
    ultimately have "append_tokens PoolSlotKv m2 i (Some ts) (int (length ts)) = (r, m1)"
      using append_tokens_kv_cong [OF eq ok(10), of k2] by simp
    then show ?thesis using rb m2 by auto
  qed (use ok in \<open>auto simp: empty_step_def\<close>)
qed

section \<open>Parking, resuming, retiring\<close>

text \<open>
  C15. Eviction drops no token: a successful \<open>evict_for_recompute\<close> parks the slot with its whole
  history plus the pending token as the new prompt and no block in the pool, leaves every other
  slot alone, and a successful \<open>resume_recompute\<close> turns it into a prefill of that history, which
  by the reservation can run to completion.
\<close>

theorem eviction_keeps_history:
  assumes reach: "mgr_reachable m" and ev: "evict_for_recompute PoolSlotKv m (int i) t = (True, m1)"
    and re: "resume_recompute PoolSlotKv m1 (int i) = (True, m2)"
    and hist: "hist = sample_history (slots m ! i) @ (if t \<ge> 0 then [t] else [])"
  shows "i < length (slots m) \<and> sample_history (slots m2 ! i) = hist \<and> phase (slots m2 ! i) = SeqPrefill \<and>
    prompt_len (slots m2 ! i) = int (length hist) \<and> cur_pos (slots m2 ! i) = 0 \<and>
    original_prompt_len (slots m2 ! i) = original_prompt_len (slots m ! i) \<and>
    pool_view (kv m1) (handle (slots m ! i)) = Some (0, 0) \<and>
    (\<forall>j. j \<noteq> i \<longrightarrow> slots m2 ! j = slots m ! j) \<and>
    (\<exists>r m3. append_prefill PoolSlotKv m2 (int i) (int (length hist)) = (r, m3) \<and> pc_ok r \<and>
       phase (slots (commit_prefill m3 (int i)) ! i) = SeqDecode \<and>
       sample_history (slots (commit_prefill m3 (int i)) ! i) = hist \<and>
       cur_pos (slots (commit_prefill m3 (int i)) ! i) = int (length hist))"
proof -
  note inv = mgr_reachable_inv [OF reach]
  have inv1: "pool_mgr_inv m1" by (rule pool_kv.evict_inv [OF inv ev])
  have inv2: "pool_mgr_inv m2" by (rule pool_kv.resume_recompute_inv [OF inv1 re])
  obtain k1 where m1: "is_active m (int i)" "pool_view k1 (handle (slots m ! i)) = Some (0, 0)"
    "m1 = m\<lparr>kv := k1, slots := (slots m)[i := (slots m ! i)\<lparr>sample_history := hist,
       prompt_len := int (length hist), cur_pos := 0, phase := SeqRecompute\<rparr>]\<rparr>"
    using inv ev by (cases rule: pool_kv.evict_cases) (auto simp: hist)
  have i: "i < length (slots m)" using m1(1) by (simp add: is_active_def)
  obtain k2 where m2: "m2 = m1\<lparr>kv := k2, slots := (slots m1)[i := (slots m1 ! i)\<lparr>phase := SeqPrefill\<rparr>]\<rparr>"
    using inv1 re by (cases rule: pool_kv.resume_recompute_cases) auto
  have s2: "slots m2 ! i = (slots m ! i)\<lparr>sample_history := hist, prompt_len := int (length hist), cur_pos := 0,
      phase := SeqPrefill\<rparr>" "length (slots m2) = length (slots m)" "\<forall>j. j \<noteq> i \<longrightarrow> slots m2 ! j = slots m ! j"
    using i by (auto simp: m2 m1(3))
  have "slot_ok (max_ctx m2) (block_size (kv m2)) (pool_view (kv m2) (handle (slots m2 ! i))) (slots m2 ! i)"
    using manager_slot_ok [OF inv2, of i] s2(2) i by simp
  then have ne: "1 \<le> int (length hist)" using s2 by (auto simp: slot_ok_def)
  have pre: "is_prefilling m2 (int i)" using s2 i by (simp add: is_prefilling_def is_active_def)
  obtain r m3 where ap: "append_prefill PoolSlotKv m2 (int i) (int (length hist)) = (r, m3)" by fastforce
  have "pc_ok r \<and> slots m3 ! i = (slots m2 ! i)\<lparr>cur_pos := int (length hist)\<rparr> \<and> length (slots m3) = length (slots m2)"
    using inv2 ap by (cases rule: pool_kv.append_prefill_cases) (use pre ne s2 i in auto)
  moreover from this have "commit_prefill m3 (int i) = m3\<lparr>slots := (slots m3)[i := (slots m3 ! i)\<lparr>phase := SeqDecode\<rparr>]\<rparr>"
    using s2 i by (simp add: commit_prefill_def is_prefilling_def is_active_def Let_def)
  ultimately show ?thesis using i s2 m1 ap by simp
qed

text \<open>
  C16. Suspending and restoring: when \<open>detach_kv\<close> succeeds and the pool then has the blocks the slot
  asks for, \<open>attach_kv\<close> succeeds and every slot is back to its state before the suspension, except
  that a completed but uncommitted prefill comes back as a decoder.
\<close>

theorem detach_attach_roundtrip:
  assumes reach: "mgr_reachable m" and de: "detach_kv PoolSlotKv m (int i) = (True, m1)"
    and room: "ceil_div (resume_token_capacity PoolSlotKv m1 (slots m1 ! i)) (block_size (kv m1)) \<le> free_block_count (kv m1)"
  shows "\<exists>m2. attach_kv PoolSlotKv m1 (int i) = (True, m2) \<and>
    slots m2 = (slots m)[i := (slots m ! i)\<lparr>phase :=
      (if cur_pos (slots m ! i) < prompt_len (slots m ! i) then SeqPrefill else SeqDecode)\<rparr>] \<and>
    (phase (slots m ! i) = SeqDecode \<longrightarrow> slots m2 = slots m) \<and>
    (\<exists>own. pool_view (kv m2) (handle (slots m ! i)) = Some (nat (cur_pos (slots m ! i)), own))"
proof -
  note inv = mgr_reachable_inv [OF reach]
  have inv1: "pool_mgr_inv m1" by (rule pool_kv.detach_kv_inv [OF inv de])
  obtain k1 where m1: "is_active m (int i)"
    "m1 = m\<lparr>kv := k1, slots := (slots m)[i := (slots m ! i)\<lparr>phase := SeqSuspended\<rparr>]\<rparr>"
    using inv de by (cases rule: pool_kv.detach_kv_cases) auto
  have i: "i < length (slots m)" using m1(1) by (simp add: is_active_def)
  have s: "slot_ok (max_ctx m) (block_size (kv m)) (pool_view (kv m) (handle (slots m ! i))) (slots m ! i)"
    using manager_slot_ok [OF inv i] by simp
  have act1: "is_active m1 (int i)" using i by (simp add: m1(2) is_active_def)
  obtain b m2 where at: "attach_kv PoolSlotKv m1 (int i) = (b, m2)" by fastforce
  from inv1 at show ?thesis
  proof (cases rule: pool_kv.attach_kv_cases)
    case refused
    then show ?thesis using act1 i room by (simp add: m1(2))
  next
    case (ok k' own)
    let ?ph = "if cur_pos (slots m ! i) < prompt_len (slots m ! i) then SeqPrefill else SeqDecode"
    have m2: "slots m2 = (slots m)[i := (slots m ! i)\<lparr>phase := ?ph\<rparr>]" "kv m2 = k'"
      using ok(8) i by (simp_all add: m1(2))
    have "slots m2 = slots m" if "phase (slots m ! i) = SeqDecode"
    proof -
      have "\<not> cur_pos (slots m ! i) < prompt_len (slots m ! i)" using s that by (auto simp: slot_ok_def)
      then have "(slots m ! i)\<lparr>phase := ?ph\<rparr> = slots m ! i" using that by simp
      then show ?thesis unfolding m2(1) by simp
    qed
    then show ?thesis using at ok(1,6) m2 i by (auto simp: m1(2))
  qed
qed

text \<open>The destructor's loop: each step retires one slot.\<close>

lemma retire_effect:
  assumes inv: "pool_mgr_inv m" and i: "i < length (slots m)"
  shows "pool_mgr_inv (retire PoolSlotKv m (int i)) \<and>
    length (slots (retire PoolSlotKv m (int i))) = length (slots m) \<and>
    physical_block_count (kv (retire PoolSlotKv m (int i))) = physical_block_count (kv m) \<and>
    \<not> slot_active (slots (retire PoolSlotKv m (int i)) ! i) \<and>
    (\<forall>j. j \<noteq> i \<longrightarrow> slots (retire PoolSlotKv m (int i)) ! j = slots m ! j)"
proof (cases "slot_active (slots m ! i)")
  case True
  obtain st k' where rl: "release (kv m) (handle (slots m ! i)) = (st, k')" by fastforce
  have "physical_block_count k' = physical_block_count (kv m)"
    using kv_frameD(2) [OF pool_kv.release_frame [OF mgr_invD(1) [OF inv]], of "handle (slots m ! i)" st k'] rl by simp
  then show ?thesis
    using pool_kv.retire_inv [OF inv, of "int i"] True i rl by (auto simp: retire_def Let_def fresh_slot_def)
qed (use pool_kv.retire_inv [OF inv, of "int i"] i in \<open>auto simp: retire_def Let_def\<close>)

lemma destroy_loop:
  "pool_mgr_inv m \<Longrightarrow> n \<le> length (slots m) \<Longrightarrow>
   pool_mgr_inv (foldl (\<lambda>m' i. retire PoolSlotKv m' (int i)) m [0..<n]) \<and>
   length (slots (foldl (\<lambda>m' i. retire PoolSlotKv m' (int i)) m [0..<n])) = length (slots m) \<and>
   physical_block_count (kv (foldl (\<lambda>m' i. retire PoolSlotKv m' (int i)) m [0..<n])) = physical_block_count (kv m) \<and>
   (\<forall>i < n. \<not> slot_active (slots (foldl (\<lambda>m' i. retire PoolSlotKv m' (int i)) m [0..<n]) ! i))"
proof (induction n)
  case (Suc n)
  let ?m = "foldl (\<lambda>m' i. retire PoolSlotKv m' (int i)) m [0..<n]"
  have IH: "pool_mgr_inv ?m" "length (slots ?m) = length (slots m)" "\<forall>i < n. \<not> slot_active (slots ?m ! i)"
    "physical_block_count (kv ?m) = physical_block_count (kv m)"
    using Suc by simp_all
  have "\<not> slot_active (slots (retire PoolSlotKv ?m (int n)) ! i)" if "i < Suc n" for i
    using retire_effect [OF IH(1), of n] IH that Suc.prems by (cases "i = n") auto
  then show ?case using retire_effect [OF IH(1), of n] IH Suc.prems by simp
qed simp

text \<open>
  No leak: destroying a reachable manager leaves no active slot and every physical block of
  the pool free again, whatever was running, staged or parked.
\<close>

theorem destroying_the_manager_frees_the_pool:
  assumes reach: "mgr_reachable m"
  shows "(\<forall>s \<in> set (slots (destroy_manager PoolSlotKv m)). \<not> slot_active s) \<and>
    free_block_count (kv (destroy_manager PoolSlotKv m)) = physical_block_count (kv m) \<and>
    active_sequence_count (kv (destroy_manager PoolSlotKv m)) = 0"
proof -
  let ?m = "destroy_manager PoolSlotKv m"
  have d: "pool_mgr_inv ?m" "length (slots ?m) = length (slots m)"
    "physical_block_count (kv ?m) = physical_block_count (kv m)" "\<forall>i < length (slots m). \<not> slot_active (slots ?m ! i)"
    using destroy_loop [OF mgr_reachable_inv [OF reach] order_refl] by (simp_all add: destroy_manager_def)
  have idle: "\<forall>s \<in> set (slots ?m). \<not> slot_active s" using d(2,4) by (metis in_set_conv_nth)
  have none: "pool_view (kv ?m) h = None" for h
    using no_orphan [OF d(1), of h] idle by (metis nth_mem)
  note inv = mgr_invD(1) [OF d(1)]
  have off: "\<not> active (sequences (kv ?m) ! i)" if "i < length (sequences (kv ?m))" for i
    using none [of "\<lparr>handle_slot = i, handle_generation = generation (sequences (kv ?m) ! i)\<rparr>"] that
    by (auto simp: pool_view_def validate_Ok split: if_splits)
  then have idle_seqs: "\<forall>s \<in> set (sequences (kv ?m)). \<not> active s" by (metis in_set_conv_nth)
  then have "length (free_blocks (kv ?m)) = physical_block_count (kv ?m)"
    using idle_free_blocks [OF inv] by (metis diff_zero length_upt size_mset)
  moreover have "filter active (sequences (kv ?m)) = []" using idle_seqs by (simp add: filter_empty_conv)
  ultimately show ?thesis
    using idle d(3) free_block_count_inv [OF inv] active_sequence_count_inv [OF inv] by simp
qed

section \<open>Witnesses\<close>

text \<open>Two slots over eight blocks of two rows: slot 0 decodes, slot 1 is in the middle of its prompt.\<close>

definition demo_mgr :: "mgr_event list \<Rightarrow> PagedKvPool SeqSlotManager" where
  "demo_mgr es = foldl (mgr_exec PoolSlotKv) (new_manager PoolSlotKv (the (new_pool 8 2 2)) 16) es"

definition demo_one :: "PagedKvPool SeqSlotManager" where
  "demo_one = demo_mgr [Admit 7 [11, 12, 13] default_sampler 5 6, Prefill 0 3, CommitPrefill 0]"

definition demo_two :: "PagedKvPool SeqSlotManager" where
  "demo_two = demo_mgr [Admit 7 [11, 12, 13] default_sampler 5 6, Prefill 0 3, CommitPrefill 0,
     Admit 8 [21, 22, 23, 24, 25] default_sampler 5 6, Prefill 1 2]"

lemma demo_mgr_reachable: "mgr_reachable (demo_mgr es)"
proof -
  have "new_pool 8 2 2 \<noteq> None" by code_simp
  then have "new_pool 8 2 2 = Some (the (new_pool 8 2 2))" by simp
  moreover have "2 \<le> u32_max" by (simp add: u32_max_def)
  ultimately have "mgr_reachable (new_manager PoolSlotKv (the (new_pool 8 2 2)) 16)"
    by (rule mgr_reachable.start) simp_all
  then show ?thesis unfolding demo_mgr_def by (rule mgr_reachable_run)
qed

lemmas demo_reachable = demo_mgr_reachable [of "[Admit 7 [11, 12, 13] default_sampler 5 6, Prefill 0 3, CommitPrefill 0]",
    folded demo_one_def]
  demo_mgr_reachable [of "[Admit 7 [11, 12, 13] default_sampler 5 6, Prefill 0 3, CommitPrefill 0,
     Admit 8 [21, 22, 23, 24, 25] default_sampler 5 6, Prefill 1 2]", folded demo_two_def]

theorem slots_agree_with_pool_witness:
  "pool_view (kv demo_two) (handle (slots demo_two ! 0)) = Some (3, 3) \<and>
   cur_pos (slots demo_two ! 0) = int (length (sample_history (slots demo_two ! 0)))"
proof -
  have "0 < length (slots demo_two)" "phase (slots demo_two ! 0) = SeqDecode"
    "pool_view (kv demo_two) (handle (slots demo_two ! 0)) = Some (3, 3)" by code_simp+
  then show ?thesis using slots_agree_with_pool [OF demo_reachable(2) _ refl, of 0] by simp
qed

theorem admitted_prefill_never_waits_witness:
  "\<exists>r m'. append_prefill PoolSlotKv demo_two 1 3 = (r, m') \<and> pc_ok r \<and> length (pc_rows r) = nat 3 \<and>
     cur_pos (slots m' ! nat 1) = cur_pos (slots demo_two ! nat 1) + 3"
  by (rule admitted_prefill_never_waits [OF demo_reachable(2)]) code_simp+

theorem prefill_delta_is_exact_witness:
  "pc_new_blocks (fst (append_prefill PoolSlotKv demo_two 1 3)) =
     map (\<lambda>b. int32_of (int b)) (drop 1 (block_table (seq_of (kv (snd (append_prefill PoolSlotKv demo_two 1 3)))
        (handle (slots demo_two ! 1))))) \<and>
   pc_first_new_block (fst (append_prefill PoolSlotKv demo_two 1 3)) = 1"
proof -
  have "pc_ok (fst (append_prefill PoolSlotKv demo_two 1 3))"
    "length (block_table (seq_of (kv demo_two) (handle (slots demo_two ! 1)))) = 1"
    "pc_new_blocks (fst (append_prefill PoolSlotKv demo_two 1 3)) \<noteq> []"
    by code_simp+
  then show ?thesis
    using prefill_delta_is_exact [OF demo_reachable(2) prod.collapse [symmetric], where i = 1 and n = 3, OF _ refl] by simp
qed

theorem admission_protects_decoders_witness:
  "sa_ok (fst (append_tokens PoolSlotKv (snd (admit PoolSlotKv demo_one 8 [21, 22, 23, 24, 25] default_sampler 5 6))
     (int 0) (Some [14, 15]) (int (length [14, 15 :: token]))))"
  by (rule admission_protects_decoders [OF demo_reachable(1) prod.collapse [symmetric]]) code_simp+

theorem reserve_decode_serves_cohort_witness:
  "fst (reserve_decode PoolSlotKv demo_one [2, 0]) \<and>
   cohort_ok (snd (reserve_decode PoolSlotKv demo_one [2, 0])) [(0, [14, 15])]"
proof -
  have r: "fst (reserve_decode PoolSlotKv demo_one [2, 0])" by code_simp
  have w: "\<forall>(j, ts) \<in> set [(0, [14, 15 :: token])]. j < length (slots demo_one) \<and>
     phase (slots demo_one ! j) = SeqDecode \<and> ts \<noteq> [] \<and> int (length ts) \<le> [2, 0 :: int] ! j" by code_simp
  have "distinct (map fst [(0 :: nat, [14, 15 :: token])])" by simp
  then show ?thesis
    using reserve_decode_serves_cohort [OF demo_reachable(1) prod.collapse [symmetric], of "[2, 0]"] r w by blast
qed

theorem rollback_step_then_retry_witness:
  "\<exists>m2. rollback_step PoolSlotKv (snd (append_tokens PoolSlotKv demo_two 0 (Some [14, 15]) (int (length [14, 15 :: token])))) 0 = (True, m2) \<and>
     slots m2 = slots demo_two \<and>
     append_tokens PoolSlotKv m2 0 (Some [14, 15]) (int (length [14, 15 :: token])) =
       (fst (append_tokens PoolSlotKv demo_two 0 (Some [14, 15]) (int (length [14, 15 :: token]))),
        snd (append_tokens PoolSlotKv demo_two 0 (Some [14, 15]) (int (length [14, 15 :: token]))))"
  by (rule rollback_step_then_retry [OF demo_reachable(2) prod.collapse [symmetric]]) code_simp

theorem eviction_keeps_history_witness:
  "sample_history (slots (snd (resume_recompute PoolSlotKv (snd (evict_for_recompute PoolSlotKv demo_two (int 0) 14)) (int 0))) ! 0)
     = [11, 12, 13, 14]"
proof -
  let ?m1 = "snd (evict_for_recompute PoolSlotKv demo_two (int 0) 14)"
  let ?m2 = "snd (resume_recompute PoolSlotKv ?m1 (int 0))"
  have f: "fst (evict_for_recompute PoolSlotKv demo_two (int 0) 14)" "fst (resume_recompute PoolSlotKv ?m1 (int 0))" by code_simp+
  have h: "[11, 12, 13, 14] = sample_history (slots demo_two ! 0) @ (if (14 :: token) \<ge> 0 then [14] else [])" by code_simp
  have "evict_for_recompute PoolSlotKv demo_two (int 0) 14 = (True, ?m1)" "resume_recompute PoolSlotKv ?m1 (int 0) = (True, ?m2)"
    using f by (simp_all add: prod_eq_iff)
  from eviction_keeps_history [OF demo_reachable(2) this h] show ?thesis by blast
qed

theorem detach_attach_roundtrip_witness:
  "\<exists>m2. attach_kv PoolSlotKv (snd (detach_kv PoolSlotKv demo_two (int 0))) (int 0) = (True, m2) \<and> slots m2 = slots demo_two"
proof -
  let ?m1 = "snd (detach_kv PoolSlotKv demo_two (int 0))"
  have "fst (detach_kv PoolSlotKv demo_two (int 0))" "phase (slots demo_two ! 0) = SeqDecode"
    "ceil_div (resume_token_capacity PoolSlotKv ?m1 (slots ?m1 ! 0)) (block_size (kv ?m1)) \<le> free_block_count (kv ?m1)"
    by code_simp+
  then show ?thesis
    using detach_attach_roundtrip [OF demo_reachable(2), of 0 ?m1] by (metis prod.collapse)
qed

theorem destroying_the_manager_frees_the_pool_witness:
  "free_block_count (kv (destroy_manager PoolSlotKv demo_two)) = 8"
proof -
  have "physical_block_count (kv demo_two) = 8" by code_simp
  then show ?thesis using destroying_the_manager_frees_the_pool [OF demo_reachable(2)] by simp
qed

end
