(* ===== verification/Seq_Engine.thy ===== *)
theory Seq_Engine
  imports Prefix_Store "HOL-Library.Product_Lexorder"
begin

text \<open>
  The boundary between the scheduler and a backend that holds several live sequences
  (\<open>common/concurrency/seq_engine.h\<close>): the step a scheduler plans, the result an engine returns, the
  distribution of prompt tokens over the waiting prompts, and the check of a result against its plan. Of the plan limits
  only the integer fields are kept; the share of time is a floating-point policy of the caller's clock.
\<close>

section \<open>Planning prompt slices\<close>

record PrefillCandidate =
  cand_slot :: int
  cand_order :: u64

record PrefillSlice =
  slice_slot :: int
  max_tokens :: int

record StepPlanLimits =
  max_prefill_sequences :: int
  max_prefill_tokens_per_sequence :: int
  max_prefill_tokens_total :: int
  prefill_allocation_quantum :: int

text \<open>One pass over the slices in rotated order: what a slice gets, and whether anything was granted. The pass stops when the budget is spent.\<close>

fun grant_round :: "StepPlanLimits \<Rightarrow> nat list \<Rightarrow> PrefillSlice list \<Rightarrow> int \<Rightarrow> bool \<Rightarrow> PrefillSlice list \<times> int \<times> bool" where
  "grant_round limits [] slices budget granted = (slices, budget, granted)"
| "grant_round limits (idx # idxs) slices budget granted =
     (let slice = slices ! idx; room = max_prefill_tokens_per_sequence limits - max_tokens slice in
      if room \<le> 0 then grant_round limits idxs slices budget granted
      else let grant = min (prefill_allocation_quantum limits) (min room budget) in
        if grant \<le> 0 then grant_round limits idxs slices budget granted
        else let slices' = slices[idx := slice\<lparr>max_tokens := max_tokens slice + grant\<rparr>]; budget' = budget - grant in
          if budget' = 0 then (slices', budget', True) else grant_round limits idxs slices' budget' True)"

lemma grant_round_budget:
  "grant_round limits idxs slices budget granted = (slices', budget', granted') \<Longrightarrow> 0 \<le> budget \<Longrightarrow>
     0 \<le> budget' \<and> budget' \<le> budget \<and> (\<not> granted \<longrightarrow> granted' \<longrightarrow> budget' < budget)"
proof (induction idxs arbitrary: slices budget granted)
  case (Cons idx idxs)
  let ?room = "max_prefill_tokens_per_sequence limits - max_tokens (slices ! idx)"
  let ?grant = "min (prefill_allocation_quantum limits) (min ?room budget)"
  show ?case
  proof (cases "?room \<le> 0 \<or> ?grant \<le> 0")
    case True
    then have "grant_round limits (idx # idxs) slices budget granted = grant_round limits idxs slices budget granted"
      by (elim disjE) (simp_all add: Let_def)
    then show ?thesis using Cons.IH [of slices budget granted] Cons.prems by simp
  next
    case False
    let ?s = "slices[idx := (slices ! idx)\<lparr>max_tokens := max_tokens (slices ! idx) + ?grant\<rparr>]"
    have b: "0 \<le> budget - ?grant" "budget - ?grant < budget" using False by auto
    have "grant_round limits (idx # idxs) slices budget granted =
        (if budget - ?grant = 0 then (?s, budget - ?grant, True) else grant_round limits idxs ?s (budget - ?grant) True)"
      using False by (simp add: Let_def)
    then show ?thesis using Cons.IH [of ?s "budget - ?grant" True] Cons.prems b
      by (cases "budget - ?grant = 0") auto
  qed
qed simp

function grant_loop :: "StepPlanLimits \<Rightarrow> nat list \<Rightarrow> PrefillSlice list \<Rightarrow> int \<Rightarrow> PrefillSlice list" where
  "grant_loop limits order slices budget =
     (if budget > 0
      then let (slices', budget', granted) = grant_round limits order slices budget False in
        if granted then grant_loop limits order slices' budget' else slices'
      else slices)"
  by pat_completeness auto
termination
  by (relation "measure (\<lambda>(_, _, _, budget). nat budget)") (auto dest: sym dest!: grant_round_budget)

declare grant_loop.simps [simp del]

definition plan_prefill_slices :: "PrefillCandidate list \<Rightarrow> StepPlanLimits \<Rightarrow> nat \<Rightarrow> PrefillSlice list" where
  "plan_prefill_slices candidates limits round_robin_start =
     (if candidates = [] \<or> max_prefill_sequences limits \<le> 0 \<or> max_prefill_tokens_per_sequence limits \<le> 0 \<or>
         max_prefill_tokens_total limits \<le> 0 \<or> prefill_allocation_quantum limits \<le> 0 then []
      else
        let ordered = sort_key (\<lambda>c. (cand_order c, cand_slot c)) candidates;
            selected = nat (min (int (length ordered)) (max_prefill_sequences limits));
            budget = min (max_prefill_tokens_total limits) (int selected * max_prefill_tokens_per_sequence limits);
            slices = map (\<lambda>c. \<lparr>slice_slot = cand_slot c, max_tokens = 0\<rparr>) (take selected ordered);
            order = map (\<lambda>offset. (round_robin_start + offset) mod length slices) [0..<length slices] in
        filter (\<lambda>slice. \<not> max_tokens slice \<le> 0) (grant_loop limits order slices budget))"

section \<open>Steps and their results\<close>

record StepInput =
  in_slot :: int
  in_token :: token
  allow_speculation :: bool

record DecodeOutput =
  dec_slot :: int
  dec_token :: token
  dec_failed :: bool
  dec_error :: string
  committed_tokens :: "token list"
  spec_offered :: int
  spec_accepted :: int

datatype PrefillStatus = Advanced | Completed | Failed

record PrefillOutput =
  pre_slot :: int
  pre_status :: PrefillStatus
  pre_token :: token
  pre_error :: string
  pre_store :: PrefixStoreEvent

record StepPlan =
  plan_decode :: "StepInput list"
  plan_prefills :: "PrefillSlice list"

record StepResult =
  res_decode :: "DecodeOutput list"
  res_prefills :: "PrefillOutput list"
  res_error :: string

definition step_ok :: "StepResult \<Rightarrow> bool" where
  "step_ok r \<longleftrightarrow> res_error r = []"

text \<open>The tokens of a decode output in order, until the callback refuses one.\<close>

fun consume_tokens :: "(token \<Rightarrow> 's \<Rightarrow> bool \<times> 's) \<Rightarrow> token list \<Rightarrow> 's \<Rightarrow> bool \<times> 's" where
  "consume_tokens advance [] s = (True, s)"
| "consume_tokens advance (t # ts) s =
     (let (more, s') = advance t s in if \<not> more then (False, s') else consume_tokens advance ts s')"

definition consume_decode_output_tokens :: "DecodeOutput \<Rightarrow> (token \<Rightarrow> 's \<Rightarrow> bool \<times> 's) \<Rightarrow> 's \<Rightarrow> bool \<times> 's" where
  "consume_decode_output_tokens output advance s =
     (if dec_failed output then (False, s)
      else let (more, s') = consume_tokens advance (committed_tokens output) s in
        if \<not> more then (False, s') else advance (dec_token output) s')"

section \<open>Checking a result against its plan\<close>

text \<open>
  Each loop of \<open>validate_step_result\<close> is a fold over the flags of the slots; \<open>Inl\<close> is its return with a message. A status
  outside the enumeration does not exist in the datatypes.
\<close>

definition flag_in :: "int \<Rightarrow> bool list \<Rightarrow> bool" where
  "flag_in slot flags \<longleftrightarrow> flags ! nat slot"

definition raise_flag :: "int \<Rightarrow> bool list \<Rightarrow> bool list" where
  "raise_flag slot flags = flags[nat slot := True]"

fun check_inputs :: "int \<Rightarrow> StepInput list \<Rightarrow> bool list \<times> bool list \<Rightarrow> string + bool list \<times> bool list" where
  "check_inputs n [] flags = Inr flags"
| "check_inputs n (i # rest) (planned, speculation) =
     (if in_slot i < 0 \<or> in_slot i \<ge> n \<or> in_token i < 0 then Inl ''decode plan contains an invalid row''
      else if flag_in (in_slot i) planned then Inl ''decode plan contains a duplicate slot''
      else check_inputs n rest (raise_flag (in_slot i) planned, speculation[nat (in_slot i) := allow_speculation i]))"

fun check_slices :: "int \<Rightarrow> bool list \<Rightarrow> PrefillSlice list \<Rightarrow> bool list \<Rightarrow> string + bool list" where
  "check_slices n decode_planned [] planned = Inr planned"
| "check_slices n decode_planned (s # rest) planned =
     (if slice_slot s < 0 \<or> slice_slot s \<ge> n \<or> max_tokens s \<le> 0 then Inl ''prefill plan contains an invalid slice''
      else if flag_in (slice_slot s) decode_planned \<or> flag_in (slice_slot s) planned then Inl ''step plan assigns a slot more than once''
      else check_slices n decode_planned rest (raise_flag (slice_slot s) planned))"

definition decode_payload_error :: "bool \<Rightarrow> DecodeOutput \<Rightarrow> string" where
  "decode_payload_error speculation out =
     (if dec_failed out
      then (if dec_token out \<ge> 0 \<or> committed_tokens out \<noteq> [] \<or> dec_error out = [] then ''failed decode has invalid payload'' else [])
      else if dec_token out < 0 \<or> dec_error out \<noteq> [] then ''successful decode has invalid payload''
      else if \<not> speculation \<and> committed_tokens out \<noteq> [] then ''decode output burst violates disabled speculation''
      else if \<exists>t \<in> set (committed_tokens out). t < 0 then ''decode output burst contains an invalid token''
      else [])"

fun check_decodes :: "int \<Rightarrow> bool list \<Rightarrow> bool list \<Rightarrow> DecodeOutput list \<Rightarrow> bool list \<Rightarrow> string + bool list" where
  "check_decodes n planned speculation [] seen = Inr seen"
| "check_decodes n planned speculation (out # rest) seen =
     (if dec_slot out < 0 \<or> dec_slot out \<ge> n \<or> \<not> flag_in (dec_slot out) planned then Inl ''decode output names an unplanned slot''
      else if flag_in (dec_slot out) seen then Inl ''step returned duplicate decode outputs''
      else let e = decode_payload_error (flag_in (dec_slot out) speculation) out in
        if e \<noteq> [] then Inl e else check_decodes n planned speculation rest (raise_flag (dec_slot out) seen))"

definition store_payload_error :: "PrefillStatus \<Rightarrow> PrefixStoreEvent \<Rightarrow> string" where
  "store_payload_error status store =
     (if ev_status store = EvNone
      then (if ticket_id (ev_ticket store) \<noteq> 0 \<or> ref_id (checkpoint (ev_ticket store)) \<noteq> 0 \<or>
               ref_tokens (checkpoint (ev_ticket store)) \<noteq> 0 \<or> ev_error store \<noteq> [] \<or> ev_bytes store \<noteq> 0 \<or> ev_elapsed_us store \<noteq> 0
            then ''inactive prefix capture carries payload'' else [])
      else if \<not> ticket_valid (ev_ticket store) then ''prefix capture has an invalid ticket''
      else if status = Failed then ''failed prefill carries a prefix capture''
      else if ev_status store = EvSaved \<and> ev_error store \<noteq> [] then ''saved prefix capture carries an error''
      else if ev_status store = EvSaved \<and> ev_bytes store = 0 then ''saved prefix capture omits its byte size''
      else if ev_status store = EvFailed \<and> ev_error store = [] then ''failed prefix capture omits its error''
      else if ev_status store = EvFailed \<and> ev_bytes store \<noteq> 0 then ''failed prefix capture carries committed bytes''
      else [])"

definition prefill_payload_error :: "PrefillOutput \<Rightarrow> string" where
  "prefill_payload_error out =
     (if pre_status out = Advanced \<and> (pre_token out \<ge> 0 \<or> pre_error out \<noteq> []) then ''advanced prefill carries completion payload''
      else if pre_status out = Completed \<and> (pre_token out < 0 \<or> pre_error out \<noteq> []) then ''completed prefill has invalid payload''
      else if pre_status out = Failed \<and> (pre_token out \<ge> 0 \<or> pre_error out = []) then ''failed prefill has invalid payload''
      else store_payload_error (pre_status out) (pre_store out))"

fun check_prefills :: "int \<Rightarrow> bool list \<Rightarrow> PrefillOutput list \<Rightarrow> bool list \<Rightarrow> string + bool list" where
  "check_prefills n planned [] seen = Inr seen"
| "check_prefills n planned (out # rest) seen =
     (if pre_slot out < 0 \<or> pre_slot out \<ge> n \<or> \<not> flag_in (pre_slot out) planned then Inl ''prefill output names an unselected slot''
      else if flag_in (pre_slot out) seen then Inl ''step returned duplicate prefill outputs''
      else let e = prefill_payload_error out in
        if e \<noteq> [] then Inl e else check_prefills n planned rest (raise_flag (pre_slot out) seen))"

definition validate_step_result :: "StepPlan \<Rightarrow> StepResult \<Rightarrow> int \<Rightarrow> string" where
  "validate_step_result plan result slot_count =
     (if slot_count < 1 then ''slot count must be positive''
      else let payload_empty = (res_decode result = [] \<and> res_prefills result = []); clear = replicate (nat slot_count) False in
        if res_error result \<noteq> [] then (if payload_empty then [] else ''fatal result exposes partial payload'')
        else case check_inputs slot_count (plan_decode plan) (clear, clear) of
          Inl e \<Rightarrow> e
        | Inr (decode_planned, speculation) \<Rightarrow>
            (case check_slices slot_count decode_planned (plan_prefills plan) clear of
               Inl e \<Rightarrow> e
             | Inr prefill_planned \<Rightarrow>
                 (case check_decodes slot_count decode_planned speculation (res_decode result) clear of
                    Inl e \<Rightarrow> e
                  | Inr decode_seen \<Rightarrow>
                      (case check_prefills slot_count prefill_planned (res_prefills result) clear of
                         Inl e \<Rightarrow> e
                       | Inr prefill_seen \<Rightarrow>
                           if \<exists>i \<in> set (plan_decode plan). \<not> flag_in (in_slot i) decode_seen
                           then ''step omitted an output for a decode slot''
                           else if \<exists>s \<in> set (plan_prefills plan). \<not> flag_in (slice_slot s) prefill_seen
                           then ''step omitted an output for a selected prefill''
                           else if payload_empty \<and> (plan_decode plan \<noteq> [] \<or> plan_prefills plan \<noteq> [])
                           then ''valid planned work returned no output''
                           else []))))"

end
