(* ===== verification/Thinking_Budget.thy ===== *)
theory Thinking_Budget
  imports Prelude "HOL-Library.Sublist"
begin

text \<open>
  The thinking-budget controller (\<open>common/thinking_budget.h\<close>): it counts the output tokens of one
  generation, recognises the model's own end of thinking, and injects the close sequence once the
  remaining window falls to the reply reserve or a loop close is armed. The class is a record, the
  hash table of windows a function with default \<open>0\<close>, and the hook pointer an option.
\<close>

section \<open>State\<close>

record BudgetHook =
  close_token_ids :: "token list"
  marker_token_ids :: "token list"
  hard_limit_remaining :: int
  loop_span :: int
  loop_repeats :: int

definition reply_reserve_within :: "int \<Rightarrow> int \<Rightarrow> int" where
  "reply_reserve_within reserve output_cap =
     (let half = (if output_cap < 0 then - ((- output_cap) div 2) else output_cap div 2) in
      if reserve < half then reserve else half)"

record ThinkingBudget =
  tb_hook :: "BudgetHook option"
  tb_remaining :: int
  tb_closed :: bool
  tb_forced :: bool
  tb_inject_pos :: nat
  tb_marker_tail :: "token list"
  tb_loop_ring :: "token list"
  tb_loop_windows :: "u64 \<Rightarrow> int"
  tb_loop_hash :: u64
  tb_loop_drop :: u64
  tb_loop_seen :: int
  tb_looping :: bool
  tb_loop_armed :: bool

definition kLoopBase :: u64 where
  "kLoopBase = 0x9E3779B97F4A7C15"

definition new_thinking_budget :: "BudgetHook option \<Rightarrow> int \<Rightarrow> ThinkingBudget" where
  "new_thinking_budget hook n_gen =
     (let loops = (case hook of None \<Rightarrow> False
            | Some h \<Rightarrow> close_token_ids h \<noteq> [] \<and> loop_repeats h > 1 \<and> loop_span h > 0);
          span = (case hook of None \<Rightarrow> 0 | Some h \<Rightarrow> nat (loop_span h)) in
      \<lparr>tb_hook = hook, tb_remaining = n_gen, tb_closed = False, tb_forced = False, tb_inject_pos = 0,
       tb_marker_tail = [], tb_loop_ring = (if loops then replicate span 0 else []),
       tb_loop_windows = (\<lambda>_. 0), tb_loop_hash = 0,
       tb_loop_drop = (if loops then kLoopBase ^ (span - 1) else 0), tb_loop_seen = 0,
       tb_looping = False, tb_loop_armed = False\<rparr>)"

text \<open>The close sequence; empty without a hook.\<close>

definition tb_close :: "ThinkingBudget \<Rightarrow> token list" where
  "tb_close b = (case tb_hook b of None \<Rightarrow> [] | Some h \<Rightarrow> close_token_ids h)"

definition tb_marker :: "ThinkingBudget \<Rightarrow> token list" where
  "tb_marker b = (case tb_hook b of None \<Rightarrow> [] | Some h \<Rightarrow> marker_token_ids h)"

definition tb_limit :: "ThinkingBudget \<Rightarrow> int" where
  "tb_limit b = (case tb_hook b of None \<Rightarrow> 0 | Some h \<Rightarrow> hard_limit_remaining h)"

definition injecting :: "ThinkingBudget \<Rightarrow> bool" where
  "injecting b \<longleftrightarrow> tb_forced b \<and> tb_inject_pos b < length (tb_close b)"

definition settled :: "ThinkingBudget \<Rightarrow> bool" where
  "settled b \<longleftrightarrow> tb_hook b = None \<or> tb_close b = [] \<or> tb_closed b \<or> (tb_forced b \<and> \<not> injecting b)"

definition needs_ar_tail :: "ThinkingBudget \<Rightarrow> int \<Rightarrow> bool" where
  "needs_ar_tail b max_block_tokens \<longleftrightarrow>
     \<not> settled b \<and> (tb_looping b \<or> tb_remaining b - tb_limit b \<le> max_block_tokens)"

definition looping :: "ThinkingBudget \<Rightarrow> bool" where
  "looping b \<longleftrightarrow> tb_looping b \<and> \<not> settled b"

definition arm_loop_close :: "ThinkingBudget \<Rightarrow> ThinkingBudget" where
  "arm_loop_close b = (if looping b then b\<lparr>tb_loop_armed := True\<rparr> else b)"

definition pending_close_tokens :: "ThinkingBudget \<Rightarrow> nat" where
  "pending_close_tokens b = (if injecting b then length (tb_close b) - tb_inject_pos b else 0)"

definition pending_close_token :: "ThinkingBudget \<Rightarrow> nat \<Rightarrow> token" where
  "pending_close_token b offset = tb_close b ! (tb_inject_pos b + offset)"

section \<open>One token\<close>

definition completes_marker :: "ThinkingBudget \<Rightarrow> token \<Rightarrow> bool" where
  "completes_marker b t =
     (let marker = tb_marker b in
      if marker = [] \<or> t \<noteq> last marker then False
      else let need = length marker - 1 in
        if length (tb_marker_tail b) < need then False
        else \<forall>i \<in> set [0..<need]. tb_marker_tail b ! i = marker ! i)"

text \<open>
  The rolling hash of the last \<open>span\<close> tokens. A stored token is widened with its sign when it leaves
  the window, without it when it enters.
\<close>

definition repeats :: "ThinkingBudget \<Rightarrow> token \<Rightarrow> bool \<times> ThinkingBudget" where
  "repeats b t =
     (let span = length (tb_loop_ring b);
          i = nat (tb_loop_seen b) mod span;
          h1 = (if tb_loop_seen b \<ge> int span
                then tb_loop_hash b - word_of_int (tb_loop_ring b ! i) * tb_loop_drop b else tb_loop_hash b);
          h2 = h1 * kLoopBase + ucast (word_of_int t :: 32 word);
          b1 = b\<lparr>tb_loop_hash := h2, tb_loop_ring := (tb_loop_ring b)[i := t], tb_loop_seen := tb_loop_seen b + 1\<rparr> in
      if tb_loop_seen b + 1 < int span then (False, b1)
      else let n = tb_loop_windows b h2 + 1 in
        ((case tb_hook b of None \<Rightarrow> False | Some h \<Rightarrow> n \<ge> loop_repeats h),
         b1\<lparr>tb_loop_windows := (tb_loop_windows b)(h2 := n)\<rparr>))"

definition remember :: "ThinkingBudget \<Rightarrow> token \<Rightarrow> ThinkingBudget" where
  "remember b t =
     (let size = length (tb_marker b) in
      if size < 2 then b
      else let tail = (if length (tb_marker_tail b) = size - 1 then tl (tb_marker_tail b) else tb_marker_tail b)
           in b\<lparr>tb_marker_tail := tail @ [t]\<rparr>)"

text \<open>The token to emit, whether a speculative block is cut here, and the controller after it.\<close>

definition apply_token :: "ThinkingBudget \<Rightarrow> token \<Rightarrow> (token \<times> bool) \<times> ThinkingBudget" where
  "apply_token b0 candidate =
     (let before = tb_remaining b0; b = b0\<lparr>tb_remaining := before - 1\<rparr> in
      if settled b then ((candidate, False), b)
      else if tb_forced b
      then let t = tb_close b ! tb_inject_pos b in ((t, t \<noteq> candidate), b\<lparr>tb_inject_pos := tb_inject_pos b + 1\<rparr>)
      else if completes_marker b candidate
      then ((candidate, False), b\<lparr>tb_closed := True, tb_marker_tail := []\<rparr>)
      else if before > tb_limit b \<and> \<not> tb_loop_armed b
      then let b1 = remember b candidate in
        ((candidate, False),
         if \<not> tb_looping b1 \<and> tb_loop_ring b1 \<noteq> []
         then (let (r, b2) = repeats b1 candidate in b2\<lparr>tb_looping := r\<rparr>) else b1)
      else ((hd (tb_close b), True), b\<lparr>tb_forced := True, tb_inject_pos := 1, tb_marker_tail := []\<rparr>))"

text \<open>The block as it is left in place, how many of its tokens are kept, and the controller.\<close>

fun apply_block :: "ThinkingBudget \<Rightarrow> token list \<Rightarrow> token list \<times> nat \<times> ThinkingBudget" where
  "apply_block b [] = ([], 0, b)"
| "apply_block b (t # ts) =
     (if settled b
      then (t # ts, length (t # ts), b\<lparr>tb_remaining := tb_remaining b - int (length (t # ts))\<rparr>)
      else let ((tok, cuts), b1) = apply_token b t in
        if cuts then (tok # ts, 1, b1)
        else let (arr, k, b2) = apply_block b1 ts in (tok # arr, Suc k, b2))"

section \<open>A generation, token by token\<close>

fun run_tokens :: "ThinkingBudget \<Rightarrow> token list \<Rightarrow> token list \<times> ThinkingBudget" where
  "run_tokens b [] = ([], b)"
| "run_tokens b (t # ts) =
     (let ((tok, cuts), b1) = apply_token b t; (out, b2) = run_tokens b1 ts in (tok # out, b2))"

text \<open>
  The intended effect on the emitted tokens, for a budget of \<open>p\<close> thinking tokens: if one of the first \<open>p + 1\<close>
  tokens completes the marker nothing is changed, else the close sequence replaces what stands from position \<open>p\<close> on.
\<close>

definition closes_by :: "token list \<Rightarrow> nat \<Rightarrow> token list \<Rightarrow> bool" where
  "closes_by marker p cs \<longleftrightarrow> marker \<noteq> [] \<and> (\<exists>i \<in> set [0..<length cs]. i \<le> p \<and> suffix marker (take (Suc i) cs))"

definition budget_spec :: "token list \<Rightarrow> token list \<Rightarrow> nat \<Rightarrow> token list \<Rightarrow> token list" where
  "budget_spec close marker p cs =
     (if close = [] \<or> closes_by marker p cs then cs
      else take (length cs) (take p cs @ close) @ drop (p + length close) cs)"

lemma tb_view_simps [simp]:
  "tb_close (b\<lparr>tb_remaining := r\<rparr>) = tb_close b" "tb_close (b\<lparr>tb_inject_pos := i\<rparr>) = tb_close b"
  "tb_marker (b\<lparr>tb_remaining := r\<rparr>) = tb_marker b" "tb_limit (b\<lparr>tb_remaining := r\<rparr>) = tb_limit b"
  "tb_close (b\<lparr>tb_forced := f, tb_inject_pos := i, tb_marker_tail := m\<rparr>) = tb_close b"
  "tb_close (b\<lparr>tb_remaining := r, tb_inject_pos := i\<rparr>) = tb_close b"
  "tb_close (b\<lparr>tb_remaining := r, tb_forced := f, tb_inject_pos := i, tb_marker_tail := m\<rparr>) = tb_close b"
  "tb_close (b\<lparr>tb_remaining := r, tb_closed := f, tb_marker_tail := m\<rparr>) = tb_close b"
  by (simp_all add: tb_close_def tb_marker_def tb_limit_def)

lemma completes_marker_view [simp]: "completes_marker (b\<lparr>tb_remaining := r\<rparr>) t = completes_marker b t"
  unfolding completes_marker_def by simp

section \<open>The marker\<close>

definition lastn :: "nat \<Rightarrow> 'a list \<Rightarrow> 'a list" where
  "lastn n xs = drop (length xs - n) xs"

lemma suffix_snoc_iff:
  assumes "marker \<noteq> []"
  shows "suffix marker (hist @ [t]) \<longleftrightarrow> t = last marker \<and> suffix (butlast marker) hist"
proof -
  have "suffix (butlast marker @ [last marker]) (hist @ [t]) \<longleftrightarrow> last marker = t \<and> suffix (butlast marker) hist"
    by (auto simp: suffix_def)
  then show ?thesis using assms by auto
qed

lemma suffix_lastn: "suffix ys xs \<longleftrightarrow> length ys \<le> length xs \<and> lastn (length ys) xs = ys"
proof
  assume "suffix ys xs"
  then obtain zs where "xs = zs @ ys" by (auto simp: suffix_def)
  then show "length ys \<le> length xs \<and> lastn (length ys) xs = ys" by (simp add: lastn_def)
next
  assume "length ys \<le> length xs \<and> lastn (length ys) xs = ys"
  then have "drop (length xs - length ys) xs = ys" unfolding lastn_def by (rule conjunct2)
  with suffix_drop [of "length xs - length ys" xs] show "suffix ys xs" by (rule back_subst [of "\<lambda>zs. suffix zs xs"])
qed

lemma completes_marker_iff:
  assumes tail: "tb_marker_tail b = lastn (length (tb_marker b) - 1) hist"
  shows "completes_marker b t \<longleftrightarrow> tb_marker b \<noteq> [] \<and> suffix (tb_marker b) (hist @ [t])"
proof (cases "tb_marker b = []")
  case False
  let ?m = "tb_marker b" and ?n = "length (tb_marker b) - 1"
  have len: "length (tb_marker_tail b) = min ?n (length hist)" by (simp add: tail lastn_def)
  have bl: "length (butlast ?m) = ?n" by simp
  have "suffix (butlast ?m) hist \<longleftrightarrow> ?n \<le> length hist \<and> tb_marker_tail b = butlast ?m"
    using suffix_lastn [of "butlast ?m" hist] tail by simp
  also have "\<dots> \<longleftrightarrow> \<not> length (tb_marker_tail b) < ?n \<and> (\<forall>i \<in> set [0..<?n]. tb_marker_tail b ! i = ?m ! i)"
  proof -
    have "tb_marker_tail b = butlast ?m \<longleftrightarrow> length (tb_marker_tail b) = ?n \<and> (\<forall>i < ?n. tb_marker_tail b ! i = ?m ! i)"
      unfolding list_eq_iff_nth_eq by (auto simp: nth_butlast)
    moreover have "?n \<le> length hist \<longleftrightarrow> \<not> length (tb_marker_tail b) < ?n" "?n \<le> length hist \<Longrightarrow> length (tb_marker_tail b) = ?n"
      using len by linarith+
    ultimately show ?thesis by auto
  qed
  finally show ?thesis using False suffix_snoc_iff [OF False, of hist t] by (auto simp: completes_marker_def Let_def)
qed (simp add: completes_marker_def)

lemma lastn_snoc: "n > 0 \<Longrightarrow> lastn n (hist @ [t]) = (if length (lastn n hist) = n then tl (lastn n hist) else lastn n hist) @ [t]"
proof (cases "n \<le> length hist")
  case True
  assume "n > 0"
  have "tl (drop (length hist - n) hist) = drop (Suc (length hist - n)) hist" by (simp add: drop_Suc tl_drop)
  then show ?thesis using True \<open>n > 0\<close> by (simp add: lastn_def Suc_diff_le)
next
  case False
  then show ?thesis by (simp add: lastn_def)
qed

section \<open>Runs\<close>

lemma run_settled: "settled b \<Longrightarrow> run_tokens b ts = (ts, b\<lparr>tb_remaining := tb_remaining b - int (length ts)\<rparr>)"
proof (induction ts arbitrary: b)
  case (Cons t ts)
  let ?b = "b\<lparr>tb_remaining := tb_remaining b - 1\<rparr>"
  have "settled ?b" using Cons.prems by (simp add: settled_def injecting_def tb_close_def)
  then show ?case using Cons.IH [of ?b] by (simp add: apply_token_def Let_def)
qed simp

lemma run_forced:
  assumes "tb_forced b" "\<not> tb_closed b" "tb_hook b \<noteq> None" "tb_close b \<noteq> []" "tb_inject_pos b \<le> length (tb_close b)"
  shows "fst (run_tokens b ts) = take (length ts) (drop (tb_inject_pos b) (tb_close b)) @ drop (length (tb_close b) - tb_inject_pos b) ts"
  using assms
proof (induction ts arbitrary: b)
  case (Cons t ts)
  show ?case
  proof (cases "tb_inject_pos b < length (tb_close b)")
    case True
    let ?b = "b\<lparr>tb_remaining := tb_remaining b - 1, tb_inject_pos := tb_inject_pos b + 1\<rparr>"
    have "\<not> settled (b\<lparr>tb_remaining := tb_remaining b - 1\<rparr>)" using Cons.prems True by (simp add: settled_def injecting_def)
    then have "apply_token b t = ((tb_close b ! tb_inject_pos b, tb_close b ! tb_inject_pos b \<noteq> t), ?b)"
      using Cons.prems by (simp add: apply_token_def Let_def)
    moreover have "fst (run_tokens ?b ts) = take (length ts) (drop (Suc (tb_inject_pos b)) (tb_close b)) @ drop (length (tb_close b) - Suc (tb_inject_pos b)) ts"
      using Cons.IH [of ?b] Cons.prems True by simp
    moreover have "drop (tb_inject_pos b) (tb_close b) = tb_close b ! tb_inject_pos b # drop (Suc (tb_inject_pos b)) (tb_close b)"
      using True by (rule Cons_nth_drop_Suc [symmetric])
    moreover have "length (tb_close b) - tb_inject_pos b = Suc (length (tb_close b) - Suc (tb_inject_pos b))" using True by simp
    ultimately show ?thesis by (simp add: case_prod_beta)
  next
    case False
    then have "settled b" using Cons.prems by (simp add: settled_def injecting_def)
    then show ?thesis using run_settled [of b "t # ts"] False by simp
  qed
qed simp

text \<open>The controller while the model thinks, after the tokens \<open>hist\<close> of \<open>n\<close>.\<close>

definition thinking :: "BudgetHook \<Rightarrow> int \<Rightarrow> token list \<Rightarrow> ThinkingBudget \<Rightarrow> bool" where
  "thinking h n hist b \<longleftrightarrow> tb_hook b = Some h \<and> \<not> tb_closed b \<and> \<not> tb_forced b \<and> \<not> tb_loop_armed b \<and>
     tb_remaining b = n - int (length hist) \<and> tb_marker_tail b = lastn (length (marker_token_ids h) - 1) hist"

lemma thinking_new: "thinking h n [] (new_thinking_budget (Some h) n)"
  by (simp add: thinking_def new_thinking_budget_def Let_def lastn_def)

lemma repeats_fields:
  "tb_hook (snd (repeats b t)) = tb_hook b" "tb_closed (snd (repeats b t)) = tb_closed b" "tb_forced (snd (repeats b t)) = tb_forced b"
  "tb_loop_armed (snd (repeats b t)) = tb_loop_armed b" "tb_remaining (snd (repeats b t)) = tb_remaining b"
  "tb_marker_tail (snd (repeats b t)) = tb_marker_tail b"
  by (simp_all add: repeats_def Let_def)

lemma thinking_continue:
  assumes th: "thinking h n hist b" and ne: "close_token_ids h \<noteq> []" and nm: "\<not> completes_marker b t"
    and more: "tb_remaining b > hard_limit_remaining h"
  shows "\<exists>b'. apply_token b t = ((t, False), b') \<and> thinking h n (hist @ [t]) b'"
proof -
  let ?b = "b\<lparr>tb_remaining := tb_remaining b - 1\<rparr>"
  have f: "tb_close b = close_token_ids h" "tb_limit b = hard_limit_remaining h" "tb_marker b = marker_token_ids h"
    using th by (simp_all add: thinking_def tb_close_def tb_limit_def tb_marker_def)
  have ns: "\<not> settled ?b" using th ne f(1) by (simp add: settled_def thinking_def)
  have nm': "\<not> completes_marker ?b t" using nm by simp
  let ?b1 = "remember ?b t"
  have tail: "tb_marker_tail ?b1 = lastn (length (marker_token_ids h) - 1) (hist @ [t])"
  proof (cases "length (marker_token_ids h) < 2")
    case True
    then show ?thesis using th by (simp add: remember_def f thinking_def lastn_def)
  next
    case False
    then show ?thesis using th lastn_snoc [of "length (marker_token_ids h) - 1" hist t]
      by (simp add: remember_def f Let_def thinking_def)
  qed
  have th1: "thinking h n (hist @ [t]) ?b1" using th tail
    by (auto simp: thinking_def remember_def f Let_def)
  let ?b2 = "if \<not> tb_looping ?b1 \<and> tb_loop_ring ?b1 \<noteq> [] then (let (r, b2) = repeats ?b1 t in b2\<lparr>tb_looping := r\<rparr>) else ?b1"
  have "apply_token b t = ((t, False), ?b2)"
    using ns nm' more th by (simp add: apply_token_def Let_def f thinking_def)
  moreover have "thinking h n (hist @ [t]) ?b2"
    using th1 repeats_fields [of ?b1 t] by (auto simp: thinking_def Let_def case_prod_beta)
  ultimately show ?thesis by blast
qed

lemma not_closes_at_limit:
  assumes "\<not> closes_by marker p hist" "length hist = p" "marker \<noteq> [] \<longrightarrow> \<not> suffix marker (hist @ [t])"
  shows "\<not> closes_by marker p (hist @ t # ts)"
proof
  assume "closes_by marker p (hist @ t # ts)"
  then obtain i where i: "marker \<noteq> []" "i \<le> p" "suffix marker (take (Suc i) (hist @ t # ts))" by (auto simp: closes_by_def)
  show False
  proof (cases "i = p")
    case True
    then show False using i assms(2,3) by simp
  next
    case False
    then have "i < length hist" "take (Suc i) (hist @ t # ts) = take (Suc i) hist" using i assms(2) by auto
    then show False using i assms(1) by (auto simp: closes_by_def)
  qed
qed

lemma not_closes_snoc:
  assumes "\<not> closes_by marker p hist" "marker \<noteq> [] \<longrightarrow> \<not> suffix marker (hist @ [t])"
  shows "\<not> closes_by marker p (hist @ [t])"
  using assms by (auto simp: closes_by_def less_Suc_eq)

lemma budget_spec_nth:
  assumes "i < p" "i < length cs"
  shows "budget_spec close marker p cs ! i = cs ! i"
  using assms by (auto simp: budget_spec_def nth_append)

lemma length_budget_spec: "length (budget_spec close marker p cs) = length cs"
  by (auto simp: budget_spec_def)

text \<open>A run of the controller emits what the specification says.\<close>

lemma run_thinking:
  assumes "thinking h n hist b" "close_token_ids h \<noteq> []" "length hist \<le> p" "p = nat (n - hard_limit_remaining h)"
    "\<not> closes_by (marker_token_ids h) p hist"
  shows "fst (run_tokens b ts) = drop (length hist) (budget_spec (close_token_ids h) (marker_token_ids h) p (hist @ ts))"
  using assms
proof (induction ts arbitrary: b hist)
  case Nil
  then show ?case by (simp add: length_budget_spec)
next
  case (Cons t ts)
  let ?c = "close_token_ids h" and ?m = "marker_token_ids h"
  note th = Cons.prems(1)
  have f: "tb_close b = ?c" "tb_limit b = hard_limit_remaining h" "tb_marker b = ?m" "tb_hook b = Some h"
    using th by (simp_all add: thinking_def tb_close_def tb_limit_def tb_marker_def)
  have cm: "completes_marker b t \<longleftrightarrow> ?m \<noteq> [] \<and> suffix ?m (hist @ [t])"
    using completes_marker_iff [of b hist t] th by (simp add: f thinking_def)
  let ?b = "b\<lparr>tb_remaining := tb_remaining b - 1\<rparr>"
  have ns: "\<not> settled ?b" using th Cons.prems(2) f by (simp add: settled_def thinking_def)
  consider (close) "completes_marker b t" | (go) "\<not> completes_marker b t" "length hist < p"
    | (force) "\<not> completes_marker b t" "length hist = p" using Cons.prems(3) by linarith
  then show ?case
  proof cases
    case close
    let ?b' = "?b\<lparr>tb_closed := True, tb_marker_tail := []\<rparr>"
    have "apply_token b t = ((t, False), ?b')" using ns close th by (simp add: apply_token_def Let_def thinking_def)
    moreover have "settled ?b'" by (simp add: settled_def)
    ultimately have out: "fst (run_tokens b (t # ts)) = t # ts" using run_settled [of ?b' ts] by simp
    have "closes_by ?m p (hist @ t # ts)"
      using close cm Cons.prems(3) by (auto simp: closes_by_def intro!: bexI [of _ "length hist"])
    then show ?thesis using out by (simp add: budget_spec_def)
  next
    case go
    have "tb_remaining b > hard_limit_remaining h" using go Cons.prems(4) th by (simp add: thinking_def)
    then obtain b' where b': "apply_token b t = ((t, False), b')" "thinking h n (hist @ [t]) b'"
      using thinking_continue [OF th Cons.prems(2) go(1)] by blast
    have "fst (run_tokens b' ts) = drop (length (hist @ [t])) (budget_spec ?c ?m p ((hist @ [t]) @ ts))"
      using Cons.IH [OF b'(2) Cons.prems(2) _ Cons.prems(4)] not_closes_snoc Cons.prems(5) go cm by auto
    moreover have "drop (length hist) (budget_spec ?c ?m p (hist @ t # ts)) = t # drop (Suc (length hist)) (budget_spec ?c ?m p (hist @ t # ts))"
      using Cons_nth_drop_Suc [of "length hist" "budget_spec ?c ?m p (hist @ t # ts)"] budget_spec_nth [of "length hist" p "hist @ t # ts" ?c ?m] go
      by (simp add: length_budget_spec)
    ultimately show ?thesis using b'(1) by (simp add: case_prod_beta)
  next
    case force
    let ?b' = "?b\<lparr>tb_forced := True, tb_inject_pos := 1, tb_marker_tail := []\<rparr>"
    have "\<not> tb_remaining b > hard_limit_remaining h" using force Cons.prems(4) th by (simp add: thinking_def)
    then have ap: "apply_token b t = ((hd ?c, True), ?b')"
      using ns force th f by (simp add: apply_token_def Let_def thinking_def)
    have "length ?c \<ge> 1" using Cons.prems(2) by (cases ?c) auto
    then have "fst (run_tokens ?b' ts) = take (length ts) (drop 1 ?c) @ drop (length ?c - 1) ts"
      using run_forced [of ?b' ts] th f Cons.prems(2) by (simp add: thinking_def)
    then have out: "fst (run_tokens b (t # ts)) = hd ?c # take (length ts) (tl ?c) @ drop (length ?c - 1) ts"
      using ap by (simp add: case_prod_beta drop_Suc)
    have nc: "\<not> closes_by ?m p (hist @ t # ts)"
      using not_closes_at_limit [OF Cons.prems(5) force(2)] force(1) cm by blast
    obtain a cs where c: "?c = a # cs" using Cons.prems(2) by (cases ?c) auto
    show ?thesis unfolding out using nc force(2) by (simp add: budget_spec_def c)
  qed
qed

lemma run_new_budget:
  "fst (run_tokens (new_thinking_budget (Some h) n_gen) candidates) =
     budget_spec (close_token_ids h) (marker_token_ids h) (nat (n_gen - hard_limit_remaining h)) candidates"
proof (cases "close_token_ids h = []")
  case True
  then have "settled (new_thinking_budget (Some h) n_gen)" by (simp add: settled_def new_thinking_budget_def tb_close_def Let_def)
  then show ?thesis using run_settled True by (simp add: budget_spec_def)
next
  case False
  have "\<not> closes_by (marker_token_ids h) (nat (n_gen - hard_limit_remaining h)) []" by (simp add: closes_by_def)
  from run_thinking [OF thinking_new False _ refl this, where ts = candidates] show ?thesis by simp
qed

section \<open>Properties\<close>

text \<open>
  C26. The controller emits what its budget promises. For a generation of \<open>n_gen\<close> tokens whose loop close is never
  armed, with \<open>p = n_gen - hard_limit_remaining\<close> thinking tokens allowed: if the model ends
  thinking itself within the first \<open>p + 1\<close> tokens its output is untouched; otherwise the output is the first \<open>p\<close> tokens, the
  close sequence and then the model's tokens again.
\<close>

theorem thinking_budget_meets_spec:
  "fst (run_tokens (new_thinking_budget (Some h) n_gen) candidates) =
     budget_spec (close_token_ids h) (marker_token_ids h) (nat (n_gen - hard_limit_remaining h)) candidates"
  by (rule run_new_budget)

text \<open>
  A speculative block is accounted as its tokens one by one: the kept part of the block, and the
  controller after it, are those of applying the controller to the kept candidates in order.
\<close>

theorem apply_block_is_tokenwise:
  assumes "apply_block b ts = (arr, k, b')"
  shows "k \<le> length ts \<and> length arr = length ts \<and> drop k arr = drop k ts \<and> run_tokens b (take k ts) = (take k arr, b') \<and>
    tb_remaining b' = tb_remaining b - int k"
  using assms
proof (induction b ts arbitrary: arr k b' rule: apply_block.induct)
  case (2 b t ts)
  have rem: "tb_remaining (snd (apply_token b t)) = tb_remaining b - 1"
    by (simp add: apply_token_def Let_def case_prod_beta repeats_fields remember_def)
  show ?case
  proof (cases "settled b")
    case True
    then show ?thesis using 2(2) run_settled [OF True, of "t # ts"] by auto
  next
    case False
    obtain tok cuts b1 where ap: "apply_token b t = ((tok, cuts), b1)" by (metis surj_pair)
    show ?thesis
    proof (cases cuts)
      case True
      then show ?thesis using 2(2) False ap rem by auto
    next
      case no: False
      obtain arr1 k1 b2 where bl: "apply_block b1 ts = (arr1, k1, b2)" by (metis prod_cases3)
      have "arr = tok # arr1" "k = Suc k1" "b' = b2" using 2(2) False ap no bl by auto
      moreover have "k1 \<le> length ts \<and> length arr1 = length ts \<and> drop k1 arr1 = drop k1 ts \<and> run_tokens b1 (take k1 ts) = (take k1 arr1, b2) \<and>
          tb_remaining b2 = tb_remaining b1 - int k1"
        using 2(1) [OF False ap [symmetric] refl refl no bl] .
      ultimately show ?thesis using ap rem by auto
    qed
  qed
qed simp

definition demo_hook :: BudgetHook where
  "demo_hook = \<lparr>close_token_ids = [7, 8], marker_token_ids = [9], hard_limit_remaining = 2, loop_span = 64, loop_repeats = 0\<rparr>"

theorem apply_block_is_tokenwise_witness:
  "fst (apply_block (new_thinking_budget (Some demo_hook) 4) [1, 2, 3, 4]) = [1, 2, 7, 4] \<and>
   fst (run_tokens (new_thinking_budget (Some demo_hook) 4) [1, 2, 3]) = [1, 2, 7]"
proof -
  let ?r = "apply_block (new_thinking_budget (Some demo_hook) 4) [1, 2, 3, 4]"
  have r: "fst ?r = [1, 2, 7, 4]" "fst (snd ?r) = 3" by code_simp+
  have "?r = (fst ?r, fst (snd ?r), snd (snd ?r))" by simp
  from apply_block_is_tokenwise [OF this] show ?thesis unfolding r by simp
qed

end
