(* ===== verification/Client_Send_Buffer.thy ===== *)
theory Client_Send_Buffer
  imports Prelude
begin

text \<open>
  The buffered non-blocking writer of one client socket (\<open>server/client_send_buffer.h\<close>). The operating system is
  the environment: what the successive \<open>send\<close> calls of a flush return is a list of answers, chosen freely
  within what \<open>send\<close> documents (it accepts at most the bytes it was offered). A flush that waits for an
  answer beyond the list has not returned, which is the value None.
\<close>

section \<open>State and operations\<close>

text \<open>A \<open>send\<close> result: bytes accepted, would-block, interrupted, or any other error.\<close>

datatype send_answer = Sent nat | WouldBlock | Interrupted | SendError

record ClientSendBuffer =
  csb_buf :: "u8 list"
  csb_off :: nat
  csb_last_progress :: int

definition kCompactAt :: nat where "kCompactAt = 65536"

definition new_send_buffer :: ClientSendBuffer where
  "new_send_buffer = \<lparr>csb_buf = [], csb_off = 0, csb_last_progress = 0\<rparr>"

definition csb_append :: "ClientSendBuffer \<Rightarrow> u8 list \<Rightarrow> ClientSendBuffer" where
  "csb_append b bytes = b\<lparr>csb_buf := csb_buf b @ bytes\<rparr>"

definition csb_empty :: "ClientSendBuffer \<Rightarrow> bool" where
  "csb_empty b \<longleftrightarrow> csb_off b = length (csb_buf b)"

definition csb_pending :: "ClientSendBuffer \<Rightarrow> nat" where
  "csb_pending b = length (csb_buf b) - csb_off b"

text \<open>
  A call of \<open>send\<close> with a pointer to the bytes \<open>memory\<close> and a length: what its answer puts on the wire. Only the bytes offered by pointer and
  length can go out.
\<close>

definition send_some :: "u8 list \<Rightarrow> nat \<Rightarrow> send_answer \<Rightarrow> u8 list \<Rightarrow> u8 list" where
  "send_some memory len a wire = (case a of Sent n \<Rightarrow> wire @ take n (take len memory) | _ \<Rightarrow> wire)"

text \<open>The loop of \<open>flush\<close>: whether it may go on, the new offset, the wire and the answers not yet asked for.\<close>

fun send_loop :: "u8 list \<Rightarrow> nat \<Rightarrow> u8 list \<Rightarrow> send_answer list \<Rightarrow> (bool \<times> nat \<times> u8 list \<times> send_answer list) option" where
  "send_loop buf off wire answers =
     (if \<not> off < length buf then Some (True, off, wire, answers)
      else case answers of
        [] \<Rightarrow> None
      | a # rest \<Rightarrow>
          (let wire' = send_some (drop off buf) (length buf - off) a wire in
           case a of
             Sent n \<Rightarrow> if n > 0 then send_loop buf (off + n) wire' rest else Some (False, off, wire', rest)
           | WouldBlock \<Rightarrow> Some (True, off, wire', rest)
           | Interrupted \<Rightarrow> send_loop buf off wire' rest
           | SendError \<Rightarrow> Some (False, off, wire', rest)))"

definition flush :: "int \<Rightarrow> send_answer list \<Rightarrow> ClientSendBuffer \<Rightarrow> u8 list \<Rightarrow> (bool \<times> ClientSendBuffer \<times> u8 list) option" where
  "flush now answers b wire =
     (case send_loop (csb_buf b) (csb_off b) wire answers of
        None \<Rightarrow> None
      | Some (ok, off, wire', _) \<Rightarrow>
          if \<not> ok then Some (False, b\<lparr>csb_off := off\<rparr>, wire')
          else let made_progress = off \<noteq> csb_off b;
                   b1 = (if off = length (csb_buf b) then b\<lparr>csb_buf := [], csb_off := 0\<rparr>
                         else if off > kCompactAt then b\<lparr>csb_buf := drop off (csb_buf b), csb_off := 0\<rparr>
                         else b\<lparr>csb_off := off\<rparr>)
               in Some (True, if made_progress then b1\<lparr>csb_last_progress := now\<rparr> else b1, wire'))"

definition should_drop :: "ClientSendBuffer \<Rightarrow> int \<Rightarrow> int \<Rightarrow> nat \<Rightarrow> bool" where
  "should_drop b now stall limit \<longleftrightarrow>
     \<not> csb_empty b \<and> (csb_pending b > limit \<or> now - csb_last_progress b > stall)"

definition mark_progress :: "ClientSendBuffer \<Rightarrow> int \<Rightarrow> ClientSendBuffer" where
  "mark_progress b now = b\<lparr>csb_last_progress := now\<rparr>"

section \<open>The connection\<close>

text \<open>What \<open>send\<close> documents: it never accepts more than it was offered.\<close>

fun answers_ok :: "nat \<Rightarrow> send_answer list \<Rightarrow> bool" where
  "answers_ok left [] = True"
| "answers_ok left (Sent n # rest) = (n \<le> left \<and> answers_ok (left - n) rest)"
| "answers_ok left (_ # rest) = answers_ok left rest"

text \<open>The buffer with what was appended to it and what the peer was sent.\<close>

record connection =
  con_buf :: ClientSendBuffer
  con_appended :: "u8 list"
  con_wire :: "u8 list"

inductive con_step :: "connection \<Rightarrow> connection \<Rightarrow> bool" where
  append: "con_step s (s\<lparr>con_buf := csb_append (con_buf s) bytes, con_appended := con_appended s @ bytes\<rparr>)"
| flush: "answers_ok (csb_pending (con_buf s)) answers \<Longrightarrow> flush now answers (con_buf s) (con_wire s) = Some (ok, b', wire') \<Longrightarrow>
    con_step s (s\<lparr>con_buf := b', con_wire := wire'\<rparr>)"
| mark: "con_step s (s\<lparr>con_buf := mark_progress (con_buf s) now\<rparr>)"

inductive con_reachable :: "connection \<Rightarrow> bool" where
  init: "con_reachable \<lparr>con_buf = new_send_buffer, con_appended = [], con_wire = []\<rparr>"
| step: "con_reachable s \<Longrightarrow> con_step s t \<Longrightarrow> con_reachable t"

inductive_cases con_stepE: "con_step s t"

section \<open>Lemmas\<close>

declare send_loop.simps [simp del]

lemma send_loop_full [simp]: "\<not> off < length buf \<Longrightarrow> send_loop buf off wire answers = Some (True, off, wire, answers)"
  by (simp add: send_loop.simps)

lemma send_loop_more [simp]:
  "off < length buf \<Longrightarrow> send_loop buf off wire [] = None"
  "off < length buf \<Longrightarrow> send_loop buf off wire (a # rest) =
     (case a of Sent n \<Rightarrow> if n > 0 then send_loop buf (off + n) (wire @ take n (drop off buf)) rest else Some (False, off, wire, rest)
      | WouldBlock \<Rightarrow> Some (True, off, wire, rest) | Interrupted \<Rightarrow> send_loop buf off wire rest | SendError \<Rightarrow> Some (False, off, wire, rest))"
  by (simp_all add: send_loop.simps [of buf off] send_some_def split: send_answer.split)

lemma send_loop_sends:
  "off \<le> length buf \<Longrightarrow> answers_ok (length buf - off) answers \<Longrightarrow> send_loop buf off wire answers = Some (ok, off', wire', rest) \<Longrightarrow>
     off \<le> off' \<and> off' \<le> length buf \<and> wire' = wire @ take (off' - off) (drop off buf) \<and>
     (ok \<longrightarrow> off' = length buf \<or> WouldBlock \<in> set answers)"
proof (induction answers arbitrary: off wire)
  case Nil
  then show ?case by (cases "off < length buf") auto
next
  case (Cons a as)
  show ?case
  proof (cases "off < length buf")
    case False
    then show ?thesis using Cons.prems by auto
  next
    case True
    show ?thesis
    proof (cases a)
      case (Sent n)
      show ?thesis
      proof (cases "n > 0")
        case pos: True
        have le: "off + n \<le> length buf" "answers_ok (length buf - (off + n)) as" using Sent Cons.prems True by auto
        have "send_loop buf (off + n) (wire @ take n (drop off buf)) as = Some (ok, off', wire', rest)" using Sent Cons.prems True pos by simp
        note ih = Cons.IH [OF le this]
        have "off' - off = n + (off' - (off + n))" using ih by simp
        then have "take n (drop off buf) @ take (off' - (off + n)) (drop (off + n) buf) = take (off' - off) (drop off buf)"
          by (simp add: take_add add.commute)
        then show ?thesis using ih by auto
      qed (use Sent Cons.prems True in auto)
    next
      case Interrupted
      then have "send_loop buf off wire as = Some (ok, off', wire', rest)" "answers_ok (length buf - off) as" using Cons.prems True by auto
      from Cons.IH [OF _ this(2,1)] show ?thesis using Interrupted True by auto
    qed (use Cons.prems True in auto)
  qed
qed

text \<open>A flush returns when the system answers often enough without being interrupted.\<close>

lemma send_loop_returns:
  "length buf - off \<le> length (filter (\<lambda>a. a \<noteq> Interrupted) answers) \<Longrightarrow> send_loop buf off wire answers \<noteq> None"
proof (induction answers arbitrary: off wire)
  case Nil
  then show ?case by simp
next
  case (Cons a as)
  show ?case
  proof (cases "off < length buf")
    case True
    then show ?thesis
    proof (cases a)
      case (Sent n)
      have "length buf - (off + n) \<le> length (filter (\<lambda>a. a \<noteq> Interrupted) as)" if "n > 0" using Sent Cons.prems that by auto
      then show ?thesis using Sent True Cons.IH [of "off + n"] by (cases "n > 0") auto
    qed (use Cons True in auto)
  qed simp
qed

lemma flush_cases:
  assumes "flush now answers b wire = Some (ok, b', wire')" "answers_ok (csb_pending b) answers" "csb_off b \<le> length (csb_buf b)"
  shows "csb_off b' \<le> length (csb_buf b') \<and>
    (\<exists>out. wire' = wire @ out \<and> out @ drop (csb_off b') (csb_buf b') = drop (csb_off b) (csb_buf b) \<and>
       (ok \<longrightarrow> csb_last_progress b' = (if out = [] then csb_last_progress b else now))) \<and>
    (ok \<longrightarrow> (csb_empty b' \<or> WouldBlock \<in> set answers) \<and> csb_off b' \<le> kCompactAt)"
proof -
  let ?buf = "csb_buf b" and ?off = "csb_off b"
  obtain off w rest where sl: "send_loop ?buf ?off wire answers = Some (ok, off, w, rest)" and w: "wire' = w"
    using assms(1) by (auto simp: flush_def Let_def split: option.splits if_splits)
  from send_loop_sends [OF assms(3) _ sl] assms(2)
  have s: "?off \<le> off" "off \<le> length ?buf" "wire' = wire @ take (off - ?off) (drop ?off ?buf)"
    "ok \<longrightarrow> off = length ?buf \<or> WouldBlock \<in> set answers" by (auto simp: csb_pending_def w)
  have split: "take (off - ?off) (drop ?off ?buf) @ drop off ?buf = drop ?off ?buf"
    using append_take_drop_id [of "off - ?off" "drop ?off ?buf"] s(1) by simp
  have nil: "take (off - ?off) (drop ?off ?buf) = [] \<longleftrightarrow> off = ?off" using s(1,2) by auto
  show ?thesis
  proof (cases ok)
    case False
    then have "b' = b\<lparr>csb_off := off\<rparr>" using assms(1) sl by (simp add: flush_def)
    then show ?thesis using False s(2,3) split by simp
  next
    case True
    define b1 where "b1 = (if off = length ?buf then b\<lparr>csb_buf := [], csb_off := 0\<rparr>
                         else if off > kCompactAt then b\<lparr>csb_buf := drop off ?buf, csb_off := 0\<rparr> else b\<lparr>csb_off := off\<rparr>)"
    have b': "b' = (if off \<noteq> ?off then b1\<lparr>csb_last_progress := now\<rparr> else b1)" using assms(1) sl True by (auto simp: flush_def b1_def Let_def)
    have "csb_off b1 \<le> length (csb_buf b1)" "drop (csb_off b1) (csb_buf b1) = drop off ?buf" "csb_off b1 \<le> kCompactAt"
      "off = length ?buf \<longrightarrow> csb_empty b1" "csb_last_progress b1 = csb_last_progress b"
      using s(2) by (auto simp: b1_def csb_empty_def)
    then show ?thesis using True s(3,4) split nil unfolding b' by (auto simp: csb_empty_def)
  qed
qed

lemma reachable_stream:
  "con_reachable s \<Longrightarrow> csb_off (con_buf s) \<le> length (csb_buf (con_buf s)) \<and>
     con_wire s @ drop (csb_off (con_buf s)) (csb_buf (con_buf s)) = con_appended s"
proof (induction rule: con_reachable.induct)
  case (step s t)
  from step(2) show ?case
  proof (cases rule: con_step.cases)
    case (flush answers now ok b' wire')
    with flush_cases [OF flush(3) flush(2)] step.IH show ?thesis by auto
  qed (use step.IH in \<open>auto simp: csb_append_def mark_progress_def\<close>)
qed (simp add: new_send_buffer_def)

section \<open>Properties\<close>

text \<open>
  C30. The buffer is a byte stream. Whatever is appended and however the socket takes it, what the peer was sent followed by what is
  pending is what was appended, in order and without loss, before and after every flush, failed ones included. A flush returns once the system has answered as many calls as bytes are pending
  without an interruption; when it succeeds the buffer is empty or the socket would block,
  and the drained prefix that is kept is at most 64 KiB.
\<close>

theorem send_buffer_is_a_stream:
  assumes reach: "con_reachable s" and ok: "answers_ok (csb_pending (con_buf s)) answers"
  shows "con_wire s @ drop (csb_off (con_buf s)) (csb_buf (con_buf s)) = con_appended s \<and>
    csb_pending (con_buf s) = length (con_appended s) - length (con_wire s) \<and>
    (csb_pending (con_buf s) \<le> length (filter (\<lambda>a. a \<noteq> Interrupted) answers) \<longrightarrow>
       (\<exists>r b' wire'. flush now answers (con_buf s) (con_wire s) = Some (r, b', wire'))) \<and>
    (\<forall>r b' wire'. flush now answers (con_buf s) (con_wire s) = Some (r, b', wire') \<longrightarrow>
       wire' @ drop (csb_off b') (csb_buf b') = con_appended s \<and>
       (r \<longrightarrow> (csb_empty b' \<or> WouldBlock \<in> set answers) \<and> csb_off b' \<le> kCompactAt))"
proof -
  note st = reachable_stream [OF reach]
  have "csb_pending (con_buf s) = length (con_appended s) - length (con_wire s)"
    using arg_cong [OF conjunct2 [OF st], of length] by (simp add: csb_pending_def)
  moreover have "\<exists>r b' wire'. flush now answers (con_buf s) (con_wire s) = Some (r, b', wire')"
    if "csb_pending (con_buf s) \<le> length (filter (\<lambda>a. a \<noteq> Interrupted) answers)"
    using send_loop_returns [OF that [unfolded csb_pending_def]] by (auto simp: flush_def Let_def split: option.split)
  moreover have "wire' @ drop (csb_off b') (csb_buf b') = con_appended s \<and>
       (r \<longrightarrow> (csb_empty b' \<or> WouldBlock \<in> set answers) \<and> csb_off b' \<le> kCompactAt)"
    if "flush now answers (con_buf s) (con_wire s) = Some (r, b', wire')" for r b' wire'
    using flush_cases [OF that ok] st by auto
  ultimately show ?thesis using st by blast
qed

definition demo_connection :: connection where
  "demo_connection = \<lparr>con_buf = csb_append new_send_buffer [1, 2, 3], con_appended = [1, 2, 3], con_wire = []\<rparr>"

theorem send_buffer_is_a_stream_witness:
  "flush 5 [Sent 1, Interrupted, Sent 1, WouldBlock] (con_buf demo_connection) [] =
     Some (True, \<lparr>csb_buf = [1, 2, 3], csb_off = 2, csb_last_progress = 5\<rparr>, [1, 2]) \<and>
   csb_pending (con_buf demo_connection) = 3 \<and> [1, 2, 3] = con_appended demo_connection"
proof -
  have r: "con_reachable demo_connection"
    using con_reachable.step [OF con_reachable.init con_step.append [of _ "[1, 2, 3]"]] by (simp add: demo_connection_def)
  have a: "answers_ok (csb_pending (con_buf demo_connection)) [Sent 1, Interrupted, Sent 1, WouldBlock]" by code_simp
  have f: "flush 5 [Sent 1, Interrupted, Sent 1, WouldBlock] (con_buf demo_connection) (con_wire demo_connection) =
     Some (True, \<lparr>csb_buf = [1, 2, 3], csb_off = 2, csb_last_progress = 5\<rparr>, [1, 2])" by code_simp
  let ?b = "\<lparr>csb_buf = [1, 2, 3], csb_off = 2, csb_last_progress = 5\<rparr> :: ClientSendBuffer"
  have "[1, 2] @ drop (csb_off ?b) (csb_buf ?b) = con_appended demo_connection"
    using send_buffer_is_a_stream [OF r a, of 5] f by blast
  moreover have "con_wire demo_connection = []" "csb_pending (con_buf demo_connection) = 3" by code_simp+
  ultimately show ?thesis using f by simp
qed

end
