(* ===== verification/C_Text.thy ===== *)
theory C_Text
  imports Prelude
begin

text \<open>
  The C library functions on text that the sources use to read settings from the environment:
  \<open>strtol\<close> and \<open>atoi\<close>. A C string is a list of characters without the terminating zero.
\<close>

text \<open>
  \<open>strtol\<close> in base 10: white space, an optional sign and digits; the value saturates at the range of
  \<open>long\<close>, which sets \<open>errno\<close>. The result is the value, whether it is in range and the rest.
\<close>

definition c_space :: "char \<Rightarrow> bool" where
  "c_space ch \<longleftrightarrow> ch = CHR '' '' \<or> (9 \<le> (of_char ch :: nat) \<and> (of_char ch :: nat) \<le> 13)"

definition c_digit :: "char \<Rightarrow> bool" where
  "c_digit ch \<longleftrightarrow> 48 \<le> (of_char ch :: nat) \<and> (of_char ch :: nat) \<le> 57"

definition digits_value :: "string \<Rightarrow> int" where
  "digits_value ds = foldl (\<lambda>v d. v * 10 + (int (of_char d) - 48)) 0 ds"

definition strtol10 :: "string \<Rightarrow> int \<times> bool \<times> string" where
  "strtol10 v =
     (let s = dropWhile c_space v;
          neg = (s \<noteq> [] \<and> hd s = CHR ''-'');
          body = (if s \<noteq> [] \<and> (hd s = CHR ''-'' \<or> hd s = CHR ''+'') then tl s else s);
          ds = takeWhile c_digit body;
          n = (if neg then - digits_value ds else digits_value ds) in
      if ds = [] then (0, True, v)
      else (n, - 9223372036854775808 \<le> n \<and> n \<le> 9223372036854775807, dropWhile c_digit body))"

text \<open>\<open>atoi\<close> is \<open>strtol\<close> with its saturated result converted to \<open>int\<close>.\<close>

definition atoi :: "string \<Rightarrow> int" where
  "atoi v = int32_of (max (- 9223372036854775808) (min 9223372036854775807 (fst (strtol10 v))))"

end
