(* ===== verification/Chain_Spec.thy ===== *)
theory Chain_Spec
  imports C_Text
begin

text \<open>
  Chain speculative decoding: the graph widths and the acceptance rule
  (\<open>common/concurrency/chain_spec_shapes.h\<close>), the acceptance telemetry (\<open>common/spec_acceptance.h\<close>) and the
  rollback policy with its diagnostics (\<open>common/chain_rollback_policy.h\<close>). The environment of the process is an argument,
  the target model a function from a token sequence to its next token.
\<close>

section \<open>Graph widths\<close>

definition decode_buckets :: "int list" where
  "decode_buckets = [1, 2, 3, 4, 6, 8, 12, 16, 24, 32, 48, 64]"

definition chain_decode_bucket_width :: "int \<Rightarrow> int" where
  "chain_decode_bucket_width lanes =
     (if lanes \<le> 0 then 0
      else case find (\<lambda>bucket. bucket \<ge> lanes) decode_buckets of Some bucket \<Rightarrow> bucket | None \<Rightarrow> 64)"

definition chain_draft_bucket_width :: "int \<Rightarrow> int" where
  "chain_draft_bucket_width lanes = (if lanes = 5 then 5 else chain_decode_bucket_width lanes)"

section \<open>Acceptance\<close>

fun verified_from :: "token list \<Rightarrow> token list \<Rightarrow> nat \<Rightarrow> nat" where
  "verified_from (d # draft) (p # posterior) n = (if p = d then verified_from draft posterior (Suc n) else n)"
| "verified_from _ _ n = n"

text \<open>The \<open>posterior_count\<close> entries of the array are the list.\<close>

definition chain_verified_prefix :: "token list \<Rightarrow> token list \<Rightarrow> nat" where
  "chain_verified_prefix draft posterior = (case draft of [] \<Rightarrow> 0 | _ # rest \<Rightarrow> verified_from rest posterior 1)"

text \<open>The loop over the children of the root; \<open>child\<close> is the index of the head of the list.\<close>

fun safe_scan :: "int \<Rightarrow> int \<Rightarrow> (token \<Rightarrow> bool) \<Rightarrow> nat \<Rightarrow> token list \<Rightarrow> nat" where
  "safe_scan generated min_tokens is_eos child [] = child"
| "safe_scan generated min_tokens is_eos child (t # path) =
     (if \<not> is_eos t then safe_scan generated min_tokens is_eos (Suc child) path
      else if generated + int child < min_tokens then child else child + 1)"

definition chain_min_tokens_safe_prefix :: "token list \<Rightarrow> int \<Rightarrow> int \<Rightarrow> (token \<Rightarrow> bool) \<Rightarrow> nat" where
  "chain_min_tokens_safe_prefix path generated_before_root min_tokens is_eos =
     (let generated = max 0 generated_before_root in
      case path of [] \<Rightarrow> 0 | _ # children \<Rightarrow> safe_scan generated min_tokens is_eos 1 children)"

section \<open>Telemetry\<close>

record SpecAcceptanceStats =
  sa_accepted :: int
  sa_offered :: int

definition new_acceptance :: SpecAcceptanceStats where
  "new_acceptance = \<lparr>sa_accepted = 0, sa_offered = 0\<rparr>"

definition sa_record :: "SpecAcceptanceStats \<Rightarrow> int \<Rightarrow> int \<Rightarrow> SpecAcceptanceStats" where
  "sa_record s accepted offered0 =
     (let offered = max 0 offered0 in
      s\<lparr>sa_accepted := sa_accepted s + max 0 (min accepted offered), sa_offered := sa_offered s + offered\<rparr>)"

definition record_chain :: "SpecAcceptanceStats \<Rightarrow> int \<Rightarrow> int \<Rightarrow> int \<Rightarrow> int \<Rightarrow> SpecAcceptanceStats" where
  "record_chain s accepted_width verified_width emitted_width remaining_budget =
     sa_record s (min accepted_width emitted_width) (min verified_width remaining_budget)"

definition record_tree :: "SpecAcceptanceStats \<Rightarrow> int \<Rightarrow> int \<Rightarrow> int \<Rightarrow> SpecAcceptanceStats" where
  "record_tree s accepted_emitted candidate_nodes remaining_budget =
     sa_record s accepted_emitted (min (1 + candidate_nodes) remaining_budget)"

section \<open>Rollback policy\<close>

record ChainRollbackPolicy =
  checkpoint_f32 :: bool
  fast_rollback_threshold :: int
  diagnostics :: bool

type_synonym process_env = "string \<Rightarrow> string option"

definition env_flag_enabled :: "process_env \<Rightarrow> string \<Rightarrow> bool" where
  "env_flag_enabled env name = (case env name of None \<Rightarrow> False | Some v \<Rightarrow> v \<noteq> [] \<and> v \<noteq> ''0'')"

definition split_chain_fast_rollback_enabled :: "process_env \<Rightarrow> bool" where
  "split_chain_fast_rollback_enabled env = env_flag_enabled env ''LUCE_SPLIT_FAST_ROLLBACK''"

definition resolve_chain_rollback_policy :: "process_env \<Rightarrow> bool \<Rightarrow> bool \<Rightarrow> ChainRollbackPolicy" where
  "resolve_chain_rollback_policy env tensor_parallel exact_fast_rollback =
     (let f32 = (case env ''LUCE_SINGLE_CHAIN_CHECKPOINT_F32'' of None \<Rightarrow> True | Some e \<Rightarrow> e \<noteq> [] \<and> e \<noteq> ''0'');
          t0 = (if \<not> f32 then 5 else 1);
          diag = env_flag_enabled env ''LUCE_SINGLE_CHAIN_ROLLBACK_DIAG'';
          t1 = (if f32 then
                  (case env ''LUCE_FAST_ROLLBACK_THRESHOLD'' of
                     None \<Rightarrow> t0
                   | Some value \<Rightarrow> (let requested = atoi value in if requested \<ge> 1 \<and> requested \<le> 5 then requested else t0))
                else t0);
          t2 = (if tensor_parallel then 1 else t1);
          t3 = (if exact_fast_rollback then 1 else t2)
      in \<lparr>checkpoint_f32 = f32, fast_rollback_threshold = t3, diagnostics = diag\<rparr>)"

text \<open>The counters; a negative acceptance would index the histogram out of range, which is None.\<close>

record RollbackDiag =
  accept_hist :: "nat list"
  fast_low :: nat
  fast_high :: nat
  legacy_replay :: nat
  failed_fallback :: nat

definition new_rollback_diag :: RollbackDiag where
  "new_rollback_diag = \<lparr>accept_hist = replicate 17 0, fast_low = 0, fast_high = 0, legacy_replay = 0, failed_fallback = 0\<rparr>"

definition record_accept :: "RollbackDiag \<Rightarrow> int \<Rightarrow> RollbackDiag option" where
  "record_accept d accept_n =
     (let i = min accept_n 16 in
      if i < 0 then None else Some (d\<lparr>accept_hist := (accept_hist d)[nat i := accept_hist d ! nat i + 1]\<rparr>))"

definition record_fast_rollback :: "RollbackDiag \<Rightarrow> int \<Rightarrow> RollbackDiag" where
  "record_fast_rollback d accept_n =
     (if accept_n < 5 then d\<lparr>fast_low := fast_low d + 1\<rparr> else d\<lparr>fast_high := fast_high d + 1\<rparr>)"

definition record_failed_fallback :: "RollbackDiag \<Rightarrow> RollbackDiag" where
  "record_failed_fallback d = d\<lparr>failed_fallback := failed_fallback d + 1\<rparr>"

definition record_legacy_replay :: "RollbackDiag \<Rightarrow> RollbackDiag" where
  "record_legacy_replay d = d\<lparr>legacy_replay := legacy_replay d + 1\<rparr>"

section \<open>Lemmas\<close>

text \<open>The bucket is the smallest that holds the lanes, up to 64 lanes.\<close>

lemma decode_bucket_least:
  assumes "0 < lanes" "lanes \<le> 64"
  shows "chain_decode_bucket_width lanes \<in> set decode_buckets \<and> lanes \<le> chain_decode_bucket_width lanes \<and>
    (\<forall>b \<in> set decode_buckets. lanes \<le> b \<longrightarrow> chain_decode_bucket_width lanes \<le> b)"
  using assms by (auto simp: chain_decode_bucket_width_def decode_buckets_def)

lemma acceptance_inv:
  "0 \<le> sa_accepted s \<and> sa_accepted s \<le> sa_offered s \<Longrightarrow>
     0 \<le> sa_accepted (sa_record s a n) \<and> sa_accepted (sa_record s a n) \<le> sa_offered (sa_record s a n)"
  by (auto simp: sa_record_def Let_def)

lemma rollback_threshold_range:
  "1 \<le> fast_rollback_threshold (resolve_chain_rollback_policy env tp exact) \<and>
   fast_rollback_threshold (resolve_chain_rollback_policy env tp exact) \<le> 5"
  by (auto simp: resolve_chain_rollback_policy_def Let_def split: option.split)

lemma legacy_threshold:
  "\<not> checkpoint_f32 (resolve_chain_rollback_policy env False False) \<Longrightarrow>
   fast_rollback_threshold (resolve_chain_rollback_policy env False False) = 5"
  by (auto simp: resolve_chain_rollback_policy_def Let_def split: option.splits if_splits)

lemma verified_from_spec:
  "\<exists>k. verified_from draft posterior n = n + k \<and> k \<le> length draft \<and> k \<le> length posterior \<and> take k draft = take k posterior \<and>
     (k < length draft \<longrightarrow> k < length posterior \<longrightarrow> draft ! k \<noteq> posterior ! k)"
proof (induction draft posterior n rule: verified_from.induct)
  case (1 d draft p posterior n)
  show ?case
  proof (cases "p = d")
    case True
    then obtain k where "verified_from draft posterior (Suc n) = Suc n + k" "k \<le> length draft" "k \<le> length posterior"
      "take k draft = take k posterior" "k < length draft \<longrightarrow> k < length posterior \<longrightarrow> draft ! k \<noteq> posterior ! k"
      using 1 by blast
    then show ?thesis using True by (intro exI [of _ "Suc k"]) auto
  qed auto
qed auto

lemma safe_scan_spec:
  "\<exists>k \<le> length path. safe_scan g m e n path = n + k \<and> (\<forall>i < k. e (path ! i) \<longrightarrow> i + 1 = k \<and> m \<le> g + int (n + i)) \<and>
     (k < length path \<longrightarrow> (\<exists>i \<le> k. i < length path \<and> e (path ! i) \<and> (if g + int (n + i) < m then k = i else k = i + 1)))"
proof (induction path arbitrary: n)
  case (Cons t path)
  show ?case
  proof (cases "e t")
    case False
    obtain k where k: "k \<le> length path" "safe_scan g m e (Suc n) path = Suc n + k"
      "\<forall>i < k. e (path ! i) \<longrightarrow> i + 1 = k \<and> m \<le> g + int (Suc n + i)"
      "k < length path \<longrightarrow> (\<exists>i \<le> k. i < length path \<and> e (path ! i) \<and> (if g + int (Suc n + i) < m then k = i else k = i + 1))"
      using Cons.IH by blast
    have "\<forall>i < Suc k. e ((t # path) ! i) \<longrightarrow> i + 1 = Suc k \<and> m \<le> g + int (n + i)"
      using k(3) False by (auto simp: nth_Cons split: nat.split)
    moreover have "\<exists>i \<le> Suc k. i < length (t # path) \<and> e ((t # path) ! i) \<and> (if g + int (n + i) < m then Suc k = i else Suc k = i + 1)"
      if "Suc k < length (t # path)"
    proof -
      obtain i where "i \<le> k" "i < length path" "e (path ! i)" "if g + int (Suc n + i) < m then k = i else k = i + 1" using k(4) \<open>Suc k < _\<close> by auto
      then show ?thesis by (intro exI [of _ "Suc i"]) auto
    qed
    ultimately show ?thesis using k(1,2) False by (intro exI [of _ "Suc k"]) auto
  next
    case True
    then show ?thesis by (cases "g + int n < m") (auto intro: exI [of _ 0] exI [of _ 1])
  qed
qed simp

section \<open>Properties\<close>

text \<open>Greedy decoding one token at a time.\<close>

fun greedy :: "(token list \<Rightarrow> token) \<Rightarrow> token list \<Rightarrow> nat \<Rightarrow> token list" where
  "greedy next_token ctx 0 = []"
| "greedy next_token ctx (Suc n) = next_token ctx # greedy next_token (ctx @ [next_token ctx]) n"

lemma greedy_unique: "(\<forall>i < length ts. ts ! i = next_token (ctx @ take i ts)) \<Longrightarrow> ts = greedy next_token ctx (length ts)"
proof (induction ts arbitrary: ctx)
  case (Cons t ts)
  have t: "t = next_token ctx" using Cons.prems [rule_format, of 0] by simp
  have "\<forall>i < length ts. ts ! i = next_token ((ctx @ [t]) @ take i ts)" using Cons.prems by (auto dest: spec [of _ "Suc _"])
  from Cons.IH [OF this] show ?case using t by simp
qed simp

lemma verified_is_greedy:
  assumes d: "draft = root # rest" and p: "posterior = map (\<lambda>i. next_token (ctx @ take (Suc i) draft)) [0..<rows]"
    and k: "n \<le> length rest" "n \<le> rows" "take n rest = take n posterior"
  shows "take n rest = greedy next_token (ctx @ [root]) n"
proof -
  have "take n rest ! i = next_token ((ctx @ [root]) @ take i (take n rest))" if "i < n" for i
  proof -
    have "take n rest ! i = posterior ! i" using k(3) that by (metis nth_take)
    also have "\<dots> = next_token (ctx @ take (Suc i) draft)" using that k(2) by (simp add: p)
    finally show ?thesis using that by (simp add: d min.absorb2)
  qed
  then show ?thesis using greedy_unique [of "take n rest" next_token "ctx @ [root]"] k(1) by simp
qed

text \<open>
  C31. A verified chain is what the target model would have written. When row \<open>i\<close> of the posterior is the model's next token after
  the root and \<open>i\<close> drafts, the accepted tokens behind the root are the model's own greedy continuation, so is the
  token sampled at the tip, and the first rejected draft differs from it. Cutting the accepted path for the
  end-of-sequence floor keeps a greedy continuation whose only possible EOS child is its last token, at or above the floor.
\<close>

theorem verified_chain_is_greedy:
  assumes d: "draft = root # rest" and p: "posterior = map (\<lambda>i. next_token (ctx @ take (Suc i) draft)) [0..<rows]"
    and k: "k = chain_verified_prefix draft posterior"
    and s: "s = chain_min_tokens_safe_prefix (take k draft) generated min_tokens is_eos"
  shows "1 \<le> s \<and> s \<le> k \<and> k \<le> length draft \<and>
    tl (take k draft) = greedy next_token (ctx @ [root]) (k - 1) \<and>
    (k \<le> rows \<longrightarrow> tl (take k draft) @ [posterior ! (k - 1)] = greedy next_token (ctx @ [root]) k) \<and>
    (k < length draft \<longrightarrow> k \<le> rows \<longrightarrow> draft ! k \<noteq> posterior ! (k - 1)) \<and>
    tl (take s draft) = greedy next_token (ctx @ [root]) (s - 1) \<and>
    (\<forall>i. 1 \<le> i \<longrightarrow> i < s \<longrightarrow> is_eos (draft ! i) \<longrightarrow> i + 1 = s \<and> min_tokens \<le> max 0 generated + int i)"
proof -
  obtain n where n: "k = 1 + n" "n \<le> length rest" "n \<le> length posterior" "take n rest = take n posterior"
    "n < length rest \<longrightarrow> n < length posterior \<longrightarrow> rest ! n \<noteq> posterior ! n"
    using verified_from_spec [of rest posterior 1] by (auto simp: k d chain_verified_prefix_def)
  have rows: "length posterior = rows" by (simp add: p)
  have kept: "tl (take (Suc m) draft) = greedy next_token (ctx @ [root]) m" if "m \<le> n" for m
  proof -
    have "take m rest = take m posterior" using n(4) that by (metis min.absorb1 take_take)
    then have "take m rest = greedy next_token (ctx @ [root]) m" using that n(2,3) rows by (intro verified_is_greedy [OF d p]) auto
    then show ?thesis by (simp add: d)
  qed
  have tip: "take n rest @ [posterior ! n] = greedy next_token (ctx @ [root]) (Suc n)" if "n < rows"
  proof -
    let ?ts = "take n rest @ [posterior ! n]"
    have "?ts ! i = next_token ((ctx @ [root]) @ take i ?ts)" if "i < length ?ts" for i
    proof (cases "i < n")
      case True
      have "?ts ! i = posterior ! i" using True n(2,4) by (metis nth_append length_take min.absorb2 nth_take)
      then show ?thesis using True \<open>n < rows\<close> n(2) by (simp add: p d min.absorb2)
    next
      case False
      then have "i = n" using that n(2) by simp
      then show ?thesis using \<open>n < rows\<close> n(2) by (simp add: p d nth_append)
    qed
    from greedy_unique [of ?ts next_token "ctx @ [root]"] this show ?thesis using n(2) by simp
  qed
  obtain j where j: "j \<le> n" "s = 1 + j" "\<forall>i < j. is_eos (take n rest ! i) \<longrightarrow> i + 1 = j \<and> min_tokens \<le> max 0 generated + int (1 + i)"
    using safe_scan_spec [of "take n rest" "max 0 generated" min_tokens is_eos 1] n(2)
    by (auto simp: s n(1) d chain_min_tokens_safe_prefix_def Let_def)
  have "i + 1 = s \<and> min_tokens \<le> max 0 generated + int i" if "1 \<le> i" "i < s" "is_eos (draft ! i)" for i
    using j(3) [rule_format, of "i - 1"] that j(1,2) by (auto simp: d)
  moreover have "tl (take k draft) = greedy next_token (ctx @ [root]) (k - 1)" using kept [of n] n(1) by simp
  moreover have "tl (take s draft) = greedy next_token (ctx @ [root]) (s - 1)" using kept [OF j(1)] j(2) by simp
  moreover have "tl (take k draft) @ [posterior ! (k - 1)] = greedy next_token (ctx @ [root]) k" if "k \<le> rows"
    using tip that n(1) by (simp add: d)
  moreover have "draft ! k \<noteq> posterior ! (k - 1)" if "k < length draft" "k \<le> rows" using n(1,5) that rows by (simp add: d)
  ultimately show ?thesis using j(1,2) n(1,2) d by simp
qed

theorem verified_chain_is_greedy_witness:
  "chain_verified_prefix [3, 4, 5, 9] [4, 5, 6, 7] = 3 \<and> tl (take 3 [3, 4, 5, 9]) = greedy (\<lambda>ts. last ts + 1) ([] @ [3]) 2"
proof -
  have p: "[4, 5, 6, 10] = map (\<lambda>i. (\<lambda>ts. last ts + 1) ([] @ take (Suc i) [3, 4, 5, 9 :: int])) [0..<4]" by code_simp
  have "chain_verified_prefix [3, 4, 5, 9] [4, 5, 6, 10] = 3" "chain_verified_prefix [3, 4, 5, 9] [4, 5, 6, 7] = 3" by code_simp+
  then show ?thesis
    using verified_chain_is_greedy [OF refl p refl refl, of 0 0 "\<lambda>t. t = 9"] by simp
qed

end
