(* ===== verification/Sched_Slot.thy ===== *)
theory Sched_Slot
  imports Seq_Engine Thinking_Budget Client_Send_Buffer Chain_Spec
begin

text \<open>
  The request state of one serving slot in the concurrent scheduler (\<open>server/scheduler.cpp\<close>) and what a sampled token does
  to it: the thinking budget, the grammar, the delivery to the client (\<open>server/http_server.cpp\<close>,
  \<open>server/api_adapters.cpp\<close>) and the reasons to stop. The emitter, the grammar and the prefix capture of a request are
  one value \<open>'x\<close>, used through the methods in \<open>SlotOps\<close>; clocks and log output are not modelled.
\<close>

section \<open>Delivery of one token\<close>

datatype TokenDelivery = KSkip | KThinkTag | KText

record SlotTokenizer =
  eos_id :: token
  eos_chat_id :: token
  raw_token :: "token \<Rightarrow> string"
  token_text :: "token \<Rightarrow> string"

text \<open>The methods of the objects a request owns: two of its emitter's and its stop flag, the grammar and the capture.\<close>

record 'x SlotOps =
  suppress_undeclared :: "'x \<Rightarrow> string \<Rightarrow> bool \<times> 'x"
  emit_token :: "'x \<Rightarrow> string \<Rightarrow> u8 list list \<times> 'x"
  stop_hit :: "'x \<Rightarrow> bool"
  has_constraint :: "'x \<Rightarrow> bool"
  constraint_accept :: "'x \<Rightarrow> token \<Rightarrow> 'x"
  captured :: "'x \<Rightarrow> PrefixStoreEvent \<Rightarrow> 'x"

definition classify_generated_token ::
  "'x SlotOps \<Rightarrow> SlotTokenizer \<Rightarrow> 'x \<Rightarrow> token \<Rightarrow> TokenDelivery \<times> string \<times> 'x" where
  "classify_generated_token ops tokenizer x t =
     (if t = eos_id tokenizer \<or> t = eos_chat_id tokenizer then (KSkip, [], x)
      else let raw = raw_token tokenizer t; (suppressed, x') = suppress_undeclared ops x raw in
        if suppressed then (KSkip, [], x')
        else if raw = ''<|channel>'' \<or> raw = ''<think>'' then (KThinkTag, ''<think>'', x')
        else if raw = ''<channel|>'' \<or> raw = ''</think>'' then (KThinkTag, ''</think>'' @ [CHR 0x0A], x')
        else if raw = ''<tool_call>'' \<or> raw = ''</tool_call>'' \<or> raw = ''<arg_key>'' \<or> raw = ''</arg_key>'' \<or>
                raw = ''<arg_value>'' \<or> raw = ''</arg_value>'' then (KText, raw, x')
        else if length raw \<ge> 2 \<and> raw ! 0 = CHR ''<'' \<and> raw ! 1 = CHR ''|'' then (KSkip, [], x')
        else if length raw \<ge> 2 \<and> raw ! 0 = CHR ''<'' \<and> last raw = CHR ''>'' \<and>
                \<not> (length raw = 6 \<and> raw ! 1 = CHR ''0'' \<and> raw ! 2 = CHR ''x'') then (KSkip, [], x')
        else (KText, token_text tokenizer t, x'))"

text \<open>The parts of a job the delivery uses: whether the reply is streamed, and the keep-alive comments of a silent prefill.\<close>

record ServerJob =
  stream :: bool
  stream_ready :: bool
  heartbeat_offset :: nat

text \<open>The bytes of a colon, the text keep-alive and two line feeds.\<close>

definition kSseHeartbeat :: "u8 list" where
  "kSseHeartbeat = [58, 32, 107, 101, 101, 112, 45, 97, 108, 105, 118, 101, 10, 10]"

definition stop_job_stream :: "ServerJob \<Rightarrow> ClientSendBuffer \<Rightarrow> ServerJob \<times> ClientSendBuffer" where
  "stop_job_stream job pending_output =
     (let job' = job\<lparr>stream_ready := False\<rparr> in
      if heartbeat_offset job > 0
      then (job'\<lparr>heartbeat_offset := 0\<rparr>, csb_append pending_output (drop (heartbeat_offset job) kSseHeartbeat))
      else (job', pending_output))"

section \<open>The slot\<close>

datatype SlotError = DecodeFailed string | PrefillFailed string | EngineStepFailed string | ShuttingDown

record 'x SchedSlot =
  job :: "ServerJob option"
  io :: 'x
  prefilling :: bool
  prompt_left :: int
  prompt_new :: int
  admission_order :: u64
  n_gen_cap :: int
  completion_tokens :: int
  client_disconnected :: bool
  slot_error :: "SlotError option"
  finished :: bool
  gen_tokens :: "token list"
  pending_tok :: token
  send_buffer :: ClientSendBuffer
  budget :: ThinkingBudget
  degenerate_close :: bool
  loop_close_armed :: bool
  acceptance :: SpecAcceptanceStats

text \<open>What the scheduler knows of the engine and the server when it advances a slot.\<close>

record 'x SlotEnv =
  ops :: "'x SlotOps"
  tokenizer :: SlotTokenizer
  token_is_eos :: "token \<Rightarrow> bool"
  repeat_guard :: int

text \<open>Whether to go on, and the slot; a slot without a job is not advanced.\<close>

definition deliver_generation_token :: "'x SlotEnv \<Rightarrow> 'x SchedSlot \<Rightarrow> token \<Rightarrow> bool \<times> 'x SchedSlot" where
  "deliver_generation_token env s0 t =
     (let s = s0\<lparr>completion_tokens := completion_tokens s0 + 1\<rparr>;
          (delivery, txt, x1) = classify_generated_token (ops env) (tokenizer env) (io s) t;
          s1 = s\<lparr>io := x1\<rparr>; streamed = (case job s of Some j \<Rightarrow> stream j | None \<Rightarrow> False) in
      if delivery = KSkip then (True, s1)
      else if txt = [] \<and> streamed then (True, s1)
      else let (chunks, x2) = emit_token (ops env) x1 txt; s2 = s1\<lparr>io := x2\<rparr>;
               s3 = (if streamed \<and> chunks \<noteq> []
                     then let (j, buf) = stop_job_stream (the (job s)) (send_buffer s2) in
                       s2\<lparr>job := Some j, send_buffer := foldl csb_append buf chunks\<rparr>
                     else s2) in
        (delivery = KThinkTag \<or> \<not> stop_hit (ops env) x2, s3))"

text \<open>The length of the run of the last token, and the sweep for a repeated period after a forced close.\<close>

definition trailing_run :: "token list \<Rightarrow> nat" where
  "trailing_run tokens = 1 + length (takeWhile (\<lambda>t. t = last tokens) (tl (rev tokens)))"

fun repeats_period :: "token list \<Rightarrow> nat list \<Rightarrow> bool" where
  "repeats_period tokens [] = False"
| "repeats_period tokens (P # Ps) =
     (let avail = length tokens in
      if avail < 2 * P then False
      else if take P (drop (avail - 2 * P) tokens) = drop (avail - P) tokens then True
      else repeats_period tokens Ps)"

definition advance_slot :: "'x SlotEnv \<Rightarrow> 'x SchedSlot \<Rightarrow> token \<Rightarrow> 'x SchedSlot" where
  "advance_slot env s0 candidate =
     (let ((tok, _), b) = apply_token (budget s0) candidate;
          s1 = s0\<lparr>budget := b,
                  io := (if has_constraint (ops env) (io s0) then constraint_accept (ops env) (io s0) tok else io s0),
                  gen_tokens := gen_tokens s0 @ [tok]\<rparr>;
          (cont, s2) = deliver_generation_token env s1 tok;
          s = s2\<lparr>pending_tok := tok\<rparr> in
      if \<not> cont \<or> token_is_eos env tok \<or> int (length (gen_tokens s)) \<ge> n_gen_cap s then s\<lparr>finished := True\<rparr>
      else if repeat_guard env > 0 \<and> int (length (gen_tokens s)) \<ge> repeat_guard env \<and>
              int (trailing_run (gen_tokens s)) \<ge> repeat_guard env
      then s\<lparr>degenerate_close := True, finished := True\<rparr>
      else if tb_forced (budget s) \<and> \<not> injecting (budget s) \<and> repeats_period (gen_tokens s) [12..<81]
      then s\<lparr>degenerate_close := True, finished := True\<rparr>
      else s)"

section \<open>Outputs of a step\<close>

definition take_decode_output :: "'x SlotEnv \<Rightarrow> 'x SchedSlot \<Rightarrow> DecodeOutput \<Rightarrow> 'x SchedSlot" where
  "take_decode_output env s out =
     (if job s = None then s
      else if dec_failed out then s\<lparr>slot_error := Some (DecodeFailed (dec_error out)), finished := True\<rparr>
      else let room = n_gen_cap s - int (length (gen_tokens s)); generated = length (gen_tokens s);
               (more, s1) = consume_decode_output_tokens out
                 (\<lambda>t s. if finished s then (False, s) else let s' = advance_slot env s t in (\<not> finished s', s')) s in
        if spec_offered out > 0
        then s1\<lparr>acceptance := record_chain (acceptance s1) (spec_accepted out) (spec_offered out)
                                (int (length (gen_tokens s1) - generated)) room\<rparr>
        else s1)"

definition take_prefill_output :: "'x SlotEnv \<Rightarrow> 'x SchedSlot \<Rightarrow> PrefillOutput \<Rightarrow> 'x SchedSlot" where
  "take_prefill_output env s0 out =
     (if job s0 = None then s0
      else let s = (if attempted (pre_store out) then s0\<lparr>io := captured (ops env) (io s0) (pre_store out)\<rparr> else s0) in
        case pre_status out of
          Failed \<Rightarrow> s\<lparr>slot_error := Some (PrefillFailed (pre_error out)), finished := True\<rparr>
        | Completed \<Rightarrow> advance_slot env (s\<lparr>prefilling := False\<rparr>) (pre_token out)
        | Advanced \<Rightarrow> s)"

end
