(* ===== verification/Paged_Kv_Offload.thy ===== *)
theory Paged_Kv_Offload
  imports Seq_Slot_Manager
begin

text \<open>
  Suspension of a serving slot to host memory (\<open>common/concurrency/paged_kv_offload.h\<close>, \<open>paged_kv_offload.cpp\<close>) and the
  page layouts the engines hand to it. The record holds what the object refers to: the slot manager with its
  pool, the device tensors as byte lists, the planes and the saved payloads. A device tensor is named by its index. \<open>None\<close> is an
  aborted process (a failed assertion of the tensor copy, or an access past the end of a buffer). A copy asserts that the tensor is
  allocated, that the span is inside it, and that a span of a strided tensor stays within one packed run (\<open>ggml-backend.cpp\<close>). What the host can still give, the
  answers of the memory probe and of the allocator, are arguments.
\<close>

section \<open>Device tensors\<close>

text \<open>The size of the type and of its blocks, the elements and the strides in bytes of the dimensions, the allocation and the bytes.\<close>

record ggml_tensor =
  type_size :: nat
  blck_size :: nat
  ne0 :: nat
  ne1 :: nat
  ne2 :: nat
  ne3 :: nat
  nb0 :: nat
  nb1 :: nat
  nb2 :: nat
  nb3 :: nat
  has_buffer :: bool
  has_data :: bool
  contents :: "u8 list"

abbreviation ggml_nbytes :: "ggml_tensor \<Rightarrow> nat" where
  "ggml_nbytes t \<equiv> length (contents t)"

definition outer_dims :: "ggml_tensor \<Rightarrow> (nat \<times> nat) list" where
  "outer_dims t = [(ne1 t, nb1 t), (ne2 t, nb2 t), (ne3 t, nb3 t)]"

fun contiguous_dims :: "nat \<Rightarrow> (nat \<times> nat) list \<Rightarrow> bool" where
  "contiguous_dims next_nb [] = True"
| "contiguous_dims next_nb ((ne, nb) # dims) =
     (if ne \<noteq> 1 \<and> nb \<noteq> next_nb then False else contiguous_dims (next_nb * ne) dims)"

definition ggml_is_contiguous :: "ggml_tensor \<Rightarrow> bool" where
  "ggml_is_contiguous t \<longleftrightarrow>
     \<not> (ne0 t \<noteq> blck_size t \<and> nb0 t \<noteq> type_size t) \<and> contiguous_dims (type_size t * (ne0 t div blck_size t)) (outer_dims t)"

text \<open>The loop over the dimensions of the span check: the packed run and the stride that breaks it, if one does.\<close>

fun packed_run :: "nat \<Rightarrow> (nat \<times> nat) list \<Rightarrow> (nat \<times> nat) option" where
  "packed_run run [] = None"
| "packed_run run ((ne, nb) # dims) =
     (if ne = 1 then packed_run run dims else if nb \<noteq> run then Some (run, nb) else packed_run (run * ne) dims)"

definition raw_span_ok :: "ggml_tensor \<Rightarrow> nat \<Rightarrow> nat \<Rightarrow> bool" where
  "raw_span_ok t offset n \<longleftrightarrow>
     n = 0 \<or> ggml_is_contiguous t \<or>
     (nb0 t = type_size t \<and>
        (case packed_run (type_size t * ne0 t div blck_size t) (outer_dims t) of
           None \<Rightarrow> True
         | Some (run, nb) \<Rightarrow> nb \<noteq> 0 \<and> offset mod nb + n \<le> run))"

text \<open>The assertions of a copy, in their order.\<close>

definition copy_allowed :: "ggml_tensor list \<Rightarrow> nat \<Rightarrow> nat \<Rightarrow> nat \<Rightarrow> bool" where
  "copy_allowed dev t offset n \<longleftrightarrow>
     t < length dev \<and> has_buffer (dev ! t) \<and>
     (n = 0 \<or> has_data (dev ! t) \<and> offset + n \<le> ggml_nbytes (dev ! t) \<and> raw_span_ok (dev ! t) offset n)"

definition tensor_get :: "ggml_tensor list \<Rightarrow> nat option \<Rightarrow> nat \<Rightarrow> nat \<Rightarrow> u8 list option" where
  "tensor_get dev tensor offset n =
     (case tensor of
        None \<Rightarrow> None
      | Some t \<Rightarrow> if \<not> copy_allowed dev t offset n then None
          else if n = 0 then Some []
          else Some (take n (drop offset (contents (dev ! t)))))"

definition tensor_set :: "ggml_tensor list \<Rightarrow> nat option \<Rightarrow> u8 list \<Rightarrow> nat \<Rightarrow> nat \<Rightarrow> ggml_tensor list option" where
  "tensor_set dev tensor data offset n =
     (case tensor of
        None \<Rightarrow> None
      | Some t \<Rightarrow> if \<not> copy_allowed dev t offset n then None
          else if n = 0 then Some dev
          else if n \<le> length data
          then Some (dev[t := (dev ! t)\<lparr>contents := take offset (contents (dev ! t)) @ take n data @ drop (offset + n) (contents (dev ! t))\<rparr>])
          else None)"

section \<open>Planes\<close>

record PagedKvTensor =
  plane_tensor :: "nat option"
  plane_offset :: nat
  block_bytes :: nat

definition qwen_paged_kv_planes :: "ggml_tensor list \<Rightarrow> nat list \<Rightarrow> nat list \<Rightarrow> nat \<Rightarrow> PagedKvTensor list" where
  "qwen_paged_kv_planes dev attn_k attn_v bsize =
     concat (map (\<lambda>t. map (\<lambda>head. \<lparr>plane_tensor = Some t, plane_offset = head * nb2 (dev ! t), block_bytes = bsize * nb1 (dev ! t)\<rparr>)
                        [0..<ne2 (dev ! t)])
       (attn_k @ attn_v))"

definition DS4_PAGE_TOKENS :: nat where
  "DS4_PAGE_TOKENS = 128"

record DeepSeek4PagedLayerCache =
  ratio :: nat
  comp_kv :: "nat option"
  index_comp_kv :: "nat option"

definition ds4_paged_kv_planes :: "ggml_tensor list \<Rightarrow> DeepSeek4PagedLayerCache list \<Rightarrow> PagedKvTensor list" where
  "ds4_paged_kv_planes dev layers =
     concat (map (\<lambda>layer. if ratio layer = 0 then []
        else map (\<lambda>t. \<lparr>plane_tensor = Some t, plane_offset = 0, block_bytes = (DS4_PAGE_TOKENS div ratio layer) * nb1 (dev ! t)\<rparr>)
               (case comp_kv layer of None \<Rightarrow> [] | Some t \<Rightarrow> [t]) @
             map (\<lambda>t. \<lparr>plane_tensor = Some t, plane_offset = 0, block_bytes = (DS4_PAGE_TOKENS div ratio layer) * nb1 (dev ! t)\<rparr>)
               (case index_comp_kv layer of None \<Rightarrow> [] | Some t \<Rightarrow> [t])) layers)"

section \<open>Budgets\<close>

definition size_max :: nat where
  "size_max = 18446744073709551615"

definition auto_kv_offload_budget :: "nat \<Rightarrow> nat \<Rightarrow> nat \<Rightarrow> nat \<Rightarrow> nat" where
  "auto_kv_offload_budget pool_bytes available_bytes explicit_bytes auto_models =
     (let allowance = available_bytes div 4 in
      if auto_models \<noteq> 0 then min pool_bytes ((allowance - min allowance explicit_bytes) div auto_models) else 0)"

record PagedKvOffload =
  off_slots :: "PagedKvPool SeqSlotManager"
  off_device :: "ggml_tensor list"
  off_tensors :: "PagedKvTensor list"
  saved :: "u8 list list"

definition new_offload :: "PagedKvPool SeqSlotManager \<Rightarrow> ggml_tensor list \<Rightarrow> PagedKvTensor list \<Rightarrow> PagedKvOffload" where
  "new_offload m dev planes = \<lparr>off_slots = m, off_device = dev, off_tensors = planes, saved = replicate (length (slots m)) []\<rparr>"

definition bad_layout :: string where
  "bad_layout = ''invalid paged KV offload tensor layout''"

definition plane_rejected :: "ggml_tensor list \<Rightarrow> nat \<Rightarrow> nat \<Rightarrow> nat \<Rightarrow> PagedKvTensor \<Rightarrow> bool" where
  "plane_rejected dev physical n bytes plane \<longleftrightarrow>
     (case plane_tensor plane of
        None \<Rightarrow> True
      | Some t \<Rightarrow> block_bytes plane = 0 \<or> plane_offset plane > ggml_nbytes (dev ! t) \<or>
          physical > (ggml_nbytes (dev ! t) - plane_offset plane) div block_bytes plane \<or>
          n > (size_max - bytes) div block_bytes plane)"

fun payload_loop :: "ggml_tensor list \<Rightarrow> nat \<Rightarrow> nat \<Rightarrow> PagedKvTensor list \<Rightarrow> nat \<Rightarrow> nat option" where
  "payload_loop dev physical n [] bytes = Some bytes"
| "payload_loop dev physical n (plane # planes) bytes =
     (if plane_rejected dev physical n bytes plane then None
      else payload_loop dev physical n planes (bytes + n * block_bytes plane))"

definition payload_size :: "PagedKvOffload \<Rightarrow> nat \<Rightarrow> nat option" where
  "payload_size x n = payload_loop (off_device x) (physical_block_count (kv (off_slots x))) n (off_tensors x) 0"

definition capacity :: "PagedKvOffload \<Rightarrow> nat" where
  "capacity x =
     (let p = kv (off_slots x);
          per_request = min (physical_block_count p)
            ((u64_of_int (max_ctx (off_slots x)) + block_size p - 1) mod (size_max + 1) div block_size p);
          suspended_slots = nat (max 0 (int32_of (int (length (slots (off_slots x)))) - 1)) in
      if suspended_slots \<noteq> 0 \<and> per_request > size_max div suspended_slots then 0
      else case payload_size x (per_request * suspended_slots) of Some bytes \<Rightarrow> bytes | None \<Rightarrow> 0)"

record KvOffloadState =
  state_parked :: bool
  state_recompute :: bool
  state_bytes :: nat

definition offload_state :: "PagedKvOffload \<Rightarrow> int \<Rightarrow> KvOffloadState" where
  "offload_state x slot =
     (if \<not> is_active (off_slots x) slot then \<lparr>state_parked = False, state_recompute = False, state_bytes = 0\<rparr>
      else let s = slots (off_slots x) ! nat slot in
        \<lparr>state_parked = parked s, state_recompute = (phase s = SeqRecompute), state_bytes = length (saved x ! nat slot)\<rparr>)"

section \<open>Copies\<close>

text \<open>The two loops over the planes and the block table. Saving appends at the running offset; restoring consumes the payload from its front.\<close>

fun save_plane :: "ggml_tensor list \<Rightarrow> PagedKvTensor \<Rightarrow> nat list \<Rightarrow> u8 list option" where
  "save_plane dev plane [] = Some []"
| "save_plane dev plane (block # blocks) =
     (case tensor_get dev (plane_tensor plane) (plane_offset plane + block * block_bytes plane) (block_bytes plane) of
        None \<Rightarrow> None
      | Some data \<Rightarrow> map_option ((@) data) (save_plane dev plane blocks))"

fun save_planes :: "ggml_tensor list \<Rightarrow> PagedKvTensor list \<Rightarrow> nat list \<Rightarrow> u8 list option" where
  "save_planes dev [] table = Some []"
| "save_planes dev (plane # planes) table =
     (case save_plane dev plane table of None \<Rightarrow> None | Some data \<Rightarrow> map_option ((@) data) (save_planes dev planes table))"

fun load_plane :: "PagedKvTensor \<Rightarrow> nat list \<Rightarrow> u8 list \<Rightarrow> ggml_tensor list \<Rightarrow> (u8 list \<times> ggml_tensor list) option" where
  "load_plane plane [] payload dev = Some (payload, dev)"
| "load_plane plane (block # blocks) payload dev =
     (case tensor_set dev (plane_tensor plane) payload (plane_offset plane + block * block_bytes plane) (block_bytes plane) of
        None \<Rightarrow> None
      | Some dev' \<Rightarrow> load_plane plane blocks (drop (block_bytes plane) payload) dev')"

fun load_planes :: "PagedKvTensor list \<Rightarrow> nat list \<Rightarrow> u8 list \<Rightarrow> ggml_tensor list \<Rightarrow> ggml_tensor list option" where
  "load_planes [] table payload dev = Some dev"
| "load_planes (plane # planes) table payload dev =
     (case load_plane plane table payload dev of None \<Rightarrow> None | Some (rest, dev') \<Rightarrow> load_planes planes table rest dev')"

section \<open>Suspend, restore and discard\<close>

definition discard :: "PagedKvOffload \<Rightarrow> int \<Rightarrow> PagedKvOffload" where
  "discard x slot = (if slot \<ge> 0 \<and> nat slot < length (saved x) then x\<lparr>saved := (saved x)[nat slot := []]\<rparr> else x)"

definition empty_snapshot :: PagedKvSequenceSnapshot where
  "empty_snapshot = \<lparr>snap_kv_seq_len = 0, snap_block_table = [], snap_reserved_block_count = 0\<rparr>"

text \<open>
  \<open>available\<close> is the answer of \<open>available_kv_offload_memory\<close>; \<open>copied\<close> and \<open>allocated\<close> tell whether the copy of the block table
  and the payload could be allocated.
\<close>

definition suspend :: "PagedKvOffload \<Rightarrow> int \<Rightarrow> nat \<Rightarrow> nat option \<Rightarrow> bool \<Rightarrow> bool \<Rightarrow> (bool \<times> string \<times> PagedKvOffload) option" where
  "suspend x slot available_bytes available copied allocated =
     (let m = off_slots x; s = slots m ! nat slot in
      if \<not> is_active m slot \<or> state_parked (offload_state x slot) \<or> staged_tokens s \<noteq> []
      then Some (False, ''KV suspension requires a resident slot at a committed step boundary'', x)
      else let (status, snap) = sequence (kv m) (handle s) empty_snapshot in
        if status = Ok \<and> \<not> copied then Some (False, ''could not allocate decode KV offload RAM'', x)
        else if status \<noteq> Ok \<or> snap_kv_seq_len snap \<noteq> u32_of_int (cur_pos s)
        then Some (False, ''KV suspension position does not match the pool'', x)
        else case payload_size x (length (snap_block_table snap)) of
          None \<Rightarrow> Some (False, bad_layout, x)
        | Some bytes \<Rightarrow>
            if bytes > available_bytes then Some (False, ''decode KV offload RAM budget exhausted'', x)
            else if (case available of None \<Rightarrow> False | Some a \<Rightarrow> bytes > a div 4)
            then Some (False, ''insufficient current host memory for decode KV offload'', x)
            else if \<not> allocated then Some (False, ''could not allocate decode KV offload RAM'', x)
            else case save_planes (off_device x) (off_tensors x) (snap_block_table snap) of
              None \<Rightarrow> None
            | Some payload \<Rightarrow>
                (let (detached, m') = detach_kv PoolSlotKv m slot in
                 if \<not> detached then Some (False, ''could not release preserved KV blocks'', x\<lparr>off_slots := m'\<rparr>)
                 else Some (True, [], x\<lparr>off_slots := m', saved := (saved x)[nat slot := payload]\<rparr>)))"

text \<open>
  \<open>resized\<close> and \<open>copied\<close> tell whether the result list and, after the blocks are attached, the copy of the block table could be
  allocated. The result is success, the block table for the device, the error text and the new state.
\<close>

definition restore ::
  "PagedKvOffload \<Rightarrow> int \<Rightarrow> bool \<Rightarrow> bool \<Rightarrow> (bool \<times> int list \<times> string \<times> PagedKvOffload) option" where
  "restore x slot resized copied =
     (let m = off_slots x; s = slots m ! nat slot in
      if \<not> is_active m slot \<or> phase s \<noteq> SeqSuspended
      then Some (False, [], if is_active m slot \<and> phase s = SeqRecompute
                            then ''KV copy restore requires a checkpointed suspension''
                            else ''KV restore requires a suspended slot'', x)
      else let n = (u64_of_int (cur_pos s) + block_size (kv m) - 1) mod (size_max + 1) div block_size (kv m) in
        case payload_size x n of
          None \<Rightarrow> Some (False, [], bad_layout, x)
        | Some bytes \<Rightarrow>
            if bytes \<noteq> length (saved x ! nat slot)
            then Some (False, [], ''saved KV payload size does not match the sequence'', x)
            else if \<not> resized then Some (False, [], ''could not allocate KV restore metadata'', x)
            else let (attached, m1) = attach_kv PoolSlotKv m slot; x1 = x\<lparr>off_slots := m1\<rparr> in
              if \<not> attached then Some (False, replicate n 0, [], x1)
              else let (status, snap) = sequence (kv m1) (handle (slots m1 ! nat slot)) empty_snapshot in
                if status = Ok \<and> \<not> copied
                then Some (False, replicate n 0, ''could not allocate KV restore metadata'',
                       if \<not> state_parked (offload_state x1 slot) then x1\<lparr>off_slots := snd (detach_kv PoolSlotKv m1 slot)\<rparr> else x1)
                else if status \<noteq> Ok
                then Some (False, replicate n 0, ''restored KV sequence is unavailable'', x1\<lparr>off_slots := snd (detach_kv PoolSlotKv m1 slot)\<rparr>)
                else case load_planes (off_tensors x1) (snap_block_table snap) (saved x1 ! nat slot) (off_device x1) of
                  None \<Rightarrow> None
                | Some dev \<Rightarrow>
                    if n > length (snap_block_table snap) then None
                    else Some (True, map (\<lambda>b. int32_of (int b)) (take n (snap_block_table snap)), [],
                           discard (x1\<lparr>off_device := dev\<rparr>) slot))"

text \<open>
  The engine drops the payload of a slot whose history will be computed again or that is retired. The slot's recurrent, image and
  draft state, which the engine resets on the same occasions, is not part of the model.
\<close>

definition evict_kv :: "PagedKvOffload \<Rightarrow> int \<Rightarrow> token \<Rightarrow> bool \<times> PagedKvOffload" where
  "evict_kv x slot pending_token =
     (let (evicted, m) = evict_for_recompute PoolSlotKv (off_slots x) slot pending_token; x1 = x\<lparr>off_slots := m\<rparr> in
      if \<not> evicted then (False, x1) else (True, discard x1 slot))"

definition retire_kv :: "PagedKvOffload \<Rightarrow> int \<Rightarrow> PagedKvOffload" where
  "retire_kv x slot =
     (let x1 = discard x slot in
      if \<not> is_active (off_slots x1) slot then x1 else x1\<lparr>off_slots := retire PoolSlotKv (off_slots x1) slot\<rparr>)"

end
