(* ===== verification/Sched_Loop.thy ===== *)
theory Sched_Loop
  imports Sched_Slot Paged_Kv_Offload
begin

text \<open>
  One pass of the concurrent scheduler (\<open>HttpServer::scheduler_loop\<close> in \<open>server/scheduler.cpp\<close>) over its live slots: the
  cancellations, the resumption of a parked request, the plan of a step, the loop that makes room for it, the step itself, the
  consumption of its outputs, the flush and the reaping. The engine is a record of the functions the loop calls. \<open>None\<close> is an aborted process
  or a pass that does not return. Telemetry, timing records, log output and the notes taken of a finished turn are not modelled.
\<close>

section \<open>The engine and the environment\<close>

record 'g SeqEngineOps =
  step_plan_limits :: "'g \<Rightarrow> int \<Rightarrow> StepPlanLimits"
  engine_step :: "'g \<Rightarrow> StepPlan \<Rightarrow> StepResult \<times> 'g"
  engine_reserve_decode :: "'g \<Rightarrow> StepPlan \<Rightarrow> bool \<times> 'g"
  kv_offload_state :: "'g \<Rightarrow> int \<Rightarrow> KvOffloadState"
  engine_offload_kv :: "'g \<Rightarrow> int \<Rightarrow> nat \<Rightarrow> (bool \<times> string \<times> 'g) option"
  engine_restore_kv :: "'g \<Rightarrow> int \<Rightarrow> (bool \<times> string \<times> 'g) option"
  engine_evict_kv :: "'g \<Rightarrow> int \<Rightarrow> token \<Rightarrow> bool \<times> string \<times> 'g"
  kv_recomputable :: "'g \<Rightarrow> int \<Rightarrow> bool"
  engine_restore_feasible :: "'g \<Rightarrow> int \<Rightarrow> bool"
  engine_retire :: "'g \<Rightarrow> int \<Rightarrow> 'g"
  max_decode_tokens :: int

text \<open>
  Besides the engine: the answers of the clock (whether it stands before the end of the decoders' turn, at each reading), the
  frames that end a reply, and what flushing a slot's buffer to its socket gives.
\<close>

record ('x, 'g) SchedEnv =
  slot_env :: "'x SlotEnv"
  eng :: "'g SeqEngineOps"
  offload_budget :: nat
  before_deadline :: "nat \<Rightarrow> bool"
  final_frames :: "'x SchedSlot \<Rightarrow> u8 list list"
  flush_slot :: "'x SchedSlot \<Rightarrow> bool \<times> ClientSendBuffer"
  empty_io :: 'x

record ('x, 'g) Scheduler =
  sched_slots :: "'x SchedSlot list"
  engine :: 'g
  live_slots :: int
  drains :: "'x SchedSlot list"
  finished_jobs :: "'x SchedSlot list"
  clock_reads :: nat
  prefill_candidates :: "PrefillCandidate list"
  prefill_round_robin_start :: nat
  short_first_steps :: int
  held_long_prompts :: bool
  long_prompt_waiting :: bool
  long_prompt_in_step :: bool

definition empty_sched_slot :: "'x \<Rightarrow> 'x SchedSlot" where
  "empty_sched_slot x = \<lparr>job = None, io = x, prefilling = False, prompt_left = 0, prompt_new = 0, admission_order = 0, n_gen_cap = 0,
     completion_tokens = 0, client_disconnected = False, slot_error = None, finished = False, gen_tokens = [], pending_tok = -1,
     send_buffer = new_send_buffer, budget = new_thinking_budget None 0, degenerate_close = False, loop_close_armed = False,
     acceptance = new_acceptance\<rparr>"

abbreviation put :: "nat \<Rightarrow> 'x SchedSlot \<Rightarrow> ('x, 'g) Scheduler \<Rightarrow> ('x, 'g) Scheduler" where
  "put i s S \<equiv> S\<lparr>sched_slots := (sched_slots S)[i := s]\<rparr>"

definition parked_slot :: "('x, 'g) SchedEnv \<Rightarrow> ('x, 'g) Scheduler \<Rightarrow> nat \<Rightarrow> bool" where
  "parked_slot env S i \<longleftrightarrow> offload_budget env \<noteq> 0 \<and> state_parked (kv_offload_state (eng env) (engine S) (int i))"

section \<open>Retirement\<close>

definition kMaxSlotSendBuffer :: nat where
  "kMaxSlotSendBuffer = 1048576"

text \<open>The frames that end the reply are queued unless the client left; the slot is freed, and its job is finished or left to the drains.\<close>

definition retire_slot :: "('x, 'g) SchedEnv \<Rightarrow> nat \<Rightarrow> ('x, 'g) Scheduler \<Rightarrow> ('x, 'g) Scheduler" where
  "retire_slot env i S =
     (let s0 = sched_slots S ! i in
      case job s0 of
        None \<Rightarrow> S
      | Some j0 \<Rightarrow>
          (let (j, buf) = stop_job_stream j0 (send_buffer s0);
               s1 = s0\<lparr>job := Some j, send_buffer := buf\<rparr>;
               s2 = (if client_disconnected s1 then s1
                     else s1\<lparr>send_buffer := foldl csb_append (send_buffer s1) (final_frames env s1)\<rparr>);
               g = engine_retire (eng env) (engine S) (int i);
               (ok, buf') = (if client_disconnected s2 then (True, send_buffer s2) else flush_slot env s2);
               s3 = s2\<lparr>send_buffer := buf'\<rparr>;
               drained = client_disconnected s2 \<or> \<not> ok \<or> csb_empty buf';
               S1 = (if drained \<or> csb_pending buf' > kMaxSlotSendBuffer then S\<lparr>finished_jobs := finished_jobs S @ [s3]\<rparr>
                     else S\<lparr>drains := drains S @ [s3]\<rparr>) in
           put i (empty_sched_slot (empty_io env)) (S1\<lparr>engine := g, live_slots := live_slots S1 - 1\<rparr>)))"

section \<open>The plan of a step\<close>

definition kShortFirstSteps :: int where
  "kShortFirstSteps = 4"

definition arm_slot_loop_close :: "nat \<Rightarrow> ('x, 'g) Scheduler \<Rightarrow> ('x, 'g) Scheduler" where
  "arm_slot_loop_close i S =
     (let s = sched_slots S ! i in
      if \<not> looping (budget s) \<or> loop_close_armed s then S
      else put i (s\<lparr>budget := arm_loop_close (budget s), loop_close_armed := True\<rparr>) S)"

definition budget_clear :: "('x, 'g) SchedEnv \<Rightarrow> 'x SchedSlot \<Rightarrow> bool" where
  "budget_clear env s \<longleftrightarrow> settled (budget s) \<or>
     (max_decode_tokens (eng env) > 0 \<and> \<not> needs_ar_tail (budget s) (max_decode_tokens (eng env)))"

definition plan_slot ::
  "('x, 'g) SchedEnv \<Rightarrow> nat \<Rightarrow> ('x, 'g) Scheduler \<Rightarrow> StepInput list \<times> PrefillCandidate list \<times> ('x, 'g) Scheduler" where
  "plan_slot env i S =
     (let s = sched_slots S ! i in
      if job s = None \<or> parked_slot env S i then ([], [], S)
      else if \<not> prefilling s
      then let clear = budget_clear env s; S' = (if \<not> clear then arm_slot_loop_close i S else S) in
        ([\<lparr>in_slot = int i, in_token = pending_tok s, allow_speculation = clear \<and> \<not> has_constraint (ops (slot_env env)) (io s)\<rparr>], [], S')
      else ([], [\<lparr>cand_slot = int i, cand_order = admission_order s\<rparr>], S))"

fun plan_slots ::
  "('x, 'g) SchedEnv \<Rightarrow> nat list \<Rightarrow> ('x, 'g) Scheduler \<Rightarrow> StepInput list \<times> PrefillCandidate list \<times> ('x, 'g) Scheduler" where
  "plan_slots env [] S = ([], [], S)"
| "plan_slots env (i # is) S =
     (let (rows, cands, S1) = plan_slot env i S; (rows', cands', S2) = plan_slots env is S1 in (rows @ rows', cands @ cands', S2))"

definition fits_one_step :: "('x, 'g) Scheduler \<Rightarrow> StepPlanLimits \<Rightarrow> PrefillCandidate \<Rightarrow> bool" where
  "fits_one_step S limits c \<longleftrightarrow> prompt_left (sched_slots S ! nat (cand_slot c)) \<le> max_prefill_tokens_per_sequence limits"

definition build_plan :: "('x, 'g) SchedEnv \<Rightarrow> ('x, 'g) Scheduler \<Rightarrow> StepPlan \<times> ('x, 'g) Scheduler" where
  "build_plan env S0 =
     (let (rows, cands, S) = plan_slots env [0..<length (sched_slots S0)] S0;
          decoders_turn = (rows \<noteq> [] \<and> before_deadline env (clock_reads S));
          limits = step_plan_limits (eng env) (engine S) (int (length rows));
          waiting = (\<not> (\<forall>c \<in> set cands. fits_one_step S limits c));
          held = (\<not> decoders_turn \<and> waiting \<and> short_first_steps S < kShortFirstSteps \<and> (\<exists>c \<in> set cands. fits_one_step S limits c));
          cands' = (if held then filter (fits_one_step S limits) cands else cands);
          slices = (if decoders_turn then [] else plan_prefill_slices cands' limits (prefill_round_robin_start S));
          long = (\<exists>s \<in> set slices. prompt_left (sched_slots S ! nat (slice_slot s)) > max_prefill_tokens_per_sequence limits) in
      (\<lparr>plan_decode = rows, plan_prefills = slices\<rparr>,
       S\<lparr>clock_reads := Suc (clock_reads S), prefill_candidates := cands', held_long_prompts := held, long_prompt_waiting := waiting,
         long_prompt_in_step := long\<rparr>))"

section \<open>Making room for a step\<close>

text \<open>The newest resident first; the error text is that of the last refusal.\<close>

fun try_offload ::
  "('x, 'g) SchedEnv \<Rightarrow> nat list \<Rightarrow> nat \<Rightarrow> string \<Rightarrow> ('x, 'g) Scheduler \<Rightarrow> (bool \<times> string \<times> ('x, 'g) Scheduler) option" where
  "try_offload env [] available err S = Some (False, err, S)"
| "try_offload env (victim # victims) available err S =
     (case engine_offload_kv (eng env) (engine S) (int victim) available of
        None \<Rightarrow> None
      | Some (ok, e, g) \<Rightarrow> if ok then Some (True, err, S\<lparr>engine := g\<rparr>) else try_offload env victims available e (S\<lparr>engine := g\<rparr>))"

definition residents :: "('x, 'g) SchedEnv \<Rightarrow> ('x, 'g) Scheduler \<Rightarrow> nat list" where
  "residents env S =
     rev (sort_key (\<lambda>i. admission_order (sched_slots S ! i))
       (filter (\<lambda>i. job (sched_slots S ! i) \<noteq> None \<and> \<not> state_parked (kv_offload_state (eng env) (engine S) (int i)))
         [0..<length (sched_slots S)]))"

definition used_bytes :: "('x, 'g) SchedEnv \<Rightarrow> ('x, 'g) Scheduler \<Rightarrow> nat" where
  "used_bytes env S =
     sum_list (map (\<lambda>i. state_bytes (kv_offload_state (eng env) (engine S) (int i)))
       (filter (\<lambda>i. job (sched_slots S ! i) \<noteq> None) [0..<length (sched_slots S)]))"

text \<open>The newest decoder whose cache can be rebuilt, else the newest decoder.\<close>

definition eviction_victim :: "('x, 'g) SchedEnv \<Rightarrow> nat list \<Rightarrow> ('x, 'g) Scheduler \<Rightarrow> nat option" where
  "eviction_victim env rs S =
     (let decoders = filter (\<lambda>i. \<not> prefilling (sched_slots S ! i)) rs in
      case filter (\<lambda>i. kv_recomputable (eng env) (engine S) (int i)) decoders of
        victim # _ \<Rightarrow> Some victim
      | [] \<Rightarrow> (case decoders of fallback # _ \<Rightarrow> Some fallback | [] \<Rightarrow> None))"

definition fail_slot :: "('x, 'g) SchedEnv \<Rightarrow> nat \<Rightarrow> SlotError \<Rightarrow> ('x, 'g) Scheduler \<Rightarrow> ('x, 'g) Scheduler" where
  "fail_slot env i e S = retire_slot env i (put i ((sched_slots S ! i)\<lparr>slot_error := Some e\<rparr>) S)"

definition growth_error :: "string \<Rightarrow> SlotError" where
  "growth_error e = DecodeFailed (if e = [] then ''paged KV pool cannot fit the request's next decode token''
     else ''paged KV growth could not be preserved: '' @ e)"

text \<open>
  One round: whether it gives up, and the scheduler. A refused eviction, or recovery that is switched off, fails the victim's request.
\<close>

definition make_room :: "('x, 'g) SchedEnv \<Rightarrow> ('x, 'g) Scheduler \<Rightarrow> (bool \<times> ('x, 'g) Scheduler) option" where
  "make_room env S =
     (let rs = residents env S; available = offload_budget env - min (offload_budget env) (used_bytes env S) in
      case (if offload_budget env \<noteq> 0 \<and> length rs > 1 then try_offload env rs available [] S else Some (False, [], S)) of
        None \<Rightarrow> None
      | Some (True, _, S1) \<Rightarrow> Some (False, S1)
      | Some (False, err, S1) \<Rightarrow>
          (case eviction_victim env rs S1 of
             None \<Rightarrow> Some (True, S1)
           | Some victim \<Rightarrow>
               if offload_budget env = 0
               then Some (False, fail_slot env victim (growth_error err) S1)
               else let (ok, e, g) = engine_evict_kv (eng env) (engine S1) (int victim) (pending_tok (sched_slots S1 ! victim)) in
                 if ok then Some (False, S1\<lparr>engine := g\<rparr>)
                 else Some (False, fail_slot env victim (growth_error e) (S1\<lparr>engine := g\<rparr>))))"

definition without_bursts :: "StepPlan \<Rightarrow> StepPlan" where
  "without_bursts plan = plan\<lparr>plan_decode := map (\<lambda>i. i\<lparr>allow_speculation := False\<rparr>) (plan_decode plan)\<rparr>"

partial_function (option) relieve ::
  "('x, 'g) SchedEnv \<Rightarrow> StepPlan \<Rightarrow> ('x, 'g) Scheduler \<Rightarrow> (StepPlan \<times> ('x, 'g) Scheduler) option" where
  "relieve env plan S =
     (let (reserved, g) = engine_reserve_decode (eng env) (engine S) plan in
      if reserved then Some (plan, S\<lparr>engine := g\<rparr>)
      else let (narrow, g') = engine_reserve_decode (eng env) g (without_bursts plan) in
        if narrow then Some (without_bursts plan, S\<lparr>engine := g'\<rparr>)
        else Option.bind (make_room env (S\<lparr>engine := g'\<rparr>)) (\<lambda>(stuck, S1).
          if stuck then Some (without_bursts plan, S1)
          else relieve env (fst (build_plan env S1)) (snd (build_plan env S1))))"

section \<open>Resuming a parked request\<close>

text \<open>The oldest parked slot, and whether no slot is resident.\<close>

definition oldest_parked :: "('x, 'g) SchedEnv \<Rightarrow> ('x, 'g) Scheduler \<Rightarrow> nat option \<times> bool" where
  "oldest_parked env S =
     (let live = filter (\<lambda>i. job (sched_slots S ! i) \<noteq> None) [0..<length (sched_slots S)] in
      (foldl (\<lambda>oldest i. case oldest of
                None \<Rightarrow> Some i
              | Some k \<Rightarrow> if admission_order (sched_slots S ! i) < admission_order (sched_slots S ! k) then Some i else Some k)
         None (filter (parked_slot env S) live),
       filter (\<lambda>i. \<not> parked_slot env S i) live = []))"

definition int_limit :: int where
  "int_limit = 2147483647"

definition resume_oldest :: "('x, 'g) SchedEnv \<Rightarrow> ('x, 'g) Scheduler \<Rightarrow> ('x, 'g) Scheduler option" where
  "resume_oldest env S =
     (if offload_budget env = 0 then Some S
      else case oldest_parked env S of
        (None, _) \<Rightarrow> Some S
      | (Some oldest, drained) \<Rightarrow>
          if \<not> (drained \<or> engine_restore_feasible (eng env) (engine S) (int oldest)) then Some S
          else let recompute = state_recompute (kv_offload_state (eng env) (engine S) (int oldest)) in
            (case engine_restore_kv (eng env) (engine S) (int oldest) of
               None \<Rightarrow> None
             | Some (ok, err, g) \<Rightarrow>
                 let S1 = S\<lparr>engine := g\<rparr>; s = sched_slots S1 ! oldest in
                 if ok
                 then Some (if recompute
                            then put oldest (s\<lparr>prefilling := True, prompt_left := int_limit, prompt_new := int_limit, pending_tok := -1\<rparr>) S1
                            else S1)
                 else let (evicted, err', S2) =
                        (if err \<noteq> [] \<and> \<not> recompute
                         then (let (ok', e, g') = engine_evict_kv (eng env) g (int oldest) (pending_tok s) in
                               (ok', if ok' then err else e, S1\<lparr>engine := g'\<rparr>))
                         else (False, err, S1)) in
                   if evicted then Some S2
                   else if drained \<or> err' \<noteq> []
                   then Some (fail_slot env oldest (DecodeFailed
                          (if err' = [] then ''parked request cannot fit its KV state and next token in the pool'' else err')) S2)
                   else Some S2))"

section \<open>The step\<close>

text \<open>The prompt left of each selected slot, less its grant.\<close>

definition charge_slice :: "('x, 'g) Scheduler \<Rightarrow> PrefillSlice \<Rightarrow> ('x, 'g) Scheduler" where
  "charge_slice S granted =
     (let i = nat (slice_slot granted); s = sched_slots S ! i in
      if prompt_left s \<noteq> int_limit then put i (s\<lparr>prompt_left := max 0 (prompt_left s - max_tokens granted)\<rparr>) S else S)"

definition checked_result :: "StepPlan \<Rightarrow> StepResult \<Rightarrow> int \<Rightarrow> StepResult" where
  "checked_result plan r n =
     (let protocol_error = validate_step_result plan r n in
      if protocol_error \<noteq> []
      then \<lparr>res_decode = [], res_prefills = [], res_error = ''engine step protocol violation: '' @ protocol_error\<rparr> else r)"

definition fail_all :: "('x, 'g) SchedEnv \<Rightarrow> SlotError \<Rightarrow> ('x, 'g) Scheduler \<Rightarrow> ('x, 'g) Scheduler" where
  "fail_all env e S =
     foldl (\<lambda>S i. if job (sched_slots S ! i) \<noteq> None then fail_slot env i e S else S) S [0..<length (sched_slots S)]"

definition take_decode :: "('x, 'g) SchedEnv \<Rightarrow> ('x, 'g) Scheduler \<Rightarrow> DecodeOutput \<Rightarrow> ('x, 'g) Scheduler" where
  "take_decode env S out =
     (if dec_slot out < 0 \<or> dec_slot out \<ge> int (length (sched_slots S)) then S
      else put (nat (dec_slot out)) (take_decode_output (slot_env env) (sched_slots S ! nat (dec_slot out)) out) S)"

definition take_prefill :: "('x, 'g) SchedEnv \<Rightarrow> ('x, 'g) Scheduler \<Rightarrow> PrefillOutput \<Rightarrow> ('x, 'g) Scheduler" where
  "take_prefill env S out =
     (if pre_slot out < 0 \<or> pre_slot out \<ge> int (length (sched_slots S)) then S
      else put (nat (pre_slot out)) (take_prefill_output (slot_env env) (sched_slots S ! nat (pre_slot out)) out) S)"

text \<open>
  A step with work to do: whether it succeeded, and the scheduler. A failed one retires every live request.
\<close>

definition run_step_plan :: "('x, 'g) SchedEnv \<Rightarrow> StepPlan \<Rightarrow> ('x, 'g) Scheduler \<Rightarrow> bool \<times> ('x, 'g) Scheduler" where
  "run_step_plan env plan S =
     (let S1 = (if held_long_prompts S then S\<lparr>short_first_steps := short_first_steps S + 1\<rparr>
                else if long_prompt_in_step S \<or> \<not> long_prompt_waiting S then S\<lparr>short_first_steps := 0\<rparr> else S);
          (r, g) = engine_step (eng env) (engine S1) plan;
          S2 = foldl charge_slice (S1\<lparr>engine := g\<rparr>) (plan_prefills plan);
          r' = checked_result plan r (int (length (sched_slots S2))) in
      if \<not> step_ok r' then (False, fail_all env (EngineStepFailed (res_error r')) S2)
      else (True, foldl (take_prefill env) (foldl (take_decode env) S2 (res_decode r')) (res_prefills r')))"

section \<open>Flushing and reaping\<close>

text \<open>\<open>stalled\<close> tells whether a slot's reader made no progress for too long or its buffer is over the limit.\<close>

definition flush_live :: "('x, 'g) SchedEnv \<Rightarrow> ('x SchedSlot \<Rightarrow> bool) \<Rightarrow> ('x, 'g) Scheduler \<Rightarrow> ('x, 'g) Scheduler" where
  "flush_live env stalled S =
     S\<lparr>sched_slots := map (\<lambda>s.
        if job s = None \<or> client_disconnected s then s
        else let (ok, buf) = flush_slot env s; s1 = s\<lparr>send_buffer := buf\<rparr> in
          if \<not> ok \<or> stalled s1 then s1\<lparr>client_disconnected := True, finished := True\<rparr> else s1) (sched_slots S)\<rparr>"

definition reap :: "('x, 'g) SchedEnv \<Rightarrow> ('x, 'g) Scheduler \<Rightarrow> ('x, 'g) Scheduler" where
  "reap env S =
     foldl (\<lambda>S i. if job (sched_slots S ! i) \<noteq> None \<and> finished (sched_slots S ! i) then retire_slot env i S else S)
       S [0..<length (sched_slots S)]"

definition retire_cancelled :: "('x, 'g) SchedEnv \<Rightarrow> (nat \<Rightarrow> bool) \<Rightarrow> ('x, 'g) Scheduler \<Rightarrow> ('x, 'g) Scheduler" where
  "retire_cancelled env gone S =
     foldl (\<lambda>S i. let s = sched_slots S ! i in
        if job s \<noteq> None \<and> gone i then retire_slot env i (put i (s\<lparr>client_disconnected := True, finished := True\<rparr>) S) else S)
       S [0..<length (sched_slots S)]"

section \<open>One pass\<close>

text \<open>
  A pass after admission. \<open>gone\<close> names the slots whose client left, \<open>stalled\<close> is the judgement of the send buffer's stall policy.
\<close>

definition scheduler_pass ::
  "('x, 'g) SchedEnv \<Rightarrow> (nat \<Rightarrow> bool) \<Rightarrow> ('x SchedSlot \<Rightarrow> bool) \<Rightarrow> ('x, 'g) Scheduler \<Rightarrow> ('x, 'g) Scheduler option" where
  "scheduler_pass env gone stalled S0 =
     (if live_slots S0 = 0 then Some S0
      else let S1 = retire_cancelled env gone S0 in
        if live_slots S1 = 0 then Some S1
        else case resume_oldest env S1 of
          None \<Rightarrow> None
        | Some S2 \<Rightarrow>
            (case relieve env (fst (build_plan env S2)) (snd (build_plan env S2)) of
               None \<Rightarrow> None
             | Some (plan, S3) \<Rightarrow>
                 let S4 = (if prefill_candidates S3 \<noteq> [] then S3\<lparr>prefill_round_robin_start := prefill_round_robin_start S3 + 1\<rparr> else S3) in
                 if plan_decode plan = [] \<and> plan_prefills plan = [] then Some S4
                 else (case run_step_plan env plan S4 of
                         (False, S5) \<Rightarrow> Some S5
                       | (True, S5) \<Rightarrow> Some (reap env (flush_live env stalled S5)))))"

end
