(* ===== verification/Sched_Slot_Props.thy ===== *)
theory Sched_Slot_Props
  imports Sched_Slot
begin

text \<open>
  What the outputs of a step do to a slot: they are taken in order through the thinking budget until a reason to stop, and a
  speculative burst the scheduler allowed is kept as the engine committed it.
\<close>

section \<open>The budget\<close>

text \<open>What holds of a controller at any point of a generation: a close is only forced at the limit or for a loop.\<close>

definition budget_ok :: "ThinkingBudget \<Rightarrow> bool" where
  "budget_ok b \<longleftrightarrow> (tb_loop_armed b \<longrightarrow> tb_looping b) \<and> (tb_forced b \<longrightarrow> tb_looping b \<or> tb_remaining b \<le> tb_limit b) \<and>
     (\<forall>t \<in> set (tb_close b). 0 \<le> t)"

lemma budget_ok_new: "\<forall>t \<in> set (close_token_ids h). 0 \<le> t \<Longrightarrow> budget_ok (new_thinking_budget (Some h) n)"
  by (simp add: budget_ok_def new_thinking_budget_def Let_def tb_close_def)

lemma budget_ok_disabled: "budget_ok (new_thinking_budget None n)"
  by (simp add: budget_ok_def new_thinking_budget_def Let_def tb_close_def)

lemma budget_ok_arm: "budget_ok b \<Longrightarrow> budget_ok (arm_loop_close b)"
  by (simp add: budget_ok_def arm_loop_close_def looping_def tb_limit_def tb_close_def)

lemma remember_fields:
  "tb_hook (remember b t) = tb_hook b" "tb_closed (remember b t) = tb_closed b" "tb_forced (remember b t) = tb_forced b"
  "tb_loop_armed (remember b t) = tb_loop_armed b" "tb_remaining (remember b t) = tb_remaining b" "tb_looping (remember b t) = tb_looping b"
  by (simp_all add: remember_def Let_def)

lemma repeats_looping: "tb_looping (snd (repeats b t)) = tb_looping b"
  by (simp add: repeats_def Let_def)

lemma apply_token_hook: "tb_hook (snd (apply_token b t)) = tb_hook b"
  by (simp add: apply_token_def Let_def split_beta remember_fields repeats_fields)

lemma apply_token_views:
  "tb_close (snd (apply_token b t)) = tb_close b" "tb_limit (snd (apply_token b t)) = tb_limit b"
  by (simp_all add: tb_close_def tb_limit_def apply_token_hook)

lemma budget_ok_apply:
  assumes "budget_ok b"
  shows "budget_ok (snd (apply_token b t))"
proof -
  have "tb_loop_armed (snd (apply_token b t)) \<longrightarrow> tb_looping (snd (apply_token b t))"
    using assms by (auto simp: budget_ok_def apply_token_def Let_def split_beta remember_fields repeats_fields repeats_looping)
  moreover have "tb_forced (snd (apply_token b t)) \<longrightarrow>
      tb_looping (snd (apply_token b t)) \<or> tb_remaining (snd (apply_token b t)) \<le> tb_limit (snd (apply_token b t))"
    unfolding apply_token_views
    using assms by (auto simp: budget_ok_def apply_token_def Let_def split_beta remember_fields repeats_fields repeats_looping)
  ultimately show ?thesis using assms by (simp add: budget_ok_def apply_token_views)
qed

lemma apply_token_nonneg: "budget_ok b \<Longrightarrow> 0 \<le> t \<Longrightarrow> 0 \<le> fst (fst (apply_token b t))"
proof -
  assume "budget_ok b" "0 \<le> t"
  moreover have "\<not> settled (b\<lparr>tb_remaining := r\<rparr>) \<Longrightarrow> tb_close b \<noteq> []" for r by (simp add: settled_def)
  moreover have "\<not> settled (b\<lparr>tb_remaining := r\<rparr>) \<Longrightarrow> tb_forced b \<Longrightarrow> tb_inject_pos b < length (tb_close b)" for r
    by (simp add: settled_def injecting_def)
  ultimately show ?thesis by (auto simp: apply_token_def Let_def split_beta budget_ok_def)
qed

text \<open>While the controller is quiet for \<open>m\<close> more tokens it replaces none of them.\<close>

definition quiet :: "ThinkingBudget \<Rightarrow> int \<Rightarrow> bool" where
  "quiet b m \<longleftrightarrow> settled b \<or> (\<not> tb_forced b \<and> \<not> tb_loop_armed b \<and> tb_remaining b - tb_limit b > m)"

lemma quiet_when_clear: "budget_ok b \<Longrightarrow> 0 \<le> m \<Longrightarrow> settled b \<or> \<not> needs_ar_tail b m \<Longrightarrow> quiet b m"
  by (auto simp: quiet_def needs_ar_tail_def budget_ok_def)

lemma quiet_apply:
  assumes "quiet b m" "1 \<le> m"
  shows "fst (fst (apply_token b t)) = t \<and> quiet (snd (apply_token b t)) (m - 1)"
proof -
  let ?b = "b\<lparr>tb_remaining := tb_remaining b - 1\<rparr>"
  have same: "settled ?b = settled b" by (simp add: settled_def injecting_def)
  consider (over) "settled b" | (natural) "\<not> settled b" "completes_marker b t" | (go) "\<not> settled b" "\<not> completes_marker b t" by blast
  then show ?thesis
  proof cases
    case over
    then show ?thesis using same by (simp add: apply_token_def Let_def quiet_def)
  next
    case natural
    then have "apply_token b t = ((t, False), ?b\<lparr>tb_closed := True, tb_marker_tail := []\<rparr>)"
      using assms(1) same by (simp add: apply_token_def Let_def quiet_def)
    then show ?thesis by (simp add: quiet_def settled_def)
  next
    case go
    then have q: "\<not> tb_forced b" "\<not> tb_loop_armed b" "tb_remaining b - tb_limit b > m" using assms(1) by (simp_all add: quiet_def)
    then have ap: "fst (fst (apply_token b t)) = t" "\<not> tb_forced (snd (apply_token b t))" "\<not> tb_loop_armed (snd (apply_token b t))"
      "tb_remaining (snd (apply_token b t)) = tb_remaining b - 1"
      using go same assms(2) by (auto simp: apply_token_def Let_def split_beta remember_fields repeats_fields)
    then show ?thesis using q(3) by (simp add: quiet_def apply_token_views)
  qed
qed

lemma quiet_run: "quiet b m \<Longrightarrow> int (length ts) \<le> m \<Longrightarrow> fst (run_tokens b ts) = ts"
proof (induction ts arbitrary: b m)
  case (Cons t ts)
  obtain tok c b' where ap: "apply_token b t = ((tok, c), b')" by (metis surj_pair)
  have "tok = t" "quiet b' (m - 1)" using quiet_apply [OF Cons.prems(1), of t] Cons.prems(2) ap by auto
  then show ?case using Cons.IH [of b' "m - 1"] Cons.prems(2) ap by (simp add: split_beta)
qed simp

lemma run_tokens_append:
  "run_tokens b (xs @ ys) = (let (o1, b1) = run_tokens b xs; (o2, b2) = run_tokens b1 ys in (o1 @ o2, b2))"
  by (induction xs arbitrary: b) (auto simp: split_beta Let_def)

lemma length_run_tokens: "length (fst (run_tokens b ts)) = length ts"
  by (induction ts arbitrary: b) (auto simp: split_beta Let_def)

section \<open>One token\<close>

lemma stop_job_stream_frame: "stop_job_stream j buf = (j', buf') \<Longrightarrow> stream j' = stream j \<and> stream_ready j' = False \<and> heartbeat_offset j' = 0"
  by (auto simp: stop_job_stream_def Let_def split: if_splits)

lemma deliver_frame:
  fixes s :: "'x SchedSlot"
  shows "\<exists>c x j buf. deliver_generation_token env s t = (c, s\<lparr>completion_tokens := completion_tokens s + 1, io := x, job := j, send_buffer := buf\<rparr>) \<and>
     (j = None \<longleftrightarrow> job s = None)"
proof -
  obtain d tx x1 where cl: "classify_generated_token (ops env) (tokenizer env) (io s) t = (d, tx, x1)" by (metis prod_cases3)
  obtain chunks x2 where em: "emit_token (ops env) x1 tx = (chunks, x2)" by fastforce
  obtain j' buf' where st: "stop_job_stream (the (job s)) (send_buffer s) = (j', buf')" by fastforce
  let ?streamed = "case job s of Some j \<Rightarrow> stream j | None \<Rightarrow> False"
  have j: "?streamed \<Longrightarrow> job s \<noteq> None" by (auto split: option.splits)
  have keep: "s\<lparr>completion_tokens := completion_tokens s + 1, io := x\<rparr> =
      s\<lparr>completion_tokens := completion_tokens s + 1, io := x, job := job s, send_buffer := send_buffer s\<rparr>" for x by simp
  show ?thesis
  proof (cases "d = KSkip \<or> tx = [] \<and> ?streamed")
    case True
    then have "deliver_generation_token env s t = (True, s\<lparr>completion_tokens := completion_tokens s + 1, io := x1\<rparr>)"
      by (auto simp: deliver_generation_token_def Let_def cl)
    then show ?thesis using keep [of x1] by metis
  next
    case no: False
    show ?thesis
    proof (cases "?streamed \<and> chunks \<noteq> []")
      case True
      then have "deliver_generation_token env s t = (d = KThinkTag \<or> \<not> stop_hit (ops env) x2,
          s\<lparr>completion_tokens := completion_tokens s + 1, io := x2, job := Some j', send_buffer := foldl csb_append buf' chunks\<rparr>)"
        using no by (simp add: deliver_generation_token_def Let_def cl em st)
      moreover have "Some j' = None \<longleftrightarrow> job s = None" using True j by simp
      ultimately show ?thesis by metis
    next
      case False
      then have "deliver_generation_token env s t = (d = KThinkTag \<or> \<not> stop_hit (ops env) x2,
          s\<lparr>completion_tokens := completion_tokens s + 1, io := x2\<rparr>)"
        using no by (auto simp: deliver_generation_token_def Let_def cl em)
      then show ?thesis using keep [of x2] by metis
    qed
  qed
qed

text \<open>A slot after one more token \<open>candidate\<close>, as far as the rest of the scheduler depends on it.\<close>

lemma advance_slot_spec:
  fixes s :: "'x SchedSlot" and env :: "'x SlotEnv" and candidate :: token
  defines "s' \<equiv> advance_slot env s candidate" and "tok \<equiv> fst (fst (apply_token (budget s) candidate))"
  shows "gen_tokens s' = gen_tokens s @ [tok]" "budget s' = snd (apply_token (budget s) candidate)" "pending_tok s' = tok"
    "completion_tokens s' = completion_tokens s + 1" "n_gen_cap s' = n_gen_cap s" "prefilling s' = prefilling s"
    "acceptance s' = acceptance s" "job s' = None \<longleftrightarrow> job s = None" "admission_order s' = admission_order s"
    "slot_error s' = slot_error s" "prompt_left s' = prompt_left s" "prompt_new s' = prompt_new s" "loop_close_armed s' = loop_close_armed s"
    "client_disconnected s' = client_disconnected s"
    "finished s \<Longrightarrow> finished s'"
    "token_is_eos env tok \<or> int (length (gen_tokens s')) \<ge> n_gen_cap s \<Longrightarrow> finished s'"
proof -
  obtain c b where ap: "apply_token (budget s) candidate = ((tok, c), b)" unfolding tok_def by (metis prod.collapse)
  define s1 where "s1 = s\<lparr>budget := b, io := (if has_constraint (ops env) (io s) then constraint_accept (ops env) (io s) tok else io s),
                  gen_tokens := gen_tokens s @ [tok]\<rparr>"
  obtain co x j buf where d: "deliver_generation_token env s1 tok = (co, s1\<lparr>completion_tokens := completion_tokens s1 + 1, io := x, job := j, send_buffer := buf\<rparr>)"
    and j: "j = None \<longleftrightarrow> job s = None" using deliver_frame [of env s1 tok] by (auto simp: s1_def)
  define s2 where "s2 = s1\<lparr>completion_tokens := completion_tokens s1 + 1, io := x, job := j, send_buffer := buf, pending_tok := tok\<rparr>"
  have eq: "s' = (if \<not> co \<or> token_is_eos env tok \<or> int (length (gen_tokens s2)) \<ge> n_gen_cap s2 then s2\<lparr>finished := True\<rparr>
      else if repeat_guard env > 0 \<and> int (length (gen_tokens s2)) \<ge> repeat_guard env \<and> int (trailing_run (gen_tokens s2)) \<ge> repeat_guard env
      then s2\<lparr>degenerate_close := True, finished := True\<rparr>
      else if tb_forced (budget s2) \<and> \<not> injecting (budget s2) \<and> repeats_period (gen_tokens s2) [12..<81]
      then s2\<lparr>degenerate_close := True, finished := True\<rparr> else s2)"
    unfolding s'_def advance_slot_def Let_def ap split_beta fst_conv snd_conv s1_def [symmetric] d s2_def [symmetric]
    by (simp only: d fst_conv snd_conv s2_def)
  let ?stop = "\<not> co \<or> token_is_eos env tok \<or> int (length (gen_tokens s2)) \<ge> n_gen_cap s2"
  obtain f dc where s': "s' = s2\<lparr>degenerate_close := dc, finished := f\<rparr>" and f: "finished s2 \<or> ?stop \<Longrightarrow> f"
  proof (cases ?stop)
    case True
    then have "s' = s2\<lparr>finished := True\<rparr>" unfolding eq by presburger
    then have "s' = s2\<lparr>degenerate_close := degenerate_close s2, finished := True\<rparr>" by simp
    then show ?thesis by (rule that) simp
  next
    case go: False
    show ?thesis
    proof (cases "repeat_guard env > 0 \<and> int (length (gen_tokens s2)) \<ge> repeat_guard env \<and> int (trailing_run (gen_tokens s2)) \<ge> repeat_guard env \<or>
        tb_forced (budget s2) \<and> \<not> injecting (budget s2) \<and> repeats_period (gen_tokens s2) [12..<81]")
      case True
      then have "s' = s2\<lparr>degenerate_close := True, finished := True\<rparr>" unfolding eq using go by presburger
      then show ?thesis by (rule that) simp
    next
      case False
      then have "s' = s2" unfolding eq using go by presburger
      then have "s' = s2\<lparr>degenerate_close := degenerate_close s2, finished := finished s2\<rparr>" by simp
      then show ?thesis by (rule that) (use go in simp)
    qed
  qed
  show "gen_tokens s' = gen_tokens s @ [tok]" "budget s' = snd (apply_token (budget s) candidate)" "pending_tok s' = tok"
    "completion_tokens s' = completion_tokens s + 1" "n_gen_cap s' = n_gen_cap s" "prefilling s' = prefilling s"
    "acceptance s' = acceptance s" "job s' = None \<longleftrightarrow> job s = None" "admission_order s' = admission_order s"
    "slot_error s' = slot_error s" "prompt_left s' = prompt_left s" "prompt_new s' = prompt_new s" "loop_close_armed s' = loop_close_armed s"
    "client_disconnected s' = client_disconnected s"
    by (simp_all add: s' s2_def s1_def ap j)
  show "finished s \<Longrightarrow> finished s'" "token_is_eos env tok \<or> int (length (gen_tokens s')) \<ge> n_gen_cap s \<Longrightarrow> finished s'"
    using f by (auto simp: s' s2_def s1_def)
qed

text \<open>A run of the scheduler's callback over the tokens of one output.\<close>

abbreviation feed :: "'x SlotEnv \<Rightarrow> token \<Rightarrow> 'x SchedSlot \<Rightarrow> bool \<times> 'x SchedSlot" where
  "feed env t s \<equiv> (if finished s then (False, s) else let s' = advance_slot env s t in (\<not> finished s', s'))"

lemma consume_output: 
  "\<not> dec_failed out \<Longrightarrow> consume_decode_output_tokens out f s = consume_tokens f (committed_tokens out @ [dec_token out]) s"
proof -
  have "consume_tokens f (xs @ ys) s = (let (more, s') = consume_tokens f xs s in if \<not> more then (False, s') else consume_tokens f ys s')" for xs ys
    by (induction xs arbitrary: s) (auto simp: split_beta Let_def)
  then show "\<not> dec_failed out \<Longrightarrow> ?thesis" by (auto simp: consume_decode_output_tokens_def split_beta Let_def prod_eq_iff)
qed

text \<open>The slot \<open>s'\<close> is \<open>s\<close> after the first \<open>k\<close> of the tokens \<open>ts\<close>, and only stopped short with a reason.\<close>

definition took :: "'x SlotEnv \<Rightarrow> token list \<Rightarrow> 'x SchedSlot \<Rightarrow> nat \<Rightarrow> 'x SchedSlot \<Rightarrow> bool" where
  "took env ts s k s' \<longleftrightarrow> k \<le> length ts \<and> (ts \<noteq> [] \<longrightarrow> 1 \<le> k \<and> pending_tok s' = last (gen_tokens s')) \<and>
    gen_tokens s' = gen_tokens s @ fst (run_tokens (budget s) (take k ts)) \<and> budget s' = snd (run_tokens (budget s) (take k ts)) \<and>
    int (length (gen_tokens s')) \<le> n_gen_cap s \<and> completion_tokens s' = completion_tokens s + int k \<and>
    (\<forall>t \<in> set (butlast (fst (run_tokens (budget s) (take k ts)))). \<not> token_is_eos env t) \<and>
    (\<not> finished s' \<longrightarrow> k = length ts \<and> int (length (gen_tokens s')) < n_gen_cap s \<and>
       (\<forall>t \<in> set (fst (run_tokens (budget s) (take k ts))). \<not> token_is_eos env t))"

text \<open>What the tokens of an output leave alone.\<close>

definition same_request :: "'x SchedSlot \<Rightarrow> 'x SchedSlot \<Rightarrow> bool" where
  "same_request s s' \<longleftrightarrow> n_gen_cap s' = n_gen_cap s \<and> (job s' = None \<longleftrightarrow> job s = None) \<and> admission_order s' = admission_order s \<and>
     prompt_left s' = prompt_left s \<and> prompt_new s' = prompt_new s \<and> loop_close_armed s' = loop_close_armed s"

lemma same_request_trans: "same_request a b \<Longrightarrow> same_request b c \<Longrightarrow> same_request a c"
  by (simp add: same_request_def)

lemma took_prefilling: "took env ts (s\<lparr>prefilling := p\<rparr>) k s' = took env ts s k s'"
proof -
  have e: "gen_tokens (s\<lparr>prefilling := p\<rparr>) = gen_tokens s" "budget (s\<lparr>prefilling := p\<rparr>) = budget s"
    "n_gen_cap (s\<lparr>prefilling := p\<rparr>) = n_gen_cap s" "completion_tokens (s\<lparr>prefilling := p\<rparr>) = completion_tokens s" by simp_all
  show ?thesis unfolding took_def e ..
qed

lemma feed_step:
  assumes "\<not> finished s"
  shows "consume_tokens (feed env) (t # ts) s =
    (if finished (advance_slot env s t) then (False, advance_slot env s t) else consume_tokens (feed env) ts (advance_slot env s t))"
  using assms by (simp add: Let_def)

lemma run_step:
  "run_tokens (budget s) (t # xs) = (fst (fst (apply_token (budget s) t)) # fst (run_tokens (budget (advance_slot env s t)) xs),
     snd (run_tokens (budget (advance_slot env s t)) xs))"
  by (simp add: split_beta Let_def advance_slot_spec(2))

lemma feed_keeps:
  "same_request s (snd (consume_tokens (feed env) ts s)) \<and> acceptance (snd (consume_tokens (feed env) ts s)) = acceptance s \<and>
   prefilling (snd (consume_tokens (feed env) ts s)) = prefilling s \<and> slot_error (snd (consume_tokens (feed env) ts s)) = slot_error s"
proof (induction ts arbitrary: s)
  case (Cons t ts)
  have a: "same_request s (advance_slot env s t)" by (simp add: same_request_def advance_slot_spec)
  show ?case
  proof (cases "finished s")
    case False
    show ?thesis unfolding feed_step [OF False] using Cons.IH [of "advance_slot env s t"] a
      by (auto simp: advance_slot_spec intro: same_request_trans)
  qed (simp add: same_request_def)
qed (simp add: same_request_def)

lemma feed_tokens:
  assumes "\<not> finished s" "int (length (gen_tokens s)) < n_gen_cap s"
  shows "\<exists>k. took env ts s k (snd (consume_tokens (feed env) ts s))"
  using assms
proof (induction ts arbitrary: s)
  case Nil
  then show ?case by (auto simp: took_def)
next
  case (Cons t ts)
  define a where "a = advance_slot env s t"
  note sp = advance_slot_spec [where s = s and env = env and candidate = t, folded a_def]
  note step = feed_step [OF Cons.prems(1), of env t ts, folded a_def]
  note run = run_step [of s t _ env, folded a_def]
  show ?case
  proof (cases "finished a")
    case True
    have "took env (t # ts) s 1 a" unfolding took_def using True sp Cons.prems by (simp add: run del: run_tokens.simps(2))
    then show ?thesis unfolding step using True by (simp only: if_True snd_conv) blast
  next
    case False
    have more: "int (length (gen_tokens a)) < n_gen_cap a" "\<not> token_is_eos env (fst (fst (apply_token (budget s) t)))"
      using sp(5) sp(16) False by (metis not_le)+
    obtain k where ih: "took env ts a k (snd (consume_tokens (feed env) ts a))" using Cons.IH [OF False more(1)] by blast
    define s' where "s' = snd (consume_tokens (feed env) ts a)"
    have k: "took env ts a k s'" using ih by (simp add: s'_def)
    note kd = k [unfolded took_def]
    have "ts = [] \<longrightarrow> s' = a" by (simp add: s'_def)
    then have pend: "pending_tok s' = last (gen_tokens s')" using kd sp(1,3) by (metis snoc_eq_iff_butlast)
    have gen: "gen_tokens s' = gen_tokens s @ fst (run_tokens (budget s) (take (Suc k) (t # ts)))"
      and bud: "budget s' = snd (run_tokens (budget s) (take (Suc k) (t # ts)))"
      using kd sp(1) by (simp_all add: run del: run_tokens.simps(2))
    have noeos: "\<forall>t' \<in> set (fst (run_tokens (budget s) (take (Suc k) (t # ts)))). \<not> token_is_eos env t'" if "\<not> finished s'"
      using that kd more(2) by (simp add: run del: run_tokens.simps(2))
    have early: "\<forall>t' \<in> set (butlast (fst (run_tokens (budget s) (take (Suc k) (t # ts))))). \<not> token_is_eos env t'"
      using kd more(2) by (simp add: run del: run_tokens.simps(2))
    have cap: "int (length (gen_tokens s')) \<le> n_gen_cap s" "\<not> finished s' \<Longrightarrow> int (length (gen_tokens s')) < n_gen_cap s"
      using kd unfolding sp(5) by blast+
    have rest: "completion_tokens s' = completion_tokens s + int (Suc k)" "Suc k \<le> length (t # ts)" "\<not> finished s' \<Longrightarrow> Suc k = length (t # ts)"
      using kd sp(4) by simp_all
    have "took env (t # ts) s (Suc k) s'" unfolding took_def
      by (intro conjI impI pend gen bud early noeos cap rest) simp_all
    then show ?thesis unfolding step s'_def using False by (simp only: if_False) blast
  qed
qed

section \<open>The invariant of a slot\<close>

definition acceptance_ok :: "SpecAcceptanceStats \<Rightarrow> bool" where
  "acceptance_ok a \<longleftrightarrow> 0 \<le> sa_accepted a \<and> sa_accepted a \<le> sa_offered a"

lemma record_chain_ok: "acceptance_ok a \<Longrightarrow> acceptance_ok (record_chain a x y e r)"
  by (auto simp: acceptance_ok_def record_chain_def sa_record_def Let_def max_def min_def)

definition slot_inv :: "'x SlotEnv \<Rightarrow> 'x SchedSlot \<Rightarrow> bool" where
  "slot_inv env s \<longleftrightarrow> (job s \<noteq> None \<longrightarrow>
     budget_ok (budget s) \<and> acceptance_ok (acceptance s) \<and> completion_tokens s = int (length (gen_tokens s)) \<and>
     int (length (gen_tokens s)) \<le> n_gen_cap s \<and> (\<forall>t \<in> set (gen_tokens s). 0 \<le> t) \<and>
     (\<not> finished s \<longrightarrow> slot_error s = None \<and> int (length (gen_tokens s)) < n_gen_cap s \<and>
        (\<not> prefilling s \<longrightarrow> gen_tokens s \<noteq> [] \<and> pending_tok s = last (gen_tokens s) \<and> \<not> token_is_eos env (pending_tok s))))"

lemma run_tokens_ok:
  "budget_ok b \<Longrightarrow> \<forall>t \<in> set ts. 0 \<le> t \<Longrightarrow> budget_ok (snd (run_tokens b ts)) \<and> (\<forall>t \<in> set (fst (run_tokens b ts)). 0 \<le> t)"
proof (induction ts arbitrary: b)
  case (Cons t ts)
  then have "budget_ok (snd (apply_token b t))" "0 \<le> fst (fst (apply_token b t))" "\<forall>u \<in> set ts. 0 \<le> u"
    using budget_ok_apply [OF Cons.prems(1)] apply_token_nonneg [OF Cons.prems(1)] by simp_all
  then show ?case using Cons.IH [of "snd (apply_token b t)"] by (simp add: split_beta Let_def)
qed simp

lemma took_inv:
  assumes inv: "slot_inv env s" and tk: "took env ts s k s'" and ts: "ts \<noteq> []" "\<forall>t \<in> set ts. 0 \<le> t"
    and same: "same_request s s'" "acceptance s' = acceptance s" "slot_error s' = slot_error s" and nf: "\<not> finished s"
  shows "slot_inv env s'"
proof (cases "job s = None")
  case True
  then show ?thesis using same(1) by (simp add: slot_inv_def same_request_def)
next
  case False
  let ?run = "run_tokens (budget s) (take k ts)"
  have old: "budget_ok (budget s)" "acceptance_ok (acceptance s)" "completion_tokens s = int (length (gen_tokens s))" "slot_error s = None"
    "\<forall>t \<in> set (gen_tokens s). 0 \<le> t" using inv False nf by (simp_all add: slot_inv_def)
  have rok: "budget_ok (snd ?run)" "\<forall>t \<in> set (fst ?run). 0 \<le> t"
    using run_tokens_ok [OF old(1), of "take k ts"] ts(2) by (auto dest: in_set_takeD)
  note tk' = tk [unfolded took_def]
  have gen: "gen_tokens s' = gen_tokens s @ fst ?run" and k: "k \<le> length ts" "1 \<le> k" using tk' ts(1) by blast+
  have len: "length (fst ?run) = k" using k by (simp add: length_run_tokens)
  then have ne: "fst ?run \<noteq> []" using k(2) by auto
  then have last: "last (gen_tokens s') \<in> set (fst ?run)" using gen by simp
  have "budget_ok (budget s')" "\<forall>t \<in> set (gen_tokens s'). 0 \<le> t" using tk' rok gen old(5) by auto
  moreover have "completion_tokens s' = int (length (gen_tokens s'))" using tk' gen len old(3) by simp
  moreover have cap: "n_gen_cap s' = n_gen_cap s" using same(1) by (simp add: same_request_def)
  moreover have "int (length (gen_tokens s')) \<le> n_gen_cap s'" unfolding cap using tk' by blast
  moreover have pend: "pending_tok s' = last (gen_tokens s')" using tk' ts(1) by blast
  moreover have "int (length (gen_tokens s')) < n_gen_cap s'" "\<not> token_is_eos env (pending_tok s')" if "\<not> finished s'"
    unfolding cap pend using tk' last that by blast+
  ultimately show ?thesis using same(2,3) old(2,4) gen ne by (simp add: slot_inv_def)
qed

lemma take_decode_output_form:
  assumes "job s \<noteq> None" "\<not> dec_failed out" "\<not> finished s" "int (length (gen_tokens s)) < n_gen_cap s"
  shows "\<exists>k s1 a. took env (committed_tokens out @ [dec_token out]) s k s1 \<and> same_request s s1 \<and> acceptance s1 = acceptance s \<and>
    slot_error s1 = slot_error s \<and> prefilling s1 = prefilling s \<and>
    take_decode_output env s out = s1\<lparr>acceptance := a\<rparr> \<and>
    a = (if spec_offered out > 0
         then record_chain (acceptance s) (spec_accepted out) (spec_offered out) (int k) (n_gen_cap s - int (length (gen_tokens s)))
         else acceptance s)"
proof -
  let ?ts = "committed_tokens out @ [dec_token out]"
  define s1 where "s1 = snd (consume_tokens (feed env) ?ts s)"
  obtain k where k: "took env ?ts s k s1" using feed_tokens [OF assms(3,4), of env ?ts] by (auto simp: s1_def)
  note keep = feed_keeps [of s env ?ts, folded s1_def]
  have "k \<le> length ?ts" "gen_tokens s1 = gen_tokens s @ fst (run_tokens (budget s) (take k ?ts))" using k by (simp_all only: took_def)
  then have "int (length (gen_tokens s1) - length (gen_tokens s)) = int k" by (simp add: length_run_tokens del: take_append)
  moreover have "take_decode_output env s out =
      (if spec_offered out > 0
       then s1\<lparr>acceptance := record_chain (acceptance s1) (spec_accepted out) (spec_offered out)
              (int (length (gen_tokens s1) - length (gen_tokens s))) (n_gen_cap s - int (length (gen_tokens s)))\<rparr> else s1)"
    using assms(1,2) by (cases "job s") (simp_all add: take_decode_output_def Let_def split_beta consume_output s1_def)
  ultimately have eq: "take_decode_output env s out = (if spec_offered out > 0
       then s1\<lparr>acceptance := record_chain (acceptance s) (spec_accepted out) (spec_offered out) (int k) (n_gen_cap s - int (length (gen_tokens s)))\<rparr>
       else s1)" using keep by simp
  have none: "s1\<lparr>acceptance := acceptance s\<rparr> = s1" using keep by simp
  define a where "a = (if spec_offered out > 0
      then record_chain (acceptance s) (spec_accepted out) (spec_offered out) (int k) (n_gen_cap s - int (length (gen_tokens s)))
      else acceptance s)"
  have "take_decode_output env s out = s1\<lparr>acceptance := a\<rparr>"
    unfolding eq a_def using none by (cases "spec_offered out > 0") simp_all
  then show ?thesis using k keep a_def by blast
qed

text \<open>A slot of a decode output of the engine protocol, and of a prefill output.\<close>

lemma take_decode_output_inv:
  assumes inv: "slot_inv env s" and ok: "dec_failed out \<or> (0 \<le> dec_token out \<and> (\<forall>t \<in> set (committed_tokens out). 0 \<le> t))"
  shows "slot_inv env (take_decode_output env s out)"
proof (cases "job s = None \<or> dec_failed out")
  case True
  then show ?thesis using inv by (auto simp: take_decode_output_def slot_inv_def)
next
  case go: False
  show ?thesis
  proof (cases "finished s")
    case True
    have "consume_tokens (feed env) (committed_tokens out @ [dec_token out]) s = (False, s)"
      using True by (cases "committed_tokens out") auto
    then have "take_decode_output env s out = (if spec_offered out > 0
        then s\<lparr>acceptance := record_chain (acceptance s) (spec_accepted out) (spec_offered out) 0 (n_gen_cap s - int (length (gen_tokens s)))\<rparr>
        else s)" using go by (cases "job s") (simp_all add: take_decode_output_def Let_def consume_output)
    then show ?thesis using inv go by (auto simp: slot_inv_def record_chain_ok)
  next
    case False
    have room: "int (length (gen_tokens s)) < n_gen_cap s" using inv go False by (simp add: slot_inv_def)
    have go': "job s \<noteq> None" "\<not> dec_failed out" using go by auto
    from take_decode_output_form [OF go' False room, of env] obtain k s1 a where f: "took env (committed_tokens out @ [dec_token out]) s k s1" "same_request s s1" "acceptance s1 = acceptance s"
      "slot_error s1 = slot_error s" "take_decode_output env s out = s1\<lparr>acceptance := a\<rparr>"
      "a = (if spec_offered out > 0
         then record_chain (acceptance s) (spec_accepted out) (spec_offered out) (int k) (n_gen_cap s - int (length (gen_tokens s)))
         else acceptance s)" by (elim exE conjE) (rule that; assumption)
    have "slot_inv env s1" using took_inv [OF inv f(1) _ _ f(2-4) False] ok go by auto
    moreover have "acceptance_ok (acceptance s) \<Longrightarrow> acceptance_ok a" using f(6) record_chain_ok by simp
    moreover have "acceptance_ok (acceptance s)" using inv go by (simp add: slot_inv_def)
    ultimately show ?thesis unfolding f(5) by (auto simp: slot_inv_def)
  qed
qed

lemma take_prefill_output_inv:
  assumes inv: "slot_inv env s" and ok: "pre_status out = Completed \<longrightarrow> 0 \<le> pre_token out" and nf: "\<not> finished s"
  shows "slot_inv env (take_prefill_output env s out)"
proof (cases "job s = None")
  case True
  then show ?thesis using inv by (simp add: take_prefill_output_def)
next
  case job: False
  define s1 where "s1 = (if attempted (pre_store out) then s\<lparr>io := captured (ops env) (io s) (pre_store out)\<rparr> else s)"
  have inv1: "slot_inv env s1" "\<not> finished s1" "job s1 \<noteq> None" using inv nf job by (auto simp: slot_inv_def s1_def)
  have eq: "take_prefill_output env s out = (case pre_status out of
          Failed \<Rightarrow> s1\<lparr>slot_error := Some (PrefillFailed (pre_error out)), finished := True\<rparr>
        | Completed \<Rightarrow> advance_slot env (s1\<lparr>prefilling := False\<rparr>) (pre_token out)
        | Advanced \<Rightarrow> s1)"
    unfolding take_prefill_output_def Let_def s1_def [symmetric] using job by (rule if_not_P)
  show ?thesis
  proof (cases "pre_status out")
    case Completed
    define s2 where "s2 = s1\<lparr>prefilling := True\<rparr>"
    define s3 where "s3 = s1\<lparr>prefilling := False\<rparr>"
    have inv2: "slot_inv env s2" "\<not> finished s2" "int (length (gen_tokens s3)) < n_gen_cap s3" "\<not> finished s3"
      using inv1 by (simp_all add: slot_inv_def s2_def s3_def)
    have tok: "\<forall>t \<in> set [pre_token out]. 0 \<le> t" using ok Completed by simp
    have one: "snd (consume_tokens (feed env) [pre_token out] s3) = advance_slot env s3 (pre_token out)" using inv2(4) by (simp add: Let_def)
    obtain k where "took env [pre_token out] s3 k (advance_slot env s3 (pre_token out))"
      using feed_tokens [OF inv2(4,3), of env "[pre_token out]"] unfolding one by blast
    then have "took env [pre_token out] s2 k (advance_slot env s3 (pre_token out))"
      unfolding s2_def took_prefilling by (simp only: s3_def took_prefilling)
    moreover have "same_request s2 (advance_slot env s3 (pre_token out))" "acceptance (advance_slot env s3 (pre_token out)) = acceptance s2"
      "slot_error (advance_slot env s3 (pre_token out)) = slot_error s2"
      by (simp_all add: same_request_def advance_slot_spec s2_def s3_def)
    ultimately show ?thesis using took_inv [OF inv2(1) _ _ tok _ _ _ inv2(2)] Completed by (simp add: eq s3_def)
  next
    case Failed
    then show ?thesis using inv1 by (simp add: eq slot_inv_def)
  qed (use inv1 in \<open>simp add: eq\<close>)
qed

section \<open>Properties\<close>

lemma record_chain_gain:
  "0 \<le> n \<Longrightarrow> sa_accepted (record_chain a x y n r) \<le> sa_accepted a + n \<and> sa_offered (record_chain a x y n r) \<le> sa_offered a + max 0 r"
  by (auto simp: record_chain_def sa_record_def Let_def)

text \<open>
  C18. A decode output reaches its request in order, through the budget. The slot takes a non-empty prefix of the output's tokens; what it
  records is that prefix run through the thinking budget, ending in the token fed back next. It never records more than its cap nor
  anything after an end-of-sequence token, and it takes the whole output unless the request is finished. The acceptance counters
  grow by no more than the tokens taken and the room there was.
\<close>

theorem step_output_follows_budget:
  assumes "job s \<noteq> None" "\<not> dec_failed out" "\<not> finished s" "int (length (gen_tokens s)) < n_gen_cap s"
  shows "\<exists>k emitted. let s' = take_decode_output env s out; ts = committed_tokens out @ [dec_token out] in
    1 \<le> k \<and> k \<le> length ts \<and> emitted = fst (run_tokens (budget s) (take k ts)) \<and> budget s' = snd (run_tokens (budget s) (take k ts)) \<and>
    gen_tokens s' = gen_tokens s @ emitted \<and> pending_tok s' = last emitted \<and> completion_tokens s' = completion_tokens s + int k \<and>
    int (length (gen_tokens s')) \<le> n_gen_cap s \<and> (\<forall>t \<in> set (butlast emitted). \<not> token_is_eos env t) \<and>
    (\<not> finished s' \<longrightarrow> k = length ts \<and> int (length (gen_tokens s')) < n_gen_cap s \<and> (\<forall>t \<in> set emitted. \<not> token_is_eos env t)) \<and>
    sa_accepted (acceptance s') \<le> sa_accepted (acceptance s) + int k \<and>
    sa_offered (acceptance s') \<le> sa_offered (acceptance s) + (n_gen_cap s - int (length (gen_tokens s)))"
proof -
  let ?ts = "committed_tokens out @ [dec_token out]"
  from take_decode_output_form [OF assms, of env] obtain k s1 a where f: "took env ?ts s k s1" "same_request s s1"
    "acceptance s1 = acceptance s" "take_decode_output env s out = s1\<lparr>acceptance := a\<rparr>"
    "a = (if spec_offered out > 0
       then record_chain (acceptance s) (spec_accepted out) (spec_offered out) (int k) (n_gen_cap s - int (length (gen_tokens s)))
       else acceptance s)" by (elim exE conjE) (rule that; assumption)
  note t = f(1) [unfolded took_def]
  have k: "1 \<le> k" "k \<le> length ?ts" using t by blast+
  have gen: "gen_tokens s1 = gen_tokens s @ fst (run_tokens (budget s) (take k ?ts))" using t by blast
  have "length (fst (run_tokens (budget s) (take k ?ts))) = k" using k(2) by (simp add: length_run_tokens del: take_append)
  then have "fst (run_tokens (budget s) (take k ?ts)) \<noteq> []" using k(1) by (metis list.size(3) not_one_le_zero)
  moreover have "pending_tok s1 = last (gen_tokens s1)" using t by blast
  ultimately have pend: "pending_tok s1 = last (fst (run_tokens (budget s) (take k ?ts)))" using gen by simp
  have acc: "sa_accepted a \<le> sa_accepted (acceptance s) + int k" "sa_offered a \<le> sa_offered (acceptance s) + (n_gen_cap s - int (length (gen_tokens s)))"
    using record_chain_gain [of "int k" "acceptance s" "spec_accepted out" "spec_offered out" "n_gen_cap s - int (length (gen_tokens s))"] assms(4)
    unfolding f(5) by (auto split: if_splits)
  define emitted where "emitted = fst (run_tokens (budget s) (take k ?ts))"
  note t' = t [folded emitted_def] and gen' = gen [folded emitted_def] and pend' = pend [folded emitted_def]
  have sel: "gen_tokens (s1\<lparr>acceptance := a\<rparr>) = gen_tokens s1" "budget (s1\<lparr>acceptance := a\<rparr>) = budget s1"
    "pending_tok (s1\<lparr>acceptance := a\<rparr>) = pending_tok s1" "completion_tokens (s1\<lparr>acceptance := a\<rparr>) = completion_tokens s1"
    "finished (s1\<lparr>acceptance := a\<rparr>) = finished s1" "acceptance (s1\<lparr>acceptance := a\<rparr>) = a" by simp_all
  show ?thesis unfolding Let_def f(4) sel
    by (rule exI [of _ k], rule exI [of _ emitted], intro conjI impI k acc pend' gen' emitted_def) (use t' in blast)+
qed

text \<open>A request without a grammar that has written one token; the tokens 5, 6 and 7 come, and 9 would end the reply.\<close>

definition demo_slot_env :: "unit SlotEnv" where
  "demo_slot_env = \<lparr>ops = \<lparr>suppress_undeclared = (\<lambda>x _. (False, x)), emit_token = (\<lambda>x _. ([[65]], x)), stop_hit = (\<lambda>_. False),
       has_constraint = (\<lambda>_. False), constraint_accept = (\<lambda>x _. x), captured = (\<lambda>x _. x)\<rparr>,
     tokenizer = \<lparr>eos_id = 9, eos_chat_id = 9, raw_token = (\<lambda>_. ''a''), token_text = (\<lambda>_. ''a'')\<rparr>,
     token_is_eos = (\<lambda>t. t = 9), repeat_guard = 0\<rparr>"

definition demo_slot :: "u64 \<Rightarrow> unit SchedSlot" where
  "demo_slot n = \<lparr>job = Some \<lparr>stream = True, stream_ready = True, heartbeat_offset = 3\<rparr>, io = (), prefilling = False, prompt_left = 0,
     prompt_new = 0, admission_order = n, n_gen_cap = 8, completion_tokens = 1, client_disconnected = False, slot_error = None,
     finished = False, gen_tokens = [4], pending_tok = 4, send_buffer = new_send_buffer, budget = new_thinking_budget None 8,
     degenerate_close = False, loop_close_armed = False, acceptance = new_acceptance\<rparr>"

definition demo_burst :: DecodeOutput where
  "demo_burst = \<lparr>dec_slot = 0, dec_token = 7, dec_failed = False, dec_error = [], committed_tokens = [5, 6], spec_offered = 3, spec_accepted = 2\<rparr>"

lemma demo_slot_fields:
  "job (demo_slot n) \<noteq> None" "\<not> finished (demo_slot n)" "gen_tokens (demo_slot n) = [4]" "n_gen_cap (demo_slot n) = 8"
  "pending_tok (demo_slot n) = 4" "\<not> prefilling (demo_slot n)" "budget (demo_slot n) = new_thinking_budget None 8"
  by (simp_all add: demo_slot_def)

lemma demo_slot_inv: "slot_inv demo_slot_env (demo_slot n)"
  by (simp add: slot_inv_def demo_slot_def demo_slot_env_def budget_ok_disabled acceptance_ok_def new_acceptance_def)

theorem step_output_follows_budget_witness:
  "\<exists>k emitted. let s' = take_decode_output demo_slot_env (demo_slot 1) demo_burst in
     1 \<le> k \<and> k \<le> 3 \<and> gen_tokens s' = 4 # emitted \<and> length emitted = k \<and> pending_tok s' = last emitted \<and> completion_tokens s' = 1 + int k"
proof -
  have "\<not> dec_failed demo_burst" by (simp add: demo_burst_def)
  then have h: "job (demo_slot 1) \<noteq> None" "\<not> dec_failed demo_burst" "\<not> finished (demo_slot 1)"
    "int (length (gen_tokens (demo_slot 1))) < n_gen_cap (demo_slot 1)" by (simp_all add: demo_slot_fields)
  obtain k emitted where k: "1 \<le> k" "k \<le> length (committed_tokens demo_burst @ [dec_token demo_burst])"
    "emitted = fst (run_tokens (budget (demo_slot 1)) (take k (committed_tokens demo_burst @ [dec_token demo_burst])))"
    "gen_tokens (take_decode_output demo_slot_env (demo_slot 1) demo_burst) = gen_tokens (demo_slot 1) @ emitted"
    "pending_tok (take_decode_output demo_slot_env (demo_slot 1) demo_burst) = last emitted"
    "completion_tokens (take_decode_output demo_slot_env (demo_slot 1) demo_burst) = completion_tokens (demo_slot 1) + int k"
    using step_output_follows_budget [OF h, of demo_slot_env] unfolding Let_def by blast
  have "length emitted = k" using k(2,3) by (simp add: length_run_tokens del: take_append)
  moreover have "k \<le> 3" using k(2) by (simp add: demo_burst_def)
  moreover have "completion_tokens (demo_slot 1) = 1" by (simp add: demo_slot_def)
  ultimately show ?thesis unfolding Let_def
    by - (rule exI [of _ k], rule exI [of _ emitted], use k in \<open>simp add: demo_slot_fields\<close>)
qed

end
