(* ===== verification/Seq_Engine_Props.thy ===== *)
theory Seq_Engine_Props
  imports Seq_Engine "HOL-Library.Multiset"
begin

text \<open>
  How the prompt tokens of a step are shared out, and that the check of a step result accepts exactly the results with one
  well-formed output per planned row.
\<close>

section \<open>Granting tokens\<close>

text \<open>What the \<open>k\<close>-th slice gets of a budget handed out in portions of \<open>g\<close>.\<close>

definition share :: "int \<Rightarrow> int \<Rightarrow> nat \<Rightarrow> int" where
  "share g b k = max 0 (min g (b - int k * g))"

lemma share_nothing: "0 \<le> g \<Longrightarrow> b \<le> 0 \<Longrightarrow> share g b k = 0"
proof -
  assume "0 \<le> g" "b \<le> 0"
  then have "0 \<le> int k * g" by simp
  then show ?thesis using \<open>b \<le> 0\<close> unfolding share_def by linarith
qed

lemma share_first: "0 < g \<Longrightarrow> 0 < b \<Longrightarrow> share g b 0 = min g b"
  by (simp add: share_def)

lemma share_next: "share g b (Suc k) = share g (b - g) k"
  by (simp add: share_def algebra_simps)

lemma share_full:
  assumes "0 \<le> g" "int n * g \<le> b" "k < n"
  shows "share g b k = g"
proof -
  have "(int k + 1) * g \<le> int n * g" using assms by (intro mult_right_mono) auto
  then have "g \<le> b - int k * g" using assms(2) by (simp add: algebra_simps)
  then show ?thesis using assms(1) by (simp add: share_def)
qed

lemma share_bounds: "0 \<le> g \<Longrightarrow> 0 \<le> share g b k \<and> share g b k \<le> g"
  by (simp add: share_def)

lemma share_antimono:
  assumes "0 \<le> g" "j \<le> k"
  shows "share g b k \<le> share g b j"
proof -
  have "int j * g \<le> int k * g" using assms by (intro mult_right_mono) auto
  then show ?thesis by (simp add: share_def)
qed

lemma sum_share:
  assumes "0 \<le> g" "0 \<le> b"
  shows "(\<Sum>k < n. share g b k) = min b (int n * g)"
proof (induction n)
  case (Suc n)
  have "share g b n = min b (int (Suc n) * g) - min b (int n * g)" using assms by (auto simp: share_def algebra_simps min_def max_def)
  then show ?case using Suc.IH by simp
qed (use assms in simp)

lemma grant_round_spec:
  assumes "distinct idxs" "\<forall>i \<in> set idxs. i < length ss \<and> max_tokens (ss ! i) = v"
    and g: "g = min (prefill_allocation_quantum L) (max_prefill_tokens_per_sequence L - v)" "0 < g" and "0 < budget"
  shows "\<exists>ss' gr'. grant_round L idxs ss budget gr = (ss', max 0 (budget - int (length idxs) * g), gr') \<and>
    map slice_slot ss' = map slice_slot ss \<and> (\<forall>i. i \<notin> set idxs \<longrightarrow> ss' ! i = ss ! i) \<and>
    (\<forall>k < length idxs. max_tokens (ss' ! (idxs ! k)) = v + share g budget k) \<and> (idxs \<noteq> [] \<longrightarrow> gr')"
  using assms(1,2,5)
proof (induction idxs arbitrary: ss budget gr)
  case (Cons i idxs)
  let ?grant = "min g budget" let ?ss = "ss[i := (ss ! i)\<lparr>max_tokens := v + min g budget\<rparr>]"
  have v: "max_tokens (ss ! i) = v" "i < length ss" using Cons.prems by auto
  have step: "grant_round L (i # idxs) ss budget gr =
      (if budget - ?grant = 0 then (?ss, budget - ?grant, True) else grant_round L idxs ?ss (budget - ?grant) True)"
  proof -
    have "\<not> max_prefill_tokens_per_sequence L - v \<le> 0" "min (prefill_allocation_quantum L) (min (max_prefill_tokens_per_sequence L - v) budget) = ?grant"
      "\<not> ?grant \<le> 0" using g Cons.prems(3) by auto
    then show ?thesis using v by (simp add: Let_def)
  qed
  have slots: "map slice_slot ?ss = map slice_slot ss" using v(2) by (simp add: list_eq_iff_nth_eq nth_list_update)
  show ?case
  proof (cases "budget \<le> g")
    case True
    have "g \<le> int (length (i # idxs)) * g" using g(2) by (simp add: algebra_simps)
    then have "max 0 (budget - int (length (i # idxs)) * g) = 0" using True by linarith
    moreover have "max_tokens (?ss ! ((i # idxs) ! k)) = v + share g budget k" if "k < length (i # idxs)" for k
    proof (cases k)
      case 0
      then show ?thesis using v share_first [OF g(2) Cons.prems(3)] by simp
    next
      case (Suc k')
      then have k': "k' < length idxs" using that by simp
      then have "idxs ! k' \<noteq> i" "max_tokens (ss ! (idxs ! k')) = v" using Cons.prems(1,2) nth_mem [OF k'] by (auto simp del: nth_mem)
      moreover have "share g budget k = 0" unfolding Suc share_next by (rule share_nothing) (use True g(2) in auto)
      ultimately show ?thesis using Suc by simp
    qed
    ultimately show ?thesis using step True slots by auto
  next
    case False
    have "\<forall>j \<in> set idxs. j < length ?ss \<and> max_tokens (?ss ! j) = v"
    proof
      fix j assume j: "j \<in> set idxs"
      then have "i \<noteq> j" using Cons.prems(1) by auto
      then show "j < length ?ss \<and> max_tokens (?ss ! j) = v" using j Cons.prems(2) by simp
    qed
    then obtain ss' gr' where ih: "grant_round L idxs ?ss (budget - g) True = (ss', max 0 (budget - g - int (length idxs) * g), gr')"
      "map slice_slot ss' = map slice_slot ?ss" "\<forall>j. j \<notin> set idxs \<longrightarrow> ss' ! j = ?ss ! j"
      "\<forall>k < length idxs. max_tokens (ss' ! (idxs ! k)) = v + share g (budget - g) k" "idxs \<noteq> [] \<longrightarrow> gr'"
      using Cons.IH [of ?ss "budget - g" True] Cons.prems(1) False by auto
    have gr': "gr'" using ih(1,5) by (cases idxs) auto
    have "max_tokens (ss' ! ((i # idxs) ! k)) = v + share g budget k" if "k < length (i # idxs)" for k
      using that ih(3,4) Cons.prems(1) v False share_first [OF g(2) Cons.prems(3)] share_next [of g budget] by (cases k) auto
    then show ?thesis using step ih(1-3) gr' slots False by (auto simp: algebra_simps)
  qed
qed simp

lemma grant_loop_spec:
  assumes "distinct order" "set order = {..<length ss}" "ss \<noteq> []" "\<forall>s \<in> set ss. max_tokens s = v"
    and "0 < prefill_allocation_quantum L" "v \<le> max_prefill_tokens_per_sequence L"
    and "0 \<le> budget" "budget \<le> int (length ss) * (max_prefill_tokens_per_sequence L - v)"
  shows "\<exists>w g b. v \<le> w \<and> g = min (prefill_allocation_quantum L) (max_prefill_tokens_per_sequence L - w) \<and> 0 \<le> g \<and> 0 \<le> b \<and>
    b \<le> int (length ss) * g \<and> budget = int (length ss) * (w - v) + b \<and>
    map slice_slot (grant_loop L order ss budget) = map slice_slot ss \<and>
    (\<forall>k < length ss. max_tokens (grant_loop L order ss budget ! (order ! k)) = w + share g b k)"
  using assms(2-4,6-8)
proof (induction "nat budget" arbitrary: ss budget v rule: less_induct)
  case less
  let ?per = "max_prefill_tokens_per_sequence L" let ?n = "int (length ss)"
  define g0 where "g0 = min (prefill_allocation_quantum L) (?per - v)"
  have lo: "length order = length ss" using distinct_card [OF assms(1)] less.prems(1) by simp
  show ?case
  proof (cases "budget = 0")
    case True
    have "max_tokens (ss ! (order ! k)) = v" if "k < length ss" for k
      using that lo less.prems(1,3) nth_mem [of k order] by (metis lessThan_iff nth_mem)
    moreover have "share g0 0 k = 0" for k using assms(5) less.prems(4) by (intro share_nothing) (auto simp: g0_def)
    ultimately show ?thesis using True less.prems(4) assms(5) lo
      by - (rule exI [of _ v], rule exI [of _ g0], rule exI [of _ 0], simp add: grant_loop.simps g0_def)
  next
    case False
    then have pos: "0 < budget" using less.prems(5) by simp
    have room: "v < ?per"
    proof (rule ccontr)
      assume "\<not> v < ?per"
      then have "?n * (?per - v) \<le> 0" by (simp add: mult_nonneg_nonpos)
      then show False using less.prems(6) pos by linarith
    qed
    then have g: "0 < g0" using assms(5) by (simp add: g0_def)
    have n: "0 < ?n" using less.prems(2) by simp
    have idx: "\<forall>i \<in> set order. i < length ss \<and> max_tokens (ss ! i) = v" using less.prems(1,3) nth_mem by fastforce
    obtain ss' gr' where r: "grant_round L order ss budget False = (ss', max 0 (budget - ?n * g0), gr')"
      "map slice_slot ss' = map slice_slot ss"
      "\<forall>k < length order. max_tokens (ss' ! (order ! k)) = v + share g0 budget k" "order \<noteq> [] \<longrightarrow> gr'"
      using grant_round_spec [OF assms(1) idx g0_def g pos, of False] lo by auto
    have gr: "gr'" using r(4) lo less.prems(2) by auto
    have loop: "grant_loop L order ss budget = grant_loop L order ss' (max 0 (budget - ?n * g0))"
      using r(1) gr pos by (subst grant_loop.simps) simp
    show ?thesis
    proof (cases "budget \<le> ?n * g0")
      case True
      then have "grant_loop L order ss budget = ss'" unfolding loop by (simp add: grant_loop.simps g0_def)
      then show ?thesis using r(2,3) lo g pos True
        by - (rule exI [of _ v], rule exI [of _ g0], rule exI [of _ budget], simp add: g0_def [symmetric])
    next
      case more: False
      have all: "\<forall>s \<in> set ss'. max_tokens s = v + g0"
      proof
        fix s assume "s \<in> set ss'"
        then obtain i where "i < length ss'" "s = ss' ! i" by (auto simp: in_set_conv_nth)
        moreover have "length ss' = length ss" using arg_cong [OF r(2), of length] by simp
        ultimately obtain k where k: "k < length order" "order ! k = i" using less.prems(1) by (metis in_set_conv_nth lessThan_iff)
        have "share g0 budget k = g0" using k lo g more by (intro share_full [of _ "length ss"]) auto
        then show "max_tokens s = v + g0" using r(3) k g \<open>s = ss' ! i\<close> by auto
      qed
      have len: "length ss' = length ss" using arg_cong [OF r(2), of length] by simp
      have lt: "nat (budget - ?n * g0) < nat budget" using n g pos by (simp add: nat_less_iff)
      have per: "v + g0 \<le> ?per" using room by (simp add: g0_def)
      have small: "budget - ?n * g0 \<le> int (length ss') * (?per - (v + g0))" using less.prems(6) len by (simp add: algebra_simps)
      have ord: "set order = {..<length ss'}" using less.prems(1) len by simp
      have ne: "ss' \<noteq> []" using less.prems(2) len by (metis length_0_conv)
      have left: "0 \<le> budget - ?n * g0" using more by simp
      from less.hyps [OF lt ord ne all per left small] obtain w g' b where ih: "v + g0 \<le> w" "g' = min (prefill_allocation_quantum L) (?per - w)" "0 \<le> g'" "0 \<le> b" "b \<le> int (length ss') * g'"
        "budget - ?n * g0 = int (length ss') * (w - (v + g0)) + b"
        "map slice_slot (grant_loop L order ss' (budget - ?n * g0)) = map slice_slot ss'"
        "\<forall>k < length ss'. max_tokens (grant_loop L order ss' (budget - ?n * g0) ! (order ! k)) = w + share g' b k"
        by blast
      have "budget = ?n * (w - v) + b" using ih(6) len by (simp add: algebra_simps)
      moreover have "grant_loop L order ss budget = grant_loop L order ss' (budget - ?n * g0)" unfolding loop using more by simp
      ultimately show ?thesis using ih len r(2) g
        by - (rule exI [of _ w], rule exI [of _ g'], rule exI [of _ b], simp)
    qed
  qed
qed

lemma rotation_order:
  fixes start n :: nat
  defines "order \<equiv> map (\<lambda>offset. (start + offset) mod n) [0..<n]"
  shows "distinct order" "set order = {..<n}" "length order = n" "k < n \<Longrightarrow> order ! k = (start + k) mod n"
proof -
  have "order = rotate start [0..<n]" by (rule nth_equalityI) (auto simp: order_def nth_rotate)
  then show "distinct order" "set order = {..<n}" by auto
qed (auto simp: order_def)

text \<open>The candidates of a step: the oldest ones, as many as the engine takes.\<close>

definition cohort :: "PrefillCandidate list \<Rightarrow> StepPlanLimits \<Rightarrow> PrefillCandidate list" where
  "cohort candidates limits = take (nat (min (int (length candidates)) (max_prefill_sequences limits)))
     (sort_key (\<lambda>c. (cand_order c, cand_slot c)) candidates)"

definition granted_tokens :: "PrefillSlice list \<Rightarrow> int \<Rightarrow> int" where
  "granted_tokens plan slot = sum_list (map max_tokens (filter (\<lambda>s. slice_slot s = slot) plan))"

lemma cohort_distinct: "distinct (map cand_slot cs) \<Longrightarrow> distinct (map cand_slot (cohort cs L))"
proof -
  assume "distinct (map cand_slot cs)"
  then have "distinct (map cand_slot (sort_key (\<lambda>c. (cand_order c, cand_slot c)) cs))"
    by (simp add: distinct_map)
  then show ?thesis unfolding cohort_def take_map [symmetric] by (rule distinct_take)
qed

lemma cohort_oldest:
  assumes "c \<in> set (cohort cs L)" "d \<in> set cs" "d \<notin> set (cohort cs L)"
  shows "(cand_order c, cand_slot c) \<le> (cand_order d, cand_slot d)"
proof -
  let ?k = "\<lambda>c. (cand_order c, cand_slot c)"
  let ?s = "sort_key ?k cs" and ?n = "nat (min (int (length cs)) (max_prefill_sequences L))"
  have "sorted (map ?k (take ?n ?s @ drop ?n ?s))" by simp
  moreover have "d \<in> set (take ?n ?s @ drop ?n ?s)" using assms(2) by simp
  then have "d \<in> set (drop ?n ?s)" using assms(3) by (simp only: cohort_def set_append Un_iff) simp
  ultimately show ?thesis using assms(1) unfolding map_append sorted_append cohort_def by auto
qed

lemma granted_of_filter:
  assumes "distinct (map slice_slot res)" "i < length res" "\<forall>s \<in> set res. 0 \<le> max_tokens s"
  shows "granted_tokens (filter (\<lambda>s. \<not> max_tokens s \<le> 0) res) (slice_slot (res ! i)) = max_tokens (res ! i)"
  using assms
proof (induction res arbitrary: i)
  case (Cons r res)
  have other: "slice_slot s \<noteq> slice_slot r" if "s \<in> set res" for s using that Cons.prems(1) by (metis distinct.simps(2) image_eqI list.set_map list.simps(9))
  show ?case
  proof (cases i)
    case 0
    have "filter (\<lambda>s. slice_slot s = slice_slot r) (filter (\<lambda>s. \<not> max_tokens s \<le> 0) res) = []"
      using other by (auto simp: filter_empty_conv)
    then show ?thesis using 0 Cons.prems(3) by (auto simp: granted_tokens_def)
  next
    case (Suc j)
    have "slice_slot r \<noteq> slice_slot (res ! j)" using Cons.prems(1,2) Suc nth_mem [of j res] by force
    then show ?thesis using Suc Cons by (auto simp: granted_tokens_def)
  qed
qed simp

lemma sum_filter_positive:
  "\<forall>s \<in> set res. 0 \<le> max_tokens s \<Longrightarrow> sum_list (map max_tokens (filter (\<lambda>s. \<not> max_tokens s \<le> 0) res)) = sum_list (map max_tokens res)"
  by (induction res) auto

text \<open>The plan before the empty slices are dropped: a level \<open>w\<close> and one round of shares above it, in rotated order.\<close>

lemma planned_levels:
  fixes start :: nat
  assumes pos: "0 < max_prefill_sequences L" "0 < max_prefill_tokens_per_sequence L" "0 < max_prefill_tokens_total L"
      "0 < prefill_allocation_quantum L" and cs: "cs \<noteq> []"
  defines "chosen \<equiv> cohort cs L"
  defines "n \<equiv> length chosen"
  obtains res w g b where "plan_prefill_slices cs L start = filter (\<lambda>s. \<not> max_tokens s \<le> 0) res" "map slice_slot res = map cand_slot chosen"
    "0 < n" "0 \<le> w" "g = min (prefill_allocation_quantum L) (max_prefill_tokens_per_sequence L - w)" "0 \<le> g" "0 \<le> b" "b \<le> int n * g"
    "min (max_prefill_tokens_total L) (int n * max_prefill_tokens_per_sequence L) = int n * w + b" "\<forall>k < n. max_tokens (res ! ((start + k) mod n)) = w + share g b k"
proof -
  define budget where "budget = min (max_prefill_tokens_total L) (int n * max_prefill_tokens_per_sequence L)"
  define slices where "slices = map (\<lambda>c. \<lparr>slice_slot = cand_slot c, max_tokens = 0\<rparr>) chosen"
  define order where "order = map (\<lambda>offset. (start + offset) mod n) [0..<n]"
  define res where "res = grant_loop L order slices budget"
  have len: "n = nat (min (int (length cs)) (max_prefill_sequences L))" unfolding n_def chosen_def cohort_def by simp
  have n: "0 < n" using len pos(1) cs(1) by simp
  have plan: "plan_prefill_slices cs L start = filter (\<lambda>s. \<not> max_tokens s \<le> 0) res"
    unfolding plan_prefill_slices_def Let_def res_def order_def slices_def budget_def len
    using pos cs(1) by (simp add: cohort_def chosen_def)
  note o = rotation_order [of start n, folded order_def]
  have ls: "length slices = n" by (simp add: slices_def n_def)
  have b0: "0 \<le> budget" "budget \<le> int (length slices) * (max_prefill_tokens_per_sequence L - 0)" using pos ls by (auto simp: budget_def)
  obtain w g b where r: "0 \<le> w" "g = min (prefill_allocation_quantum L) (max_prefill_tokens_per_sequence L - w)" "0 \<le> g" "0 \<le> b" "b \<le> int n * g" "budget = int n * (w - 0) + b"
    "map slice_slot res = map slice_slot slices" "\<forall>k < n. max_tokens (res ! (order ! k)) = w + share g b k"
    using grant_loop_spec [OF o(1), of slices 0 L budget] o(2) n pos(2,4) b0 ls unfolding res_def by (auto simp: slices_def)
  have "map slice_slot res = map cand_slot chosen" using r(7) by (simp add: slices_def)
  moreover have "\<forall>k < n. max_tokens (res ! ((start + k) mod n)) = w + share g b k" using r(8) by (simp add: order_def)
  ultimately show ?thesis using that plan n r(1-6) by (simp add: budget_def)
qed

lemma sum_rotated:
  fixes f :: "nat \<Rightarrow> int"
  assumes "\<forall>k < n. f ((start + k) mod n) = w + share g b k" "0 \<le> g" "0 \<le> b" "b \<le> int n * g"
  shows "(\<Sum>i < n. f i) = int n * w + b"
proof -
  define order where "order = map (\<lambda>offset. (start + offset) mod n) [0..<n]"
  note o = rotation_order [of start n, folded order_def]
  have bij: "bij_betw (\<lambda>k. order ! k) {..<n} {..<n}" by (rule bij_betw_nth [OF o(1)]) (simp_all only: o(2,3))
  have "(\<Sum>i < n. f i) = (\<Sum>k < n. f (order ! k))" using sum.reindex_bij_betw [OF bij, of f] by simp
  also have "\<dots> = (\<Sum>k < n. w + share g b k)" using assms(1) by (intro sum.cong) (simp_all add: order_def)
  also have "\<dots> = int n * w + b" using sum_share [OF assms(2,3), of n] assms(4) by (simp add: sum.distrib)
  finally show ?thesis .
qed

text \<open>
  C38. Prompt slices share a step's tokens fairly. The step goes to the oldest waiting prompts, as many as the engine takes; together
  they get exactly the smaller of the step's tokens and what they can hold, no prompt more than its own limit, every slice at least one
  token. Any two prompts of the cohort are within one allocation quantum of each other, and along the rotation that starts at the cursor
  nobody gets more than one before it.
\<close>

theorem prompt_slices_share_the_step:
  fixes start :: nat
  assumes pos: "0 < max_prefill_sequences L" "0 < max_prefill_tokens_per_sequence L" "0 < max_prefill_tokens_total L"
      "0 < prefill_allocation_quantum L"
    and cs: "cs \<noteq> []" "distinct (map cand_slot cs)"
  defines "plan \<equiv> plan_prefill_slices cs L start" and "chosen \<equiv> cohort cs L"
  shows "set (map slice_slot plan) \<subseteq> set (map cand_slot chosen) \<and>
    (\<forall>c \<in> set chosen. \<forall>d \<in> set cs - set chosen. (cand_order c, cand_slot c) \<le> (cand_order d, cand_slot d)) \<and>
    sum_list (map max_tokens plan) = min (max_prefill_tokens_total L) (int (length chosen) * max_prefill_tokens_per_sequence L) \<and>
    (\<forall>s \<in> set plan. 1 \<le> max_tokens s \<and> max_tokens s \<le> max_prefill_tokens_per_sequence L) \<and>
    (\<forall>c \<in> set chosen. \<forall>d \<in> set chosen.
       granted_tokens plan (cand_slot c) \<le> granted_tokens plan (cand_slot d) + prefill_allocation_quantum L) \<and>
    (\<forall>j k. j \<le> k \<longrightarrow> k < length chosen \<longrightarrow>
       granted_tokens plan (cand_slot (chosen ! ((start + k) mod length chosen))) \<le>
       granted_tokens plan (cand_slot (chosen ! ((start + j) mod length chosen))))"
proof -
  let ?n = "length chosen" let ?per = "max_prefill_tokens_per_sequence L"
  obtain res w g b where r: "plan = filter (\<lambda>s. \<not> max_tokens s \<le> 0) res" "map slice_slot res = map cand_slot chosen" "0 < ?n" "0 \<le> w"
    "g = min (prefill_allocation_quantum L) (?per - w)" "0 \<le> g" "0 \<le> b" "b \<le> int ?n * g" "min (max_prefill_tokens_total L) (int ?n * ?per) = int ?n * w + b"
    "\<forall>k < ?n. max_tokens (res ! ((start + k) mod ?n)) = w + share g b k"
    unfolding plan_def chosen_def by (rule planned_levels [OF pos cs(1), of start])
  have lr: "length res = ?n" using arg_cong [OF r(2), of length] by simp
  have tok: "0 \<le> max_tokens (res ! i) \<and> w \<le> max_tokens (res ! i) \<and> max_tokens (res ! i) \<le> w + g" if i: "i < ?n" for i
  proof -
    have "i \<in> set (map (\<lambda>offset. (start + offset) mod ?n) [0..<?n])" using i rotation_order(2) [of start ?n] by simp
    then obtain k where "k < ?n" "(start + k) mod ?n = i" by auto
    then show ?thesis using r(4,10) share_bounds [OF r(6), of b k] by auto
  qed
  have nonneg: "\<forall>s \<in> set res. 0 \<le> max_tokens s" using tok lr by (auto simp: in_set_conv_nth)
  have gr: "granted_tokens plan (cand_slot (chosen ! i)) = max_tokens (res ! i)" if "i < ?n" for i
  proof -
    have "slice_slot (res ! i) = cand_slot (chosen ! i)" using arg_cong [OF r(2), of "\<lambda>xs. xs ! i"] that lr by simp
    then show ?thesis using granted_of_filter [OF _ _ nonneg, of i] cohort_distinct [OF cs(2), of L] r(2) lr that
      by (simp add: r(1) chosen_def)
  qed
  have total: "sum_list (map max_tokens plan) = min (max_prefill_tokens_total L) (int ?n * ?per)"
    using sum_rotated [of ?n "\<lambda>i. max_tokens (res ! i)", OF r(10,6,7,8)] sum_filter_positive [OF nonneg] lr
    by (simp add: r(1,9) sum_list_sum_nth atLeast0LessThan)
  have "set (map slice_slot plan) \<subseteq> set (map cand_slot chosen)" unfolding r(1) r(2) [symmetric] by auto
  moreover have "1 \<le> max_tokens s \<and> max_tokens s \<le> ?per" if s: "s \<in> set plan" for s
  proof -
    obtain i where "i < ?n" "s = res ! i" "\<not> max_tokens s \<le> 0" using s lr by (auto simp: r(1) in_set_conv_nth)
    then show ?thesis using tok [of i] r(5) by auto
  qed
  moreover have level: "w \<le> granted_tokens plan (cand_slot c) \<and> granted_tokens plan (cand_slot c) \<le> w + g" if c: "c \<in> set chosen" for c
    using c tok gr by (auto simp: in_set_conv_nth)
  moreover have "granted_tokens plan (cand_slot (chosen ! ((start + k) mod ?n))) \<le> granted_tokens plan (cand_slot (chosen ! ((start + j) mod ?n)))"
    if "j \<le> k" "k < ?n" for j k
    using gr r(3,10) that share_antimono [OF r(6) that(1), of b] by simp
  moreover have "granted_tokens plan (cand_slot c) \<le> granted_tokens plan (cand_slot d) + prefill_allocation_quantum L"
    if "c \<in> set chosen" "d \<in> set chosen" for c d
    using level [OF that(1)] level [OF that(2)] r(5) by linarith
  ultimately show ?thesis using total cohort_oldest [of _ cs L] unfolding chosen_def by blast
qed

text \<open>Three waiting prompts, two of them taken, ten tokens in quanta of four, the cursor at the second.\<close>

theorem prompt_slices_share_the_step_witness:
  "plan_prefill_slices [\<lparr>cand_slot = 0, cand_order = 5\<rparr>, \<lparr>cand_slot = 1, cand_order = 2\<rparr>, \<lparr>cand_slot = 2, cand_order = 3\<rparr>]
      \<lparr>max_prefill_sequences = 2, max_prefill_tokens_per_sequence = 8, max_prefill_tokens_total = 10, prefill_allocation_quantum = 4\<rparr> 1 =
    [\<lparr>slice_slot = 1, max_tokens = 4\<rparr>, \<lparr>slice_slot = 2, max_tokens = 6\<rparr>] \<and>
   sum_list (map max_tokens (plan_prefill_slices
      [\<lparr>cand_slot = 0, cand_order = 5\<rparr>, \<lparr>cand_slot = 1, cand_order = 2\<rparr>, \<lparr>cand_slot = 2, cand_order = 3\<rparr>]
      \<lparr>max_prefill_sequences = 2, max_prefill_tokens_per_sequence = 8, max_prefill_tokens_total = 10, prefill_allocation_quantum = 4\<rparr> 1)) = 10"
proof -
  let ?cs = "[\<lparr>cand_slot = 0, cand_order = 5\<rparr>, \<lparr>cand_slot = 1, cand_order = 2\<rparr>, \<lparr>cand_slot = 2, cand_order = 3\<rparr>]"
  let ?L = "\<lparr>max_prefill_sequences = 2, max_prefill_tokens_per_sequence = 8, max_prefill_tokens_total = 10, prefill_allocation_quantum = 4\<rparr>"
  have "length (cohort ?cs ?L) = 2" by code_simp
  moreover have "plan_prefill_slices ?cs ?L 1 = [\<lparr>slice_slot = 1, max_tokens = 4\<rparr>, \<lparr>slice_slot = 2, max_tokens = 6\<rparr>]" by code_simp
  ultimately show ?thesis using prompt_slices_share_the_step [of ?L ?cs 1] by simp
qed

section \<open>The check of a step result\<close>

text \<open>The specification: rows in range and owned once, and one output per planned row that says what its status may say.\<close>

definition decode_fits :: "StepInput \<Rightarrow> DecodeOutput \<Rightarrow> bool" where
  "decode_fits i out \<longleftrightarrow>
     (if dec_failed out then dec_token out < 0 \<and> committed_tokens out = [] \<and> dec_error out \<noteq> []
      else 0 \<le> dec_token out \<and> dec_error out = [] \<and> (\<forall>t \<in> set (committed_tokens out). 0 \<le> t) \<and>
        (committed_tokens out \<noteq> [] \<longrightarrow> allow_speculation i))"

definition store_fits :: "PrefillStatus \<Rightarrow> PrefixStoreEvent \<Rightarrow> bool" where
  "store_fits status e \<longleftrightarrow>
     (case ev_status e of
        EvNone \<Rightarrow> ev_ticket e = default_ticket \<and> ev_error e = [] \<and> ev_bytes e = 0 \<and> ev_elapsed_us e = 0
      | EvSaved \<Rightarrow> ticket_valid (ev_ticket e) \<and> status \<noteq> Failed \<and> ev_error e = [] \<and> 0 < ev_bytes e
      | EvFailed \<Rightarrow> ticket_valid (ev_ticket e) \<and> status \<noteq> Failed \<and> ev_error e \<noteq> [] \<and> ev_bytes e = 0)"

definition prefill_fits :: "PrefillOutput \<Rightarrow> bool" where
  "prefill_fits out \<longleftrightarrow> store_fits (pre_status out) (pre_store out) \<and>
     (case pre_status out of
        Advanced \<Rightarrow> pre_token out < 0 \<and> pre_error out = []
      | Completed \<Rightarrow> 0 \<le> pre_token out \<and> pre_error out = []
      | Failed \<Rightarrow> pre_token out < 0 \<and> pre_error out \<noteq> [])"

definition plan_owns_rows :: "int \<Rightarrow> StepPlan \<Rightarrow> bool" where
  "plan_owns_rows n plan \<longleftrightarrow>
     (\<forall>i \<in> set (plan_decode plan). 0 \<le> in_slot i \<and> in_slot i < n \<and> 0 \<le> in_token i) \<and>
     (\<forall>s \<in> set (plan_prefills plan). 0 \<le> slice_slot s \<and> slice_slot s < n \<and> 0 < max_tokens s) \<and>
     distinct (map in_slot (plan_decode plan) @ map slice_slot (plan_prefills plan))"

definition result_fits :: "StepPlan \<Rightarrow> StepResult \<Rightarrow> bool" where
  "result_fits plan r \<longleftrightarrow>
     mset (map dec_slot (res_decode r)) = mset (map in_slot (plan_decode plan)) \<and>
     mset (map pre_slot (res_prefills r)) = mset (map slice_slot (plan_prefills plan)) \<and>
     (\<forall>out \<in> set (res_decode r). \<forall>i \<in> set (plan_decode plan). in_slot i = dec_slot out \<longrightarrow> decode_fits i out) \<and>
     (\<forall>out \<in> set (res_prefills r). prefill_fits out)"

text \<open>The flags of a set of slots.\<close>

definition flags_of :: "int \<Rightarrow> int set \<Rightarrow> bool list" where
  "flags_of n A = map (\<lambda>k. int k \<in> A) [0..<nat n]"

lemma flag_in_flags: "0 \<le> s \<Longrightarrow> s < n \<Longrightarrow> flag_in s (flags_of n A) \<longleftrightarrow> s \<in> A"
  by (simp add: flag_in_def flags_of_def)

lemma raise_flags: "0 \<le> s \<Longrightarrow> s < n \<Longrightarrow> raise_flag s (flags_of n A) = flags_of n (insert s A)"
  by (rule nth_equalityI) (auto simp: raise_flag_def flags_of_def nth_list_update)

lemma clear_flags: "replicate (nat n) False = flags_of n {}"
  by (rule nth_equalityI) (auto simp: flags_of_def)

lemma store_payload_iff: "store_payload_error st e = [] \<longleftrightarrow> store_fits st e"
  by (cases "ev_status e"; cases "ev_ticket e"; cases "checkpoint (ev_ticket e)")
     (auto simp: store_payload_error_def store_fits_def default_ticket_def default_ref_def)

lemma prefill_payload_iff: "prefill_payload_error out = [] \<longleftrightarrow> prefill_fits out"
  by (cases "pre_status out") (auto simp: prefill_payload_error_def prefill_fits_def store_payload_iff)

lemma decode_payload_iff: "decode_payload_error (allow_speculation i) out = [] \<longleftrightarrow> decode_fits i out"
  by (force simp: decode_payload_error_def decode_fits_def not_less)

lemma check_inputs_ok:
  assumes "length sp = nat n"
  shows "check_inputs n xs (flags_of n A, sp) = Inr (p, sp') \<longleftrightarrow>
    (\<forall>i \<in> set xs. 0 \<le> in_slot i \<and> in_slot i < n \<and> 0 \<le> in_token i) \<and> distinct (map in_slot xs) \<and> in_slot ` set xs \<inter> A = {} \<and>
    p = flags_of n (A \<union> in_slot ` set xs) \<and> sp' = foldl (\<lambda>f i. f[nat (in_slot i) := allow_speculation i]) sp xs"
  using assms
proof (induction xs arbitrary: A sp)
  case (Cons i xs)
  show ?case
  proof (cases "in_slot i < 0 \<or> in_slot i \<ge> n \<or> in_token i < 0 \<or> in_slot i \<in> A")
    case True
    then show ?thesis by (auto simp: flag_in_flags)
  next
    case False
    then show ?thesis using Cons.IH [of "sp[nat (in_slot i) := allow_speculation i]" "insert (in_slot i) A"] Cons.prems
      by (auto simp: flag_in_flags raise_flags)
  qed
qed auto

lemma speculation_flags:
  assumes "distinct (map in_slot xs)" "\<forall>i \<in> set xs. 0 \<le> in_slot i \<and> in_slot i < n" "length sp = nat n" "i \<in> set xs"
  shows "flag_in (in_slot i) (foldl (\<lambda>f i. f[nat (in_slot i) := allow_speculation i]) sp xs) = allow_speculation i"
  using assms
proof (induction xs arbitrary: sp)
  case (Cons x xs)
  show ?case
  proof (cases "i \<in> set xs")
    case True
    then show ?thesis using Cons by simp
  next
    case False
    have keep: "(foldl (\<lambda>f i. f[nat (in_slot i) := allow_speculation i]) f ys) ! k = f ! k"
      if "\<forall>y \<in> set ys. nat (in_slot y) \<noteq> k" for f ys k
      using that by (induction ys arbitrary: f) auto
    have i: "i = x" using False Cons.prems(4) by simp
    have "\<forall>y \<in> set xs. nat (in_slot y) \<noteq> nat (in_slot i)"
    proof
      fix y assume y: "y \<in> set xs"
      then have "in_slot y \<noteq> in_slot i" using Cons.prems(1) i by (metis distinct.simps(2) image_eqI list.set_map list.simps(9))
      then show "nat (in_slot y) \<noteq> nat (in_slot i)" using Cons.prems(2) y i by (simp add: eq_nat_nat_iff)
    qed
    then show ?thesis using False Cons.prems by (auto simp: flag_in_def keep)
  qed
qed simp

lemma check_slices_ok:
  "check_slices n (flags_of n D) xs (flags_of n A) = Inr p \<longleftrightarrow>
    (\<forall>s \<in> set xs. 0 \<le> slice_slot s \<and> slice_slot s < n \<and> 0 < max_tokens s) \<and> distinct (map slice_slot xs) \<and>
    slice_slot ` set xs \<inter> (A \<union> D) = {} \<and> p = flags_of n (A \<union> slice_slot ` set xs)"
proof (induction xs arbitrary: A)
  case (Cons s xs)
  show ?case
  proof (cases "slice_slot s < 0 \<or> slice_slot s \<ge> n \<or> max_tokens s \<le> 0 \<or> slice_slot s \<in> A \<union> D")
    case True
    then show ?thesis by (auto simp: flag_in_flags)
  next
    case False
    then show ?thesis using Cons.IH [of "insert (slice_slot s) A"] by (auto simp: flag_in_flags raise_flags)
  qed
qed auto

lemma check_decodes_ok:
  "check_decodes n (flags_of n P) sp xs (flags_of n A) = Inr f \<longleftrightarrow>
    (\<forall>out \<in> set xs. 0 \<le> dec_slot out \<and> dec_slot out < n \<and> dec_slot out \<in> P \<and> decode_payload_error (flag_in (dec_slot out) sp) out = []) \<and>
    distinct (map dec_slot xs) \<and> dec_slot ` set xs \<inter> A = {} \<and> f = flags_of n (A \<union> dec_slot ` set xs)"
proof (induction xs arbitrary: A)
  case (Cons out xs)
  show ?case
  proof (cases "dec_slot out < 0 \<or> dec_slot out \<ge> n \<or> dec_slot out \<notin> P \<or> dec_slot out \<in> A \<or> decode_payload_error (flag_in (dec_slot out) sp) out \<noteq> []")
    case True
    then show ?thesis by (auto simp: flag_in_flags Let_def)
  next
    case False
    then show ?thesis using Cons.IH [of "insert (dec_slot out) A"] by (auto simp: flag_in_flags raise_flags Let_def)
  qed
qed auto

lemma check_prefills_ok:
  "check_prefills n (flags_of n P) xs (flags_of n A) = Inr f \<longleftrightarrow>
    (\<forall>out \<in> set xs. 0 \<le> pre_slot out \<and> pre_slot out < n \<and> pre_slot out \<in> P \<and> prefill_fits out) \<and>
    distinct (map pre_slot xs) \<and> pre_slot ` set xs \<inter> A = {} \<and> f = flags_of n (A \<union> pre_slot ` set xs)"
proof (induction xs arbitrary: A)
  case (Cons out xs)
  show ?case
  proof (cases "pre_slot out < 0 \<or> pre_slot out \<ge> n \<or> pre_slot out \<notin> P \<or> pre_slot out \<in> A \<or> \<not> prefill_fits out")
    case True
    then show ?thesis by (auto simp: flag_in_flags Let_def prefill_payload_iff [symmetric])
  next
    case False
    then show ?thesis using Cons.IH [of "insert (pre_slot out) A"] by (auto simp: flag_in_flags raise_flags Let_def prefill_payload_iff)
  qed
qed auto

text \<open>Every message is non-empty, so the empty string is only returned for a good result.\<close>

lemma check_messages:
  "check_inputs n xs fl = Inl e \<Longrightarrow> e \<noteq> []" "check_slices n d ys a = Inl e \<Longrightarrow> e \<noteq> []"
  "check_decodes n p sp zs b = Inl e \<Longrightarrow> e \<noteq> []" "check_prefills n q ws c = Inl e \<Longrightarrow> e \<noteq> []"
proof -
  show "check_inputs n xs fl = Inl e \<Longrightarrow> e \<noteq> []"
    by (induction n xs fl rule: check_inputs.induct) (auto split: if_splits)
  show "check_slices n d ys a = Inl e \<Longrightarrow> e \<noteq> []"
    by (induction n d ys a rule: check_slices.induct) (auto split: if_splits)
  show "check_decodes n p sp zs b = Inl e \<Longrightarrow> e \<noteq> []"
    by (induction n p sp zs b rule: check_decodes.induct) (auto simp: Let_def split: if_splits)
  show "check_prefills n q ws c = Inl e \<Longrightarrow> e \<noteq> []"
    by (induction n q ws c rule: check_prefills.induct) (auto simp: Let_def split: if_splits)
qed

lemma no_slots_refused: "n < 1 \<Longrightarrow> validate_step_result plan r n = ''slot count must be positive''"
  by (simp add: validate_step_result_def)

lemma same_rows:
  assumes "distinct xs" "distinct ys"
  shows "mset xs = mset ys \<longleftrightarrow> set xs \<subseteq> set ys \<and> set ys \<subseteq> set xs"
  using set_eq_iff_mset_eq_distinct [OF assms] by blast

lemma plan_flags:
  assumes "1 \<le> n" "plan_owns_rows n plan"
  defines "D \<equiv> in_slot ` set (plan_decode plan)" and "P \<equiv> slice_slot ` set (plan_prefills plan)"
    and "sp \<equiv> foldl (\<lambda>f i. f[nat (in_slot i) := allow_speculation i]) (flags_of n {}) (plan_decode plan)"
  shows "check_inputs n (plan_decode plan) (flags_of n {}, flags_of n {}) = Inr (flags_of n D, sp)"
    and "check_slices n (flags_of n D) (plan_prefills plan) (flags_of n {}) = Inr (flags_of n P)"
    and "dec_slot out \<in> D \<Longrightarrow> decode_payload_error (flag_in (dec_slot out) sp) out = [] \<longleftrightarrow>
      (\<forall>i \<in> set (plan_decode plan). in_slot i = dec_slot out \<longrightarrow> decode_fits i out)"
proof -
  have len: "length (flags_of n {}) = nat n" by (simp add: flags_of_def)
  show "check_inputs n (plan_decode plan) (flags_of n {}, flags_of n {}) = Inr (flags_of n D, sp)"
    using check_inputs_ok [OF len, of "plan_decode plan" "{}"] assms(2) by (auto simp: plan_owns_rows_def D_def sp_def)
  show "check_slices n (flags_of n D) (plan_prefills plan) (flags_of n {}) = Inr (flags_of n P)"
    using check_slices_ok [of n D "plan_prefills plan" "{}"] assms(2) by (auto simp: plan_owns_rows_def D_def P_def)
  assume "dec_slot out \<in> D"
  then obtain i where i: "i \<in> set (plan_decode plan)" "in_slot i = dec_slot out" by (auto simp: D_def)
  have own: "distinct (map in_slot (plan_decode plan))" "\<forall>i \<in> set (plan_decode plan). 0 \<le> in_slot i \<and> in_slot i < n"
    using assms(2) by (auto simp: plan_owns_rows_def)
  have "flag_in (dec_slot out) sp = allow_speculation i" using speculation_flags [OF own len i(1)] i(2) by (simp add: sp_def)
  then have "decode_payload_error (flag_in (dec_slot out) sp) out = [] \<longleftrightarrow> decode_fits i out"
    by (simp only: decode_payload_iff)
  moreover have "j = i" if "j \<in> set (plan_decode plan)" "in_slot j = dec_slot out" for j
    using that i own(1) by (metis distinct_map inj_onD)
  then have "(\<forall>j \<in> set (plan_decode plan). in_slot j = dec_slot out \<longrightarrow> decode_fits j out) \<longleftrightarrow> decode_fits i out" using i by metis
  ultimately show "decode_payload_error (flag_in (dec_slot out) sp) out = [] \<longleftrightarrow>
      (\<forall>i \<in> set (plan_decode plan). in_slot i = dec_slot out \<longrightarrow> decode_fits i out)" by simp
qed

lemma plan_without_owners_is_refused:
  assumes "1 \<le> n" "res_error r = []" "\<not> plan_owns_rows n plan"
  shows "validate_step_result plan r n \<noteq> []"
proof (cases "check_inputs n (plan_decode plan) (flags_of n {}, flags_of n {})")
  case (Inl e)
  then show ?thesis using assms(1,2) check_messages(1) [OF Inl] by (simp add: validate_step_result_def Let_def clear_flags)
next
  case (Inr fl)
  let ?D = "in_slot ` set (plan_decode plan)"
  obtain f g where fl: "fl = (f, g)" by fastforce
  have len: "length (flags_of n {}) = nat n" by (simp add: flags_of_def)
  have i: "\<forall>i \<in> set (plan_decode plan). 0 \<le> in_slot i \<and> in_slot i < n \<and> 0 \<le> in_token i" "distinct (map in_slot (plan_decode plan))" "f = flags_of n ?D"
    using Inr check_inputs_ok [OF len, of "plan_decode plan" "{}" f g] by (auto simp: fl)
  show ?thesis
  proof (cases "check_slices n (flags_of n ?D) (plan_prefills plan) (flags_of n {})")
    case e: (Inl e)
    then show ?thesis using assms(1,2) Inr fl i(3) check_messages(2) [OF e] by (simp add: validate_step_result_def Let_def clear_flags)
  next
    case (Inr p)
    then show ?thesis using check_slices_ok [of n ?D "plan_prefills plan" "{}" p] i(1,2) assms(3) by (auto simp: plan_owns_rows_def)
  qed
qed

text \<open>With a plan that owns its rows, the check is that of the outputs.\<close>

lemma owned_plan_check:
  assumes "1 \<le> n" "res_error r = []" "plan_owns_rows n plan"
  defines "D \<equiv> in_slot ` set (plan_decode plan)" and "P \<equiv> slice_slot ` set (plan_prefills plan)"
    and "sp \<equiv> foldl (\<lambda>f i. f[nat (in_slot i) := allow_speculation i]) (flags_of n {}) (plan_decode plan)"
  shows "validate_step_result plan r n = [] \<longleftrightarrow>
    (\<exists>a b. check_decodes n (flags_of n D) sp (res_decode r) (flags_of n {}) = Inr a \<and>
       check_prefills n (flags_of n P) (res_prefills r) (flags_of n {}) = Inr b \<and>
       (\<forall>i \<in> set (plan_decode plan). flag_in (in_slot i) a) \<and> (\<forall>s \<in> set (plan_prefills plan). flag_in (slice_slot s) b) \<and>
       (res_decode r = [] \<and> res_prefills r = [] \<longrightarrow> plan_decode plan = [] \<and> plan_prefills plan = []))"
proof -
  note f = plan_flags(1,2) [OF assms(1,3), folded D_def P_def, folded sp_def]
  note go = validate_step_result_def Let_def clear_flags assms(2) f
  show ?thesis
  proof (cases "check_decodes n (flags_of n D) sp (res_decode r) (flags_of n {})")
    case (Inl e)
    then show ?thesis using assms(1) check_messages(3) [OF Inl] by (simp add: go)
  next
    case a: (Inr a)
    show ?thesis
    proof (cases "check_prefills n (flags_of n P) (res_prefills r) (flags_of n {})")
      case (Inl e)
      then show ?thesis using assms(1) a check_messages(4) [OF Inl] by (simp add: go)
    next
      case (Inr b)
      then show ?thesis using assms(1) a by (simp add: go)
    qed
  qed
qed

lemma outputs_fit:
  assumes "1 \<le> n" "res_error r = []" "plan_owns_rows n plan"
  shows "validate_step_result plan r n = [] \<longleftrightarrow> result_fits plan r"
proof -
  let ?dec = "plan_decode plan" and ?pre = "plan_prefills plan"
  let ?sp = "foldl (\<lambda>f i. f[nat (in_slot i) := allow_speculation i]) (flags_of n {}) ?dec"
  let ?D = "in_slot ` set ?dec" and ?P = "slice_slot ` set ?pre"
  have rng: "\<forall>i \<in> set ?dec. 0 \<le> in_slot i \<and> in_slot i < n" "\<forall>s \<in> set ?pre. 0 \<le> slice_slot s \<and> slice_slot s < n"
    "distinct (map in_slot ?dec)" "distinct (map slice_slot ?pre)" using assms(3) by (auto simp: plan_owns_rows_def)
  note payload = plan_flags(3) [OF assms(1,3)]
  note checked = owned_plan_check [OF assms(1-3)]
  show ?thesis
  proof
    assume "validate_step_result plan r n = []"
    then obtain a b where c: "check_decodes n (flags_of n ?D) ?sp (res_decode r) (flags_of n {}) = Inr a"
        "check_prefills n (flags_of n ?P) (res_prefills r) (flags_of n {}) = Inr b"
        "\<forall>i \<in> set ?dec. flag_in (in_slot i) a" "\<forall>s \<in> set ?pre. flag_in (slice_slot s) b"
      using checked by blast
    note ds = c(1) [unfolded check_decodes_ok] and ps = c(2) [unfolded check_prefills_ok]
    have d: "\<forall>out \<in> set (res_decode r). dec_slot out \<in> ?D \<and> decode_payload_error (flag_in (dec_slot out) ?sp) out = []"
        "distinct (map dec_slot (res_decode r))" "\<forall>i \<in> set ?dec. in_slot i \<in> dec_slot ` set (res_decode r)"
      using ds c(3) rng(1) by (auto simp: flag_in_flags)
    have p: "\<forall>out \<in> set (res_prefills r). pre_slot out \<in> ?P \<and> prefill_fits out"
        "distinct (map pre_slot (res_prefills r))" "\<forall>s \<in> set ?pre. slice_slot s \<in> pre_slot ` set (res_prefills r)"
      using ps c(4) rng(2) by (auto simp: flag_in_flags)
    have fits: "decode_fits i out" if "out \<in> set (res_decode r)" "i \<in> set ?dec" "in_slot i = dec_slot out" for i out
      using d(1) payload [of out] that by blast
    have "set (map dec_slot (res_decode r)) \<subseteq> set (map in_slot ?dec) \<and> set (map in_slot ?dec) \<subseteq> set (map dec_slot (res_decode r))"
      "set (map pre_slot (res_prefills r)) \<subseteq> set (map slice_slot ?pre) \<and> set (map slice_slot ?pre) \<subseteq> set (map pre_slot (res_prefills r))"
      using d(1,3) p(1,3) by auto
    then show "result_fits plan r" unfolding result_fits_def same_rows [OF d(2) rng(3)] same_rows [OF p(2) rng(4)]
      using fits p(1) by blast
  next
    assume fit: "result_fits plan r"
    then have m: "mset (map dec_slot (res_decode r)) = mset (map in_slot ?dec)" "mset (map pre_slot (res_prefills r)) = mset (map slice_slot ?pre)"
      by (simp_all only: result_fits_def)
    have dist: "distinct (map dec_slot (res_decode r))" "distinct (map pre_slot (res_prefills r))"
      using mset_eq_imp_distinct_iff [OF m(1)] mset_eq_imp_distinct_iff [OF m(2)] rng(3,4) by blast+
    have sets: "dec_slot ` set (res_decode r) = ?D" "pre_slot ` set (res_prefills r) = ?P"
      using mset_eq_setD [OF m(1)] mset_eq_setD [OF m(2)] by simp_all
    have dec: "check_decodes n (flags_of n ?D) ?sp (res_decode r) (flags_of n {}) = Inr (flags_of n ?D)"
      unfolding check_decodes_ok
    proof (intro conjI ballI)
      fix out assume out: "out \<in> set (res_decode r)"
      then have "dec_slot out \<in> ?D" using sets(1) by blast
      moreover from this have "decode_payload_error (flag_in (dec_slot out) ?sp) out = []"
        using payload fit out by (simp add: result_fits_def)
      ultimately show "0 \<le> dec_slot out" "dec_slot out < n" "dec_slot out \<in> ?D" "decode_payload_error (flag_in (dec_slot out) ?sp) out = []"
        using rng(1) by auto
    qed (use dist sets in simp_all)
    have pre: "check_prefills n (flags_of n ?P) (res_prefills r) (flags_of n {}) = Inr (flags_of n ?P)"
      unfolding check_prefills_ok
    proof (intro conjI ballI)
      fix out assume out: "out \<in> set (res_prefills r)"
      then have "pre_slot out \<in> ?P" using sets(2) by blast
      then show "0 \<le> pre_slot out" "pre_slot out < n" "pre_slot out \<in> ?P" "prefill_fits out"
        using rng(2) fit out by (auto simp: result_fits_def)
    qed (use dist sets in simp_all)
    have "res_decode r = [] \<and> res_prefills r = [] \<longrightarrow> ?dec = [] \<and> ?pre = []" using sets by auto
    then show "validate_step_result plan r n = []"
      unfolding checked using dec pre rng(1,2) by (simp add: flag_in_flags)
  qed
qed

text \<open>
  C17. The protocol check accepts exactly the well-formed results. With at least one slot, \<open>validate_step_result\<close> returns no message if and only if the
  engine reports a fatal error and nothing else, or the plan owns its rows (in range, one row per slot) and the result has
  exactly one output for every decode row and every prefill slice and none besides, each with the payload its status allows and no burst where
  speculation was off.
\<close>

theorem step_check_accepts_exactly:
  "validate_step_result plan r n = [] \<longleftrightarrow>
     1 \<le> n \<and> (if res_error r \<noteq> [] then res_decode r = [] \<and> res_prefills r = [] else plan_owns_rows n plan \<and> result_fits plan r)"
proof (cases "1 \<le> n \<and> res_error r = []")
  case False
  then show ?thesis by (auto simp: validate_step_result_def Let_def)
next
  case True
  then show ?thesis using outputs_fit [of n r plan] plan_without_owners_is_refused [of n r plan] by auto
qed

end
