(* ===== verification/Sched_Loop_Props.thy ===== *)
theory Sched_Loop_Props
  imports Sched_Loop Sched_Slot_Props Seq_Engine_Props
begin

text \<open>
  The plan of a step: its rows are owned once and in range, and a burst it allows is recorded as the engine committed it.
\<close>

section \<open>Prompt slices\<close>

lemma grant_round_slots: "grant_round L idxs ss b g = (ss', b', g') \<Longrightarrow> map slice_slot ss' = map slice_slot ss"
proof (induction L idxs ss b g rule: grant_round.induct)
  case (2 L idx idxs ss b g)
  have upd: "map slice_slot (ss[idx := (ss ! idx)\<lparr>max_tokens := k\<rparr>]) = map slice_slot ss" for k
    by (cases "idx < length ss") (simp_all add: list_eq_iff_nth_eq nth_list_update)
  show ?case
  proof (cases "max_prefill_tokens_per_sequence L - max_tokens (ss ! idx) \<le> 0")
    case True
    then show ?thesis using 2 by (simp add: Let_def)
  next
    case room: False
    show ?thesis
    proof (cases "min (prefill_allocation_quantum L) (min (max_prefill_tokens_per_sequence L - max_tokens (ss ! idx)) b) \<le> 0")
      case True
      then show ?thesis using 2(2,4) room by (simp add: Let_def)
    next
      case False
      then show ?thesis using 2(3) [OF refl refl room refl False refl refl] 2(4) room upd
        by (auto simp: Let_def split: if_splits)
    qed
  qed
qed simp

lemma grant_loop_slots: "map slice_slot (grant_loop L order ss b) = map slice_slot ss"
proof (induction L order ss b rule: grant_loop.induct)
  case (1 L order ss b)
  obtain ss' b' g where r: "grant_round L order ss b False = (ss', b', g)" by (metis prod_cases3)
  show ?case using 1 [OF _ r [symmetric] refl] grant_round_slots [OF r] by (subst grant_loop.simps) (simp add: r)
qed

lemma plan_slices_owned:
  assumes "distinct (map cand_slot cs)"
  shows "distinct (map slice_slot (plan_prefill_slices cs L start))"
    "set (map slice_slot (plan_prefill_slices cs L start)) \<subseteq> set (map cand_slot cs)"
    "\<forall>s \<in> set (plan_prefill_slices cs L start). 0 < max_tokens s"
proof -
  let ?plan = "plan_prefill_slices cs L start"
  show "\<forall>s \<in> set ?plan. 0 < max_tokens s" by (auto simp: plan_prefill_slices_def Let_def)
  have "distinct (map slice_slot ?plan) \<and> set (map slice_slot ?plan) \<subseteq> set (map cand_slot cs)"
  proof (cases "?plan = []")
    case False
    then obtain order b where p: "?plan = filter (\<lambda>s. \<not> max_tokens s \<le> 0)
        (grant_loop L order (map (\<lambda>c. \<lparr>slice_slot = cand_slot c, max_tokens = 0\<rparr>) (cohort cs L)) b)"
      by (auto simp: plan_prefill_slices_def Let_def cohort_def split: if_splits)
    have slots: "map slice_slot (grant_loop L order (map (\<lambda>c. \<lparr>slice_slot = cand_slot c, max_tokens = 0\<rparr>) (cohort cs L)) b) = map cand_slot (cohort cs L)"
      by (simp add: grant_loop_slots)
    have "set (cohort cs L) \<subseteq> set cs" by (auto simp: cohort_def dest: in_set_takeD)
    moreover have "distinct (map slice_slot ?plan)" unfolding p using cohort_distinct [OF assms, of L]
      by (intro distinct_map_filter) (simp only: slots)
    moreover have "set (map slice_slot ?plan) \<subseteq> set (map cand_slot (cohort cs L))" unfolding p slots [symmetric] by auto
    ultimately show ?thesis unfolding list.set_map by (meson image_mono subset_trans)
  qed simp
  then show "distinct (map slice_slot ?plan)" "set (map slice_slot ?plan) \<subseteq> set (map cand_slot cs)" by simp_all
qed

section \<open>The rows of a plan\<close>

definition decoder :: "('x, 'g) SchedEnv \<Rightarrow> ('x, 'g) Scheduler \<Rightarrow> nat \<Rightarrow> bool" where
  "decoder env S i \<longleftrightarrow> job (sched_slots S ! i) \<noteq> None \<and> \<not> parked_slot env S i \<and> \<not> prefilling (sched_slots S ! i)"

definition prefiller :: "('x, 'g) SchedEnv \<Rightarrow> ('x, 'g) Scheduler \<Rightarrow> nat \<Rightarrow> bool" where
  "prefiller env S i \<longleftrightarrow> job (sched_slots S ! i) \<noteq> None \<and> \<not> parked_slot env S i \<and> prefilling (sched_slots S ! i)"

definition row_of :: "('x, 'g) SchedEnv \<Rightarrow> ('x, 'g) Scheduler \<Rightarrow> nat \<Rightarrow> StepInput" where
  "row_of env S i = (let s = sched_slots S ! i in
     \<lparr>in_slot = int i, in_token = pending_tok s, allow_speculation = budget_clear env s \<and> \<not> has_constraint (ops (slot_env env)) (io s)\<rparr>)"

definition cand_of :: "('x, 'g) Scheduler \<Rightarrow> nat \<Rightarrow> PrefillCandidate" where
  "cand_of S i = \<lparr>cand_slot = int i, cand_order = admission_order (sched_slots S ! i)\<rparr>"

abbreviation armed :: "'x SchedSlot \<Rightarrow> 'x SchedSlot" where
  "armed s \<equiv> s\<lparr>budget := arm_loop_close (budget s), loop_close_armed := True\<rparr>"

text \<open>Planning changes no more of the slots than the armed loop close, and only where the budget is not clear.\<close>

definition replanned :: "('x, 'g) SchedEnv \<Rightarrow> ('x, 'g) Scheduler \<Rightarrow> ('x, 'g) Scheduler \<Rightarrow> bool" where
  "replanned env S S' \<longleftrightarrow> length (sched_slots S') = length (sched_slots S) \<and> engine S' = engine S \<and> live_slots S' = live_slots S \<and>
     drains S' = drains S \<and> finished_jobs S' = finished_jobs S \<and> short_first_steps S' = short_first_steps S \<and>
     prefill_round_robin_start S' = prefill_round_robin_start S \<and>
     (\<forall>i < length (sched_slots S). sched_slots S' ! i = sched_slots S ! i \<or>
        (decoder env S i \<and> \<not> budget_clear env (sched_slots S ! i) \<and> sched_slots S' ! i = armed (sched_slots S ! i)))"

lemma replanned_refl [simp]: "replanned env S S"
  by (simp add: replanned_def)

lemma replanned_arm:
  assumes "i < length (sched_slots S)" "decoder env S i" "\<not> budget_clear env (sched_slots S ! i)"
  shows "replanned env S (arm_slot_loop_close i S)" "clock_reads (arm_slot_loop_close i S) = clock_reads S"
    "\<forall>j. j \<noteq> i \<longrightarrow> sched_slots (arm_slot_loop_close i S) ! j = sched_slots S ! j"
proof -
  let ?s = "sched_slots S ! i"
  have eq: "arm_slot_loop_close i S = (if \<not> looping (budget ?s) \<or> loop_close_armed ?s then S else put i (armed ?s) S)"
    by (simp add: arm_slot_loop_close_def Let_def)
  have "replanned env S (put i (armed ?s) S)" unfolding replanned_def
  proof (intro conjI allI impI)
    fix j
    show "sched_slots (put i (armed ?s) S) ! j = sched_slots S ! j \<or>
        decoder env S j \<and> \<not> budget_clear env (sched_slots S ! j) \<and> sched_slots (put i (armed ?s) S) ! j = armed (sched_slots S ! j)"
      using assms by (cases "j = i") simp_all
  qed simp_all
  then show "replanned env S (arm_slot_loop_close i S)" unfolding eq by (simp only: replanned_refl split: if_split) blast
  show "clock_reads (arm_slot_loop_close i S) = clock_reads S" "\<forall>j. j \<noteq> i \<longrightarrow> sched_slots (arm_slot_loop_close i S) ! j = sched_slots S ! j"
    unfolding eq by (simp_all split: if_split)
qed

lemma plan_slot_form:
  assumes "i < length (sched_slots S)"
  shows "\<exists>S'. plan_slot env i S = (if decoder env S i then [row_of env S i] else [], if prefiller env S i then [cand_of S i] else [], S') \<and>
    replanned env S S' \<and> clock_reads S' = clock_reads S \<and> (\<forall>j. j \<noteq> i \<longrightarrow> sched_slots S' ! j = sched_slots S ! j)"
proof -
  let ?s = "sched_slots S ! i"
  consider (none) "job ?s = None \<or> parked_slot env S i" | (pre) "prefiller env S i" "\<not> decoder env S i"
    | (dec) "decoder env S i" "\<not> prefiller env S i" unfolding prefiller_def decoder_def by blast
  then show ?thesis
  proof cases
    case none
    then have "plan_slot env i S = ([], [], S)" by (simp only: plan_slot_def Let_def if_True)
    moreover have "\<not> decoder env S i" "\<not> prefiller env S i" using none by (auto simp: decoder_def prefiller_def)
    ultimately show ?thesis by simp
  next
    case pre
    then have "plan_slot env i S = ([], [cand_of S i], S)" by (simp add: plan_slot_def Let_def prefiller_def cand_of_def)
    then show ?thesis using pre by simp
  next
    case dec
    let ?S' = "if \<not> budget_clear env ?s then arm_slot_loop_close i S else S"
    have "plan_slot env i S = ([row_of env S i], [], ?S')" using dec(1) by (simp add: plan_slot_def Let_def decoder_def row_of_def)
    moreover have "replanned env S ?S' \<and> clock_reads ?S' = clock_reads S \<and> (\<forall>j. j \<noteq> i \<longrightarrow> sched_slots ?S' ! j = sched_slots S ! j)"
      using replanned_arm [OF assms dec(1)] by (cases "budget_clear env ?s") simp_all
    ultimately show ?thesis using dec by simp
  qed
qed

lemma replanned_same:
  assumes "sched_slots S' ! j = sched_slots S ! j" "engine S' = engine S"
  shows "decoder env S' j = decoder env S j" "prefiller env S' j = prefiller env S j" "row_of env S' j = row_of env S j" "cand_of S' j = cand_of S j"
  using assms by (simp_all add: decoder_def prefiller_def row_of_def cand_of_def parked_slot_def)

lemma plan_slots_form:
  assumes "distinct is" "\<forall>i \<in> set is. i < length (sched_slots S)"
  shows "\<exists>S'. plan_slots env is S = (map (row_of env S) (filter (decoder env S) is), map (cand_of S) (filter (prefiller env S) is), S') \<and>
    replanned env S S' \<and> clock_reads S' = clock_reads S \<and> (\<forall>j. j \<notin> set is \<longrightarrow> sched_slots S' ! j = sched_slots S ! j)"
  using assms
proof (induction "is" arbitrary: S)
  case Nil
  show ?case by (rule exI [of _ S]) simp
next
  case (Cons i "is")
  obtain S1 where p: "plan_slot env i S = (if decoder env S i then [row_of env S i] else [], if prefiller env S i then [cand_of S i] else [], S1)"
    and r1: "replanned env S S1" "clock_reads S1 = clock_reads S" "\<forall>j. j \<noteq> i \<longrightarrow> sched_slots S1 ! j = sched_slots S ! j"
    using plan_slot_form [of i S env] Cons.prems(2) by (metis list.set_intros(1))
  have len: "length (sched_slots S1) = length (sched_slots S)" "engine S1 = engine S" using r1(1) by (simp_all add: replanned_def)
  have prem: "distinct is" "\<forall>i \<in> set is. i < length (sched_slots S1)" using Cons.prems len(1) by simp_all
  from Cons.IH [OF prem] obtain S2 where q: "plan_slots env is S1 = (map (row_of env S1) (filter (decoder env S1) is), map (cand_of S1) (filter (prefiller env S1) is), S2)"
    and r2: "replanned env S1 S2" "clock_reads S2 = clock_reads S1" "\<forall>j. j \<notin> set is \<longrightarrow> sched_slots S2 ! j = sched_slots S1 ! j"
    by blast
  have ni: "i \<notin> set is" using Cons.prems(1) by simp
  have same: "\<forall>j \<in> set is. decoder env S1 j = decoder env S j \<and> prefiller env S1 j = prefiller env S j \<and> row_of env S1 j = row_of env S j \<and> cand_of S1 j = cand_of S j"
    using r1(3) len(2) ni by (metis replanned_same)
  have eqs: "map (row_of env S1) (filter (decoder env S1) is) = map (row_of env S) (filter (decoder env S) is)"
    "map (cand_of S1) (filter (prefiller env S1) is) = map (cand_of S) (filter (prefiller env S) is)"
    using same by (auto cong: filter_cong)
  have "replanned env S S2"
    unfolding replanned_def
  proof (intro conjI allI impI)
    fix j assume j: "j < length (sched_slots S)"
    show "sched_slots S2 ! j = sched_slots S ! j \<or>
        (decoder env S j \<and> \<not> budget_clear env (sched_slots S ! j) \<and> sched_slots S2 ! j = armed (sched_slots S ! j))"
    proof (cases "j = i")
      case True
      then have "sched_slots S2 ! j = sched_slots S1 ! j" using r2(3) ni by simp
      then show ?thesis using r1(1) j by (simp add: replanned_def)
    next
      case False
      then have e: "sched_slots S1 ! j = sched_slots S ! j" using r1(3) by simp
      have "sched_slots S2 ! j = sched_slots S1 ! j \<or>
          decoder env S1 j \<and> \<not> budget_clear env (sched_slots S1 ! j) \<and> sched_slots S2 ! j = armed (sched_slots S1 ! j)"
        using r2(1) j len(1) by (simp only: replanned_def)
      then show ?thesis unfolding e replanned_same(1) [OF e len(2), of env] .
    qed
  qed (use r1(1) r2(1) in \<open>simp_all add: replanned_def\<close>)
  moreover have "plan_slots env (i # is) S = (map (row_of env S) (filter (decoder env S) (i # is)), map (cand_of S) (filter (prefiller env S) (i # is)), S2)"
    using p q eqs by (simp add: Let_def)
  ultimately show ?case using r1 r2 by auto
qed

text \<open>The plan, and the scheduler after it.\<close>

lemma build_plan_form:
  fixes S :: "('x, 'g) Scheduler"
  defines "n \<equiv> length (sched_slots S)"
  obtains plan S' cands L start where "build_plan env S = (plan, S')" "replanned env S S'"
    "plan_decode plan = map (row_of env S) (filter (decoder env S) [0..<n])"
    "set cands \<subseteq> set (map (cand_of S) (filter (prefiller env S) [0..<n]))" "distinct (map cand_slot cands)"
    "plan_prefills plan = [] \<or> plan_prefills plan = plan_prefill_slices cands L start"
    "held_long_prompts S' \<Longrightarrow> short_first_steps S < kShortFirstSteps"
proof -
  obtain S1 where p: "plan_slots env [0..<n] S = (map (row_of env S) (filter (decoder env S) [0..<n]), map (cand_of S) (filter (prefiller env S) [0..<n]), S1)"
    and r: "replanned env S S1" using plan_slots_form [of "[0..<n]" S env] by (auto simp: n_def)
  let ?rows = "map (row_of env S) (filter (decoder env S) [0..<n])" and ?cands = "map (cand_of S) (filter (prefiller env S) [0..<n])"
  have dist: "distinct (map cand_slot ?cands)" by (simp add: distinct_map inj_on_def cand_of_def)
  define turn where "turn = (?rows \<noteq> [] \<and> before_deadline env (clock_reads S1))"
  define L where "L = step_plan_limits (eng env) (engine S1) (int (length ?rows))"
  define waiting where "waiting = (\<not> (\<forall>c \<in> set ?cands. fits_one_step S1 L c))"
  define held where "held = (\<not> turn \<and> waiting \<and> short_first_steps S1 < kShortFirstSteps \<and> (\<exists>c \<in> set ?cands. fits_one_step S1 L c))"
  define cands where "cands = (if held then filter (fits_one_step S1 L) ?cands else ?cands)"
  define slices where "slices = (if turn then [] else plan_prefill_slices cands L (prefill_round_robin_start S1))"
  define long where "long = (\<exists>s \<in> set slices. prompt_left (sched_slots S1 ! nat (slice_slot s)) > max_prefill_tokens_per_sequence L)"
  define S' where "S' = S1\<lparr>clock_reads := Suc (clock_reads S1), prefill_candidates := cands, held_long_prompts := held, long_prompt_waiting := waiting,
         long_prompt_in_step := long\<rparr>"
  have "build_plan env S = (\<lparr>plan_decode = ?rows, plan_prefills = slices\<rparr>, S')"
    unfolding build_plan_def n_def [symmetric] p Let_def prod.case
    by (simp only: turn_def [symmetric] L_def [symmetric] waiting_def [symmetric] held_def [symmetric] cands_def [symmetric] slices_def [symmetric]
      long_def [symmetric] S'_def [symmetric])
  moreover have "replanned env S S'" using r by (simp add: replanned_def S'_def)
  moreover have "set cands \<subseteq> set ?cands" "distinct (map cand_slot cands)" using dist by (auto simp: cands_def distinct_map_filter)
  moreover have "held_long_prompts S' \<Longrightarrow> short_first_steps S < kShortFirstSteps" using r by (simp add: S'_def held_def replanned_def)
  ultimately show ?thesis using that [of "\<lparr>plan_decode = ?rows, plan_prefills = slices\<rparr>" S' cands L "prefill_round_robin_start S1"]
    by (simp add: slices_def)
qed

section \<open>Plans between steps\<close>

text \<open>Between two steps every slot with a job is well formed and still running.\<close>

definition slots_ready :: "('x, 'g) SchedEnv \<Rightarrow> ('x, 'g) Scheduler \<Rightarrow> bool" where
  "slots_ready env S \<longleftrightarrow> (\<forall>s \<in> set (sched_slots S). slot_inv (slot_env env) s \<and> (job s \<noteq> None \<longrightarrow> \<not> finished s))"

lemma slots_readyD:
  assumes "slots_ready env S" "i < length (sched_slots S)"
  shows "slot_inv (slot_env env) (sched_slots S ! i)" "job (sched_slots S ! i) \<noteq> None \<Longrightarrow> \<not> finished (sched_slots S ! i)"
  using assms by (simp_all add: slots_ready_def)

lemma slot_inv_armed: "slot_inv env s \<Longrightarrow> slot_inv env (armed s)"
proof -
  assume s: "slot_inv env s"
  have "budget_ok (budget s) \<Longrightarrow> budget_ok (arm_loop_close (budget s))" by (rule budget_ok_arm)
  then show ?thesis using s by (auto simp: slot_inv_def)
qed

lemma replanned_ready:
  assumes "slots_ready env S" "replanned env S S'"
  shows "slots_ready env S'"
  unfolding slots_ready_def
proof
  fix s assume "s \<in> set (sched_slots S')"
  then obtain i where i: "i < length (sched_slots S)" "s = sched_slots S' ! i" using assms(2) by (auto simp: in_set_conv_nth replanned_def)
  then have "s = sched_slots S ! i \<or> s = armed (sched_slots S ! i)" using assms(2) by (auto simp: replanned_def)
  then show "slot_inv (slot_env env) s \<and> (job s \<noteq> None \<longrightarrow> \<not> finished s)"
    using slots_readyD [OF assms(1) i(1)] slot_inv_armed by auto
qed

lemma plan_owned:
  assumes ready: "slots_ready env S"
  shows "plan_owns_rows (int (length (sched_slots S))) (fst (build_plan env S))"
proof -
  let ?n = "length (sched_slots S)"
  obtain plan S' cands L start where p: "build_plan env S = (plan, S')" "replanned env S S'"
    "plan_decode plan = map (row_of env S) (filter (decoder env S) [0..<?n])"
    "set cands \<subseteq> set (map (cand_of S) (filter (prefiller env S) [0..<?n]))" "distinct (map cand_slot cands)"
    "plan_prefills plan = [] \<or> plan_prefills plan = plan_prefill_slices cands L start"
    by (rule build_plan_form [of env S]) blast
  have dec: "map in_slot (plan_decode plan) = map int (filter (decoder env S) [0..<?n])" by (simp add: p(3) row_of_def Let_def)
  have cand: "set (map cand_slot cands) \<subseteq> int ` set (filter (prefiller env S) [0..<?n])" using p(4) by (auto simp: cand_of_def)
  note sl = plan_slices_owned [OF p(5), of L start]
  have pre: "set (map slice_slot (plan_prefills plan)) \<subseteq> int ` set (filter (prefiller env S) [0..<?n])" "distinct (map slice_slot (plan_prefills plan))"
    "\<forall>s \<in> set (plan_prefills plan). 0 < max_tokens s"
    using p(6) sl(1,3) subset_trans [OF sl(2) cand] by (elim disjE; simp)+
  have "0 \<le> in_token i" if im: "i \<in> set (plan_decode plan)" for i
  proof -
    obtain k where k: "k < ?n" "decoder env S k" "i = row_of env S k" using im by (auto simp: p(3))
    then have "slot_inv (slot_env env) (sched_slots S ! k)" "\<not> finished (sched_slots S ! k)"
      using slots_readyD [OF ready k(1)] by (auto simp: decoder_def)
    then have "pending_tok (sched_slots S ! k) \<in> set (gen_tokens (sched_slots S ! k))" "\<forall>t \<in> set (gen_tokens (sched_slots S ! k)). 0 \<le> t"
      using k(2) by (auto simp: slot_inv_def decoder_def)
    then show ?thesis by (simp add: k(3) row_of_def Let_def)
  qed
  moreover have "0 \<le> in_slot i \<and> in_slot i < int ?n" if "i \<in> set (plan_decode plan)" for i
    using that by (auto simp: p(3) row_of_def Let_def)
  moreover have "0 \<le> slice_slot s \<and> slice_slot s < int ?n" if "s \<in> set (plan_prefills plan)" for s
    using that pre(1) by auto
  moreover have "distinct (map in_slot (plan_decode plan) @ map slice_slot (plan_prefills plan))"
  proof -
    have disj: "int ` set (filter (decoder env S) [0..<?n]) \<inter> int ` set (filter (prefiller env S) [0..<?n]) = {}"
      by (auto simp: decoder_def prefiller_def)
    have "set (map in_slot (plan_decode plan)) = int ` set (filter (decoder env S) [0..<?n])" unfolding dec by (rule list.set_map)
    then have "set (map in_slot (plan_decode plan)) \<inter> set (map slice_slot (plan_prefills plan)) = {}"
      using disj pre(1) by blast
    moreover have "distinct (map in_slot (plan_decode plan))" unfolding dec by (simp add: distinct_map)
    ultimately show ?thesis using pre(2) by simp
  qed
  ultimately show ?thesis using pre(3) by (simp add: plan_owns_rows_def p(1))
qed

lemma without_bursts_rows: "map in_slot (plan_decode (without_bursts plan)) = map in_slot (plan_decode plan)"
  "plan_prefills (without_bursts plan) = plan_prefills plan"
  by (simp_all add: without_bursts_def)

lemma without_bursts_owned: "plan_owns_rows n plan \<Longrightarrow> plan_owns_rows n (without_bursts plan)"
  by (auto simp: plan_owns_rows_def without_bursts_def comp_def)

text \<open>A decoding slot after the plan was made: as it was, or with its loop close armed because it may not burst.\<close>

lemma plan_of_slot:
  assumes ready: "slots_ready env S" and k: "k < length (sched_slots S)" "decoder env S k"
  defines "s \<equiv> sched_slots (snd (build_plan env S)) ! k"
  shows "job s \<noteq> None" "\<not> finished s" "slot_inv (slot_env env) s" "s = sched_slots S ! k \<or> \<not> budget_clear env (sched_slots S ! k)"
proof -
  obtain plan S' where p: "build_plan env S = (plan, S')" "replanned env S S'" by (rule build_plan_form [of env S]) blast
  have shape: "s = sched_slots S ! k \<or> (\<not> budget_clear env (sched_slots S ! k) \<and> s = armed (sched_slots S ! k))"
    using p k(1) by (auto simp: replanned_def s_def)
  then show "s = sched_slots S ! k \<or> \<not> budget_clear env (sched_slots S ! k)" by blast
  show js: "job s \<noteq> None" using shape k(2) by (auto simp: decoder_def)
  have "k < length (sched_slots S')" using k(1) p(2) by (simp add: replanned_def)
  from slots_readyD [OF replanned_ready [OF ready p(2)] this] js show "\<not> finished s" "slot_inv (slot_env env) s" by (simp_all add: s_def p(1))
qed

text \<open>An output of an accepted result answers a row the scheduler planned for a decoding slot.\<close>

lemma accepted_row:
  fixes S :: "('x, 'g) Scheduler" and r :: StepResult
  assumes ready: "slots_ready env S" and plan: "plan = fst (build_plan env S) \<or> plan = without_bursts (fst (build_plan env S))"
    and ok: "validate_step_result plan r (int (length (sched_slots S))) = []" "res_error r = []" and out: "out \<in> set (res_decode r)"
  obtains i k where "i \<in> set (plan_decode plan)" "in_slot i = dec_slot out" "dec_slot out = int k" "k < length (sched_slots S)" "decoder env S k"
    "allow_speculation i \<longrightarrow> allow_speculation (row_of env S k)" "decode_fits i out"
proof -
  let ?n = "length (sched_slots S)"
  obtain plan0 S' where p: "build_plan env S = (plan0, S')" "plan_decode plan0 = map (row_of env S) (filter (decoder env S) [0..<?n])"
    by (rule build_plan_form [of env S]) blast
  have own: "plan_owns_rows (int ?n) plan" using plan_owned [OF ready] without_bursts_owned plan by auto
  have n: "1 \<le> int ?n"
  proof (rule ccontr)
    assume "\<not> 1 \<le> int ?n"
    then have "int ?n < 1" by (simp only: not_le)
    from no_slots_refused [OF this, of plan r] ok(1) show False by simp
  qed
  have fit: "result_fits plan r" using outputs_fit [OF n ok(2) own] ok(1) by simp
  then have "dec_slot out \<in> set (map in_slot (plan_decode plan))" using out
    by (metis image_eqI list.set_map result_fits_def set_mset_mset)
  then obtain i where i: "i \<in> set (plan_decode plan)" "in_slot i = dec_slot out" by auto
  have "\<exists>k < ?n. decoder env S k \<and> in_slot i = int k \<and> (allow_speculation i \<longrightarrow> allow_speculation (row_of env S k))"
  proof (cases "plan = plan0")
    case True
    then show ?thesis using i(1) by (auto simp: p(2) row_of_def Let_def)
  next
    case False
    then have "plan = without_bursts plan0" using plan by (simp add: p(1))
    then show ?thesis using i(1) by (auto simp: p(2) without_bursts_def row_of_def Let_def)
  qed
  moreover have "decode_fits i out" using fit out i by (simp add: result_fits_def)
  ultimately show ?thesis using that [OF i] i(2) by auto
qed

text \<open>
  C6. A burst is recorded exactly as the engine committed it. For a plan the scheduler makes, with or without its bursts, and any result the
  protocol check accepts whose outputs keep to the engine's longest burst: the tokens a slot records are a prefix of the committed ones,
  followed by at most one more token. So the thinking budget never replaces a token the engine already has in its cache; where the row
  allowed a burst, the last token is the sampled one as well.
\<close>

theorem allowed_bursts_are_kept:
  fixes S :: "('x, 'g) Scheduler" and r :: StepResult
  assumes ready: "slots_ready env S" and plan: "plan = fst (build_plan env S) \<or> plan = without_bursts (fst (build_plan env S))"
    and ok: "validate_step_result plan r (int (length (sched_slots S))) = []" "res_error r = []"
    and out: "out \<in> set (res_decode r)" "\<not> dec_failed out" "int (length (committed_tokens out)) + 1 \<le> max_decode_tokens (eng env)"
  defines "s \<equiv> sched_slots (snd (build_plan env S)) ! nat (dec_slot out)"
  shows "\<exists>k tok i. gen_tokens (take_decode_output (slot_env env) s out) = gen_tokens s @ take k (committed_tokens out @ [tok]) \<and>
    1 \<le> k \<and> i \<in> set (plan_decode plan) \<and> in_slot i = dec_slot out \<and> (allow_speculation i \<longrightarrow> tok = dec_token out)"
proof -
  let ?ts = "committed_tokens out @ [dec_token out]"
  obtain i k0 where i: "i \<in> set (plan_decode plan)" "in_slot i = dec_slot out" and k0: "dec_slot out = int k0" "k0 < length (sched_slots S)" "decoder env S k0"
    "allow_speculation i \<longrightarrow> allow_speculation (row_of env S k0)" "decode_fits i out" by (rule accepted_row [OF ready plan ok out(1)])
  have s: "s = sched_slots (snd (build_plan env S)) ! k0" by (simp add: s_def k0(1))
  have js: "job s \<noteq> None" and nf: "\<not> finished s" and inv: "slot_inv (slot_env env) s"
    and shape: "s = sched_slots S ! k0 \<or> \<not> budget_clear env (sched_slots S ! k0)"
    using plan_of_slot [OF ready k0(2,3)] unfolding s by blast+
  have room: "int (length (gen_tokens s)) < n_gen_cap s" using inv js nf by (simp add: slot_inv_def)
  obtain m s1 a where f: "took (slot_env env) ?ts s m s1" "take_decode_output (slot_env env) s out = s1\<lparr>acceptance := a\<rparr>"
    using take_decode_output_form [OF js out(2) nf room, of "slot_env env"] by blast
  have m: "1 \<le> m" "gen_tokens s1 = gen_tokens s @ fst (run_tokens (budget s) (take m ?ts))" "m \<le> length ?ts"
    using f(1) unfolding took_def by blast+
  show ?thesis
  proof (cases "allow_speculation i")
    case True
    then have clear: "budget_clear env (sched_slots S ! k0)" using k0(4) True by (simp add: row_of_def Let_def)
    then have same: "s = sched_slots S ! k0" using shape by blast
    have "quiet (budget s) (max_decode_tokens (eng env))"
      using inv js clear out(3) by (intro quiet_when_clear) (auto simp: slot_inv_def budget_clear_def same)
    moreover have "int (length (take m ?ts)) \<le> max_decode_tokens (eng env)" using m(3) out(3) by simp
    ultimately have "fst (run_tokens (budget s) (take m ?ts)) = take m ?ts" by (rule quiet_run)
    then show ?thesis using m f(2) i True by (intro exI [of _ m] exI [of _ "dec_token out"] exI [of _ i]) simp
  next
    case False
    then have none: "committed_tokens out = []" using k0(5) out(2) by (auto simp: decode_fits_def)
    then have "m = 1" using m by simp
    then have "gen_tokens s1 = gen_tokens s @ take 1 (committed_tokens out @ [fst (fst (apply_token (budget s) (dec_token out)))])"
      using m(2) none by (simp add: split_beta Let_def)
    then show ?thesis using f(2) i False
      by - (rule exI [of _ 1], rule exI [of _ "fst (fst (apply_token (budget s) (dec_token out)))"], rule exI [of _ i], simp)
  qed
qed

text \<open>An engine that keeps nothing, commits up to three tokens of a burst and never parks, with one slot.\<close>

definition demo_engine :: "unit SeqEngineOps" where
  "demo_engine = \<lparr>step_plan_limits = (\<lambda>_ _. \<lparr>max_prefill_sequences = 1, max_prefill_tokens_per_sequence = 8, max_prefill_tokens_total = 8,
       prefill_allocation_quantum = 1\<rparr>),
     engine_step = (\<lambda>g _. (\<lparr>res_decode = [demo_burst], res_prefills = [], res_error = []\<rparr>, g)), engine_reserve_decode = (\<lambda>g _. (True, g)),
     kv_offload_state = (\<lambda>_ _. \<lparr>state_parked = False, state_recompute = False, state_bytes = 0\<rparr>),
     engine_offload_kv = (\<lambda>g _ _. Some (False, [], g)), engine_restore_kv = (\<lambda>g _. Some (True, [], g)), engine_evict_kv = (\<lambda>g _ _. (True, [], g)),
     kv_recomputable = (\<lambda>_ _. True), engine_restore_feasible = (\<lambda>_ _. True), engine_retire = (\<lambda>g _. g), max_decode_tokens = 4\<rparr>"

definition demo_sched_env :: "'g SeqEngineOps \<Rightarrow> nat \<Rightarrow> (unit, 'g) SchedEnv" where
  "demo_sched_env E bytes = \<lparr>slot_env = demo_slot_env, eng = E, offload_budget = bytes, before_deadline = (\<lambda>_. True), final_frames = (\<lambda>_. []),
     flush_slot = (\<lambda>s. (True, send_buffer s)), empty_io = ()\<rparr>"

definition demo_sched :: "'g \<Rightarrow> u64 list \<Rightarrow> (unit, 'g) Scheduler" where
  "demo_sched g ns = \<lparr>sched_slots = map demo_slot ns, engine = g, live_slots = int (length ns), drains = [], finished_jobs = [], clock_reads = 0,
     prefill_candidates = [], prefill_round_robin_start = 0, short_first_steps = 0, held_long_prompts = False, long_prompt_waiting = False,
     long_prompt_in_step = False\<rparr>"

lemma demo_sched_ready: "slots_ready (demo_sched_env E bytes) (demo_sched g ns)"
  by (auto simp: slots_ready_def demo_sched_def demo_sched_env_def demo_slot_inv demo_slot_fields)

theorem allowed_bursts_are_kept_witness:
  "\<exists>k tok. gen_tokens (take_decode_output demo_slot_env (sched_slots (snd (build_plan (demo_sched_env demo_engine 0) (demo_sched () [1]))) ! 0) demo_burst) =
     4 # take k [5, 6, tok] \<and> 1 \<le> k \<and> tok = 7"
proof -
  define plan where "plan = fst (build_plan (demo_sched_env demo_engine 0) (demo_sched () [1]))"
  define r where "r = \<lparr>res_decode = [demo_burst], res_prefills = [], res_error = []\<rparr>"
  have p: "plan = \<lparr>plan_decode = [\<lparr>in_slot = 0, in_token = 4, allow_speculation = True\<rparr>], plan_prefills = []\<rparr>"
    unfolding plan_def by code_simp
  have ok: "validate_step_result plan r (int (length (sched_slots (demo_sched () [1])))) = []" unfolding p r_def by code_simp
  have gen: "gen_tokens (sched_slots (snd (build_plan (demo_sched_env demo_engine 0) (demo_sched () [1]))) ! 0) = [4]" by code_simp
  have out: "demo_burst \<in> set (res_decode r)" "\<not> dec_failed demo_burst" "dec_slot demo_burst = 0" "dec_token demo_burst = 7" "committed_tokens demo_burst = [5, 6]"
    "res_error r = []" "int (length (committed_tokens demo_burst)) + 1 \<le> max_decode_tokens (eng (demo_sched_env demo_engine 0))"
    by (simp_all add: r_def demo_burst_def demo_sched_env_def demo_engine_def)
  have env: "slot_env (demo_sched_env demo_engine 0) = demo_slot_env" by (simp add: demo_sched_env_def)
  from allowed_bursts_are_kept [OF demo_sched_ready disjI1 [OF plan_def] ok out(6,1,2,7)] obtain k tok i where
    "gen_tokens (take_decode_output demo_slot_env (sched_slots (snd (build_plan (demo_sched_env demo_engine 0) (demo_sched () [1]))) ! 0) demo_burst) = [4] @ take k ([5, 6] @ [tok])"
    "1 \<le> k" "i \<in> set (plan_decode plan)" "allow_speculation i \<longrightarrow> tok = 7"
    unfolding env out(3-5) nat_zero_as_int [symmetric] gen nat_0 by blast
  then show ?thesis unfolding p by auto
qed

end
