(* ===== verification/Sched_Room.thy ===== *)
theory Sched_Room
  imports Sched_Loop_Props
begin

text \<open>
  The interface an engine owes the scheduler when the cache runs out (\<open>common/concurrency/seq_engine.h\<close>), as a locale, and what the
  scheduler's loop makes of it: it always ends, with a step the engine reserved or without decode rows, and no request is lost.
\<close>

section \<open>Accounts\<close>

definition live :: "'x SchedSlot \<Rightarrow> bool" where
  "live s \<longleftrightarrow> job s \<noteq> None"

text \<open>The requests the scheduler answers for, by their admission numbers: in a slot, draining or finished.\<close>

definition accounts :: "('x, 'g) Scheduler \<Rightarrow> u64 multiset" where
  "accounts S = image_mset admission_order (filter_mset live (mset (sched_slots S)) + mset (drains S) + mset (finished_jobs S))"

definition job_count :: "('x, 'g) Scheduler \<Rightarrow> nat" where
  "job_count S = size (filter_mset live (mset (sched_slots S)))"

lemma empty_slot_not_live [simp]: "\<not> live (empty_sched_slot x)" "job (empty_sched_slot x) = None"
  by (simp_all add: live_def empty_sched_slot_def)

lemma mset_live_update:
  assumes "i < length xs"
  shows "filter_mset live (mset (xs[i := s])) + (if live (xs ! i) then {#xs ! i#} else {#}) =
    filter_mset live (mset xs) + (if live s then {#s#} else {#})"
proof -
  have "mset (xs[i := s]) + {#xs ! i#} = mset xs + {#s#}" using assms by (simp add: mset_update)
  then have "filter_mset live (mset (xs[i := s]) + {#xs ! i#}) = filter_mset live (mset xs + {#s#})" by simp
  then show ?thesis by (simp split: if_splits)
qed

text \<open>Replacing a slot by one of the same request, and retiring one.\<close>

lemma accounts_put:
  assumes "i < length (sched_slots S)" "live s = live (sched_slots S ! i)" "admission_order s = admission_order (sched_slots S ! i)"
  shows "accounts (put i s S) = accounts S" "job_count (put i s S) = job_count S"
proof -
  have eq: "filter_mset live (mset ((sched_slots S)[i := s])) + (if live s then {#sched_slots S ! i#} else {#}) =
      filter_mset live (mset (sched_slots S)) + (if live s then {#s#} else {#})"
    using mset_live_update [OF assms(1), of s] assms(2) by simp
  then have "image_mset admission_order (filter_mset live (mset ((sched_slots S)[i := s])) + (if live s then {#sched_slots S ! i#} else {#})) =
      image_mset admission_order (filter_mset live (mset (sched_slots S)) + (if live s then {#s#} else {#}))" by simp
  then have "image_mset admission_order (filter_mset live (mset ((sched_slots S)[i := s]))) = image_mset admission_order (filter_mset live (mset (sched_slots S)))"
    using assms(3) by (simp split: if_splits)
  then show "accounts (put i s S) = accounts S" by (simp add: accounts_def)
  show "job_count (put i s S) = job_count S" using arg_cong [OF eq, of size] by (simp add: job_count_def split: if_splits)
qed

lemma retire_slot_form:
  assumes i: "i < length (sched_slots S)" and j: "job (sched_slots S ! i) \<noteq> None"
  shows "sched_slots (retire_slot env i S) = (sched_slots S)[i := empty_sched_slot (empty_io env)]"
    "engine (retire_slot env i S) = engine_retire (eng env) (engine S) (int i)" "live_slots (retire_slot env i S) = live_slots S - 1"
    "accounts (retire_slot env i S) = accounts S" "Suc (job_count (retire_slot env i S)) = job_count S"
    "short_first_steps (retire_slot env i S) = short_first_steps S"
proof -
  obtain j0 where j0: "job (sched_slots S ! i) = Some j0" using j by auto
  obtain s3 S1 where r: "retire_slot env i S = put i (empty_sched_slot (empty_io env))
      (S1\<lparr>engine := engine_retire (eng env) (engine S) (int i), live_slots := live_slots S1 - 1\<rparr>)"
    and S1: "S1 = S\<lparr>finished_jobs := finished_jobs S @ [s3]\<rparr> \<or> S1 = S\<lparr>drains := drains S @ [s3]\<rparr>"
    and s3: "admission_order s3 = admission_order (sched_slots S ! i)"
  proof -
    obtain j1 buf where st: "stop_job_stream j0 (send_buffer (sched_slots S ! i)) = (j1, buf)" by fastforce
    define s1 where "s1 = (sched_slots S ! i)\<lparr>job := Some j1, send_buffer := buf\<rparr>"
    define s2 where "s2 = (if client_disconnected s1 then s1 else s1\<lparr>send_buffer := foldl csb_append (send_buffer s1) (final_frames env s1)\<rparr>)"
    obtain ok buf' where fl: "(if client_disconnected s2 then (True, send_buffer s2) else flush_slot env s2) = (ok, buf')" by (metis surj_pair)
    define s3 where "s3 = s2\<lparr>send_buffer := buf'\<rparr>"
    define S1 where "S1 = (if (client_disconnected s2 \<or> \<not> ok \<or> csb_empty buf') \<or> csb_pending buf' > kMaxSlotSendBuffer
        then S\<lparr>finished_jobs := finished_jobs S @ [s3]\<rparr> else S\<lparr>drains := drains S @ [s3]\<rparr>)"
    have eq: "retire_slot env i S = put i (empty_sched_slot (empty_io env))
        (S1\<lparr>engine := engine_retire (eng env) (engine S) (int i), live_slots := live_slots S1 - 1\<rparr>)"
      unfolding retire_slot_def Let_def j0 option.case st prod.case s1_def [symmetric] s2_def [symmetric] fl
      by (simp only: prod.case s3_def [symmetric] S1_def [symmetric])
    have two: "S1 = S\<lparr>finished_jobs := finished_jobs S @ [s3]\<rparr> \<or> S1 = S\<lparr>drains := drains S @ [s3]\<rparr>" unfolding S1_def by presburger
    have "admission_order s3 = admission_order (sched_slots S ! i)" by (simp add: s3_def s2_def s1_def)
    from that [OF eq two this] show ?thesis .
  qed
  show "sched_slots (retire_slot env i S) = (sched_slots S)[i := empty_sched_slot (empty_io env)]"
    "engine (retire_slot env i S) = engine_retire (eng env) (engine S) (int i)" "live_slots (retire_slot env i S) = live_slots S - 1"
    "short_first_steps (retire_slot env i S) = short_first_steps S"
    using S1 by (auto simp: r)
  have lv: "live (sched_slots S ! i)" using j by (simp add: live_def)
  have m: "filter_mset live (mset ((sched_slots S)[i := empty_sched_slot (empty_io env)])) + {#sched_slots S ! i#} = filter_mset live (mset (sched_slots S))"
    using mset_live_update [OF i, of "empty_sched_slot (empty_io env)"] lv by simp
  show "Suc (job_count (retire_slot env i S)) = job_count S"
    using arg_cong [OF m, of size] S1 by (auto simp: job_count_def r)
  have "accounts (retire_slot env i S) = image_mset admission_order
      (filter_mset live (mset ((sched_slots S)[i := empty_sched_slot (empty_io env)])) + mset (drains S) + mset (finished_jobs S)) + {#admission_order s3#}"
    using S1 by (auto simp: accounts_def r)
  also have "\<dots> = image_mset admission_order ((filter_mset live (mset ((sched_slots S)[i := empty_sched_slot (empty_io env)])) + {#sched_slots S ! i#})
      + mset (drains S) + mset (finished_jobs S))" by (simp add: s3)
  finally show "accounts (retire_slot env i S) = accounts S" unfolding m accounts_def .
qed

lemma fail_slot_form:
  assumes i: "i < length (sched_slots S)" and j: "job (sched_slots S ! i) \<noteq> None"
  shows "sched_slots (fail_slot env i e S) = (sched_slots S)[i := empty_sched_slot (empty_io env)]"
    "engine (fail_slot env i e S) = engine_retire (eng env) (engine S) (int i)" "live_slots (fail_slot env i e S) = live_slots S - 1"
    "accounts (fail_slot env i e S) = accounts S" "Suc (job_count (fail_slot env i e S)) = job_count S"
    "short_first_steps (fail_slot env i e S) = short_first_steps S"
proof -
  let ?s = "(sched_slots S ! i)\<lparr>slot_error := Some e\<rparr>"
  have i': "i < length (sched_slots (put i ?s S))" "job (sched_slots (put i ?s S) ! i) \<noteq> None" using i j by simp_all
  have a: "accounts (put i ?s S) = accounts S" "job_count (put i ?s S) = job_count S" by (rule accounts_put; use i in \<open>simp add: live_def\<close>)+
  note f = retire_slot_form [OF i', of env]
  show "sched_slots (fail_slot env i e S) = (sched_slots S)[i := empty_sched_slot (empty_io env)]"
    "engine (fail_slot env i e S) = engine_retire (eng env) (engine S) (int i)" "live_slots (fail_slot env i e S) = live_slots S - 1"
    "accounts (fail_slot env i e S) = accounts S" "Suc (job_count (fail_slot env i e S)) = job_count S"
    "short_first_steps (fail_slot env i e S) = short_first_steps S"
    unfolding fail_slot_def using f a by simp_all
qed

section \<open>What stays of the slots\<close>

text \<open>While room is made, a slot stays as it is up to an armed loop close, or its request, one that was decoding, is answered.\<close>

definition same_or_armed :: "'x SchedSlot \<Rightarrow> 'x SchedSlot \<Rightarrow> bool" where
  "same_or_armed s s' \<longleftrightarrow> s' = s \<or> s' = armed s"

lemma looping_armed: "looping (b\<lparr>tb_loop_armed := x\<rparr>) = looping b"
  by (simp add: looping_def settled_def injecting_def tb_close_def)

lemma armed_armed: "armed (armed s) = armed s"
proof -
  have "arm_loop_close (arm_loop_close b) = arm_loop_close b" for b
    unfolding arm_loop_close_def by (cases "looping b") (simp_all add: looping_armed)
  then show ?thesis by simp
qed

lemma same_or_armed_trans: "same_or_armed a b \<Longrightarrow> same_or_armed b c \<Longrightarrow> same_or_armed a c"
  unfolding same_or_armed_def using armed_armed by metis

lemma same_or_armed_views:
  "same_or_armed s s' \<Longrightarrow> job s' = job s \<and> prefilling s' = prefilling s \<and> admission_order s' = admission_order s \<and> gen_tokens s' = gen_tokens s \<and>
    pending_tok s' = pending_tok s \<and> io s' = io s"
  unfolding same_or_armed_def by (elim disjE) (hypsubst, simp)+

definition eased :: "('x, 'g) SchedEnv \<Rightarrow> ('x, 'g) Scheduler \<Rightarrow> ('x, 'g) Scheduler \<Rightarrow> bool" where
  "eased env S S' \<longleftrightarrow> length (sched_slots S') = length (sched_slots S) \<and>
     (\<forall>i < length (sched_slots S). same_or_armed (sched_slots S ! i) (sched_slots S' ! i) \<or>
        (live (sched_slots S ! i) \<and> \<not> prefilling (sched_slots S ! i) \<and> sched_slots S' ! i = empty_sched_slot (empty_io env))) \<and>
     accounts S' = accounts S \<and> live_slots S' - int (job_count S') = live_slots S - int (job_count S) \<and>
     short_first_steps S' = short_first_steps S"

lemma eased_refl [simp]: "eased env S S"
  by (simp add: eased_def same_or_armed_def)

lemma same_or_armed_empty: "same_or_armed (empty_sched_slot x) s \<Longrightarrow> s = empty_sched_slot x \<or> s = armed (empty_sched_slot x)"
  by (simp add: same_or_armed_def)

lemma eased_trans:
  assumes "eased env A B" "eased env B C" "\<forall>i < length (sched_slots B). \<not> live (sched_slots B ! i) \<longrightarrow> sched_slots C ! i = sched_slots B ! i"
  shows "eased env A C"
  unfolding eased_def
proof (intro conjI allI impI)
  fix i assume i: "i < length (sched_slots A)"
  then have ib: "i < length (sched_slots B)" using assms(1) by (simp add: eased_def)
  have ab: "same_or_armed (sched_slots A ! i) (sched_slots B ! i) \<or>
      (live (sched_slots A ! i) \<and> \<not> prefilling (sched_slots A ! i) \<and> sched_slots B ! i = empty_sched_slot (empty_io env))"
    using assms(1) i by (simp add: eased_def)
  have bc: "same_or_armed (sched_slots B ! i) (sched_slots C ! i) \<or>
      (live (sched_slots B ! i) \<and> \<not> prefilling (sched_slots B ! i) \<and> sched_slots C ! i = empty_sched_slot (empty_io env))"
    using assms(2) ib by (simp add: eased_def)
  show "same_or_armed (sched_slots A ! i) (sched_slots C ! i) \<or>
      (live (sched_slots A ! i) \<and> \<not> prefilling (sched_slots A ! i) \<and> sched_slots C ! i = empty_sched_slot (empty_io env))"
    using ab
  proof
    assume s: "same_or_armed (sched_slots A ! i) (sched_slots B ! i)"
    then show ?thesis using bc same_or_armed_trans same_or_armed_views [OF s] by (auto simp: live_def)
  next
    assume e: "live (sched_slots A ! i) \<and> \<not> prefilling (sched_slots A ! i) \<and> sched_slots B ! i = empty_sched_slot (empty_io env)"
    then have "sched_slots C ! i = empty_sched_slot (empty_io env)" using assms(3) ib by simp
    then show ?thesis using e by simp
  qed
qed (use assms(1,2) in \<open>simp_all add: eased_def\<close>)

lemma replanned_eased:
  assumes "replanned env S S'"
  shows "eased env S S'" "\<forall>i < length (sched_slots S). \<not> live (sched_slots S ! i) \<longrightarrow> sched_slots S' ! i = sched_slots S ! i"
proof -
  have each: "sched_slots S' ! i = sched_slots S ! i \<or> decoder env S i \<and> sched_slots S' ! i = armed (sched_slots S ! i)"
    if "i < length (sched_slots S)" for i using assms that by (auto simp: replanned_def)
  then show "\<forall>i < length (sched_slots S). \<not> live (sched_slots S ! i) \<longrightarrow> sched_slots S' ! i = sched_slots S ! i"
    by (metis decoder_def live_def)
  have len: "length (sched_slots S') = length (sched_slots S)" using assms by (simp add: replanned_def)
  have lv: "map live (sched_slots S') = map live (sched_slots S)" "map admission_order (sched_slots S') = map admission_order (sched_slots S)"
  proof -
    have "live (sched_slots S' ! i) = live (sched_slots S ! i) \<and> admission_order (sched_slots S' ! i) = admission_order (sched_slots S ! i)"
      if "i < length (sched_slots S)" for i using each [OF that] by (elim disjE conjE) (simp_all add: live_def)
    then show "map live (sched_slots S') = map live (sched_slots S)" "map admission_order (sched_slots S') = map admission_order (sched_slots S)"
      using len by (simp_all add: list_eq_iff_nth_eq)
  qed
  have "map admission_order (filter live xs) = map snd (filter fst (zip (map live xs) (map admission_order xs)))" for xs :: "'x SchedSlot list"
    by (induction xs) simp_all
  then have "map admission_order (filter live (sched_slots S')) = map admission_order (filter live (sched_slots S))" using lv by metis
  then have im: "image_mset admission_order (filter_mset live (mset (sched_slots S'))) = image_mset admission_order (filter_mset live (mset (sched_slots S)))"
    by (metis mset_filter mset_map)
  have "job_count S' = job_count S" using arg_cong [OF im, of size] by (simp add: job_count_def)
  moreover have "accounts S' = accounts S" using im assms by (simp add: accounts_def replanned_def)
  ultimately show "eased env S S'" using assms each len by (auto simp: eased_def same_or_armed_def replanned_def)
qed

lemma eased_ready:
  assumes "slots_ready env S" "eased env S S'"
  shows "slots_ready env S'"
  unfolding slots_ready_def
proof
  fix s assume "s \<in> set (sched_slots S')"
  then obtain i where i: "i < length (sched_slots S)" "s = sched_slots S' ! i" using assms(2) by (auto simp: in_set_conv_nth eased_def)
  have "same_or_armed (sched_slots S ! i) s \<or> s = empty_sched_slot (empty_io env)" using assms(2) i by (auto simp: eased_def)
  then consider "s = sched_slots S ! i" | "s = armed (sched_slots S ! i)" | "s = empty_sched_slot (empty_io env)"
    unfolding same_or_armed_def by blast
  then show "slot_inv (slot_env env) s \<and> (job s \<noteq> None \<longrightarrow> \<not> finished s)"
  proof cases
    case 2
    then show ?thesis using slots_readyD [OF assms(1) i(1)] slot_inv_armed [of "slot_env env" "sched_slots S ! i"] by simp
  next
    case 3
    then show ?thesis by (simp add: slot_inv_def)
  qed (use slots_readyD [OF assms(1) i(1)] in simp)
qed

section \<open>The engine's contract\<close>

abbreviation is_parked :: "'g SeqEngineOps \<Rightarrow> 'g \<Rightarrow> nat \<Rightarrow> bool" where
  "is_parked E g i \<equiv> state_parked (kv_offload_state E g (int i))"

text \<open>
  The plan stands for the slots: it was made of them, with or without its bursts, nobody was parked since, and long prompts are only held back
  while they have not been held back too often.
\<close>

definition planned :: "('x, 'g) SchedEnv \<Rightarrow> StepPlan \<Rightarrow> ('x, 'g) Scheduler \<Rightarrow> bool" where
  "planned env plan S \<longleftrightarrow> (\<exists>S0. slots_ready env S0 \<and> (plan = fst (build_plan env S0) \<or> plan = without_bursts (fst (build_plan env S0))) \<and>
     sched_slots S = sched_slots (snd (build_plan env S0)) \<and> length (sched_slots S0) = length (sched_slots S) \<and>
     (\<forall>j. is_parked (eng env) (engine S) j = is_parked (eng env) (engine S0) j) \<and>
     (held_long_prompts S \<longrightarrow> short_first_steps S < kShortFirstSteps))"

lemma planned_new:
  assumes "slots_ready env S"
  shows "planned env (fst (build_plan env S)) (snd (build_plan env S))" "replanned env S (snd (build_plan env S))"
proof -
  obtain plan S' where p: "build_plan env S = (plan, S')" "replanned env S S'" "held_long_prompts S' \<longrightarrow> short_first_steps S < kShortFirstSteps"
    by (rule build_plan_form [of env S]) blast
  then show "replanned env S (snd (build_plan env S))" by simp
  show "planned env (fst (build_plan env S)) (snd (build_plan env S))"
    unfolding planned_def by (rule exI [of _ S]) (use assms p in \<open>simp add: replanned_def\<close>)
qed

lemma without_bursts_twice: "without_bursts (without_bursts plan) = without_bursts plan"
  by (simp add: without_bursts_def comp_def)

lemma planned_without_bursts: "planned env plan S \<Longrightarrow> planned env (without_bursts plan) S"
  unfolding planned_def using without_bursts_twice by metis

lemma planned_keep:
  assumes "planned env plan S" "sched_slots S' = sched_slots S" "held_long_prompts S' = held_long_prompts S" "short_first_steps S' = short_first_steps S"
    "\<forall>j. is_parked (eng env) (engine S') j = is_parked (eng env) (engine S) j"
  shows "planned env plan S'"
  using assms unfolding planned_def by metis

lemma planned_rows:
  assumes "planned env plan S"
  shows "plan_owns_rows (int (length (sched_slots S))) plan"
proof -
  obtain S0 where p: "slots_ready env S0" "plan = fst (build_plan env S0) \<or> plan = without_bursts (fst (build_plan env S0))"
    "length (sched_slots S0) = length (sched_slots S)" using assms unfolding planned_def by blast
  then show ?thesis using plan_owned [OF p(1)] without_bursts_owned by auto
qed

text \<open>Every decode row of the plan is a resident request that is decoding.\<close>

lemma planned_decoders:
  assumes "planned env plan S" "offload_budget env = 0 \<longrightarrow> (\<forall>i < length (sched_slots S). \<not> is_parked (eng env) (engine S) i)"
    and "i \<in> set (plan_decode plan)"
  shows "\<exists>k < length (sched_slots S). in_slot i = int k \<and> live (sched_slots S ! k) \<and> \<not> prefilling (sched_slots S ! k) \<and> \<not> is_parked (eng env) (engine S) k"
proof -
  obtain S0 where S0: "plan = fst (build_plan env S0) \<or> plan = without_bursts (fst (build_plan env S0))"
     "sched_slots S = sched_slots (snd (build_plan env S0))" "length (sched_slots S0) = length (sched_slots S)"
     "\<forall>j. is_parked (eng env) (engine S) j = is_parked (eng env) (engine S0) j" using assms(1) unfolding planned_def by blast
  obtain plan0 S' where p: "build_plan env S0 = (plan0, S')" "replanned env S0 S'"
    "plan_decode plan0 = map (row_of env S0) (filter (decoder env S0) [0..<length (sched_slots S0)])"
    by (rule build_plan_form [of env S0]) blast
  have "in_slot i \<in> set (map in_slot (plan_decode plan0))"
  proof -
    have "in_slot i \<in> set (map in_slot (plan_decode plan))" using assms(3) by simp
    moreover have "map in_slot (plan_decode plan) = map in_slot (plan_decode plan0)"
      using S0(1) without_bursts_rows(1) [of plan0] by (elim disjE) (simp_all add: p(1))
    ultimately show ?thesis by (simp only:)
  qed
  then obtain k where k: "k < length (sched_slots S0)" "decoder env S0 k" "in_slot i = int k" by (auto simp: p(3) row_of_def Let_def)
  have "sched_slots S ! k = sched_slots S0 ! k \<or> sched_slots S ! k = armed (sched_slots S0 ! k)"
    using p(2) k(1) by (auto simp: replanned_def S0(2) p(1))
  then have "live (sched_slots S ! k) \<and> \<not> prefilling (sched_slots S ! k)" using k(2) by (auto simp: decoder_def live_def)
  moreover have "\<not> is_parked (eng env) (engine S) k" using k S0(3,4) assms(2) by (auto simp: decoder_def parked_slot_def)
  ultimately show ?thesis using k S0(3) by auto
qed

locale kv_engine =
  fixes E :: "'g SeqEngineOps" and good :: "'g \<Rightarrow> bool"
  assumes reserve_law: "good g \<Longrightarrow> engine_reserve_decode E g plan = (b, g') \<Longrightarrow> good g' \<and> (\<forall>j. is_parked E g' j = is_parked E g j)"
    and offload_returns: "good g \<Longrightarrow> \<exists>r. engine_offload_kv E g (int i) bytes = Some r"
    and offload_law: "good g \<Longrightarrow> engine_offload_kv E g (int i) bytes = Some (acted, e, g') \<Longrightarrow>
      good g' \<and> (\<forall>j. is_parked E g' j \<longleftrightarrow> is_parked E g j \<or> (acted \<and> j = i))"
    and evict_law: "good g \<Longrightarrow> engine_evict_kv E g (int i) t = (acted, e, g') \<Longrightarrow>
      good g' \<and> (acted \<longrightarrow> is_parked E g' i) \<and> (\<forall>j. j \<noteq> i \<longrightarrow> is_parked E g' j = is_parked E g j)"
    and retire_law: "good g \<Longrightarrow> good (engine_retire E g (int i)) \<and> \<not> is_parked E (engine_retire E g (int i)) i \<and>
      (\<forall>j. j \<noteq> i \<longrightarrow> is_parked E (engine_retire E g (int i)) j = is_parked E g j)"
begin

lemma try_offload_law:
  assumes "eng env = E" "good (engine S)"
  shows "\<exists>ok e g. try_offload env vs bytes err S = Some (ok, e, S\<lparr>engine := g\<rparr>) \<and> good g \<and>
    (if ok then \<exists>v \<in> set vs. \<forall>j. is_parked E g j \<longleftrightarrow> is_parked E (engine S) j \<or> j = v else \<forall>j. is_parked E g j = is_parked E (engine S) j)"
  using assms(2)
proof (induction vs arbitrary: S err)
  case Nil
  show ?case by (rule exI [of _ False], rule exI [of _ err], rule exI [of _ "engine S"]) (use Nil in simp)
next
  case (Cons v vs)
  obtain ok e g where o: "engine_offload_kv E (engine S) (int v) bytes = Some (ok, e, g)" using offload_returns [OF Cons.prems] by (metis prod_cases3)
  note l = offload_law [OF Cons.prems o]
  show ?case
  proof (cases ok)
    case True
    then show ?thesis using o l assms(1)
      by - (rule exI [of _ True], rule exI [of _ err], rule exI [of _ g], auto)
  next
    case False
    define T where "T = S\<lparr>engine := g\<rparr>"
    have T: "engine T = g" "T\<lparr>engine := h\<rparr> = S\<lparr>engine := h\<rparr>" for h by (simp_all add: T_def)
    have "good (engine T)" using l by (simp add: T)
    from Cons.IH [OF this, of e] obtain ok' e' g' where t: "try_offload env vs bytes e T = Some (ok', e', S\<lparr>engine := g'\<rparr>)"
      "good g'" "if ok' then \<exists>v \<in> set vs. \<forall>j. is_parked E g' j \<longleftrightarrow> is_parked E g j \<or> j = v else \<forall>j. is_parked E g' j = is_parked E g j"
      unfolding T by blast
    have same: "is_parked E g j = is_parked E (engine S) j" for j using l False by simp
    have "try_offload env (v # vs) bytes err S = Some (ok', e', S\<lparr>engine := g'\<rparr>)" using t(1) o False assms(1) by (simp add: T_def)
    moreover have "if ok' then \<exists>v \<in> set (v # vs). \<forall>j. is_parked E g' j \<longleftrightarrow> is_parked E (engine S) j \<or> j = v
        else \<forall>j. is_parked E g' j = is_parked E (engine S) j" using t(3) same by (cases ok') auto
    ultimately show ?thesis using t(2) by blast
  qed
qed

text \<open>The resident requests.\<close>

abbreviation resident_jobs :: "('x, 'g) Scheduler \<Rightarrow> nat set" where
  "resident_jobs S \<equiv> {i. i < length (sched_slots S) \<and> live (sched_slots S ! i) \<and> \<not> is_parked E (engine S) i}"

abbreviation nopark :: "('x, 'g) SchedEnv \<Rightarrow> ('x, 'g) Scheduler \<Rightarrow> bool" where
  "nopark env S \<equiv> offload_budget env = 0 \<longrightarrow> (\<forall>i < length (sched_slots S). \<not> is_parked E (engine S) i)"

lemma set_residents: "eng env = E \<Longrightarrow> set (residents env S) = resident_jobs S"
  by (auto simp: residents_def live_def)

lemma eased_engine: "eased env S (S\<lparr>engine := g\<rparr>)"
  by (simp add: eased_def same_or_armed_def accounts_def job_count_def)

text \<open>A request fails: its slot is empty and nobody else notices.\<close>

lemma fail_slot_law:
  fixes env :: "('x, 'g) SchedEnv" and S :: "('x, 'g) Scheduler" and v :: nat and e :: SlotError
  assumes "eng env = E" "good (engine S)" "v < length (sched_slots S)" "live (sched_slots S ! v)" "\<not> prefilling (sched_slots S ! v)"
  defines "S1 \<equiv> fail_slot env v e S"
  shows "good (engine S1)" "eased env S S1" "\<forall>i < length (sched_slots S). \<not> live (sched_slots S ! i) \<longrightarrow> sched_slots S1 ! i = sched_slots S ! i"
    "resident_jobs S1 \<subseteq> resident_jobs S - {v}" "length (sched_slots S1) = length (sched_slots S)"
    "\<not> is_parked E (engine S1) v \<and> (\<forall>j. j \<noteq> v \<longrightarrow> is_parked E (engine S1) j = is_parked E (engine S) j)"
proof -
  have j: "job (sched_slots S ! v) \<noteq> None" using assms(4) by (simp add: live_def)
  note f = fail_slot_form [OF assms(3) j, of env e, folded S1_def]
  have r: "good (engine S1)" "\<not> is_parked E (engine S1) v" "\<forall>j. j \<noteq> v \<longrightarrow> is_parked E (engine S1) j = is_parked E (engine S) j"
    using retire_law [OF assms(2), of v] f(2) assms(1) by simp_all
  then show "good (engine S1)" "\<not> is_parked E (engine S1) v \<and> (\<forall>j. j \<noteq> v \<longrightarrow> is_parked E (engine S1) j = is_parked E (engine S) j)" by blast+
  show len: "length (sched_slots S1) = length (sched_slots S)" using f(1) by simp
  show "\<forall>i < length (sched_slots S). \<not> live (sched_slots S ! i) \<longrightarrow> sched_slots S1 ! i = sched_slots S ! i"
    using f(1) assms(4) by (metis nth_list_update_neq)
  show "eased env S S1" unfolding eased_def
    using f assms(3-5) by (auto simp: nth_list_update same_or_armed_def)
  show "resident_jobs S1 \<subseteq> resident_jobs S - {v}"
  proof
    fix i assume i: "i \<in> resident_jobs S1"
    then have "i \<noteq> v" using f(1) assms(3) by auto
    then show "i \<in> resident_jobs S - {v}" using i r(3) f(1) len by auto
  qed
qed

lemma make_room_law:
  assumes e: "eng env = E" and good: "good (engine S)" and np: "nopark env S"
  obtains (stuck) S1 where "make_room env S = Some (True, S1)" "good (engine S1)" "nopark env S1" "eased env S S1"
      "S1 = S\<lparr>engine := engine S1\<rparr>" "\<forall>j. is_parked E (engine S1) j = is_parked E (engine S) j" "\<forall>i \<in> resident_jobs S. prefilling (sched_slots S ! i)"
    | (roomier) S1 where "make_room env S = Some (False, S1)" "good (engine S1)" "nopark env S1" "eased env S S1"
      "\<forall>i < length (sched_slots S). \<not> live (sched_slots S ! i) \<longrightarrow> sched_slots S1 ! i = sched_slots S ! i" "resident_jobs S1 \<subset> resident_jobs S"
proof -
  define rs where "rs = residents env S"
  define avail where "avail = offload_budget env - min (offload_budget env) (used_bytes env S)"
  have rset: "set rs = resident_jobs S" using set_residents [OF e] by (simp add: rs_def)
  obtain ok err g where t: "(if offload_budget env \<noteq> 0 \<and> length rs > 1 then try_offload env rs avail [] S else Some (False, [], S)) = Some (ok, err, S\<lparr>engine := g\<rparr>)"
    and g: "good g" and flags: "if ok then \<exists>v \<in> set rs. \<forall>j. is_parked E g j \<longleftrightarrow> is_parked E (engine S) j \<or> j = v else \<forall>j. is_parked E g j = is_parked E (engine S) j"
    and okb: "ok \<longrightarrow> offload_budget env \<noteq> 0"
  proof (cases "offload_budget env \<noteq> 0 \<and> length rs > 1")
    case True
    then show ?thesis using that try_offload_law [OF e good, of rs avail "[]"] by auto
  next
    case False
    have x: "(if offload_budget env \<noteq> 0 \<and> length rs > 1 then try_offload env rs avail [] S else Some (False, [], S)) =
        Some (False, [], S\<lparr>engine := engine S\<rparr>)" unfolding if_not_P [OF False] by simp
    show ?thesis by (rule that [OF x good]) simp_all
  qed
  define S1 where "S1 = S\<lparr>engine := g\<rparr>"
  have s1: "sched_slots S1 = sched_slots S" "engine S1 = g" by (simp_all add: S1_def)
  note mr = make_room_def [of env S, folded rs_def, unfolded Let_def, folded avail_def, unfolded t, folded S1_def]
  show ?thesis
  proof (cases ok)
    case True
    then have "make_room env S = Some (False, S1)" by (simp add: mr)
    moreover obtain v where v: "v \<in> resident_jobs S" "\<forall>j. is_parked E g j \<longleftrightarrow> is_parked E (engine S) j \<or> j = v" using flags True rset by auto
    then have "resident_jobs S1 \<subset> resident_jobs S" using s1 by auto
    ultimately show ?thesis using roomier g eased_engine [of env S g] okb True s1 by (simp add: S1_def)
  next
    case no: False
    have same: "\<forall>j. is_parked E g j = is_parked E (engine S) j" using flags no by simp
    show ?thesis
    proof (cases "eviction_victim env rs S1")
      case None
      then have "make_room env S = Some (True, S1)" using no by (simp add: mr)
      moreover have "\<forall>i \<in> resident_jobs S. prefilling (sched_slots S ! i)"
        using None rset s1(1) by (auto simp: eviction_victim_def Let_def filter_empty_conv split: list.splits)
      ultimately show ?thesis using stuck g eased_engine [of env S g] np same s1 by (simp add: S1_def)
    next
      case (Some v)
      have "v \<in> set rs" "\<not> prefilling (sched_slots S ! v)"
        using Some s1(1) by (auto simp: eviction_victim_def Let_def filter_eq_Cons_iff split: list.splits)
      then have v: "v < length (sched_slots S)" "live (sched_slots S ! v)" "\<not> prefilling (sched_slots S ! v)" "v \<in> resident_jobs S"
        using rset by auto
      obtain acted e' g' where ev: "engine_evict_kv E g (int v) (pending_tok (sched_slots S1 ! v)) = (acted, e', g')" by (metis prod_cases3)
      define B where "B = (if offload_budget env = 0 then g else g')"
      have b: "good B" "\<forall>j. j \<noteq> v \<longrightarrow> is_parked E B j = is_parked E (engine S) j" using evict_law [OF g ev] g same by (simp_all add: B_def)
      show ?thesis
      proof (cases "offload_budget env \<noteq> 0 \<and> acted")
        case True
        then have "make_room env S = Some (False, S\<lparr>engine := g'\<rparr>)" using no Some ev by (simp add: mr e s1 S1_def)
        moreover have "resident_jobs (S\<lparr>engine := g'\<rparr>) \<subset> resident_jobs S"
          using evict_law [OF g ev] True same v(4) by auto
        ultimately show ?thesis using roomier [of "S\<lparr>engine := g'\<rparr>"] evict_law [OF g ev] True eased_engine [of env S g'] by simp
      next
        case False
        obtain err' where m: "make_room env S = Some (False, fail_slot env v err' (S\<lparr>engine := B\<rparr>))"
        proof (cases "offload_budget env = 0")
          case True
          then have "make_room env S = Some (False, fail_slot env v (growth_error err) (S\<lparr>engine := B\<rparr>))"
            using no Some by (simp add: mr S1_def B_def)
          then show ?thesis by (rule that)
        next
          case budget: False
          then have "make_room env S = Some (False, fail_slot env v (growth_error e') (S\<lparr>engine := B\<rparr>))"
            using no Some ev False by (simp add: mr e s1 S1_def B_def)
          then show ?thesis by (rule that)
        qed
        have B: "good (engine (S\<lparr>engine := B\<rparr>))" "v < length (sched_slots (S\<lparr>engine := B\<rparr>))" "live (sched_slots (S\<lparr>engine := B\<rparr>) ! v)"
          "\<not> prefilling (sched_slots (S\<lparr>engine := B\<rparr>) ! v)" using b v by simp_all
        note f = fail_slot_law [OF e B, of err']
        have "eased env S (fail_slot env v err' (S\<lparr>engine := B\<rparr>))"
          using eased_trans [OF eased_engine f(2)] f(3) by simp
        moreover have "resident_jobs (fail_slot env v err' (S\<lparr>engine := B\<rparr>)) \<subset> resident_jobs S" using f(4) b(2) v(4) by auto
        moreover have "nopark env (fail_slot env v err' (S\<lparr>engine := B\<rparr>))" using f(5,6) b(2) np by auto
        ultimately show ?thesis using roomier [OF m f(1)] f(3) by simp
      qed
    qed
  qed
qed

text \<open>The loop ends, with a step the engine reserved or a plan without decode rows.\<close>

lemma relieve_law:
  assumes e: "eng env = E"
  shows "good (engine S) \<Longrightarrow> nopark env S \<Longrightarrow> slots_ready env S \<Longrightarrow> planned env plan S \<Longrightarrow>
    \<exists>plan' S'. relieve env plan S = Some (plan', S') \<and> good (engine S') \<and> nopark env S' \<and> eased env S S' \<and>
      (\<forall>i < length (sched_slots S). \<not> live (sched_slots S ! i) \<longrightarrow> sched_slots S' ! i = sched_slots S ! i) \<and>
      planned env plan' S' \<and> slots_ready env S' \<and>
      (plan_decode plan' = [] \<or> (\<exists>g. engine_reserve_decode E g plan' = (True, engine S')))"
proof (induction "card (resident_jobs S)" arbitrary: S plan rule: less_induct)
  case less
  note good = less.prems(1) and np = less.prems(2) and ready = less.prems(3) and pl = less.prems(4)
  obtain b g where r: "engine_reserve_decode E (engine S) plan = (b, g)" by fastforce
  note rl = reserve_law [OF good r]
  obtain b2 g2 where r2: "engine_reserve_decode E g (without_bursts plan) = (b2, g2)" by fastforce
  have rl2: "good g2" "\<forall>j. is_parked E g2 j = is_parked E (engine S) j" using reserve_law [OF conjunct1 [OF rl] r2] rl by simp_all
  define T where "T = S\<lparr>engine := g2\<rparr>"
  have T: "engine T = g2" "sched_slots T = sched_slots S" "eased env S T" using eased_engine by (simp_all add: T_def)
  show ?case
  proof (cases "b \<or> b2")
    case True
    let ?p = "if b then plan else without_bursts plan" and ?S = "S\<lparr>engine := if b then g else g2\<rparr>"
    have eq: "relieve env plan S = Some (?p, ?S)" using True by (subst relieve.simps) (auto simp: e r r2)
    have "planned env ?p ?S" using pl rl rl2 e planned_without_bursts [OF pl]
      by (auto intro: planned_keep [where S = S] split: if_split)
    moreover have "slots_ready env ?S" using ready by (simp add: slots_ready_def)
    moreover have "engine_reserve_decode E (if b then engine S else g) ?p = (True, engine ?S)" using True r r2 by auto
    ultimately show ?thesis unfolding eq using rl rl2 np eased_engine [of env S] by (intro exI [of _ ?p] exI [of _ ?S]) auto
  next
    case False
    have goodT: "good (engine T)" and npT: "nopark env T" using rl2 np T by simp_all
    have eq: "relieve env plan S = Option.bind (make_room env T) (\<lambda>(stuck, S1). if stuck then Some (without_bursts plan, S1)
          else relieve env (fst (build_plan env S1)) (snd (build_plan env S1)))"
      using False by (subst relieve.simps) (simp add: e r r2 T_def)
    show ?thesis
    proof (rule make_room_law [OF e goodT npT])
      fix S1 assume m: "make_room env T = Some (True, S1)" "good (engine S1)" "nopark env S1" "eased env T S1" "S1 = T\<lparr>engine := engine S1\<rparr>"
        "\<forall>j. is_parked E (engine S1) j = is_parked E (engine T) j" "\<forall>i \<in> resident_jobs T. prefilling (sched_slots T ! i)"
      have keep: "\<forall>j. is_parked (eng env) (engine S1) j = is_parked (eng env) (engine S) j" "sched_slots S1 = sched_slots S"
        "held_long_prompts S1 = held_long_prompts S" "short_first_steps S1 = short_first_steps S"
        using m(6) rl2 T e by (simp, (subst m(5), simp add: T_def)+)
      have pl1: "planned env (without_bursts plan) S1" by (rule planned_keep [OF planned_without_bursts [OF pl] keep(2-4,1)])
      have "plan_decode (without_bursts plan) = []"
      proof (rule ccontr)
        assume "plan_decode (without_bursts plan) \<noteq> []"
        then obtain i where "i \<in> set (plan_decode (without_bursts plan))" by fastforce
        then obtain k where "k < length (sched_slots S1)" "live (sched_slots S1 ! k)" "\<not> prefilling (sched_slots S1 ! k)" "\<not> is_parked (eng env) (engine S1) k"
          using planned_decoders [OF pl1] m(3) e by auto
        then show False using m(6,7) keep(2) T(2) e by auto
      qed
      moreover have "eased env S S1" using m(4) T by (simp add: eased_def T_def accounts_def job_count_def)
      moreover have "slots_ready env S1" using ready keep(2) by (simp add: slots_ready_def)
      ultimately show ?thesis using eq m(1-3) pl1 keep(2) by simp
    next
      fix S1 assume m: "make_room env T = Some (False, S1)" "good (engine S1)" "nopark env S1" "eased env T S1"
        "\<forall>i < length (sched_slots T). \<not> live (sched_slots T ! i) \<longrightarrow> sched_slots S1 ! i = sched_slots T ! i" "resident_jobs S1 \<subset> resident_jobs T"
      define S2 where "S2 = snd (build_plan env S1)"
      have e1: "eased env S S1" using m(4) T by (simp add: eased_def T_def accounts_def job_count_def)
      have ready1: "slots_ready env S1" by (rule eased_ready [OF ready e1])
      note pn = planned_new [OF ready1, folded S2_def]
      have len: "length (sched_slots S1) = length (sched_slots S)" "length (sched_slots S2) = length (sched_slots S1)" "engine S2 = engine S1"
        using e1 pn(2) by (simp_all add: eased_def replanned_def)
      have e2: "eased env S S2" by (rule eased_trans [OF e1 replanned_eased [OF pn(2)]])
      have dead: "\<forall>i < length (sched_slots S). \<not> live (sched_slots S ! i) \<longrightarrow> sched_slots S2 ! i = sched_slots S ! i"
        using m(5) replanned_eased(2) [OF pn(2)] T(2) len(1) by metis
      have "resident_jobs S2 \<subseteq> resident_jobs S1"
        using pn(2) len by (auto simp: replanned_def live_def)
      also have "\<dots> \<subset> resident_jobs S" using m(6) T rl2(2) by simp
      finally have lt: "card (resident_jobs S2) < card (resident_jobs S)" by (intro psubset_card_mono) auto
      have S2: "good (engine S2)" "nopark env S2" "slots_ready env S2" using m(2,3) len replanned_ready [OF ready1 pn(2)] by simp_all
      from less.hyps [OF lt S2 pn(1)] obtain plan' S' where ih: "relieve env (fst (build_plan env S1)) S2 = Some (plan', S')" "good (engine S')" "nopark env S'" "eased env S2 S'"
        "\<forall>i < length (sched_slots S2). \<not> live (sched_slots S2 ! i) \<longrightarrow> sched_slots S' ! i = sched_slots S2 ! i"
        "planned env plan' S'" "slots_ready env S'" "plan_decode plan' = [] \<or> (\<exists>g. engine_reserve_decode E g plan' = (True, engine S'))"
        by (elim exE conjE) (rule that; assumption)
      have "relieve env plan S = Some (plan', S')" using eq m(1) ih(1) by (simp add: S2_def)
      have "eased env S S'" by (rule eased_trans [OF e2 ih(4,5)])
      have "\<forall>i < length (sched_slots S). \<not> live (sched_slots S ! i) \<longrightarrow> sched_slots S' ! i = sched_slots S ! i"
        using dead ih(5) len by metis
      show ?thesis
        by (rule exI [of _ plan'], rule exI [of _ S'], intro conjI; fact)
    qed
  qed
qed

end

end
