(* ===== verification/Paged_Kv_Offload_Copy.thy ===== *)
theory Paged_Kv_Offload_Copy
  imports Paged_Kv_Offload
begin

text \<open>
  The byte copies of the KV offload: what a payload holds, that writing it to other blocks gives the same bytes
  there, and that nothing else on the device changes. A region is a range of bytes of one tensor.
\<close>

section \<open>Regions\<close>

definition region :: "ggml_tensor list \<Rightarrow> nat \<Rightarrow> nat \<Rightarrow> nat \<Rightarrow> u8 list" where
  "region dev t offset n = take n (drop offset (contents (dev ! t)))"

definition apart :: "nat \<times> nat \<times> nat \<Rightarrow> nat \<times> nat \<times> nat \<Rightarrow> bool" where
  "apart r r' \<longleftrightarrow> (case (r, r') of ((t, b, n), (t', b', n')) \<Rightarrow> t \<noteq> t' \<or> b + n \<le> b' \<or> b' + n' \<le> b)"

lemma apart_sym: "apart r r' \<longleftrightarrow> apart r' r"
  by (auto simp: apart_def split: prod.splits)

definition same_shape :: "ggml_tensor list \<Rightarrow> ggml_tensor list \<Rightarrow> bool" where
  "same_shape dev dev' \<longleftrightarrow> map (\<lambda>t. (t\<lparr>contents := []\<rparr>, ggml_nbytes t)) dev' = map (\<lambda>t. (t\<lparr>contents := []\<rparr>, ggml_nbytes t)) dev"

lemma raw_span_contents [simp]: "raw_span_ok (t\<lparr>contents := c\<rparr>) offset n = raw_span_ok t offset n"
  by (simp add: raw_span_ok_def ggml_is_contiguous_def outer_dims_def)

lemma same_shapeD:
  assumes "same_shape dev dev'"
  shows "length dev' = length dev" "t < length dev \<Longrightarrow> ggml_nbytes (dev' ! t) = ggml_nbytes (dev ! t)"
    "t < length dev \<Longrightarrow> has_buffer (dev' ! t) = has_buffer (dev ! t) \<and> has_data (dev' ! t) = has_data (dev ! t)"
    "t < length dev \<Longrightarrow> raw_span_ok (dev' ! t) offset n = raw_span_ok (dev ! t) offset n"
proof -
  show l: "length dev' = length dev" using arg_cong [OF assms [unfolded same_shape_def], of length] by simp
  have eq: "(dev' ! t)\<lparr>contents := []\<rparr> = (dev ! t)\<lparr>contents := []\<rparr> \<and> ggml_nbytes (dev' ! t) = ggml_nbytes (dev ! t)" if "t < length dev"
    using arg_cong [OF assms [unfolded same_shape_def], of "\<lambda>xs. xs ! t"] l that by simp
  then show "t < length dev \<Longrightarrow> ggml_nbytes (dev' ! t) = ggml_nbytes (dev ! t)" by simp
  show "t < length dev \<Longrightarrow> has_buffer (dev' ! t) = has_buffer (dev ! t) \<and> has_data (dev' ! t) = has_data (dev ! t)"
    using arg_cong [OF conjunct1 [OF eq], of has_buffer] arg_cong [OF conjunct1 [OF eq], of has_data] by simp
  show "t < length dev \<Longrightarrow> raw_span_ok (dev' ! t) offset n = raw_span_ok (dev ! t) offset n"
    using arg_cong [OF conjunct1 [OF eq], of "\<lambda>t. raw_span_ok t offset n"] by simp
qed

lemma same_shape_refl [simp]: "same_shape dev dev"
  by (simp add: same_shape_def)

lemma same_shape_trans: "same_shape a b \<Longrightarrow> same_shape b c \<Longrightarrow> same_shape a c"
  by (simp add: same_shape_def)

lemma splice_nth:
  assumes "b + length d \<le> length xs" "j < length xs"
  shows "(take b xs @ d @ drop (b + length d) xs) ! j = (if b \<le> j \<and> j < b + length d then d ! (j - b) else xs ! j)"
  using assms by (auto simp: nth_append)

lemma splice_region:
  assumes "b + length d \<le> length xs" "b' + n' \<le> length xs" "b + length d \<le> b' \<or> b' + n' \<le> b"
  shows "take n' (drop b' (take b xs @ d @ drop (b + length d) xs)) = take n' (drop b' xs)"
proof (rule nth_equalityI)
  fix j assume "j < length (take n' (drop b' (take b xs @ d @ drop (b + length d) xs)))"
  then have "j < n'" using assms by auto
  then show "take n' (drop b' (take b xs @ d @ drop (b + length d) xs)) ! j = take n' (drop b' xs) ! j"
    using assms splice_nth [OF assms(1), of "b' + j"] by auto
qed (use assms in auto)

lemma tensor_get_ok:
  assumes "copy_allowed dev t b n" "b + n \<le> ggml_nbytes (dev ! t)"
  shows "tensor_get dev (Some t) b n = Some (region dev t b n)" "length (region dev t b n) = n"
  using assms by (auto simp: tensor_get_def region_def)

lemma tensor_set_ok:
  assumes "copy_allowed dev t b n" "b + n \<le> ggml_nbytes (dev ! t)" "n \<le> length payload"
  obtains dev' where "tensor_set dev (Some t) payload b n = Some dev'" "same_shape dev dev'"
    "region dev' t b n = take n payload"
    "\<And>t' b' n'. t' < length dev \<Longrightarrow> b' + n' \<le> ggml_nbytes (dev ! t') \<Longrightarrow> apart (t, b, n) (t', b', n') \<Longrightarrow>
       region dev' t' b' n' = region dev t' b' n'"
proof -
  let ?c = "contents (dev ! t)" and ?d = "take n payload"
  let ?dev' = "dev[t := (dev ! t)\<lparr>contents := take b ?c @ ?d @ drop (b + n) ?c\<rparr>]"
  have t: "t < length dev" using assms(1) by (simp add: copy_allowed_def)
  have d: "length ?d = n" using assms(3) by simp
  have whole: "?dev' = dev" if "n = 0" using that by simp
  show ?thesis
  proof (rule that [of ?dev'])
    show "tensor_set dev (Some t) payload b n = Some ?dev'" using assms whole by (auto simp: tensor_set_def)
    show "same_shape dev ?dev'" unfolding same_shape_def
      by (rule nth_equalityI) (use assms t in \<open>auto simp: nth_list_update\<close>)
    show "region ?dev' t b n = take n payload" using assms t by (simp add: region_def)
  next
    fix t' b' n'
    assume h: "t' < length dev" "b' + n' \<le> ggml_nbytes (dev ! t')" "apart (t, b, n) (t', b', n')"
    show "region ?dev' t' b' n' = region dev t' b' n'"
    proof (cases "t' = t")
      case True
      then show ?thesis using splice_region [of b ?d ?c b' n'] h assms t d by (simp add: region_def apart_def)
    qed (use assms t in \<open>simp add: region_def\<close>)
  qed
qed

section \<open>Planes\<close>

text \<open>
  The blocks of a plane may be copied: the tensor is allocated and no block crosses a stride gap. The engines create their caches as
  contiguous tensors, for which this holds. \<open>payload_size\<close> does not look at the strides.
\<close>

definition plane_copyable :: "ggml_tensor list \<Rightarrow> nat \<Rightarrow> PagedKvTensor \<Rightarrow> bool" where
  "plane_copyable dev physical p \<longleftrightarrow> (case plane_tensor p of None \<Rightarrow> True | Some t \<Rightarrow>
     t < length dev \<and> has_buffer (dev ! t) \<and> has_data (dev ! t) \<and>
     (\<forall>b < physical. raw_span_ok (dev ! t) (plane_offset p + b * block_bytes p) (block_bytes p)))"

lemma contiguous_copyable:
  assumes "plane_tensor p = Some t" "t < length dev" "has_buffer (dev ! t)" "has_data (dev ! t)" "ggml_is_contiguous (dev ! t)"
  shows "plane_copyable dev physical p"
  using assms by (simp add: plane_copyable_def raw_span_ok_def)

definition plane_ok :: "ggml_tensor list \<Rightarrow> nat \<Rightarrow> PagedKvTensor \<Rightarrow> bool" where
  "plane_ok dev physical p \<longleftrightarrow> (case plane_tensor p of None \<Rightarrow> False | Some t \<Rightarrow>
     t < length dev \<and> 0 < block_bytes p \<and> plane_offset p + physical * block_bytes p \<le> ggml_nbytes (dev ! t)) \<and>
     plane_copyable dev physical p"

definition plane_block :: "ggml_tensor list \<Rightarrow> PagedKvTensor \<Rightarrow> nat \<Rightarrow> u8 list" where
  "plane_block dev p b = region dev (the (plane_tensor p)) (plane_offset p + b * block_bytes p) (block_bytes p)"

abbreviation block_range :: "PagedKvTensor \<Rightarrow> nat \<Rightarrow> nat \<times> nat \<times> nat" where
  "block_range p b \<equiv> (the (plane_tensor p), plane_offset p + b * block_bytes p, block_bytes p)"

definition planes_apart :: "nat \<Rightarrow> PagedKvTensor \<Rightarrow> PagedKvTensor \<Rightarrow> bool" where
  "planes_apart physical p q \<longleftrightarrow>
     apart (the (plane_tensor p), plane_offset p, physical * block_bytes p) (the (plane_tensor q), plane_offset q, physical * block_bytes q)"

lemma plane_copyable_shape: "same_shape dev dev' \<Longrightarrow> plane_copyable dev n p \<Longrightarrow> plane_copyable dev' n p"
  by (auto simp: plane_copyable_def same_shapeD split: option.splits)

lemma plane_ok_shape: "same_shape dev dev' \<Longrightarrow> plane_ok dev n p \<Longrightarrow> plane_ok dev' n p"
  by (auto simp: plane_ok_def same_shapeD plane_copyable_shape split: option.splits)

lemma block_inside:
  assumes "b < (n::nat)"
  shows "b * bb + bb \<le> n * bb"
  using mult_le_mono1 [OF Suc_leI [OF assms], of bb] by simp

lemma plane_block_range:
  assumes "plane_ok dev n p" "b < n"
  obtains t where "plane_tensor p = Some t" "copy_allowed dev t (plane_offset p + b * block_bytes p) (block_bytes p)" "0 < block_bytes p"
    "plane_offset p + b * block_bytes p + block_bytes p \<le> ggml_nbytes (dev ! t)"
  using assms block_inside [OF assms(2), of "block_bytes p"]
  by (force simp: plane_ok_def plane_copyable_def copy_allowed_def split: option.splits)

lemma blocks_apart:
  assumes "b \<noteq> b'"
  shows "apart (block_range p b) (block_range p b')"
proof (cases "b < b'")
  case True
  then show ?thesis using block_inside [OF True, of "block_bytes p"] by (simp add: apart_def)
next
  case False
  then show ?thesis using block_inside [of b' b "block_bytes p"] assms by (simp add: apart_def)
qed

lemma planes_apart_blocks:
  assumes "planes_apart n p q" "b < n" "b' < n"
  shows "apart (block_range p b) (block_range q b')"
  using assms block_inside [OF assms(2), of "block_bytes p"] block_inside [OF assms(3), of "block_bytes q"]
  by (auto simp: planes_apart_def apart_def)

lemma payload_loop_iff:
  assumes "\<forall>p \<in> set ps. plane_copyable dev physical p" "acc \<le> size_max"
  shows "payload_loop dev physical n ps acc = Some bytes \<longleftrightarrow>
    (\<forall>p \<in> set ps. plane_ok dev physical p) \<and> bytes = acc + n * sum_list (map block_bytes ps) \<and> bytes \<le> size_max"
  using assms
proof (induction ps arbitrary: acc)
  case (Cons p ps)
  show ?case
  proof (cases "plane_ok dev physical p")
    case False
    have "plane_rejected dev physical n acc p"
      using False Cons.prems(1)
      by (cases "plane_tensor p"; cases "block_bytes p = 0")
         (auto simp: plane_rejected_def plane_ok_def plane_copyable_def div_less_iff_less_mult)
    then show ?thesis using False by simp
  next
    case True
    have rej: "plane_rejected dev physical n acc p \<longleftrightarrow> \<not> acc + n * block_bytes p \<le> size_max"
      using True Cons.prems(2)
      by (auto simp: plane_rejected_def plane_ok_def div_less_iff_less_mult split: option.splits)
    show ?thesis
    proof (cases "acc + n * block_bytes p \<le> size_max")
      case le: True
      show ?thesis using Cons.IH [OF _ le] Cons.prems(1) True rej le by (auto simp: algebra_simps)
    qed (use rej in \<open>auto simp: algebra_simps\<close>)
  qed
qed auto

section \<open>Saving and loading\<close>

lemma save_plane_value:
  assumes "plane_ok dev n p" "\<forall>b \<in> set table. b < n"
  shows "save_plane dev p table = Some (concat (map (plane_block dev p) table))"
  using assms(2)
proof (induction table)
  case (Cons b table)
  obtain t where "plane_tensor p = Some t" "copy_allowed dev t (plane_offset p + b * block_bytes p) (block_bytes p)"
    "plane_offset p + b * block_bytes p + block_bytes p \<le> ggml_nbytes (dev ! t)"
    using plane_block_range [OF assms(1), of b] Cons.prems by auto
  then show ?case using Cons tensor_get_ok(1) [of dev t "plane_offset p + b * block_bytes p" "block_bytes p"]
    by (simp add: plane_block_def)
qed simp

lemma save_planes_value:
  assumes "\<forall>p \<in> set ps. plane_ok dev n p" "\<forall>b \<in> set table. b < n"
  shows "save_planes dev ps table = Some (concat (map (\<lambda>p. concat (map (plane_block dev p) table)) ps))"
  using assms(1) by (induction ps) (auto simp: save_plane_value [OF _ assms(2)])

lemma length_plane_block:
  assumes "plane_ok dev n p" "b < n"
  shows "length (plane_block dev p b) = block_bytes p"
  by (rule plane_block_range [OF assms]) (auto simp: plane_block_def region_def)

lemma length_saved_plane:
  assumes "plane_ok dev n p" "\<forall>b \<in> set table. b < n"
  shows "length (concat (map (plane_block dev p) table)) = length table * block_bytes p"
  using assms(2) by (induction table) (auto simp: length_plane_block [OF assms(1)])

lemma length_saved_planes:
  assumes "\<forall>p \<in> set ps. plane_ok dev n p" "\<forall>b \<in> set table. b < n"
  shows "length (concat (map (\<lambda>p. concat (map (plane_block dev p) table)) ps)) = length table * sum_list (map block_bytes ps)"
  using assms(1) by (induction ps) (auto simp: length_saved_plane [OF _ assms(2)] algebra_simps simp del: length_concat)

lemma chunk_bytes: "\<forall>c \<in> set cs. length c = n \<Longrightarrow> length (concat cs) = length cs * n"
  by (induction cs) auto

lemma planes_bytes: "\<forall>p \<in> set ps. length (f p) = n * g p \<Longrightarrow> length (concat (map f ps)) = n * sum_list (map g ps)"
  by (induction ps) (auto simp: algebra_simps)

text \<open>What a load leaves alone: the regions apart from every block it writes.\<close>

definition untouched :: "PagedKvTensor list \<Rightarrow> nat list \<Rightarrow> ggml_tensor list \<Rightarrow> ggml_tensor list \<Rightarrow> bool" where
  "untouched ps table dev dev' \<longleftrightarrow>
     (\<forall>t b n. t < length dev \<longrightarrow> b + n \<le> ggml_nbytes (dev ! t) \<longrightarrow>
        (\<forall>p \<in> set ps. \<forall>c \<in> set table. apart (block_range p c) (t, b, n)) \<longrightarrow> region dev' t b n = region dev t b n)"

lemma untouched_block:
  assumes "untouched ps table dev dev'" "plane_ok dev n q" "b < n"
    "\<forall>p \<in> set ps. \<forall>c \<in> set table. apart (block_range p c) (block_range q b)"
  shows "plane_block dev' q b = plane_block dev q b"
  by (rule plane_block_range [OF assms(2,3)]) (use assms(1,4) in \<open>auto simp: untouched_def plane_block_def copy_allowed_def\<close>)

lemma untouched_trans:
  assumes "untouched ps table a b" "untouched ps' table' b c" "same_shape a b"
    "\<And>p d. p \<in> set ps \<Longrightarrow> d \<in> set table \<Longrightarrow> \<exists>p' \<in> set qs. \<exists>d' \<in> set table''. block_range p' d' = block_range p d"
    "\<And>p d. p \<in> set ps' \<Longrightarrow> d \<in> set table' \<Longrightarrow> \<exists>p' \<in> set qs. \<exists>d' \<in> set table''. block_range p' d' = block_range p d"
  shows "untouched qs table'' a c"
  unfolding untouched_def
proof (intro allI impI)
  fix t b' n
  assume h: "t < length a" "b' + n \<le> ggml_nbytes (a ! t)" "\<forall>p \<in> set qs. \<forall>c \<in> set table''. apart (block_range p c) (t, b', n)"
  have "region b t b' n = region a t b' n" using assms(1,4) h unfolding untouched_def by (metis (no_types, lifting))
  moreover have "region c t b' n = region b t b' n"
    using assms(2,5) h same_shapeD [OF assms(3)] unfolding untouched_def by (metis (no_types, lifting))
  ultimately show "region c t b' n = region a t b' n" by simp
qed

lemma load_plane_value:
  assumes "plane_ok dev n p" "\<forall>b \<in> set table. b < n" "distinct table" "length chunks = length table"
    "\<forall>c \<in> set chunks. length c = block_bytes p"
  shows "\<exists>dev'. load_plane p table (concat chunks @ rest) dev = Some (rest, dev') \<and> same_shape dev dev' \<and>
    map (plane_block dev' p) table = chunks \<and> untouched [p] table dev dev'"
  using assms(4) assms(1-3,5)
proof (induction chunks table arbitrary: dev rule: list_induct2)
  case Nil
  then show ?case by (simp add: untouched_def)
next
  case (Cons c chunks b table)
  obtain t where t: "plane_tensor p = Some t" "copy_allowed dev t (plane_offset p + b * block_bytes p) (block_bytes p)" "0 < block_bytes p"
    "plane_offset p + b * block_bytes p + block_bytes p \<le> ggml_nbytes (dev ! t)"
    using plane_block_range [OF Cons.prems(1), of b] Cons.prems(2) by auto
  have c: "length c = block_bytes p" using Cons.prems(4) by simp
  let ?payload = "c @ concat chunks @ rest"
  obtain dev1 where d1: "tensor_set dev (Some t) ?payload (plane_offset p + b * block_bytes p) (block_bytes p) = Some dev1"
    "same_shape dev dev1" "region dev1 t (plane_offset p + b * block_bytes p) (block_bytes p) = take (block_bytes p) ?payload"
    "\<And>t' b' n'. t' < length dev \<Longrightarrow> b' + n' \<le> ggml_nbytes (dev ! t') \<Longrightarrow>
       apart (t, plane_offset p + b * block_bytes p, block_bytes p) (t', b', n') \<Longrightarrow> region dev1 t' b' n' = region dev t' b' n'"
    using tensor_set_ok [OF t(2,4), of ?payload] c by auto
  have ok1: "plane_ok dev1 n p" by (rule plane_ok_shape [OF d1(2) Cons.prems(1)])
  obtain dev2 where d2: "load_plane p table (concat chunks @ rest) dev1 = Some (rest, dev2)" "same_shape dev1 dev2"
    "map (plane_block dev2 p) table = chunks" "untouched [p] table dev1 dev2"
    using Cons.IH [OF ok1] Cons.prems(2-4) by auto
  have "plane_block dev2 p b = plane_block dev1 p b"
    by (rule untouched_block [OF d2(4) ok1]) (use Cons.prems(2,3) in \<open>auto intro!: blocks_apart\<close>)
  also have "\<dots> = c" using d1(3) t(1) c by (simp add: plane_block_def)
  finally have "map (plane_block dev2 p) (b # table) = c # chunks" using d2(3) by simp
  moreover have "untouched [p] [b] dev dev1" unfolding untouched_def using d1(4) t(1) by simp
  then have "untouched [p] (b # table) dev dev2" by (rule untouched_trans [OF _ d2(4) d1(2)]) auto
  moreover have "load_plane p (b # table) (concat (c # chunks) @ rest) dev = Some (rest, dev2)"
    using d1(1) d2(1) t(1) c by simp
  moreover note same_shape_trans [OF d1(2) d2(2)]
  ultimately show ?case by (intro exI [of _ dev2] conjI)
qed

lemma load_planes_value:
  assumes "\<forall>p \<in> set ps. plane_ok dev n p" "sorted_wrt (planes_apart n) ps"
    "\<forall>b \<in> set table. b < n" "distinct table"
    "\<forall>p \<in> set ps. length (chunks p) = length table \<and> (\<forall>c \<in> set (chunks p). length c = block_bytes p)"
  shows "\<exists>dev'. load_planes ps table (concat (map (\<lambda>p. concat (chunks p)) ps)) dev = Some dev' \<and> same_shape dev dev' \<and>
    (\<forall>p \<in> set ps. map (plane_block dev' p) table = chunks p) \<and> untouched ps table dev dev'"
  using assms(1,2,5)
proof (induction ps arbitrary: dev)
  case Nil
  then show ?case by (simp add: untouched_def)
next
  case (Cons p ps)
  obtain dev1 where d1: "load_plane p table (concat (chunks p) @ concat (map (\<lambda>p. concat (chunks p)) ps)) dev =
      Some (concat (map (\<lambda>p. concat (chunks p)) ps), dev1)" "same_shape dev dev1"
    "map (plane_block dev1 p) table = chunks p" "untouched [p] table dev dev1"
    using load_plane_value [OF _ assms(3,4), of dev p "chunks p" "concat (map (\<lambda>p. concat (chunks p)) ps)"] Cons.prems by auto
  have ok1: "\<forall>q \<in> set (p # ps). plane_ok dev1 n q" using plane_ok_shape [OF d1(2)] Cons.prems(1) by blast
  obtain dev2 where d2: "load_planes ps table (concat (map (\<lambda>p. concat (chunks p)) ps)) dev1 = Some dev2" "same_shape dev1 dev2"
    "\<forall>q \<in> set ps. map (plane_block dev2 q) table = chunks q" "untouched ps table dev1 dev2"
    using Cons.IH [of dev1] ok1 Cons.prems by auto
  have "plane_block dev2 p b = plane_block dev1 p b" if "b \<in> set table" for b
  proof (rule untouched_block [OF d2(4), of n])
    show "\<forall>q \<in> set ps. \<forall>c \<in> set table. apart (block_range q c) (block_range p b)"
    proof (intro ballI)
      fix q c assume "q \<in> set ps" "c \<in> set table"
      then have "apart (block_range p b) (block_range q c)"
        using planes_apart_blocks [of n p q b c] Cons.prems(2) assms(3) that by simp
      then show "apart (block_range q c) (block_range p b)" by (simp only: apart_sym)
    qed
  qed (use ok1 assms(3) that in auto)
  then have "map (plane_block dev2 p) table = chunks p" using d1(3) by (metis map_eq_conv)
  moreover have "untouched (p # ps) table dev dev2" by (rule untouched_trans [OF d1(4) d2(4) d1(2)]) auto
  ultimately show ?case using d1(1) d2 same_shape_trans [OF d1(2) d2(2)] by auto
qed

text \<open>A load returns whenever the planes hold the blocks and the payload is long enough.\<close>

lemma load_plane_returns:
  assumes "plane_ok dev n p" "\<forall>b \<in> set table. b < n" "length table * block_bytes p \<le> length payload"
  shows "\<exists>dev'. load_plane p table payload dev = Some (drop (length table * block_bytes p) payload, dev') \<and> same_shape dev dev'"
  using assms
proof (induction table arbitrary: dev payload)
  case (Cons b table)
  obtain t where t: "plane_tensor p = Some t" "copy_allowed dev t (plane_offset p + b * block_bytes p) (block_bytes p)" "0 < block_bytes p"
    "plane_offset p + b * block_bytes p + block_bytes p \<le> ggml_nbytes (dev ! t)"
    by (rule plane_block_range [OF Cons.prems(1), of b]) (use Cons.prems(2) in auto)
  have rest: "length table * block_bytes p \<le> length (drop (block_bytes p) payload)" using Cons.prems(3) by auto
  have "block_bytes p \<le> length payload" using Cons.prems(3) by simp
  then obtain dev1 where d1: "tensor_set dev (Some t) payload (plane_offset p + b * block_bytes p) (block_bytes p) = Some dev1"
    "same_shape dev dev1" by (rule tensor_set_ok [OF t(2,4)]) auto
  obtain dev2 where "load_plane p table (drop (block_bytes p) payload) dev1 =
      Some (drop (length table * block_bytes p) (drop (block_bytes p) payload), dev2)" "same_shape dev1 dev2"
    using Cons.IH [OF plane_ok_shape [OF d1(2) Cons.prems(1)], of "drop (block_bytes p) payload"] Cons.prems(2) rest by auto
  then show ?case using d1 t(1) same_shape_trans by (auto simp: add.commute)
qed simp

lemma load_planes_returns:
  assumes "\<forall>p \<in> set ps. plane_ok dev n p" "\<forall>b \<in> set table. b < n" "length table * sum_list (map block_bytes ps) \<le> length payload"
  shows "\<exists>dev'. load_planes ps table payload dev = Some dev' \<and> same_shape dev dev'"
  using assms
proof (induction ps arbitrary: dev payload)
  case (Cons p ps)
  have len: "length table * block_bytes p + length table * sum_list (map block_bytes ps) \<le> length payload"
    using Cons.prems(3) by (simp add: algebra_simps)
  obtain dev1 where d1: "load_plane p table payload dev = Some (drop (length table * block_bytes p) payload, dev1)" "same_shape dev dev1"
    using load_plane_returns [of dev n p table payload] Cons.prems len by auto
  have ok1: "\<forall>q \<in> set ps. plane_ok dev1 n q" using plane_ok_shape [OF d1(2)] Cons.prems(1) by simp
  have "length table * sum_list (map block_bytes ps) \<le> length (drop (length table * block_bytes p) payload)" using len by auto
  from Cons.IH [OF ok1 Cons.prems(2) this]
  obtain dev2 where "load_planes ps table (drop (length table * block_bytes p) payload) dev1 = Some dev2" "same_shape dev1 dev2" by blast
  then show ?case using d1 same_shape_trans by auto
qed simp

end
