(* ===== verification/Paged_Kv_Offload_Inv.thy ===== *)
theory Paged_Kv_Offload_Inv
  imports Paged_Kv_Offload_Copy Seq_Slot_Reach Paged_Kv_Props
begin

text \<open>
  The KV offload in step with the slot manager: the cases of \<open>suspend\<close> and \<open>restore\<close>, the states reachable when an engine
  serves other slots, computes on the device, suspends and restores, and what these leave of a suspended slot.
\<close>

section \<open>The block table of a sequence\<close>

abbreviation table_of :: "PagedKvPool SeqSlotManager \<Rightarrow> nat \<Rightarrow> nat list" where
  "table_of m i \<equiv> block_table (seq_of (kv m) (handle (slots m ! i)))"

lemma stored_table:
  assumes inv: "pool_inv p" and v: "pool_view p h = Some (len, own)"
  shows "\<exists>r. sequence p h out = (Ok, \<lparr>snap_kv_seq_len = len, snap_block_table = block_table (seq_of p h), snap_reserved_block_count = r\<rparr>)"
    "length (block_table (seq_of p h)) = ceil_div len (block_size p)" "distinct (block_table (seq_of p h))"
    "\<forall>b \<in> set (block_table (seq_of p h)). b < physical_block_count p" "len \<le> u32_max"
proof -
  have ok: "validate p h = Ok" "len = kv_seq_len (seq_of p h)" using v by (auto simp: pool_view_Some)
  then have i: "handle_slot h < length (sequences p)" by (simp add: validate_Ok)
  then show "\<exists>r. sequence p h out = (Ok, \<lparr>snap_kv_seq_len = len, snap_block_table = block_table (seq_of p h), snap_reserved_block_count = r\<rparr>)"
    using ok by (simp add: sequence_def Let_def)
  show "length (block_table (seq_of p h)) = ceil_div len (block_size p)" using pool_invD(5) [OF inv] i ok(2) by (simp add: seq_inv_def)
  show "distinct (block_table (seq_of p h))" "\<forall>b \<in> set (block_table (seq_of p h)). b < physical_block_count p"
    using owned_distinct [OF inv i] by (auto simp: owned_blocks_def)
  show "len \<le> u32_max" by (rule pool_kv.owned_bound(3) [OF inv v])
qed

section \<open>The invariant\<close>

definition off_inv :: "PagedKvOffload \<Rightarrow> bool" where
  "off_inv x \<longleftrightarrow> pool_mgr_inv (off_slots x) \<and> length (saved x) = length (slots (off_slots x)) \<and>
     (\<forall>p \<in> set (off_tensors x). plane_copyable (off_device x) (physical_block_count (kv (off_slots x))) p)"

lemma off_invD:
  assumes "off_inv x"
  shows "pool_mgr_inv (off_slots x)" "pool_inv (kv (off_slots x))" "length (saved x) = length (slots (off_slots x))"
    "\<forall>p \<in> set (off_tensors x). plane_copyable (off_device x) (physical_block_count (kv (off_slots x))) p"
  using assms mgr_invD(1) by (auto simp: off_inv_def)

abbreviation blocks_in :: "PagedKvOffload \<Rightarrow> nat" where
  "blocks_in x \<equiv> physical_block_count (kv (off_slots x))"

abbreviation payload_of :: "PagedKvOffload \<Rightarrow> nat list \<Rightarrow> u8 list" where
  "payload_of x table \<equiv> concat (map (\<lambda>p. concat (map (plane_block (off_device x) p) table)) (off_tensors x))"

lemma payload_size_iff:
  assumes "off_inv x"
  shows "payload_size x n = Some bytes \<longleftrightarrow>
    (\<forall>p \<in> set (off_tensors x). plane_ok (off_device x) (blocks_in x) p) \<and>
    bytes = n * sum_list (map block_bytes (off_tensors x)) \<and> bytes \<le> size_max"
  unfolding payload_size_def using payload_loop_iff [OF off_invD(4) [OF assms], of 0] by (simp add: size_max_def)

lemma detach_resident:
  assumes inv: "pool_mgr_inv m" and s: "is_active m slot" "\<not> parked (slots m ! nat slot)" "staged_tokens (slots m ! nat slot) = []"
  obtains m' own where "detach_kv PoolSlotKv m slot = (True, m')" "0 \<le> cur_pos (slots m ! nat slot)"
    "pool_view (kv m) (handle (slots m ! nat slot)) = Some (nat (cur_pos (slots m ! nat slot)), own)"
proof -
  let ?s = "slots m ! nat slot"
  have "slot_ok (max_ctx m) (block_size (kv m)) (pool_view (kv m) (handle ?s)) ?s" "slot_active ?s"
    using manager_slot_ok [OF inv] pool_kv.is_activeD [OF s(1)] by simp_all
  then obtain own where v: "pool_view (kv m) (handle ?s) = Some (nat (cur_pos ?s), own)" and pos: "0 \<le> cur_pos ?s"
    using s by (cases "phase ?s") (auto simp: slot_ok_def parked_def)
  then show ?thesis
    using that s pool_clear_view [OF mgr_invD(1) [OF inv] v prod.collapse [symmetric]] by (simp add: detach_kv_def Let_def split_beta)
qed

lemma suspend_cases:
  assumes inv: "off_inv x"
  obtains (refused) e where "suspend x slot avail probe cp al = Some (False, e, x)"
    | (ok) m' where "suspend x slot avail probe cp al =
          Some (True, [], x\<lparr>off_slots := m', saved := (saved x)[nat slot := payload_of x (table_of (off_slots x) (nat slot))]\<rparr>)"
        "detach_kv PoolSlotKv (off_slots x) slot = (True, m')"
        "\<forall>p \<in> set (off_tensors x). plane_ok (off_device x) (blocks_in x) p"
        "length (payload_of x (table_of (off_slots x) (nat slot))) \<le> min avail size_max"
        "\<And>a. probe = Some a \<Longrightarrow> length (payload_of x (table_of (off_slots x) (nat slot))) \<le> a div 4"
        "length (table_of (off_slots x) (nat slot)) = ceil_div (nat (cur_pos (slots (off_slots x) ! nat slot))) (block_size (kv (off_slots x)))"
        "\<forall>b \<in> set (table_of (off_slots x) (nat slot)). b < blocks_in x"
proof (cases "is_active (off_slots x) slot \<and> \<not> parked (slots (off_slots x) ! nat slot) \<and> staged_tokens (slots (off_slots x) ! nat slot) = []")
  case False
  then show ?thesis using that(1) by (auto simp: suspend_def offload_state_def Let_def)
next
  case True
  let ?m = "off_slots x" let ?s = "slots ?m ! nat slot" let ?p = "kv ?m" let ?t = "table_of ?m (nat slot)"
  note pinv = off_invD(2) [OF inv]
  obtain m' own where de: "detach_kv PoolSlotKv ?m slot = (True, m')" and v: "pool_view ?p (handle ?s) = Some (nat (cur_pos ?s), own)"
    and pos: "0 \<le> cur_pos ?s" using detach_resident [OF off_invD(1) [OF inv]] True by metis
  note st = stored_table [OF pinv v]
  obtain r where sq: "sequence ?p (handle ?s) empty_snapshot = (Ok, \<lparr>snap_kv_seq_len = nat (cur_pos ?s), snap_block_table = ?t, snap_reserved_block_count = r\<rparr>)"
    using st(1) by blast
  have u: "u32_of_int (cur_pos ?s) = nat (cur_pos ?s)" using st(5) pos by (simp add: u32_max_def)
  have eq: "suspend x slot avail probe cp al =
      (if \<not> cp then Some (False, ''could not allocate decode KV offload RAM'', x)
       else case payload_size x (length ?t) of
          None \<Rightarrow> Some (False, bad_layout, x)
        | Some bytes \<Rightarrow>
            if bytes > avail then Some (False, ''decode KV offload RAM budget exhausted'', x)
            else if (case probe of None \<Rightarrow> False | Some a \<Rightarrow> bytes > a div 4)
            then Some (False, ''insufficient current host memory for decode KV offload'', x)
            else if \<not> al then Some (False, ''could not allocate decode KV offload RAM'', x)
            else case save_planes (off_device x) (off_tensors x) ?t of None \<Rightarrow> None
              | Some payload \<Rightarrow> Some (True, [], x\<lparr>off_slots := m', saved := (saved x)[nat slot := payload]\<rparr>))"
    using True sq u de by (simp add: suspend_def offload_state_def Let_def split: option.split)
  show ?thesis
  proof (cases "payload_size x (length ?t)")
    case None
    then have "\<exists>e. suspend x slot avail probe cp al = Some (False, e, x)" unfolding eq by simp
    then show ?thesis using that(1) by blast
  next
    case (Some bytes)
    then have planes: "\<forall>p \<in> set (off_tensors x). plane_ok (off_device x) (blocks_in x) p"
      and bytes: "bytes = length ?t * sum_list (map block_bytes (off_tensors x))" "bytes \<le> size_max" using payload_size_iff [OF inv] by auto
    note sv = save_planes_value [OF planes st(4)] and ln = length_saved_planes [OF planes st(4)]
    show ?thesis
    proof (cases "cp \<and> al \<and> bytes \<le> avail \<and> (\<forall>a. probe = Some a \<longrightarrow> bytes \<le> a div 4)")
      case True
      then have "suspend x slot avail probe cp al = Some (True, [], x\<lparr>off_slots := m', saved := (saved x)[nat slot := payload_of x ?t]\<rparr>)"
        unfolding eq using Some sv by (auto split: option.splits)
      then show ?thesis using that(2) de planes bytes ln True st(2,4) by (simp del: length_concat)
    next
      case False
      then have "\<exists>e. suspend x slot avail probe cp al = Some (False, e, x)" unfolding eq using Some by (auto split: option.splits)
      then show ?thesis using that(1) by blast
    qed
  qed
qed

lemma restore_cases:
  fixes slot :: int
  assumes inv: "off_inv x"
  defines "m \<equiv> off_slots x" and "s \<equiv> slots (off_slots x) ! nat slot"
  obtains (refused) blocks e where "restore x slot rs cp = Some (False, blocks, e, x)"
      "\<not> (is_active m slot \<and> phase s = SeqSuspended \<and> rs \<and>
          payload_size x (ceil_div (nat (cur_pos s)) (block_size (kv m))) = Some (length (saved x ! nat slot)) \<and>
          ceil_div (resume_token_capacity PoolSlotKv m s) (block_size (kv m)) \<le> free_block_count (kv m))"
    | (undone) blocks e m1 m2 where "restore x slot rs cp = Some (False, blocks, e, x\<lparr>off_slots := m2\<rparr>)" "\<not> cp"
        "attach_kv PoolSlotKv m slot = (True, m1)" "detach_kv PoolSlotKv m1 slot = (True, m2)"
    | (ok) m1 dev where "restore x slot rs cp =
          Some (True, map (\<lambda>b. int32_of (int b)) (table_of m1 (nat slot)), [], x\<lparr>off_slots := m1, off_device := dev, saved := (saved x)[nat slot := []]\<rparr>)"
        "attach_kv PoolSlotKv m slot = (True, m1)" "same_shape (off_device x) dev"
        "load_planes (off_tensors x) (table_of m1 (nat slot)) (saved x ! nat slot) (off_device x) = Some dev"
        "\<forall>p \<in> set (off_tensors x). plane_ok (off_device x) (blocks_in x) p"
        "length (table_of m1 (nat slot)) = ceil_div (nat (cur_pos s)) (block_size (kv m))"
        "distinct (table_of m1 (nat slot))" "\<forall>b \<in> set (table_of m1 (nat slot)). b < blocks_in x"
proof (cases "is_active m slot \<and> phase s = SeqSuspended")
  case False
  then have "\<exists>blocks e. restore x slot rs cp = Some (False, blocks, e, x)"
    unfolding m_def s_def by (auto simp: restore_def Let_def)
  then show ?thesis using that(1) False by blast
next
  case True
  note minv = off_invD(1) [OF inv, folded m_def] and pinv = off_invD(2) [OF inv, folded m_def]
  have idx: "nat slot < length (slots m)" "slot_active s" using pool_kv.is_activeD [of m slot] True by (auto simp: m_def s_def)
  have sok: "slot_ok (max_ctx m) (block_size (kv m)) (pool_view (kv m) (handle s)) s"
    using manager_slot_ok [OF minv] idx unfolding s_def m_def by simp
  have pos: "0 \<le> cur_pos s" "cur_pos s \<le> int_max" using sok True mgr_invD(3) [OF minv] by (auto simp: slot_ok_def)
  let ?n = "ceil_div (nat (cur_pos s)) (block_size (kv m))"
  have bs: "0 < block_size (kv m)" "block_size (kv m) \<le> u32_max"
    using pool_invD(1-3) [OF pinv] by (auto, metis One_nat_def Suc_leI dual_order.trans mult.commute mult.right_neutral mult_le_mono2)
  have n: "(u64_of_int (cur_pos s) + block_size (kv m) - 1) mod (size_max + 1) div block_size (kv m) = ?n"
    using pos bs ceil_div_alt [of "block_size (kv m)" "nat (cur_pos s)"] by (simp add: size_max_def u32_max_def)
  obtain a m1 where at: "attach_kv PoolSlotKv m slot = (a, m1)" by fastforce
  have act: "is_active m slot" "phase s = SeqSuspended" using True by auto
  define tbl where "tbl = table_of m1 (nat slot)"
  obtain st snap where sq: "sequence (kv m1) (handle (slots m1 ! nat slot)) empty_snapshot = (st, snap)" by fastforce
  have eq: "restore x slot rs cp =
     (case payload_size x ?n of
          None \<Rightarrow> Some (False, [], bad_layout, x)
        | Some bytes \<Rightarrow>
            if bytes \<noteq> length (saved x ! nat slot)
            then Some (False, [], ''saved KV payload size does not match the sequence'', x)
            else if \<not> rs then Some (False, [], ''could not allocate KV restore metadata'', x)
            else let x1 = x\<lparr>off_slots := m1\<rparr> in
              if \<not> a then Some (False, replicate ?n 0, [], x1)
              else if st = Ok \<and> \<not> cp
                then Some (False, replicate ?n 0, ''could not allocate KV restore metadata'',
                       if \<not> state_parked (offload_state x1 slot) then x1\<lparr>off_slots := snd (detach_kv PoolSlotKv m1 slot)\<rparr> else x1)
                else if st \<noteq> Ok
                then Some (False, replicate ?n 0, ''restored KV sequence is unavailable'', x1\<lparr>off_slots := snd (detach_kv PoolSlotKv m1 slot)\<rparr>)
                else case load_planes (off_tensors x) (snap_block_table snap) (saved x ! nat slot) (off_device x) of
                  None \<Rightarrow> None
                | Some dev \<Rightarrow>
                    if ?n > length (snap_block_table snap) then None
                    else Some (True, map (\<lambda>b. int32_of (int b)) (take ?n (snap_block_table snap)), [],
                           discard (x1\<lparr>off_device := dev\<rparr>) slot))"
    using act n at sq unfolding restore_def m_def s_def by (simp add: Let_def split: option.split)
  show ?thesis
  proof (cases "payload_size x ?n = Some (length (saved x ! nat slot)) \<and> rs")
    case False
    then have "\<exists>blocks e. restore x slot rs cp = Some (False, blocks, e, x)" unfolding eq by (auto split: option.splits)
    then show ?thesis using that(1) False by blast
  next
    case pay: True
    show ?thesis using minv at
    proof (cases rule: pool_kv.attach_kv_cases)
      case refused
      then have "restore x slot rs cp = Some (False, replicate ?n 0, [], x)" unfolding eq using pay by (simp add: m_def)
      then show ?thesis using that(1) refused(3) act by (simp add: m_def s_def)
    next
      case (ok k' own)
      have m1: "kv m1 = k'" "slots m1 ! nat slot = s\<lparr>phase := (if cur_pos s < prompt_len s then SeqPrefill else SeqDecode)\<rparr>"
        using ok(8) idx by (simp_all add: s_def m_def)
      have v: "pool_view (kv m1) (handle (slots m1 ! nat slot)) = Some (nat (cur_pos s), own)" using ok(6) m1 by (simp add: s_def m_def)
      have shape: "block_size k' = block_size (kv m)" "physical_block_count k' = physical_block_count (kv m)" using kv_frameD(1,2) [OF ok(5)] by simp_all
      note tb = stored_table [OF ok(4) [folded m1(1)] v, folded tbl_def]
      have snap: "st = Ok" "snap_block_table snap = tbl" using tb(1) [of empty_snapshot] sq by auto
      have tbl: "length tbl = ?n" "distinct tbl" "\<forall>b \<in> set tbl. b < blocks_in x" using tb(2-4) shape by (simp_all add: m1(1) m_def)
      have planes: "\<forall>p \<in> set (off_tensors x). plane_ok (off_device x) (blocks_in x) p"
        "length (saved x ! nat slot) = ?n * sum_list (map block_bytes (off_tensors x))" using pay payload_size_iff [OF inv] by auto
      obtain dev where ld: "load_planes (off_tensors x) tbl (saved x ! nat slot) (off_device x) = Some dev" "same_shape (off_device x) dev"
        using load_planes_returns [OF planes(1) tbl(3), of "saved x ! nat slot"] planes(2) tbl(1) by auto
      have x1: "is_active m1 slot" "\<not> parked (slots m1 ! nat slot)" "staged_tokens (slots m1 ! nat slot) = []"
        using act idx sok ok(8) by (auto simp: m1(2) parked_def is_active_def slot_ok_def m_def s_def)
      obtain m2 where de: "detach_kv PoolSlotKv m1 slot = (True, m2)"
        using detach_resident [OF pool_kv.attach_kv_inv [OF minv at] x1] by blast
      show ?thesis
      proof (cases cp)
        case True
        have "restore x slot rs cp = Some (True, map (\<lambda>b. int32_of (int b)) tbl, [],
            x\<lparr>off_slots := m1, off_device := dev, saved := (saved x)[nat slot := []]\<rparr>)"
          unfolding eq using pay ok(1) snap ld(1) True tbl(1) idx act off_invD(3) [OF inv] by (simp add: Let_def discard_def is_active_def m_def)
        then show ?thesis using that(3) [of m1 dev] at ok(1) ld tbl planes(1) unfolding tbl_def by simp
      next
        case False
        have "restore x slot rs cp = Some (False, replicate ?n 0, ''could not allocate KV restore metadata'', x\<lparr>off_slots := m2\<rparr>)"
          unfolding eq using pay ok(1) snap False x1 de by (simp add: Let_def offload_state_def)
        then show ?thesis using that(2) False at ok(1) de by simp
      qed
    qed
  qed
qed

section \<open>Serving with suspended slots\<close>

text \<open>
  What happens to an offload: manager operations, computation on the device (any new contents of the same shape), the offload's own
  operations, and the two engine operations that drop a payload.
\<close>

datatype off_event =
    Manager mgr_event
  | Compute "ggml_tensor list"
  | Suspend int nat "nat option" bool bool
  | Restore int bool bool
  | Discard int
  | EvictKv int token
  | RetireKv int

fun off_exec :: "PagedKvOffload \<Rightarrow> off_event \<Rightarrow> PagedKvOffload option" where
  "off_exec x (Manager e) = Some (x\<lparr>off_slots := mgr_exec PoolSlotKv (off_slots x) e\<rparr>)"
| "off_exec x (Compute dev) = Some (if same_shape (off_device x) dev then x\<lparr>off_device := dev\<rparr> else x)"
| "off_exec x (Suspend slot avail probe cp al) = map_option (snd \<circ> snd) (suspend x slot avail probe cp al)"
| "off_exec x (Restore slot rs cp) = map_option (snd \<circ> snd \<circ> snd) (restore x slot rs cp)"
| "off_exec x (Discard slot) = Some (discard x slot)"
| "off_exec x (EvictKv slot t) = Some (snd (evict_kv x slot t))"
| "off_exec x (RetireKv slot) = Some (retire_kv x slot)"

fun off_run :: "PagedKvOffload \<Rightarrow> off_event list \<Rightarrow> PagedKvOffload option" where
  "off_run x [] = Some x"
| "off_run x (e # es) = (case off_exec x e of None \<Rightarrow> None | Some x' \<Rightarrow> off_run x' es)"

inductive off_reachable :: "PagedKvOffload \<Rightarrow> bool" where
  start: "new_pool n_blocks max_seqs bsize = Some p \<Longrightarrow> max_seqs \<le> u32_max \<Longrightarrow> 0 \<le> ctx \<Longrightarrow> ctx \<le> int_max \<Longrightarrow>
    \<forall>q \<in> set planes. plane_copyable dev (physical_block_count p) q \<Longrightarrow>
    off_reachable (new_offload (new_manager PoolSlotKv p ctx) dev planes)"
| step: "off_reachable x \<Longrightarrow> off_exec x e = Some x' \<Longrightarrow> off_reachable x'"

text \<open>Everything an event does is a sequence of manager operations together with changes of the device and of the payloads.\<close>

definition off_keeps :: "PagedKvOffload \<Rightarrow> PagedKvOffload \<Rightarrow> bool" where
  "off_keeps x x' \<longleftrightarrow> off_inv x' \<and> off_tensors x' = off_tensors x \<and> same_shape (off_device x) (off_device x') \<and>
     blocks_in x' = blocks_in x \<and> block_size (kv (off_slots x')) = block_size (kv (off_slots x))"

fun off_addresses :: "off_event \<Rightarrow> nat \<Rightarrow> bool" where
  "off_addresses (Manager e) i = addresses e i"
| "off_addresses (Compute _) i = False"
| "off_addresses (Suspend j _ _ _ _) i = (j = int i)"
| "off_addresses (Restore j _ _) i = (j = int i)"
| "off_addresses (Discard j) i = (j = int i)"
| "off_addresses (EvictKv j _) i = (j = int i)"
| "off_addresses (RetireKv j) i = (j = int i)"

definition off_left :: "nat \<Rightarrow> PagedKvOffload \<Rightarrow> PagedKvOffload \<Rightarrow> bool" where
  "off_left i x x' \<longleftrightarrow> kept i (off_slots x) (off_slots x') \<and> saved x' ! i = saved x ! i"

lemma off_exec_form:
  assumes inv: "off_inv x"
  shows "\<exists>x' es. off_exec x e = Some x' \<and> off_slots x' = foldl (mgr_exec PoolSlotKv) (off_slots x) es \<and>
    off_tensors x' = off_tensors x \<and> same_shape (off_device x) (off_device x') \<and> length (saved x') = length (saved x) \<and>
    (\<forall>i. \<not> off_addresses e i \<longrightarrow> saved x' ! i = saved x ! i \<and> (\<forall>e' \<in> set es. \<not> addresses e' i))"
proof (cases e)
  case (Manager e')
  then show ?thesis by (auto intro!: exI [of _ "[e']"])
next
  case (Compute dev)
  then show ?thesis by (auto intro!: exI [of _ "[]"])
next
  case (Discard slot)
  then show ?thesis by (auto simp: discard_def intro!: exI [of _ "[]"])
next
  case (EvictKv slot t)
  then show ?thesis by (auto simp: evict_kv_def discard_def Let_def split_beta intro!: exI [of _ "[Evict slot t]"])
next
  case (RetireKv slot)
  then show ?thesis
    by (auto simp: retire_kv_def discard_def Let_def retire_def is_active_def split_beta intro!: exI [of _ "[Retire slot]"])
next
  case (Suspend slot avail probe cp al)
  show ?thesis using inv
  proof (cases rule: suspend_cases [of x slot avail probe cp al])
    case (refused err)
    then show ?thesis using Suspend by (auto intro!: exI [of _ "[]"])
  next
    case (ok m')
    have "m' = mgr_exec PoolSlotKv (off_slots x) (Detach slot)" "is_active (off_slots x) slot"
      using ok(2) by (auto simp: detach_kv_def split: if_splits)
    then show ?thesis using ok(1) Suspend by (auto simp: is_active_def intro!: exI [of _ "[Detach slot]"])
  qed
next
  case (Restore slot rs cp)
  show ?thesis using inv
  proof (cases rule: restore_cases [of x slot rs cp])
    case (refused blocks err)
    then show ?thesis using Restore by (auto intro!: exI [of _ "[]"])
  next
    case (undone blocks err m1 m2)
    then show ?thesis using Restore by (auto intro!: exI [of _ "[Attach slot, Detach slot]"])
  next
    case (ok m1 dev)
    have "is_active (off_slots x) slot" using ok(2) by (auto simp: attach_kv_def split: if_splits)
    then show ?thesis using ok(1-3) Restore by (auto simp: is_active_def intro!: exI [of _ "[Attach slot]"])
  qed
qed

lemma mgr_run_inv: "pool_mgr_inv m \<Longrightarrow> pool_mgr_inv (foldl (mgr_exec PoolSlotKv) m es)"
  by (induction es arbitrary: m) (auto intro: pool_kv.mgr_exec_inv)

lemma mgr_run_shape:
  assumes "pool_mgr_inv m"
  shows "kv_shape PoolSlotKv (kv (foldl (mgr_exec PoolSlotKv) m es)) = kv_shape PoolSlotKv (kv m)"
  using assms
proof (induction es arbitrary: m)
  case (Cons e es)
  then show ?case using Cons.IH [OF pool_kv.mgr_exec_inv [OF Cons.prems, of e]] pool_kv.keeps_exec [of m e] mgr_invD(1) [OF Cons.prems]
    by (simp add: pool_kv.keeps_def)
qed simp

lemma mgr_run_kept:
  assumes "i < length (slots m)" "slot_active (slots m ! i)" "\<forall>e \<in> set es. \<not> addresses e i"
  shows "kept i m (foldl (mgr_exec PoolSlotKv) m es)"
  using assms
proof (induction es arbitrary: m)
  case (Cons e es)
  have k: "kept i m (mgr_exec PoolSlotKv m e)" by (rule kept_exec) (use Cons.prems in auto)
  then show ?case using Cons.IH [of "mgr_exec PoolSlotKv m e"] Cons.prems by (simp add: kept_def)
qed simp

lemma off_exec_keeps:
  assumes inv: "off_inv x"
  obtains x' where "off_exec x e = Some x'" "off_keeps x x'" "length (slots (off_slots x')) = length (slots (off_slots x))"
    "\<And>i. i < length (slots (off_slots x)) \<Longrightarrow> slot_active (slots (off_slots x) ! i) \<Longrightarrow> \<not> off_addresses e i \<Longrightarrow> off_left i x x'"
proof -
  from off_exec_form [OF inv, of e] obtain x' es where f: "off_exec x e = Some x'" "off_slots x' = foldl (mgr_exec PoolSlotKv) (off_slots x) es"
    "off_tensors x' = off_tensors x" "same_shape (off_device x) (off_device x')" "length (saved x') = length (saved x)"
    "\<And>i. \<not> off_addresses e i \<Longrightarrow> saved x' ! i = saved x ! i \<and> (\<forall>e' \<in> set es. \<not> addresses e' i)" by blast
  note minv = off_invD(1) [OF inv]
  have len: "length (slots (foldl (mgr_exec PoolSlotKv) m es)) = length (slots m)" for m
    by (induction es arbitrary: m) (auto simp: mgr_exec_length)
  show ?thesis
  proof (rule that [OF f(1)])
    show "off_keeps x x'" unfolding off_keeps_def off_inv_def
      using f(2-5) mgr_run_inv [OF minv, of es] mgr_run_shape [OF minv, of es] off_invD(3,4) [OF inv] same_shapeD(1) [OF f(4)] len
      plane_copyable_shape [OF f(4)]
      by auto
    show "length (slots (off_slots x')) = length (slots (off_slots x))" using f(2) len by simp
  qed (use f(2,6) mgr_run_kept minv in \<open>auto simp: off_left_def\<close>)
qed

end
