(* ===== verification/Qwen_Host_Engine.thy ===== *)
theory Qwen_Host_Engine
  imports Sched_Loop Paged_Kv_Offload_Inv
begin

text \<open>
  The host side of the Qwen engine as the scheduler drives it (\<open>qwen35/concurrency/qwen35_seq_engine.h\<close> and \<open>.cpp\<close>): the step limits,
  the reservation of a step's decode growth with its speculative chains, and parking, resuming and retiring a slot. The forward pass runs on the GPU: its outputs, the device after
  it and the slot-manager calls it makes are an argument. So are the answers of the memory probe and of the allocator, by the number of the call. The
  slot-local recurrent, draft and image state is not modelled.
\<close>

record QwenConfig =
  fixed_chain_ready :: bool
  fixed_chain_width :: int
  batched_draft_width :: int
  sampled_verify :: bool
  max_prefills :: int
  mixed_prefill_tokens :: int
  long_mixed_prefill_tokens :: int
  long_prefill_threshold :: int
  idle_prefill_tokens :: int
  prefill_quantum :: int
  block_table_shape :: "(nat \<times> nat) option"

record QwenEngine =
  q_offload :: PagedKvOffload
  q_calls :: nat

text \<open>What a forward pass does to the host: its result, the slot-manager operations in order, and the device.\<close>

record QwenEnv =
  host_memory :: "nat \<Rightarrow> nat option"
  copies :: "nat \<Rightarrow> bool"
  allocates :: "nat \<Rightarrow> bool"
  forward :: "QwenEngine \<Rightarrow> StepPlan \<Rightarrow> StepResult \<times> mgr_event list \<times> ggml_tensor list"

abbreviation q_slots :: "QwenEngine \<Rightarrow> PagedKvPool SeqSlotManager" where
  "q_slots g \<equiv> off_slots (q_offload g)"

definition qwen_step_plan_limits :: "QwenConfig \<Rightarrow> QwenEngine \<Rightarrow> int \<Rightarrow> StepPlanLimits" where
  "qwen_step_plan_limits cfg g decode_rows =
     (let mixed = decode_rows > 0; per_sequence = (if mixed then 512 else 2048);
          total_cap = (if mixed
            then if has_prefill_prompt_at_least (q_slots g) (long_prefill_threshold cfg)
                 then max (mixed_prefill_tokens cfg) (long_mixed_prefill_tokens cfg) else mixed_prefill_tokens cfg
            else idle_prefill_tokens cfg) in
      \<lparr>max_prefill_sequences = max_prefills cfg, max_prefill_tokens_per_sequence = per_sequence,
       max_prefill_tokens_total = min (max_prefills cfg * per_sequence) total_cap, prefill_allocation_quantum = prefill_quantum cfg\<rparr>)"

section \<open>The reservation\<close>

definition chain_sampler_spec_capable :: "SamplerCfg \<Rightarrow> bool \<Rightarrow> bool" where
  "chain_sampler_spec_capable c verify \<longleftrightarrow> (if \<not> needs_logit_processing c then True else verify \<and> constraint c = None)"

definition chain_spec_input_capable :: "QwenConfig \<Rightarrow> QwenEngine \<Rightarrow> StepInput \<Rightarrow> int \<Rightarrow> bool" where
  "chain_spec_input_capable cfg g input width \<longleftrightarrow>
     (if \<not> fixed_chain_ready cfg \<or> \<not> allow_speculation input \<or> in_slot input < 0 \<or> in_slot input \<ge> int (length (slots (q_slots g))) then False
      else let s = slots (q_slots g) ! nat (in_slot input) in
        phase s = SeqDecode \<and> chain_sampler_spec_capable (sampler s) (sampled_verify cfg) \<and> cur_pos s \<ge> 1 \<and>
        cur_pos s + (if width > 0 then width else fixed_chain_width cfg) \<le> max_ctx (q_slots g))"

definition select_chain_lanes :: "QwenConfig \<Rightarrow> QwenEngine \<Rightarrow> StepPlan \<Rightarrow> bool list" where
  "select_chain_lanes cfg g plan =
     (if plan_prefills plan \<noteq> [] then map (\<lambda>_. False) (plan_decode plan)
      else let batched = map (\<lambda>i. chain_spec_input_capable cfg g i (batched_draft_width cfg)) (plan_decode plan) in
        if batched_draft_width cfg > 0 \<and> length (filter id batched) \<ge> 2 then batched
        else map (\<lambda>i. chain_spec_input_capable cfg g i 0) (plan_decode plan))"

definition chain_draft_width :: "QwenConfig \<Rightarrow> bool list \<Rightarrow> int" where
  "chain_draft_width cfg selected =
     (if batched_draft_width cfg > 0 \<and> length (filter id selected) \<ge> 2 then batched_draft_width cfg else fixed_chain_width cfg)"

text \<open>The loop that fills the growth of each slot; \<open>None\<close> is its \<open>return false\<close>.\<close>

fun fill_growth :: "int \<Rightarrow> (StepInput \<times> bool) list \<Rightarrow> int list \<Rightarrow> int list option" where
  "fill_growth width [] growth = Some growth"
| "fill_growth width ((i, chain) # rest) growth =
     (if in_slot i < 0 \<or> in_slot i \<ge> int (length growth) \<or> growth ! nat (in_slot i) \<noteq> 0 then None
      else fill_growth width rest (growth[nat (in_slot i) := (if chain then width else 1)]))"

definition qwen_reserve_decode :: "QwenConfig \<Rightarrow> QwenEngine \<Rightarrow> StepPlan \<Rightarrow> bool \<times> QwenEngine" where
  "qwen_reserve_decode cfg g plan =
     (let chains = select_chain_lanes cfg g plan; width = chain_draft_width cfg chains in
      case fill_growth width (zip (plan_decode plan) chains) (replicate (length (slots (q_slots g))) 0) of
        None \<Rightarrow> (False, g)
      | Some growth \<Rightarrow>
          let (ok, m) = reserve_decode PoolSlotKv (q_slots g) growth in (ok, g\<lparr>q_offload := (q_offload g)\<lparr>off_slots := m\<rparr>\<rparr>))"

section \<open>Parking and resuming\<close>

definition qwen_offload_kv :: "QwenEnv \<Rightarrow> QwenEngine \<Rightarrow> int \<Rightarrow> nat \<Rightarrow> (bool \<times> string \<times> QwenEngine) option" where
  "qwen_offload_kv env g slot bytes =
     (case suspend (q_offload g) slot bytes (host_memory env (q_calls g)) (copies env (q_calls g)) (allocates env (q_calls g)) of
        None \<Rightarrow> None
      | Some (ok, e, x) \<Rightarrow> Some (ok, e, g\<lparr>q_offload := x, q_calls := Suc (q_calls g)\<rparr>))"

definition upload_block_table_delta :: "QwenConfig \<Rightarrow> int \<Rightarrow> int \<Rightarrow> nat \<Rightarrow> bool" where
  "upload_block_table_delta cfg slot first_block n =
     (if n = 0 then True
      else case block_table_shape cfg of
        None \<Rightarrow> False
      | Some (columns, rows) \<Rightarrow> \<not> (slot < 0 \<or> slot \<ge> int rows \<or> first_block < 0 \<or> first_block + int n > int columns))"

definition qwen_restore_kv :: "QwenConfig \<Rightarrow> QwenEnv \<Rightarrow> QwenEngine \<Rightarrow> int \<Rightarrow> (bool \<times> string \<times> QwenEngine) option" where
  "qwen_restore_kv cfg env g slot =
     (if is_active (q_slots g) slot \<and> phase (slots (q_slots g) ! nat slot) = SeqRecompute
      then let (ok, m) = resume_recompute PoolSlotKv (q_slots g) slot in
        Some (ok, [], g\<lparr>q_offload := (q_offload g)\<lparr>off_slots := m\<rparr>\<rparr>)
      else case restore (q_offload g) slot (allocates env (q_calls g)) (copies env (q_calls g)) of
        None \<Rightarrow> None
      | Some (ok, blocks, e, x) \<Rightarrow>
          let g' = g\<lparr>q_offload := x, q_calls := Suc (q_calls g)\<rparr> in
          if \<not> ok then Some (False, e, g')
          else if \<not> upload_block_table_delta cfg slot 0 (length blocks)
          then Some (False, ''restored Qwen KV block table exceeds device capacity'', g')
          else Some (True, [], g'))"

definition qwen_evict_kv :: "QwenEngine \<Rightarrow> int \<Rightarrow> token \<Rightarrow> bool \<times> string \<times> QwenEngine" where
  "qwen_evict_kv g slot pending_token =
     (let (ok, x) = evict_kv (q_offload g) slot pending_token in
      (ok, if ok then [] else ''slot history cannot be re-prefilled within the paged KV pool'', g\<lparr>q_offload := x\<rparr>))"

definition qwen_retire :: "QwenEngine \<Rightarrow> int \<Rightarrow> QwenEngine" where
  "qwen_retire g slot = g\<lparr>q_offload := retire_kv (q_offload g) slot\<rparr>"

section \<open>The forward pass\<close>

text \<open>A pass drives the slots by these operations only.\<close>

fun step_event :: "mgr_event \<Rightarrow> bool" where
  "step_event (Prefill _ _) = True"
| "step_event (SeedPrefix _ _) = True"
| "step_event (CommitPrefill _) = True"
| "step_event (StepTokens _ _) = True"
| "step_event (CommitStep _) = True"
| "step_event (RollbackStep _) = True"
| "step_event _ = False"

definition qwen_step :: "QwenEnv \<Rightarrow> QwenEngine \<Rightarrow> StepPlan \<Rightarrow> StepResult \<times> QwenEngine" where
  "qwen_step env g plan =
     (let (r, events, dev) = forward env g plan; x = q_offload g in
      (r, g\<lparr>q_offload := x\<lparr>off_slots := foldl (mgr_exec PoolSlotKv) (off_slots x) (filter step_event events),
            off_device := (if same_shape (off_device x) dev then dev else off_device x)\<rparr>\<rparr>))"

definition qwen_engine :: "QwenConfig \<Rightarrow> QwenEnv \<Rightarrow> QwenEngine SeqEngineOps" where
  "qwen_engine cfg env =
     \<lparr>step_plan_limits = qwen_step_plan_limits cfg, engine_step = qwen_step env, engine_reserve_decode = qwen_reserve_decode cfg,
      kv_offload_state = (\<lambda>g. offload_state (q_offload g)), engine_offload_kv = qwen_offload_kv env, engine_restore_kv = qwen_restore_kv cfg env,
      engine_evict_kv = qwen_evict_kv, kv_recomputable = (\<lambda>_ _. True),
      engine_restore_feasible = (\<lambda>g. kv_restore_feasible PoolSlotKv (q_slots g)), engine_retire = qwen_retire,
      max_decode_tokens = (if fixed_chain_ready cfg then fixed_chain_width cfg else 1)\<rparr>"

section \<open>Parked slots\<close>

lemma offload_state_parked:
  "state_parked (offload_state x (int i)) \<longleftrightarrow> i < length (slots (off_slots x)) \<and> parked (slots (off_slots x) ! i)"
  by (auto simp: offload_state_def Let_def is_active_def parked_def)

lemma parked_reserve: "parked (slots (snd (reserve_decode K m growth)) ! i) = parked (slots m ! i)"
  by (auto simp: reserve_decode_def Let_def split: option.splits prod.splits)

lemma parked_put: "parked s = parked (xs ! k) \<Longrightarrow> parked (xs[k := s] ! i) = parked (xs ! i)"
  by (cases "k < length xs"; cases "i = k") (simp_all add: list_update_beyond)

lemma parked_fields:
  "parked (s\<lparr>cur_pos := c\<rparr>) = parked s" "parked (s\<lparr>staged_tokens := ts\<rparr>) = parked s"
  "parked (s\<lparr>sample_history := h\<rparr>) = parked s"
  by (simp_all add: parked_def)

lemma parked_step_event:
  assumes "step_event e"
  shows "parked (slots (mgr_exec K m e) ! i) = parked (slots m ! i)"
proof -
  have pre: "parked (slots (snd (append_prefill K m j n)) ! i) = parked (slots m ! i)" for j n
    by (auto simp: append_prefill_def Let_def parked_fields intro!: parked_put split: prod.splits)
  show ?thesis
  proof (cases e)
    case (SeedPrefix j n)
    then show ?thesis using pre by (simp add: seed_restored_prefix_def)
  next
    case (CommitPrefill j)
    have "is_prefilling m j \<Longrightarrow> parked ((slots m ! nat j)\<lparr>phase := SeqDecode\<rparr>) = parked (slots m ! nat j)"
      by (simp add: is_prefilling_def parked_def)
    then show ?thesis using CommitPrefill by (auto simp: commit_prefill_def Let_def intro!: parked_put)
  next
    case (StepTokens j ts)
    then show ?thesis by (auto simp: append_tokens_def Let_def parked_fields intro!: parked_put split: prod.splits)
  next
    case (CommitStep j)
    then show ?thesis by (auto simp: commit_step_def Let_def parked_fields intro!: parked_put)
  next
    case (RollbackStep j)
    then show ?thesis by (auto simp: rollback_step_def Let_def parked_fields intro!: parked_put split: prod.splits)
  qed (use assms pre in simp_all)
qed

lemma parked_step_run:
  "\<forall>e \<in> set es. step_event e \<Longrightarrow> parked (slots (foldl (mgr_exec K) m es) ! i) = parked (slots m ! i)"
  by (induction es arbitrary: m) (simp_all add: parked_step_event)

lemma length_run: "length (slots (foldl (mgr_exec K) m es)) = length (slots m)"
  by (induction es arbitrary: m) (simp_all add: mgr_exec_length)

lemma parked_detach:
  assumes "detach_kv K m (int i) = (ok, m')"
  shows "length (slots m') = length (slots m)" "j \<noteq> i \<Longrightarrow> slots m' ! j = slots m ! j" "ok \<Longrightarrow> i < length (slots m) \<and> parked (slots m' ! i)"
    "\<not> ok \<Longrightarrow> slots m' = slots m"
  using assms by (auto simp: detach_kv_def Let_def is_active_def parked_def split: if_splits prod.splits)

lemma parked_evict:
  assumes "evict_for_recompute K m (int i) t = (ok, m')"
  shows "length (slots m') = length (slots m)" "j \<noteq> i \<Longrightarrow> slots m' ! j = slots m ! j" "ok \<Longrightarrow> i < length (slots m) \<and> parked (slots m' ! i)"
    "\<not> ok \<Longrightarrow> slots m' = slots m"
  using assms by (auto simp: evict_for_recompute_def Let_def is_active_def parked_def split: if_splits prod.splits)

lemma parked_retire:
  "length (slots (retire K m (int i))) = length (slots m)" "j \<noteq> i \<Longrightarrow> slots (retire K m (int i)) ! j = slots m ! j"
  "i < length (slots m) \<Longrightarrow> \<not> parked (slots (retire K m (int i)) ! i)"
  by (auto simp: retire_def Let_def parked_def fresh_slot_def split: prod.splits)

end
