(* ===== verification/Paged_Kv_Offload_Props.thy ===== *)
theory Paged_Kv_Offload_Props
  imports Paged_Kv_Offload_Inv
begin

text \<open>
  What a suspended request can rely on: its KV contents come back whatever the other requests did in the meantime, and
  a refused suspension or restoration has changed nothing.
\<close>

section \<open>Reachable states\<close>

lemma off_reachable_inv: "off_reachable x \<Longrightarrow> off_inv x"
proof (induction rule: off_reachable.induct)
  case (start n_blocks max_seqs bsize p ctx planes dev)
  then show ?case using mgr_reachable_inv [OF mgr_reachable.start [OF start(1-4)]]
    by (auto simp: off_inv_def new_offload_def new_manager_def)
next
  case (step x e x')
  then show ?case using off_exec_keeps [of x e] by (metis off_keeps_def option.inject)
qed

lemma off_run_keeps:
  assumes "off_inv x" "i < length (slots (off_slots x))" "slot_active (slots (off_slots x) ! i)" "\<forall>e \<in> set es. \<not> off_addresses e i"
  shows "\<exists>x'. off_run x es = Some x' \<and> off_keeps x x' \<and> off_left i x x'"
  using assms
proof (induction es arbitrary: x)
  case Nil
  then show ?case by (simp add: off_keeps_def off_left_def)
next
  case (Cons e es)
  obtain x1 where x1: "off_exec x e = Some x1" "off_keeps x x1" "length (slots (off_slots x1)) = length (slots (off_slots x))" "off_left i x x1"
    using off_exec_keeps [OF Cons.prems(1), of e] Cons.prems by (metis list.set_intros(1))
  have "slots (off_slots x1) ! i = slots (off_slots x) ! i" using x1(4) by (simp add: off_left_def kept_def)
  then obtain x2 where "off_run x1 es = Some x2" "off_keeps x1 x2" "off_left i x1 x2"
    using Cons.IH [of x1] x1(2,3) Cons.prems by (auto simp: off_keeps_def)
  then show ?case using x1 same_shape_trans by (auto simp: off_keeps_def off_left_def kept_def)
qed

section \<open>The layouts of the engines\<close>

lemma qwen_planes_apart:
  assumes "distinct (attn_k @ attn_v)" "\<forall>t \<in> set (attn_k @ attn_v). n * (bsize * nb1 (dev ! t)) \<le> nb2 (dev ! t)"
  shows "sorted_wrt (planes_apart n) (qwen_paged_kv_planes dev attn_k attn_v bsize)"
  using assms unfolding qwen_paged_kv_planes_def
proof (induction "attn_k @ attn_v" arbitrary: attn_k attn_v)
  case (Cons t ts)
  let ?heads = "\<lambda>t. map (\<lambda>head. \<lparr>plane_tensor = Some t, plane_offset = head * nb2 (dev ! t), block_bytes = bsize * nb1 (dev ! t)\<rparr>) [0..<ne2 (dev ! t)]"
  have "sorted_wrt (planes_apart n) (concat (map ?heads ([] @ ts)))" by (rule Cons(1)) (use Cons(2-4) in \<open>auto simp flip: Cons(2)\<close>)
  moreover have "sorted_wrt (planes_apart n) (?heads t)"
  proof -
    have "n * (bsize * nb1 (dev ! t)) \<le> nb2 (dev ! t)" using Cons(4) by (simp flip: Cons(2))
    then have "h * nb2 (dev ! t) + n * (bsize * nb1 (dev ! t)) \<le> h' * nb2 (dev ! t)" if "h < h'" for h h'
      using block_inside [OF that, of "nb2 (dev ! t)"] by simp
    then show ?thesis unfolding sorted_wrt_map by (intro sorted_wrt_mono_rel [OF _ sorted_wrt_upt]) (simp add: planes_apart_def apart_def)
  qed
  ultimately show ?case using Cons(3) by (auto simp: sorted_wrt_append planes_apart_def apart_def simp flip: Cons(2))
qed simp

section \<open>Restoring a payload\<close>

lemma restore_writes_payload:
  assumes inv: "off_inv x" and i: "i < length (slots (off_slots x))" and ph: "slots (off_slots x) ! i = s\<lparr>phase := SeqSuspended\<rparr>"
    and payload: "saved x ! i = concat (map (\<lambda>p. concat (chunks p)) (off_tensors x))"
    and planes: "\<forall>p \<in> set (off_tensors x). plane_ok (off_device x) (blocks_in x) p"
    and chunks: "\<forall>p \<in> set (off_tensors x).
      length (chunks p) = ceil_div (nat (cur_pos s)) (block_size (kv (off_slots x))) \<and>
      (\<forall>c \<in> set (chunks p). length c = block_bytes p)"
    and small: "length (saved x ! i) \<le> size_max" and apart: "sorted_wrt (planes_apart (blocks_in x)) (off_tensors x)"
    and room: "ceil_div (resume_token_capacity PoolSlotKv (off_slots x) (slots (off_slots x) ! i)) (block_size (kv (off_slots x)))
       \<le> free_block_count (kv (off_slots x))"
  shows "\<exists>x'. restore x (int i) True True = Some (True, map (\<lambda>b. int32_of (int b)) (table_of (off_slots x') i), [], x') \<and>
    (\<forall>p \<in> set (off_tensors x). map (plane_block (off_device x') p) (table_of (off_slots x') i) = chunks p) \<and>
    untouched (off_tensors x) (table_of (off_slots x') i) (off_device x) (off_device x') \<and>
    slots (off_slots x') ! i = s\<lparr>phase := (if cur_pos s < prompt_len s then SeqPrefill else SeqDecode)\<rparr> \<and>
    saved x' ! i = []"
  using inv
proof (cases rule: restore_cases [of x "int i" True True])
  case (refused blocks e)
  have "length (concat (chunks p)) = ceil_div (nat (cur_pos s)) (block_size (kv (off_slots x))) * block_bytes p"
    if "p \<in> set (off_tensors x)" for p using chunks that chunk_bytes by metis
  then have "length (saved x ! i) = ceil_div (nat (cur_pos s)) (block_size (kv (off_slots x))) *
      sum_list (map block_bytes (off_tensors x))"
    unfolding payload by (intro planes_bytes) blast
  then show ?thesis using refused(2) room ph i planes small payload_size_iff [OF inv] by (simp add: is_active_def)
next
  case (undone blocks e m1 m2)
  then show ?thesis by simp
next
  case (ok m1 dev)
  let ?u = "table_of m1 i"
  have "\<exists>dev'. load_planes (off_tensors x) ?u (saved x ! i) (off_device x) = Some dev' \<and> same_shape (off_device x) dev' \<and>
      (\<forall>p \<in> set (off_tensors x). map (plane_block dev' p) ?u = chunks p) \<and> untouched (off_tensors x) ?u (off_device x) dev'"
    unfolding payload by (rule load_planes_value [OF planes apart]) (use ok(6-8) chunks ph in auto)
  then have "\<forall>p \<in> set (off_tensors x). map (plane_block dev p) ?u = chunks p" "untouched (off_tensors x) ?u (off_device x) dev"
    using ok(4) by auto
  moreover have "slots m1 ! i = s\<lparr>phase := (if cur_pos s < prompt_len s then SeqPrefill else SeqDecode)\<rparr>"
    using off_invD(1) [OF inv] ok(2) by (cases rule: pool_kv.attach_kv_cases) (use i ph in auto)
  ultimately show ?thesis using ok(1) i off_invD(3) [OF inv] by simp
qed

section \<open>Properties\<close>

text \<open>
  C39. A suspended request gets its KV contents back. After a successful suspension of slot \<open>i\<close>, let the engine serve, suspend and
  restore other slots, reuse the freed blocks and overwrite the device as it likes: nothing of this aborts, and once the pool has the blocks for
  it, \<open>restore\<close> succeeds, returns the new block table, and every plane holds in each block of the new table exactly the bytes it held in the same
  logical block before. No byte outside these blocks changes, the slot's record is back with its position and history, and the
  payload is dropped. The planes of the layout must not overlap and their tensors are allocated without a stride gap inside a block, as the engines
  lay them out over contiguous caches; the code does not check the strides itself.
\<close>

theorem suspend_restore_roundtrip:
  assumes reach: "off_reachable x" and sus: "suspend x (int i) avail probe cp al = Some (True, e, x1)"
    and others: "\<forall>ev \<in> set es. \<not> off_addresses ev i"
    and planes: "sorted_wrt (planes_apart (physical_block_count (kv (off_slots x)))) (off_tensors x)"
  shows "\<exists>x2. off_run x1 es = Some x2 \<and>
    (ceil_div (resume_token_capacity PoolSlotKv (off_slots x2) (slots (off_slots x2) ! i)) (block_size (kv (off_slots x2)))
       \<le> free_block_count (kv (off_slots x2)) \<longrightarrow>
     (\<exists>x3. restore x2 (int i) True True = Some (True, map (\<lambda>b. int32_of (int b)) (table_of (off_slots x3) i), [], x3) \<and>
        (\<forall>p \<in> set (off_tensors x). map (plane_block (off_device x3) p) (table_of (off_slots x3) i) =
           map (plane_block (off_device x) p) (table_of (off_slots x) i)) \<and>
        untouched (off_tensors x) (table_of (off_slots x3) i) (off_device x2) (off_device x3) \<and>
        slots (off_slots x3) ! i = (slots (off_slots x) ! i)\<lparr>phase :=
          (if cur_pos (slots (off_slots x) ! i) < prompt_len (slots (off_slots x) ! i) then SeqPrefill else SeqDecode)\<rparr> \<and>
        saved x3 ! i = []))"
proof -
  note inv = off_reachable_inv [OF reach]
  let ?m = "off_slots x" let ?t = "table_of (off_slots x) i" let ?s = "slots (off_slots x) ! i"
  from inv obtain m' where x1: "x1 = x\<lparr>off_slots := m', saved := (saved x)[i := payload_of x ?t]\<rparr>"
      and de: "detach_kv PoolSlotKv ?m (int i) = (True, m')"
      and planes_ok: "\<forall>p \<in> set (off_tensors x). plane_ok (off_device x) (blocks_in x) p"
      and sz: "length (payload_of x ?t) \<le> size_max"
      and len: "length ?t = ceil_div (nat (cur_pos ?s)) (block_size (kv ?m))" and tb: "\<forall>b \<in> set ?t. b < blocks_in x"
    by (cases rule: suspend_cases [of x "int i" avail probe cp al]) (use sus in auto)
  have i: "i < length (slots ?m)" "is_active ?m (int i)" using de by (auto simp: detach_kv_def is_active_def split: if_splits)
  have m': "slots m' = (slots ?m)[i := ?s\<lparr>phase := SeqSuspended\<rparr>]"
    using off_invD(1) [OF inv] de by (cases rule: pool_kv.detach_kv_cases) auto
  obtain x1' where e1: "off_exec x (Suspend (int i) avail probe cp al) = Some x1'" "off_keeps x x1'" by (rule off_exec_keeps [OF inv])
  then have k1: "off_keeps x x1" using sus by simp
  obtain x2 where x2: "off_run x1 es = Some x2" "off_keeps x1 x2" "off_left i x1 x2"
    using off_run_keeps [of x1 i es] k1 others i m' by (auto simp: x1 off_keeps_def)
  have inv2: "off_inv x2" and same: "off_tensors x2 = off_tensors x" "blocks_in x2 = blocks_in x"
    "block_size (kv (off_slots x2)) = block_size (kv ?m)" "same_shape (off_device x) (off_device x2)"
    using k1 x2(2) same_shape_trans by (auto simp: off_keeps_def)
  have s2: "slots (off_slots x2) ! i = ?s\<lparr>phase := SeqSuspended\<rparr>" "saved x2 ! i = payload_of x ?t" "i < length (slots (off_slots x2))"
    using x2(3) i m' off_invD(3) [OF inv] by (auto simp: x1 off_left_def kept_def)
  have ok2: "\<forall>p \<in> set (off_tensors x2). plane_ok (off_device x2) (blocks_in x2) p" using planes_ok same plane_ok_shape by metis
  have chunk: "\<forall>p \<in> set (off_tensors x2). length (map (plane_block (off_device x) p) ?t) = ceil_div (nat (cur_pos ?s)) (block_size (kv ?m)) \<and>
      (\<forall>c \<in> set (map (plane_block (off_device x) p) ?t). length c = block_bytes p)"
    using length_plane_block planes_ok tb same(1) len by auto
  have "\<exists>x3. restore x2 (int i) True True = Some (True, map (\<lambda>b. int32_of (int b)) (table_of (off_slots x3) i), [], x3) \<and>
      (\<forall>p \<in> set (off_tensors x). map (plane_block (off_device x3) p) (table_of (off_slots x3) i) = map (plane_block (off_device x) p) ?t) \<and>
      untouched (off_tensors x) (table_of (off_slots x3) i) (off_device x2) (off_device x3) \<and>
      slots (off_slots x3) ! i = ?s\<lparr>phase := (if cur_pos ?s < prompt_len ?s then SeqPrefill else SeqDecode)\<rparr> \<and> saved x3 ! i = []"
    if room: "ceil_div (resume_token_capacity PoolSlotKv (off_slots x2) (slots (off_slots x2) ! i)) (block_size (kv (off_slots x2)))
       \<le> free_block_count (kv (off_slots x2))"
    unfolding same(1) [symmetric]
  proof (rule restore_writes_payload [OF inv2 s2(3,1) _ ok2 _ _ _ room])
    show "saved x2 ! i = concat (map (\<lambda>p. concat (map (plane_block (off_device x) p) ?t)) (off_tensors x2))" unfolding s2(2) same(1) by (rule refl)
    show "\<forall>p \<in> set (off_tensors x2). length (map (plane_block (off_device x) p) ?t) = ceil_div (nat (cur_pos ?s)) (block_size (kv (off_slots x2))) \<and>
        (\<forall>c \<in> set (map (plane_block (off_device x) p) ?t). length c = block_bytes p)" unfolding same(3) by (rule chunk)
    show "length (saved x2 ! i) \<le> size_max" unfolding s2(2) by (rule sz)
    show "sorted_wrt (planes_apart (blocks_in x2)) (off_tensors x2)" unfolding same(1,2) by (rule planes)
  qed
  then show ?thesis using x2(1) by blast
qed

text \<open>
  C40. A refused suspension or restoration has changed nothing, and no payload exceeds its budgets. In every reachable state, over allocated tensors in which no block
  crosses a stride gap, both calls return; a
  suspension that reports failure leaves the whole state as it was, one that succeeds keeps no more bytes than the caller's budget and a quarter of
  the free host memory; a restoration that fails keeps the payload, the device and the slots, and every sequence of the pool keeps its length and its blocks' number.
\<close>

theorem refused_offload_changes_nothing:
  assumes reach: "off_reachable x"
  shows "(\<exists>r e x'. suspend x slot avail probe cp al = Some (r, e, x') \<and> (\<not> r \<longrightarrow> x' = x) \<and>
      (r \<longrightarrow> length (saved x' ! nat slot) \<le> avail \<and> (\<forall>a. probe = Some a \<longrightarrow> 4 * length (saved x' ! nat slot) \<le> a))) \<and>
    (\<exists>r blocks e x'. restore x slot rs cp' = Some (r, blocks, e, x') \<and>
      (\<not> r \<longrightarrow> saved x' = saved x \<and> off_device x' = off_device x \<and> slots (off_slots x') = slots (off_slots x) \<and>
         (\<forall>h. pool_view (kv (off_slots x')) h = pool_view (kv (off_slots x)) h)))"
proof (intro conjI)
  note inv = off_reachable_inv [OF reach]
  from inv show "\<exists>r e x'. suspend x slot avail probe cp al = Some (r, e, x') \<and> (\<not> r \<longrightarrow> x' = x) \<and>
      (r \<longrightarrow> length (saved x' ! nat slot) \<le> avail \<and> (\<forall>a. probe = Some a \<longrightarrow> 4 * length (saved x' ! nat slot) \<le> a))"
  proof (cases rule: suspend_cases [of x slot avail probe cp al])
    case (ok m')
    have "nat slot < length (saved x)" using ok(2) off_invD(3) [OF inv] by (auto simp: detach_kv_def is_active_def split: if_splits)
    then have "(saved x)[nat slot := payload_of x (table_of (off_slots x) (nat slot))] ! nat slot = payload_of x (table_of (off_slots x) (nat slot))" by simp
    moreover have "\<forall>a. probe = Some a \<longrightarrow> 4 * length (payload_of x (table_of (off_slots x) (nat slot))) \<le> a" using ok(5) by fastforce
    ultimately show ?thesis unfolding ok(1) using ok(4) by (intro exI [of _ True]) (simp del: length_concat)
  qed auto
  from inv show "\<exists>r blocks e x'. restore x slot rs cp' = Some (r, blocks, e, x') \<and>
      (\<not> r \<longrightarrow> saved x' = saved x \<and> off_device x' = off_device x \<and> slots (off_slots x') = slots (off_slots x) \<and>
         (\<forall>h. pool_view (kv (off_slots x')) h = pool_view (kv (off_slots x)) h))"
  proof (cases rule: restore_cases [of x slot rs cp'])
    case (undone blocks e m1 m2)
    let ?s = "slots (off_slots x) ! nat slot"
    note minv = off_invD(1) [OF inv]
    have inv1: "pool_mgr_inv m1" by (rule pool_kv.attach_kv_inv [OF minv undone(3)])
    from minv undone(3) obtain k1 where at: "is_active (off_slots x) slot" "phase ?s = SeqSuspended"
        "kv_frame PoolSlotKv pool_view (kv (off_slots x)) (handle ?s) k1"
        "m1 = off_slots x\<lparr>kv := k1, slots := (slots (off_slots x))[nat slot := ?s\<lparr>phase := (if cur_pos ?s < prompt_len ?s then SeqPrefill else SeqDecode)\<rparr>]\<rparr>"
      by (cases rule: pool_kv.attach_kv_cases) auto
    have idx: "nat slot < length (slots (off_slots x))" using at(1) by (auto simp: is_active_def)
    from inv1 undone(4) obtain k2 where de: "kv_clear PoolSlotKv k1 (handle ?s) = (Ok, k2)"
        "m2 = m1\<lparr>kv := k2, slots := (slots m1)[nat slot := (slots m1 ! nat slot)\<lparr>phase := SeqSuspended\<rparr>]\<rparr>" "pool_mgr_inv m2"
      by (cases rule: pool_kv.detach_kv_cases) (use at(4) idx in auto)
    have ph: "?s\<lparr>phase := SeqSuspended\<rparr> = ?s" using at(2) by simp
    have sl: "slots m2 = slots (off_slots x)" using de(2) at(4) idx ph by simp
    have fr: "kv_frame PoolSlotKv pool_view k1 (handle ?s) k2"
      using pool_kv.clear_frame [OF _ de(1)] mgr_invD(1) [OF inv1] at(4) by simp
    have own: "pool_view (kv m2) (handle ?s) = Some (0, 0)" "pool_view (kv (off_slots x)) (handle ?s) = Some (0, 0)"
      using manager_slot_ok [OF de(3), of "nat slot"] manager_slot_ok [OF minv idx] idx at(2) sl by (auto simp: slot_ok_def)
    have "pool_view (kv m2) h = pool_view (kv (off_slots x)) h" for h
      using own kv_frameD(4) [OF fr] kv_frameD(4) [OF at(3)] de(2) by (cases "h = handle ?s") auto
    then show ?thesis using undone(1) sl by auto
  qed auto
qed

section \<open>Two requests on a small device\<close>

text \<open>
  A pool of six blocks of two tokens, a layer with two heads, and two requests. The first is suspended, the second goes on
  and the device is overwritten before the first comes back.
\<close>

definition demo_device :: "nat \<Rightarrow> ggml_tensor list" where
  "demo_device n = (let t = \<lparr>type_size = 1, blck_size = 1, ne0 = 1, ne1 = 12, ne2 = 2, ne3 = 1, nb0 = 1, nb1 = 1, nb2 = 12, nb3 = 24,
     has_buffer = True, has_data = True, contents = map (\<lambda>i. of_nat (n + i)) [0..<24]\<rparr> in [t, t])"

definition demo_offload :: PagedKvOffload where
  "demo_offload = new_offload (new_manager PoolSlotKv (the (new_pool 6 2 2)) 8) (demo_device 1)
     (qwen_paged_kv_planes (demo_device 1) [0] [1] 2)"

definition demo_served :: "PagedKvOffload option" where
  "demo_served = off_run demo_offload (map Manager
     [Admit 7 [11, 12, 13] default_sampler 5 6, Prefill 0 3, CommitPrefill 0, Admit 8 [21] default_sampler 5 6, Prefill 1 1, CommitPrefill 1])"

definition demo_between :: "off_event list" where
  "demo_between = [Compute (demo_device 100), Manager (StepTokens 1 [22, 23, 24]), Manager (CommitStep 1), Compute (demo_device 200), RetireKv 1]"

lemma off_run_reachable: "off_reachable x \<Longrightarrow> off_run x es = Some x' \<Longrightarrow> off_reachable x'"
  by (induction es arbitrary: x) (auto split: option.splits intro: off_reachable.step)

lemma demo_offload_reachable: "off_reachable demo_offload"
proof -
  have "new_pool 6 2 2 = Some (the (new_pool 6 2 2))" by code_simp
  moreover have "\<forall>q \<in> set (qwen_paged_kv_planes (demo_device 1) [0] [1] 2). plane_copyable (demo_device 1) (physical_block_count (the (new_pool 6 2 2))) q"
  proof (rule ballI)
    have dev: "\<forall>t \<in> {0, 1}. t < length (demo_device 1) \<and> has_buffer (demo_device 1 ! t) \<and> has_data (demo_device 1 ! t) \<and> ggml_is_contiguous (demo_device 1 ! t)"
      by code_simp
    fix q assume "q \<in> set (qwen_paged_kv_planes (demo_device 1) [0] [1] 2)"
    then obtain t where "t \<in> {0, 1}" "plane_tensor q = Some t" by (auto simp: qwen_paged_kv_planes_def)
    then show "plane_copyable (demo_device 1) (physical_block_count (the (new_pool 6 2 2))) q" using dev contiguous_copyable by blast
  qed
  ultimately show ?thesis unfolding demo_offload_def by (intro off_reachable.start) (auto simp: u32_max_def)
qed

lemma demo_served_some: "demo_served = Some (the demo_served)"
  by code_simp

lemma demo_served_reachable: "off_reachable (the demo_served)"
  using off_run_reachable [OF demo_offload_reachable] demo_served_some unfolding demo_served_def by metis

theorem suspend_restore_roundtrip_witness:
  "\<exists>x1 x2 x3 table. suspend (the demo_served) (int 0) 100 (Some 400) True True = Some (True, [], x1) \<and> off_run x1 demo_between = Some x2 \<and>
     off_device x2 = demo_device 200 \<and> restore x2 (int 0) True True = Some (True, table, [], x3) \<and>
     (\<forall>p \<in> set (off_tensors (the demo_served)). map (plane_block (off_device x3) p) (table_of (off_slots x3) 0) =
        map (plane_block (off_device (the demo_served)) p) (table_of (off_slots (the demo_served)) 0))"
proof -
  define x1 where "x1 = snd (snd (the (suspend (the demo_served) (int 0) 100 (Some 400) True True)))"
  define x2 where "x2 = the (off_run x1 demo_between)"
  have s: "suspend (the demo_served) (int 0) 100 (Some 400) True True = Some (True, [], x1)" unfolding x1_def by code_simp
  have others: "\<forall>ev \<in> set demo_between. \<not> off_addresses ev 0" by (simp add: demo_between_def)
  have "distinct ([0] @ [1 :: nat])" "\<forall>t \<in> set ([0] @ [1]). 6 * (2 * nb1 (demo_device 1 ! t)) \<le> nb2 (demo_device 1 ! t)" by code_simp+
  then have "sorted_wrt (planes_apart 6) (qwen_paged_kv_planes (demo_device 1) [0] [1] 2)" by (rule qwen_planes_apart)
  moreover have "off_tensors (the demo_served) = qwen_paged_kv_planes (demo_device 1) [0] [1] 2" "physical_block_count (kv (off_slots (the demo_served))) = 6"
    by code_simp+
  ultimately have planes: "sorted_wrt (planes_apart (physical_block_count (kv (off_slots (the demo_served))))) (off_tensors (the demo_served))" by simp
  have "off_device x2 = demo_device 200" "ceil_div (resume_token_capacity PoolSlotKv (off_slots x2) (slots (off_slots x2) ! 0)) (block_size (kv (off_slots x2)))
       \<le> free_block_count (kv (off_slots x2))" unfolding x2_def x1_def by code_simp+
  note room = this
  from suspend_restore_roundtrip [OF demo_served_reachable s others planes]
  obtain y where y: "off_run x1 demo_between = Some y" and r: "ceil_div (resume_token_capacity PoolSlotKv (off_slots y) (slots (off_slots y) ! 0))
      (block_size (kv (off_slots y))) \<le> free_block_count (kv (off_slots y)) \<longrightarrow> (\<exists>x3.
        restore y (int 0) True True = Some (True, map (\<lambda>b. int32_of (int b)) (table_of (off_slots x3) 0), [], x3) \<and>
        (\<forall>p \<in> set (off_tensors (the demo_served)). map (plane_block (off_device x3) p) (table_of (off_slots x3) 0) =
           map (plane_block (off_device (the demo_served)) p) (table_of (off_slots (the demo_served)) 0)))" by blast
  have "y = x2" using y unfolding x2_def by simp
  with r room(2) obtain x3 where
    x3: "restore x2 (int 0) True True = Some (True, map (\<lambda>b. int32_of (int b)) (table_of (off_slots x3) 0), [], x3)"
      "\<forall>p \<in> set (off_tensors (the demo_served)). map (plane_block (off_device x3) p) (table_of (off_slots x3) 0) =
         map (plane_block (off_device (the demo_served)) p) (table_of (off_slots (the demo_served)) 0)" by blast
  show ?thesis using s y [unfolded \<open>y = x2\<close>] room(1) x3 by blast
qed

theorem refused_offload_changes_nothing_witness:
  "\<exists>e. suspend (the demo_served) 0 7 None True True = Some (False, e, the demo_served) \<and>
     (\<exists>r blocks e x'. restore (the demo_served) 0 True True = Some (r, blocks, e, x') \<and> (\<not> r \<longrightarrow> saved x' = saved (the demo_served)))"
proof -
  have "\<not> fst (the (suspend (the demo_served) 0 7 None True True))" by code_simp
  then show ?thesis
    using refused_offload_changes_nothing [OF demo_served_reachable, of 0 7 None True True True True] by fastforce
qed

end
