(* ===== verification/Qwen_Engine_Contract.thy ===== *)
theory Qwen_Engine_Contract
  imports Sched_Room Qwen_Host_Engine Paged_Kv_Offload_Props
begin

text \<open>
  The Qwen engine keeps the engine contract of the scheduler: what its calls do to the parked slots, and the rounds that make room on it.
\<close>

section \<open>The laws\<close>

abbreviation q_good :: "QwenEngine \<Rightarrow> bool" where
  "q_good g \<equiv> off_inv (q_offload g)"

lemma q_parked:
  "is_parked (qwen_engine cfg env) g i \<longleftrightarrow> i < length (slots (q_slots g)) \<and> parked (slots (q_slots g) ! i)"
  by (simp add: qwen_engine_def offload_state_parked)

lemma off_inv_exec: "off_inv x \<Longrightarrow> off_exec x e = Some x' \<Longrightarrow> off_inv x'"
  by (metis off_exec_keeps off_keeps_def option.inject)

lemma qwen_reserve_law:
  assumes "q_good g" "qwen_reserve_decode cfg g plan = (b, g')"
  shows "q_good g' \<and> (\<forall>j. is_parked (qwen_engine cfg env) g' j = is_parked (qwen_engine cfg env) g j)"
proof (cases "fill_growth (chain_draft_width cfg (select_chain_lanes cfg g plan)) (zip (plan_decode plan) (select_chain_lanes cfg g plan))
    (replicate (length (slots (q_slots g))) 0)")
  case None
  then show ?thesis using assms by (simp add: qwen_reserve_decode_def Let_def)
next
  case (Some growth)
  let ?m = "snd (reserve_decode PoolSlotKv (q_slots g) growth)"
  have g': "g' = g\<lparr>q_offload := (q_offload g)\<lparr>off_slots := ?m\<rparr>\<rparr>" using assms(2) Some by (simp add: qwen_reserve_decode_def Let_def split_beta)
  have m: "?m = mgr_exec PoolSlotKv (q_slots g) (ReserveDecode growth)" by simp
  have "off_inv ((q_offload g)\<lparr>off_slots := ?m\<rparr>)" using off_inv_exec [OF assms(1), of "Manager (ReserveDecode growth)"] by simp
  moreover have "length (slots ?m) = length (slots (q_slots g))" unfolding m by (rule mgr_exec_length)
  ultimately show ?thesis by (simp add: g' q_parked parked_reserve)
qed

lemma qwen_offload_law:
  assumes "q_good g"
  obtains acted e x where "qwen_offload_kv env g (int i) bytes = Some (acted, e, g\<lparr>q_offload := x, q_calls := Suc (q_calls g)\<rparr>)" "off_inv x"
    "\<And>j. (j < length (slots (off_slots x)) \<and> parked (slots (off_slots x) ! j)) \<longleftrightarrow>
      (j < length (slots (q_slots g)) \<and> parked (slots (q_slots g) ! j)) \<or> (acted \<and> j = i)"
proof -
  let ?x = "q_offload g" let ?probe = "host_memory env (q_calls g)" let ?cp = "copies env (q_calls g)" let ?al = "allocates env (q_calls g)"
  show ?thesis using assms
  proof (cases rule: suspend_cases [of ?x "int i" bytes ?probe ?cp ?al])
    case (refused e)
    then show ?thesis using that [of False e ?x] assms by (simp add: qwen_offload_kv_def)
  next
    case (ok m')
    let ?x' = "?x\<lparr>off_slots := m', saved := (saved ?x)[nat (int i) := payload_of ?x (table_of (off_slots ?x) (nat (int i)))]\<rparr>"
    have inv: "off_inv ?x'" using off_inv_exec [OF assms, of "Suspend (int i) bytes ?probe ?cp ?al"] ok(1) by simp
    note d = parked_detach [OF ok(2)]
    have "(j < length (slots m') \<and> parked (slots m' ! j)) \<longleftrightarrow>
        (j < length (slots (q_slots g)) \<and> parked (slots (q_slots g) ! j)) \<or> j = i" for j
      using d(1,3) d(2) [of j] by (cases "j = i") auto
    then show ?thesis using that [of True "[]" ?x'] inv ok(1) by (simp add: qwen_offload_kv_def)
  qed
qed

lemma qwen_evict_law:
  assumes "q_good g" "qwen_evict_kv g (int i) t = (acted, e, g')"
  shows "q_good g' \<and> (acted \<longrightarrow> is_parked (qwen_engine cfg env) g' i) \<and>
    (\<forall>j. j \<noteq> i \<longrightarrow> is_parked (qwen_engine cfg env) g' j = is_parked (qwen_engine cfg env) g j)"
proof -
  obtain m where ev: "evict_for_recompute PoolSlotKv (q_slots g) (int i) t = (acted, m)"
    and x: "off_slots (q_offload g') = m" "q_offload g' = snd (evict_kv (q_offload g) (int i) t)"
    using assms(2) by (auto simp: qwen_evict_kv_def evict_kv_def discard_def Let_def split: prod.splits if_splits)
  have "q_good g'" using off_inv_exec [OF assms(1), of "EvictKv (int i) t"] x(2) by simp
  then show ?thesis using parked_evict(1,3) [OF ev] parked_evict(2) [OF ev] by (simp add: q_parked x(1))
qed

lemma off_slots_discard [simp]: "off_slots (discard x i) = off_slots x"
  by (simp add: discard_def)

lemma qwen_retire_law:
  assumes "q_good g"
  shows "q_good (qwen_retire g (int i)) \<and> \<not> is_parked (qwen_engine cfg env) (qwen_retire g (int i)) i \<and>
    (\<forall>j. j \<noteq> i \<longrightarrow> is_parked (qwen_engine cfg env) (qwen_retire g (int i)) j = is_parked (qwen_engine cfg env) g j)"
proof -
  have inv: "q_good (qwen_retire g (int i))" using off_inv_exec [OF assms, of "RetireKv (int i)"] by (simp add: qwen_retire_def)
  have m: "q_slots (qwen_retire g (int i)) = (if is_active (q_slots g) (int i) then retire PoolSlotKv (q_slots g) (int i) else q_slots g)"
    by (simp add: qwen_retire_def retire_kv_def Let_def)
  have "\<not> is_active (q_slots g) (int i) \<Longrightarrow> \<not> (i < length (slots (q_slots g)) \<and> parked (slots (q_slots g) ! i))"
    by (auto simp: is_active_def parked_def)
  then show ?thesis using inv parked_retire [where K = PoolSlotKv and m = "q_slots g" and i = i] by (auto simp: q_parked m)
qed

interpretation qwen: kv_engine "qwen_engine cfg env" q_good
proof
  fix g plan b g' assume "q_good g" "engine_reserve_decode (qwen_engine cfg env) g plan = (b, g')"
  then show "q_good g' \<and> (\<forall>j. is_parked (qwen_engine cfg env) g' j = is_parked (qwen_engine cfg env) g j)"
    using qwen_reserve_law by (simp add: qwen_engine_def)
next
  fix g i bytes assume good: "q_good g"
  obtain acted e x where "qwen_offload_kv env g (int i) bytes = Some (acted, e, g\<lparr>q_offload := x, q_calls := Suc (q_calls g)\<rparr>)"
    by (rule qwen_offload_law [OF good])
  then show "\<exists>r. engine_offload_kv (qwen_engine cfg env) g (int i) bytes = Some r" by (simp add: qwen_engine_def)
next
  fix g i bytes acted e g' assume a: "q_good g" "engine_offload_kv (qwen_engine cfg env) g (int i) bytes = Some (acted, e, g')"
  then have q: "qwen_offload_kv env g (int i) bytes = Some (acted, e, g')" by (simp add: qwen_engine_def)
  show "q_good g' \<and> (\<forall>j. is_parked (qwen_engine cfg env) g' j \<longleftrightarrow> is_parked (qwen_engine cfg env) g j \<or> (acted \<and> j = i))"
    by (rule qwen_offload_law [OF a(1), of env i bytes]) (use q in \<open>simp add: q_parked\<close>)
next
  fix g i t acted e g' assume "q_good g" "engine_evict_kv (qwen_engine cfg env) g (int i) t = (acted, e, g')"
  then show "q_good g' \<and> (acted \<longrightarrow> is_parked (qwen_engine cfg env) g' i) \<and>
      (\<forall>j. j \<noteq> i \<longrightarrow> is_parked (qwen_engine cfg env) g' j = is_parked (qwen_engine cfg env) g j)"
    using qwen_evict_law by (simp add: qwen_engine_def)
next
  fix g i assume "q_good g"
  then show "q_good (engine_retire (qwen_engine cfg env) g (int i)) \<and> \<not> is_parked (qwen_engine cfg env) (engine_retire (qwen_engine cfg env) g (int i)) i \<and>
      (\<forall>j. j \<noteq> i \<longrightarrow> is_parked (qwen_engine cfg env) (engine_retire (qwen_engine cfg env) g (int i)) j = is_parked (qwen_engine cfg env) g j)"
    using qwen_retire_law by (simp add: qwen_engine_def)
qed

section \<open>Making room\<close>

text \<open>
  C5. Making room for a step always ends. On the Qwen engine in any reachable state of its cache, the loop that parks, evicts or fails requests
  returns, however the memory probe, the copies and the allocations turn out. The plan it ends with has no decode rows or is one the engine has just reserved cache
  for; it addresses each slot once, and each of its decode rows a running request that is not parked. No request is lost: each
  stays in its slot with its text, or it was decoding and has been answered, and the requests the scheduler answers for are those from before.
\<close>

theorem making_room_ends:
  fixes S :: "('x, QwenEngine) Scheduler"
  assumes eng: "eng env = qwen_engine cfg qenv" and reach: "off_reachable (q_offload (engine S))" and ready: "slots_ready env S"
    and fresh: "offload_budget env = 0 \<longrightarrow> (\<forall>i < length (sched_slots S). \<not> state_parked (offload_state (q_offload (engine S)) (int i)))"
  shows "\<exists>plan S'. relieve env (fst (build_plan env S)) (snd (build_plan env S)) = Some (plan, S') \<and>
    (plan_decode plan = [] \<or> (\<exists>g. qwen_reserve_decode cfg g plan = (True, engine S'))) \<and>
    plan_owns_rows (int (length (sched_slots S'))) plan \<and> length (sched_slots S') = length (sched_slots S) \<and>
    (\<forall>i \<in> set (plan_decode plan). \<exists>k. in_slot i = int k \<and> job (sched_slots S' ! k) \<noteq> None \<and> \<not> prefilling (sched_slots S' ! k) \<and>
       \<not> state_parked (offload_state (q_offload (engine S')) (int k))) \<and>
    accounts S' = accounts S \<and>
    (\<forall>k < length (sched_slots S). let s = sched_slots S ! k; s' = sched_slots S' ! k in
       (job s' = job s \<and> prefilling s' = prefilling s \<and> gen_tokens s' = gen_tokens s \<and> pending_tok s' = pending_tok s) \<or>
       (job s \<noteq> None \<and> \<not> prefilling s \<and> s' = empty_sched_slot (empty_io env)))"
proof -
  have st: "kv_offload_state (qwen_engine cfg qenv) = (\<lambda>g. offload_state (q_offload g))" "engine_reserve_decode (qwen_engine cfg qenv) = qwen_reserve_decode cfg"
    by (simp_all add: qwen_engine_def)
  define S1 where "S1 = snd (build_plan env S)"
  note pn = planned_new [OF ready, folded S1_def]
  have len: "length (sched_slots S1) = length (sched_slots S)" "engine S1 = engine S" using pn(2) by (simp_all add: replanned_def)
  have e1: "eased env S S1" using replanned_eased [OF pn(2)] by blast
  have good: "off_inv (q_offload (engine S1))" using off_reachable_inv [OF reach] len by simp
  have np: "offload_budget env = 0 \<longrightarrow> (\<forall>i < length (sched_slots S1). \<not> is_parked (qwen_engine cfg qenv) (engine S1) i)"
    using fresh by (simp add: len st)
  have ready1: "slots_ready env S1" by (rule replanned_ready [OF ready pn(2)])
  from qwen.relieve_law [OF eng good np ready1 pn(1)] obtain plan S' where r: "relieve env (fst (build_plan env S)) S1 = Some (plan, S')"
    "offload_budget env = 0 \<longrightarrow> (\<forall>i < length (sched_slots S'). \<not> is_parked (qwen_engine cfg qenv) (engine S') i)" "eased env S1 S'"
    "\<forall>i < length (sched_slots S1). \<not> live (sched_slots S1 ! i) \<longrightarrow> sched_slots S' ! i = sched_slots S1 ! i" "planned env plan S'"
    "plan_decode plan = [] \<or> (\<exists>g. engine_reserve_decode (qwen_engine cfg qenv) g plan = (True, engine S'))"
    by (elim exE conjE) (rule that; assumption)
  have e: "eased env S S'" by (rule eased_trans [OF e1 r(3,4)])
  have rows: "\<forall>i \<in> set (plan_decode plan). \<exists>k. in_slot i = int k \<and> job (sched_slots S' ! k) \<noteq> None \<and> \<not> prefilling (sched_slots S' ! k) \<and>
       \<not> state_parked (offload_state (q_offload (engine S')) (int k))"
  proof
    fix i assume "i \<in> set (plan_decode plan)"
    then obtain k where "in_slot i = int k" "live (sched_slots S' ! k)" "\<not> prefilling (sched_slots S' ! k)" "\<not> is_parked (eng env) (engine S') k"
      using planned_decoders [OF r(5)] r(2) eng by metis
    then show "\<exists>k. in_slot i = int k \<and> job (sched_slots S' ! k) \<noteq> None \<and> \<not> prefilling (sched_slots S' ! k) \<and>
       \<not> state_parked (offload_state (q_offload (engine S')) (int k))" unfolding eng st live_def by (intro exI [of _ k] conjI)
  qed
  have keep: "let s = sched_slots S ! k; s' = sched_slots S' ! k in
       (job s' = job s \<and> prefilling s' = prefilling s \<and> gen_tokens s' = gen_tokens s \<and> pending_tok s' = pending_tok s) \<or>
       (job s \<noteq> None \<and> \<not> prefilling s \<and> s' = empty_sched_slot (empty_io env))" if k: "k < length (sched_slots S)" for k
  proof -
    have "same_or_armed (sched_slots S ! k) (sched_slots S' ! k) \<or>
        (live (sched_slots S ! k) \<and> \<not> prefilling (sched_slots S ! k) \<and> sched_slots S' ! k = empty_sched_slot (empty_io env))"
      using e k unfolding eased_def by blast
    then show ?thesis unfolding Let_def live_def using same_or_armed_views by blast
  qed
  have "length (sched_slots S') = length (sched_slots S)" "accounts S' = accounts S" using e unfolding eased_def by blast+
  then show ?thesis using r(1,6) planned_rows [OF r(5)] rows keep unfolding st S1_def by blast
qed

text \<open>Two decoding requests on the small pool.\<close>

definition demo_qwen_config :: QwenConfig where
  "demo_qwen_config = \<lparr>fixed_chain_ready = False, fixed_chain_width = 0, batched_draft_width = 0, sampled_verify = False, max_prefills = 2,
     mixed_prefill_tokens = 8, long_mixed_prefill_tokens = 8, long_prefill_threshold = 100, idle_prefill_tokens = 8, prefill_quantum = 2,
     block_table_shape = Some (4, 2)\<rparr>"

definition demo_qwen_env :: QwenEnv where
  "demo_qwen_env = \<lparr>host_memory = (\<lambda>_. Some 400), copies = (\<lambda>_. True), allocates = (\<lambda>_. True),
     forward = (\<lambda>_ _. (\<lparr>res_decode = [], res_prefills = [], res_error = []\<rparr>, [], []))\<rparr>"

theorem making_room_ends_witness:
  "let env = demo_sched_env (qwen_engine demo_qwen_config demo_qwen_env) 64;
       S = demo_sched \<lparr>q_offload = the demo_served, q_calls = 0\<rparr> [1, 2] in
   \<exists>plan S'. relieve env (fst (build_plan env S)) (snd (build_plan env S)) = Some (plan, S') \<and> accounts S' = {#1, 2#} \<and>
     plan_owns_rows 2 plan"
proof -
  define env where "env = demo_sched_env (qwen_engine demo_qwen_config demo_qwen_env) 64"
  define S where "S = demo_sched \<lparr>q_offload = the demo_served, q_calls = 0\<rparr> [1, 2]"
  have a: "eng env = qwen_engine demo_qwen_config demo_qwen_env" "offload_budget env \<noteq> 0" "off_reachable (q_offload (engine S))"
    "length (sched_slots S) = 2"
    using demo_served_reachable by (simp_all add: env_def S_def demo_sched_env_def demo_sched_def)
  have acc: "accounts S = {#1, 2#}" by (simp add: S_def demo_sched_def accounts_def live_def demo_slot_def)
  have ready: "slots_ready env S" unfolding env_def S_def by (rule demo_sched_ready)
  have fresh: "offload_budget env = 0 \<longrightarrow> (\<forall>i < length (sched_slots S). \<not> state_parked (offload_state (q_offload (engine S)) (int i)))"
    using a(2) by simp
  obtain plan S' where r: "relieve env (fst (build_plan env S)) (snd (build_plan env S)) = Some (plan, S')" "accounts S' = accounts S"
    "plan_owns_rows (int (length (sched_slots S'))) plan" "length (sched_slots S') = length (sched_slots S)"
    using making_room_ends [OF a(1,3) ready fresh] by (elim exE conjE) (rule that; assumption)
  then have "\<exists>plan S'. relieve env (fst (build_plan env S)) (snd (build_plan env S)) = Some (plan, S') \<and> accounts S' = {#1, 2#} \<and>
     plan_owns_rows 2 plan" using a(4) acc by (intro exI [of _ plan] exI [of _ S'] conjI) simp_all
  then show ?thesis unfolding env_def S_def Let_def .
qed

end
