(* ===== verification/Sched_Pass.thy ===== *)
theory Sched_Pass
  imports Sched_Room
begin

text \<open>
  A whole pass of the scheduler keeps its invariant: every slot with a job is well formed and still running, the count of live slots is the number of
  jobs, and every request stays in a slot, in the drains or among the finished ones.
\<close>

section \<open>Changes of a slot\<close>

text \<open>A change that leaves everything but the inside of the slots alone.\<close>

definition inert :: "('x, 'g) Scheduler \<Rightarrow> ('x, 'g) Scheduler \<Rightarrow> bool" where
  "inert S S' \<longleftrightarrow> length (sched_slots S') = length (sched_slots S) \<and> engine S' = engine S \<and> accounts S' = accounts S \<and>
     job_count S' = job_count S \<and> live_slots S' = live_slots S \<and> short_first_steps S' = short_first_steps S"

lemma inert_refl [simp]: "inert S S"
  by (simp add: inert_def)

lemma inert_trans: "inert A B \<Longrightarrow> inert B C \<Longrightarrow> inert A C"
  by (simp add: inert_def)

lemma inert_put:
  "i < length (sched_slots S) \<Longrightarrow> live s = live (sched_slots S ! i) \<Longrightarrow> admission_order s = admission_order (sched_slots S ! i) \<Longrightarrow> inert S (put i s S)"
  using accounts_put [of i S s] by (simp add: inert_def)

definition all_inv :: "('x, 'g) SchedEnv \<Rightarrow> ('x, 'g) Scheduler \<Rightarrow> bool" where
  "all_inv env S \<longleftrightarrow> (\<forall>s \<in> set (sched_slots S). slot_inv (slot_env env) s)"

lemma all_inv_ready: "slots_ready env S \<Longrightarrow> all_inv env S"
  by (simp add: all_inv_def slots_ready_def)

lemma all_inv_put: "all_inv env S \<Longrightarrow> slot_inv (slot_env env) s \<Longrightarrow> all_inv env (put i s S)"
  by (auto simp: all_inv_def dest: set_update_subset_insert [THEN subsetD])

lemma all_invD: "all_inv env S \<Longrightarrow> i < length (sched_slots S) \<Longrightarrow> slot_inv (slot_env env) (sched_slots S ! i)"
  by (simp add: all_inv_def)

section \<open>The outputs of a step\<close>

lemma take_decode_output_same:
  "live (take_decode_output env s out) = live s \<and> admission_order (take_decode_output env s out) = admission_order s"
proof (cases "job s = None \<or> dec_failed out")
  case True
  then show ?thesis by (auto simp: take_decode_output_def live_def)
next
  case False
  define s1 where "s1 = snd (consume_tokens (feed env) (committed_tokens out @ [dec_token out]) s)"
  have "same_request s s1" using feed_keeps [of s env "committed_tokens out @ [dec_token out]"] by (simp add: s1_def)
  moreover have "\<exists>a. take_decode_output env s out = s1\<lparr>acceptance := a\<rparr>"
    using False by (cases "job s") (auto simp: take_decode_output_def Let_def split_beta consume_output s1_def intro: exI [of _ "acceptance s1"])
  ultimately show ?thesis by (auto simp: same_request_def live_def)
qed

lemma take_prefill_output_same:
  "live (take_prefill_output env s out) = live s \<and> admission_order (take_prefill_output env s out) = admission_order s"
  by (cases "pre_status out"; cases "job s = None"; cases "attempted (pre_store out)")
     (simp_all add: take_prefill_output_def Let_def live_def advance_slot_spec del: not_None_eq)

lemma charge_slice_same:
  assumes "all_inv env S"
  shows "inert S (charge_slice S sl)" "all_inv env (charge_slice S sl)" "map finished (sched_slots (charge_slice S sl)) = map finished (sched_slots S)"
    "map job (sched_slots (charge_slice S sl)) = map job (sched_slots S)"
proof -
  let ?i = "nat (slice_slot sl)" let ?s = "(sched_slots S ! ?i)\<lparr>prompt_left := max 0 (prompt_left (sched_slots S ! ?i) - max_tokens sl)\<rparr>"
  have "inert S (charge_slice S sl) \<and> all_inv env (charge_slice S sl) \<and> map finished (sched_slots (charge_slice S sl)) = map finished (sched_slots S) \<and>
      map job (sched_slots (charge_slice S sl)) = map job (sched_slots S)"
  proof (cases "?i < length (sched_slots S)")
    case True
    have "slot_inv (slot_env env) ?s" using all_invD [OF assms True] by (auto simp: slot_inv_def)
    then have "inert S (put ?i ?s S)" "all_inv env (put ?i ?s S)" using inert_put [OF True] all_inv_put [OF assms] by (simp_all add: live_def)
    then show ?thesis using True assms by (simp add: charge_slice_def Let_def map_update list_update_same_conv)
  next
    case False
    then have "charge_slice S sl = S" by (simp add: charge_slice_def Let_def list_update_beyond)
    then show ?thesis using assms by simp
  qed
  then show "inert S (charge_slice S sl)" "all_inv env (charge_slice S sl)" "map finished (sched_slots (charge_slice S sl)) = map finished (sched_slots S)"
    "map job (sched_slots (charge_slice S sl)) = map job (sched_slots S)" by blast+
qed

lemma charge_slices_same:
  "all_inv env S \<Longrightarrow> inert S (foldl charge_slice S sls) \<and> all_inv env (foldl charge_slice S sls) \<and>
     map finished (sched_slots (foldl charge_slice S sls)) = map finished (sched_slots S) \<and> map job (sched_slots (foldl charge_slice S sls)) = map job (sched_slots S)"
proof (induction sls arbitrary: S)
  case (Cons sl sls)
  then show ?case using charge_slice_same [OF Cons.prems, of sl] Cons.IH [of "charge_slice S sl"] inert_trans by auto
qed simp

lemma take_decodes_same:
  assumes "all_inv env S" "\<forall>out \<in> set outs. dec_failed out \<or> (0 \<le> dec_token out \<and> (\<forall>t \<in> set (committed_tokens out). 0 \<le> t))"
  shows "inert S (foldl (take_decode env) S outs) \<and> all_inv env (foldl (take_decode env) S outs) \<and>
    (\<forall>i < length (sched_slots S). int i \<notin> dec_slot ` set outs \<longrightarrow> sched_slots (foldl (take_decode env) S outs) ! i = sched_slots S ! i)"
  using assms
proof (induction outs arbitrary: S)
  case (Cons out outs)
  let ?i = "nat (dec_slot out)" let ?S = "take_decode env S out"
  have one: "inert S ?S \<and> all_inv env ?S \<and> (\<forall>i < length (sched_slots S). int i \<noteq> dec_slot out \<longrightarrow> sched_slots ?S ! i = sched_slots S ! i)"
  proof (cases "0 \<le> dec_slot out \<and> dec_slot out < int (length (sched_slots S))")
    case False
    then show ?thesis using Cons.prems(1) by (auto simp: take_decode_def)
  next
    case True
    let ?s = "take_decode_output (slot_env env) (sched_slots S ! ?i) out"
    have i: "?i < length (sched_slots S)" using True by auto
    have eq: "?S = put ?i ?s S" using True by (simp add: take_decode_def)
    have "slot_inv (slot_env env) ?s" using take_decode_output_inv [OF all_invD [OF Cons.prems(1) i]] Cons.prems(2) by simp
    then show ?thesis unfolding eq using inert_put [OF i] take_decode_output_same all_inv_put [OF Cons.prems(1)] True by auto
  qed
  then have "inert ?S (foldl (take_decode env) ?S outs) \<and> all_inv env (foldl (take_decode env) ?S outs) \<and>
      (\<forall>i < length (sched_slots ?S). int i \<notin> dec_slot ` set outs \<longrightarrow> sched_slots (foldl (take_decode env) ?S outs) ! i = sched_slots ?S ! i)"
    using Cons.IH [of ?S] Cons.prems(2) by simp
  moreover have "length (sched_slots ?S) = length (sched_slots S)" using one by (simp add: inert_def)
  ultimately show ?case using one inert_trans by auto
qed simp

lemma take_prefills_same:
  assumes "all_inv env S" "distinct (map pre_slot outs)"
    "\<forall>out \<in> set outs. 0 \<le> pre_slot out \<and> pre_slot out < int (length (sched_slots S)) \<and> (pre_status out = Completed \<longrightarrow> 0 \<le> pre_token out) \<and>
       (job (sched_slots S ! nat (pre_slot out)) \<noteq> None \<longrightarrow> \<not> finished (sched_slots S ! nat (pre_slot out)))"
  shows "inert S (foldl (take_prefill env) S outs) \<and> all_inv env (foldl (take_prefill env) S outs)"
  using assms
proof (induction outs arbitrary: S)
  case (Cons out outs)
  let ?i = "nat (pre_slot out)" let ?S = "take_prefill env S out" let ?s = "take_prefill_output (slot_env env) (sched_slots S ! ?i) out"
  have r: "0 \<le> pre_slot out" "pre_slot out < int (length (sched_slots S))" "pre_status out = Completed \<longrightarrow> 0 \<le> pre_token out"
    "job (sched_slots S ! ?i) \<noteq> None \<Longrightarrow> \<not> finished (sched_slots S ! ?i)" using Cons.prems(3) by auto
  have i: "?i < length (sched_slots S)" using r by auto
  have eq: "?S = put ?i ?s S" using r by (simp add: take_prefill_def)
  have "slot_inv (slot_env env) ?s"
  proof (cases "job (sched_slots S ! ?i) = None")
    case True
    then show ?thesis by (simp add: take_prefill_output_def slot_inv_def)
  next
    case False
    show ?thesis by (rule take_prefill_output_inv [OF all_invD [OF Cons.prems(1) i] r(3) r(4) [OF False]])
  qed
  then have one: "inert S ?S" "all_inv env ?S" unfolding eq using inert_put [OF i] take_prefill_output_same all_inv_put [OF Cons.prems(1)] by auto
  have len: "length (sched_slots ?S) = length (sched_slots S)" using one(1) by (simp add: inert_def)
  have "\<forall>o' \<in> set outs. 0 \<le> pre_slot o' \<and> pre_slot o' < int (length (sched_slots ?S)) \<and> (pre_status o' = Completed \<longrightarrow> 0 \<le> pre_token o') \<and>
      (job (sched_slots ?S ! nat (pre_slot o')) \<noteq> None \<longrightarrow> \<not> finished (sched_slots ?S ! nat (pre_slot o')))"
  proof
    fix o' assume o': "o' \<in> set outs"
    then have "pre_slot o' \<noteq> pre_slot out" using Cons.prems(2) by (metis distinct.simps(2) image_eqI list.set_map list.simps(9))
    moreover have "0 \<le> pre_slot o'" using o' Cons.prems(3) by simp
    ultimately have "nat (pre_slot o') \<noteq> ?i" using r(1) by (simp add: eq_nat_nat_iff)
    then show "0 \<le> pre_slot o' \<and> pre_slot o' < int (length (sched_slots ?S)) \<and> (pre_status o' = Completed \<longrightarrow> 0 \<le> pre_token o') \<and>
        (job (sched_slots ?S ! nat (pre_slot o')) \<noteq> None \<longrightarrow> \<not> finished (sched_slots ?S ! nat (pre_slot o')))" using o' Cons.prems(3) len by (simp add: eq)
  qed
  then show ?case using Cons.IH [of ?S] one Cons.prems(2) inert_trans by auto
qed simp

section \<open>What every part of a pass keeps\<close>

lemma foldl_keeps: "(\<And>S i. i \<in> set is \<Longrightarrow> P S \<Longrightarrow> P (f S i)) \<Longrightarrow> P S \<Longrightarrow> P (foldl f S is)"
  by (induction "is" arbitrary: S) auto

text \<open>
  The engine is in order, nothing is parked unless parking is switched on, the count of live slots is right, short prompts have not gone first too
  often, and the requests are those of \<open>A\<close>.
\<close>

definition serving :: "('g \<Rightarrow> bool) \<Rightarrow> ('x, 'g) SchedEnv \<Rightarrow> nat \<Rightarrow> u64 multiset \<Rightarrow> ('x, 'g) Scheduler \<Rightarrow> bool" where
  "serving good env n A S \<longleftrightarrow> good (engine S) \<and> length (sched_slots S) = n \<and> accounts S = A \<and> live_slots S = int (job_count S) \<and>
     0 \<le> short_first_steps S \<and> short_first_steps S \<le> kShortFirstSteps \<and> (offload_budget env = 0 \<longrightarrow> (\<forall>i < n. \<not> is_parked (eng env) (engine S) i))"

lemma serving_inert: "inert S S' \<Longrightarrow> serving good env n A S \<Longrightarrow> serving good env n A S'"
  by (simp add: serving_def inert_def)

lemma serving_eased:
  assumes "eased env S S'" "serving good env n A S" "good (engine S')"
    "offload_budget env = 0 \<longrightarrow> (\<forall>i < length (sched_slots S'). \<not> is_parked (eng env) (engine S') i)"
  shows "serving good env n A S'"
  using assms by (auto simp: serving_def eased_def)

lemma serving_engine:
  assumes "serving good env n A S" "good g" "offload_budget env = 0 \<Longrightarrow> \<forall>j. is_parked (eng env) g j = is_parked (eng env) (engine S) j"
  shows "serving good env n A (S\<lparr>engine := g\<rparr>)"
  using assms by (auto simp: serving_def accounts_def job_count_def)

lemma slots_ready_update:
  assumes "slots_ready env S" "sched_slots S' = (sched_slots S)[i := s]" "slot_inv (slot_env env) s" "job s \<noteq> None \<Longrightarrow> \<not> finished s"
  shows "slots_ready env S'"
  unfolding slots_ready_def assms(2)
  using assms(1,3,4) set_update_subset_insert [of "sched_slots S" i s] by (auto simp: slots_ready_def)

lemma slot_inv_empty [simp]: "slot_inv env (empty_sched_slot x)"
  by (simp add: slot_inv_def)

lemma charge_slices_ready:
  assumes "slots_ready env S"
  shows "slots_ready env (foldl charge_slice S sls)" "inert S (foldl charge_slice S sls)"
proof -
  note c = charge_slices_same [OF all_inv_ready [OF assms], of sls]
  have "job (sched_slots (foldl charge_slice S sls) ! i) = job (sched_slots S ! i) \<and>
      finished (sched_slots (foldl charge_slice S sls) ! i) = finished (sched_slots S ! i)" if "i < length (sched_slots S)" for i
    using c that by (metis inert_def nth_map)
  then show "slots_ready env (foldl charge_slice S sls)" using c slots_readyD(2) [OF assms]
    by (auto simp: slots_ready_def all_inv_def in_set_conv_nth inert_def)
  show "inert S (foldl charge_slice S sls)" using c by blast
qed

lemma accounts_map:
  assumes "\<And>s. live (f s) = live s \<and> admission_order (f s) = admission_order s"
  shows "inert S (S\<lparr>sched_slots := map f (sched_slots S)\<rparr>)"
proof -
  have "image_mset admission_order (filter_mset live (mset (map f xs))) = image_mset admission_order (filter_mset live (mset xs))" for xs
    by (induction xs) (use assms in auto)
  then have im: "image_mset admission_order (filter_mset live (mset (map f (sched_slots S)))) = image_mset admission_order (filter_mset live (mset (sched_slots S)))" .
  have "job_count (S\<lparr>sched_slots := map f (sched_slots S)\<rparr>) = job_count S"
    using arg_cong [OF im, of size] unfolding size_image_mset job_count_def by simp
  then show ?thesis using im by (simp add: inert_def accounts_def)
qed

lemma flush_live_keeps:
  assumes "all_inv env S"
  shows "inert S (flush_live env stalled S)" "all_inv env (flush_live env stalled S)"
proof -
  show "inert S (flush_live env stalled S)" unfolding flush_live_def
    by (rule accounts_map) (simp add: Let_def split_beta live_def)
  show "all_inv env (flush_live env stalled S)" using assms
    by (auto simp: flush_live_def all_inv_def Let_def split_beta slot_inv_def)
qed

lemma oldest_parked_live:
  assumes "oldest_parked env S = (Some k, d)"
  shows "k < length (sched_slots S) \<and> live (sched_slots S ! k)"
proof -
  define xs where "xs = filter (parked_slot env S) (filter (\<lambda>i. job (sched_slots S ! i) \<noteq> None) [0..<length (sched_slots S)])"
  define pick where "pick = (\<lambda>oldest i. case oldest of None \<Rightarrow> Some i
     | Some k \<Rightarrow> if admission_order (sched_slots S ! i) < admission_order (sched_slots S ! k) then Some i else Some k)"
  have "foldl pick a ys = Some k \<Longrightarrow> a = Some k \<or> k \<in> set ys" for a ys
  proof (induction ys arbitrary: a)
    case (Cons y ys)
    then have "pick a y = Some k \<or> k \<in> set ys" by simp
    moreover have "pick a y = Some y \<or> pick a y = a" by (cases a) (simp_all add: pick_def)
    ultimately show ?case by auto
  qed simp
  moreover have "foldl pick None xs = Some k" using assms by (simp add: oldest_parked_def Let_def xs_def pick_def)
  ultimately have "k \<in> set xs" by blast
  then show ?thesis by (simp add: xs_def live_def)
qed

section \<open>An engine that serves passes\<close>

text \<open>Besides making room: a restoration returns, and a step parks and resumes nobody.\<close>

locale sched_engine = kv_engine +
  assumes restore_returns: "good g \<Longrightarrow> \<exists>r. engine_restore_kv E g (int i) = Some r"
    and restore_law: "good g \<Longrightarrow> engine_restore_kv E g (int i) = Some (acted, e, g') \<Longrightarrow> good g'"
    and step_law: "good g \<Longrightarrow> engine_step E g plan = (r, g') \<Longrightarrow> good g' \<and> (\<forall>j. is_parked E g' j = is_parked E g j)"
begin

lemma retire_serving:
  assumes "eng env = E" "serving good env n A S" "i < n" "job (sched_slots S ! i) \<noteq> None"
  shows "serving good env n A (retire_slot env i S)"
proof -
  have i: "i < length (sched_slots S)" using assms(2,3) by (simp add: serving_def)
  note f = retire_slot_form [OF i assms(4), of env]
  have "good (engine S)" using assms(2) by (simp add: serving_def)
  note r = retire_law [OF this, of i]
  have "\<not> is_parked E (engine (retire_slot env i S)) j" if "offload_budget env = 0" "j < n" for j
    using r that assms(1,2) f(2) by (cases "j = i") (simp_all add: serving_def)
  then show ?thesis using r f assms(1,2) by (auto simp: serving_def)
qed

lemma fail_serving:
  assumes "eng env = E" "serving good env n A S" "i < n" "job (sched_slots S ! i) \<noteq> None"
  shows "serving good env n A (fail_slot env i e S)"
proof -
  let ?S = "put i ((sched_slots S ! i)\<lparr>slot_error := Some e\<rparr>) S"
  have i: "i < length (sched_slots S)" using assms(2,3) by (simp add: serving_def)
  have "inert S ?S" using inert_put [OF i, of "(sched_slots S ! i)\<lparr>slot_error := Some e\<rparr>"] by (simp add: live_def)
  then have "serving good env n A ?S" using assms(2) serving_inert by blast
  moreover have "job (sched_slots ?S ! i) \<noteq> None" using i assms(4) by simp
  ultimately show ?thesis unfolding fail_slot_def by (rule retire_serving [OF assms(1) _ assms(3)])
qed

lemma fail_ready:
  assumes "slots_ready env S" "i < length (sched_slots S)" "job (sched_slots S ! i) \<noteq> None"
  shows "slots_ready env (fail_slot env i e S)"
  by (rule slots_ready_update [OF assms(1) fail_slot_form(1) [OF assms(2,3)]]) simp_all

lemma fail_all_keeps:
  assumes "eng env = E" "serving good env n A S" "slots_ready env S"
  shows "serving good env n A (fail_all env e S) \<and> slots_ready env (fail_all env e S)"
  unfolding fail_all_def
proof (rule foldl_keeps)
  fix S' i assume i: "i \<in> set [0..<length (sched_slots S)]" and P: "serving good env n A S' \<and> slots_ready env S'"
  have n: "i < n" "i < length (sched_slots S')" using i P assms(2) by (simp_all add: serving_def)
  show "serving good env n A (if job (sched_slots S' ! i) \<noteq> None then fail_slot env i e S' else S') \<and>
      slots_ready env (if job (sched_slots S' ! i) \<noteq> None then fail_slot env i e S' else S')"
    using P fail_serving [OF assms(1) _ n(1), of A S'] fail_ready [OF _ n(2)] by (simp del: not_None_eq)
qed (use assms in simp)

lemma retire_cancelled_keeps:
  assumes "eng env = E" "serving good env n A S" "slots_ready env S"
  shows "serving good env n A (retire_cancelled env gone S) \<and> slots_ready env (retire_cancelled env gone S)"
  unfolding retire_cancelled_def
proof (rule foldl_keeps)
  fix S' i assume i: "i \<in> set [0..<length (sched_slots S)]" and P: "serving good env n A S' \<and> slots_ready env S'"
  have n: "i < n" "i < length (sched_slots S')" using i P assms(2) by (simp_all add: serving_def)
  let ?s = "(sched_slots S' ! i)\<lparr>client_disconnected := True, finished := True\<rparr>"
  show "serving good env n A (let s = sched_slots S' ! i in if job s \<noteq> None \<and> gone i
        then retire_slot env i (put i (s\<lparr>client_disconnected := True, finished := True\<rparr>) S') else S') \<and>
      slots_ready env (let s = sched_slots S' ! i in if job s \<noteq> None \<and> gone i
        then retire_slot env i (put i (s\<lparr>client_disconnected := True, finished := True\<rparr>) S') else S')"
  proof (cases "job (sched_slots S' ! i) \<noteq> None \<and> gone i")
    case True
    have "inert S' (put i ?s S')" using inert_put [OF n(2), of ?s] by (simp add: live_def)
    then have sv: "serving good env n A (put i ?s S')" using P serving_inert by blast
    have j: "job (sched_slots (put i ?s S') ! i) \<noteq> None" "i < length (sched_slots (put i ?s S'))" using True n(2) by simp_all
    have "slots_ready env (retire_slot env i (put i ?s S'))"
      by (rule slots_ready_update [OF conjunct2 [OF P], where i = i and s = "empty_sched_slot (empty_io env)"]) (simp_all add: retire_slot_form(1) [OF j(2,1)])
    then show ?thesis using True retire_serving [OF assms(1) sv n(1) j(1)] by (simp add: Let_def del: not_None_eq)
  next
    case False
    then show ?thesis using P by (auto simp: Let_def)
  qed
qed (use assms in simp)

lemma reap_prefix:
  assumes "eng env = E" "serving good env n A S" "all_inv env S" "k \<le> n"
  defines "f \<equiv> \<lambda>S i. if job (sched_slots S ! i) \<noteq> None \<and> finished (sched_slots S ! i) then retire_slot env i S else S"
  shows "serving good env n A (foldl f S [0..<k]) \<and> all_inv env (foldl f S [0..<k]) \<and>
    (\<forall>j < k. job (sched_slots (foldl f S [0..<k]) ! j) \<noteq> None \<longrightarrow> \<not> finished (sched_slots (foldl f S [0..<k]) ! j))"
  using assms(4)
proof (induction k)
  case (Suc k)
  define T where "T = foldl f S [0..<k]"
  have ih: "serving good env n A T" "all_inv env T" "\<forall>j < k. job (sched_slots T ! j) \<noteq> None \<longrightarrow> \<not> finished (sched_slots T ! j)"
    using Suc by (simp_all add: T_def)
  have step: "foldl f S [0..<Suc k] = f T k" by (simp add: T_def)
  show ?case unfolding step
  proof (cases "job (sched_slots T ! k) \<noteq> None \<and> finished (sched_slots T ! k)")
    case True
    have k: "k < n" "k < length (sched_slots T)" using Suc.prems ih(1) by (simp_all add: serving_def)
    have eq: "f T k = retire_slot env k T" using True by (simp add: f_def)
    have sl: "sched_slots (f T k) = (sched_slots T)[k := empty_sched_slot (empty_io env)]"
      unfolding eq by (rule retire_slot_form(1) [OF k(2)]) (use True in blast)
    have "serving good env n A (f T k)" unfolding eq by (rule retire_serving [OF assms(1) ih(1) k(1)]) (use True in blast)
    moreover have "all_inv env (f T k)" using ih(2) set_update_subset_insert [of "sched_slots T" k] by (fastforce simp: all_inv_def sl)
    moreover have "job (sched_slots (f T k) ! j) \<noteq> None \<longrightarrow> \<not> finished (sched_slots (f T k) ! j)" if "j < Suc k" for j
      using ih(3) that k(2) by (cases "j = k") (simp_all add: sl)
    ultimately show "serving good env n A (f T k) \<and> all_inv env (f T k) \<and>
        (\<forall>j < Suc k. job (sched_slots (f T k) ! j) \<noteq> None \<longrightarrow> \<not> finished (sched_slots (f T k) ! j))" by blast
  next
    case False
    then have "f T k = T" by (auto simp: f_def)
    then show "serving good env n A (f T k) \<and> all_inv env (f T k) \<and>
        (\<forall>j < Suc k. job (sched_slots (f T k) ! j) \<noteq> None \<longrightarrow> \<not> finished (sched_slots (f T k) ! j))"
      using ih False less_antisym by metis
  qed
qed (use assms(2,3) in simp)

lemma reap_keeps:
  assumes "eng env = E" "serving good env n A S" "all_inv env S"
  shows "serving good env n A (reap env S) \<and> slots_ready env (reap env S)"
proof -
  have len: "length (sched_slots S) = n" using assms(2) by (simp add: serving_def)
  note r = reap_prefix [OF assms order_refl, folded len, folded reap_def]
  then have l: "length (sched_slots (reap env S)) = length (sched_slots S)" by (simp add: serving_def)
  then have "slots_ready env (reap env S)" using r unfolding slots_ready_def all_inv_def by (metis in_set_conv_nth)
  then show ?thesis using r len by simp
qed

text \<open>A parked request comes back, stays parked, is parked for recomputation or is answered.\<close>

lemma resume_keeps:
  assumes "eng env = E" "serving good env n A S" "slots_ready env S"
  shows "\<exists>S'. resume_oldest env S = Some S' \<and> serving good env n A S' \<and> slots_ready env S'"
proof (cases "offload_budget env = 0 \<or> fst (oldest_parked env S) = None \<or>
    \<not> (snd (oldest_parked env S) \<or> engine_restore_feasible E (engine S) (int (the (fst (oldest_parked env S)))))")
  case True
  then have "resume_oldest env S = Some S" using assms(1) by (auto simp: resume_oldest_def split: prod.splits option.splits)
  then show ?thesis using assms by blast
next
  case False
  then obtain k d where k: "oldest_parked env S = (Some k, d)" by (metis option.collapse prod.collapse)
  have b: "offload_budget env \<noteq> 0" "d \<or> engine_restore_feasible E (engine S) (int k)" using False k by simp_all
  have live: "k < n" "k < length (sched_slots S)" "job (sched_slots S ! k) \<noteq> None"
    using oldest_parked_live [OF k] assms(2) by (simp_all add: serving_def live_def)
  have good: "good (engine S)" using assms(2) by (simp add: serving_def)
  obtain acted err g where r: "engine_restore_kv E (engine S) (int k) = Some (acted, err, g)" using restore_returns [OF good] by (metis prod_cases3)
  have g: "good g" by (rule restore_law [OF good r])
  have sv: "serving good env n A (S\<lparr>engine := h\<rparr>) \<and> slots_ready env (S\<lparr>engine := h\<rparr>)" if "good h" for h
    using serving_engine [OF assms(2) that] b assms(3) by (simp add: slots_ready_def)
  have failed: "serving good env n A (fail_slot env k e (S\<lparr>engine := h\<rparr>)) \<and> slots_ready env (fail_slot env k e (S\<lparr>engine := h\<rparr>))" if "good h" for h e
    using fail_serving [OF assms(1) conjunct1 [OF sv [OF that]] live(1)] fail_ready [OF conjunct2 [OF sv [OF that]]] live(2,3) by simp
  define rc where "rc = state_recompute (kv_offload_state E (engine S) (int k))"
  obtain ok' e' g' where ev: "engine_evict_kv E g (int k) (pending_tok (sched_slots S ! k)) = (ok', e', g')" by (metis prod_cases3)
  have g': "good g'" using evict_law [OF g ev] by blast
  have nb: "(\<not> (d \<or> engine_restore_feasible E (engine S) (int k))) = False" using b(2) by blast
  have eq: "resume_oldest env S = (let S1 = S\<lparr>engine := g\<rparr>; s = sched_slots S ! k in
      if acted then Some (if rc then put k (s\<lparr>prefilling := True, prompt_left := int_limit, prompt_new := int_limit, pending_tok := -1\<rparr>) S1 else S1)
      else let (evicted, err', S2) = (if err \<noteq> [] \<and> \<not> rc then (ok', if ok' then err else e', S\<lparr>engine := g'\<rparr>) else (False, err, S1)) in
        if evicted then Some S2
        else if d \<or> err' \<noteq> [] then Some (fail_slot env k (DecodeFailed
            (if err' = [] then ''parked request cannot fit its KV state and next token in the pool'' else err')) S2)
        else Some S2)"
    unfolding resume_oldest_def k prod.case option.case assms(1) nb if_False if_not_P [OF b(1)] r Let_def rc_def by (simp add: ev)
  show ?thesis
  proof (cases acted)
    case True
    let ?s = "(sched_slots S ! k)\<lparr>prefilling := True, prompt_left := int_limit, prompt_new := int_limit, pending_tok := -1\<rparr>"
    have "inert (S\<lparr>engine := g\<rparr>) (put k ?s (S\<lparr>engine := g\<rparr>))" by (rule inert_put) (use live in \<open>simp_all add: live_def\<close>)
    then have "serving good env n A (put k ?s (S\<lparr>engine := g\<rparr>))" using serving_inert sv [OF g] by blast
    moreover have "slots_ready env (put k ?s (S\<lparr>engine := g\<rparr>))"
      by (rule slots_ready_update [OF conjunct2 [OF sv [OF g]], where i = k and s = ?s])
         (use slots_readyD [OF assms(3) live(2)] live(3) in \<open>auto simp: slot_inv_def\<close>)
    ultimately show ?thesis using True sv [OF g] by (simp add: eq Let_def)
  next
    case False
    show ?thesis using False sv [OF g] sv [OF g'] failed [OF g] failed [OF g'] by (simp add: eq Let_def split: if_split)
  qed
qed

text \<open>A step: the outputs of an accepted result reach their slots, any other result answers every request.\<close>

lemma outputs_keep:
  assumes "serving good env n A S" "slots_ready env S" "result_fits plan r" "plan_owns_rows (int n) plan"
  defines "S' \<equiv> foldl (take_prefill env) (foldl (take_decode env) S (res_decode r)) (res_prefills r)"
  shows "inert S S' \<and> all_inv env S'"
proof -
  let ?T = "foldl (take_decode env) S (res_decode r)"
  have n: "length (sched_slots S) = n" using assms(1) by (simp add: serving_def)
  have slots: "dec_slot ` set (res_decode r) = in_slot ` set (plan_decode plan)" "pre_slot ` set (res_prefills r) = slice_slot ` set (plan_prefills plan)"
    "distinct (map pre_slot (res_prefills r))"
    using assms(3,4) unfolding result_fits_def plan_owns_rows_def
    by (metis list.set_map set_mset_mset, metis list.set_map set_mset_mset, metis distinct_append mset_eq_imp_distinct_iff)
  have "\<forall>out \<in> set (res_decode r). dec_failed out \<or> (0 \<le> dec_token out \<and> (\<forall>t \<in> set (committed_tokens out). 0 \<le> t))"
  proof
    fix out assume out: "out \<in> set (res_decode r)"
    then obtain i where "i \<in> set (plan_decode plan)" "in_slot i = dec_slot out" using slots(1) by (metis image_iff)
    then have "decode_fits i out" using assms(3) out by (simp add: result_fits_def)
    then show "dec_failed out \<or> (0 \<le> dec_token out \<and> (\<forall>t \<in> set (committed_tokens out). 0 \<le> t))" by (auto simp: decode_fits_def split: if_splits)
  qed
  note d = take_decodes_same [OF all_inv_ready [OF assms(2)] this]
  have len: "length (sched_slots ?T) = n" using d n by (simp add: inert_def)
  have "\<forall>out \<in> set (res_prefills r). 0 \<le> pre_slot out \<and> pre_slot out < int (length (sched_slots ?T)) \<and> (pre_status out = Completed \<longrightarrow> 0 \<le> pre_token out) \<and>
       (job (sched_slots ?T ! nat (pre_slot out)) \<noteq> None \<longrightarrow> \<not> finished (sched_slots ?T ! nat (pre_slot out)))"
  proof
    fix out assume out: "out \<in> set (res_prefills r)"
    then have sl: "pre_slot out \<in> slice_slot ` set (plan_prefills plan)" using slots(2) by blast
    then have r: "0 \<le> pre_slot out" "pre_slot out < int n" using assms(4) by (auto simp: plan_owns_rows_def)
    have "int (nat (pre_slot out)) \<notin> dec_slot ` set (res_decode r)" using sl r(1) assms(4) unfolding slots(1) by (auto simp: plan_owns_rows_def)
    then have "sched_slots ?T ! nat (pre_slot out) = sched_slots S ! nat (pre_slot out)" using d r n by simp
    moreover have "job (sched_slots S ! nat (pre_slot out)) \<noteq> None \<longrightarrow> \<not> finished (sched_slots S ! nat (pre_slot out))"
      using slots_readyD(2) [OF assms(2)] r n by simp
    moreover have "pre_status out = Completed \<longrightarrow> 0 \<le> pre_token out" using assms(3) out by (auto simp: result_fits_def prefill_fits_def)
    ultimately show "0 \<le> pre_slot out \<and> pre_slot out < int (length (sched_slots ?T)) \<and> (pre_status out = Completed \<longrightarrow> 0 \<le> pre_token out) \<and>
       (job (sched_slots ?T ! nat (pre_slot out)) \<noteq> None \<longrightarrow> \<not> finished (sched_slots ?T ! nat (pre_slot out)))" using r len by simp
  qed
  from take_prefills_same [OF _ slots(3) this] d show ?thesis unfolding S'_def using inert_trans by blast
qed

lemma run_step_plan_keeps:
  assumes "eng env = E" "serving good env n A S" "slots_ready env S" "plan_owns_rows (int n) plan" "run_step_plan env plan S = (b, S')"
    and hold: "held_long_prompts S \<longrightarrow> short_first_steps S < kShortFirstSteps"
  shows "serving good env n A S' \<and> all_inv env S' \<and> (\<not> b \<longrightarrow> slots_ready env S')"
proof -
  define S1 where "S1 = (if held_long_prompts S then S\<lparr>short_first_steps := short_first_steps S + 1\<rparr>
      else if long_prompt_in_step S \<or> \<not> long_prompt_waiting S then S\<lparr>short_first_steps := 0\<rparr> else S)"
  have s1: "engine S1 = engine S" "sched_slots S1 = sched_slots S" "accounts S1 = accounts S" "job_count S1 = job_count S" "live_slots S1 = live_slots S"
    by (simp_all add: S1_def accounts_def job_count_def)
  have "0 \<le> short_first_steps S1 \<and> short_first_steps S1 \<le> kShortFirstSteps" using assms(2) hold by (auto simp: S1_def serving_def)
  then have sv1: "serving good env n A S1" using assms(2) by (simp add: serving_def s1)
  obtain r g where st: "engine_step E (engine S1) plan = (r, g)" by fastforce
  have g: "good g" "\<forall>j. is_parked E g j = is_parked E (engine S1) j" using step_law [OF _ st] sv1 by (simp_all add: serving_def)
  have sv: "serving good env n A (S1\<lparr>engine := g\<rparr>)" using serving_engine [OF sv1 g(1)] g(2) assms(1) by simp
  have rd: "slots_ready env (S1\<lparr>engine := g\<rparr>)" using assms(3) by (simp add: slots_ready_def s1)
  define S2 where "S2 = foldl charge_slice (S1\<lparr>engine := g\<rparr>) (plan_prefills plan)"
  have S2: "slots_ready env S2" "serving good env n A S2"
    using charge_slices_ready [OF rd, of "plan_prefills plan"] serving_inert [OF _ sv] unfolding S2_def by blast+
  have n: "length (sched_slots S2) = n" using S2(2) by (simp add: serving_def)
  define r' where "r' = checked_result plan r (int n)"
  have eq: "run_step_plan env plan S = (if \<not> step_ok r' then (False, fail_all env (EngineStepFailed (res_error r')) S2)
      else (True, foldl (take_prefill env) (foldl (take_decode env) S2 (res_decode r')) (res_prefills r')))"
    unfolding run_step_plan_def Let_def S1_def [symmetric] assms(1) st prod.case S2_def [symmetric] n r'_def [symmetric] ..
  show ?thesis
  proof (cases "step_ok r'")
    case False
    then have "S' = fail_all env (EngineStepFailed (res_error r')) S2" using assms(5) by (simp add: eq)
    then show ?thesis using fail_all_keeps [OF assms(1) S2(2,1)] all_inv_ready by metis
  next
    case True
    then have ok: "validate_step_result plan r (int n) = []" "r' = r" "res_error r = []"
      by (auto simp: r'_def checked_result_def step_ok_def Let_def split: if_splits)
    have "1 \<le> int n"
    proof (rule ccontr)
      assume "\<not> 1 \<le> int n"
      then show False using no_slots_refused [of "int n" plan r] ok(1) by simp
    qed
    then have "result_fits plan r" using outputs_fit [OF _ ok(3) assms(4)] ok(1) by simp
    from outputs_keep [OF S2(2,1) this assms(4)] show ?thesis using assms(5) True serving_inert [OF _ S2(2)] by (auto simp: eq ok(2))
  qed
qed

text \<open>The whole pass.\<close>

lemma pass_law:
  assumes "eng env = E" "serving good env n A S" "slots_ready env S"
  shows "\<exists>S'. scheduler_pass env gone stalled S = Some S' \<and> serving good env n A S' \<and> slots_ready env S'"
proof (cases "live_slots S = 0 \<or> live_slots (retire_cancelled env gone S) = 0")
  case True
  then show ?thesis using assms retire_cancelled_keeps [OF assms, of gone] by (auto simp: scheduler_pass_def Let_def)
next
  case False
  define S1 where "S1 = retire_cancelled env gone S"
  have S1: "serving good env n A S1" "slots_ready env S1" using retire_cancelled_keeps [OF assms] by (simp_all add: S1_def)
  from resume_keeps [OF assms(1) S1] obtain S2 where S2: "resume_oldest env S1 = Some S2" "serving good env n A S2" "slots_ready env S2" by blast
  define P where "P = snd (build_plan env S2)"
  note pn = planned_new [OF S2(3), folded P_def]
  have e: "eased env S2 P" using replanned_eased [OF pn(2)] by blast
  have p: "engine P = engine S2" "length (sched_slots P) = n" using pn(2) S2(2) by (simp_all add: replanned_def serving_def)
  have good: "good (engine P)" and np: "nopark env P" using S2(2) assms(1) p by (simp_all add: serving_def)
  from relieve_law [OF assms(1) good np replanned_ready [OF S2(3) pn(2)] pn(1)] obtain plan S3 where
    r: "relieve env (fst (build_plan env S2)) P = Some (plan, S3)" "good (engine S3)" "nopark env S3" "eased env P S3" "planned env plan S3" "slots_ready env S3"
    by (elim exE conjE) (rule that; assumption)
  have S3: "serving good env n A S3"
    using serving_eased [OF r(4) serving_eased [OF e S2(2)] r(2)] good np r(3) assms(1) by simp
  define S4 where "S4 = (if prefill_candidates S3 \<noteq> [] then S3\<lparr>prefill_round_robin_start := prefill_round_robin_start S3 + 1\<rparr> else S3)"
  have S4: "serving good env n A S4" "slots_ready env S4" using S3 r(6) by (simp_all add: S4_def serving_def slots_ready_def accounts_def job_count_def)
  have own: "plan_owns_rows (int n) plan" using planned_rows [OF r(5)] S3 by (simp add: serving_def)
  have hold: "held_long_prompts S4 \<longrightarrow> short_first_steps S4 < kShortFirstSteps" using r(5) by (auto simp: planned_def S4_def)
  obtain b S5 where st: "run_step_plan env plan S4 = (b, S5)" by fastforce
  note S5 = run_step_plan_keeps [OF assms(1) S4 own st hold]
  have eq: "scheduler_pass env gone stalled S = (if plan_decode plan = [] \<and> plan_prefills plan = [] then Some S4
      else if b then Some (reap env (flush_live env stalled S5)) else Some S5)"
    using False r(1) S2(1) st by (simp add: scheduler_pass_def Let_def S1_def [symmetric] P_def [symmetric] S4_def [symmetric] split: bool.split)
  have "serving good env n A (flush_live env stalled S5)" "all_inv env (flush_live env stalled S5)"
    using flush_live_keeps [of env S5 stalled] S5 serving_inert by blast+
  then show ?thesis using S4 S5 reap_keeps [OF assms(1)] by (simp add: eq)
qed

end

end
