(* ===== verification/Qwen_Serving.thy ===== *)
theory Qwen_Serving
  imports Qwen_Engine_Contract Sched_Pass
begin

text \<open>
  The scheduler over the Qwen engine: every pass returns and no request is lost, whatever the host memory, the allocator, the copies, the
  forward passes, the clients and the sockets do.
\<close>

section \<open>The remaining laws\<close>

lemma qwen_restore_law:
  assumes "q_good g"
  obtains acted e g' where "qwen_restore_kv cfg env g (int i) = Some (acted, e, g')" "q_good g'"
proof (cases "is_active (q_slots g) (int i) \<and> phase (slots (q_slots g) ! nat (int i)) = SeqRecompute")
  case True
  let ?m = "snd (resume_recompute PoolSlotKv (q_slots g) (int i))"
  have "off_inv ((q_offload g)\<lparr>off_slots := ?m\<rparr>)" using off_inv_exec [OF assms, of "Manager (Resume (int i))"] by simp
  then show ?thesis using that True by (simp add: qwen_restore_kv_def split_beta)
next
  case False
  let ?e = "Restore (int i) (allocates env (q_calls g)) (copies env (q_calls g))"
  obtain x where x: "off_exec (q_offload g) ?e = Some x" using off_exec_form [OF assms] by blast
  then obtain ok blocks e where r: "restore (q_offload g) (int i) (allocates env (q_calls g)) (copies env (q_calls g)) = Some (ok, blocks, e, x)" by auto
  have inv: "off_inv x" by (rule off_inv_exec [OF assms x])
  let ?g = "g\<lparr>q_offload := x, q_calls := Suc (q_calls g)\<rparr>"
  have "\<exists>acted e. qwen_restore_kv cfg env g (int i) = Some (acted, e, ?g)"
    unfolding qwen_restore_kv_def if_not_P [OF False] r Let_def by auto
  then show ?thesis using that inv by auto
qed

lemma qwen_step_law:
  assumes "q_good g" "qwen_step env g plan = (r, g')"
  shows "q_good g' \<and> (\<forall>j. is_parked (qwen_engine cfg env) g' j = is_parked (qwen_engine cfg env) g j)"
proof -
  obtain es dev where g': "g' = g\<lparr>q_offload := (q_offload g)\<lparr>off_slots := foldl (mgr_exec PoolSlotKv) (q_slots g) (filter step_event es),
      off_device := (if same_shape (off_device (q_offload g)) dev then dev else off_device (q_offload g))\<rparr>\<rparr>"
    using assms(2) by (auto simp: qwen_step_def Let_def split: prod.splits)
  have run: "off_inv x \<Longrightarrow> off_inv (x\<lparr>off_slots := foldl (mgr_exec PoolSlotKv) (off_slots x) es\<rparr>)" for x es
  proof (induction es arbitrary: x)
    case (Cons e es)
    have "off_inv (x\<lparr>off_slots := mgr_exec PoolSlotKv (off_slots x) e\<rparr>)" using off_inv_exec [OF Cons.prems, of "Manager e"] by simp
    then show ?case using Cons.IH [of "x\<lparr>off_slots := mgr_exec PoolSlotKv (off_slots x) e\<rparr>"] by simp
  qed simp
  let ?x = "(q_offload g)\<lparr>off_slots := foldl (mgr_exec PoolSlotKv) (q_slots g) (filter step_event es)\<rparr>"
  have "off_inv ?x" by (rule run [OF assms(1)])
  then have "q_good g'" using off_inv_exec [of ?x "Compute dev"] by (simp add: g' split: if_splits)
  moreover have "is_parked (qwen_engine cfg env) g' j = is_parked (qwen_engine cfg env) g j" for j
    using parked_step_run [of "filter step_event es" PoolSlotKv "q_slots g" j] by (simp add: q_parked g' length_run)
  ultimately show ?thesis by blast
qed

interpretation qwen_passes: sched_engine "qwen_engine cfg env" q_good
proof unfold_locales
  fix g i assume "q_good g"
  then show "\<exists>r. engine_restore_kv (qwen_engine cfg env) g (int i) = Some r"
    by (rule qwen_restore_law [of g cfg env i]) (simp add: qwen_engine_def)
next
  fix g i acted e g' assume a: "q_good g" "engine_restore_kv (qwen_engine cfg env) g (int i) = Some (acted, e, g')"
  show "q_good g'" by (rule qwen_restore_law [OF a(1), of cfg env i]) (use a(2) in \<open>simp add: qwen_engine_def\<close>)
next
  fix g plan r g' assume "q_good g" "engine_step (qwen_engine cfg env) g plan = (r, g')"
  then show "q_good g' \<and> (\<forall>j. is_parked (qwen_engine cfg env) g' j = is_parked (qwen_engine cfg env) g j)"
    using qwen_step_law by (simp add: qwen_engine_def)
qed

section \<open>Serving\<close>

text \<open>Passes one after another, each with the clients that left before it and the stall judgement of its flush.\<close>

fun run_passes ::
  "('x, 'g) SchedEnv \<Rightarrow> ((nat \<Rightarrow> bool) \<times> ('x SchedSlot \<Rightarrow> bool)) list \<Rightarrow> ('x, 'g) Scheduler \<Rightarrow> ('x, 'g) Scheduler option" where
  "run_passes env [] S = Some S"
| "run_passes env ((gone, stalled) # ps) S =
     (case scheduler_pass env gone stalled S of None \<Rightarrow> None | Some S' \<Rightarrow> run_passes env ps S')"

lemma run_passes_keep:
  assumes "eng env = qwen_engine cfg qenv"
  shows "serving q_good env n A S \<Longrightarrow> slots_ready env S \<Longrightarrow> \<exists>S'. run_passes env ps S = Some S' \<and> serving q_good env n A S' \<and> slots_ready env S'"
proof (induction ps arbitrary: S)
  case (Cons p ps)
  obtain gone stalled where p: "p = (gone, stalled)" by fastforce
  from qwen_passes.pass_law [OF assms Cons.prems] obtain S1 where "scheduler_pass env gone stalled S = Some S1" "serving q_good env n A S1" "slots_ready env S1" by blast
  then show ?case using Cons.IH by (simp add: p)
qed simp

text \<open>
  C4. Serving never stops and loses no request. From any state between two passes, over any reachable cache, any number of passes over the Qwen engine
  return: making room ends, restorations return, and a result that violates the step protocol answers every request instead of reaching a slot. After
  them the requests the scheduler answers for are the same, each in a slot, in the drains or finished, and the count of live slots is the number of slots with a
  request. Every request in a slot is still running within its cap, its last token the one fed back next once its prompt is done. Prompts that fit
  one step have held longer ones back for at most four steps in a row.
\<close>

theorem passes_lose_no_request:
  fixes S :: "('x, QwenEngine) Scheduler"
  assumes eng: "eng env = qwen_engine cfg qenv" and reach: "off_reachable (q_offload (engine S))" and ready: "slots_ready env S"
    and fresh: "offload_budget env = 0 \<longrightarrow> (\<forall>i < length (sched_slots S). \<not> state_parked (offload_state (q_offload (engine S)) (int i)))"
    and count: "live_slots S = int (job_count S)" "0 \<le> short_first_steps S" "short_first_steps S \<le> 4"
  shows "\<exists>S'. run_passes env ps S = Some S' \<and> accounts S' = accounts S \<and> live_slots S' = int (job_count S') \<and>
    length (sched_slots S') = length (sched_slots S) \<and> short_first_steps S' \<le> 4 \<and>
    (\<forall>s \<in> set (sched_slots S'). job s \<noteq> None \<longrightarrow> \<not> finished s \<and> slot_error s = None \<and> int (length (gen_tokens s)) < n_gen_cap s \<and>
       (\<not> prefilling s \<longrightarrow> gen_tokens s \<noteq> [] \<and> pending_tok s = last (gen_tokens s)))"
proof -
  have "kv_offload_state (qwen_engine cfg qenv) = (\<lambda>g. offload_state (q_offload g))" by (simp add: qwen_engine_def)
  then have "serving q_good env (length (sched_slots S)) (accounts S) S"
    using off_reachable_inv [OF reach] fresh count eng by (simp add: serving_def kShortFirstSteps_def)
  from run_passes_keep [OF eng this ready, of ps] obtain S' where S': "run_passes env ps S = Some S'"
    "serving q_good env (length (sched_slots S)) (accounts S) S'" "slots_ready env S'" by blast
  have "\<forall>s \<in> set (sched_slots S'). job s \<noteq> None \<longrightarrow> \<not> finished s \<and> slot_error s = None \<and> int (length (gen_tokens s)) < n_gen_cap s \<and>
       (\<not> prefilling s \<longrightarrow> gen_tokens s \<noteq> [] \<and> pending_tok s = last (gen_tokens s))"
    using S'(3) by (auto simp: slots_ready_def slot_inv_def)
  then show ?thesis using S'(1,2) by (simp add: serving_def kShortFirstSteps_def)
qed

text \<open>Two decoding requests on the small pool; the second client leaves before the second pass, and the readers stall in the third.\<close>

theorem passes_lose_no_request_witness:
  "\<exists>S'. run_passes (demo_sched_env (qwen_engine demo_qwen_config demo_qwen_env) 64)
     [(\<lambda>_. False, \<lambda>_. False), (\<lambda>i. i = 1, \<lambda>_. False), (\<lambda>_. False, \<lambda>_. True)]
     (demo_sched \<lparr>q_offload = the demo_served, q_calls = 0\<rparr> [1, 2]) = Some S' \<and> accounts S' = {#1, 2#}"
proof -
  define env where "env = demo_sched_env (qwen_engine demo_qwen_config demo_qwen_env) 64"
  define S where "S = demo_sched \<lparr>q_offload = the demo_served, q_calls = 0\<rparr> [1, 2]"
  have a: "eng env = qwen_engine demo_qwen_config demo_qwen_env" "offload_budget env \<noteq> 0" "off_reachable (q_offload (engine S))"
    "0 \<le> short_first_steps S" "short_first_steps S \<le> 4"
    using demo_served_reachable by (simp_all add: env_def S_def demo_sched_env_def demo_sched_def)
  have acc: "accounts S = {#1, 2#}" "live_slots S = int (job_count S)"
    by (simp_all add: S_def demo_sched_def accounts_def job_count_def live_def demo_slot_def)
  have ready: "slots_ready env S" unfolding env_def S_def by (rule demo_sched_ready)
  have fresh: "offload_budget env = 0 \<longrightarrow> (\<forall>i < length (sched_slots S). \<not> state_parked (offload_state (q_offload (engine S)) (int i)))"
    using a(2) by simp
  from passes_lose_no_request [OF a(1,3) ready fresh acc(2) a(4,5), of "[(\<lambda>_. False, \<lambda>_. False), (\<lambda>i. i = 1, \<lambda>_. False), (\<lambda>_. False, \<lambda>_. True)]"]
  show ?thesis unfolding acc(1) env_def [symmetric] S_def [symmetric] by blast
qed

end
