(* ===== verification/Evict_Victim.thy ===== *)
theory Evict_Victim
  imports Prelude
begin

text \<open>
  Prefix-aware choice of an eviction victim (\<open>select_inline_evict_victim\<close> of
  \<open>server/kv/prefix_cache.cpp\<close>). Entries are given by their token lists in LRU order; the optional
  vectors of flags are options of bool lists, as the pointers of the code.
\<close>

definition is_strict_prefix :: "token list \<Rightarrow> token list \<Rightarrow> bool" where
  "is_strict_prefix a b \<longleftrightarrow> length a < length b \<and> take (length a) b = a"

lemma is_strict_prefix_iff: "is_strict_prefix a b \<longleftrightarrow> strict_prefix a b"
  by (auto simp: is_strict_prefix_def strict_prefix_def prefix_def) (metis append_take_drop_id)

definition is_protected :: "bool list option \<Rightarrow> nat \<Rightarrow> bool" where
  "is_protected protected_lru i = (case protected_lru of None \<Rightarrow> False | Some p \<Rightarrow> i < length p \<and> p ! i)"

definition is_skipped :: "int \<Rightarrow> bool list option \<Rightarrow> nat \<Rightarrow> bool" where
  "is_skipped skip_index held_lru i \<longleftrightarrow>
     int i = skip_index \<or> (case held_lru of None \<Rightarrow> False | Some h \<Rightarrow> i < length h \<and> h ! i)"

definition is_ancestor :: "token list list \<Rightarrow> nat \<Rightarrow> bool" where
  "is_ancestor ids i \<longleftrightarrow> (\<exists>j \<in> set [0..<length ids]. j \<noteq> i \<and> is_strict_prefix (ids ! i) (ids ! j))"

definition has_ancestor :: "token list list \<Rightarrow> nat \<Rightarrow> bool" where
  "has_ancestor ids i \<longleftrightarrow> (\<exists>j \<in> set [0..<length ids]. j \<noteq> i \<and> is_strict_prefix (ids ! j) (ids ! i))"

text \<open>The leaf scan: \<open>Inl\<close> is its early return, \<open>Inr\<close> the oldest protected leaf it saw.\<close>

fun leaf_scan :: "(nat \<Rightarrow> bool) \<Rightarrow> (nat \<Rightarrow> bool) \<Rightarrow> (nat \<Rightarrow> bool) \<Rightarrow> nat list \<Rightarrow> nat option \<Rightarrow> nat + nat option" where
  "leaf_scan skipped ancestor prot [] oldest = Inr oldest"
| "leaf_scan skipped ancestor prot (i # rest) oldest =
     (if skipped i \<or> ancestor i then leaf_scan skipped ancestor prot rest oldest
      else if \<not> prot i then Inl i
      else leaf_scan skipped ancestor prot rest (if oldest = None then Some i else oldest))"

fun shallow_scan :: "token list list \<Rightarrow> (nat \<Rightarrow> bool) \<Rightarrow> (nat \<Rightarrow> bool) \<Rightarrow> (nat \<Rightarrow> bool) \<Rightarrow> nat list \<Rightarrow> nat option \<Rightarrow> nat option" where
  "shallow_scan ids skipped ancestor prot [] best = best"
| "shallow_scan ids skipped ancestor prot (i # rest) best =
     (if skipped i \<or> prot i \<or> \<not> ancestor i then shallow_scan ids skipped ancestor prot rest best
      else shallow_scan ids skipped ancestor prot rest
             (case best of None \<Rightarrow> Some i
              | Some b \<Rightarrow> if length (ids ! i) < length (ids ! b) then Some i else best))"

definition select_inline_evict_victim :: "token list list \<Rightarrow> bool list option \<Rightarrow> int \<Rightarrow> bool list option \<Rightarrow> int" where
  "select_inline_evict_victim ids protected_lru skip_index held_lru =
     (let n = length ids; prot = is_protected protected_lru; skipped = is_skipped skip_index held_lru in
      if n = 0 then 0
      else case find (\<lambda>i. \<not> (skipped i \<or> prot i) \<and> is_ancestor ids i \<and> has_ancestor ids i) [0..<n] of
        Some i \<Rightarrow> int i
      | None \<Rightarrow>
          (case leaf_scan skipped (is_ancestor ids) prot [0..<n] None of
             Inl i \<Rightarrow> int i
           | Inr oldest_protected_leaf \<Rightarrow>
               (case (if skip_index \<ge> 0 then shallow_scan ids skipped (is_ancestor ids) prot [0..<n] None else None) of
                  Some i \<Rightarrow> int i
                | None \<Rightarrow>
                    (case oldest_protected_leaf of
                       Some i \<Rightarrow> int i
                     | None \<Rightarrow> if skip_index \<ge> 0 \<or> held_lru \<noteq> None then -1 else 0))))"

section \<open>The scans\<close>

lemma leaf_scan_Inl:
  "leaf_scan sk anc prot rest old = Inl i \<Longrightarrow> sorted rest \<Longrightarrow>
     i \<in> set rest \<and> \<not> sk i \<and> \<not> anc i \<and> \<not> prot i \<and> (\<forall>j \<in> set rest. \<not> sk j \<longrightarrow> \<not> anc j \<longrightarrow> \<not> prot j \<longrightarrow> i \<le> j)"
  by (induction sk anc prot rest old rule: leaf_scan.induct) (auto split: if_splits)

lemma leaf_scan_keeps: "leaf_scan sk anc prot rest (Some b) = Inr res \<Longrightarrow> res = Some b"
  by (induction rest) (auto split: if_splits)

lemma leaf_scan_Inr:
  "leaf_scan sk anc prot rest old = Inr res \<Longrightarrow> sorted rest \<Longrightarrow>
     (\<forall>i \<in> set rest. \<not> sk i \<longrightarrow> \<not> anc i \<longrightarrow> prot i) \<and>
     (res = None \<longrightarrow> old = None \<and> (\<forall>i \<in> set rest. \<not> sk i \<longrightarrow> anc i)) \<and>
     (\<forall>i. res = Some i \<longrightarrow> old = Some i \<or>
        i \<in> set rest \<and> \<not> sk i \<and> \<not> anc i \<and> (\<forall>j \<in> set rest. \<not> sk j \<longrightarrow> \<not> anc j \<longrightarrow> i \<le> j))"
proof (induction rest arbitrary: old)
  case (Cons i rest)
  have st: "sorted rest" "\<forall>j \<in> set rest. i \<le> j" using Cons.prems(2) by simp_all
  show ?case
  proof (cases "sk i \<or> anc i")
    case True
    then have "leaf_scan sk anc prot rest old = Inr res" using Cons.prems by simp
    from Cons.IH [OF this st(1)] show ?thesis using True by (intro conjI) auto
  next
    case False
    then have p: "prot i" "leaf_scan sk anc prot rest (if old = None then Some i else old) = Inr res"
      using Cons.prems by (auto split: if_splits)
    have "\<forall>i \<in> set rest. \<not> sk i \<longrightarrow> \<not> anc i \<longrightarrow> prot i"
      and some: "res \<noteq> None"
      using Cons.IH [OF p(2) st(1)] by (auto split: if_splits)
    moreover have "old = Some k \<or> k \<in> set (i # rest) \<and> \<not> sk k \<and> \<not> anc k \<and>
        (\<forall>j \<in> set (i # rest). \<not> sk j \<longrightarrow> \<not> anc j \<longrightarrow> k \<le> j)" if "res = Some k" for k
      using p(2) leaf_scan_keeps that False st(2) by (cases old) fastforce+
    ultimately show ?thesis using p(1) by auto
  qed
qed auto

text \<open>The shortest candidate, the first one among equals.\<close>

definition ahead :: "token list list \<Rightarrow> nat \<Rightarrow> nat \<Rightarrow> bool" where
  "ahead ids i j \<longleftrightarrow> length (ids ! i) < length (ids ! j) \<or> (length (ids ! i) = length (ids ! j) \<and> i \<le> j)"

lemma ahead_refl [simp]: "ahead ids i i"
  by (simp add: ahead_def)

lemma ahead_trans: "ahead ids i j \<Longrightarrow> ahead ids j k \<Longrightarrow> ahead ids i k"
  by (auto simp: ahead_def)

lemma shallow_scan_Some:
  assumes "shallow_scan ids sk anc prot rest best = Some i" "sorted rest" "\<And>b j. best = Some b \<Longrightarrow> j \<in> set rest \<Longrightarrow> b \<le> j"
  shows "(best = Some i \<or> i \<in> set rest \<and> \<not> sk i \<and> \<not> prot i \<and> anc i) \<and> (\<forall>b. best = Some b \<longrightarrow> ahead ids i b) \<and>
     (\<forall>j \<in> set rest. \<not> sk j \<longrightarrow> \<not> prot j \<longrightarrow> anc j \<longrightarrow> ahead ids i j)"
  using assms
proof (induction rest arbitrary: best)
  case (Cons j rest)
  have st: "sorted rest" "\<forall>k \<in> set rest. j \<le> k" using Cons.prems(2) by simp_all
  show ?case
  proof (cases "sk j \<or> prot j \<or> \<not> anc j")
    case True
    then have "shallow_scan ids sk anc prot rest best = Some i" using Cons.prems by simp
    from Cons.IH [OF this st(1)] Cons.prems(3) True show ?thesis by auto
  next
    case False
    define best' where "best' = (case best of None \<Rightarrow> Some j
       | Some b \<Rightarrow> if length (ids ! j) < length (ids ! b) then Some j else best)"
    have sc: "shallow_scan ids sk anc prot rest best' = Some i" using Cons.prems False by (simp add: best'_def)
    have b': "\<exists>b. best' = Some b \<and> (b = j \<or> best = Some b) \<and> ahead ids b j \<and> (\<forall>c. best = Some c \<longrightarrow> ahead ids b c)"
      using Cons.prems(3) by (cases best) (auto simp: best'_def ahead_def)
    then obtain b where b: "best' = Some b" "b = j \<or> best = Some b" "ahead ids b j" "\<And>c. best = Some c \<Longrightarrow> ahead ids b c" by blast
    have bs: "c \<le> k" if "best' = Some c" "k \<in> set rest" for c k using b(1,2) st(2) Cons.prems(3) that by auto
    have ih: "(best' = Some i \<or> i \<in> set rest \<and> \<not> sk i \<and> \<not> prot i \<and> anc i) \<and> (\<forall>b. best' = Some b \<longrightarrow> ahead ids i b) \<and>
       (\<forall>j \<in> set rest. \<not> sk j \<longrightarrow> \<not> prot j \<longrightarrow> anc j \<longrightarrow> ahead ids i j)" using Cons.IH [OF sc st(1) bs] by simp
    then have ib: "ahead ids i b" using b(1) by blast
    have "ahead ids i j" by (rule ahead_trans [OF ib b(3)])
    moreover have "ahead ids i c" if "best = Some c" for c by (rule ahead_trans [OF ib b(4) [OF that]])
    moreover have "best = Some i \<or> i \<in> set (j # rest) \<and> \<not> sk i \<and> \<not> prot i \<and> anc i" using ih b(1,2) False by auto
    ultimately show ?thesis using ih by auto
  qed
qed simp

lemma shallow_scan_None:
  "shallow_scan ids sk anc prot rest best = None \<Longrightarrow>
     best = None \<and> (\<forall>i \<in> set rest. \<not> sk i \<longrightarrow> \<not> prot i \<longrightarrow> \<not> anc i)"
proof (induction rest arbitrary: best)
  case (Cons j rest)
  show ?case
  proof (cases "sk j \<or> prot j \<or> \<not> anc j")
    case True
    then have "shallow_scan ids sk anc prot rest best = None" using Cons.prems by simp
    from Cons.IH [OF this] show ?thesis using True by auto
  next
    case False
    define best' where "best' = (case best of None \<Rightarrow> Some j
       | Some b \<Rightarrow> if length (ids ! j) < length (ids ! b) then Some j else best)"
    have "shallow_scan ids sk anc prot rest best' = None" using Cons.prems False by (simp add: best'_def)
    moreover have "best' \<noteq> None" by (auto simp: best'_def split: option.splits)
    ultimately show ?thesis using Cons.IH [of best'] by auto
  qed
qed simp

lemma longest_is_leaf:
  assumes "ids \<noteq> []"
  obtains i where "i < length ids" "\<not> is_ancestor ids i"
proof -
  define i where "i = arg_max (\<lambda>i. length (ids ! i)) (\<lambda>i. i < length ids)"
  have "0 < length ids" using assms by simp
  then have i: "i < length ids \<and> (\<forall>j. j < length ids \<longrightarrow> length (ids ! j) \<le> length (ids ! i))"
    unfolding i_def
    by (intro arg_max_nat_lemma [where P = "\<lambda>i. i < length ids" and f = "\<lambda>i. length (ids ! i)" and b = "Suc (Max (length ` set ids))"])
      (auto simp: less_Suc_eq_le)
  then have "\<not> is_ancestor ids i" by (auto simp: is_ancestor_def is_strict_prefix_def leD)
  with i that show ?thesis by blast
qed

section \<open>The choice\<close>

text \<open>
  How readily an entry is given up: a turn between a head and a newer snapshot first, then an unprotected leaf, then (with a restore source) an
  unprotected head, last a protected leaf. Everything else is not evictable.
\<close>

definition evict_rank :: "token list list \<Rightarrow> bool list option \<Rightarrow> int \<Rightarrow> bool list option \<Rightarrow> nat \<Rightarrow> nat option" where
  "evict_rank ids protected_lru skip_index held_lru i =
     (if is_skipped skip_index held_lru i then None
      else if is_protected protected_lru i then (if is_ancestor ids i then None else Some 3)
      else if \<not> is_ancestor ids i then Some 1
      else if has_ancestor ids i then Some 0
      else if skip_index \<ge> 0 then Some 2 else None)"

text \<open>The victim among the evictable entries: the lowest rank, then the least recently used, among unprotected heads the shortest.\<close>

definition best_victim :: "token list list \<Rightarrow> bool list option \<Rightarrow> int \<Rightarrow> bool list option \<Rightarrow> nat \<Rightarrow> bool" where
  "best_victim ids protected_lru skip_index held_lru i \<longleftrightarrow> i < length ids \<and>
     (\<exists>r. evict_rank ids protected_lru skip_index held_lru i = Some r \<and>
        (\<forall>j < length ids. \<forall>r'. evict_rank ids protected_lru skip_index held_lru j = Some r' \<longrightarrow>
           r < r' \<or> (r = r' \<and> (if r = 2 then ahead ids i j else i \<le> j))))"

lemma select_victim_cases:
  assumes ne: "ids \<noteq> []" and r: "r = select_inline_evict_victim ids protected_lru skip held"
  shows "(r = -1 \<and> (\<forall>i < length ids. evict_rank ids protected_lru skip held i = None)) \<or>
    (\<exists>i. r = int i \<and> best_victim ids protected_lru skip held i)"
proof -
  let ?sk = "is_skipped skip held" and ?pr = "is_protected protected_lru" and ?n = "length ids"
  let ?rank = "evict_rank ids protected_lru skip held"
  let ?mid = "\<lambda>i. \<not> (?sk i \<or> ?pr i) \<and> is_ancestor ids i \<and> has_ancestor ids i"
  have n: "?n \<noteq> 0" using ne by simp
  show ?thesis
  proof (cases "find ?mid [0..<?n]")
    case (Some i)
    then have i: "i < ?n" "?mid i" "\<forall>j < i. \<not> ?mid j" by (auto simp: find_Some_iff)
    have "?rank i = Some 0" using i(2) by (simp add: evict_rank_def)
    moreover have "0 < r' \<or> (0 = r' \<and> i \<le> j)" if "?rank j = Some r'" for j r'
      using that i(3) by (cases "i \<le> j") (auto simp: evict_rank_def not_le split: if_splits)
    ultimately have "best_victim ids protected_lru skip held i" using i(1) by (auto simp: best_victim_def)
    moreover have "r = int i" using r n Some by (simp add: select_inline_evict_victim_def Let_def)
    ultimately show ?thesis by blast
  next
    case None
    then have mid: "\<forall>i < ?n. \<not> ?mid i" by (auto simp: find_None_iff)
    show ?thesis
    proof (cases "leaf_scan ?sk (is_ancestor ids) ?pr [0..<?n] None")
      case (Inl i)
      then have i: "i < ?n" "\<not> ?sk i" "\<not> is_ancestor ids i" "\<not> ?pr i"
        "\<forall>j < ?n. \<not> ?sk j \<longrightarrow> \<not> is_ancestor ids j \<longrightarrow> \<not> ?pr j \<longrightarrow> i \<le> j" using leaf_scan_Inl [OF Inl] by auto
      have "?rank i = Some 1" using i(2-4) by (simp add: evict_rank_def)
      moreover have "1 < r' \<or> (1 = r' \<and> i \<le> j)" if "j < ?n" "?rank j = Some r'" for j r'
        using that i(5) mid by (auto simp: evict_rank_def split: if_splits)
      ultimately have "best_victim ids protected_lru skip held i" using i(1) unfolding best_victim_def by fastforce
      moreover have "r = int i" using r n None Inl by (simp add: select_inline_evict_victim_def Let_def)
      ultimately show ?thesis by blast
    next
      case (Inr opl)
      have leaf: "\<forall>i < ?n. \<not> ?sk i \<longrightarrow> \<not> is_ancestor ids i \<longrightarrow> ?pr i" "opl = None \<Longrightarrow> \<forall>i < ?n. \<not> ?sk i \<longrightarrow> is_ancestor ids i"
        "\<And>i. opl = Some i \<Longrightarrow> i < ?n \<and> \<not> ?sk i \<and> \<not> is_ancestor ids i \<and> (\<forall>j < ?n. \<not> ?sk j \<longrightarrow> \<not> is_ancestor ids j \<longrightarrow> i \<le> j)"
        using leaf_scan_Inr [OF Inr] by auto
      let ?sh = "if skip \<ge> 0 then shallow_scan ids ?sk (is_ancestor ids) ?pr [0..<?n] None else None"
      have rr: "r = (case ?sh of Some i \<Rightarrow> int i | None \<Rightarrow>
          (case opl of Some i \<Rightarrow> int i | None \<Rightarrow> if skip \<ge> 0 \<or> held \<noteq> None then -1 else 0))"
        using r n None Inr by (simp add: select_inline_evict_victim_def Let_def)
      show ?thesis
      proof (cases ?sh)
        case (Some i)
        then have sk: "skip \<ge> 0" and sc: "shallow_scan ids ?sk (is_ancestor ids) ?pr [0..<?n] None = Some i" by (auto split: if_splits)
        have i: "i < ?n" "\<not> ?sk i" "\<not> ?pr i" "is_ancestor ids i"
          "\<forall>j < ?n. \<not> ?sk j \<longrightarrow> \<not> ?pr j \<longrightarrow> is_ancestor ids j \<longrightarrow> ahead ids i j" using shallow_scan_Some [OF sc] by auto
        have "?rank i = Some 2" using i(1-4) mid sk by (auto simp: evict_rank_def)
        moreover have "2 < r' \<or> (2 = r' \<and> ahead ids i j)" if "j < ?n" "?rank j = Some r'" for j r'
          using that i(5) mid leaf(1) by (auto simp: evict_rank_def split: if_splits)
        ultimately have "best_victim ids protected_lru skip held i" using i(1) unfolding best_victim_def by fastforce
        then show ?thesis using rr Some by auto
      next
        case sh: None
        have no_anc: "skip \<ge> 0 \<longrightarrow> (\<forall>i < ?n. \<not> ?sk i \<longrightarrow> \<not> ?pr i \<longrightarrow> \<not> is_ancestor ids i)"
          using sh shallow_scan_None [of ids ?sk "is_ancestor ids" ?pr "[0..<?n]" None] by auto
        have unprot: "?rank j = None" if "j < ?n" "\<not> ?pr j" for j
          using that mid leaf(1) no_anc by (auto simp: evict_rank_def)
        show ?thesis
        proof (cases opl)
          case (Some i)
          note i = leaf(3) [OF Some]
          have "?rank i = Some 3" using i leaf(1) by (auto simp: evict_rank_def)
          moreover have "3 < r' \<or> (3 = r' \<and> i \<le> j)" if "j < ?n" "?rank j = Some r'" for j r'
            using that i unprot [of j] by (cases "?pr j") (auto simp: evict_rank_def split: if_splits)
          ultimately have "best_victim ids protected_lru skip held i" using i unfolding best_victim_def by fastforce
          then show ?thesis using rr sh Some by auto
        next
          case no_opl: None
          note all = leaf(2) [OF no_opl]
          have "skip \<ge> 0 \<or> held \<noteq> None"
          proof (rule ccontr)
            assume "\<not> ?thesis"
            then have "\<not> ?sk i" for i by (auto simp: is_skipped_def)
            then show False using all longest_is_leaf [OF ne] by metis
          qed
          moreover have "?rank i = None" if "i < ?n" for i using that all unprot [of i] by (cases "?pr i") (auto simp: evict_rank_def)
          ultimately show ?thesis using rr sh no_opl by auto
        qed
      qed
    qed
  qed
qed

lemma best_victimD:
  assumes "best_victim ids protected_lru skip held i"
  shows "i < length ids" "\<not> is_skipped skip held i"
  using assms by (auto simp: best_victim_def evict_rank_def split: if_splits)

text \<open>
  The eviction choice is exact. For a non-empty cache the answer is the best victim: of the lowest rank present (a turn kept between a head and a newer
  snapshot, then an unprotected leaf, then, with a restore source, an unprotected head, last a protected leaf), the least recently used of that rank, or
  the shortest when it is a head. The restore source, entries held by a capture in flight and protected entries that extend into others are never
  chosen. The answer is \<open>-1\<close> exactly when no entry is evictable, and without a restore source and held entries some entry always is.
\<close>

theorem evict_victim_choice:
  assumes ne: "ids \<noteq> []" and r: "r = select_inline_evict_victim ids protected_lru skip held"
  shows "(r = -1 \<longleftrightarrow> (\<forall>i < length ids. evict_rank ids protected_lru skip held i = None)) \<and>
    (r \<noteq> -1 \<longrightarrow> 0 \<le> r \<and> best_victim ids protected_lru skip held (nat r)) \<and> (skip < 0 \<longrightarrow> held = None \<longrightarrow> r \<noteq> -1)"
proof -
  note c = select_victim_cases [OF ne r]
  have one: "r = -1 \<longleftrightarrow> (\<forall>i < length ids. evict_rank ids protected_lru skip held i = None)"
    using c by (auto simp: best_victim_def)
  have "r \<noteq> -1" if none: "skip < 0" "held = None"
  proof
    assume "r = -1"
    moreover obtain i where i: "i < length ids" "\<not> is_ancestor ids i" by (rule longest_is_leaf [OF ne])
    moreover have "\<not> is_skipped skip held i" using none by (simp add: is_skipped_def)
    ultimately show False using one by (auto simp: evict_rank_def split: if_splits)
  qed
  then show ?thesis using one c by auto
qed

theorem evict_victim_choice_witness:
  "select_inline_evict_victim [[1], [1, 2, 3], [1, 2]] (Some [True, False, False]) (-1) None = 2 \<and>
   best_victim [[1], [1, 2, 3], [1, 2]] (Some [True, False, False]) (-1) None 2"
proof -
  have "select_inline_evict_victim [[1], [1, 2, 3], [1, 2]] (Some [True, False, False]) (-1) None = 2" by code_simp
  then show ?thesis
    using evict_victim_choice [OF _ refl, of "[[1], [1, 2, 3], [1, 2]]" "Some [True, False, False]" "-1" None] by auto
qed

end
