(* ===== verification/Chat_Boundaries.thy ===== *)
theory Chat_Boundaries
  imports Prelude
begin

text \<open>
  Chat-template boundaries in a rendered prompt (\<open>server/kv/chat_boundaries.h\<close>,
  \<open>chat_boundaries.cpp\<close>). The tokenizer is a record of the two calls made on it. A position
  search that fails is \<open>None\<close> where the code returns \<open>-1\<close>; strings are their UTF-8 bytes.
\<close>

section \<open>Markers\<close>

record Tokenizer =
  token_to_id :: "string \<Rightarrow> int"
  encode_text :: "string \<Rightarrow> token list"

record ChatMarkers =
  family :: string
  sys_role_prefix :: "token list"
  end_msg_seqs :: "token list list"
  next_role_starts :: "token list list"
  role_starts_delimit :: bool

definition exact_control_token :: "Tokenizer \<Rightarrow> string \<Rightarrow> int" where
  "exact_control_token tok marker =
     (let i = token_to_id tok marker in
      if i < 0 then -1
      else let encoded = encode_text tok marker in
        if length encoded = 1 \<and> encoded ! 0 = i then i else -1)"

text \<open>The full-width bar and the lower one eighth block of the DeepSeek control tokens.\<close>

definition fw_bar :: string where
  "fw_bar = [CHR 0xEF, CHR 0xBD, CHR 0x9C]"

definition fw_sp :: string where
  "fw_sp = [CHR 0xE2, CHR 0x96, CHR 0x81]"

definition resolve_chat_markers :: "Tokenizer \<Rightarrow> ChatMarkers \<Rightarrow> bool \<times> ChatMarkers" where
  "resolve_chat_markers tok out0 =
     (let out = out0\<lparr>role_starts_delimit := False\<rparr>;
          enc = encode_text tok;
          ds_bos = exact_control_token tok (''<'' @ fw_bar @ ''begin'' @ fw_sp @ ''of'' @ fw_sp @ ''sentence'' @ fw_bar @ ''>'');
          ds_eos = exact_control_token tok (''<'' @ fw_bar @ ''end'' @ fw_sp @ ''of'' @ fw_sp @ ''sentence'' @ fw_bar @ ''>'');
          ds_user = exact_control_token tok (''<'' @ fw_bar @ ''User'' @ fw_bar @ ''>'');
          ds_assistant = exact_control_token tok (''<'' @ fw_bar @ ''Assistant'' @ fw_bar @ ''>'') in
      if ds_bos \<ge> 0 \<and> ds_eos \<ge> 0 \<and> ds_user \<ge> 0 \<and> ds_assistant \<ge> 0
      then (True, out\<lparr>family := ''deepseek'', sys_role_prefix := [ds_bos], end_msg_seqs := [[ds_eos]],
              next_role_starts := [[ds_user], [ds_assistant]], role_starts_delimit := True\<rparr>)
      else let im_end = enc ''<|im_end|>''; im_start = enc ''<|im_start|>'' in
        if length im_end = 1 \<and> length im_start = 1
        then (let sys = enc ''system'' in
              (True, out\<lparr>family := ''qwen'',
                 sys_role_prefix := [im_start ! 0] @ (if length sys = 1 then [sys ! 0] else []),
                 end_msg_seqs := [[im_end ! 0]], next_role_starts := [[im_start ! 0]]\<rparr>))
        else let turn_start = enc ''<|turn>''; turn_end = enc ''<turn|>'' in
          if length turn_start = 1 \<and> length turn_end = 1
          then (True, out\<lparr>family := ''gemma'', sys_role_prefix := [turn_start ! 0],
                  end_msg_seqs := [[turn_end ! 0]], next_role_starts := [[turn_start ! 0]]\<rparr>)
          else let start_sys = enc ''<system>''; end_sys = enc ''</system>'';
                   start_usr = enc ''<user>''; end_usr = enc ''</user>'';
                   start_ast = enc ''<assistant>''; end_ast = enc ''</assistant>'' in
            if start_sys \<noteq> [] \<and> end_sys \<noteq> [] \<and> start_usr \<noteq> [] \<and> end_usr \<noteq> [] \<and> start_ast \<noteq> [] \<and> end_ast \<noteq> []
            then (True, out\<lparr>family := ''laguna'', sys_role_prefix := start_sys,
                    end_msg_seqs := [end_sys, end_usr, end_ast],
                    next_role_starts := [start_usr, start_ast, start_sys]\<rparr>)
            else (False, out))"

section \<open>Boundary search\<close>

definition seq_at :: "token list \<Rightarrow> nat \<Rightarrow> token list \<Rightarrow> bool" where
  "seq_at ids idx s \<longleftrightarrow> idx + length s \<le> length ids \<and> (\<forall>k < length s. ids ! (idx + k) = s ! k)"

definition find_first_seq :: "token list \<Rightarrow> token list \<Rightarrow> nat \<Rightarrow> nat option" where
  "find_first_seq ids s start =
     (if s = [] then None
      else find (\<lambda>i. ids ! i = s ! 0 \<and> seq_at ids i s) [start..<length ids + 1 - length s])"

text \<open>The earliest match over all sequences with its length; ties go to the earlier sequence.\<close>

definition better_match :: "token list \<Rightarrow> nat \<Rightarrow> (nat \<times> nat) option \<Rightarrow> token list \<Rightarrow> (nat \<times> nat) option" where
  "better_match ids start best s =
     (case find_first_seq ids s start of
        None \<Rightarrow> best
      | Some idx \<Rightarrow>
          (case best of
             None \<Rightarrow> Some (idx, length s)
           | Some (b, l) \<Rightarrow> if idx < b then Some (idx, length s) else best))"

definition find_first_seq_any :: "token list \<Rightarrow> token list list \<Rightarrow> nat \<Rightarrow> (nat \<times> nat) option" where
  "find_first_seq_any ids seqs start = foldl (better_match ids start) None seqs"

definition role_after :: "token list \<Rightarrow> token list list \<Rightarrow> nat \<Rightarrow> (nat \<times> token list) option" where
  "role_after ids starts after_end =
     find (\<lambda>(probe, s). seq_at ids probe s) (List.product (map (\<lambda>skip. after_end + skip) [0..<5]) starts)"

lemma find_first_seq_Some:
  assumes "find_first_seq ids s start = Some i"
  shows "start \<le> i" "s \<noteq> []" "i + length s \<le> length ids" "seq_at ids i s"
  using assms by (auto simp: find_first_seq_def find_Some_iff seq_at_def split: if_splits)

lemma foldl_better_Some:
  "foldl (better_match ids start) best seqs = Some (i, l) \<Longrightarrow>
     best = Some (i, l) \<or> (\<exists>s \<in> set seqs. find_first_seq ids s start = Some i \<and> l = length s)"
proof (induction seqs arbitrary: best)
  case (Cons s seqs)
  from Cons.IH [of "better_match ids start best s"] Cons.prems show ?case
    by (auto simp: better_match_def split: option.splits if_splits)
qed simp

lemma find_first_seq_any_Some:
  assumes "find_first_seq_any ids seqs start = Some (i, l)"
  shows "\<exists>s \<in> set seqs. seq_at ids i s \<and> l = length s" "start \<le> i" "0 < l" "i + l \<le> length ids"
  using foldl_better_Some [OF assms [unfolded find_first_seq_any_def]]
  by (auto dest: find_first_seq_Some)

lemma find_any_bounds:
  "find_first_seq_any ids seqs start = Some (i, l) \<Longrightarrow> start \<le> i \<and> 0 < l \<and> i + l \<le> length ids"
  using find_first_seq_any_Some by blast

lemma role_after_Some:
  assumes "role_after ids starts a = Some (p, s)"
  shows "a \<le> p" "p < a + 5" "s \<in> set starts" "seq_at ids p s"
  using assms [unfolded role_after_def, THEN find_SomeD] by auto

text \<open>The two scanning loops; the cursor strictly advances, so both end.\<close>

function role_cuts :: "token list \<Rightarrow> token list list \<Rightarrow> nat \<Rightarrow> nat list" where
  "role_cuts ids starts cursor =
     (case find_first_seq_any ids starts cursor of
        None \<Rightarrow> []
      | Some (idx, len) \<Rightarrow> (idx + len) # role_cuts ids starts (idx + len))"
  by pat_completeness auto
termination
  by (relation "measure (\<lambda>(ids, starts, cursor). length ids - cursor)")
    (auto dest!: find_any_bounds)

function message_cuts :: "token list \<Rightarrow> token list list \<Rightarrow> token list list \<Rightarrow> nat \<Rightarrow> nat \<Rightarrow> nat list" where
  "message_cuts ids ends starts cursor stray_skips =
     (case find_first_seq_any ids ends cursor of
        None \<Rightarrow> []
      | Some (end_idx, end_len) \<Rightarrow>
          (let after_end = end_idx + end_len in
           case role_after ids starts after_end of
             None \<Rightarrow> if Suc stray_skips > 8192 then [] else message_cuts ids ends starts after_end (Suc stray_skips)
           | Some (next_match, s) \<Rightarrow>
               (let boundary = next_match + length s in
                boundary # message_cuts ids ends starts boundary 0)))"
  by pat_completeness auto
termination
proof (relation "measure (\<lambda>(ids, ends, starts, cursor, stray). length ids - cursor)", goal_cases)
  case (2 ids ends starts cursor stray x end_idx end_len after_end)
  then show ?case by (auto dest!: find_any_bounds)
next
  case (3 ids ends starts cursor stray x end_idx end_len after_end x2 next_match s boundary)
  then show ?case
    using find_first_seq_any_Some(2,3,4) [of ids ends cursor end_idx end_len] role_after_Some [of ids starts after_end next_match s]
    by (auto simp: seq_at_def)
qed simp

declare role_cuts.simps [simp del] message_cuts.simps [simp del]

definition find_all_boundaries :: "token list \<Rightarrow> ChatMarkers \<Rightarrow> nat list" where
  "find_all_boundaries ids markers =
     (let first_start = find_first_seq_any ids (next_role_starts markers) 0;
          sys_start = (case find_first_seq ids (sys_role_prefix markers) 0 of
             None \<Rightarrow> None | Some i \<Rightarrow> Some (i, length (sys_role_prefix markers)));
          start = (case first_start of
             None \<Rightarrow> sys_start
           | Some (i, l) \<Rightarrow> (case sys_start of None \<Rightarrow> Some (i, l)
                             | Some (j, m) \<Rightarrow> if i < j then Some (i, l) else sys_start)) in
      case start of
        None \<Rightarrow> []
      | Some (start_idx, start_len) \<Rightarrow>
          if start_len = 0 then []
          else let cursor = start_idx + start_len in
            if role_starts_delimit markers then role_cuts ids (next_role_starts markers) cursor
            else message_cuts ids (end_msg_seqs markers) (next_role_starts markers) cursor 0)"

section \<open>Every boundary closes a role marker\<close>

text \<open>A valid cut list: strictly ascending, above \<open>lo\<close>, within the prompt, each cut right after a role start.\<close>

definition cuts_ok :: "token list \<Rightarrow> token list list \<Rightarrow> nat \<Rightarrow> nat list \<Rightarrow> bool" where
  "cuts_ok ids starts lo cuts \<longleftrightarrow> sorted_wrt (<) cuts \<and>
     (\<forall>b \<in> set cuts. lo < b \<and> b \<le> length ids \<and> (\<exists>s \<in> set starts. length s \<le> b \<and> seq_at ids (b - length s) s))"

lemma cuts_ok_Cons:
  assumes "cuts_ok ids starts b cuts" "lo < b" "s \<in> set starts" "seq_at ids p s" "b = p + length s"
  shows "cuts_ok ids starts lo (b # cuts)"
proof -
  have "length s \<le> b" "seq_at ids (b - length s) s" "b \<le> length ids" using assms(4,5) by (auto simp: seq_at_def)
  then have "\<exists>s \<in> set starts. length s \<le> b \<and> seq_at ids (b - length s) s" "b \<le> length ids" using assms(3) by blast+
  then show ?thesis using assms(1,2) unfolding cuts_ok_def by (auto intro: less_trans)
qed

lemma cuts_ok_mono: "cuts_ok ids starts lo cuts \<Longrightarrow> lo' \<le> lo \<Longrightarrow> cuts_ok ids starts lo' cuts"
  by (auto simp: cuts_ok_def)

lemma role_cuts_ok: "cuts_ok ids starts cursor (role_cuts ids starts cursor)"
proof (induction ids starts cursor rule: role_cuts.induct)
  case (1 ids starts cursor)
  show ?case
  proof (cases "find_first_seq_any ids starts cursor")
    case None
    then show ?thesis by (simp add: role_cuts.simps [of ids] cuts_ok_def)
  next
    case (Some m)
    obtain idx len where m: "m = (idx, len)" by fastforce
    note f = find_first_seq_any_Some [OF Some [unfolded m]]
    obtain s where "s \<in> set starts" "seq_at ids idx s" "len = length s" using f(1) by auto
    moreover have "cursor < idx + len" using f(2,3) by linarith
    ultimately have "cuts_ok ids starts cursor ((idx + len) # role_cuts ids starts (idx + len))"
      by (intro cuts_ok_Cons [OF "1.IH" [OF Some m [symmetric]]]) auto
    then show ?thesis using Some m by (subst role_cuts.simps) simp
  qed
qed

lemma message_cuts_ok: "cuts_ok ids starts cursor (message_cuts ids ends starts cursor k)"
proof (induction ids ends starts cursor k rule: message_cuts.induct)
  case (1 ids ends starts cursor k)
  show ?case
  proof (cases "find_first_seq_any ids ends cursor")
    case None
    then show ?thesis by (simp add: message_cuts.simps [of ids] cuts_ok_def)
  next
    case (Some m)
    obtain e l where m: "m = (e, l)" by fastforce
    note f = find_first_seq_any_Some [OF Some [unfolded m]]
    show ?thesis
    proof (cases "role_after ids starts (e + l)")
      case None
      show ?thesis
      proof (cases "Suc k > 8192")
        case True
        then show ?thesis using Some m None by (subst message_cuts.simps) (simp add: cuts_ok_def)
      next
        case False
        then have "cuts_ok ids starts (e + l) (message_cuts ids ends starts (e + l) (Suc k))"
          using "1.IH"(1) [OF Some m [symmetric] refl None] by simp
        then show ?thesis
          using Some m None False f(2) by (subst message_cuts.simps) (auto intro: cuts_ok_mono)
      qed
    next
      case r: (Some q)
      obtain p s where q: "q = (p, s)" by fastforce
      note ra = role_after_Some [OF r [unfolded q]]
      have "cuts_ok ids starts (p + length s) (message_cuts ids ends starts (p + length s) 0)"
        using "1.IH"(2) [OF Some m [symmetric] refl r q [symmetric] refl] .
      then have "cuts_ok ids starts cursor ((p + length s) # message_cuts ids ends starts (p + length s) 0)"
        using ra f(2,3) by (intro cuts_ok_Cons) auto
      then show ?thesis using Some m r q by (subst message_cuts.simps) (simp add: Let_def)
    qed
  qed
qed

text \<open>
  The boundaries of a prompt are strictly ascending positions inside it, and each one stands
  right after a role-start marker: every cut the cache may key a checkpoint at ends a rendered
  role header.
\<close>

theorem boundaries_follow_role_starts:
  shows "sorted_wrt (<) (find_all_boundaries ids markers) \<and>
    (\<forall>b \<in> set (find_all_boundaries ids markers). 0 < b \<and> b \<le> length ids \<and>
       (\<exists>s \<in> set (next_role_starts markers). length s \<le> b \<and> seq_at ids (b - length s) s))"
proof -
  have "cuts_ok ids (next_role_starts markers) 0 (find_all_boundaries ids markers)"
    unfolding find_all_boundaries_def Let_def
    by (auto simp: cuts_ok_def [of _ _ _ "[]"] split: option.splits prod.splits
        intro: cuts_ok_mono [OF role_cuts_ok] cuts_ok_mono [OF message_cuts_ok])
  then show ?thesis by (auto simp: cuts_ok_def)
qed

section \<open>Witness\<close>

definition demo_markers :: ChatMarkers where
  "demo_markers = \<lparr>family = ''qwen'', sys_role_prefix = [1, 5], end_msg_seqs = [[2]],
     next_role_starts = [[1]], role_starts_delimit = False\<rparr>"

theorem boundaries_follow_role_starts_witness:
  "find_all_boundaries [1, 5, 9, 2, 8, 1, 7, 2, 1, 6] demo_markers = [6, 9] \<and>
   (\<exists>s \<in> set (next_role_starts demo_markers). length s \<le> 6 \<and> seq_at [1, 5, 9, 2, 8, 1, 7, 2, 1, 6] (6 - length s) s)"
proof -
  have "find_all_boundaries [1, 5, 9, 2, 8, 1, 7, 2, 1, 6] demo_markers = [6, 9]" by code_simp
  then show ?thesis
    using boundaries_follow_role_starts [of "[1, 5, 9, 2, 8, 1, 7, 2, 1, 6]" demo_markers] by simp
qed

end
