(* ===== verification/Cuts.thy ===== *)
theory Cuts
  imports Chat_Boundaries
begin

text \<open>
  Where a request may checkpoint its prompt and where prefill is cut (\<open>server/kv/cuts.h\<close>,
  \<open>cuts.cpp\<close>): pure functions of the prompt's boundaries, on C++ ints.
\<close>

definition usable_cut :: "int \<Rightarrow> int \<Rightarrow> int \<Rightarrow> bool" where
  "usable_cut restored_prefix_len reachable_from c \<longleftrightarrow> c > restored_prefix_len \<and> c \<ge> reachable_from"

definition select_inline_snapshot_boundary :: "int list \<Rightarrow> int \<Rightarrow> bool \<Rightarrow> int \<Rightarrow> int" where
  "select_inline_snapshot_boundary boundaries restored_prefix_len prefer_head reachable_from =
     (if boundaries = [] then 0
      else if prefer_head \<and> usable_cut restored_prefix_len reachable_from (hd boundaries) then hd boundaries
      else if usable_cut restored_prefix_len reachable_from (last boundaries) then last boundaries else 0)"

fun keep_spaced :: "int \<Rightarrow> int list \<Rightarrow> int list \<Rightarrow> int list" where
  "keep_spaced min_gap kept [] = kept"
| "keep_spaced min_gap kept (b # bs) =
     keep_spaced min_gap (if kept = [] \<or> b - last kept \<ge> min_gap then kept @ [b] else kept) bs"

definition spaced_restore_points :: "int list \<Rightarrow> int \<Rightarrow> int list" where
  "spaced_restore_points boundaries min_gap =
     (if min_gap \<le> 0 then boundaries else keep_spaced min_gap [] boundaries)"

text \<open>\<open>std::sort\<close> followed by \<open>std::unique\<close>: adjacent duplicates collapse to the first.\<close>

definition prefix_restore_points :: "token list \<Rightarrow> ChatMarkers \<Rightarrow> int list \<Rightarrow> bool \<Rightarrow> int \<Rightarrow> int list" where
  "prefix_restore_points prompt markers cuts drop_last_boundary spacing =
     (let points = map int (find_all_boundaries prompt markers);
          points = (if drop_last_boundary \<and> points \<noteq> [] then butlast points else points);
          points = spaced_restore_points points spacing;
          points = points @ filter (\<lambda>c. c > 0 \<and> c < int (length prompt)) cuts
      in remdups_adj (sort points))"

definition should_force_inline_snapshot_boundary :: "int list \<Rightarrow> int \<Rightarrow> int \<Rightarrow> bool \<Rightarrow> int \<Rightarrow> int \<Rightarrow> bool" where
  "should_force_inline_snapshot_boundary boundaries prompt_len restored_prefix_len prefer_tools_boundary
     forced_cut reachable_from =
     (let tools_pin_restored = (prefer_tools_boundary \<and> boundaries \<noteq> [] \<and> restored_prefix_len \<ge> hd boundaries)
      in \<not> tools_pin_restored \<and> forced_cut > restored_prefix_len \<and> forced_cut \<ge> reachable_from \<and>
         forced_cut \<le> prompt_len)"

section \<open>Properties\<close>

lemma selected_boundary_usable:
  assumes "select_inline_snapshot_boundary bs restored prefer reach \<noteq> 0"
  shows "select_inline_snapshot_boundary bs restored prefer reach \<in> set bs"
    "restored < select_inline_snapshot_boundary bs restored prefer reach"
    "reach \<le> select_inline_snapshot_boundary bs restored prefer reach"
  using assms by (auto simp: select_inline_snapshot_boundary_def usable_cut_def split: if_splits)

lemma keep_spaced_append: "\<exists>zs. keep_spaced g kept bs = kept @ zs \<and> set zs \<subseteq> set bs"
proof (induction bs arbitrary: kept)
  case (Cons b bs)
  from Cons.IH [of "if kept = [] \<or> b - last kept \<ge> g then kept @ [b] else kept"] show ?case by auto
qed simp

lemma keep_spaced_split: "keep_spaced g kept (xs @ ys) = keep_spaced g (keep_spaced g kept xs) ys"
  by (induction xs arbitrary: kept) auto

lemma keep_spaced_gap:
  assumes "\<forall>i. Suc i < length kept \<longrightarrow> kept ! i + g \<le> kept ! Suc i"
  shows "\<forall>i. Suc i < length (keep_spaced g kept bs) \<longrightarrow> keep_spaced g kept bs ! i + g \<le> keep_spaced g kept bs ! Suc i"
  using assms
proof (induction bs arbitrary: kept)
  case (Cons b bs)
  show ?case
  proof (cases "kept = [] \<or> b - last kept \<ge> g")
    case True
    have "\<forall>i. Suc i < length (kept @ [b]) \<longrightarrow> (kept @ [b]) ! i + g \<le> (kept @ [b]) ! Suc i"
    proof (intro allI impI)
      fix i assume i: "Suc i < length (kept @ [b])"
      show "(kept @ [b]) ! i + g \<le> (kept @ [b]) ! Suc i"
      proof (cases "Suc i < length kept")
        case False
        then have "Suc i = length kept" using i by simp
        moreover from this have "last kept = kept ! i" by (metis diff_Suc_1 last_conv_nth length_0_conv nat.distinct(1))
        ultimately show ?thesis using True by (auto simp: nth_append)
      qed (use Cons.prems in \<open>auto simp: nth_append\<close>)
    qed
    then show ?thesis using Cons.IH [of "kept @ [b]"] True by simp
  qed (use Cons in simp)
qed simp

text \<open>
  Restore points are prefix-stable and spaced: the points of a prompt's boundaries are a prefix
  of the points of any longer boundary list that extends them, they are boundaries, the first
  boundary is always one, and consecutive points are at least \<open>min_gap\<close> apart.
\<close>

theorem spaced_points_prefix_stable:
  shows "prefix (spaced_restore_points xs g) (spaced_restore_points (xs @ ys) g) \<and>
    set (spaced_restore_points xs g) \<subseteq> set xs \<and>
    (xs \<noteq> [] \<longrightarrow> hd (spaced_restore_points xs g) = hd xs) \<and>
    (0 < g \<longrightarrow> (\<forall>i. Suc i < length (spaced_restore_points xs g) \<longrightarrow>
       spaced_restore_points xs g ! i + g \<le> spaced_restore_points xs g ! Suc i))"
proof (intro conjI impI)
  show "prefix (spaced_restore_points xs g) (spaced_restore_points (xs @ ys) g)"
    using keep_spaced_append [of g "keep_spaced g [] xs" ys]
    by (auto simp: spaced_restore_points_def keep_spaced_split prefix_def)
  show "set (spaced_restore_points xs g) \<subseteq> set xs"
    using keep_spaced_append [of g "[]" xs] by (auto simp: spaced_restore_points_def)
  show "hd (spaced_restore_points xs g) = hd xs" if "xs \<noteq> []"
    using that keep_spaced_append [of g "[hd xs]" "tl xs"]
    by (cases xs) (auto simp: spaced_restore_points_def)
  show "\<forall>i. Suc i < length (spaced_restore_points xs g) \<longrightarrow>
       spaced_restore_points xs g ! i + g \<le> spaced_restore_points xs g ! Suc i" if "0 < g"
    using keep_spaced_gap [of "[]" g xs] that by (simp add: spaced_restore_points_def)
qed

theorem spaced_points_prefix_stable_witness:
  "prefix (spaced_restore_points [10, 12, 40] 16) (spaced_restore_points ([10, 12, 40] @ [44, 90]) 16) \<and>
   spaced_restore_points [10, 12, 40] 16 = [10, 40] \<and>
   spaced_restore_points [10, 12, 40] 16 ! 0 + 16 \<le> spaced_restore_points [10, 12, 40] 16 ! Suc 0"
proof -
  have "spaced_restore_points [10, 12, 40] 16 = [10, 40]" by code_simp
  then show ?thesis using spaced_points_prefix_stable [of "[10, 12, 40]" 16 "[44, 90]"] by simp
qed

lemma find_all_boundaries_bounds:
  "b \<in> set (find_all_boundaries ids markers) \<Longrightarrow> 0 < b \<and> b \<le> length ids"
  unfolding find_all_boundaries_def Let_def
  using role_cuts_ok message_cuts_ok by (fastforce simp: cuts_ok_def split: option.splits prod.splits if_splits)

text \<open>The points prefill is cut at are strictly ascending positions within the prompt.\<close>

lemma restore_points_ascending:
  "sorted (prefix_restore_points prompt markers cuts d sp) \<and> distinct (prefix_restore_points prompt markers cuts d sp) \<and>
   (\<forall>c \<in> set (prefix_restore_points prompt markers cuts d sp). 0 < c \<and> c \<le> int (length prompt))"
proof -
  let ?bs = "map int (find_all_boundaries prompt markers)"
  let ?xs = "if d \<and> ?bs \<noteq> [] then butlast ?bs else ?bs"
  define pts where "pts = spaced_restore_points ?xs sp @ filter (\<lambda>c. c > 0 \<and> c < int (length prompt)) cuts"
  have eq: "prefix_restore_points prompt markers cuts d sp = remdups_adj (sort pts)"
    by (simp only: prefix_restore_points_def Let_def pts_def)
  have "set ?xs \<subseteq> set ?bs" by (auto dest: in_set_butlastD)
  moreover have "set (spaced_restore_points ?xs sp) \<subseteq> set ?xs"
    using keep_spaced_append [of sp "[]" ?xs] by (auto simp: spaced_restore_points_def)
  ultimately have "set (spaced_restore_points ?xs sp) \<subseteq> int ` set (find_all_boundaries prompt markers)" by auto
  then have "\<forall>c \<in> set pts. 0 < c \<and> c \<le> int (length prompt)"
    unfolding pts_def using find_all_boundaries_bounds by fastforce
  moreover have "sorted (remdups_adj (sort pts)) \<and> distinct (remdups_adj (sort pts))"
    by (intro conjI sorted_remdups_adj distinct_remdups_adj_sorted sorted_sort)
  ultimately show ?thesis unfolding eq by simp
qed

end
