(* ===== verification/Prefix_Hash.thy ===== *)
theory Prefix_Hash
  imports Prelude
begin

text \<open>
  The key of a cached prefix (\<open>server/kv/prefix_hash.cpp\<close>): the first 16 bytes of the SHA-1
  (\<open>common/sha1.h\<close>) of the token count and the token ids, little endian. Bytes and machine words
  are HOL words; \<open>memcpy\<close> of an integer is its little-endian byte list. The FNV-1a hash of
  \<open>common/fnv.h\<close> is modelled beside it.
\<close>

unbundle bit_operations_syntax

type_synonym byte = "8 word"
type_synonym u32w = "32 word"

section \<open>SHA-1\<close>

definition rotl :: "u32w \<Rightarrow> nat \<Rightarrow> u32w" where
  "rotl x n = push_bit n x OR drop_bit (32 - n) x"

text \<open>The padded length: the first multiple of 64 plus 56 past the message and its \<open>0x80\<close>.\<close>

function pad_len :: "nat \<Rightarrow> nat" where
  "pad_len new_len = (if new_len mod 64 \<noteq> 56 then pad_len (new_len + 1) else new_len)"
  by pat_completeness auto
termination
proof (relation "measure (\<lambda>n. (63 - (n + 7) mod 64))", goal_cases)
  case (2 n)
  define r where "r = n mod 64"
  have r: "r < 64" "r \<noteq> 56" using 2 by (auto simp: r_def)
  have mods: "(n + k) mod 64 = (if r + k < 64 then r + k else r + k - 64)" if "k < 64" for k
    using r(1) that mod_add_left_eq [of n 64 k] unfolding r_def by (cases "n mod 64 + k < 64") (simp_all add: le_mod_geq)
  show ?case using r mods [of 7] mods [of 8] 2 by (auto simp: add.commute [of n])
qed simp

declare pad_len.simps [simp del]

definition sha1_message :: "byte list \<Rightarrow> byte list" where
  "sha1_message data =
     (let len = length data; new_len = pad_len (len + 1);
          bit_len = (word_of_nat (len * 8) :: u64) in
      data @ [0x80] @ replicate (new_len - len - 1) 0 @
      map (\<lambda>i. ucast (drop_bit (56 - 8 * i) bit_len)) [0..<8])"

definition load32 :: "byte list \<Rightarrow> nat \<Rightarrow> u32w" where
  "load32 msg i = push_bit 24 (ucast (msg ! i)) OR push_bit 16 (ucast (msg ! (i + 1))) OR
     push_bit 8 (ucast (msg ! (i + 2))) OR ucast (msg ! (i + 3))"

fun extend_schedule :: "nat \<Rightarrow> u32w list \<Rightarrow> u32w list" where
  "extend_schedule 0 w = w"
| "extend_schedule (Suc n) w =
     (let i = length w in
      extend_schedule n (w @ [rotl (w ! (i - 3) XOR w ! (i - 8) XOR w ! (i - 14) XOR w ! (i - 16)) 1]))"

definition schedule :: "byte list \<Rightarrow> nat \<Rightarrow> u32w list" where
  "schedule msg offset = extend_schedule 64 (map (\<lambda>i. load32 msg (offset + 4 * i)) [0..<16])"

type_synonym sha_state = "u32w \<times> u32w \<times> u32w \<times> u32w \<times> u32w"

definition sha1_round :: "u32w list \<Rightarrow> sha_state \<Rightarrow> nat \<Rightarrow> sha_state" where
  "sha1_round w = (\<lambda>(a, b, c, d, e) i.
     let (f, k) = (if i < 20 then ((b AND c) OR (NOT b AND d), 0x5A827999)
                   else if i < 40 then (b XOR c XOR d, 0x6ED9EBA1)
                   else if i < 60 then ((b AND c) OR (b AND d) OR (c AND d), 0x8F1BBCDC)
                   else (b XOR c XOR d, 0xCA62C1D6));
         temp = rotl a 5 + f + e + k + w ! i
     in (temp, a, rotl b 30, c, d))"

definition sha1_block :: "byte list \<Rightarrow> sha_state \<Rightarrow> nat \<Rightarrow> sha_state" where
  "sha1_block msg = (\<lambda>(h0, h1, h2, h3, h4) offset.
     let (a, b, c, d, e) = foldl (sha1_round (schedule msg offset)) (h0, h1, h2, h3, h4) [0..<80]
     in (h0 + a, h1 + b, h2 + c, h3 + d, h4 + e))"

definition store32 :: "u32w \<Rightarrow> byte list" where
  "store32 v = [ucast (drop_bit 24 v), ucast (drop_bit 16 v), ucast (drop_bit 8 v), ucast v]"

definition sha1_hash :: "byte list \<Rightarrow> byte list" where
  "sha1_hash data =
     (let msg = sha1_message data;
          (h0, h1, h2, h3, h4) = foldl (sha1_block msg)
             (0x67452301, 0xEFCDAB89, 0x98BADCFE, 0x10325476, 0xC3D2E1F0)
             (map (\<lambda>i. 64 * i) [0..<(length msg + 63) div 64])
      in store32 h0 @ store32 h1 @ store32 h2 @ store32 h3 @ store32 h4)"

section \<open>The prefix key\<close>

definition le32 :: "u32w \<Rightarrow> byte list" where
  "le32 v = [ucast v, ucast (drop_bit 8 v), ucast (drop_bit 16 v), ucast (drop_bit 24 v)]"

text \<open>\<open>ids\<close> is the array the pointer names; \<open>count\<close> of its elements are hashed.\<close>

definition hash_input :: "token list \<Rightarrow> int \<Rightarrow> byte list" where
  "hash_input ids n =
     (let n' = nat (max n 0) in
      le32 (word_of_nat n') @ concat (map (\<lambda>t. le32 (word_of_int t)) (take n' ids)))"

definition hash_prefix :: "token list \<Rightarrow> int \<Rightarrow> byte list" where
  "hash_prefix ids n = take 16 (sha1_hash (hash_input ids n))"

definition hex_digit :: "nat \<Rightarrow> char" where
  "hex_digit n = ''0123456789abcdef'' ! n"

definition hex_string :: "byte list \<Rightarrow> nat \<Rightarrow> string" where
  "hex_string data len =
     concat (map (\<lambda>i. [hex_digit (unat (drop_bit 4 (data ! i))), hex_digit (unat (data ! i AND 0x0F))]) [0..<len])"

section \<open>FNV-1a\<close>

definition kFnvBasis :: u64 where
  "kFnvBasis = 1469598103934665603"

definition kFnvPrime :: u64 where
  "kFnvPrime = 1099511628211"

definition fnv1a_mix :: "u64 \<Rightarrow> u64 \<Rightarrow> u64" where
  "fnv1a_mix h w = (h XOR w) * kFnvPrime"

definition fnv1a_bytes :: "u64 \<Rightarrow> byte list \<Rightarrow> u64" where
  "fnv1a_bytes h bytes = foldl (\<lambda>h b. fnv1a_mix h (ucast b)) h bytes"

section \<open>Properties\<close>

lemma le32_inj: "le32 v = le32 v' \<Longrightarrow> v = v'"
proof (rule bit_word_eqI)
  fix n assume eq: "le32 v = le32 v'" and n: "n < LENGTH(32)"
  have step: "bit v n = bit v' n" if "k \<in> {0, 8, 16, 24}" "k \<le> n" "n < k + 8" for k
  proof -
    have "bit (ucast (drop_bit k v) :: byte) (n - k) = bit (ucast (drop_bit k v') :: byte) (n - k)"
      using eq that(1) by (auto simp: le32_def)
    moreover have "n - k < 8" "k + (n - k) = n" using that by linarith+
    ultimately show ?thesis by (simp add: bit_ucast_iff bit_drop_bit_eq)
  qed
  consider "n < 8" | "8 \<le> n" "n < 16" | "16 \<le> n" "n < 24" | "24 \<le> n" "n < 32" using n by force
  then show "bit v n = bit v' n"
    by cases (use step [of 0] step [of 8] step [of 16] step [of 24] in simp_all)
qed

lemma length_le32 [simp]: "length (le32 v) = 4"
  by (simp add: le32_def)

lemma concat_le32_inj:
  "concat (map (\<lambda>t. le32 (f t)) xs) = concat (map (\<lambda>t. le32 (f t)) ys) \<Longrightarrow> map f xs = map f ys"
proof (induction xs arbitrary: ys)
  case Nil
  then show ?case by (cases ys) (auto simp: le32_def)
next
  case (Cons x xs)
  then obtain y ys' where ys: "ys = y # ys'" by (cases ys) (auto simp: le32_def)
  with Cons.prems have "le32 (f x) = le32 (f y) \<and> concat (map (\<lambda>t. le32 (f t)) xs) = concat (map (\<lambda>t. le32 (f t)) ys')"
    by (intro append_eq_append_conv [THEN iffD1]) auto
  then show ?case using Cons.IH ys le32_inj by auto
qed

text \<open>Token ids are 32-bit signed integers.\<close>

definition is_int32 :: "int \<Rightarrow> bool" where
  "is_int32 t \<longleftrightarrow> - 2147483648 \<le> t \<and> t \<le> 2147483647"

lemma word_of_int32_inj:
  assumes "is_int32 s" "is_int32 t" "(word_of_int s :: u32w) = word_of_int t"
  shows "s = t"
proof -
  have "s mod 4294967296 = t mod 4294967296" using assms(3) by (simp add: word_of_int_eq_iff take_bit_eq_mod)
  then have "4294967296 dvd s - t" by (simp add: mod_eq_dvd_iff)
  moreover have "\<bar>s - t\<bar> < 4294967296" using assms(1,2) by (simp add: is_int32_def abs_less_iff)
  ultimately show ?thesis using zdvd_imp_le [of 4294967296 "\<bar>s - t\<bar>"] by force
qed

text \<open>
  The hashed byte string determines the prefix: two token lists whose key input agrees are
  equal, so equal keys of different prefixes can only come from a collision of truncated SHA-1,
  never from the encoding.
\<close>

theorem hash_input_injective:
  assumes "\<forall>t \<in> set xs. is_int32 t" "\<forall>t \<in> set ys. is_int32 t"
  shows "hash_input xs (int (length xs)) = hash_input ys (int (length ys)) \<longleftrightarrow> xs = ys"
proof
  let ?f = "\<lambda>t. word_of_int t :: u32w"
  assume "hash_input xs (int (length xs)) = hash_input ys (int (length ys))"
  then have "concat (map (\<lambda>t. le32 (?f t)) xs) = concat (map (\<lambda>t. le32 (?f t)) ys)"
    by (auto simp: hash_input_def Let_def le32_def)
  then have "map ?f xs = map ?f ys" by (rule concat_le32_inj)
  moreover have "inj_on ?f (set xs \<union> set ys)"
    using assms(1,2) word_of_int32_inj by (auto simp: inj_on_def)
  ultimately show "xs = ys" by (rule map_inj_on)
qed simp

theorem hash_input_injective_witness:
  "hash_input [1, -2] (int (length [1 :: int, -2])) \<noteq> hash_input [1, -2, 0] (int (length [1 :: int, -2, 0]))"
  using hash_input_injective [of "[1, -2]" "[1, -2, 0]"] by (simp add: is_int32_def)

end
