(* ===== verification/Prefix_Cache.thy ===== *)
theory Prefix_Cache
  imports Evict_Victim Cuts Prefix_Hash C_Text
begin

text \<open>
  The prefix cache (\<open>server/kv/prefix_cache.h\<close>, \<open>prefix_cache.cpp\<close>): the inline LRU of checkpoint
  snapshots with its reservations and resident byte budget, and the full-prompt cache. The key
  function is a parameter \<open>H\<close> of the operations, so that what is proved does not depend on SHA-1;
  the code's instance is \<^const>\<open>hash_prefix\<close> (\<open>pc_key\<close> below). Log output is not
  modelled, the atomic mirrors read by \<open>/props\<close> are ordinary fields, and a clock reading is an
  argument.
\<close>

section \<open>State\<close>

type_synonym 'h keyfun = "token list \<Rightarrow> int \<Rightarrow> 'h"

definition pc_key :: "byte list keyfun" where
  "pc_key = hash_prefix"

record 'h LruEntry =
  le_hash :: 'h
  le_slot :: int
  le_ids :: "token list"
  le_protect :: bool
  le_resident_bytes :: nat
  le_edit_backup :: bool
  le_disk_key_len :: int
  le_aux :: string
  le_agent_turn :: bool

text \<open>A victim key and its flag \<open>has_victim\<close> are one option.\<close>

record 'h ActiveReservation =
  ar_id :: u64
  ar_slot :: int
  ar_key :: 'h
  ar_victim :: "'h option"
  ar_bytes :: nat
  ar_extra_victims :: "'h list"
  ar_extra_slots :: "int list"
  ar_credited_slots :: "int list"

record Evicted =
  ev_slot :: int
  ev_ids :: "token list"
  ev_persist :: bool
  ev_disk_key :: "token list"
  ev_aux :: string

definition no_evicted :: Evicted where
  "no_evicted = \<lparr>ev_slot = -1, ev_ids = [], ev_persist = False, ev_disk_key = [], ev_aux = []\<rparr>"

record 'h FullLruEntry =
  fe_hash :: 'h
  fe_slot :: int
  fe_cur_ids_len :: int
  fe_raw_prompt_len :: int
  fe_last_used_ns :: int
  fe_hits :: int

record 'h PrefixCache =
  disabled :: bool
  cap :: int
  markers :: ChatMarkers
  entries :: "'h LruEntry list"
  next_slot :: int
  active_reservations :: "'h ActiveReservation list"
  next_inline_reservation :: u64
  max_resident_bytes :: nat
  prunes_superseded :: bool
  record_evictions :: bool
  evicted_log :: "Evicted list"
  resident_bytes :: nat
  full_disabled :: bool
  full_cap :: int
  full_slot_base :: int
  full_next_slot :: int
  full_entries :: "'h FullLruEntry list"
  full_pending_evict :: "'h option"
  lifetime_hits :: nat
  budget_skips :: nat
  capture_attempts :: nat
  capture_failures :: nat
  capture_stall_us_total :: nat
  capture_stall_us_max :: nat
  restore_attempts :: nat
  restore_invalidations :: nat
  restore_stall_us_total :: nat
  restore_stall_us_max :: nat
  full_lifetime_hits :: nat

definition MAX_SLOTS :: int where "MAX_SLOTS = 64"
definition MAX_CACHE_SLOTS :: int where "MAX_CACHE_SLOTS = MAX_SLOTS - 1"

definition no_markers :: ChatMarkers where
  "no_markers = \<lparr>family = [], sys_role_prefix = [], end_msg_seqs = [], next_role_starts = [],
     role_starts_delimit = False\<rparr>"

definition new_prefix_cache :: "int \<Rightarrow> Tokenizer \<Rightarrow> nat \<Rightarrow> 'h PrefixCache" where
  "new_prefix_cache cap0 tok max_bytes =
     (let c = min cap0 MAX_CACHE_SLOTS;
          (ok, mk) = resolve_chat_markers tok no_markers;
          on = (c > 0 \<and> ok) in
      \<lparr>disabled = \<not> on, cap = (if on then c else 0), markers = (if c > 0 then mk else no_markers),
       entries = [], next_slot = 0, active_reservations = [], next_inline_reservation = 1,
       max_resident_bytes = max_bytes, prunes_superseded = False, record_evictions = False,
       evicted_log = [], resident_bytes = 0, full_disabled = True, full_cap = 0, full_slot_base = 0,
       full_next_slot = 0, full_entries = [], full_pending_evict = None, lifetime_hits = 0,
       budget_skips = 0, capture_attempts = 0, capture_failures = 0, capture_stall_us_total = 0,
       capture_stall_us_max = 0, restore_attempts = 0, restore_invalidations = 0,
       restore_stall_us_total = 0, restore_stall_us_max = 0, full_lifetime_hits = 0\<rparr>)"

text \<open>Subtraction of \<open>size_t\<close> values wraps.\<close>

definition size_sub :: "nat \<Rightarrow> nat \<Rightarrow> nat" where
  "size_sub a b = (if b \<le> a then a - b else a + 18446744073709551616 - b)"

section \<open>LRU helpers\<close>

fun index_of :: "('a \<Rightarrow> bool) \<Rightarrow> 'a list \<Rightarrow> nat option" where
  "index_of P [] = None"
| "index_of P (x # xs) = (if P x then Some 0 else map_option Suc (index_of P xs))"

definition find_entry :: "'h PrefixCache \<Rightarrow> 'h \<Rightarrow> nat option" where
  "find_entry c h = index_of (\<lambda>e. le_hash e = h) (entries c)"

definition find_slot_entry :: "'h PrefixCache \<Rightarrow> int \<Rightarrow> nat option" where
  "find_slot_entry c slot = index_of (\<lambda>e. le_slot e = slot) (entries c)"

definition remove_nth :: "nat \<Rightarrow> 'a list \<Rightarrow> 'a list" where
  "remove_nth i xs = take i xs @ drop (Suc i) xs"

definition erase_inline_entry :: "'h PrefixCache \<Rightarrow> nat \<Rightarrow> 'h PrefixCache" where
  "erase_inline_entry c idx =
     (if idx \<ge> length (entries c) then c
      else let bytes = le_resident_bytes (entries c ! idx) in
        c\<lparr>entries := remove_nth idx (entries c),
          resident_bytes := (if bytes \<le> resident_bytes c then resident_bytes c - bytes else 0)\<rparr>)"

definition move_to_end :: "'h PrefixCache \<Rightarrow> nat \<Rightarrow> 'h PrefixCache" where
  "move_to_end c idx =
     (if idx \<ge> length (entries c) then c
      else c\<lparr>entries := remove_nth idx (entries c) @ [entries c ! idx]\<rparr>)"

definition find_full_entry :: "'h PrefixCache \<Rightarrow> 'h \<Rightarrow> nat option" where
  "find_full_entry c h = index_of (\<lambda>e. fe_hash e = h) (full_entries c)"

definition move_full_to_end :: "'h PrefixCache \<Rightarrow> nat \<Rightarrow> 'h PrefixCache" where
  "move_full_to_end c idx =
     (if idx \<ge> length (full_entries c) then c
      else c\<lparr>full_entries := remove_nth idx (full_entries c) @ [full_entries c ! idx]\<rparr>)"

section \<open>Lookup\<close>

definition record_inline_hit :: "'h PrefixCache \<Rightarrow> int \<Rightarrow> int \<Rightarrow> 'h PrefixCache" where
  "record_inline_hit c slot prefix_len =
     (case index_of (\<lambda>e. le_slot e = slot \<and> int (length (le_ids e)) = prefix_len) (entries c) of
        None \<Rightarrow> c
      | Some i \<Rightarrow> (move_to_end c i)\<lparr>lifetime_hits := lifetime_hits c + 1\<rparr>)"

text \<open>
  The loop over the chat boundaries; it drops entries whose committed length is not the cut they
  were found under. The accumulator is the best slot and length.
\<close>

fun boundary_scan :: "'h keyfun \<Rightarrow> token list \<Rightarrow> int \<Rightarrow> nat list \<Rightarrow> 'h PrefixCache \<Rightarrow> int \<times> int \<Rightarrow> 'h PrefixCache \<times> int \<times> int" where
  "boundary_scan H prompt max_tokens [] c best = (c, best)"
| "boundary_scan H prompt max_tokens (b # bs) c (best_slot, best_len) =
     (if int b > max_tokens then boundary_scan H prompt max_tokens bs c (best_slot, best_len)
      else case find_entry c (H prompt (int b)) of
        None \<Rightarrow> boundary_scan H prompt max_tokens bs c (best_slot, best_len)
      | Some idx \<Rightarrow>
          (let e = entries c ! idx in
           if length (le_ids e) \<noteq> b
           then boundary_scan H prompt max_tokens bs (erase_inline_entry c idx) (best_slot, best_len)
           else if int b > best_len then boundary_scan H prompt max_tokens bs c (le_slot e, int b)
           else boundary_scan H prompt max_tokens bs c (best_slot, best_len)))"

fun entry_scan :: "token list \<Rightarrow> int \<Rightarrow> 'h LruEntry list \<Rightarrow> int \<times> int \<Rightarrow> int \<times> int" where
  "entry_scan prompt max_tokens [] best = best"
| "entry_scan prompt max_tokens (e # es) (best_slot, best_len) =
     (let len = int (length (le_ids e)) in
      if len \<le> best_len \<or> len > int (length prompt) \<or> len > max_tokens \<or>
         take (length (le_ids e)) prompt \<noteq> le_ids e
      then entry_scan prompt max_tokens es (best_slot, best_len)
      else entry_scan prompt max_tokens es (le_slot e, len))"

definition lookup_impl ::
  "'h keyfun \<Rightarrow> 'h PrefixCache \<Rightarrow> token list \<Rightarrow> int \<Rightarrow> bool \<Rightarrow> (int \<times> int) \<times> 'h PrefixCache" where
  "lookup_impl H c prompt max_tokens record_hit =
     (if disabled c \<or> max_tokens \<le> 0 then ((-1, 0), c)
      else let boundaries = find_all_boundaries prompt (markers c);
               (c1, best) = boundary_scan H prompt max_tokens boundaries c (-1, 0);
               (best_slot, best_len) = entry_scan prompt max_tokens (entries c1) best
           in ((best_slot, best_len),
               if best_len > 0 \<and> record_hit then record_inline_hit c1 best_slot best_len else c1))"

definition lookup :: "'h keyfun \<Rightarrow> 'h PrefixCache \<Rightarrow> token list \<Rightarrow> (int \<times> int) \<times> 'h PrefixCache" where
  "lookup H c prompt = lookup_impl H c prompt (int (length prompt)) True"

definition lookup_candidate :: "'h keyfun \<Rightarrow> 'h PrefixCache \<Rightarrow> token list \<Rightarrow> int \<Rightarrow> (int \<times> int) \<times> 'h PrefixCache" where
  "lookup_candidate H c prompt max_tokens = lookup_impl H c prompt max_tokens False"

section \<open>Reservations\<close>

text \<open>The handle a caller holds; \<open>ir_cache\<close> is whether its cache pointer is set.\<close>

record 'h InlineReservation =
  ir_cache :: bool
  ir_id :: u64
  ir_slot :: int
  ir_target_cut :: int
  ir_victim :: "'h option"
  ir_protect :: bool

definition no_reservation :: "'h InlineReservation" where
  "no_reservation = \<lparr>ir_cache = False, ir_id = 0, ir_slot = -1, ir_target_cut = 0, ir_victim = None, ir_protect = False\<rparr>"

definition find_active_reservation :: "'h PrefixCache \<Rightarrow> u64 \<Rightarrow> 'h ActiveReservation option" where
  "find_active_reservation c i =
     (if i = 0 then None else find (\<lambda>a. ar_id a = i) (active_reservations c))"

definition inline_reservation_active :: "'h PrefixCache \<Rightarrow> u64 \<Rightarrow> bool" where
  "inline_reservation_active c i \<longleftrightarrow> find_active_reservation c i \<noteq> None"

definition reservation_active :: "'h PrefixCache \<Rightarrow> 'h InlineReservation \<Rightarrow> bool" where
  "reservation_active c r \<longleftrightarrow> ir_cache r \<and> inline_reservation_active c (ir_id r)"

definition release_inline_reservation :: "'h PrefixCache \<Rightarrow> u64 \<Rightarrow> 'h PrefixCache" where
  "release_inline_reservation c i =
     (case index_of (\<lambda>a. ar_id a = i) (active_reservations c) of
        None \<Rightarrow> c
      | Some k \<Rightarrow> c\<lparr>active_reservations := remove_nth k (active_reservations c)\<rparr>)"

definition cancel_reservation :: "'h PrefixCache \<Rightarrow> 'h InlineReservation \<Rightarrow> 'h PrefixCache \<times> 'h InlineReservation" where
  "cancel_reservation c r =
     (if ir_cache r then release_inline_reservation c (ir_id r) else c, no_reservation)"

definition slot_reserved :: "'h PrefixCache \<Rightarrow> int \<Rightarrow> bool" where
  "slot_reserved c slot \<longleftrightarrow> (\<exists>a \<in> set (active_reservations c). ar_slot a = slot \<or> slot \<in> set (ar_extra_slots a))"

definition slot_credited :: "'h PrefixCache \<Rightarrow> int \<Rightarrow> bool" where
  "slot_credited c slot \<longleftrightarrow> (\<exists>a \<in> set (active_reservations c). slot \<in> set (ar_credited_slots a))"

definition extra_victim_slots :: "'h PrefixCache \<Rightarrow> 'h InlineReservation \<Rightarrow> int list" where
  "extra_victim_slots c r =
     (case (if ir_cache r then find_active_reservation c (ir_id r) else None) of
        None \<Rightarrow> []
      | Some a \<Rightarrow> map snd (filter (\<lambda>(h, s). case find_entry c h of None \<Rightarrow> False
                   | Some idx \<Rightarrow> le_slot (entries c ! idx) = s)
                 (zip (ar_extra_victims a) (ar_extra_slots a))))"

subsection \<open>Environment settings\<close>

definition env_nonneg_int :: "string option \<Rightarrow> int \<Rightarrow> int" where
  "env_nonneg_int v fallback =
     (case v of
        None \<Rightarrow> fallback
      | Some s \<Rightarrow>
          if s = [] then fallback
          else let (n, in_range, rest) = strtol10 s in
            if \<not> in_range \<or> rest \<noteq> [] \<or> n < 0 \<or> n > int_max then fallback else n)"

text \<open>The two settings, read once per process.\<close>

record PcEnv =
  deep_first_min :: int
  deep_first_max_head :: int

definition read_env :: "string option \<Rightarrow> string option \<Rightarrow> PcEnv" where
  "read_env v_min v_head = \<lparr>deep_first_min = env_nonneg_int v_min 4096, deep_first_max_head = env_nonneg_int v_head 2048\<rparr>"

section \<open>Choosing what to capture\<close>

definition superseded_entries :: "'h PrefixCache \<Rightarrow> token list \<Rightarrow> nat list" where
  "superseded_entries c ids =
     (let step = (\<lambda>(out, shallowest) i.
            let e = entries c ! i in
            if \<not> is_strict_prefix (le_ids e) ids then (out, shallowest)
            else (if \<not> le_protect e then out @ [i] else out,
                  case shallowest of
                    None \<Rightarrow> Some i
                  | Some s \<Rightarrow> if length (le_ids e) < length (le_ids (entries c ! s)) then Some i else shallowest));
          (out, shallowest) = foldl step ([], None) [0..<length (entries c)]
      in filter (\<lambda>i. shallowest \<noteq> Some i) out)"

definition pick_evict_victim :: "'h PrefixCache \<Rightarrow> int \<Rightarrow> int" where
  "pick_evict_victim c skip_index =
     (if entries c = [] then -1
      else select_inline_evict_victim (map le_ids (entries c)) (Some (map le_protect (entries c))) skip_index
             (Some (map (\<lambda>e. slot_reserved c (le_slot e)) (entries c))))"

text \<open>
  The first part of \<open>reserve_inline_snap\<close>: which cut to capture (\<open>0\<close>: none), whether it is the
  forced one and whether the request still prefers its tools head. \<open>est\<close> is the size estimate,
  \<open>None\<close> for an empty \<open>std::function\<close>. The code calls \<open>candidates.back()\<close> without a test, which is
  undefined on an empty vector: then the result is \<open>None\<close>.
\<close>

definition whole_prompt_fits :: "'h PrefixCache \<Rightarrow> (int \<Rightarrow> nat) option \<Rightarrow> token list \<Rightarrow> bool" where
  "whole_prompt_fits c est prompt =
     (if max_resident_bytes c = 0 then True
      else let bytes = (case est of None \<Rightarrow> 0 | Some f \<Rightarrow> f (int (length prompt))) in
        bytes \<noteq> 0 \<and> bytes \<le> max_resident_bytes c)"

definition choose_cut ::
  "PcEnv \<Rightarrow> 'h PrefixCache \<Rightarrow> token list \<Rightarrow> int \<Rightarrow> bool \<Rightarrow> int \<Rightarrow> (int \<Rightarrow> nat) option \<Rightarrow> int \<Rightarrow> int \<Rightarrow>
     (int \<times> bool \<times> bool) option" where
  "choose_cut env c prompt restored_prefix_len prefer_tools0 forced_cut est reachable_from spacing =
     (let candidates = map int (find_all_boundaries prompt (markers c));
          prefer_head0 = (prefer_tools0 \<or> (length candidates = 2 \<and> restored_prefix_len < hd candidates));
          deepen = (deep_first_min env > 0 \<and> prefer_head0 \<and> candidates \<noteq> [] \<and>
             restored_prefix_len \<le> hd candidates \<and> forced_cut \<le> restored_prefix_len \<and>
             hd candidates \<le> deep_first_max_head env \<and>
             int (length prompt) - hd candidates \<ge> deep_first_min env \<and> whole_prompt_fits c est prompt);
          prefer_head = (prefer_head0 \<and> \<not> deepen);
          prefer_tools = (prefer_tools0 \<and> \<not> deepen);
          forced0 = should_force_inline_snapshot_boundary candidates (int (length prompt)) restored_prefix_len
             prefer_tools forced_cut reachable_from;
          target0 = (if forced0 then forced_cut
             else select_inline_snapshot_boundary candidates restored_prefix_len prefer_head reachable_from) in
      if spacing > 0 \<and> target0 > 0
      then (if candidates = [] then None
            else if target0 \<noteq> last candidates
            then (let point = foldl (\<lambda>p q. if q \<le> target0 then q else p) 0 (spaced_restore_points candidates spacing)
                  in Some (if point > restored_prefix_len \<and> point \<ge> reachable_from then point else 0,
                      forced0 \<and> point = target0, prefer_tools))
            else Some (target0, forced0, prefer_tools))
      else Some (target0, forced0, prefer_tools))"

section \<open>Making room\<close>

text \<open>What the slot search may answer: no slot, or a slot with the entry it would evict.\<close>

definition pick_slot :: "'h PrefixCache \<Rightarrow> int \<Rightarrow> (int \<times> 'h option \<times> 'h PrefixCache) option" where
  "pick_slot c restore_source_slot =
     (let reserved_free = length (filter (\<lambda>a. ar_victim a = None) (active_reservations c)) in
      if int (length (entries c) + reserved_free) \<ge> cap c
      then (let skip = (if restore_source_slot \<ge> 0
                        then (case find_slot_entry c restore_source_slot of None \<Rightarrow> -1 | Some i \<Rightarrow> int i) else -1);
                victim = pick_evict_victim c skip in
            if victim < 0 then None
            else let e = entries c ! nat victim in Some (le_slot e, Some (le_hash e), c))
      else case find (\<lambda>s. \<not> (s = restore_source_slot \<and> cap c > 1) \<and>
                         find_slot_entry c s = None \<and> \<not> slot_reserved c s)
                  (map (\<lambda>step. (next_slot c + int step) mod cap c) [0..<nat (cap c)]) of
             None \<Rightarrow> None
           | Some s \<Rightarrow> Some (s, None, c\<lparr>next_slot := (s + 1) mod cap c\<rparr>))"

text \<open>The budget arithmetic, for a set of freed bytes.\<close>

definition room_for :: "'h PrefixCache \<Rightarrow> nat \<Rightarrow> nat \<Rightarrow> nat \<Rightarrow> bool" where
  "room_for c pending freed estimated =
     (let held = resident_bytes c + pending; after_free = (if freed \<le> held then held - freed else 0) in
      after_free \<le> max_resident_bytes c \<and> estimated \<le> max_resident_bytes c - after_free)"

definition pending_bytes :: "'h PrefixCache \<Rightarrow> nat" where
  "pending_bytes c = sum_list (map ar_bytes (active_reservations c))"

text \<open>\<open>reclaimed\<close>: the indices the capture supersedes; \<open>victim\<close>: one more entry that would go.\<close>

definition freed_by :: "'h PrefixCache \<Rightarrow> nat list \<Rightarrow> nat option \<Rightarrow> nat" where
  "freed_by c reclaimed victim =
     sum_list (map (\<lambda>i. le_resident_bytes (entries c ! i)) reclaimed) +
     (case victim of None \<Rightarrow> 0
      | Some v \<Rightarrow> if v \<in> set reclaimed then 0 else le_resident_bytes (entries c ! v))"

definition fits :: "'h PrefixCache \<Rightarrow> nat list \<Rightarrow> nat \<Rightarrow> nat option \<Rightarrow> bool" where
  "fits c reclaimed estimated victim =
     (if estimated = 0 \<or> estimated > max_resident_bytes c then False
      else room_for c (pending_bytes c) (freed_by c reclaimed victim) estimated)"

definition is_leaf :: "'h PrefixCache \<Rightarrow> nat \<Rightarrow> bool" where
  "is_leaf c i \<longleftrightarrow> \<not> is_ancestor (map le_ids (entries c)) i"

definition is_middle :: "'h PrefixCache \<Rightarrow> nat \<Rightarrow> bool" where
  "is_middle c i \<longleftrightarrow> \<not> is_leaf c i \<and> has_ancestor (map le_ids (entries c)) i"

definition single_ok :: "'h PrefixCache \<Rightarrow> nat list \<Rightarrow> nat \<Rightarrow> int \<Rightarrow> nat \<Rightarrow> nat \<Rightarrow> bool" where
  "single_ok c reclaimed estimated restore_source_slot pass i \<longleftrightarrow>
     (let e = entries c ! i in
      \<not> (restore_source_slot \<ge> 0 \<and> le_slot e = restore_source_slot) \<and>
      \<not> slot_reserved c (le_slot e) \<and> fits c reclaimed estimated (Some i) \<and>
      (pass = 0 \<longrightarrow> is_middle c i) \<and> (pass = 1 \<or> pass = 2 \<longrightarrow> is_leaf c i) \<and>
      (le_protect e \<longrightarrow> pass = 2 \<or> pass = 4))"

definition pick_single :: "'h PrefixCache \<Rightarrow> nat list \<Rightarrow> nat \<Rightarrow> int \<Rightarrow> nat \<Rightarrow> nat \<Rightarrow> nat option" where
  "pick_single c reclaimed estimated restore_source_slot first_pass last_pass =
     map_option snd (find (\<lambda>(pass, i). single_ok c reclaimed estimated restore_source_slot pass i)
       (List.product [first_pass..<Suc last_pass] [0..<length (entries c)]))"

text \<open>Whether a plan of several evictions may take entry \<open>i\<close> in this pass.\<close>

definition plan_takes ::
  "'h PrefixCache \<Rightarrow> nat list \<Rightarrow> nat option \<Rightarrow> int \<Rightarrow> token list \<Rightarrow> nat \<Rightarrow> nat \<Rightarrow> bool" where
  "plan_takes c reclaimed planned_victim restore_source_slot target_ids pass i \<longleftrightarrow>
     (let e = entries c ! i in
      \<not> (Some i = planned_victim \<or> i \<in> set reclaimed \<or> le_protect e) \<and>
      \<not> (restore_source_slot \<ge> 0 \<and> le_slot e = restore_source_slot) \<and>
      \<not> (slot_reserved c (le_slot e) \<or> slot_credited c (le_slot e)) \<and>
      \<not> is_strict_prefix (le_ids e) target_ids \<and>
      (if pass = 0 then le_edit_backup e \<and> \<not> is_leaf c i else is_leaf c i))"

fun plan_scan :: "'h PrefixCache \<Rightarrow> nat \<Rightarrow> (nat \<Rightarrow> nat \<Rightarrow> bool) \<Rightarrow> (nat \<times> nat) list \<Rightarrow> nat list \<Rightarrow> nat \<Rightarrow> nat list" where
  "plan_scan c estimated takes [] plan freed = []"
| "plan_scan c estimated takes ((pass, i) # rest) plan freed =
     (if \<not> takes pass i then plan_scan c estimated takes rest plan freed
      else let plan' = plan @ [i]; freed' = freed + le_resident_bytes (entries c ! i) in
        if room_for c (pending_bytes c) freed' estimated then plan'
        else plan_scan c estimated takes rest plan' freed')"

definition plan_several ::
  "'h PrefixCache \<Rightarrow> nat list \<Rightarrow> nat \<Rightarrow> nat option \<Rightarrow> int \<Rightarrow> token list \<Rightarrow> nat list" where
  "plan_several c reclaimed estimated planned_victim restore_source_slot target_ids =
     (if estimated = 0 \<or> estimated > max_resident_bytes c then []
      else plan_scan c estimated (plan_takes c reclaimed planned_victim restore_source_slot target_ids)
             (List.product [0..<2] [0..<length (entries c)]) [] (freed_by c reclaimed planned_victim))"

text \<open>
  The budget part: \<open>None\<close> skips the capture; otherwise the slot and victim, possibly redirected,
  and the further entries to evict at commit.
\<close>

definition make_room ::
  "'h PrefixCache \<Rightarrow> nat list \<Rightarrow> nat \<Rightarrow> int \<Rightarrow> 'h option \<Rightarrow> int \<Rightarrow> token list \<Rightarrow> (int \<times> 'h option \<times> nat list) option" where
  "make_room c reclaimed estimated slot victim restore_source_slot target_ids =
     (let planned_victim = (case victim of Some h \<Rightarrow> find_entry c h | None \<Rightarrow> find_slot_entry c slot) in
      if fits c reclaimed estimated planned_victim then Some (slot, victim, [])
      else case pick_single c reclaimed estimated restore_source_slot 0 1 of
        Some v \<Rightarrow> Some (le_slot (entries c ! v), Some (le_hash (entries c ! v)), [])
      | None \<Rightarrow>
          (let several = plan_several c reclaimed estimated planned_victim restore_source_slot target_ids in
           if several \<noteq> [] then Some (slot, victim, several)
           else case pick_single c reclaimed estimated restore_source_slot 2 4 of
             Some v \<Rightarrow> Some (le_slot (entries c ! v), Some (le_hash (entries c ! v)), [])
           | None \<Rightarrow> None))"

definition fresh_id :: "u64 \<Rightarrow> u64 \<times> u64" where
  "fresh_id n = (if n = 0 then (n + 1, n + 2) else (n, n + 1))"

text \<open>\<open>None\<close> is the undefined read of \<open>choose_cut\<close>.\<close>

definition reserve_inline_snap ::
  "'h keyfun \<Rightarrow> PcEnv \<Rightarrow> 'h PrefixCache \<Rightarrow> token list \<Rightarrow> int \<Rightarrow> bool \<Rightarrow> int \<Rightarrow> int \<Rightarrow> (int \<Rightarrow> nat) option \<Rightarrow> int \<Rightarrow> int \<Rightarrow>
     ('h InlineReservation \<times> 'h PrefixCache) option" where
  "reserve_inline_snap H env c prompt restored_prefix_len prefer_tools forced_cut restore_source_slot est
     reachable_from spacing =
     (if disabled c then Some (no_reservation, c)
      else case choose_cut env c prompt restored_prefix_len prefer_tools forced_cut est reachable_from spacing of
        None \<Rightarrow> None
      | Some (target, forced, prefer_tools') \<Rightarrow> Some (
        let candidates = map int (find_all_boundaries prompt (markers c)) in
        if target \<le> 0 then (no_reservation, c)
        else let key = H prompt target in
          if find_entry c key \<noteq> None \<or> (\<exists>a \<in> set (active_reservations c). ar_key a = key) then (no_reservation, c)
          else let protect = (prefer_tools' \<and> (forced \<or> (candidates \<noteq> [] \<and> target = hd candidates))) in
            case pick_slot c restore_source_slot of
              None \<Rightarrow> (no_reservation, c)
            | Some (slot0, victim0, c1) \<Rightarrow>
                (let target_ids = take (nat target) prompt;
                     estimated = (if max_resident_bytes c1 > 0
                        then (case est of None \<Rightarrow> 0 | Some f \<Rightarrow> f target) else 0);
                     reclaimed = (if max_resident_bytes c1 > 0 \<and> prunes_superseded c1
                        then filter (\<lambda>i. \<not> slot_reserved c1 (le_slot (entries c1 ! i))) (superseded_entries c1 target_ids)
                        else []) in
                 case (if max_resident_bytes c1 > 0
                       then make_room c1 reclaimed estimated slot0 victim0 restore_source_slot target_ids
                       else Some (slot0, victim0, [])) of
                   None \<Rightarrow> (no_reservation, c1\<lparr>budget_skips := budget_skips c1 + 1\<rparr>)
                 | Some (slot, victim, several) \<Rightarrow>
                     (let (rid, next) = fresh_id (next_inline_reservation c1);
                          extra_slots = map (\<lambda>i. le_slot (entries c1 ! i)) several;
                          credited = map (\<lambda>i. le_slot (entries c1 ! i)) (filter (\<lambda>i. i \<in> set reclaimed) [0..<length (entries c1)]) @
                             (if victim \<noteq> None then [slot] else []) @ extra_slots;
                          a = \<lparr>ar_id = rid, ar_slot = slot, ar_key = key, ar_victim = victim, ar_bytes = estimated,
                               ar_extra_victims = map (\<lambda>i. le_hash (entries c1 ! i)) several,
                               ar_extra_slots = extra_slots, ar_credited_slots = credited\<rparr>
                      in (\<lparr>ir_cache = True, ir_id = rid, ir_slot = slot, ir_target_cut = target, ir_victim = victim,
                           ir_protect = protect\<rparr>,
                          c1\<lparr>next_inline_reservation := next, active_reservations := active_reservations c1 @ [a]\<rparr>)))))"

end
