(* ===== verification/Prefix_Cache_Ops.thy ===== *)
theory Prefix_Cache_Ops
  imports Prefix_Cache
begin

text \<open>
  The operations of the prefix cache that change committed entries: committing, cancelling and aborting a
  reservation, direct commits, invalidation, pruning of superseded ancestors, the resident budget,
  the state attached to an entry, the statistics, and the whole full-prompt cache
  (\<open>server/kv/prefix_cache.cpp\<close>, lines 773 to 1260).
\<close>

section \<open>Eviction records\<close>

definition persist_on_evict :: "'h PrefixCache \<Rightarrow> int \<Rightarrow> bool" where
  "persist_on_evict c slot =
     (case find_slot_entry c slot of
        None \<Rightarrow> False
      | Some idx \<Rightarrow>
          (let e = entries c ! idx in
           if \<not> le_edit_backup e \<or> le_protect e then True
           else \<not> (\<exists>i \<in> set [0..<length (entries c)]. i \<noteq> idx \<and> is_strict_prefix (le_ids e) (le_ids (entries c ! i)))))"

definition entry_tokens :: "'h PrefixCache \<Rightarrow> int \<Rightarrow> token list" where
  "entry_tokens c slot = (case find_slot_entry c slot of None \<Rightarrow> [] | Some idx \<Rightarrow> le_ids (entries c ! idx))"

definition evicted_record :: "'h PrefixCache \<Rightarrow> 'h LruEntry \<Rightarrow> Evicted" where
  "evicted_record c e =
     \<lparr>ev_slot = le_slot e, ev_ids = le_ids e, ev_persist = persist_on_evict c (le_slot e),
      ev_disk_key = take (nat (le_disk_key_len e)) (le_ids e), ev_aux = le_aux e\<rparr>"

definition entry :: "'h PrefixCache \<Rightarrow> int \<Rightarrow> Evicted" where
  "entry c slot = (case find_slot_entry c slot of None \<Rightarrow> no_evicted | Some idx \<Rightarrow> evicted_record c (entries c ! idx))"

definition record_eviction :: "'h PrefixCache \<Rightarrow> nat \<Rightarrow> 'h PrefixCache" where
  "record_eviction c idx =
     (if \<not> record_evictions c \<or> idx \<ge> length (entries c) then c
      else c\<lparr>evicted_log := evicted_log c @ [evicted_record c (entries c ! idx)]\<rparr>)"

definition set_record_evictions :: "'h PrefixCache \<Rightarrow> bool \<Rightarrow> 'h PrefixCache" where
  "set_record_evictions c on = c\<lparr>record_evictions := on\<rparr>"

definition take_evicted :: "'h PrefixCache \<Rightarrow> Evicted list \<times> 'h PrefixCache" where
  "take_evicted c = (evicted_log c, c\<lparr>evicted_log := []\<rparr>)"

definition entries_for_shutdown :: "'h PrefixCache \<Rightarrow> Evicted list" where
  "entries_for_shutdown c = map (evicted_record c) (rev (entries c))"

section \<open>Commit and abort\<close>

text \<open>The loop that drops every entry of a slot, from the back; \<open>logged\<close> says whether it records them first.\<close>

fun drop_slot_entries :: "bool \<Rightarrow> int \<Rightarrow> nat \<Rightarrow> 'h PrefixCache \<Rightarrow> 'h PrefixCache" where
  "drop_slot_entries logged slot 0 c = c"
| "drop_slot_entries logged slot (Suc i) c =
     drop_slot_entries logged slot i
       (if le_slot (entries c ! i) = slot
        then erase_inline_entry (if logged then record_eviction c i else c) i else c)"

definition replace_inline_entry ::
  "'h keyfun \<Rightarrow> 'h PrefixCache \<Rightarrow> int \<Rightarrow> int \<Rightarrow> token list \<Rightarrow> bool \<Rightarrow> nat \<Rightarrow> 'h PrefixCache" where
  "replace_inline_entry H c slot target_cut prompt protect bytes =
     (let c1 = drop_slot_entries True slot (length (entries c)) c;
          e = \<lparr>le_hash = H prompt target_cut, le_slot = slot, le_ids = take (nat target_cut) prompt,
               le_protect = protect, le_resident_bytes = bytes, le_edit_backup = False,
               le_disk_key_len = 0, le_aux = [], le_agent_turn = False\<rparr>
      in c1\<lparr>entries := entries c1 @ [e], resident_bytes := resident_bytes c1 + bytes\<rparr>)"

definition abort_inline_reservation ::
  "'h PrefixCache \<Rightarrow> 'h InlineReservation \<Rightarrow> 'h PrefixCache \<times> 'h InlineReservation" where
  "abort_inline_reservation c r =
     (if \<not> reservation_active c r then (c, no_reservation)
      else (release_inline_reservation (drop_slot_entries False (ir_slot r) (length (entries c)) c) (ir_id r),
            no_reservation))"

definition abort_reservation :: "'h PrefixCache \<Rightarrow> 'h InlineReservation \<Rightarrow> 'h PrefixCache \<times> 'h InlineReservation" where
  "abort_reservation c r =
     (if reservation_active c r then abort_inline_reservation c r else (c, no_reservation))"

text \<open>The eviction of the further entries of the plan, those still resident in the slot they had.\<close>

fun evict_extra :: "('h \<times> int) list \<Rightarrow> 'h PrefixCache \<Rightarrow> 'h PrefixCache" where
  "evict_extra [] c = c"
| "evict_extra ((h, s) # rest) c =
     evict_extra rest
       (case find_entry c h of
          None \<Rightarrow> c
        | Some idx \<Rightarrow> if le_slot (entries c ! idx) \<noteq> s then c
                     else erase_inline_entry (record_eviction c idx) idx)"

definition evict_victim :: "'h option \<Rightarrow> 'h PrefixCache \<Rightarrow> 'h PrefixCache" where
  "evict_victim victim c =
     (case victim of
        None \<Rightarrow> c
      | Some h \<Rightarrow> (case find_entry c h of
            None \<Rightarrow> c
          | Some idx \<Rightarrow> erase_inline_entry (record_eviction c idx) idx))"

definition commit_inline_reservation ::
  "'h keyfun \<Rightarrow> 'h PrefixCache \<Rightarrow> 'h InlineReservation \<Rightarrow> token list \<Rightarrow> int \<Rightarrow> nat \<Rightarrow> bool \<Rightarrow>
     bool \<times> 'h PrefixCache \<times> 'h InlineReservation" where
  "commit_inline_reservation H c r prompt committed_cut bytes protect =
     (if \<not> reservation_active c r \<or> committed_cut \<le> 0 \<or> committed_cut > ir_target_cut r \<or>
         committed_cut > int (length prompt)
      then (False, abort_reservation c r)
      else let c1 = (case find_active_reservation c (ir_id r) of
                       None \<Rightarrow> c
                     | Some a \<Rightarrow> evict_extra (zip (ar_extra_victims a) (ar_extra_slots a)) c);
               c2 = evict_victim (ir_victim r) c1;
               c3 = replace_inline_entry H c2 (ir_slot r) committed_cut prompt (protect \<or> ir_protect r) bytes
           in (True, release_inline_reservation c3 (ir_id r), no_reservation))"

definition commit_at ::
  "'h keyfun \<Rightarrow> 'h PrefixCache \<Rightarrow> 'h InlineReservation \<Rightarrow> token list \<Rightarrow> int \<Rightarrow> nat \<Rightarrow> bool \<Rightarrow>
     bool \<times> 'h PrefixCache \<times> 'h InlineReservation" where
  "commit_at H c r prompt committed_cut bytes protect =
     (if \<not> reservation_active c r then (False, c, no_reservation)
      else commit_inline_reservation H c r prompt committed_cut bytes protect)"

definition commit ::
  "'h keyfun \<Rightarrow> 'h PrefixCache \<Rightarrow> 'h InlineReservation \<Rightarrow> token list \<Rightarrow> nat \<Rightarrow> bool \<Rightarrow>
     bool \<times> 'h PrefixCache \<times> 'h InlineReservation" where
  "commit H c r prompt bytes protect =
     (if \<not> reservation_active c r then (False, c, no_reservation)
      else commit_inline_reservation H c r prompt (ir_target_cut r) bytes protect)"

definition confirm_inline_snap ::
  "'h keyfun \<Rightarrow> 'h PrefixCache \<Rightarrow> int \<Rightarrow> int \<Rightarrow> token list \<Rightarrow> bool \<Rightarrow> nat \<Rightarrow> 'h PrefixCache" where
  "confirm_inline_snap H c slot target_cut prompt protect bytes =
     (if disabled c \<or> slot < 0 \<or> target_cut \<le> 0 \<or> target_cut > int (length prompt) then c
      else if active_reservations c \<noteq> [] then c
      else replace_inline_entry H c slot target_cut prompt protect bytes)"

definition invalidate_inline_snap :: "'h PrefixCache \<Rightarrow> int \<Rightarrow> 'h PrefixCache" where
  "invalidate_inline_snap c slot =
     (if disabled c then c else drop_slot_entries False slot (length (entries c)) c)"

section \<open>Pruning and the resident budget\<close>

text \<open>The deepest superseded entry (the first of them on a tie): the previous turn.\<close>

definition previous_turn :: "'h PrefixCache \<Rightarrow> nat list \<Rightarrow> nat option" where
  "previous_turn c superseded =
     foldl (\<lambda>prev i. case prev of
              None \<Rightarrow> Some i
            | Some p \<Rightarrow> if length (le_ids (entries c ! i)) > length (le_ids (entries c ! p)) then Some i else prev)
       None superseded"

fun prune_loop :: "nat list \<Rightarrow> 'h PrefixCache \<Rightarrow> (int \<times> int) list \<times> 'h PrefixCache" where
  "prune_loop [] c = ([], c)"
| "prune_loop (i # rest) c =
     (let e = entries c ! i; (out, c') = prune_loop rest (erase_inline_entry c i)
      in ((le_slot e, int (length (le_ids e))) # out, c'))"

definition prune_superseded_ancestors :: "'h PrefixCache \<Rightarrow> int \<Rightarrow> (int \<times> int) list \<times> 'h PrefixCache" where
  "prune_superseded_ancestors c slot =
     (if disabled c then ([], c)
      else case find_slot_entry c slot of
        None \<Rightarrow> ([], c)
      | Some newest \<Rightarrow>
          (let superseded = superseded_entries c (le_ids (entries c ! newest));
               all = sum_list (map (\<lambda>i. le_resident_bytes (entries c ! i)) superseded) in
           case previous_turn c superseded of
             None \<Rightarrow> prune_loop (rev superseded) c
           | Some p \<Rightarrow>
               (let others = size_sub all (le_resident_bytes (entries c ! p)) in
                if max_resident_bytes c = 0 \<or> size_sub (resident_bytes c) others \<le> max_resident_bytes c
                then prune_loop (rev (remove1 p superseded))
                       (c\<lparr>entries := (entries c)[p := (entries c ! p)\<lparr>le_edit_backup := True\<rparr>]\<rparr>)
                else prune_loop (rev superseded) c)))"

definition set_prunes_superseded :: "'h PrefixCache \<Rightarrow> bool \<Rightarrow> 'h PrefixCache" where
  "set_prunes_superseded c on = c\<lparr>prunes_superseded := on\<rparr>"

definition set_max_resident_bytes :: "'h PrefixCache \<Rightarrow> nat \<Rightarrow> 'h PrefixCache" where
  "set_max_resident_bytes c bytes = c\<lparr>max_resident_bytes := bytes\<rparr>"

lemma erase_inline_entry_length:
  "idx < length (entries c) \<Longrightarrow> length (entries (erase_inline_entry c idx)) = length (entries c) - 1"
  by (simp add: erase_inline_entry_def remove_nth_def Let_def)

lemma record_eviction_entries [simp]: "entries (record_eviction c idx) = entries c"
  by (simp add: record_eviction_def)

text \<open>One turn of the budget loop: what it evicts, \<open>None\<close> when it ends.\<close>

definition budget_victim :: "'h PrefixCache \<Rightarrow> int \<Rightarrow> nat option" where
  "budget_victim c keep_slot =
     (if resident_bytes c \<le> max_resident_bytes c then None
      else case find_slot_entry c keep_slot of
        None \<Rightarrow> None
      | Some keep \<Rightarrow>
          (let victim = pick_evict_victim c (int keep) in
           if victim < 0 \<or> nat victim \<ge> length (entries c) then None else Some (nat victim)))"

function budget_loop :: "int \<Rightarrow> 'h PrefixCache \<Rightarrow> Evicted list \<times> 'h PrefixCache" where
  "budget_loop keep_slot c =
     (case budget_victim c keep_slot of
        None \<Rightarrow> ([], c)
      | Some v \<Rightarrow>
          (let (out, c') = budget_loop keep_slot (erase_inline_entry (record_eviction c v) v)
           in (evicted_record c (entries c ! v) # out, c')))"
  by pat_completeness auto

lemma budget_victim_range: "budget_victim c keep_slot = Some v \<Longrightarrow> v < length (entries c)"
  by (auto simp: budget_victim_def Let_def split: if_splits option.splits)

termination budget_loop
  by (relation "measure (\<lambda>(k, c). length (entries c))")
    (auto dest!: budget_victim_range simp: erase_inline_entry_length)

declare budget_loop.simps [simp del]

definition enforce_resident_budget :: "'h PrefixCache \<Rightarrow> int \<Rightarrow> Evicted list \<times> 'h PrefixCache" where
  "enforce_resident_budget c keep_slot =
     (if disabled c \<or> max_resident_bytes c = 0 then ([], c) else budget_loop keep_slot c)"

section \<open>State attached to an entry\<close>

definition update_slot_entry :: "'h PrefixCache \<Rightarrow> int \<Rightarrow> ('h LruEntry \<Rightarrow> 'h LruEntry) \<Rightarrow> 'h PrefixCache" where
  "update_slot_entry c slot f =
     (case find_slot_entry c slot of None \<Rightarrow> c | Some idx \<Rightarrow> c\<lparr>entries := (entries c)[idx := f (entries c ! idx)]\<rparr>)"

definition set_disk_key :: "'h PrefixCache \<Rightarrow> int \<Rightarrow> int \<Rightarrow> 'h PrefixCache" where
  "set_disk_key c slot tokens =
     update_slot_entry c slot (\<lambda>e. e\<lparr>le_disk_key_len := max 0 (min tokens (int (length (le_ids e))))\<rparr>)"

definition has_disk_key :: "'h PrefixCache \<Rightarrow> int \<Rightarrow> bool" where
  "has_disk_key c slot = (case find_slot_entry c slot of None \<Rightarrow> False | Some idx \<Rightarrow> le_disk_key_len (entries c ! idx) > 0)"

definition set_aux :: "'h PrefixCache \<Rightarrow> int \<Rightarrow> string \<Rightarrow> 'h PrefixCache" where
  "set_aux c slot a = update_slot_entry c slot (\<lambda>e. e\<lparr>le_aux := a\<rparr>)"

definition mark_agent_turn :: "'h PrefixCache \<Rightarrow> int \<Rightarrow> 'h PrefixCache" where
  "mark_agent_turn c slot = update_slot_entry c slot (\<lambda>e. e\<lparr>le_agent_turn := True\<rparr>)"

definition agent_turn :: "'h PrefixCache \<Rightarrow> int \<Rightarrow> bool" where
  "agent_turn c slot = (case find_slot_entry c slot of None \<Rightarrow> False | Some idx \<Rightarrow> le_agent_turn (entries c ! idx))"

section \<open>Statistics\<close>

text \<open>The counters are \<open>uint64_t\<close> values; as natural numbers they do not wrap.\<close>

definition record_capture_attempt :: "'h PrefixCache \<Rightarrow> nat \<Rightarrow> bool \<Rightarrow> 'h PrefixCache" where
  "record_capture_attempt c elapsed_us success =
     c\<lparr>capture_attempts := capture_attempts c + 1,
       capture_failures := capture_failures c + (if success then 0 else 1),
       capture_stall_us_total := capture_stall_us_total c + elapsed_us,
       capture_stall_us_max := max (capture_stall_us_max c) elapsed_us\<rparr>"

definition record_restore_attempt :: "'h PrefixCache \<Rightarrow> nat \<Rightarrow> bool \<Rightarrow> 'h PrefixCache" where
  "record_restore_attempt c elapsed_us restored =
     c\<lparr>restore_attempts := restore_attempts c + 1,
       restore_invalidations := restore_invalidations c + (if restored then 0 else 1),
       restore_stall_us_total := restore_stall_us_total c + elapsed_us,
       restore_stall_us_max := max (restore_stall_us_max c) elapsed_us\<rparr>"

definition mark_all_cleared :: "'h PrefixCache \<Rightarrow> 'h PrefixCache" where
  "mark_all_cleared c =
     (if disabled c then c
      else c\<lparr>entries := [], resident_bytes := 0, next_slot := 0, active_reservations := []\<rparr>)"

record InlineStats =
  st_capacity :: int
  st_in_use :: int
  st_lifetime_hits :: nat
  st_max_resident_bytes :: nat
  st_resident_bytes :: nat
  st_budget_skips :: nat
  st_capture_attempts :: nat
  st_capture_failures :: nat
  st_capture_stall_us_total :: nat
  st_capture_stall_us_max :: nat
  st_restore_attempts :: nat
  st_restore_invalidations :: nat
  st_restore_stall_us_total :: nat
  st_restore_stall_us_max :: nat

definition stats :: "'h PrefixCache \<Rightarrow> InlineStats" where
  "stats c =
     (if disabled c
      then \<lparr>st_capacity = 0, st_in_use = 0, st_lifetime_hits = 0, st_max_resident_bytes = 0, st_resident_bytes = 0,
            st_budget_skips = 0, st_capture_attempts = 0, st_capture_failures = 0, st_capture_stall_us_total = 0,
            st_capture_stall_us_max = 0, st_restore_attempts = 0, st_restore_invalidations = 0,
            st_restore_stall_us_total = 0, st_restore_stall_us_max = 0\<rparr>
      else \<lparr>st_capacity = cap c, st_in_use = int (length (entries c)), st_lifetime_hits = lifetime_hits c,
            st_max_resident_bytes = max_resident_bytes c, st_resident_bytes = resident_bytes c,
            st_budget_skips = budget_skips c, st_capture_attempts = capture_attempts c,
            st_capture_failures = capture_failures c, st_capture_stall_us_total = capture_stall_us_total c,
            st_capture_stall_us_max = capture_stall_us_max c, st_restore_attempts = restore_attempts c,
            st_restore_invalidations = restore_invalidations c,
            st_restore_stall_us_total = restore_stall_us_total c, st_restore_stall_us_max = restore_stall_us_max c\<rparr>)"

section \<open>The full-prompt cache\<close>

definition init_full_cache :: "'h PrefixCache \<Rightarrow> int \<Rightarrow> 'h PrefixCache" where
  "init_full_cache c full_cap0 =
     (if full_cap0 \<le> 0 then c\<lparr>full_disabled := True, full_cap := 0\<rparr>
      else let n = min full_cap0 (MAX_CACHE_SLOTS - cap c) in
        if n \<le> 0 then c\<lparr>full_disabled := True\<rparr>
        else c\<lparr>full_cap := n, full_slot_base := cap c, full_next_slot := 0, full_disabled := False\<rparr>)"

definition lookup_full :: "'h keyfun \<Rightarrow> int \<Rightarrow> 'h PrefixCache \<Rightarrow> token list \<Rightarrow> (int \<times> int) \<times> 'h PrefixCache" where
  "lookup_full H now_ns c prompt =
     (if full_disabled c then ((-1, 0), c)
      else case find_full_entry c (H prompt (int (length prompt))) of
        None \<Rightarrow> ((-1, 0), c)
      | Some idx \<Rightarrow>
          (let e = full_entries c ! idx;
               c1 = c\<lparr>full_entries := (full_entries c)[idx := e\<lparr>fe_hits := fe_hits e + 1, fe_last_used_ns := now_ns\<rparr>]\<rparr>
           in ((fe_slot e, fe_cur_ids_len e),
               (move_full_to_end c1 idx)\<lparr>full_lifetime_hits := full_lifetime_hits c + 1\<rparr>)))"

definition prepare_full_snap :: "'h keyfun \<Rightarrow> 'h PrefixCache \<Rightarrow> token list \<Rightarrow> int \<times> 'h PrefixCache" where
  "prepare_full_snap H c prompt =
     (if full_disabled c then (-1, c)
      else if find_full_entry c (H prompt (int (length prompt))) \<noteq> None then (-1, c)
      else if int (length (full_entries c)) \<ge> full_cap c
      then (fe_slot (hd (full_entries c)), c\<lparr>full_pending_evict := Some (fe_hash (hd (full_entries c)))\<rparr>)
      else (full_slot_base c + full_next_slot c,
            c\<lparr>full_next_slot := (full_next_slot c + 1) mod full_cap c, full_pending_evict := None\<rparr>))"

fun drop_full_slot :: "int \<Rightarrow> nat \<Rightarrow> 'h FullLruEntry list \<Rightarrow> 'h FullLruEntry list" where
  "drop_full_slot slot 0 es = es"
| "drop_full_slot slot (Suc i) es =
     drop_full_slot slot i (if fe_slot (es ! i) = slot then remove_nth i es else es)"

definition confirm_full_snap :: "'h keyfun \<Rightarrow> int \<Rightarrow> 'h PrefixCache \<Rightarrow> int \<Rightarrow> token list \<Rightarrow> int \<Rightarrow> 'h PrefixCache" where
  "confirm_full_snap H now_ns c slot prompt cur_ids_len =
     (if full_disabled c then c
      else let es1 = (case full_pending_evict c of
                        None \<Rightarrow> full_entries c
                      | Some h \<Rightarrow> (case find_full_entry c h of None \<Rightarrow> full_entries c
                                  | Some idx \<Rightarrow> remove_nth idx (full_entries c)));
               es2 = drop_full_slot slot (length es1) es1;
               e = \<lparr>fe_hash = H prompt (int (length prompt)), fe_slot = slot, fe_cur_ids_len = cur_ids_len,
                    fe_raw_prompt_len = int (length prompt), fe_last_used_ns = now_ns, fe_hits = 0\<rparr>
           in c\<lparr>full_entries := es2 @ [e], full_pending_evict := None\<rparr>)"

definition abort_full_snap :: "'h PrefixCache \<Rightarrow> int \<Rightarrow> 'h PrefixCache" where
  "abort_full_snap c slot =
     (if full_disabled c then c
      else c\<lparr>full_entries := drop_full_slot slot (length (full_entries c)) (full_entries c), full_pending_evict := None\<rparr>)"

text \<open>Enabled, capacity, entries in use, hits; no code sets the disk byte counter, which stays \<open>0\<close>.\<close>

definition full_stats :: "'h PrefixCache \<Rightarrow> bool \<times> int \<times> int \<times> int \<times> nat" where
  "full_stats c =
     (if full_disabled c then (False, 0, 0, 0, 0)
      else (True, full_cap c, int (length (full_entries c)), 0, full_lifetime_hits c))"

end
