(* ===== verification/Prefix_Cache_Inv.thy ===== *)
theory Prefix_Cache_Inv
  imports Prefix_Cache_Ops
begin

text \<open>
  The invariant of the prefix cache and the lemmas that every operation keeps it. The operations on
  the committed entries are first put in a normal form \<open>c\<lparr>entries := es, resident_bytes := total_bytes es, evicted_log := l\<rparr>\<close>,
  from which the preservation lemmas follow by record simplification.
\<close>

section \<open>Indices\<close>

lemma index_of_SomeD:
  "index_of P xs = Some i \<Longrightarrow> i < length xs \<and> P (xs ! i) \<and> (\<forall>j < i. \<not> P (xs ! j))"
proof (induction xs arbitrary: i)
  case (Cons x xs)
  then show ?case by (auto split: if_splits simp: nth_Cons' gr0_conv_Suc)
qed simp

lemma index_of_None_iff: "index_of P xs = None \<longleftrightarrow> (\<forall>x \<in> set xs. \<not> P x)"
  by (induction xs) auto

lemma index_of_Some_ex: "x \<in> set xs \<Longrightarrow> P x \<Longrightarrow> \<exists>i. index_of P xs = Some i"
  by (metis index_of_None_iff not_Some_eq)

lemma mset_remove_nth: "i < length xs \<Longrightarrow> mset xs = add_mset (xs ! i) (mset (remove_nth i xs))"
proof -
  assume i: "i < length xs"
  have "mset xs = mset (take i xs @ xs ! i # drop (Suc i) xs)" using i by (simp add: id_take_nth_drop [symmetric])
  then show ?thesis by (simp add: remove_nth_def)
qed

lemma length_remove_nth [simp]: "i < length xs \<Longrightarrow> length (remove_nth i xs) = length xs - 1"
  by (simp add: remove_nth_def)

lemma set_remove_nth_subset: "set (remove_nth i xs) \<subseteq> set xs"
  by (auto simp: remove_nth_def dest: in_set_takeD in_set_dropD)

lemma map_remove_nth: "map f (remove_nth i xs) = remove_nth i (map f xs)"
  by (simp add: remove_nth_def take_map drop_map)

lemma distinct_remove_nth:
  assumes "distinct xs"
  shows "distinct (remove_nth i xs)"
proof (cases "i < length xs")
  case True
  then have "mset xs = mset (xs ! i # remove_nth i xs)" using mset_remove_nth by simp
  from distinct_mset_eq_set [OF this] show ?thesis using assms by simp
next
  case False
  then show ?thesis using assms by (simp add: remove_nth_def)
qed

lemma remove_nth_not_in: "distinct xs \<Longrightarrow> i < length xs \<Longrightarrow> xs ! i \<notin> set (remove_nth i xs)"
  by (metis mset_remove_nth distinct_mset_eq_set [of xs "xs ! i # remove_nth i xs"] distinct.simps(2) mset.simps(2))

lemma filter_remove_nth_slot:
  assumes "distinct (map f xs)" "i < length xs"
  shows "remove_nth i xs = filter (\<lambda>x. f x \<noteq> f (xs ! i)) xs"
proof -
  have xs: "xs = take i xs @ xs ! i # drop (Suc i) xs" using assms(2) by (simp add: id_take_nth_drop [symmetric])
  have d: "distinct (map f (take i xs @ xs ! i # drop (Suc i) xs))" using assms(1) xs by simp
  have t: "filter (\<lambda>x. f x \<noteq> f (xs ! i)) (take i xs) = take i xs"
    using d by (intro filter_True) (auto simp: image_iff)
  have r: "filter (\<lambda>x. f x \<noteq> f (xs ! i)) (drop (Suc i) xs) = drop (Suc i) xs"
    using d by (intro filter_True) (auto simp: image_iff)
  have "filter (\<lambda>x. f x \<noteq> f (xs ! i)) (take i xs @ xs ! i # drop (Suc i) xs) = take i xs @ drop (Suc i) xs"
    by (simp only: filter_append filter.simps t r) simp
  then show ?thesis using xs by (metis remove_nth_def)
qed

section \<open>Normal forms\<close>

definition total_bytes :: "'h LruEntry list \<Rightarrow> nat" where
  "total_bytes es = sum_list (map le_resident_bytes es)"

definition bytes_ok :: "'h PrefixCache \<Rightarrow> bool" where
  "bytes_ok c \<longleftrightarrow> resident_bytes c = total_bytes (entries c)"

lemma total_bytes_mset: "mset es = mset es' \<Longrightarrow> total_bytes es = total_bytes es'"
  by (metis total_bytes_def mset_map sum_mset_sum_list)

lemma total_bytes_append [simp]: "total_bytes (es @ es') = total_bytes es + total_bytes es'"
  by (simp add: total_bytes_def)

lemma total_bytes_simps [simp]: "total_bytes [] = 0" "total_bytes (e # es) = le_resident_bytes e + total_bytes es"
  by (simp_all add: total_bytes_def)

lemma total_bytes_remove:
  "i < length es \<Longrightarrow> total_bytes es = le_resident_bytes (es ! i) + total_bytes (remove_nth i es)"
  using total_bytes_mset [of es "es ! i # remove_nth i es"] mset_remove_nth [of i es] by simp

text \<open>Keeping only the entries \<open>es\<close>, with their bytes.\<close>

abbreviation keep_entries :: "'h PrefixCache \<Rightarrow> 'h LruEntry list \<Rightarrow> Evicted list \<Rightarrow> 'h PrefixCache" where
  "keep_entries c es l \<equiv> c\<lparr>entries := es, resident_bytes := total_bytes es, evicted_log := l\<rparr>"

lemma keep_entries_self: "bytes_ok c \<Longrightarrow> c = keep_entries c (entries c) (evicted_log c)"
  by (simp add: bytes_ok_def)

lemma erase_normal:
  assumes "bytes_ok c" "i < length (entries c)"
  shows "erase_inline_entry c i = c\<lparr>entries := remove_nth i (entries c), resident_bytes := total_bytes (remove_nth i (entries c))\<rparr>"
  using assms total_bytes_remove [OF assms(2)]
  by (simp add: erase_inline_entry_def bytes_ok_def Let_def)

lemma record_eviction_normal: "\<exists>l. record_eviction c i = c\<lparr>evicted_log := l\<rparr>"
  by (cases "\<not> record_evictions c \<or> i \<ge> length (entries c)")
    (auto simp: record_eviction_def intro: exI [of _ "evicted_log c"])

lemma erase_recorded_normal:
  assumes "bytes_ok c" "i < length (entries c)"
  shows "\<exists>l. erase_inline_entry (if logged then record_eviction c i else c) i = keep_entries c (remove_nth i (entries c)) l"
proof -
  obtain l where l: "(if logged then record_eviction c i else c) = c\<lparr>evicted_log := l\<rparr>"
  proof (cases logged)
    case True
    then show thesis using record_eviction_normal [of c i] that by auto
  next
    case False
    then show thesis using that [of "evicted_log c"] by simp
  qed
  have "bytes_ok (c\<lparr>evicted_log := l\<rparr>)" using assms(1) by (simp add: bytes_ok_def)
  then have "erase_inline_entry (c\<lparr>evicted_log := l\<rparr>) i = keep_entries c (remove_nth i (entries c)) l"
    using assms(2) erase_normal [of "c\<lparr>evicted_log := l\<rparr>" i] by simp
  then show ?thesis using l by auto
qed

lemma drop_slot_normal:
  assumes "bytes_ok c" "n \<le> length (entries c)"
  shows "\<exists>l. drop_slot_entries logged slot n c =
     keep_entries c (filter (\<lambda>e. le_slot e \<noteq> slot) (take n (entries c)) @ drop n (entries c)) l"
  using assms
proof (induction n arbitrary: c)
  case 0
  then show ?case by (intro exI [of _ "evicted_log c"]) (simp add: bytes_ok_def)
next
  case (Suc n)
  have n: "n < length (entries c)" using Suc.prems by simp
  have tk: "take (Suc n) (entries c) = take n (entries c) @ [entries c ! n]" using n by (rule take_Suc_conv_app_nth)
  show ?case
  proof (cases "le_slot (entries c ! n) = slot")
    case True
    obtain l where l: "erase_inline_entry (if logged then record_eviction c n else c) n = keep_entries c (remove_nth n (entries c)) l"
      using erase_recorded_normal [OF Suc.prems(1) n] by blast
    let ?c = "keep_entries c (remove_nth n (entries c)) l"
    have r: "take n (remove_nth n (entries c)) = take n (entries c)" "drop n (remove_nth n (entries c)) = drop (Suc n) (entries c)"
      using n by (simp_all add: remove_nth_def)
    have "bytes_ok ?c" "n \<le> length (entries ?c)" using n by (simp_all add: bytes_ok_def)
    from Suc.IH [OF this] obtain l' where "drop_slot_entries logged slot n ?c =
       keep_entries ?c (filter (\<lambda>e. le_slot e \<noteq> slot) (take n (entries ?c)) @ drop n (entries ?c)) l'" by blast
    then show ?thesis using True l tk r by auto
  next
    case False
    have "drop n (entries c) = entries c ! n # drop (Suc n) (entries c)" using n by (rule Cons_nth_drop_Suc [symmetric])
    moreover have "n \<le> length (entries c)" using n by simp
    ultimately show ?thesis using Suc.IH [OF Suc.prems(1)] False tk by simp
  qed
qed

lemma drop_all_normal:
  assumes "bytes_ok c"
  shows "\<exists>l. drop_slot_entries logged slot (length (entries c)) c = keep_entries c (filter (\<lambda>e. le_slot e \<noteq> slot) (entries c)) l"
  using drop_slot_normal [OF assms order_refl] by simp

section \<open>The invariant\<close>

text \<open>The slots a capture in flight keeps out of reach of the others.\<close>

definition held_slots :: "'h ActiveReservation \<Rightarrow> int set" where
  "held_slots a = insert (ar_slot a) (set (ar_extra_slots a))"

definition entry_ok :: "'h keyfun \<Rightarrow> int \<Rightarrow> 'h LruEntry \<Rightarrow> bool" where
  "entry_ok H n e \<longleftrightarrow> le_ids e \<noteq> [] \<and> le_hash e = H (le_ids e) (int (length (le_ids e))) \<and>
     0 \<le> le_slot e \<and> le_slot e < n \<and> 0 \<le> le_disk_key_len e \<and> le_disk_key_len e \<le> int (length (le_ids e))"

definition entry_slots :: "'h PrefixCache \<Rightarrow> int set" where
  "entry_slots c = le_slot ` set (entries c)"

definition entries_ok :: "'h keyfun \<Rightarrow> 'h PrefixCache \<Rightarrow> bool" where
  "entries_ok H c \<longleftrightarrow> bytes_ok c \<and> distinct (map le_slot (entries c)) \<and> (\<forall>e \<in> set (entries c). entry_ok H (cap c) e)"

definition reservations_ok :: "'h PrefixCache \<Rightarrow> bool" where
  "reservations_ok c \<longleftrightarrow>
     sorted_wrt (\<lambda>a b. held_slots a \<inter> held_slots b = {}) (active_reservations c) \<and>
     (\<forall>a \<in> set (active_reservations c). held_slots a \<subseteq> {0..<cap c} \<and>
        (ar_victim a = None \<longrightarrow> ar_slot a \<notin> entry_slots c))"

definition cache_inv :: "'h keyfun \<Rightarrow> 'h PrefixCache \<Rightarrow> bool" where
  "cache_inv H c \<longleftrightarrow> entries_ok H c \<and> reservations_ok c \<and> cap c \<le> MAX_CACHE_SLOTS \<and> 0 \<le> next_slot c \<and>
     (if disabled c then cap c = 0 else next_slot c < cap c)"

lemma slot_reserved_iff: "slot_reserved c s \<longleftrightarrow> (\<exists>a \<in> set (active_reservations c). s \<in> held_slots a)"
  by (auto simp: slot_reserved_def held_slots_def)

lemma cache_inv_entries: "cache_inv H c \<Longrightarrow> entries_ok H c"
  and cache_inv_reservations: "cache_inv H c \<Longrightarrow> reservations_ok c"
  and cache_inv_bytes: "cache_inv H c \<Longrightarrow> bytes_ok c"
  and cache_inv_distinct: "cache_inv H c \<Longrightarrow> distinct (map le_slot (entries c))"
  by (simp_all add: cache_inv_def entries_ok_def)

text \<open>Dropping entries, and changing what does not matter, keeps the invariant.\<close>

lemma cache_inv_subset:
  assumes inv: "cache_inv H c" and sub: "set es \<subseteq> set (entries c)" and d: "distinct (map le_slot es)"
    and e: "entries c' = es" "resident_bytes c' = total_bytes es"
    and same: "active_reservations c' = active_reservations c" "cap c' = cap c" "next_slot c' = next_slot c" "disabled c' = disabled c"
  shows "cache_inv H c'"
proof -
  have "entries_ok H c'" using inv sub d e same by (auto simp: cache_inv_def entries_ok_def bytes_ok_def)
  moreover have "entry_slots c' \<subseteq> entry_slots c" using sub e by (auto simp: entry_slots_def)
  then have "reservations_ok c'" using inv same by (auto simp: cache_inv_def reservations_ok_def)
  ultimately show ?thesis using inv same by (simp add: cache_inv_def)
qed

lemmas cache_inv_same = cache_inv_subset [OF _ subset_refl _ refl]

lemma cache_inv_fields:
  assumes "cache_inv H c" "entries c' = entries c" "resident_bytes c' = resident_bytes c"
    "active_reservations c' = active_reservations c" "cap c' = cap c" "next_slot c' = next_slot c" "disabled c' = disabled c"
  shows "cache_inv H c'"
  using cache_inv_subset [OF assms(1) subset_refl cache_inv_distinct [OF assms(1)], of c'] assms
    cache_inv_bytes [OF assms(1)] by (simp add: bytes_ok_def)

lemma cache_inv_erase:
  assumes "cache_inv H c" "i < length (entries c)"
  shows "cache_inv H (erase_inline_entry c i)"
proof (rule cache_inv_subset [OF assms(1), of "remove_nth i (entries c)"])
  show "distinct (map le_slot (remove_nth i (entries c)))"
    using cache_inv_distinct [OF assms(1)] by (simp add: map_remove_nth distinct_remove_nth)
qed (use assms set_remove_nth_subset [of i "entries c"] in \<open>simp_all add: erase_normal [OF cache_inv_bytes]\<close>)

lemma record_eviction_inv: "cache_inv H c \<Longrightarrow> cache_inv H (record_eviction c i)"
  using record_eviction_normal [of c i] by (auto intro: cache_inv_fields)

lemma erase_recorded_inv:
  "cache_inv H c \<Longrightarrow> i < length (entries c) \<Longrightarrow> cache_inv H (erase_inline_entry (record_eviction c i) i)"
  by (simp add: cache_inv_erase record_eviction_inv)

lemma drop_slot_inv:
  assumes "cache_inv H c"
  shows "cache_inv H (drop_slot_entries logged slot (length (entries c)) c)"
proof -
  obtain l where l: "drop_slot_entries logged slot (length (entries c)) c =
      keep_entries c (filter (\<lambda>e. le_slot e \<noteq> slot) (entries c)) l"
    using drop_all_normal [OF cache_inv_bytes [OF assms]] by blast
  show ?thesis unfolding l
    by (rule cache_inv_subset [OF assms, of "filter (\<lambda>e. le_slot e \<noteq> slot) (entries c)"])
      (use cache_inv_distinct [OF assms] in \<open>auto intro: distinct_map_filter\<close>)
qed

lemma find_entryD:
  "find_entry c h = Some i \<Longrightarrow> i < length (entries c) \<and> le_hash (entries c ! i) = h"
  unfolding find_entry_def by (drule index_of_SomeD) simp

lemma find_slot_entryD:
  "find_slot_entry c s = Some i \<Longrightarrow> i < length (entries c) \<and> le_slot (entries c ! i) = s"
  unfolding find_slot_entry_def by (drule index_of_SomeD) simp

lemma find_slot_entry_None: "find_slot_entry c s = None \<longleftrightarrow> s \<notin> entry_slots c"
  by (auto simp: find_slot_entry_def index_of_None_iff entry_slots_def)

lemma evict_extra_inv: "cache_inv H c \<Longrightarrow> cache_inv H (evict_extra xs c)"
  by (induction xs arbitrary: c)
    (auto split: option.splits dest!: find_entryD simp: erase_recorded_inv)

lemma evict_victim_inv: "cache_inv H c \<Longrightarrow> cache_inv H (evict_victim v c)"
  by (auto simp: evict_victim_def split: option.splits dest!: find_entryD intro: erase_recorded_inv)

lemma move_to_end_inv:
  assumes "cache_inv H c"
  shows "cache_inv H (move_to_end c i)"
proof (cases "i < length (entries c)")
  case True
  let ?es = "remove_nth i (entries c) @ [entries c ! i]"
  have ms: "mset ?es = mset (entries c)" using mset_remove_nth [OF True] by simp
  have ms': "mset (map le_slot ?es) = mset (map le_slot (entries c))" using ms by (metis mset_map)
  have "set ?es = set (entries c)" using ms by (metis set_mset_mset)
  moreover have "distinct (map le_slot ?es)"
    using distinct_mset_eq_set [OF ms'] cache_inv_distinct [OF assms] by simp
  ultimately show ?thesis using True total_bytes_mset [OF ms] cache_inv_bytes [OF assms]
    by (intro cache_inv_subset [OF assms, of ?es]) (auto simp: move_to_end_def bytes_ok_def)
next
  case False
  then show ?thesis using assms by (simp add: move_to_end_def)
qed

lemma record_inline_hit_inv: "cache_inv H c \<Longrightarrow> cache_inv H (record_inline_hit c s l)"
  by (auto simp: record_inline_hit_def split: option.splits
      intro: cache_inv_fields [OF move_to_end_inv])

lemma boundary_scan_inv: "cache_inv H c \<Longrightarrow> cache_inv H (fst (boundary_scan K prompt m bs c best))"
proof (induction bs arbitrary: c best)
  case (Cons b bs)
  have "cache_inv H (erase_inline_entry c i)" if "find_entry c h = Some i" for h i
    using that Cons.prems by (auto dest: find_entryD intro: cache_inv_erase)
  then show ?case using Cons by (cases best) (auto simp: Let_def split: option.split)
qed simp

lemma lookup_impl_inv: "cache_inv H c \<Longrightarrow> cache_inv H (snd (lookup_impl K c prompt m record_hit))"
  using boundary_scan_inv [of H c K prompt m "find_all_boundaries prompt (markers c)" "(-1, 0)"]
  by (auto simp: lookup_impl_def Let_def split: prod.splits intro: record_inline_hit_inv)

section \<open>Releasing and committing\<close>

lemma sorted_wrt_remove_nth:
  assumes "sorted_wrt R xs"
  shows "sorted_wrt R (remove_nth i xs)"
proof (cases "i < length xs")
  case True
  then have "xs = take i xs @ xs ! i # drop (Suc i) xs" by (simp add: id_take_nth_drop [symmetric])
  then have "sorted_wrt R (take i xs @ xs ! i # drop (Suc i) xs)" using assms by simp
  then show ?thesis unfolding remove_nth_def sorted_wrt_append by simp
next
  case False
  then show ?thesis using assms by (simp add: remove_nth_def)
qed

lemma sorted_wrt_nth_others:
  assumes "sorted_wrt R xs" "\<And>x y. R x y \<Longrightarrow> R y x" "i < length xs" "y \<in> set (remove_nth i xs)"
  shows "R (xs ! i) y"
proof -
  have "xs = take i xs @ xs ! i # drop (Suc i) xs" using assms(3) by (simp add: id_take_nth_drop [symmetric])
  then have "sorted_wrt R (take i xs @ xs ! i # drop (Suc i) xs)" using assms(1) by simp
  then show ?thesis using assms(2,4) by (auto simp: remove_nth_def sorted_wrt_append)
qed

lemma release_reservation_inv:
  assumes "cache_inv H c"
  shows "cache_inv H (release_inline_reservation c i)"
proof -
  have "cache_inv H (c\<lparr>active_reservations := remove_nth k (active_reservations c)\<rparr>)" for k
  proof -
    let ?c = "c\<lparr>active_reservations := remove_nth k (active_reservations c)\<rparr>"
    have "reservations_ok ?c"
      using cache_inv_reservations [OF assms]
        subsetD [OF set_remove_nth_subset [of k "active_reservations c"]]
      unfolding reservations_ok_def entry_slots_def by (simp add: sorted_wrt_remove_nth)
    moreover have "entries_ok H ?c" using cache_inv_entries [OF assms] by (simp add: entries_ok_def bytes_ok_def)
    ultimately show ?thesis using assms by (simp add: cache_inv_def)
  qed
  then show ?thesis using assms by (auto simp: release_inline_reservation_def split: option.split)
qed

lemma cancel_inv: "cache_inv H c \<Longrightarrow> cache_inv H (fst (cancel_reservation c r))"
  by (simp add: cancel_reservation_def release_reservation_inv)

lemma abort_inline_reservation_inv: "cache_inv H c \<Longrightarrow> cache_inv H (fst (abort_inline_reservation c r))"
  by (simp add: abort_inline_reservation_def release_reservation_inv drop_slot_inv)

lemma abort_reservation_inv: "cache_inv H c \<Longrightarrow> cache_inv H (fst (abort_reservation c r))"
  by (simp add: abort_reservation_def abort_inline_reservation_inv)

lemma invalidate_inv: "cache_inv H c \<Longrightarrow> cache_inv H (invalidate_inline_snap c slot)"
  by (simp add: invalidate_inline_snap_def drop_slot_inv)

text \<open>The entry a commit adds, and the cache it leaves.\<close>

definition new_entry :: "'h keyfun \<Rightarrow> int \<Rightarrow> int \<Rightarrow> token list \<Rightarrow> bool \<Rightarrow> nat \<Rightarrow> 'h LruEntry" where
  "new_entry H slot n prompt protect bytes =
     \<lparr>le_hash = H prompt n, le_slot = slot, le_ids = take (nat n) prompt, le_protect = protect,
      le_resident_bytes = bytes, le_edit_backup = False, le_disk_key_len = 0, le_aux = [], le_agent_turn = False\<rparr>"

lemma new_entry_sel [simp]:
  "le_slot (new_entry H slot n prompt protect bytes) = slot"
  "le_ids (new_entry H slot n prompt protect bytes) = take (nat n) prompt"
  "le_resident_bytes (new_entry H slot n prompt protect bytes) = bytes"
  "le_hash (new_entry H slot n prompt protect bytes) = H prompt n"
  "le_protect (new_entry H slot n prompt protect bytes) = protect"
  by (simp_all add: new_entry_def)

lemma replace_normal:
  assumes "bytes_ok c"
  shows "\<exists>l. replace_inline_entry H c slot n prompt protect bytes =
     keep_entries c (filter (\<lambda>e. le_slot e \<noteq> slot) (entries c) @ [new_entry H slot n prompt protect bytes]) l"
proof -
  obtain l where "drop_slot_entries True slot (length (entries c)) c = keep_entries c (filter (\<lambda>e. le_slot e \<noteq> slot) (entries c)) l"
    using drop_all_normal [OF assms] by blast
  then show ?thesis by (intro exI [of _ l]) (simp add: replace_inline_entry_def new_entry_def Let_def)
qed

text \<open>The slot of a new entry must be free of other captures.\<close>

definition slot_open :: "'h PrefixCache \<Rightarrow> int \<Rightarrow> bool" where
  "slot_open c slot \<longleftrightarrow> (\<forall>a \<in> set (active_reservations c). slot \<notin> held_slots a)"

text \<open>What the cache needs of its key: it depends on the hashed tokens only.\<close>

locale prefix_keys =
  fixes H :: "'h keyfun"
  assumes key_take: "0 \<le> n \<Longrightarrow> n \<le> int (length p) \<Longrightarrow> H (take (nat n) p) n = H p n"
begin

lemma new_entry_ok:
  "0 < n \<Longrightarrow> n \<le> int (length prompt) \<Longrightarrow> 0 \<le> slot \<Longrightarrow> slot < m \<Longrightarrow> entry_ok H m (new_entry H slot n prompt protect bytes)"
  using key_take [of n prompt] by (auto simp: entry_ok_def new_entry_def)

lemma add_entry_inv:
  assumes inv: "cache_inv H c" and n: "0 < n" "n \<le> int (length prompt)" and slot: "0 \<le> slot" "slot < cap c"
    and e: "c' = c\<lparr>entries := filter (\<lambda>e. le_slot e \<noteq> slot) (entries c) @ [new_entry H slot n prompt protect bytes],
       resident_bytes := total_bytes (filter (\<lambda>e. le_slot e \<noteq> slot) (entries c) @ [new_entry H slot n prompt protect bytes]),
       evicted_log := l, active_reservations := ars\<rparr>"
    and ars: "set ars \<subseteq> set (active_reservations c)" "sorted_wrt (\<lambda>a b. held_slots a \<inter> held_slots b = {}) ars"
      "\<forall>a \<in> set ars. slot \<notin> held_slots a"
  shows "cache_inv H c'"
proof -
  have "entries_ok H c'"
    using cache_inv_entries [OF inv] new_entry_ok [OF n slot]
    by (auto simp: e entries_ok_def bytes_ok_def distinct_map_filter)
  moreover have "entry_slots c' \<subseteq> insert slot (entry_slots c)" by (auto simp: e entry_slots_def)
  then have "reservations_ok c'"
    using cache_inv_reservations [OF inv] ars by (auto simp: e reservations_ok_def held_slots_def)
  ultimately show ?thesis using inv by (simp add: cache_inv_def e)
qed

lemma confirm_inv:
  assumes inv: "cache_inv H c" and slot: "slot < cap c"
  shows "cache_inv H (confirm_inline_snap H c slot n prompt protect bytes)"
proof (cases "disabled c \<or> slot < 0 \<or> n \<le> 0 \<or> n > int (length prompt) \<or> active_reservations c \<noteq> []")
  case True
  then show ?thesis using inv by (auto simp: confirm_inline_snap_def)
next
  case False
  obtain l where l: "replace_inline_entry H c slot n prompt protect bytes =
      keep_entries c (filter (\<lambda>e. le_slot e \<noteq> slot) (entries c) @ [new_entry H slot n prompt protect bytes]) l"
    using replace_normal [OF cache_inv_bytes [OF inv]] by blast
  have "cache_inv H (replace_inline_entry H c slot n prompt protect bytes)"
    by (rule add_entry_inv [OF inv, where n = n and prompt = prompt and slot = slot and protect = protect
          and bytes = bytes and l = l and ars = "[]"]) (use False slot l in auto)
  then show ?thesis using False by (simp add: confirm_inline_snap_def)
qed

end

lemma hash_input_take:
  "0 \<le> n \<Longrightarrow> n \<le> int (length p) \<Longrightarrow> hash_input (take (nat n) p) n = hash_input p n"
  by (simp add: hash_input_def Let_def)

interpretation pc: prefix_keys pc_key
  by unfold_locales (simp add: pc_key_def hash_prefix_def hash_input_take)

end
