(* ===== verification/Prefix_Cache_Commit.thy ===== *)
theory Prefix_Cache_Commit
  imports Prefix_Cache_Inv
begin

text \<open>
  What a commit does to the committed entries, and the preservation of the invariant by the commit, the
  pruning of ancestors, the resident budget and the remaining operations of the inline cache.
\<close>

section \<open>The evictions of a commit\<close>

abbreviation without_slots :: "'h PrefixCache \<Rightarrow> int set \<Rightarrow> 'h LruEntry list" where
  "without_slots c S \<equiv> filter (\<lambda>e. le_slot e \<notin> S) (entries c)"

lemma erase_recorded_slots:
  assumes "bytes_ok c" "distinct (map le_slot (entries c))" "i < length (entries c)"
  shows "\<exists>l. erase_inline_entry (record_eviction c i) i = keep_entries c (without_slots c {le_slot (entries c ! i)}) l"
  using erase_recorded_normal [OF assms(1,3), of True] filter_remove_nth_slot [OF assms(2,3)] by simp

lemma evict_extra_normal:
  assumes "bytes_ok c" "distinct (map le_slot (entries c))"
  shows "\<exists>S l. S \<subseteq> snd ` set xs \<and> evict_extra xs c = keep_entries c (without_slots c S) l"
  using assms
proof (induction xs arbitrary: c)
  case Nil
  have "evict_extra [] c = keep_entries c (without_slots c {}) (evicted_log c)"
    using keep_entries_self [OF Nil(1)] by simp
  then show ?case by blast
next
  case (Cons x xs)
  obtain h s where x: "x = (h, s)" by (cases x)
  show ?case
  proof (cases "\<exists>i. find_entry c h = Some i \<and> le_slot (entries c ! i) = s")
    case True
    then obtain i where i: "find_entry c h = Some i" "le_slot (entries c ! i) = s" by blast
    have "i < length (entries c)" using find_entryD [OF i(1)] by simp
    then obtain l where l: "erase_inline_entry (record_eviction c i) i = keep_entries c (without_slots c {s}) l"
      using erase_recorded_slots [OF Cons.prems] i by blast
    let ?c = "keep_entries c (without_slots c {s}) l"
    have "bytes_ok ?c" "distinct (map le_slot (entries ?c))"
      using Cons.prems by (simp_all add: bytes_ok_def distinct_map_filter)
    from Cons.IH [OF this] obtain S l' where S: "S \<subseteq> snd ` set xs"
      "evict_extra xs ?c = keep_entries ?c (without_slots ?c S) l'" by blast
    have "without_slots ?c S = without_slots c (insert s S)" by (auto intro: filter_cong)
    then have "evict_extra (x # xs) c = keep_entries c (without_slots c (insert s S)) l'"
      using x i l S(2) by simp
    moreover have "insert s S \<subseteq> snd ` set (x # xs)" using S(1) x by auto
    ultimately show ?thesis by blast
  next
    case False
    then have "evict_extra (x # xs) c = evict_extra xs c" using x by (auto split: option.split)
    moreover obtain S l where "S \<subseteq> snd ` set xs" "evict_extra xs c = keep_entries c (without_slots c S) l"
      using Cons.IH [OF Cons.prems] by blast
    moreover have "snd ` set xs \<subseteq> snd ` set (x # xs)" by auto
    ultimately show ?thesis by (intro exI [of _ S] exI [of _ l] conjI) (erule order_trans, simp_all)
  qed
qed

lemma evict_victim_normal:
  assumes "bytes_ok c" "distinct (map le_slot (entries c))"
  shows "\<exists>S l. (\<forall>e \<in> set (entries c). le_slot e \<in> S \<longrightarrow> v = Some (le_hash e)) \<and>
     evict_victim v c = keep_entries c (without_slots c S) l"
proof (cases "\<exists>h i. v = Some h \<and> find_entry c h = Some i")
  case True
  then obtain h i where hi: "v = Some h" "find_entry c h = Some i" by blast
  have i: "i < length (entries c)" "le_hash (entries c ! i) = h" using find_entryD [OF hi(2)] by simp_all
  obtain l where l: "erase_inline_entry (record_eviction c i) i = keep_entries c (without_slots c {le_slot (entries c ! i)}) l"
    using i(1) erase_recorded_slots [OF assms] by blast
  have "e = entries c ! i" if "e \<in> set (entries c)" "le_slot e = le_slot (entries c ! i)" for e
    using assms(2) i that by (metis distinct_map inj_onD nth_mem)
  then show ?thesis using l hi i
    by (intro exI [of _ "{le_slot (entries c ! i)}"] exI [of _ l]) (auto simp: evict_victim_def)
next
  case False
  then have "evict_victim v c = c" by (auto simp: evict_victim_def split: option.split)
  also have "c = keep_entries c (without_slots c {}) (evicted_log c)" using keep_entries_self [OF assms(1)] by simp
  finally show ?thesis by blast
qed

section \<open>A successful commit\<close>

text \<open>A handle owns the reservation \<open>a\<close>.\<close>

definition owns :: "'h PrefixCache \<Rightarrow> 'h InlineReservation \<Rightarrow> 'h ActiveReservation \<Rightarrow> bool" where
  "owns c r a \<longleftrightarrow> ir_cache r \<and> find_active_reservation c (ir_id r) = Some a \<and> ar_slot a = ir_slot r \<and> ar_victim a = ir_victim r"

lemma owns_active: "owns c r a \<Longrightarrow> reservation_active c r"
  by (simp add: owns_def reservation_active_def inline_reservation_active_def)

lemma find_index_of: "find P xs = map_option ((!) xs) (index_of P xs)"
  by (induction xs) (auto simp: option.map_comp comp_def)

lemma find_active_index:
  assumes "find_active_reservation c i = Some a"
  obtains k where "index_of (\<lambda>b. ar_id b = i) (active_reservations c) = Some k" "k < length (active_reservations c)"
    "a = active_reservations c ! k"
  using assms index_of_SomeD
  by (fastforce simp: find_active_reservation_def find_index_of split: if_splits)

lemma commit_normal:
  assumes inv: "cache_inv H c" and own: "owns c r a"
    and n: "0 < n" "n \<le> ir_target_cut r" "n \<le> int (length prompt)"
  shows "\<exists>S l k. (\<forall>e \<in> set (entries c). le_slot e \<in> S \<longrightarrow> le_slot e \<in> held_slots a \<or> ar_victim a = Some (le_hash e)) \<and>
     k < length (active_reservations c) \<and> a = active_reservations c ! k \<and>
     commit_inline_reservation H c r prompt n bytes protect =
       (True, c\<lparr>entries := filter (\<lambda>e. le_slot e \<noteq> ir_slot r) (without_slots c S) @ [new_entry H (ir_slot r) n prompt (protect \<or> ir_protect r) bytes],
          resident_bytes := total_bytes (filter (\<lambda>e. le_slot e \<noteq> ir_slot r) (without_slots c S) @ [new_entry H (ir_slot r) n prompt (protect \<or> ir_protect r) bytes]),
          evicted_log := l, active_reservations := remove_nth k (active_reservations c)\<rparr>, no_reservation)"
proof -
  let ?e = "new_entry H (ir_slot r) n prompt (protect \<or> ir_protect r) bytes"
  note d = cache_inv_bytes [OF inv] cache_inv_distinct [OF inv]
  have act: "find_active_reservation c (ir_id r) = Some a" using own by (simp add: owns_def)
  then obtain k where k: "index_of (\<lambda>b. ar_id b = ir_id r) (active_reservations c) = Some k"
    "k < length (active_reservations c)" "a = active_reservations c ! k" by (rule find_active_index)
  let ?xs = "zip (ar_extra_victims a) (ar_extra_slots a)"
  obtain S1 l1 where 1: "S1 \<subseteq> snd ` set ?xs" "evict_extra ?xs c = keep_entries c (without_slots c S1) l1"
    using evict_extra_normal [OF d] by blast
  let ?c1 = "keep_entries c (without_slots c S1) l1"
  have d1: "bytes_ok ?c1" "distinct (map le_slot (entries ?c1))" using d by (simp_all add: bytes_ok_def distinct_map_filter)
  obtain S2 l2 where 2: "\<forall>e \<in> set (entries ?c1). le_slot e \<in> S2 \<longrightarrow> ir_victim r = Some (le_hash e)"
    "evict_victim (ir_victim r) ?c1 = keep_entries ?c1 (without_slots ?c1 S2) l2"
    using evict_victim_normal [OF d1] by blast
  have w: "without_slots ?c1 S2 = without_slots c (S1 \<union> S2)" by (auto intro: filter_cong)
  let ?c2 = "keep_entries c (without_slots c (S1 \<union> S2)) l2"
  have c2: "evict_victim (ir_victim r) ?c1 = ?c2" using 2(2) by (simp add: w)
  have "bytes_ok ?c2" by (simp add: bytes_ok_def)
  then obtain l3 where 3: "replace_inline_entry H ?c2 (ir_slot r) n prompt (protect \<or> ir_protect r) bytes =
      keep_entries ?c2 (filter (\<lambda>e. le_slot e \<noteq> ir_slot r) (entries ?c2) @ [?e]) l3"
    using replace_normal by blast
  have rel: "release_inline_reservation (keep_entries ?c2 es l3) (ir_id r) =
      c\<lparr>entries := es, resident_bytes := total_bytes es, evicted_log := l3, active_reservations := remove_nth k (active_reservations c)\<rparr>" for es
    using k(1) by (simp add: release_inline_reservation_def)
  have "commit_inline_reservation H c r prompt n bytes protect =
      (True, release_inline_reservation (keep_entries ?c2 (filter (\<lambda>e. le_slot e \<noteq> ir_slot r) (entries ?c2) @ [?e]) l3) (ir_id r), no_reservation)"
    using owns_active [OF own] n act 1(2) c2 3 by (simp add: commit_inline_reservation_def Let_def)
  then have "commit_inline_reservation H c r prompt n bytes protect =
      (True, c\<lparr>entries := filter (\<lambda>e. le_slot e \<noteq> ir_slot r) (without_slots c (S1 \<union> S2)) @ [?e],
        resident_bytes := total_bytes (filter (\<lambda>e. le_slot e \<noteq> ir_slot r) (without_slots c (S1 \<union> S2)) @ [?e]),
        evicted_log := l3, active_reservations := remove_nth k (active_reservations c)\<rparr>, no_reservation)"
    unfolding rel by simp
  moreover have "le_slot e \<in> held_slots a \<or> ar_victim a = Some (le_hash e)"
    if "e \<in> set (entries c)" "le_slot e \<in> S1 \<union> S2" for e
  proof (cases "le_slot e \<in> S1")
    case True
    moreover have "snd ` set ?xs \<subseteq> set (ar_extra_slots a)" by (auto dest: set_zip_rightD)
    ultimately show ?thesis using 1(1) by (auto simp: held_slots_def)
  next
    case False
    then have "e \<in> set (entries ?c1)" "le_slot e \<in> S2" using that by auto
    then show ?thesis using 2(1) own by (simp add: owns_def)
  qed
  ultimately show ?thesis using k(2,3) by blast
qed

context prefix_keys
begin

lemma commit_inline_inv:
  assumes inv: "cache_inv H c" and own: "owns c r a"
  shows "cache_inv H (fst (snd (commit_inline_reservation H c r prompt n bytes protect)))"
proof (cases "0 < n \<and> n \<le> ir_target_cut r \<and> n \<le> int (length prompt)")
  case True
  then have n: "0 < n" "n \<le> ir_target_cut r" "n \<le> int (length prompt)" by auto
  let ?e = "new_entry H (ir_slot r) n prompt (protect \<or> ir_protect r) bytes"
  obtain S l k where k: "k < length (active_reservations c)" "a = active_reservations c ! k"
    and eq: "commit_inline_reservation H c r prompt n bytes protect =
       (True, c\<lparr>entries := filter (\<lambda>e. le_slot e \<noteq> ir_slot r) (without_slots c S) @ [?e],
          resident_bytes := total_bytes (filter (\<lambda>e. le_slot e \<noteq> ir_slot r) (without_slots c S) @ [?e]),
          evicted_log := l, active_reservations := remove_nth k (active_reservations c)\<rparr>, no_reservation)"
    using commit_normal [OF inv own n] by blast
  let ?c = "keep_entries c (without_slots c S) l"
  have inv': "cache_inv H ?c"
    by (rule cache_inv_subset [OF inv, of "without_slots c S"])
      (use cache_inv_distinct [OF inv] in \<open>auto intro: distinct_map_filter\<close>)
  note res = cache_inv_reservations [OF inv, unfolded reservations_ok_def]
  have slot: "ir_slot r \<in> held_slots a" using own by (simp add: owns_def held_slots_def)
  have "a \<in> set (active_reservations c)" using k by simp
  then have "held_slots a \<subseteq> {0..<cap c}" using res by blast
  then have range: "0 \<le> ir_slot r" "ir_slot r < cap ?c" using slot by auto
  have disj: "held_slots a \<inter> held_slots b = {}" if "b \<in> set (remove_nth k (active_reservations c))" for b
    using sorted_wrt_nth_others [of "\<lambda>a b. held_slots a \<inter> held_slots b = {}" "active_reservations c" k b] res k that
    by auto
  have "cache_inv H (c\<lparr>entries := filter (\<lambda>e. le_slot e \<noteq> ir_slot r) (without_slots c S) @ [?e],
      resident_bytes := total_bytes (filter (\<lambda>e. le_slot e \<noteq> ir_slot r) (without_slots c S) @ [?e]),
      evicted_log := l, active_reservations := remove_nth k (active_reservations c)\<rparr>)"
    by (rule add_entry_inv [OF inv' n(1,3) range, where l = l and protect = "protect \<or> ir_protect r" and bytes = bytes
          and ars = "remove_nth k (active_reservations c)"])
      (use set_remove_nth_subset [of k "active_reservations c"] res disj slot in \<open>auto intro: sorted_wrt_remove_nth\<close>)
  then show ?thesis by (simp add: eq)
next
  case False
  then show ?thesis using abort_reservation_inv [OF inv] by (auto simp: commit_inline_reservation_def)
qed

end

section \<open>Pruning\<close>

lemma superseded_fold:
  "fst (foldl (\<lambda>(out, shallowest) i.
       if \<not> P i then (out, shallowest)
       else (if \<not> Q i then out @ [i] else out, F shallowest i)) (out, sh) is) = out @ filter (\<lambda>i. P i \<and> \<not> Q i) is"
  by (induction "is" arbitrary: out sh) auto

lemma superseded_entries_filter:
  "\<exists>R. superseded_entries c ids =
     filter (\<lambda>i. is_strict_prefix (le_ids (entries c ! i)) ids \<and> \<not> le_protect (entries c ! i) \<and> R i) [0..<length (entries c)]"
proof -
  define F where "F sh i = (case sh of None \<Rightarrow> Some i
     | Some s \<Rightarrow> if length (le_ids (entries c ! i)) < length (le_ids (entries c ! s)) then Some i else sh)" for sh i
  define fold where "fold = foldl (\<lambda>(out, shallowest) i.
       if \<not> is_strict_prefix (le_ids (entries c ! i)) ids then (out, shallowest)
       else (if \<not> le_protect (entries c ! i) then out @ [i] else out, F shallowest i)) ([], None) [0..<length (entries c)]"
  have "superseded_entries c ids = filter (\<lambda>i. snd fold \<noteq> Some i) (fst fold)"
    unfolding superseded_entries_def fold_def F_def Let_def by (simp only: case_prod_beta)
  moreover have "fst fold = filter (\<lambda>i. is_strict_prefix (le_ids (entries c ! i)) ids \<and> \<not> le_protect (entries c ! i)) [0..<length (entries c)]"
    unfolding fold_def by (subst superseded_fold) simp
  ultimately have "superseded_entries c ids = filter (\<lambda>i. is_strict_prefix (le_ids (entries c ! i)) ids \<and>
      \<not> le_protect (entries c ! i) \<and> snd fold \<noteq> Some i) [0..<length (entries c)]"
    by (simp add: conj_commute conj_left_commute)
  then show ?thesis by (rule exI [of _ "\<lambda>i. snd fold \<noteq> Some i"])
qed

lemma superseded_entries_sorted: "sorted_wrt (<) (superseded_entries c ids)"
  and superseded_entriesD: "i \<in> set (superseded_entries c ids) \<Longrightarrow>
    i < length (entries c) \<and> is_strict_prefix (le_ids (entries c ! i)) ids \<and> \<not> le_protect (entries c ! i)"
  using superseded_entries_filter [of c ids] by (auto simp: sorted_wrt_filter)

lemma prune_loop_inv:
  "cache_inv H c \<Longrightarrow> sorted_wrt (>) is \<Longrightarrow> \<forall>i \<in> set is. i < length (entries c) \<Longrightarrow> cache_inv H (snd (prune_loop is c))"
proof (induction "is" c rule: prune_loop.induct)
  case (2 i rest c)
  have "cache_inv H (erase_inline_entry c i)" using 2(2,4) by (auto intro: cache_inv_erase)
  moreover have "\<forall>j \<in> set rest. j < length (entries (erase_inline_entry c i))"
    using 2(3,4) by (auto simp: erase_inline_entry_length)
  ultimately show ?case using 2 by (auto simp: Let_def split: prod.split)
qed simp

lemma update_entry_inv:
  assumes inv: "cache_inv H c" and i: "i < length (entries c)"
    and f: "le_slot e = le_slot (entries c ! i)" "le_resident_bytes e = le_resident_bytes (entries c ! i)" "entry_ok H (cap c) e"
  shows "cache_inv H (c\<lparr>entries := (entries c)[i := e]\<rparr>)"
proof -
  let ?c = "c\<lparr>entries := (entries c)[i := e]\<rparr>"
  have m: "map le_slot (entries ?c) = map le_slot (entries c)" "map le_resident_bytes (entries ?c) = map le_resident_bytes (entries c)"
    using f i by (simp_all add: map_update list_update_same_conv)
  then have b: "total_bytes (entries ?c) = total_bytes (entries c)" by (simp only: total_bytes_def)
  have "entries_ok H ?c"
    using cache_inv_entries [OF inv] m b f(3) set_update_subset_insert [of "entries c" i e]
    unfolding entries_ok_def bytes_ok_def by auto
  moreover have "entry_slots ?c = entry_slots c" using m by (metis entry_slots_def set_map)
  then have "reservations_ok ?c" using cache_inv_reservations [OF inv] by (simp add: reservations_ok_def)
  ultimately show ?thesis using inv by (simp add: cache_inv_def)
qed

lemma entry_ok_nth: "cache_inv H c \<Longrightarrow> i < length (entries c) \<Longrightarrow> entry_ok H (cap c) (entries c ! i)"
  by (simp add: cache_inv_def entries_ok_def)

lemma update_slot_entry_inv:
  assumes inv: "cache_inv H c"
    and f: "\<And>e. le_slot (f e) = le_slot e" "\<And>e. le_resident_bytes (f e) = le_resident_bytes e"
      "\<And>e. entry_ok H (cap c) e \<Longrightarrow> entry_ok H (cap c) (f e)"
  shows "cache_inv H (update_slot_entry c slot f)"
  using assms by (auto simp: update_slot_entry_def split: option.split dest!: find_slot_entryD
      intro!: update_entry_inv entry_ok_nth)

lemma set_disk_key_inv: "cache_inv H c \<Longrightarrow> cache_inv H (set_disk_key c slot tokens)"
  unfolding set_disk_key_def by (rule update_slot_entry_inv) (auto simp: entry_ok_def)

lemma set_aux_inv: "cache_inv H c \<Longrightarrow> cache_inv H (set_aux c slot a)"
  unfolding set_aux_def by (rule update_slot_entry_inv) (auto simp: entry_ok_def)

lemma mark_agent_turn_inv: "cache_inv H c \<Longrightarrow> cache_inv H (mark_agent_turn c slot)"
  unfolding mark_agent_turn_def by (rule update_slot_entry_inv) (auto simp: entry_ok_def)

lemma previous_turn_in:
  assumes "previous_turn c xs = Some p"
  shows "p \<in> set xs"
proof -
  define step where "step prev i = (case prev of None \<Rightarrow> Some i
     | Some q \<Rightarrow> if length (le_ids (entries c ! i)) > length (le_ids (entries c ! q)) then Some i else prev)" for prev i
  have "foldl step p0 xs = Some p \<Longrightarrow> p0 = Some p \<or> p \<in> set xs" for p0
  proof (induction xs arbitrary: p0)
    case (Cons i xs)
    then show ?case using Cons.IH [of "step p0 i"] by (auto simp: step_def split: option.splits if_splits)
  qed simp
  from this [of None] show ?thesis using assms by (simp add: previous_turn_def step_def [abs_def])
qed

lemma prune_inv:
  assumes inv: "cache_inv H c"
  shows "cache_inv H (snd (prune_superseded_ancestors c slot))"
proof -
  have loop: "cache_inv H (snd (prune_loop (rev xs) c'))"
    if "cache_inv H c'" "length (entries c') = length (entries c)" "sorted_wrt (<) xs" "set xs \<subseteq> {0..<length (entries c)}" for xs c'
    using that by (intro prune_loop_inv) (auto simp: sorted_wrt_rev)
  have backup: "cache_inv H (c\<lparr>entries := (entries c)[p := (entries c ! p)\<lparr>le_edit_backup := True\<rparr>]\<rparr>)" if "p < length (entries c)" for p
    using inv that entry_ok_nth [OF inv that] by (intro update_entry_inv) (auto simp: entry_ok_def)
  have sub: "set (superseded_entries c ids) \<subseteq> {0..<length (entries c)}" for ids
    using superseded_entriesD [of _ c ids] by auto
  have rem: "sorted_wrt (<) (remove1 p (superseded_entries c ids))" for p ids
    using superseded_entries_sorted [of c ids] by (metis strict_sorted_iff distinct_remove1 sorted_remove1)
  show ?thesis
  proof (cases "find_slot_entry c slot")
    case None
    then show ?thesis using inv by (simp add: prune_superseded_ancestors_def)
  next
    case (Some newest)
    define sup where "sup = superseded_entries c (le_ids (entries c ! newest))"
    have all: "cache_inv H (snd (prune_loop (rev sup) c))"
      using loop [OF inv refl superseded_entries_sorted sub] by (simp add: sup_def)
    have "cache_inv H (snd (prune_loop (rev (remove1 p sup)) (c\<lparr>entries := (entries c)[p := (entries c ! p)\<lparr>le_edit_backup := True\<rparr>]\<rparr>)))"
      if "previous_turn c sup = Some p" for p
    proof (rule loop)
      have "p < length (entries c)" using previous_turn_in [OF that] superseded_entriesD [of p c] by (simp add: sup_def)
      then show "cache_inv H (c\<lparr>entries := (entries c)[p := (entries c ! p)\<lparr>le_edit_backup := True\<rparr>]\<rparr>)" by (rule backup)
      show "set (remove1 p sup) \<subseteq> {0..<length (entries c)}" using sub set_remove1_subset [of p sup] by (auto simp: sup_def)
    qed (simp_all add: rem sup_def)
    then show ?thesis using inv all Some by (simp add: prune_superseded_ancestors_def Let_def sup_def split: option.split)
  qed
qed

section \<open>The resident budget\<close>

lemma pick_evict_victimD:
  assumes "pick_evict_victim c skip \<ge> 0"
  shows "nat (pick_evict_victim c skip) < length (entries c)"
    "\<not> slot_reserved c (le_slot (entries c ! nat (pick_evict_victim c skip)))"
    "pick_evict_victim c skip \<noteq> skip"
proof -
  let ?ids = "map le_ids (entries c)" and ?prot = "Some (map le_protect (entries c))"
    and ?held = "Some (map (\<lambda>e. slot_reserved c (le_slot e)) (entries c))"
  have ne: "?ids \<noteq> []" using assms by (auto simp: pick_evict_victim_def split: if_splits)
  then have p: "pick_evict_victim c skip = select_inline_evict_victim ?ids ?prot skip ?held"
    by (auto simp: pick_evict_victim_def)
  obtain i where "i < length ?ids" "pick_evict_victim c skip = int i" "\<not> is_skipped skip ?held i"
    using select_victim_cases [OF ne p] assms best_victimD by fastforce
  then show "nat (pick_evict_victim c skip) < length (entries c)"
    "\<not> slot_reserved c (le_slot (entries c ! nat (pick_evict_victim c skip)))" "pick_evict_victim c skip \<noteq> skip"
    by (auto simp: is_skipped_def)
qed

text \<open>So the range test of the loop's victim never fails.\<close>

lemma budget_victim_code:
  "budget_victim c keep_slot =
     (if resident_bytes c \<le> max_resident_bytes c then None
      else case find_slot_entry c keep_slot of None \<Rightarrow> None
      | Some keep \<Rightarrow> if pick_evict_victim c (int keep) < 0 then None else Some (nat (pick_evict_victim c (int keep))))"
proof (cases "find_slot_entry c keep_slot")
  case (Some keep)
  then show ?thesis using pick_evict_victimD(1) [of c "int keep"] by (auto simp: budget_victim_def Let_def)
qed (simp add: budget_victim_def)

lemma budget_loop_inv: "cache_inv H c \<Longrightarrow> cache_inv H (snd (budget_loop keep c))"
proof (induction keep c rule: budget_loop.induct)
  case (1 keep c)
  have "cache_inv H (erase_inline_entry (record_eviction c v) v)" if "budget_victim c keep = Some v" for v
    using budget_victim_range [OF that] 1(2) by (rule erase_recorded_inv [rotated])
  then show ?case using 1 by (subst budget_loop.simps) (auto simp: Let_def split: option.split prod.splits)
qed

lemma enforce_inv: "cache_inv H c \<Longrightarrow> cache_inv H (snd (enforce_resident_budget c keep))"
  by (simp add: enforce_resident_budget_def budget_loop_inv)

section \<open>Clearing and creation\<close>

lemma mark_all_cleared_inv: "cache_inv H c \<Longrightarrow> cache_inv H (mark_all_cleared c)"
  by (auto simp: mark_all_cleared_def cache_inv_def entries_ok_def bytes_ok_def reservations_ok_def)

lemma new_prefix_cache_inv: "cache_inv H (new_prefix_cache n tok bytes)"
  by (auto simp: new_prefix_cache_def cache_inv_def entries_ok_def bytes_ok_def reservations_ok_def
      Let_def MAX_CACHE_SLOTS_def MAX_SLOTS_def split: prod.split)

end
