(* ===== verification/Prefix_Cache_Reserve.thy ===== *)
theory Prefix_Cache_Reserve
  imports Prefix_Cache_Commit
begin

text \<open>
  What \<open>reserve_inline_snap\<close> may choose: its slot and the further entries its plan evicts are held by no other
  capture, are not the restore source, and the planned sizes fit the resident budget.
\<close>

section \<open>The slot\<close>

text \<open>A slot that a new capture may take, with the victim it names.\<close>

definition slot_choice :: "'h PrefixCache \<Rightarrow> int \<Rightarrow> int \<Rightarrow> 'h option \<Rightarrow> bool" where
  "slot_choice c src s v \<longleftrightarrow> 0 \<le> s \<and> s < cap c \<and> \<not> slot_reserved c s \<and>
     (src \<in> entry_slots c \<longrightarrow> s \<noteq> src) \<and>
     (case v of None \<Rightarrow> s \<notin> entry_slots c | Some h \<Rightarrow> \<exists>e \<in> set (entries c). le_slot e = s \<and> le_hash e = h)"

lemma entry_slot_range: "cache_inv H c \<Longrightarrow> e \<in> set (entries c) \<Longrightarrow> 0 \<le> le_slot e \<and> le_slot e < cap c"
  by (simp add: cache_inv_def entries_ok_def entry_ok_def)

lemma slots_inj: "cache_inv H c \<Longrightarrow> i < length (entries c) \<Longrightarrow> j < length (entries c) \<Longrightarrow>
    le_slot (entries c ! i) = le_slot (entries c ! j) \<Longrightarrow> i = j"
  using cache_inv_distinct [of H c] by (auto simp: distinct_conv_nth)

lemma pick_slot_choice:
  assumes inv: "cache_inv H c" and en: "\<not> disabled c" and p: "pick_slot c src = Some (s, v, c1)"
  shows "slot_choice c src s v \<and> (\<exists>n. 0 \<le> n \<and> n < cap c \<and> c1 = c\<lparr>next_slot := n\<rparr>)"
proof (cases "int (length (entries c) + length (filter (\<lambda>a. ar_victim a = None) (active_reservations c))) \<ge> cap c")
  case True
  define skip where "skip = (if src \<ge> 0 then (case find_slot_entry c src of None \<Rightarrow> -1 | Some i \<Rightarrow> int i) else -1)"
  let ?w = "pick_evict_victim c skip"
  have w: "?w \<ge> 0" and eq: "s = le_slot (entries c ! nat ?w)" "v = Some (le_hash (entries c ! nat ?w))" "c1 = c"
    using p True by (auto simp: pick_slot_def Let_def skip_def [symmetric] split: if_splits)
  note victim = pick_evict_victimD [OF w]
  have e: "entries c ! nat ?w \<in> set (entries c)" using victim(1) by simp
  have "s \<noteq> src" if res: "src \<in> entry_slots c"
  proof -
    obtain i where i: "find_slot_entry c src = Some i" using find_slot_entry_None [of c src] res by auto
    have "src \<ge> 0" using res entry_slot_range [OF inv] by (auto simp: entry_slots_def)
    then have "int i \<noteq> ?w" using victim(3) i by (auto simp: skip_def)
    then have "nat ?w \<noteq> i" using w by auto
    then show ?thesis using find_slot_entryD [OF i] slots_inj [OF inv victim(1), of i] eq(1) by auto
  qed
  moreover have "0 \<le> next_slot c \<and> next_slot c < cap c" using inv en by (simp add: cache_inv_def)
  ultimately show ?thesis using entry_slot_range [OF inv e] victim(2) e eq
    by (auto simp: slot_choice_def intro!: exI [of _ "next_slot c"])
next
  case False
  define ss where "ss = map (\<lambda>step. (next_slot c + int step) mod cap c) [0..<nat (cap c)]"
  have f: "find (\<lambda>s. \<not> (s = src \<and> cap c > 1) \<and> find_slot_entry c s = None \<and> \<not> slot_reserved c s) ss = Some s"
    and eq: "v = None" "c1 = c\<lparr>next_slot := (s + 1) mod cap c\<rparr>"
    using p False by (auto simp: pick_slot_def Let_def ss_def [symmetric] split: option.splits)
  have pos: "cap c > 0" using inv en by (simp add: cache_inv_def)
  have s: "s \<in> set ss" "find_slot_entry c s = None" "\<not> slot_reserved c s" using find_SomeD [OF f] by auto
  have "0 \<le> s" "s < cap c" using s(1) pos by (auto simp: ss_def)
  moreover have "s \<notin> entry_slots c" using s(2) find_slot_entry_None by blast
  ultimately show ?thesis using s(3) eq pos by (auto simp: slot_choice_def intro!: exI [of _ "(s + 1) mod cap c"])
qed

section \<open>Room in the budget\<close>

lemma pick_single_ok:
  assumes "pick_single c reclaimed est src p q = Some i"
  shows "i < length (entries c) \<and> \<not> slot_reserved c (le_slot (entries c ! i)) \<and>
    (src \<ge> 0 \<longrightarrow> le_slot (entries c ! i) \<noteq> src) \<and> fits c reclaimed est (Some i)"
proof -
  obtain pass where f: "find (\<lambda>(pass, i). single_ok c reclaimed est src pass i)
      (List.product [p..<Suc q] [0..<length (entries c)]) = Some (pass, i)"
    using assms by (auto simp: pick_single_def)
  show ?thesis using find_SomeD [OF f] by (auto simp: single_ok_def Let_def)
qed

lemma plan_scan_in:
  "set (plan_scan c est takes rest plan freed) \<subseteq> set plan \<union> {i. \<exists>pass. (pass, i) \<in> set rest \<and> takes pass i}"
proof (induction rest arbitrary: plan freed)
  case (Cons x rest)
  obtain pass i where x: "x = (pass, i)" by (cases x)
  have "set (plan_scan c est takes rest plan freed) \<subseteq> set plan \<union> {i. \<exists>pass. (pass, i) \<in> set (x # rest) \<and> takes pass i}"
    using Cons.IH [of plan freed] by auto
  moreover have "set (plan_scan c est takes rest (plan @ [i]) f) \<subseteq> set plan \<union> {i. \<exists>pass. (pass, i) \<in> set (x # rest) \<and> takes pass i}"
    if "takes pass i" for f using Cons.IH [of "plan @ [i]" f] that x by auto
  ultimately show ?case unfolding x by (auto simp: Let_def)
qed simp

lemma plan_scan_room:
  "plan_scan c est takes rest plan freed \<noteq> [] \<Longrightarrow>
     \<exists>more. plan_scan c est takes rest plan freed = plan @ more \<and>
       room_for c (pending_bytes c) (freed + sum_list (map (\<lambda>i. le_resident_bytes (entries c ! i)) more)) est"
proof (induction c est takes rest plan freed rule: plan_scan.induct)
  case (2 c est takes pass i rest plan freed)
  let ?b = "le_resident_bytes (entries c ! i)"
  consider (no) "\<not> takes pass i" | (stop) "takes pass i" "room_for c (pending_bytes c) (freed + ?b) est"
    | (go) "takes pass i" "\<not> room_for c (pending_bytes c) (freed + ?b) est" by blast
  then show ?case
  proof cases
    case no
    then show ?thesis using 2 by simp
  next
    case stop
    then show ?thesis by (intro exI [of _ "[i]"]) (simp add: Let_def)
  next
    case go
    then obtain more where "plan_scan c est takes rest (plan @ [i]) (freed + ?b) = (plan @ [i]) @ more"
      "room_for c (pending_bytes c) (freed + ?b + sum_list (map (\<lambda>i. le_resident_bytes (entries c ! i)) more)) est"
      using 2(2) [OF _ refl refl] 2(3) by (auto simp: Let_def)
    then show ?thesis using go by (intro exI [of _ "i # more"]) (simp add: Let_def add.assoc)
  qed
qed simp

lemma plan_severalD:
  assumes "i \<in> set (plan_several c reclaimed est planned src ids)"
  shows "i < length (entries c)" "\<not> slot_reserved c (le_slot (entries c ! i))" "src \<ge> 0 \<Longrightarrow> le_slot (entries c ! i) \<noteq> src"
    "Some i \<noteq> planned" "i \<notin> set reclaimed"
  using assms plan_scan_in [of c est "plan_takes c reclaimed planned src ids" "List.product [0..<2] [0..<length (entries c)]" "[]"
      "freed_by c reclaimed planned"]
  by (auto simp: plan_several_def plan_takes_def Let_def split: if_splits)

lemma plan_scan_distinct:
  "distinct (plan @ map snd (filter (\<lambda>(pass, i). takes pass i) rest)) \<Longrightarrow> distinct (plan_scan c est takes rest plan freed)"
  by (induction c est takes rest plan freed rule: plan_scan.induct) (auto simp: Let_def)

lemma plan_several_distinct: "distinct (plan_several c reclaimed est planned src ids)"
proof (cases "est = 0 \<or> est > max_resident_bytes c")
  case False
  let ?takes = "plan_takes c reclaimed planned src ids" and ?is = "[0..<length (entries c)]"
  have two: "[0..<2] = [0, Suc 0]" by (simp add: upt_rec numeral_2_eq_2)
  have part: "map snd (filter (\<lambda>(p, i). takes p i) (map (Pair q) is)) = filter (takes q) is" for q :: nat and takes and "is" :: "nat list"
    by (induction "is") auto
  have "map snd (filter (\<lambda>(pass, i). ?takes pass i) (List.product [0..<2] ?is)) = filter (?takes 0) ?is @ filter (?takes (Suc 0)) ?is"
    by (simp add: two part)
  moreover have "\<not> (?takes 0 i \<and> ?takes (Suc 0) i)" for i by (auto simp: plan_takes_def Let_def)
  ultimately have "distinct ([] @ map snd (filter (\<lambda>(pass, i). ?takes pass i) (List.product [0..<2] ?is)))" by auto
  then show ?thesis using False by (simp add: plan_several_def plan_scan_distinct)
qed (simp add: plan_several_def)

text \<open>The bytes of the indices \<open>is\<close>.\<close>

definition index_bytes :: "'h PrefixCache \<Rightarrow> nat list \<Rightarrow> nat" where
  "index_bytes c is = sum_list (map (\<lambda>i. le_resident_bytes (entries c ! i)) is)"

lemma plan_several_room:
  assumes "plan_several c reclaimed est planned src ids \<noteq> []"
  shows "room_for c (pending_bytes c)
     (freed_by c reclaimed planned + index_bytes c (plan_several c reclaimed est planned src ids)) est"
  using assms plan_scan_room [of c est "plan_takes c reclaimed planned src ids" "List.product [0..<2] [0..<length (entries c)]" "[]"
      "freed_by c reclaimed planned"]
  by (auto simp: plan_several_def index_bytes_def split: if_splits)

text \<open>The entry the planned slot holds, if any.\<close>

definition slot_victim :: "'h PrefixCache \<Rightarrow> int \<Rightarrow> 'h option \<Rightarrow> nat option" where
  "slot_victim c s v = (case v of Some h \<Rightarrow> find_entry c h | None \<Rightarrow> find_slot_entry c s)"

text \<open>The entry a reservation counts as its victim: the one in its slot, or the one found under its victim's key.\<close>

definition counted_victim :: "'h PrefixCache \<Rightarrow> int \<Rightarrow> 'h option \<Rightarrow> nat option \<Rightarrow> bool" where
  "counted_victim c s v w \<longleftrightarrow> w = find_slot_entry c s \<or> (v \<noteq> None \<and> w = find_entry c (the v))"

lemma slot_victim_counted: "counted_victim c s v (slot_victim c s v)"
  by (auto simp: counted_victim_def slot_victim_def split: option.split)

lemma find_own_slot:
  assumes "cache_inv H c" "i < length (entries c)"
  shows "find_slot_entry c (le_slot (entries c ! i)) = Some i"
proof -
  have "le_slot (entries c ! i) \<in> entry_slots c" using assms(2) by (simp add: entry_slots_def)
  then obtain k where k: "find_slot_entry c (le_slot (entries c ! i)) = Some k" using find_slot_entry_None by (metis not_Some_eq)
  then show ?thesis using find_slot_entryD [OF k] slots_inj [OF assms(1), of k i] assms(2) by simp
qed

lemma make_room_choice:
  assumes inv: "cache_inv H c" and ch: "slot_choice c src s v"
    and m: "make_room c reclaimed est s v src ids = Some (s', v', several)"
  shows "slot_choice c src s' v' \<and>
    (\<forall>i \<in> set several. i < length (entries c) \<and> \<not> slot_reserved c (le_slot (entries c ! i)) \<and>
       (src \<in> entry_slots c \<longrightarrow> le_slot (entries c ! i) \<noteq> src)) \<and>
    (\<exists>w. counted_victim c s' v' w \<and> 0 < est \<and> distinct several \<and> (\<forall>i \<in> set several. Some i \<noteq> w \<and> i \<notin> set reclaimed) \<and>
         room_for c (pending_bytes c) (freed_by c reclaimed w + index_bytes c several) est)"
proof -
  let ?w = "slot_victim c s v"
  have src: "src \<ge> 0" if "src \<in> entry_slots c" using that entry_slot_range [OF inv] by (auto simp: entry_slots_def)
  have fits: "0 < est \<and> room_for c (pending_bytes c) (freed_by c reclaimed w + index_bytes c []) est" if "fits c reclaimed est w" for w
    using that by (auto simp: fits_def index_bytes_def split: if_splits)
  have single: "slot_choice c src (le_slot (entries c ! i)) (Some (le_hash (entries c ! i)))" and "fits c reclaimed est (Some i)"
    and "counted_victim c (le_slot (entries c ! i)) (Some (le_hash (entries c ! i))) (Some i)"
    if "pick_single c reclaimed est src p q = Some i" for p q i
    using pick_single_ok [OF that] src entry_slot_range [OF inv] find_own_slot [OF inv] by (auto simp: slot_choice_def counted_victim_def)
  note single = this
  consider (fit) "fits c reclaimed est ?w" "s' = s" "v' = v" "several = []"
    | (one) p q i where "pick_single c reclaimed est src p q = Some i" "s' = le_slot (entries c ! i)"
        "v' = Some (le_hash (entries c ! i))" "several = []"
    | (plan) "several = plan_several c reclaimed est ?w src ids" "several \<noteq> []" "s' = s" "v' = v"
  proof (cases "fits c reclaimed est ?w")
    case True
    show thesis by (rule fit) (use m True in \<open>auto simp: make_room_def Let_def slot_victim_def\<close>)
  next
    case nofit: False
    show thesis
    proof (cases "pick_single c reclaimed est src 0 1")
      case (Some i)
      show thesis by (rule one [OF Some]) (use m nofit Some in \<open>auto simp: make_room_def Let_def slot_victim_def\<close>)
    next
      case none: None
      show thesis
      proof (cases "plan_several c reclaimed est ?w src ids = []")
        case True
        obtain i where i: "pick_single c reclaimed est src 2 4 = Some i" "s' = le_slot (entries c ! i)"
          "v' = Some (le_hash (entries c ! i))" "several = []"
          using m nofit none True by (auto simp: make_room_def Let_def slot_victim_def split: option.splits)
        then show thesis by (rule one)
      next
        case False
        show thesis by (rule plan) (use m nofit none False in \<open>auto simp: make_room_def Let_def slot_victim_def\<close>)
      qed
    qed
  qed
  then show ?thesis
  proof cases
    case fit
    then show ?thesis using ch fits [OF fit(1)] slot_victim_counted [of c s v]
      by (simp, intro exI [of _ ?w] conjI) simp_all
  next
    case one
    then show ?thesis using single(1,3) [OF one(1)] fits [OF single(2) [OF one(1)]] by auto
  next
    case plan
    have "0 < est" using plan(1,2) by (cases "est = 0") (simp_all add: plan_several_def)
    moreover have "room_for c (pending_bytes c) (freed_by c reclaimed ?w + index_bytes c several) est"
      using plan(1,2) plan_several_room by blast
    moreover have "counted_victim c s' v' ?w" using plan(3,4) slot_victim_counted by simp
    moreover have "distinct several" using plan(1) plan_several_distinct by simp
    moreover have "\<forall>i \<in> set several. Some i \<noteq> ?w \<and> i \<notin> set reclaimed" using plan_severalD(4,5) plan(1) by blast
    ultimately show ?thesis using plan ch plan_severalD(1-3) [of _ c reclaimed est ?w src ids] src by auto
  qed
qed

section \<open>The reservation\<close>

lemma next_slot_fields:
  "entries (c\<lparr>next_slot := n\<rparr>) = entries c" "active_reservations (c\<lparr>next_slot := n\<rparr>) = active_reservations c"
  "resident_bytes (c\<lparr>next_slot := n\<rparr>) = resident_bytes c" "max_resident_bytes (c\<lparr>next_slot := n\<rparr>) = max_resident_bytes c"
  "cap (c\<lparr>next_slot := n\<rparr>) = cap c"
  by simp_all

lemma next_slot_irrelevant [simp]:
  "slot_reserved (c\<lparr>next_slot := n\<rparr>) = slot_reserved c"
  "entry_slots (c\<lparr>next_slot := n\<rparr>) = entry_slots c"
  "slot_choice (c\<lparr>next_slot := n\<rparr>) = slot_choice c"
  "pending_bytes (c\<lparr>next_slot := n\<rparr>) = pending_bytes c"
  "freed_by (c\<lparr>next_slot := n\<rparr>) = freed_by c"
  "room_for (c\<lparr>next_slot := n\<rparr>) = room_for c"
  "index_bytes (c\<lparr>next_slot := n\<rparr>) = index_bytes c"
  "superseded_entries (c\<lparr>next_slot := n\<rparr>) = superseded_entries c"
  "counted_victim (c\<lparr>next_slot := n\<rparr>) = counted_victim c"
  unfolding fun_eq_iff counted_victim_def find_slot_entry_def find_entry_def slot_reserved_def entry_slots_def slot_choice_def pending_bytes_def freed_by_def
    room_for_def index_bytes_def superseded_entries_def next_slot_fields by (rule TrueI refl allI)+

lemma next_slot_inv: "cache_inv H c \<Longrightarrow> \<not> disabled c \<Longrightarrow> 0 \<le> n \<Longrightarrow> n < cap c \<Longrightarrow> cache_inv H (c\<lparr>next_slot := n\<rparr>)"
  by (simp add: cache_inv_def entries_ok_def bytes_ok_def reservations_ok_def)

text \<open>
  A planned capture: what holds of a reservation \<open>a\<close> when it is taken. The entries that make room are
  those it supersedes, if the caller prunes them, the entry \<open>w\<close> of its slot and the planned ones.
\<close>

definition superseded_now :: "'h PrefixCache \<Rightarrow> token list \<Rightarrow> nat list" where
  "superseded_now c ids =
     (if prunes_superseded c then filter (\<lambda>i. \<not> slot_reserved c (le_slot (entries c ! i))) (superseded_entries c ids) else [])"

definition budget_planned :: "'h PrefixCache \<Rightarrow> token list \<Rightarrow> 'h ActiveReservation \<Rightarrow> nat option \<Rightarrow> nat list \<Rightarrow> bool" where
  "budget_planned c ids a w several \<longleftrightarrow> ar_extra_slots a = map (\<lambda>i. le_slot (entries c ! i)) several \<and> 0 < ar_bytes a \<and>
     counted_victim c (ar_slot a) (ar_victim a) w \<and> distinct several \<and>
     (\<forall>i \<in> set several. i < length (entries c) \<and> Some i \<noteq> w \<and> i \<notin> set (superseded_now c ids)) \<and>
     room_for c (pending_bytes c) (freed_by c (superseded_now c ids) w + index_bytes c several) (ar_bytes a)"

definition planned :: "'h keyfun \<Rightarrow> 'h PrefixCache \<Rightarrow> token list \<Rightarrow> int \<Rightarrow> int \<Rightarrow> 'h ActiveReservation \<Rightarrow> bool" where
  "planned H c prompt src n a \<longleftrightarrow>
     slot_choice c src (ar_slot a) (ar_victim a) \<and> 0 < n \<and> ar_key a = H prompt n \<and> find_entry c (ar_key a) = None \<and>
     (\<forall>b \<in> set (active_reservations c). ar_key b \<noteq> ar_key a) \<and>
     (\<forall>s \<in> set (ar_extra_slots a). s \<in> entry_slots c \<and> \<not> slot_reserved c s \<and> (src \<in> entry_slots c \<longrightarrow> s \<noteq> src)) \<and>
     (max_resident_bytes c > 0 \<longrightarrow> (\<exists>w several. budget_planned c (take (nat n) prompt) a w several))"

lemma reserve_cases:
  assumes inv: "cache_inv H c"
    and eq: "reserve_inline_snap H env c prompt restored pt forced src est reach spacing = Some (r, c')"
  obtains (none) n k where "r = no_reservation" "cache_inv H (c\<lparr>next_slot := n\<rparr>)" "c' = c\<lparr>next_slot := n, budget_skips := k\<rparr>"
  | (taken) n m a where "\<not> disabled c" "ir_cache r" "ir_id r = ar_id a" "ir_slot r = ar_slot a" "ir_victim r = ar_victim a"
      "cache_inv H (c\<lparr>next_slot := n\<rparr>)" "planned H c prompt src (ir_target_cut r) a"
      "(ar_id a, m) = fresh_id (next_inline_reservation c)"
      "ar_bytes a = (if max_resident_bytes c > 0 then (case est of None \<Rightarrow> 0 | Some f \<Rightarrow> f (ir_target_cut r)) else 0)"
      "c' = c\<lparr>next_slot := n, next_inline_reservation := m, active_reservations := active_reservations c @ [a]\<rparr>"
proof -
  have stay: thesis if "r = no_reservation" "c' = c"
    using none [of "next_slot c" "budget_skips c"] inv that by simp
  show thesis
  proof (cases "disabled c")
    case True
    then show thesis using stay eq by (simp add: reserve_inline_snap_def)
  next
  case enabled: False
  then obtain target fc pt' where ch: "choose_cut env c prompt restored pt forced est reach spacing = Some (target, fc, pt')"
    using eq by (auto simp: reserve_inline_snap_def split: option.splits)
  define key where "key = H prompt target"
  show thesis
  proof (cases "disabled c \<or> target \<le> 0 \<or> find_entry c key \<noteq> None \<or> (\<exists>a \<in> set (active_reservations c). ar_key a = key) \<or> pick_slot c src = None")
    case True
    then have "r = no_reservation \<and> c' = c" using eq ch
      by (auto simp: reserve_inline_snap_def Let_def key_def split: if_splits option.splits)
    then show thesis using stay by blast
  next
    case False
    then obtain s0 v0 c1 where ps: "pick_slot c src = Some (s0, v0, c1)" by (metis not_Some_eq prod_cases3)
    obtain n where n: "0 \<le> n" "n < cap c" "c1 = c\<lparr>next_slot := n\<rparr>" and c0: "slot_choice c src s0 v0"
      using pick_slot_choice [OF inv _ ps] False by blast
    have inv1: "cache_inv H c1" using next_slot_inv [OF inv _ n(1,2)] False n(3) by simp
    define ids where "ids = take (nat target) prompt"
    define bytes where "bytes = (if max_resident_bytes c1 > 0 then (case est of None \<Rightarrow> 0 | Some f \<Rightarrow> f target) else 0)"
    define rec where "rec = (if max_resident_bytes c1 > 0 \<and> prunes_superseded c1
      then filter (\<lambda>i. \<not> slot_reserved c1 (le_slot (entries c1 ! i))) (superseded_entries c1 ids) else [])"
    define plan where "plan = (if max_resident_bytes c1 > 0 then make_room c1 rec bytes s0 v0 src ids else Some (s0, v0, []))"
    have "Some (r, c') = Some (case plan of None \<Rightarrow> (no_reservation, c1\<lparr>budget_skips := budget_skips c1 + 1\<rparr>)
       | Some (slot, victim, several) \<Rightarrow>
           (let (rid, next) = fresh_id (next_inline_reservation c1);
                extra_slots = map (\<lambda>i. le_slot (entries c1 ! i)) several;
                credited = map (\<lambda>i. le_slot (entries c1 ! i)) (filter (\<lambda>i. i \<in> set rec) [0..<length (entries c1)]) @
                   (if victim \<noteq> None then [slot] else []) @ extra_slots
            in (\<lparr>ir_cache = True, ir_id = rid, ir_slot = slot, ir_target_cut = target, ir_victim = victim,
                 ir_protect = (pt' \<and> (fc \<or> (map int (find_all_boundaries prompt (markers c)) \<noteq> [] \<and>
                    target = hd (map int (find_all_boundaries prompt (markers c))))))\<rparr>,
                c1\<lparr>next_inline_reservation := next, active_reservations := active_reservations c1 @
                  [\<lparr>ar_id = rid, ar_slot = slot, ar_key = key, ar_victim = victim, ar_bytes = bytes,
                    ar_extra_victims = map (\<lambda>i. le_hash (entries c1 ! i)) several,
                    ar_extra_slots = extra_slots, ar_credited_slots = credited\<rparr>]\<rparr>)))"
      using False ps unfolding eq [symmetric] reserve_inline_snap_def ch plan_def rec_def bytes_def ids_def key_def Let_def
      by (simp del: next_slot_irrelevant option.inject)
    note eq1 = this [unfolded option.inject]
    show thesis
    proof (cases plan)
      case None
      then have "r = no_reservation" "c' = c\<lparr>next_slot := n, budget_skips := budget_skips c1 + 1\<rparr>" using eq1 n(3) by simp_all
      then show thesis using none [of n "budget_skips c1 + 1"] inv1 n(3) by blast
    next
      case (Some p)
      obtain s v several where p: "p = (s, v, several)" by (rule prod_cases3)
      obtain rid m where id: "fresh_id (next_inline_reservation c) = (rid, m)" by fastforce
      define a where "a = \<lparr>ar_id = rid, ar_slot = s, ar_key = key, ar_victim = v, ar_bytes = bytes,
          ar_extra_victims = map (\<lambda>i. le_hash (entries c1 ! i)) several, ar_extra_slots = map (\<lambda>i. le_slot (entries c1 ! i)) several,
          ar_credited_slots = map (\<lambda>i. le_slot (entries c1 ! i)) (filter (\<lambda>i. i \<in> set rec) [0..<length (entries c1)]) @
                   (if v \<noteq> None then [s] else []) @ map (\<lambda>i. le_slot (entries c1 ! i)) several\<rparr>"
      have c': "c' = c\<lparr>next_slot := n, next_inline_reservation := m, active_reservations := active_reservations c @ [a]\<rparr>"
        using eq1 n(3) by (simp add: Some p id a_def Let_def split del: if_split)
      have r: "ir_cache r" "ir_id r = ar_id a" "ir_slot r = ar_slot a" "ir_victim r = ar_victim a" "ir_target_cut r = target"
        using eq1 n(3) by (simp_all add: Some p id a_def Let_def split del: if_split)
      have room: "slot_choice c src s v \<and> (\<forall>i \<in> set several. i < length (entries c) \<and> \<not> slot_reserved c (le_slot (entries c ! i)) \<and>
          (src \<in> entry_slots c \<longrightarrow> le_slot (entries c ! i) \<noteq> src)) \<and>
          (max_resident_bytes c > 0 \<longrightarrow> (\<exists>w. counted_victim c s v w \<and> 0 < bytes \<and> distinct several \<and>
             (\<forall>i \<in> set several. Some i \<noteq> w \<and> i \<notin> set rec) \<and>
             room_for c (pending_bytes c) (freed_by c rec w + index_bytes c several) bytes))"
      proof (cases "max_resident_bytes c1 > 0")
        case True
        then have "make_room c1 rec bytes s0 v0 src ids = Some (s, v, several)" using Some p by (simp add: plan_def)
        from make_room_choice [OF inv1 _ this] show ?thesis using c0 n(3) by auto
      next
        case False
        then show ?thesis using Some p c0 n(3) by (simp add: plan_def)
      qed
      have rec: "rec = superseded_now c ids" if "max_resident_bytes c > 0" using that n(3) by (simp add: rec_def superseded_now_def)
      have "max_resident_bytes c > 0 \<longrightarrow> (\<exists>w several. budget_planned c (take (nat target) prompt) a w several)"
      proof
        assume on: "max_resident_bytes c > 0"
        then obtain w where "counted_victim c s v w" "0 < bytes" "distinct several" "\<forall>i \<in> set several. Some i \<noteq> w \<and> i \<notin> set rec"
          "room_for c (pending_bytes c) (freed_by c rec w + index_bytes c several) bytes" using room by blast
        then have "budget_planned c ids a w several"
          using room n(3) unfolding budget_planned_def rec [OF on, symmetric] by (simp add: a_def)
        then show "\<exists>w several. budget_planned c (take (nat target) prompt) a w several" unfolding ids_def by blast
      qed
      moreover have "slot_choice c src (ar_slot a) (ar_victim a)" "\<forall>s \<in> set (ar_extra_slots a). s \<in> entry_slots c \<and>
          \<not> slot_reserved c s \<and> (src \<in> entry_slots c \<longrightarrow> s \<noteq> src)" using room n(3) by (auto simp: a_def entry_slots_def)
      ultimately have pl: "planned H c prompt src (ir_target_cut r) a" unfolding r(5) using False by (auto simp: planned_def a_def key_def)
      have bytes: "ar_bytes a = (if max_resident_bytes c > 0 then (case est of None \<Rightarrow> 0 | Some f \<Rightarrow> f (ir_target_cut r)) else 0)"
        unfolding r(5) using n(3) by (simp add: a_def bytes_def)
      have fresh: "(ar_id a, m) = fresh_id (next_inline_reservation c)" using id by (simp add: a_def)
      show thesis by (rule taken [OF enabled r(1-4) inv1 [unfolded n(3)] pl fresh bytes c'])
    qed
  qed
  qed
qed

end
