(* ===== verification/Prefix_Cache_Steps.thy ===== *)
theory Prefix_Cache_Steps
  imports Prefix_Cache_Reserve
begin

text \<open>
  The prefix cache as a state machine: the cache together with the reservation handles its callers
  hold. A handle comes from \<open>reserve_inline_snap\<close> and is used up by a commit, a cancel (also what
  the destructor does) or an abort; every other operation is a call on the cache alone. The invariant
  holds in every reachable state.
\<close>

section \<open>Calls and steps\<close>

datatype pc_call =
    CLookup "token list"
  | CCandidate "token list" int
  | CHit int int
  | CConfirm int int "token list" bool nat
  | CInvalidate int
  | CPrune int
  | CEnforce int
  | CDiskKey int int
  | CAux int string
  | CAgentTurn int
  | CTakeEvicted
  | CRecordEvictions bool
  | CPrunesSuperseded bool
  | CBudget nat
  | CCapture nat bool
  | CRestore nat bool
  | CClear
  | CInitFull int
  | CLookupFull int "token list"
  | CPrepareFull "token list"
  | CConfirmFull int int "token list" int
  | CAbortFull int

fun pc_run :: "'h keyfun \<Rightarrow> pc_call \<Rightarrow> 'h PrefixCache \<Rightarrow> 'h PrefixCache" where
  "pc_run H (CLookup p) c = snd (lookup H c p)"
| "pc_run H (CCandidate p n) c = snd (lookup_candidate H c p n)"
| "pc_run H (CHit s n) c = record_inline_hit c s n"
| "pc_run H (CConfirm s n p protect bytes) c = confirm_inline_snap H c s n p protect bytes"
| "pc_run H (CInvalidate s) c = invalidate_inline_snap c s"
| "pc_run H (CPrune s) c = snd (prune_superseded_ancestors c s)"
| "pc_run H (CEnforce s) c = snd (enforce_resident_budget c s)"
| "pc_run H (CDiskKey s n) c = set_disk_key c s n"
| "pc_run H (CAux s a) c = set_aux c s a"
| "pc_run H (CAgentTurn s) c = mark_agent_turn c s"
| "pc_run H CTakeEvicted c = snd (take_evicted c)"
| "pc_run H (CRecordEvictions b) c = set_record_evictions c b"
| "pc_run H (CPrunesSuperseded b) c = set_prunes_superseded c b"
| "pc_run H (CBudget n) c = set_max_resident_bytes c n"
| "pc_run H (CCapture us ok) c = record_capture_attempt c us ok"
| "pc_run H (CRestore us ok) c = record_restore_attempt c us ok"
| "pc_run H CClear c = mark_all_cleared c"
| "pc_run H (CInitFull n) c = init_full_cache c n"
| "pc_run H (CLookupFull now p) c = snd (lookup_full H now c p)"
| "pc_run H (CPrepareFull p) c = snd (prepare_full_snap H c p)"
| "pc_run H (CConfirmFull now s p n) c = confirm_full_snap H now c s p n"
| "pc_run H (CAbortFull s) c = abort_full_snap c s"

text \<open>A direct commit names a slot of the cache, which the code leaves to its callers.\<close>

fun call_ok :: "'h PrefixCache \<Rightarrow> pc_call \<Rightarrow> bool" where
  "call_ok c (CConfirm s n p protect bytes) = (s < cap c)"
| "call_ok c _ = True"

type_synonym 'h pc_state = "'h PrefixCache \<times> 'h InlineReservation list"

text \<open>
  The reservation counter is assumed not to wrap: fewer than \<open>2\<^sup>6\<^sup>4 - 2\<close> reservations are made.
\<close>

inductive pc_step :: "'h keyfun \<Rightarrow> PcEnv \<Rightarrow> 'h pc_state \<Rightarrow> 'h pc_state \<Rightarrow> bool" for H env where
  call: "call_ok c x \<Longrightarrow> pc_step H env (c, hs) (pc_run H x c, hs)"
| reserve: "next_inline_reservation c < 18446744073709551613 \<Longrightarrow>
    reserve_inline_snap H env c p restored pt forced src est reach spacing = Some (r, c') \<Longrightarrow>
    pc_step H env (c, hs) (c', if ir_cache r then hs @ [r] else hs)"
| commit: "r \<in> set hs \<Longrightarrow> commit_at H c r p n bytes protect = (ok, c', r') \<Longrightarrow> pc_step H env (c, hs) (c', remove1 r hs)"
| cancel: "r \<in> set hs \<Longrightarrow> cancel_reservation c r = (c', r') \<Longrightarrow> pc_step H env (c, hs) (c', remove1 r hs)"
| abort: "r \<in> set hs \<Longrightarrow> abort_reservation c r = (c', r') \<Longrightarrow> pc_step H env (c, hs) (c', remove1 r hs)"

inductive pc_reachable :: "'h keyfun \<Rightarrow> PcEnv \<Rightarrow> int \<Rightarrow> Tokenizer \<Rightarrow> nat \<Rightarrow> 'h pc_state \<Rightarrow> bool" for H env n tok bytes where
  init: "pc_reachable H env n tok bytes (new_prefix_cache n tok bytes, [])"
| step: "pc_reachable H env n tok bytes s \<Longrightarrow> pc_step H env s t \<Longrightarrow> pc_reachable H env n tok bytes t"

section \<open>Handles\<close>

definition ids_inv :: "'h PrefixCache \<Rightarrow> bool" where
  "ids_inv c \<longleftrightarrow> next_inline_reservation c \<noteq> 0 \<and> distinct (map ar_id (active_reservations c)) \<and>
     (\<forall>a \<in> set (active_reservations c). ar_id a \<noteq> 0 \<and> ar_id a < next_inline_reservation c)"

definition handle_ok :: "'h PrefixCache \<Rightarrow> 'h InlineReservation \<Rightarrow> bool" where
  "handle_ok c r \<longleftrightarrow> ir_cache r \<and> ir_id r \<noteq> 0 \<and> ir_id r < next_inline_reservation c \<and> 0 < ir_target_cut r \<and>
     (\<forall>a \<in> set (active_reservations c). ar_id a = ir_id r \<longrightarrow> ar_slot a = ir_slot r \<and> ar_victim a = ir_victim r)"

definition pc_inv :: "'h keyfun \<Rightarrow> 'h pc_state \<Rightarrow> bool" where
  "pc_inv H s \<longleftrightarrow> cache_inv H (fst s) \<and> ids_inv (fst s) \<and> (\<forall>r \<in> set (snd s). handle_ok (fst s) r)"

lemma handle_owns:
  assumes "handle_ok c r" "reservation_active c r"
  obtains a where "owns c r a"
proof -
  obtain a where a: "find_active_reservation c (ir_id r) = Some a"
    using assms(2) by (auto simp: reservation_active_def inline_reservation_active_def)
  then have "a \<in> set (active_reservations c) \<and> ar_id a = ir_id r"
    by (auto simp: find_active_reservation_def split: if_splits dest: find_SomeD)
  then have "owns c r a" using assms(1) a by (simp add: owns_def handle_ok_def)
  then show thesis by (rule that)
qed

text \<open>Operations that only drop reservations keep the facts on ids and handles.\<close>

definition reservations_shrink :: "'h PrefixCache \<Rightarrow> 'h PrefixCache \<Rightarrow> bool" where
  "reservations_shrink c c' \<longleftrightarrow> next_inline_reservation c' = next_inline_reservation c \<and>
     set (active_reservations c') \<subseteq> set (active_reservations c) \<and>
     (distinct (map ar_id (active_reservations c)) \<longrightarrow> distinct (map ar_id (active_reservations c')))"

lemma shrink_refl: "active_reservations c' = active_reservations c \<Longrightarrow> next_inline_reservation c' = next_inline_reservation c \<Longrightarrow> reservations_shrink c c'"
  by (simp add: reservations_shrink_def)

lemma shrink_ids: "reservations_shrink c c' \<Longrightarrow> ids_inv c \<Longrightarrow> ids_inv c'"
  by (auto simp: reservations_shrink_def ids_inv_def)

lemma shrink_handle: "reservations_shrink c c' \<Longrightarrow> handle_ok c r \<Longrightarrow> handle_ok c' r"
  by (auto simp: reservations_shrink_def handle_ok_def)

lemma shrink_trans: "reservations_shrink c c1 \<Longrightarrow> reservations_shrink c1 c2 \<Longrightarrow> reservations_shrink c c2"
  by (auto simp: reservations_shrink_def)

lemma shrink_remove:
  "active_reservations c' = remove_nth k (active_reservations c) \<Longrightarrow>
     next_inline_reservation c' = next_inline_reservation c \<Longrightarrow> reservations_shrink c c'"
  by (simp add: reservations_shrink_def map_remove_nth distinct_remove_nth set_remove_nth_subset)

lemma release_shrink: "reservations_shrink c (release_inline_reservation c i)"
  by (auto simp: release_inline_reservation_def split: option.split intro: shrink_refl shrink_remove)

lemma erase_shrink: "reservations_shrink c (erase_inline_entry c i)"
  by (simp add: erase_inline_entry_def Let_def shrink_refl)

lemma record_shrink: "reservations_shrink c (record_eviction c i)"
  by (simp add: record_eviction_def shrink_refl)

lemma move_shrink: "reservations_shrink c (move_to_end c i)"
  by (simp add: move_to_end_def shrink_refl)

lemma boundary_scan_shrink: "reservations_shrink c (fst (boundary_scan H p m bs c best))"
proof (induction bs arbitrary: c best)
  case Nil
  then show ?case by (simp add: shrink_refl)
next
  case (Cons b bs)
  have "reservations_shrink c (fst (boundary_scan H p m bs (erase_inline_entry c i) best))" for i best
    by (rule shrink_trans [OF erase_shrink Cons.IH])
  then show ?case using Cons.IH by (cases best) (auto simp: Let_def split: option.split)
qed

lemma hit_shrink: "reservations_shrink c (record_inline_hit c s n)"
  by (auto simp: record_inline_hit_def move_to_end_def split: option.split intro!: shrink_refl)

lemma lookup_impl_shrink: "reservations_shrink c (snd (lookup_impl H c p m rec))"
proof -
  obtain c1 best where s: "boundary_scan H p m (find_all_boundaries p (markers c)) c (-1, 0) = (c1, best)"
    by (metis surj_pair)
  then have 1: "reservations_shrink c c1" using boundary_scan_shrink by (metis fst_conv)
  have "reservations_shrink c (record_inline_hit c1 s n)" for s n by (rule shrink_trans [OF 1 hit_shrink])
  then show ?thesis using 1 s by (auto simp: lookup_impl_def Let_def shrink_refl split: prod.split)
qed

lemma drop_slot_shrink: "reservations_shrink c (drop_slot_entries logged s n c)"
proof (induction n arbitrary: c)
  case (Suc n)
  have e: "reservations_shrink c (erase_inline_entry (if logged then record_eviction c n else c) n)"
    using shrink_trans [OF record_shrink erase_shrink] erase_shrink by (cases logged) simp_all
  show ?case using Suc.IH shrink_trans [OF e Suc.IH] by simp
qed (simp add: shrink_refl)

lemma prune_loop_shrink: "reservations_shrink c (snd (prune_loop is c))"
proof (induction "is" arbitrary: c)
  case (Cons i "is")
  show ?case using shrink_trans [OF erase_shrink Cons.IH] by (simp add: Let_def case_prod_beta)
qed (simp add: shrink_refl)

lemma prune_shrink: "reservations_shrink c (snd (prune_superseded_ancestors c s))"
proof -
  have "reservations_shrink c (snd (prune_loop is (c\<lparr>entries := es\<rparr>)))" for "is" es
    by (rule shrink_trans [OF _ prune_loop_shrink]) (simp add: shrink_refl)
  then show ?thesis using prune_loop_shrink
    by (auto simp: prune_superseded_ancestors_def Let_def shrink_refl split: option.split)
qed

lemma budget_loop_shrink: "reservations_shrink c (snd (budget_loop s c))"
proof (induction s c rule: budget_loop.induct)
  case (1 s c)
  have "reservations_shrink c (snd (budget_loop s (erase_inline_entry (record_eviction c v) v)))"
    if "budget_victim c s = Some v" for v
    using that by (intro shrink_trans [OF shrink_trans [OF record_shrink erase_shrink] 1])
  then show ?case by (subst budget_loop.simps) (auto simp: Let_def shrink_refl case_prod_beta split: option.split)
qed

lemma call_shrink: "reservations_shrink c (pc_run H x c)"
proof (cases x)
  case (CConfirm s n p protect bytes)
  have "reservations_shrink c (replace_inline_entry H c s n p protect bytes)"
    unfolding replace_inline_entry_def Let_def
    by (rule shrink_trans [OF drop_slot_shrink [of c True s "length (entries c)"]], rule shrink_refl) simp_all
  then show ?thesis using CConfirm by (auto simp: confirm_inline_snap_def shrink_refl)
qed (auto simp: lookup_def lookup_candidate_def lookup_impl_shrink hit_shrink invalidate_inline_snap_def drop_slot_shrink
    prune_shrink enforce_resident_budget_def budget_loop_shrink set_disk_key_def set_aux_def mark_agent_turn_def
    update_slot_entry_def take_evicted_def set_record_evictions_def set_prunes_superseded_def set_max_resident_bytes_def
    record_capture_attempt_def record_restore_attempt_def init_full_cache_def lookup_full_def prepare_full_snap_def
    confirm_full_snap_def abort_full_snap_def move_full_to_end_def Let_def mark_all_cleared_def shrink_refl
    reservations_shrink_def [of _ "_\<lparr>entries := [], resident_bytes := 0, next_slot := 0, active_reservations := []\<rparr>"]
    split: option.split)

section \<open>Preservation\<close>

lemma commit_at_shrink: "reservations_shrink c (fst (snd (commit_at H c r p n bytes protect)))"
proof -
  have ab: "reservations_shrink c (fst (abort_reservation c r))"
    by (auto simp: abort_reservation_def abort_inline_reservation_def shrink_refl intro: shrink_trans [OF drop_slot_shrink release_shrink])
  have ex: "reservations_shrink d (evict_extra xs d)" for xs d
  proof (induction xs arbitrary: d)
    case (Cons x xs)
    have "reservations_shrink d (evict_extra xs (erase_inline_entry (record_eviction d i) i))" for i
      by (rule shrink_trans [OF shrink_trans [OF record_shrink erase_shrink] Cons.IH])
    then show ?case using Cons.IH by (cases x) (auto split: option.split)
  qed (simp add: shrink_refl)
  have vi: "reservations_shrink d (evict_victim v d)" for v d
    by (auto simp: evict_victim_def shrink_refl split: option.split intro: shrink_trans [OF record_shrink erase_shrink])
  have re: "reservations_shrink d (replace_inline_entry H d s n p pr bytes)" for d s pr
    using call_shrink [of d H "CConfirm s n p pr bytes"] unfolding replace_inline_entry_def Let_def
    by (intro shrink_trans [OF drop_slot_shrink [of d True s "length (entries d)"]] shrink_refl) simp_all
  have "reservations_shrink c (release_inline_reservation (replace_inline_entry H (evict_victim v (evict_extra xs c)) s n p pr bytes) i)" for v xs s pr i
    by (rule shrink_trans [OF shrink_trans [OF shrink_trans [OF ex vi] re] release_shrink])
  moreover have "reservations_shrink c (release_inline_reservation (replace_inline_entry H (evict_victim v c) s n p pr bytes) i)" for v s pr i
    by (rule shrink_trans [OF shrink_trans [OF vi re] release_shrink])
  ultimately show ?thesis using ab
    by (auto simp: commit_at_def commit_inline_reservation_def shrink_refl Let_def split: option.split)
qed

lemma pc_inv_shrink:
  assumes "pc_inv H (c, hs)" "cache_inv H c'" "reservations_shrink c c'" "set hs' \<subseteq> set hs"
  shows "pc_inv H (c', hs')"
  using assms shrink_ids shrink_handle by (fastforce simp: pc_inv_def)

lemma reserve_inv:
  assumes inv: "cache_inv H c"
    and eq: "reserve_inline_snap H env c p restored pt forced src est reach spacing = Some (r, c')"
  shows "cache_inv H c'"
proof (rule reserve_cases [OF inv eq])
  fix n k assume "cache_inv H (c\<lparr>next_slot := n\<rparr>)" "c' = c\<lparr>next_slot := n, budget_skips := k\<rparr>"
  then show ?thesis by (auto intro: cache_inv_fields)
next
  fix n m a
  assume inv1: "cache_inv H (c\<lparr>next_slot := n\<rparr>)" and pl: "planned H c p src (ir_target_cut r) a"
    and c': "c' = c\<lparr>next_slot := n, next_inline_reservation := m, active_reservations := active_reservations c @ [a]\<rparr>"
  have free: "\<not> slot_reserved c s \<and> 0 \<le> s \<and> s < cap c" if "s \<in> held_slots a" for s
    using that pl entry_slot_range [OF inv] by (auto simp: held_slots_def planned_def slot_choice_def entry_slots_def)
  have old: "held_slots b \<inter> held_slots a = {}" if "b \<in> set (active_reservations c)" for b
    using free that by (auto simp: slot_reserved_iff)
  have "ar_victim a = None \<Longrightarrow> ar_slot a \<notin> entry_slots c" using pl by (simp add: planned_def slot_choice_def)
  moreover have "held_slots a \<subseteq> {0..<cap c}" using free by auto
  moreover have "entry_slots c' = entry_slots c" by (simp add: c' entry_slots_def)
  ultimately have "reservations_ok c'"
    using cache_inv_reservations [OF inv] old unfolding reservations_ok_def c' by (simp add: sorted_wrt_append c')
  moreover have "entries_ok H c'" using cache_inv_entries [OF inv] by (simp add: c' entries_ok_def bytes_ok_def)
  moreover have "cap c \<le> MAX_CACHE_SLOTS \<and> 0 \<le> n \<and> (if disabled c then cap c = 0 else n < cap c)"
    using inv1 by (auto simp: cache_inv_def split: if_splits)
  ultimately show ?thesis by (simp add: cache_inv_def c')
qed

lemma u64_succ_less: "(k :: u64) < 18446744073709551613 \<Longrightarrow> k < k + 1"
  by (simp add: word_less_nat_alt unat_plus_if')

lemma reserve_pc_inv:
  assumes inv: "pc_inv H (c, hs)" and small: "next_inline_reservation c < 18446744073709551613"
    and eq: "reserve_inline_snap H env c p restored pt forced src est reach spacing = Some (r, c')"
  shows "pc_inv H (c', if ir_cache r then hs @ [r] else hs)"
proof -
  have ci: "cache_inv H c" and ii: "ids_inv c" using inv by (simp_all add: pc_inv_def)
  have inv': "cache_inv H c'" by (rule reserve_inv [OF ci eq])
  from ci eq show ?thesis
  proof (cases rule: reserve_cases)
    case (none n k)
    then have "reservations_shrink c c'" by (simp add: shrink_refl)
    then have "pc_inv H (c', hs)" by (rule pc_inv_shrink [OF inv inv']) simp
    then show ?thesis using none(1) by (simp add: no_reservation_def)
  next
    case (taken n m a)
    let ?k = "next_inline_reservation c"
    have id: "ar_id a = ?k" "m = ?k + 1" using taken(8) ii by (auto simp: fresh_id_def ids_inv_def)
    have lt: "?k < m" using u64_succ_less [OF small] id by simp
    have "ids_inv c'" using ii lt id by (auto simp: taken(10) ids_inv_def intro: less_trans)
    moreover have "handle_ok c' r"
      using taken(2-5,7) id lt ii by (auto simp: taken(10) handle_ok_def ids_inv_def planned_def)
    moreover have "handle_ok c' q" if "handle_ok c q" for q
      using that lt id by (auto simp: taken(10) handle_ok_def intro: less_trans)
    ultimately show ?thesis using inv inv' taken(2) by (auto simp: pc_inv_def)
  qed
qed

lemma new_prefix_cache_fields:
  "active_reservations (new_prefix_cache n tok bytes) = []" "next_inline_reservation (new_prefix_cache n tok bytes) = 1"
  by (simp_all add: new_prefix_cache_def Let_def split: prod.split)

context prefix_keys
begin

lemma call_inv: "cache_inv H c \<Longrightarrow> call_ok c x \<Longrightarrow> cache_inv H (pc_run H x c)"
  by (cases x)
    (auto simp: lookup_def lookup_candidate_def lookup_impl_inv record_inline_hit_inv confirm_inv invalidate_inv prune_inv
      enforce_inv set_disk_key_inv set_aux_inv mark_agent_turn_inv mark_all_cleared_inv take_evicted_def
      set_record_evictions_def set_prunes_superseded_def set_max_resident_bytes_def record_capture_attempt_def
      record_restore_attempt_def init_full_cache_def lookup_full_def prepare_full_snap_def confirm_full_snap_def
      abort_full_snap_def move_full_to_end_def Let_def split: option.split intro: cache_inv_fields)

lemma step_pc_inv:
  assumes "pc_step H env s t" "pc_inv H s"
  shows "pc_inv H t"
  using assms
proof (cases rule: pc_step.cases)
  case (call c x hs)
  then show ?thesis using assms(2) call_inv [of c x] call_shrink [of c H x]
    by (auto simp: pc_inv_def intro: shrink_ids shrink_handle)
next
  case (reserve c p restored pt forced src est reach spacing r c' hs)
  then show ?thesis using reserve_pc_inv assms(2) by blast
next
  case (commit r hs c p n bytes protect ok c' r')
  have "handle_ok c r" "cache_inv H c" using commit assms(2) by (auto simp: pc_inv_def)
  have "cache_inv H c'"
  proof (cases "reservation_active c r")
    case True
    then obtain a where "owns c r a" using handle_owns \<open>handle_ok c r\<close> by blast
    from commit_inline_inv [OF \<open>cache_inv H c\<close> this, of p n bytes protect] show ?thesis
      using commit(4) True by (simp add: commit_at_def)
  next
    case False
    then show ?thesis using commit(4) \<open>cache_inv H c\<close> by (simp add: commit_at_def)
  qed
  moreover have "reservations_shrink c c'" using commit_at_shrink [of c H r p n bytes protect] commit(4) by simp
  ultimately show ?thesis using commit(1,2) assms(2) set_remove1_subset [of r hs] pc_inv_shrink [of H c hs c' "remove1 r hs"] by simp
next
  case (cancel r hs c c' r')
  have "cache_inv H c'" using cancel(4) cancel_inv [of H c r] assms(2) cancel(1) by (simp add: pc_inv_def)
  moreover have "reservations_shrink c c'" using cancel(4) release_shrink by (auto simp: cancel_reservation_def shrink_refl)
  ultimately show ?thesis using cancel(1,2) assms(2) set_remove1_subset [of r hs] pc_inv_shrink [of H c hs c' "remove1 r hs"] by simp
next
  case (abort r hs c c' r')
  have "cache_inv H c'" using abort(4) abort_reservation_inv [of H c r] assms(2) abort(1) by (simp add: pc_inv_def)
  moreover have "reservations_shrink c c'" using abort(4)
    by (auto simp: abort_reservation_def abort_inline_reservation_def shrink_refl split: if_splits
        intro: shrink_trans [OF drop_slot_shrink release_shrink])
  ultimately show ?thesis using abort(1,2) assms(2) set_remove1_subset [of r hs] pc_inv_shrink [of H c hs c' "remove1 r hs"] by simp
qed

lemma reachable_inv: "pc_reachable H env n tok bytes s \<Longrightarrow> pc_inv H s"
proof (induction rule: pc_reachable.induct)
  case init
  then show ?case by (simp add: pc_inv_def ids_inv_def new_prefix_cache_inv new_prefix_cache_fields)
next
  case (step s t)
  then show ?case using step_pc_inv by blast
qed

end

end
