(* ===== verification/Prefix_Cache_Props.thy ===== *)
theory Prefix_Cache_Props
  imports Prefix_Cache_Steps
begin

text \<open>
  The properties of the inline prefix cache. The witnesses run the operations on a small cache whose
  key is the prefix itself.
\<close>

section \<open>Lookup\<close>

text \<open>No resident key collides with the key of another prefix of the prompt.\<close>

definition no_collision :: "'h keyfun \<Rightarrow> 'h LruEntry list \<Rightarrow> token list \<Rightarrow> bool" where
  "no_collision H es prompt \<longleftrightarrow>
     (\<forall>e \<in> set es. \<forall>b \<le> length prompt. le_hash e = H prompt (int b) \<longrightarrow> le_ids e = take b prompt)"

text \<open>An answer is the miss or the slot and length of an entry that is a prefix of the prompt.\<close>

definition sound_answer :: "'h LruEntry list \<Rightarrow> token list \<Rightarrow> int \<times> int \<Rightarrow> bool" where
  "sound_answer es prompt r \<longleftrightarrow> r = (-1, 0) \<or>
     (\<exists>e \<in> set es. r = (le_slot e, int (length (le_ids e))) \<and> prefix (le_ids e) prompt \<and> le_ids e \<noteq> [])"

lemma boundary_scan_sound:
  assumes nc: "no_collision H (entries c) prompt" and ne: "\<forall>e \<in> set (entries c). le_ids e \<noteq> []"
  shows "\<forall>b \<in> set bs. b \<le> length prompt \<Longrightarrow> sound_answer (entries c) prompt best \<Longrightarrow>
     fst (boundary_scan H prompt m bs c best) = c \<and> sound_answer (entries c) prompt (snd (boundary_scan H prompt m bs c best))"
proof (induction bs arbitrary: best)
  case (Cons b bs)
  obtain bslot blen where best: "best = (bslot, blen)" by (cases best)
  show ?case
  proof (cases "int b > m \<or> find_entry c (H prompt (int b)) = None")
    case True
    then show ?thesis using Cons by (auto simp: best)
  next
    case False
    then obtain i where i: "find_entry c (H prompt (int b)) = Some i" by auto
    let ?e = "entries c ! i"
    have e: "?e \<in> set (entries c)" "le_hash ?e = H prompt (int b)" using find_entryD [OF i] by auto
    then have ids: "le_ids ?e = take b prompt" using nc Cons.prems(1) by (simp add: no_collision_def)
    then have "sound_answer (entries c) prompt (le_slot ?e, int b)"
      using e ne Cons.prems(1) by (auto simp: sound_answer_def take_is_prefix min_def intro!: bexI [of _ ?e])
    then show ?thesis using Cons i ids False by (auto simp: best Let_def min_def)
  qed
qed simp

lemma take_prefix_iff: "take (length xs) ys = xs \<longleftrightarrow> prefix xs ys"
  by (metis append_eq_conv_conj prefix_def append_take_drop_id)

lemma entry_scan_longest:
  assumes "sound_answer es prompt best" "set fs \<subseteq> set es" "\<forall>e \<in> set es. le_ids e \<noteq> []" "best = (s, l)" "0 \<le> l"
  shows "\<exists>s' l'. entry_scan prompt m fs best = (s', l') \<and> sound_answer es prompt (s', l') \<and> l \<le> l' \<and>
     (\<forall>e \<in> set fs. prefix (le_ids e) prompt \<longrightarrow> int (length (le_ids e)) \<le> m \<longrightarrow> int (length (le_ids e)) \<le> l')"
  using assms
proof (induction fs arbitrary: best s l)
  case (Cons e fs)
  let ?n = "int (length (le_ids e))"
  have sub: "set fs \<subseteq> set es" using Cons.prems(2) by simp
  show ?case
  proof (cases "?n \<le> l \<or> ?n > int (length prompt) \<or> ?n > m \<or> take (length (le_ids e)) prompt \<noteq> le_ids e")
    case True
    then have "prefix (le_ids e) prompt \<Longrightarrow> ?n \<le> m \<Longrightarrow> ?n \<le> l"
      using prefix_length_le [of "le_ids e" prompt] by (auto simp: take_prefix_iff)
    moreover have "entry_scan prompt m (e # fs) best = entry_scan prompt m fs best"
      using True Cons.prems(4) by (auto simp: Let_def)
    ultimately show ?thesis using Cons.IH [OF Cons.prems(1) sub Cons.prems(3,4,5)] by fastforce
  next
    case False
    have "sound_answer es prompt (le_slot e, ?n)"
      using False Cons.prems(2,3) by (auto simp: sound_answer_def take_prefix_iff intro!: bexI [of _ e])
    from Cons.IH [OF this sub Cons.prems(3) refl]
    obtain s' l' where "entry_scan prompt m fs (le_slot e, ?n) = (s', l')" "sound_answer es prompt (s', l')" "?n \<le> l'"
      "\<forall>e \<in> set fs. prefix (le_ids e) prompt \<longrightarrow> int (length (le_ids e)) \<le> m \<longrightarrow> int (length (le_ids e)) \<le> l'" by auto
    then show ?thesis using False Cons.prems(4) by (auto simp: Let_def)
  qed
qed auto

lemma move_to_end_mset: "mset (entries (move_to_end c i)) = mset (entries c)"
  using mset_remove_nth [of i "entries c"] by (auto simp: move_to_end_def)

lemma record_hit_mset: "mset (entries (record_inline_hit c s n)) = mset (entries c)"
  by (auto simp: record_inline_hit_def move_to_end_mset split: option.split)

lemma cache_inv_disabled_empty: "cache_inv H c \<Longrightarrow> disabled c \<Longrightarrow> entries c = []"
  by (cases "entries c") (auto simp: cache_inv_def entries_ok_def entry_ok_def)

lemma lookup_longest:
  assumes inv: "cache_inv H c" and nc: "no_collision H (entries c) prompt"
    and r: "lookup H c prompt = ((s, l), c')"
  shows "sound_answer (entries c) prompt (s, l) \<and> mset (entries c') = mset (entries c) \<and>
     (\<forall>e \<in> set (entries c). prefix (le_ids e) prompt \<longrightarrow> int (length (le_ids e)) \<le> l)"
proof (cases "disabled c \<or> prompt = []")
  case True
  have "le_ids e \<noteq> []" if "e \<in> set (entries c)" for e
    using that inv by (auto simp: cache_inv_def entries_ok_def entry_ok_def)
  then show ?thesis using True r cache_inv_disabled_empty [OF inv]
    by (auto simp: lookup_def lookup_impl_def sound_answer_def)
next
  case False
  let ?bs = "find_all_boundaries prompt (markers c)" and ?m = "int (length prompt)"
  have ne: "\<forall>e \<in> set (entries c). le_ids e \<noteq> []" using inv by (simp add: cache_inv_def entries_ok_def entry_ok_def)
  obtain c1 s1 l1 where sc: "boundary_scan H prompt ?m ?bs c (-1, 0) = (c1, s1, l1)" by (metis prod_cases3)
  have "sound_answer (entries c) prompt (-1, 0)" by (simp add: sound_answer_def)
  from boundary_scan_sound [OF nc ne _ this, of ?bs ?m] find_all_boundaries_bounds
  have c1: "c1 = c" and s1: "sound_answer (entries c) prompt (s1, l1)" using sc by auto
  have "0 \<le> l1" using s1 by (auto simp: sound_answer_def)
  from entry_scan_longest [OF s1 subset_refl ne refl this, of ?m]
  obtain s2 l2 where es: "entry_scan prompt ?m (entries c) (s1, l1) = (s2, l2)" "sound_answer (entries c) prompt (s2, l2)"
    "\<forall>e \<in> set (entries c). prefix (le_ids e) prompt \<longrightarrow> int (length (le_ids e)) \<le> ?m \<longrightarrow> int (length (le_ids e)) \<le> l2" by blast
  have "s = s2 \<and> l = l2 \<and> (c' = c \<or> c' = record_inline_hit c s2 l2)"
    using r False sc es(1) by (auto simp: lookup_def lookup_impl_def c1 Let_def split: if_splits)
  then show ?thesis using es record_hit_mset [of c s2 l2] prefix_length_le by fastforce
qed

section \<open>Capacity\<close>

lemma entries_within_cap: "cache_inv H c \<Longrightarrow> int (length (entries c)) \<le> cap c"
proof -
  assume inv: "cache_inv H c"
  have "set (map le_slot (entries c)) \<subseteq> {0..<cap c}" using entry_slot_range [OF inv] by auto
  then have "card (set (map le_slot (entries c))) \<le> card {0..<cap c}" by (intro card_mono) auto
  then have "length (entries c) \<le> nat (cap c)" using distinct_card [OF cache_inv_distinct [OF inv]] by simp
  moreover have "cap c \<ge> 0" using inv by (auto simp: cache_inv_def split: if_splits)
  ultimately show ?thesis by linarith
qed

lemma room_forD: "room_for c pend freed est \<Longrightarrow> resident_bytes c + pend - freed + est \<le> max_resident_bytes c"
  by (auto simp: room_for_def Let_def split: if_splits)

lemma index_of_snoc: "\<forall>x \<in> set xs. \<not> P x \<Longrightarrow> P y \<Longrightarrow> index_of P (xs @ [y]) = Some (length xs)"
  by (induction xs) auto

section \<open>Demonstration cache\<close>

definition demo_tokenizer :: Tokenizer where
  "demo_tokenizer = \<lparr>token_to_id = (\<lambda>s. -1),
     encode_text = (\<lambda>s. if s = ''<|im_end|>'' then [2] else if s = ''<|im_start|>'' then [1] else if s = ''system'' then [5] else [9, 9])\<rparr>"

definition demo_env :: PcEnv where
  "demo_env = read_env None None"

text \<open>The prefix itself as key.\<close>

definition plain_key :: "token list keyfun" where
  "plain_key p n = take (nat n) p"

lemma plain_key_law: "prefix_keys plain_key"
  by unfold_locales (simp add: plain_key_def)

definition demo_prompt :: "token list" where
  "demo_prompt = [1, 5, 9, 2, 8, 1, 7, 2, 8, 1, 6]"

definition demo_cache :: "token list PrefixCache" where
  "demo_cache = new_prefix_cache 2 demo_tokenizer 0"

definition demo_reserved :: "token list InlineReservation \<times> token list PrefixCache" where
  "demo_reserved = the (reserve_inline_snap plain_key demo_env demo_cache demo_prompt 0 False 0 (-1) None 0 0)"

definition demo_committed :: "token list PrefixCache" where
  "demo_committed = fst (snd (commit_at plain_key (snd demo_reserved) (fst demo_reserved) demo_prompt 6 100 False))"

lemma cut_without_spacing: "spacing \<le> 0 \<Longrightarrow> reserve_inline_snap H env c p restored pt forced src est reach spacing \<noteq> None"
  by (auto simp: reserve_inline_snap_def choose_cut_def Let_def split: prod.splits)

lemma demo_reserved_eq:
  "reserve_inline_snap plain_key demo_env demo_cache demo_prompt 0 False 0 (-1) None 0 0 = Some (fst demo_reserved, snd demo_reserved)"
  by (simp only: demo_reserved_def prod.collapse) (rule option.collapse [symmetric], rule cut_without_spacing, simp)

lemma demo_reserved_reachable:
  "pc_reachable plain_key demo_env 2 demo_tokenizer 0 (snd demo_reserved, [fst demo_reserved])"
proof -
  have "pc_step plain_key demo_env (demo_cache, []) (snd demo_reserved, if ir_cache (fst demo_reserved) then [] @ [fst demo_reserved] else [])"
    by (rule pc_step.reserve [where p = demo_prompt and restored = 0 and pt = False and forced = 0 and src = "-1" and est = None and reach = 0 and spacing = 0])
      (simp add: demo_cache_def new_prefix_cache_fields, rule demo_reserved_eq)
  moreover have "ir_cache (fst demo_reserved)" by code_simp
  ultimately show ?thesis using pc_reachable.step [OF pc_reachable.init] by (simp add: demo_cache_def)
qed

lemma demo_committed_reachable:
  "pc_reachable plain_key demo_env 2 demo_tokenizer 0 (demo_committed, [])"
proof -
  have "pc_step plain_key demo_env (snd demo_reserved, [fst demo_reserved]) (demo_committed, remove1 (fst demo_reserved) [fst demo_reserved])"
    by (rule pc_step.commit [where p = demo_prompt and n = 6 and bytes = 100 and protect = False]) (simp_all add: demo_committed_def prod_eq_iff)
  then show ?thesis using pc_reachable.step [OF demo_reserved_reachable] by simp
qed

lemma plain_no_collision:
  assumes "pc_reachable plain_key env n tok bytes (c, hs)"
  shows "no_collision plain_key (entries c) prompt"
proof -
  have "cache_inv plain_key c" using prefix_keys.reachable_inv [OF plain_key_law assms] by (simp add: pc_inv_def)
  then have "\<forall>e \<in> set (entries c). le_hash e = le_ids e"
    by (simp add: cache_inv_def entries_ok_def entry_ok_def plain_key_def)
  then show ?thesis by (simp add: no_collision_def plain_key_def)
qed

section \<open>Properties\<close>

text \<open>
  C19. The invariant of the prefix cache, with its SHA-1 keys, in every reachable state: the resident
  byte count is the sum over the entries; every entry has its own slot, which is one of the \<open>cap \<le> 63\<close> inline
  slots, is keyed by the hash of its own tokens and has a disk key within them; no two captures in flight hold a
  slot in common, and one that took a free slot is still the only user of it.
\<close>

theorem prefix_cache_invariant:
  assumes "pc_reachable pc_key env n tok bytes (c, hs)"
  shows "resident_bytes c = sum_list (map le_resident_bytes (entries c)) \<and>
    distinct (map le_slot (entries c)) \<and> int (length (entries c)) \<le> cap c \<and> cap c \<le> MAX_CACHE_SLOTS \<and>
    (\<forall>e \<in> set (entries c). 0 \<le> le_slot e \<and> le_slot e < cap c \<and> le_hash e = hash_prefix (le_ids e) (int (length (le_ids e))) \<and>
       0 \<le> le_disk_key_len e \<and> le_disk_key_len e \<le> int (length (le_ids e))) \<and>
    (\<forall>i < length (active_reservations c). \<forall>j < i.
       held_slots (active_reservations c ! i) \<inter> held_slots (active_reservations c ! j) = {}) \<and>
    (\<forall>a \<in> set (active_reservations c). ar_victim a = None \<longrightarrow> find_slot_entry c (ar_slot a) = None)"
proof -
  have inv: "cache_inv pc_key c" using pc.reachable_inv [OF assms] by (simp add: pc_inv_def)
  have "held_slots (active_reservations c ! i) \<inter> held_slots (active_reservations c ! j) = {}"
    if "i < length (active_reservations c)" "j < i" for i j
    using cache_inv_reservations [OF inv] that sorted_wrt_nth_less [of _ "active_reservations c" j i]
    by (fastforce simp: reservations_ok_def)
  then show ?thesis using inv entries_within_cap [OF inv]
    by (simp add: cache_inv_def entries_ok_def entry_ok_def bytes_ok_def total_bytes_def reservations_ok_def
        find_slot_entry_None pc_key_def)
qed

theorem prefix_cache_invariant_witness:
  "\<exists>c. pc_reachable pc_key demo_env 2 demo_tokenizer 0 (c, []) \<and> length (entries c) = 1 \<and>
     resident_bytes c = 100 \<and> resident_bytes c = sum_list (map le_resident_bytes (entries c))"
proof -
  define new where "new = (new_prefix_cache 2 demo_tokenizer 0 :: byte list PrefixCache)"
  let ?c = "confirm_inline_snap pc_key new 1 1 [7] False 100"
  have en: "cap new = 2" "\<not> disabled new" unfolding new_def by code_simp+
  have "pc_step pc_key demo_env (new, []) (pc_run pc_key (CConfirm 1 1 [7] False 100) new, [])"
    by (rule pc_step.call) (simp add: en)
  then have r: "pc_reachable pc_key demo_env 2 demo_tokenizer 0 (?c, [])"
    using pc_reachable.step [OF pc_reachable.init] by (simp add: new_def)
  have "entries new = []" "resident_bytes new = 0" "active_reservations new = []"
    by (simp_all add: new_def new_prefix_cache_def Let_def split: prod.split)
  then have "length (entries ?c) = 1 \<and> resident_bytes ?c = 100"
    using en by (simp add: confirm_inline_snap_def replace_inline_entry_def Let_def)
  then show ?thesis using r prefix_cache_invariant [OF r] by blast
qed

text \<open>
  C20. Lookup finds the longest cached prefix. In a reachable cache none of whose keys collides with
  another prefix of the prompt, \<open>lookup\<close> answers with the slot and length of a resident entry that is a prefix of the prompt
  and no resident prefix is longer; it misses exactly when no entry is a prefix. No entry is lost.
\<close>

theorem lookup_finds_longest_prefix:
  assumes keys: "prefix_keys H" and reach: "pc_reachable H env n tok bytes (c, hs)"
    and nc: "no_collision H (entries c) prompt" and r: "lookup H c prompt = ((s, l), c')"
  shows "(if \<exists>e \<in> set (entries c). prefix (le_ids e) prompt
      then \<exists>e \<in> set (entries c). s = le_slot e \<and> l = int (length (le_ids e)) \<and> prefix (le_ids e) prompt \<and>
        (\<forall>e' \<in> set (entries c). prefix (le_ids e') prompt \<longrightarrow> length (le_ids e') \<le> length (le_ids e))
      else (s, l) = (-1, 0)) \<and> mset (entries c') = mset (entries c)"
proof -
  have inv: "cache_inv H c" using prefix_keys.reachable_inv [OF keys reach] by (simp add: pc_inv_def)
  note L = lookup_longest [OF inv nc r]
  have ne: "\<forall>e \<in> set (entries c). le_ids e \<noteq> []" using inv by (simp add: cache_inv_def entries_ok_def entry_ok_def)
  show ?thesis
  proof (cases "\<exists>e \<in> set (entries c). prefix (le_ids e) prompt")
    case True
    then obtain e where "e \<in> set (entries c)" "prefix (le_ids e) prompt" by blast
    then have "l > 0" using L ne by (cases "le_ids e") fastforce+
    then show ?thesis using L True by (auto simp: sound_answer_def)
  next
    case False
    then show ?thesis using L by (auto simp: sound_answer_def)
  qed
qed

theorem lookup_finds_longest_prefix_witness:
  "fst (lookup plain_key demo_committed (demo_prompt @ [4, 4])) = (0, 6) \<and>
   mset (entries (snd (lookup plain_key demo_committed (demo_prompt @ [4, 4])))) = mset (entries demo_committed)"
proof -
  note nc = plain_no_collision [OF demo_committed_reachable, of "demo_prompt @ [4, 4]"]
  have "fst (lookup plain_key demo_committed (demo_prompt @ [4, 4])) = (0, 6)" by code_simp
  then show ?thesis
    using lookup_finds_longest_prefix [OF plain_key_law demo_committed_reachable nc, of 0 6 "snd (lookup plain_key demo_committed (demo_prompt @ [4, 4]))"]
    by (metis prod.collapse)
qed

text \<open>
  C21. A committed capture is found again. A live handle commits any cut up to its target within the
  prompt; then a lookup of any prompt that starts with the committed tokens restores at least that many
  (unless keys collide), and a capture evicts nothing but its planned slots and its victim.
\<close>

theorem commit_then_lookup:
  assumes keys: "prefix_keys H" and reach: "pc_reachable H env cap0 tok budget (c, hs)"
    and r: "r \<in> set hs" "reservation_active c r"
    and n: "0 < n" "n \<le> ir_target_cut r" "n \<le> int (length p)"
    and cm: "commit_at H c r p n bytes protect = (ok, c', r')"
    and q: "n \<le> int (length q)" "take (nat n) q = take (nat n) p" and nc: "no_collision H (entries c') q"
  shows "ok \<and> n \<le> snd (fst (lookup H c' q)) \<and>
    (\<exists>a. find_active_reservation c (ir_id r) = Some a \<and>
      (\<forall>e \<in> set (entries c). le_slot e \<notin> held_slots a \<longrightarrow> ar_victim a \<noteq> Some (le_hash e) \<longrightarrow> e \<in> set (entries c')))"
proof -
  have inv: "pc_inv H (c, hs)" by (rule prefix_keys.reachable_inv [OF keys reach])
  then have "handle_ok c r" using r(1) by (simp add: pc_inv_def)
  then obtain a where own: "owns c r a" using handle_owns r(2) by blast
  have ci: "cache_inv H c" using inv by (simp add: pc_inv_def)
  have inv': "cache_inv H c'"
    using prefix_keys.commit_inline_inv [OF keys ci own, of p n bytes protect] cm r(2) by (simp add: commit_at_def)
  let ?e = "new_entry H (ir_slot r) n p (protect \<or> ir_protect r) bytes"
  obtain S l k where S: "\<forall>e \<in> set (entries c). le_slot e \<in> S \<longrightarrow> le_slot e \<in> held_slots a \<or> ar_victim a = Some (le_hash e)"
    and eq: "ok" "entries c' = filter (\<lambda>e. le_slot e \<noteq> ir_slot r) (without_slots c S) @ [?e]"
    using commit_normal [OF ci own n, of bytes protect] cm r(2) by (auto simp: commit_at_def)
  have "ir_slot r \<in> held_slots a" using own by (simp add: owns_def held_slots_def)
  then have keep: "\<forall>e \<in> set (entries c). le_slot e \<notin> held_slots a \<longrightarrow> ar_victim a \<noteq> Some (le_hash e) \<longrightarrow> e \<in> set (entries c')"
    using S by (auto simp: eq(2))
  obtain s' l' c2 where L: "lookup H c' q = ((s', l'), c2)" by (metis prod_cases3 prod.collapse)
  have "prefix (le_ids ?e) q" using q(2) by (metis new_entry_sel(2) take_is_prefix)
  then have "int (length (le_ids ?e)) \<le> l'" using lookup_longest [OF inv' nc L] by (simp add: eq(2))
  then have "n \<le> l'" using n by (simp add: min_def split: if_splits)
  then show ?thesis using L eq(1) keep own by (auto simp: owns_def)
qed

theorem commit_then_lookup_witness:
  "ir_target_cut (fst demo_reserved) = 6 \<and> 6 \<le> snd (fst (lookup plain_key demo_committed (demo_prompt @ [4, 4])))"
proof -
  obtain ok r' where cm: "commit_at plain_key (snd demo_reserved) (fst demo_reserved) demo_prompt 6 100 False = (ok, demo_committed, r')"
    by (metis demo_committed_def prod.collapse)
  have h: "ir_target_cut (fst demo_reserved) = 6" "reservation_active (snd demo_reserved) (fst demo_reserved)" by code_simp+
  have "6 \<le> snd (fst (lookup plain_key demo_committed (demo_prompt @ [4, 4])))"
    using commit_then_lookup [OF plain_key_law demo_reserved_reachable _ h(2) _ _ _ cm, of "demo_prompt @ [4, 4]"]
      plain_no_collision [OF demo_committed_reachable] h(1) by (simp add: demo_prompt_def)
  then show ?thesis using h by simp
qed

text \<open>The entries that leave when a reservation \<open>a\<close> with the counted victim \<open>w\<close> lands.\<close>

definition leaving :: "'h PrefixCache \<Rightarrow> token list \<Rightarrow> 'h ActiveReservation \<Rightarrow> nat option \<Rightarrow> nat set" where
  "leaving c ids a w = set (superseded_now c ids) \<union> set_option w \<union> {i. i < length (entries c) \<and> le_slot (entries c ! i) \<in> set (ar_extra_slots a)}"

lemma counted_victimD:
  assumes inv: "cache_inv H c" and w: "counted_victim c s v w" and ch: "slot_choice c src s v"
  shows "(\<forall>i. w = Some i \<longrightarrow> i < length (entries c)) \<and> v = map_option (\<lambda>i. le_hash (entries c ! i)) w \<and>
    v = map_option (\<lambda>i. le_hash (entries c ! i)) (find_slot_entry c s) \<and>
    (distinct (map le_hash (entries c)) \<longrightarrow> w = find_slot_entry c s)"
proof (cases v)
  case None
  then have "s \<notin> entry_slots c" using ch by (simp add: slot_choice_def)
  then have "find_slot_entry c s = None" by (simp add: find_slot_entry_None)
  then show ?thesis using w None by (simp add: counted_victim_def)
next
  case (Some h)
  then obtain e where "e \<in> set (entries c)" "le_slot e = s" "le_hash e = h" using ch by (auto simp: slot_choice_def)
  then obtain i where i: "i < length (entries c)" "le_slot (entries c ! i) = s" "le_hash (entries c ! i) = h"
    by (auto simp: in_set_conv_nth)
  then have own: "find_slot_entry c s = Some i" using find_own_slot [OF inv i(1)] by simp
  obtain k where k: "find_entry c h = Some k"
    using i index_of_Some_ex [of "entries c ! i" "entries c" "\<lambda>e. le_hash e = h"] by (auto simp: find_entry_def)
  have "w = Some i \<or> w = Some k" using w own k Some by (auto simp: counted_victim_def)
  moreover have "k = i" if "distinct (map le_hash (entries c))"
    using that find_entryD [OF k] i by (auto simp: distinct_conv_nth)
  ultimately show ?thesis using find_entryD [OF k] i own Some by auto
qed

lemma leaving_bytes:
  assumes inv: "cache_inv H c" and b: "budget_planned c ids a w several" and r: "\<forall>i. w = Some i \<longrightarrow> i < length (entries c)"
  shows "(\<Sum>i \<in> {..<length (entries c)} - leaving c ids a w. le_resident_bytes (entries c ! i)) + pending_bytes c + ar_bytes a \<le>
    max_resident_bytes c"
proof -
  let ?b = "\<lambda>i. le_resident_bytes (entries c ! i)" and ?sup = "superseded_now c ids"
  have sup: "distinct ?sup" "set ?sup \<subseteq> {..<length (entries c)}"
    using superseded_entries_sorted [of c ids] superseded_entriesD [of _ c ids]
    by (auto simp: superseded_now_def strict_sorted_iff)
  have sev: "ar_extra_slots a = map (\<lambda>i. le_slot (entries c ! i)) several" "distinct several"
    "\<forall>i \<in> set several. i < length (entries c) \<and> Some i \<noteq> w \<and> i \<notin> set ?sup" using b by (auto simp: budget_planned_def)
  have "{i. i < length (entries c) \<and> le_slot (entries c ! i) \<in> set (ar_extra_slots a)} = set several"
    using sev slots_inj [OF inv] by (auto simp: sev(1))
  then have gone: "leaving c ids a w = (set ?sup \<union> set_option w) \<union> set several" by (simp add: leaving_def)
  have sub: "leaving c ids a w \<subseteq> {..<length (entries c)}" using sup(2) sev(3) r unfolding gone by (auto simp: option.set_sel)
  have one: "sum ?b (set ?sup \<union> set_option w) = freed_by c ?sup w"
    using sup(1) by (auto simp: freed_by_def sum_list_distinct_conv_sum_set insert_absorb split: option.split)
  have two: "sum ?b (set several) = index_bytes c several"
    using sev(2) by (simp add: index_bytes_def sum_list_distinct_conv_sum_set)
  have "(set ?sup \<union> set_option w) \<inter> set several = {}" using sev(3) by (auto simp: elem_set)
  then have freed: "sum ?b (leaving c ids a w) = freed_by c ?sup w + index_bytes c several"
    unfolding gone by (subst sum.union_disjoint) (simp_all add: one two)
  have all: "resident_bytes c = sum ?b {..<length (entries c)}"
    using cache_inv_bytes [OF inv] by (simp add: bytes_ok_def total_bytes_def sum_list_sum_nth atLeast0LessThan)
  have rest: "resident_bytes c = sum ?b ({..<length (entries c)} - leaving c ids a w) + sum ?b (leaving c ids a w)"
    unfolding all by (rule sum.subset_diff [OF sub]) simp
  have "room_for c (pending_bytes c) (freed_by c ?sup w + index_bytes c several) (ar_bytes a)" using b by (simp add: budget_planned_def)
  then show ?thesis using room_forD rest freed by fastforce
qed

lemma reservation_fits:
  assumes inv: "cache_inv H c" and pl: "planned H c p src n a"
    and bytes: "ar_bytes a = (if max_resident_bytes c > 0 then (case est of None \<Rightarrow> 0 | Some f \<Rightarrow> f n) else 0)"
  shows "max_resident_bytes c > 0 \<longrightarrow> 0 < ar_bytes a \<and> (\<exists>f. est = Some f \<and> ar_bytes a = f n) \<and>
     (\<exists>w. ar_victim a = map_option (\<lambda>i. le_hash (entries c ! i)) w \<and>
        (distinct (map le_hash (entries c)) \<longrightarrow> w = find_slot_entry c (ar_slot a)) \<and>
        (\<Sum>i \<in> {..<length (entries c)} - leaving c (take (nat n) p) a w. le_resident_bytes (entries c ! i)) +
          pending_bytes c + ar_bytes a \<le> max_resident_bytes c)"
proof
  assume on: "max_resident_bytes c > 0"
  then obtain w several where b: "budget_planned c (take (nat n) p) a w several" using pl by (auto simp: planned_def)
  then have w: "counted_victim c (ar_slot a) (ar_victim a) w" "0 < ar_bytes a" by (simp_all add: budget_planned_def)
  have "slot_choice c src (ar_slot a) (ar_victim a)" using pl by (simp add: planned_def)
  note cv = counted_victimD [OF inv w(1) this]
  have "\<exists>f. est = Some f \<and> ar_bytes a = f n" using on w(2) bytes by (cases est) simp_all
  moreover have "\<exists>w. ar_victim a = map_option (\<lambda>i. le_hash (entries c ! i)) w \<and>
     (distinct (map le_hash (entries c)) \<longrightarrow> w = find_slot_entry c (ar_slot a)) \<and>
     (\<Sum>i \<in> {..<length (entries c)} - leaving c (take (nat n) p) a w. le_resident_bytes (entries c ! i)) +
       pending_bytes c + ar_bytes a \<le> max_resident_bytes c"
    using cv leaving_bytes [OF inv b] by blast
  ultimately show "0 < ar_bytes a \<and> (\<exists>f. est = Some f \<and> ar_bytes a = f n) \<and>
     (\<exists>w. ar_victim a = map_option (\<lambda>i. le_hash (entries c ! i)) w \<and>
        (distinct (map le_hash (entries c)) \<longrightarrow> w = find_slot_entry c (ar_slot a)) \<and>
        (\<Sum>i \<in> {..<length (entries c)} - leaving c (take (nat n) p) a w. le_resident_bytes (entries c ! i)) +
          pending_bytes c + ar_bytes a \<le> max_resident_bytes c)" using w(2) by blast
qed

text \<open>
  C22. A reservation takes nothing from anyone. When \<open>reserve_inline_snap\<close> hands out a capture, its slot is one of
  the cache's, is held by no other capture and is not the slot the request restores from; the same holds of every
  further entry its plan evicts; its victim is exactly the key of the committed entry in its slot, if there is one; the committed entries
  are untouched; no committed or pending capture has the same key. Under a resident budget the reservation carries the estimated size of its
  cut, which is not zero, and the entries that leave when it lands (those it supersedes, if the caller prunes them, the victim counted for its slot and the planned
  ones) make room: the bytes of all entries that stay, the pending captures and the new one together fit the
  budget. The victim counted is the entry in the reserved slot, unless two entries share its key.
\<close>

theorem reserve_takes_nothing_from_others:
  assumes keys: "prefix_keys H" and reach: "pc_reachable H env0 cap0 tok budget (c, hs)"
    and eq: "reserve_inline_snap H env c p restored pt forced src est reach spacing = Some (r, c')" and got: "ir_cache r"
  shows "\<exists>a. active_reservations c' = active_reservations c @ [a] \<and> entries c' = entries c \<and> resident_bytes c' = resident_bytes c \<and>
    ar_slot a = ir_slot r \<and> ar_victim a = ir_victim r \<and>
    0 \<le> ir_slot r \<and> ir_slot r < cap c \<and> \<not> slot_reserved c (ir_slot r) \<and>
    ir_victim r = map_option (\<lambda>i. le_hash (entries c ! i)) (find_slot_entry c (ir_slot r)) \<and>
    (find_slot_entry c src \<noteq> None \<longrightarrow> ir_slot r \<noteq> src \<and> src \<notin> set (ar_extra_slots a)) \<and>
    (\<forall>s \<in> set (ar_extra_slots a). \<not> slot_reserved c s \<and> find_slot_entry c s \<noteq> None) \<and>
    find_entry c (H p (ir_target_cut r)) = None \<and>
    (\<forall>b \<in> set (active_reservations c). ar_key b \<noteq> H p (ir_target_cut r)) \<and>
    (max_resident_bytes c > 0 \<longrightarrow> 0 < ar_bytes a \<and> (\<exists>f. est = Some f \<and> ar_bytes a = f (ir_target_cut r)) \<and>
       (\<exists>w. ir_victim r = map_option (\<lambda>i. le_hash (entries c ! i)) w \<and>
          (distinct (map le_hash (entries c)) \<longrightarrow> w = find_slot_entry c (ir_slot r)) \<and>
          (\<Sum>i \<in> {..<length (entries c)} - leaving c (take (nat (ir_target_cut r)) p) a w. le_resident_bytes (entries c ! i)) +
            pending_bytes c + ar_bytes a \<le> max_resident_bytes c))"
proof -
  have inv: "cache_inv H c" using prefix_keys.reachable_inv [OF keys reach] by (simp add: pc_inv_def)
  from inv eq show ?thesis
  proof (cases rule: reserve_cases)
    case (none n k)
    then show ?thesis using got by (simp add: no_reservation_def)
  next
    case (taken n m a)
    have sc: "slot_choice c src (ar_slot a) (ar_victim a)" using taken(7) by (simp add: planned_def)
    have v: "ir_victim r = map_option (\<lambda>i. le_hash (entries c ! i)) (find_slot_entry c (ir_slot r))"
      using counted_victimD [OF inv _ sc, of "find_slot_entry c (ar_slot a)"] taken(4,5) by (simp add: counted_victim_def)
    note pl = taken(7) [unfolded planned_def slot_choice_def]
    have k: "ar_key a = H p (ir_target_cut r)" using pl by blast
    have "find_entry c (H p (ir_target_cut r)) = None" "\<forall>b \<in> set (active_reservations c). ar_key b \<noteq> H p (ir_target_cut r)"
      using pl unfolding k by blast+
    moreover have "0 \<le> ir_slot r" "ir_slot r < cap c" "\<not> slot_reserved c (ir_slot r)" using pl unfolding taken(4) by blast+
    moreover have "active_reservations c' = active_reservations c @ [a]" "entries c' = entries c" "resident_bytes c' = resident_bytes c"
      by (simp_all add: taken(10))
    moreover have "find_slot_entry c src \<noteq> None \<longrightarrow> ir_slot r \<noteq> src \<and> src \<notin> set (ar_extra_slots a)"
      using pl taken(4) by (auto simp: find_slot_entry_None)
    moreover have "\<forall>s \<in> set (ar_extra_slots a). \<not> slot_reserved c s \<and> find_slot_entry c s \<noteq> None"
      using pl by (simp only: find_slot_entry_None) blast
    ultimately show ?thesis using v reservation_fits [OF inv taken(7,9)] taken(4,5) by (intro exI [of _ a] conjI) simp_all
  qed
qed

definition demo_tight :: "token list PrefixCache" where
  "demo_tight = demo_committed\<lparr>max_resident_bytes := 150\<rparr>"

definition demo_redirect :: "token list InlineReservation \<times> token list PrefixCache" where
  "demo_redirect = the (reserve_inline_snap plain_key demo_env demo_tight [1, 5, 3, 2, 8, 1, 7, 2, 8, 1, 6] 0 False 0 (-1) (Some (\<lambda>_. 120)) 0 0)"

lemma demo_tight_reachable: "pc_reachable plain_key demo_env 2 demo_tokenizer 0 (demo_tight, [])"
proof -
  have "pc_step plain_key demo_env (demo_committed, []) (pc_run plain_key (CBudget 150) demo_committed, [])" by (rule pc_step.call) simp
  then show ?thesis using pc_reachable.step [OF demo_committed_reachable] by (simp add: demo_tight_def set_max_resident_bytes_def)
qed

theorem reserve_takes_nothing_from_others_witness:
  "ir_slot (fst demo_redirect) = 0 \<and> find_slot_entry demo_tight 0 = Some 0 \<and>
   (\<exists>a. active_reservations (snd demo_redirect) = [a] \<and> ar_bytes a = 120 \<and>
      (\<Sum>i \<in> {..<1} - leaving demo_tight (take (nat (ir_target_cut (fst demo_redirect))) [1, 5, 3, 2, 8, 1, 7, 2, 8, 1, 6]) a (Some 0).
         le_resident_bytes (entries demo_tight ! i)) + 120 \<le> (150::nat))"
proof -
  have e: "reserve_inline_snap plain_key demo_env demo_tight [1, 5, 3, 2, 8, 1, 7, 2, 8, 1, 6] 0 False 0 (-1) (Some (\<lambda>_. 120)) 0 0 =
      Some (fst demo_redirect, snd demo_redirect)"
    by (simp only: demo_redirect_def prod.collapse) (rule option.collapse [symmetric], rule cut_without_spacing, simp)
  have g: "ir_cache (fst demo_redirect)" "ir_slot (fst demo_redirect) = 0" "find_slot_entry demo_tight 0 = Some 0"
    "active_reservations demo_tight = []" "max_resident_bytes demo_tight = 150" "length (entries demo_tight) = 1"
    "pending_bytes demo_tight = 0" "distinct (map le_hash (entries demo_tight))" by code_simp+
  from reserve_takes_nothing_from_others [OF plain_key_law demo_tight_reachable e g(1)] show ?thesis
    using g(2-) by auto
qed

text \<open>
  C23. Reserving and cancelling leaves no trace: the entries, their bytes, the captures in flight and the eviction log
  are what they were (only the slot cursor, the id counter and the count of skipped captures may move).
\<close>

theorem reserve_then_cancel:
  assumes keys: "prefix_keys H" and reach: "pc_reachable H env0 cap0 tok budget (c, hs)"
    and eq: "reserve_inline_snap H env c p restored pt forced src est reach spacing = Some (r, c1)"
    and cn: "cancel_reservation c1 r = (c2, r')"
  shows "\<exists>cursor ids skips. c2 = c\<lparr>next_slot := cursor, next_inline_reservation := ids, budget_skips := skips\<rparr>"
proof -
  have inv: "pc_inv H (c, hs)" by (rule prefix_keys.reachable_inv [OF keys reach])
  then have ci: "cache_inv H c" and ii: "ids_inv c" by (simp_all add: pc_inv_def)
  from ci eq show ?thesis
  proof (cases rule: reserve_cases)
    case (none n k)
    then have "c2 = c\<lparr>next_slot := n, next_inline_reservation := next_inline_reservation c, budget_skips := k\<rparr>"
      using cn by (simp add: cancel_reservation_def no_reservation_def)
    then show ?thesis by blast
  next
    case (taken n m a)
    have "ar_id a = next_inline_reservation c" using taken(8) ii by (simp add: fresh_id_def ids_inv_def)
    then have "\<forall>b \<in> set (active_reservations c). ar_id b \<noteq> ar_id a" using ii by (auto simp: ids_inv_def)
    then have "index_of (\<lambda>b. ar_id b = ar_id a) (active_reservations c @ [a]) = Some (length (active_reservations c))"
      by (rule index_of_snoc) simp
    then have "fst (cancel_reservation c1 r) = c\<lparr>next_slot := n, next_inline_reservation := m, budget_skips := budget_skips c\<rparr>"
      using taken(2,3) by (simp add: taken(10) cancel_reservation_def release_inline_reservation_def remove_nth_def)
    then have "c2 = c\<lparr>next_slot := n, next_inline_reservation := m, budget_skips := budget_skips c\<rparr>"
      by (simp only: cn fst_conv)
    then show ?thesis by blast
  qed
qed

theorem reserve_then_cancel_witness:
  "ir_cache (fst demo_reserved) \<and>
   (\<exists>cursor ids skips. fst (cancel_reservation (snd demo_reserved) (fst demo_reserved)) =
      demo_cache\<lparr>next_slot := cursor, next_inline_reservation := ids, budget_skips := skips\<rparr>)"
proof -
  have "pc_reachable plain_key demo_env 2 demo_tokenizer 0 (demo_cache, [])" unfolding demo_cache_def by (rule pc_reachable.init)
  from reserve_then_cancel [OF plain_key_law this demo_reserved_eq prod.collapse [symmetric]]
  have "\<exists>cursor ids skips. fst (cancel_reservation (snd demo_reserved) (fst demo_reserved)) =
      demo_cache\<lparr>next_slot := cursor, next_inline_reservation := ids, budget_skips := skips\<rparr>" .
  moreover have "ir_cache (fst demo_reserved)" by code_simp
  ultimately show ?thesis by blast
qed

section \<open>A forced cut in a prompt without boundaries\<close>

text \<open>
  With a restore point spacing, \<open>reserve_inline_snap\<close> reads \<open>candidates.back()\<close> whenever it has a cut. A cut forced by the
  client in a prompt without message boundaries comes with an empty vector. In every other case the call is defined.
\<close>

lemma reserve_defined:
  assumes "spacing \<le> 0 \<or> forced \<le> max 0 restored \<or> find_all_boundaries p (markers c) \<noteq> []"
  shows "reserve_inline_snap H env c p restored pt forced src est reach spacing \<noteq> None"
proof -
  have "should_force_inline_snapshot_boundary [] n restored pf forced reach \<longrightarrow> restored < forced" for n pf
    by (simp add: should_force_inline_snapshot_boundary_def)
  moreover have "select_inline_snapshot_boundary [] restored pf reach = 0" for pf
    by (simp add: select_inline_snapshot_boundary_def)
  ultimately have "choose_cut env c p restored pt forced est reach spacing \<noteq> None"
    using assms by (auto simp: choose_cut_def Let_def max_def split: if_splits)
  then show ?thesis by (auto simp: reserve_inline_snap_def)
qed

lemma forced_cut_without_boundary:
  "find_all_boundaries [4, 4, 4] (markers demo_cache) = [] \<and>
   reserve_inline_snap plain_key demo_env demo_cache [4, 4, 4] 0 False 2 (-1) None 0 4096 = None"
  by code_simp

section \<open>Entries that share a key\<close>

text \<open>
  A capture may commit shorter than it reserved. The key of the shorter prefix is checked against nothing, so two such
  captures leave two entries with the same key in different slots.
\<close>

definition demo_early :: "token list PrefixCache" where
  "demo_early = fst (snd (commit_at plain_key (snd demo_reserved) (fst demo_reserved) demo_prompt 3 100 False))"

definition demo_again :: "token list InlineReservation \<times> token list PrefixCache" where
  "demo_again = the (reserve_inline_snap plain_key demo_env demo_early demo_prompt 0 False 0 (-1) None 0 0)"

definition demo_twice :: "token list PrefixCache" where
  "demo_twice = fst (snd (commit_at plain_key (snd demo_again) (fst demo_again) demo_prompt 3 100 False))"

lemma shorter_commits_may_share_a_key:
  "pc_reachable plain_key demo_env 2 demo_tokenizer 0 (demo_twice, []) \<and>
   map le_ids (entries demo_twice) = [[1, 5, 9], [1, 5, 9]] \<and> map le_hash (entries demo_twice) = [[1, 5, 9], [1, 5, 9]] \<and>
   map le_slot (entries demo_twice) = [0, 1]"
proof -
  have "pc_step plain_key demo_env (snd demo_reserved, [fst demo_reserved]) (demo_early, remove1 (fst demo_reserved) [fst demo_reserved])"
    by (rule pc_step.commit [where p = demo_prompt and n = 3 and bytes = 100 and protect = False]) (simp_all add: demo_early_def prod_eq_iff)
  then have r1: "pc_reachable plain_key demo_env 2 demo_tokenizer 0 (demo_early, [])"
    using pc_reachable.step [OF demo_reserved_reachable] by simp
  have lim: "next_inline_reservation demo_early < 18446744073709551613" by code_simp
  have "pc_step plain_key demo_env (demo_early, []) (snd demo_again, if ir_cache (fst demo_again) then [] @ [fst demo_again] else [])"
    by (rule pc_step.reserve [where p = demo_prompt and restored = 0 and pt = False and forced = 0 and src = "-1" and est = None and reach = 0 and spacing = 0])
      (rule lim, simp add: demo_again_def cut_without_spacing)
  moreover have "ir_cache (fst demo_again)" by code_simp
  ultimately have r2: "pc_reachable plain_key demo_env 2 demo_tokenizer 0 (snd demo_again, [fst demo_again])"
    using pc_reachable.step [OF r1] by simp
  have "pc_step plain_key demo_env (snd demo_again, [fst demo_again]) (demo_twice, remove1 (fst demo_again) [fst demo_again])"
    by (rule pc_step.commit [where p = demo_prompt and n = 3 and bytes = 100 and protect = False]) (simp_all add: demo_twice_def prod_eq_iff)
  then have "pc_reachable plain_key demo_env 2 demo_tokenizer 0 (demo_twice, [])" using pc_reachable.step [OF r2] by simp
  moreover have "map le_ids (entries demo_twice) = [[1, 5, 9], [1, 5, 9]]" "map le_hash (entries demo_twice) = [[1, 5, 9], [1, 5, 9]]"
    "map le_slot (entries demo_twice) = [0, 1]" by code_simp+
  ultimately show ?thesis by simp
qed

end
