(* ===== verification/Prefix_Cache_Budget.thy ===== *)
theory Prefix_Cache_Budget
  imports Prefix_Cache_Props
begin

text \<open>
  The resident budget, the pruning of superseded snapshots and the full-prompt cache.
\<close>

section \<open>The budget loop\<close>

lemma budget_loop_effect:
  assumes "cache_inv H c" "keep \<in> entry_slots c" "budget_loop keep c = (out, c')"
  shows "keep \<in> entry_slots c' \<and> set (entries c') \<subseteq> set (entries c) \<and> budget_victim c' keep = None \<and>
     mset (map le_slot (entries c)) = mset (map le_slot (entries c')) + mset (map ev_slot out) \<and>
     active_reservations c' = active_reservations c \<and> max_resident_bytes c' = max_resident_bytes c \<and>
     (\<forall>s \<in> entry_slots c. slot_reserved c s \<longrightarrow> s \<in> entry_slots c')"
  using assms
proof (induction keep c arbitrary: out c' rule: budget_loop.induct)
  case (1 keep c)
  show ?case
  proof (cases "budget_victim c keep")
    case None
    then have "c' = c" "out = []" using 1(4) by (simp_all add: budget_loop.simps [of keep c])
    then show ?thesis using None 1(3) by simp
  next
    case (Some v)
    let ?c = "erase_inline_entry (record_eviction c v) v"
    have v: "v < length (entries c)" by (rule budget_victim_range [OF Some])
    obtain k where k: "find_slot_entry c keep = Some k" using 1(3) find_slot_entry_None [of c keep] by auto
    have pick: "pick_evict_victim c (int k) \<ge> 0" "v = nat (pick_evict_victim c (int k))"
      using Some k by (auto simp: budget_victim_code split: if_splits)
    note victim = pick_evict_victimD [OF pick(1)]
    have "v \<noteq> k" using victim(3) pick by auto
    then have kv: "keep \<noteq> le_slot (entries c ! v)" using find_slot_entryD [OF k] slots_inj [OF 1(2) v, of k] by auto
    obtain l where e: "?c = keep_entries c (without_slots c {le_slot (entries c ! v)}) l"
      using erase_recorded_slots [OF cache_inv_bytes [OF 1(2)] cache_inv_distinct [OF 1(2)] v] by blast
    have es: "entries ?c = remove_nth v (entries c)"
      using filter_remove_nth_slot [OF cache_inv_distinct [OF 1(2)] v] by (simp add: e)
    have slots: "entry_slots ?c = entry_slots c - {le_slot (entries c ! v)}" by (auto simp: e entry_slots_def)
    obtain o' where o': "budget_loop keep ?c = (o', c')" "out = evicted_record c (entries c ! v) # o'"
      using 1(4) Some by (auto simp: budget_loop.simps [of keep c] Let_def split: prod.splits)
    have "cache_inv H ?c" by (rule erase_recorded_inv [OF 1(2) v])
    moreover have "keep \<in> entry_slots ?c" using 1(3) kv slots by simp
    ultimately have IH: "keep \<in> entry_slots c' \<and> set (entries c') \<subseteq> set (entries ?c) \<and> budget_victim c' keep = None \<and>
       mset (map le_slot (entries ?c)) = mset (map le_slot (entries c')) + mset (map ev_slot o') \<and>
       active_reservations c' = active_reservations ?c \<and> max_resident_bytes c' = max_resident_bytes ?c \<and>
       (\<forall>s \<in> entry_slots ?c. slot_reserved ?c s \<longrightarrow> s \<in> entry_slots c')"
      using 1(1) [OF Some] o'(1) by blast
    have "mset (map le_slot (entries c)) = add_mset (le_slot (entries c ! v)) (mset (map le_slot (entries ?c)))"
      using mset_remove_nth [OF v] unfolding es by (metis image_mset_add_mset mset_map)
    moreover have "set (entries ?c) \<subseteq> set (entries c)" unfolding es by (rule set_remove_nth_subset)
    moreover have "slot_reserved ?c = slot_reserved c" "active_reservations ?c = active_reservations c"
      "max_resident_bytes ?c = max_resident_bytes c" by (simp_all add: e slot_reserved_def fun_eq_iff)
    moreover have "s \<in> entry_slots ?c" if "s \<in> entry_slots c" "slot_reserved c s" for s
      using that victim(2) pick(2) slots by auto
    ultimately show ?thesis using IH o'(2) by (auto simp: evicted_record_def)
  qed
qed

lemma no_victim_left:
  assumes k: "find_slot_entry c keep = Some k" and none: "budget_victim c keep = None" and over: "max_resident_bytes c < resident_bytes c"
    and i: "i < length (entries c)" "i \<noteq> k" "\<not> slot_reserved c (le_slot (entries c ! i))"
  shows "le_protect (entries c ! i) \<and>
    (\<exists>j < length (entries c). j \<noteq> i \<and> is_strict_prefix (le_ids (entries c ! i)) (le_ids (entries c ! j)))"
proof -
  let ?ids = "map le_ids (entries c)" and ?prot = "Some (map le_protect (entries c))"
    and ?held = "Some (map (\<lambda>e. slot_reserved c (le_slot e)) (entries c))"
  have neg: "pick_evict_victim c (int k) < 0" using k none over by (simp add: budget_victim_code split: if_splits)
  have ne: "?ids \<noteq> []" using i(1) by auto
  then have p: "pick_evict_victim c (int k) = select_inline_evict_victim ?ids ?prot (int k) ?held"
    by (auto simp: pick_evict_victim_def)
  have "evict_rank ?ids ?prot (int k) ?held i = None" using select_victim_cases [OF ne p] neg i(1) by auto
  moreover have "\<not> is_skipped (int k) ?held i" using i by (simp add: is_skipped_def)
  ultimately have "is_protected ?prot i \<and> is_ancestor ?ids i" by (simp add: evict_rank_def split: if_splits)
  then show ?thesis using i(1) by (auto simp: is_ancestor_def is_protected_def)
qed

text \<open>
  C24. Enforcing the resident budget ends, keeps the new entry, evicts only committed entries that no capture holds, reports each eviction
  exactly once, evicts nothing when the resident bytes already fit, and stops only when they fit the budget or when nothing is evictable:
  every other entry is held by a capture or is a protected pin that another resident entry extends.
\<close>

theorem enforce_resident_budget_correct:
  assumes keys: "prefix_keys H" and reach: "pc_reachable H env cap0 tok budget (c, hs)"
    and on: "0 < max_resident_bytes c" and keep: "find_slot_entry c keep_slot \<noteq> None"
    and r: "enforce_resident_budget c keep_slot = (out, c')"
  shows "find_slot_entry c' keep_slot \<noteq> None \<and>
    mset (map le_slot (entries c)) = mset (map le_slot (entries c')) + mset (map ev_slot out) \<and>
    (\<forall>v \<in> set out. \<not> slot_reserved c (ev_slot v)) \<and> (resident_bytes c \<le> max_resident_bytes c \<longrightarrow> out = [] \<and> c' = c) \<and>
    (resident_bytes c' \<le> max_resident_bytes c \<or>
     (\<forall>e \<in> set (entries c'). le_slot e = keep_slot \<or> slot_reserved c (le_slot e) \<or>
        (le_protect e \<and> (\<exists>e' \<in> set (entries c'). strict_prefix (le_ids e) (le_ids e')))))"
proof -
  have inv: "cache_inv H c" using prefix_keys.reachable_inv [OF keys reach] by (simp add: pc_inv_def)
  have en: "\<not> disabled c" using keep cache_inv_disabled_empty [OF inv] by (auto simp: find_slot_entry_None entry_slots_def)
  have loop: "budget_loop keep_slot c = (out, c')" using r on en by (simp add: enforce_resident_budget_def)
  have k0: "keep_slot \<in> entry_slots c" using keep by (simp add: find_slot_entry_None)
  note E = budget_loop_effect [OF inv k0 loop]
  obtain k where k: "find_slot_entry c' keep_slot = Some k" using E find_slot_entry_None [of c' keep_slot] by auto
  have same: "slot_reserved c' = slot_reserved c" using E by (simp add: slot_reserved_def fun_eq_iff)
  have left: "resident_bytes c' \<le> max_resident_bytes c \<or>
     (\<forall>e \<in> set (entries c'). le_slot e = keep_slot \<or> slot_reserved c (le_slot e) \<or>
        (le_protect e \<and> (\<exists>e' \<in> set (entries c'). strict_prefix (le_ids e) (le_ids e'))))"
  proof (cases "resident_bytes c' \<le> max_resident_bytes c")
    case False
    then have over: "max_resident_bytes c' < resident_bytes c'" using E by simp
    have "le_protect e \<and> (\<exists>e' \<in> set (entries c'). strict_prefix (le_ids e) (le_ids e'))"
      if e: "e \<in> set (entries c')" "le_slot e \<noteq> keep_slot" "\<not> slot_reserved c (le_slot e)" for e
    proof -
      obtain i where i: "i < length (entries c')" "e = entries c' ! i" using e(1) by (auto simp: in_set_conv_nth)
      have "i \<noteq> k" using i e(2) find_slot_entryD [OF k] by auto
      then show ?thesis using no_victim_left [OF k _ over i(1)] E e(3) i(2) by (auto simp: same is_strict_prefix_iff)
    qed
    then show ?thesis by blast
  qed simp
  have ms: "mset (map le_slot (entries c)) = mset (map le_slot (entries c')) + mset (map ev_slot out)" using E by blast
  then have "distinct (map le_slot (entries c') @ map ev_slot out)"
    using distinct_mset_eq_set [of "map le_slot (entries c)" "map le_slot (entries c') @ map ev_slot out"] cache_inv_distinct [OF inv]
    by (simp del: distinct_append)
  then have disj: "s \<notin> entry_slots c'" if "s \<in> ev_slot ` set out" for s
    using that by (auto simp: entry_slots_def)
  have "\<not> slot_reserved c (ev_slot v)" if "v \<in> set out" for v
  proof
    assume held: "slot_reserved c (ev_slot v)"
    have "ev_slot v \<in># mset (map ev_slot out)" using that by simp
    then have "ev_slot v \<in># mset (map le_slot (entries c))" unfolding ms by simp
    then have "ev_slot v \<in> entry_slots c" by (simp add: entry_slots_def)
    then show False using E held disj that by blast
  qed
  moreover have "out = [] \<and> c' = c" if "resident_bytes c \<le> max_resident_bytes c"
    using loop that by (auto simp: budget_loop.simps [of keep_slot c] budget_victim_def)
  ultimately show ?thesis using left ms k by simp
qed

section \<open>Pruning\<close>

lemma prune_loop_entries:
  assumes "bytes_ok c" "distinct (map le_slot (entries c))" "sorted_wrt (>) is" "\<forall>i \<in> set is. i < length (entries c)"
    "prune_loop is c = (out, c')"
  shows "entries c' = without_slots c ((\<lambda>i. le_slot (entries c ! i)) ` set is) \<and>
     out = map (\<lambda>i. (le_slot (entries c ! i), int (length (le_ids (entries c ! i))))) is"
  using assms
proof (induction "is" arbitrary: c out)
  case (Cons i "is")
  let ?c = "erase_inline_entry c i"
  have i: "i < length (entries c)" using Cons.prems(4) by simp
  have e: "?c = c\<lparr>entries := remove_nth i (entries c), resident_bytes := total_bytes (remove_nth i (entries c))\<rparr>"
    by (rule erase_normal [OF Cons.prems(1) i])
  have es: "remove_nth i (entries c) = without_slots c {le_slot (entries c ! i)}"
    using filter_remove_nth_slot [OF Cons.prems(2) i] by simp
  have nth: "entries ?c ! j = entries c ! j" if "j \<in> set is" for j
    using that Cons.prems(3) i by (simp add: e remove_nth_def nth_append)
  obtain o' where o': "prune_loop is ?c = (o', c')" "out = (le_slot (entries c ! i), int (length (le_ids (entries c ! i)))) # o'"
    using Cons.prems(5) by (auto simp: Let_def split: prod.splits)
  have "bytes_ok ?c" "distinct (map le_slot (entries ?c))"
    using Cons.prems(2) by (simp_all add: e bytes_ok_def map_remove_nth distinct_remove_nth)
  moreover have "sorted_wrt (>) is" "\<forall>j \<in> set is. j < length (entries ?c)" using Cons.prems(3) i by (auto simp: e)
  ultimately have "entries c' = without_slots ?c ((\<lambda>i. le_slot (entries ?c ! i)) ` set is) \<and>
     o' = map (\<lambda>i. (le_slot (entries ?c ! i), int (length (le_ids (entries ?c ! i))))) is"
    using Cons.IH o'(1) by blast
  then have "entries c' = without_slots ?c ((\<lambda>i. le_slot (entries c ! i)) ` set is)"
    "o' = map (\<lambda>i. (le_slot (entries c ! i), int (length (le_ids (entries c ! i))))) is"
    using nth by (simp_all cong: image_cong map_cong)
  then show ?case using o'(2) by (auto simp: e es intro!: filter_cong)
qed simp

text \<open>The scan for the shallowest ancestor.\<close>

definition shallower :: "(nat \<Rightarrow> nat) \<Rightarrow> nat option \<Rightarrow> nat \<Rightarrow> nat option" where
  "shallower len sh i = (case sh of None \<Rightarrow> Some i | Some s \<Rightarrow> if len i < len s then Some i else sh)"

lemma shallowest_fold:
  assumes "\<exists>i \<in> set is. P i"
  shows "\<exists>s. snd (foldl (\<lambda>(out, sh) i. if \<not> P i then (out, sh) else (if \<not> Q i then out @ [i] else out, shallower len sh i)) (out, sh) is) = Some s \<and>
     (sh = Some s \<or> s \<in> set is \<and> P s) \<and> (\<forall>i \<in> set is. P i \<longrightarrow> len s \<le> len i) \<and> (\<forall>t. sh = Some t \<longrightarrow> len s \<le> len t)"
  using assms
proof (induction "is" arbitrary: out sh)
  case (Cons i "is")
  let ?step = "\<lambda>(out, sh) i. if \<not> P i then (out, sh) else (if \<not> Q i then out @ [i] else out, shallower len sh i)"
  define st where "st = ?step (out, sh) i"
  have fold: "foldl ?step (out, sh) (i # is) = foldl ?step (fst st, snd st) is" by (simp add: st_def)
  have sh: "snd st = (if P i then shallower len sh i else sh)" by (simp add: st_def)
  show ?case
  proof (cases "\<exists>j \<in> set is. P j")
    case True
    from Cons.IH [OF this, of "fst st" "snd st"] show ?thesis
      unfolding fold sh by (auto simp: shallower_def split: option.splits if_splits)
  next
    case False
    have none: "foldl ?step acc is = acc" for acc
      using False by (induction "is" arbitrary: acc) (auto split: prod.splits)
    have "P i" using Cons.prems False by simp
    then show ?thesis using False unfolding fold none sh by (auto simp: shallower_def split: option.splits)
  qed
qed simp

lemma shallowest_stays:
  assumes "i \<in> set (superseded_entries c ids)"
  shows "\<exists>s < length (entries c). s \<notin> set (superseded_entries c ids) \<and> is_strict_prefix (le_ids (entries c ! s)) ids \<and>
     length (le_ids (entries c ! s)) \<le> length (le_ids (entries c ! i))"
proof -
  let ?len = "\<lambda>i. length (le_ids (entries c ! i))" and ?P = "\<lambda>i. is_strict_prefix (le_ids (entries c ! i)) ids"
  define fold where "fold = foldl (\<lambda>(out, sh) i. if \<not> ?P i then (out, sh)
      else (if \<not> le_protect (entries c ! i) then out @ [i] else out, shallower ?len sh i)) ([], None) [0..<length (entries c)]"
  have sup: "superseded_entries c ids = filter (\<lambda>i. snd fold \<noteq> Some i) (fst fold)"
    unfolding superseded_entries_def fold_def shallower_def Let_def by (simp only: case_prod_beta)
  have i: "i < length (entries c)" "?P i" using superseded_entriesD [OF assms] by auto
  then have "\<exists>i \<in> set [0..<length (entries c)]. ?P i" by auto
  from shallowest_fold [OF this, of "\<lambda>i. le_protect (entries c ! i)" ?len "[]" None]
  obtain s where "snd fold = Some s" "s < length (entries c)" "?P s" "\<forall>i < length (entries c). ?P i \<longrightarrow> ?len s \<le> ?len i"
    by (auto simp: fold_def)
  then show ?thesis using i by (intro exI [of _ s]) (auto simp: sup)
qed

lemma previous_turn_deepest:
  assumes "previous_turn c xs = Some p" "i \<in> set xs"
  shows "length (le_ids (entries c ! i)) \<le> length (le_ids (entries c ! p))"
proof -
  define step where "step prev i = (case prev of None \<Rightarrow> Some i
     | Some q \<Rightarrow> if length (le_ids (entries c ! i)) > length (le_ids (entries c ! q)) then Some i else prev)" for prev i
  have "foldl step p0 xs = Some p \<Longrightarrow> (\<forall>i \<in> set xs \<union> set_option p0. length (le_ids (entries c ! i)) \<le> length (le_ids (entries c ! p)))" for p0
  proof (induction xs arbitrary: p0)
    case (Cons i xs)
    have all: "\<forall>j \<in> set xs \<union> set_option (step p0 i). length (le_ids (entries c ! j)) \<le> length (le_ids (entries c ! p))"
      using Cons.IH [of "step p0 i"] Cons.prems by simp
    obtain q where q: "step p0 i = Some q" "length (le_ids (entries c ! i)) \<le> length (le_ids (entries c ! q))"
      "\<forall>j \<in> set_option p0. length (le_ids (entries c ! j)) \<le> length (le_ids (entries c ! q))"
    proof (cases p0)
      case None
      then show thesis using that [of i] by (simp add: step_def)
    next
      case (Some a)
      then show thesis using that [of i] that [of a] by (cases "length (le_ids (entries c ! a)) < length (le_ids (entries c ! i))") (simp_all add: step_def)
    qed
    then show ?case using all by fastforce
  qed simp
  from this [of None] show ?thesis using assms by (simp add: previous_turn_def step_def [abs_def])
qed

lemma previous_turn_ex: "xs \<noteq> [] \<Longrightarrow> \<exists>p. previous_turn c xs = Some p"
proof -
  assume "xs \<noteq> []"
  have "foldl (\<lambda>prev i. case prev of None \<Rightarrow> Some i
     | Some q \<Rightarrow> if length (le_ids (entries c ! i)) > length (le_ids (entries c ! q)) then Some i else prev) (Some q) ys \<noteq> None" for q ys
    by (induction ys arbitrary: q) auto
  then show ?thesis using \<open>xs \<noteq> []\<close> by (cases xs) (auto simp: previous_turn_def)
qed

text \<open>Which indices a prune drops.\<close>

lemma prune_cases:
  assumes inv: "cache_inv H c" and en: "\<not> disabled c" and k: "find_slot_entry c slot = Some k"
    and pr: "prune_superseded_ancestors c slot = (out, c')"
  shows "\<exists>xs es. set xs \<subseteq> set (superseded_entries c (le_ids (entries c ! k))) \<and>
     (max_resident_bytes c = 0 \<longrightarrow> (\<forall>i \<in> set (superseded_entries c (le_ids (entries c ! k))). \<exists>p. p \<notin> set xs \<and>
        p \<in> set (superseded_entries c (le_ids (entries c ! k))) \<and> length (le_ids (entries c ! i)) \<le> length (le_ids (entries c ! p)))) \<and>
     map le_slot es = map le_slot (entries c) \<and> map le_ids es = map le_ids (entries c) \<and>
     entries c' = filter (\<lambda>e. le_slot e \<notin> (\<lambda>i. le_slot (entries c ! i)) ` set xs) es \<and>
     map fst out = map (\<lambda>i. le_slot (entries c ! i)) (rev xs)"
proof -
  define sup where "sup = superseded_entries c (le_ids (entries c ! k))"
  note d = cache_inv_bytes [OF inv] cache_inv_distinct [OF inv]
  have sorted: "sorted_wrt (<) sup" and sub: "\<forall>i \<in> set sup. i < length (entries c)"
    using superseded_entries_sorted superseded_entriesD [of _ c "le_ids (entries c ! k)"] by (auto simp: sup_def)
  show ?thesis
  proof (cases "previous_turn c sup")
    case None
    then have "sup = []" using previous_turn_ex [of sup c] by (cases "sup = []") simp_all
    then show ?thesis using pr en k None
      by (intro exI [of _ "[]"] exI [of _ "entries c"]) (simp add: prune_superseded_ancestors_def Let_def sup_def)
  next
    case (Some p)
    have p: "p \<in> set sup" "p < length (entries c)" using previous_turn_in [OF Some] sub by auto
    let ?c = "c\<lparr>entries := (entries c)[p := (entries c ! p)\<lparr>le_edit_backup := True\<rparr>]\<rparr>"
    consider (all) "max_resident_bytes c \<noteq> 0" "prune_loop (rev sup) c = (out, c')" | (keep) "prune_loop (rev (remove1 p sup)) ?c = (out, c')"
    proof -
      let ?fits = "max_resident_bytes c = 0 \<or> size_sub (resident_bytes c)
        (size_sub (sum_list (map (\<lambda>i. le_resident_bytes (entries c ! i)) sup)) (le_resident_bytes (entries c ! p))) \<le> max_resident_bytes c"
      have "prune_superseded_ancestors c slot = (if ?fits then prune_loop (rev (remove1 p sup)) ?c else prune_loop (rev sup) c)"
        unfolding prune_superseded_ancestors_def Let_def by (simp only: en if_False k option.case Some flip: sup_def)
      then have "(if ?fits then prune_loop (rev (remove1 p sup)) ?c else prune_loop (rev sup) c) = (out, c')" using pr by (simp only:)
      then show thesis using that by (cases ?fits) (simp_all only: if_True if_False de_Morgan_disj not_False_eq_True)
    qed
    then show ?thesis
    proof cases
      case all
      have "sorted_wrt (>) (rev sup)" using sorted by (simp add: sorted_wrt_rev)
      from prune_loop_entries [OF d this _ all(2)] sub all(1)
      show ?thesis by (intro exI [of _ sup] exI [of _ "entries c"]) (auto simp: sup_def [symmetric] rev_map comp_def)
    next
      case keep
      have slots: "map le_slot (entries ?c) = map le_slot (entries c)" "map le_ids (entries ?c) = map le_ids (entries c)"
        "map le_resident_bytes (entries ?c) = map le_resident_bytes (entries c)"
        using p(2) by (simp_all add: map_update list_update_same_conv)
      have nth: "le_slot (entries ?c ! i) = le_slot (entries c ! i)" if "i < length (entries c)" for i
        by (simp add: nth_list_update [OF p(2)])
      have b: "bytes_ok ?c" using d(1) slots(3) by (simp add: bytes_ok_def total_bytes_def)
      have dist: "distinct (map le_slot (entries ?c))" using d(2) slots(1) by metis
      have so: "sorted_wrt (<) (remove1 p sup)" using sorted by (metis strict_sorted_iff distinct_remove1 sorted_remove1)
      have s1: "\<forall>i \<in> set (remove1 p sup). i < length (entries c)" using sub set_remove1_subset [of p sup] by auto
      have "sorted_wrt (>) (rev (remove1 p sup))" using so by (simp add: sorted_wrt_rev)
      from prune_loop_entries [OF b dist this _ keep] s1
      have eq: "entries c' = filter (\<lambda>e. le_slot e \<notin> (\<lambda>i. le_slot (entries ?c ! i)) ` set (remove1 p sup)) (entries ?c)"
        "map fst out = map (\<lambda>i. le_slot (entries ?c ! i)) (rev (remove1 p sup))" by (auto simp: rev_map comp_def)
      have im: "(\<lambda>i. le_slot (entries ?c ! i)) ` set (remove1 p sup) = (\<lambda>i. le_slot (entries c ! i)) ` set (remove1 p sup)"
        using nth s1 by (intro image_cong) auto
      have out: "map (\<lambda>i. le_slot (entries ?c ! i)) (rev (remove1 p sup)) = map (\<lambda>i. le_slot (entries c ! i)) (rev (remove1 p sup))"
        using nth s1 by (intro map_cong) auto
      have "distinct sup" using sorted by (simp add: strict_sorted_iff)
      then have deep: "\<exists>q. q \<notin> set (remove1 p sup) \<and> q \<in> set sup \<and> length (le_ids (entries c ! i)) \<le> length (le_ids (entries c ! q))"
        if "i \<in> set sup" for i using previous_turn_deepest [OF Some that] p(1) by auto
      show ?thesis using deep slots(1,2) eq im out set_remove1_subset [of p sup]
        by (intro exI [of _ "remove1 p sup"] exI [of _ "entries ?c"]) (simp add: sup_def [symmetric])
    qed
  qed
qed

lemma unpruned_stays:
  assumes inv: "cache_inv H c" and es: "map le_slot es = map le_slot (entries c)" "map le_ids es = map le_ids (entries c)"
    and xs: "\<forall>i \<in> set xs. i < length (entries c)" and j: "j < length (entries c)" "j \<notin> set xs"
  shows "\<exists>h \<in> set (filter (\<lambda>e. le_slot e \<notin> (\<lambda>i. le_slot (entries c ! i)) ` set xs) es). le_ids h = le_ids (entries c ! j)"
proof -
  have "length es = length (entries c)" using es(1) by (metis length_map)
  then have n: "j < length es" "le_slot (es ! j) = le_slot (entries c ! j)" "le_ids (es ! j) = le_ids (entries c ! j)"
    using j(1) es by (metis nth_map)+
  have "le_slot (entries c ! j) \<notin> (\<lambda>i. le_slot (entries c ! i)) ` set xs"
  proof
    assume "le_slot (entries c ! j) \<in> (\<lambda>i. le_slot (entries c ! i)) ` set xs"
    then obtain i where "i \<in> set xs" "le_slot (entries c ! j) = le_slot (entries c ! i)" by blast
    then show False using slots_inj [OF inv j(1)] xs j(2) by blast
  qed
  then show ?thesis using n by (intro bexI [of _ "es ! j"]) simp_all
qed

text \<open>
  C25. Pruning behind a new snapshot drops only unprotected strict prefixes of it and reports their slots; every other entry stays; behind
  each dropped entry an ancestor that is at most as long (the shared head) stays resident, and without a
  budget also one at least as long (the previous turn).
\<close>

theorem prune_keeps_head_and_previous_turn:
  assumes keys: "prefix_keys H" and reach: "pc_reachable H env cap0 tok budget (c, hs)"
    and k: "find_slot_entry c slot = Some k" and pr: "prune_superseded_ancestors c slot = (out, c')"
  shows "entry_slots c' = entry_slots c - fst ` set out \<and>
    (\<forall>e \<in> set (entries c). le_slot e \<in> fst ` set out \<longrightarrow>
       \<not> le_protect e \<and> strict_prefix (le_ids e) (le_ids (entries c ! k)) \<and>
       (\<exists>h \<in> set (entries c'). strict_prefix (le_ids h) (le_ids (entries c ! k)) \<and> length (le_ids h) \<le> length (le_ids e)) \<and>
       (max_resident_bytes c = 0 \<longrightarrow>
         (\<exists>h \<in> set (entries c'). strict_prefix (le_ids h) (le_ids (entries c ! k)) \<and> length (le_ids e) \<le> length (le_ids h))))"
proof -
  have inv: "cache_inv H c" using prefix_keys.reachable_inv [OF keys reach] by (simp add: pc_inv_def)
  let ?ids = "le_ids (entries c ! k)" and ?slot = "\<lambda>i. le_slot (entries c ! i)"
  let ?sup = "set (superseded_entries c ?ids)"
  have en: "\<not> disabled c" using k cache_inv_disabled_empty [OF inv] find_slot_entryD [OF k] by auto
  obtain xs es where xs: "set xs \<subseteq> ?sup"
    and prev: "max_resident_bytes c = 0 \<longrightarrow> (\<forall>i \<in> ?sup. \<exists>p. p \<notin> set xs \<and> p \<in> ?sup \<and> length (le_ids (entries c ! i)) \<le> length (le_ids (entries c ! p)))"
    and es: "map le_slot es = map le_slot (entries c)" "map le_ids es = map le_ids (entries c)"
    and c': "entries c' = filter (\<lambda>e. le_slot e \<notin> ?slot ` set xs) es" and out: "map fst out = map ?slot (rev xs)"
    using prune_cases [OF inv en k pr] by (elim exE conjE) (rule that)
  have fo: "fst ` set out = ?slot ` set xs" using arg_cong [OF out, of set] by simp
  have sup: "\<forall>i \<in> ?sup. i < length (entries c) \<and> is_strict_prefix (le_ids (entries c ! i)) ?ids \<and> \<not> le_protect (entries c ! i)"
    using superseded_entriesD by blast
  have stay: "\<exists>h \<in> set (entries c'). le_ids h = le_ids (entries c ! j)" if "j < length (entries c)" "j \<notin> set xs" for j
    using unpruned_stays [OF inv es _ that] xs sup unfolding c' by blast
  have "entry_slots c' = le_slot ` set es - ?slot ` set xs" by (auto simp: entry_slots_def c')
  then have slots: "entry_slots c' = entry_slots c - fst ` set out"
    using arg_cong [OF es(1), of set] by (simp add: fo entry_slots_def)
  have "\<not> le_protect e \<and> strict_prefix (le_ids e) ?ids \<and>
       (\<exists>h \<in> set (entries c'). strict_prefix (le_ids h) ?ids \<and> length (le_ids h) \<le> length (le_ids e)) \<and>
       (max_resident_bytes c = 0 \<longrightarrow> (\<exists>h \<in> set (entries c'). strict_prefix (le_ids h) ?ids \<and> length (le_ids e) \<le> length (le_ids h)))"
    if e: "e \<in> set (entries c)" "le_slot e \<in> fst ` set out" for e
  proof -
    obtain i where i: "i \<in> set xs" "le_slot e = ?slot i" using e(2) by (auto simp: fo)
    then have il: "i \<in> ?sup" "i < length (entries c)" using xs sup by auto
    then have ei: "e = entries c ! i" using e(1) i(2) slots_inj [OF inv _ il(2)] by (metis in_set_conv_nth)
    obtain s where s: "s < length (entries c)" "s \<notin> ?sup" "is_strict_prefix (le_ids (entries c ! s)) ?ids"
      "length (le_ids (entries c ! s)) \<le> length (le_ids e)" using shallowest_stays [OF il(1)] ei by blast
    have head: "\<exists>h \<in> set (entries c'). strict_prefix (le_ids h) ?ids \<and> length (le_ids h) \<le> length (le_ids e)"
      using stay [OF s(1)] s xs by (metis is_strict_prefix_iff subsetD)
    have "\<exists>h \<in> set (entries c'). strict_prefix (le_ids h) ?ids \<and> length (le_ids e) \<le> length (le_ids h)" if zero: "max_resident_bytes c = 0"
    proof -
      obtain p where p: "p \<notin> set xs" "p \<in> ?sup" "length (le_ids e) \<le> length (le_ids (entries c ! p))"
        using prev zero il(1) ei by blast
      then show ?thesis using stay [of p] sup by (metis is_strict_prefix_iff)
    qed
    then show ?thesis using head sup il(1) ei by (simp add: is_strict_prefix_iff)
  qed
  then show ?thesis using slots by blast
qed

definition demo_turns :: "token list PrefixCache" where
  "demo_turns = foldl (\<lambda>c (s, n). confirm_inline_snap plain_key c s n [1, 5, 9, 2, 8] False 10)
     (new_prefix_cache 4 demo_tokenizer 0) [(0, 1), (1, 2), (2, 3), (3, 5)]"

lemma demo_turns_reachable: "pc_reachable plain_key demo_env 4 demo_tokenizer 0 (demo_turns, [])"
proof -
  have step: "pc_reachable plain_key demo_env 4 demo_tokenizer 0 (confirm_inline_snap plain_key c s n p b m, [])"
    if "pc_reachable plain_key demo_env 4 demo_tokenizer 0 (c, [])" "s < cap c" for c s n p b m
    using pc_reachable.step [OF that(1) pc_step.call [of c "CConfirm s n p b m"]] that(2) by simp
  have cap: "cap (confirm_inline_snap plain_key c s n p b m) = cap c" for c :: "token list PrefixCache" and s n p b m
  proof -
    have "cap (drop_slot_entries True s k d) = cap d" for k and d :: "token list PrefixCache"
      by (induction k arbitrary: d) (simp_all add: erase_inline_entry_def record_eviction_def Let_def)
    then show ?thesis by (simp add: confirm_inline_snap_def replace_inline_entry_def Let_def)
  qed
  have "cap (new_prefix_cache 4 demo_tokenizer 0 :: token list PrefixCache) = 4" by code_simp
  then show ?thesis unfolding demo_turns_def
    by (simp, intro step pc_reachable.init) (simp_all add: cap)
qed

theorem enforce_resident_budget_correct_witness:
  "map ev_slot (fst (enforce_resident_budget (demo_turns\<lparr>max_resident_bytes := 20\<rparr>) 3)) = [1, 2] \<and>
   find_slot_entry (snd (enforce_resident_budget (demo_turns\<lparr>max_resident_bytes := 20\<rparr>) 3)) 3 \<noteq> None"
proof -
  have "pc_step plain_key demo_env (demo_turns, []) (pc_run plain_key (CBudget 20) demo_turns, [])" by (rule pc_step.call) simp
  then have r: "pc_reachable plain_key demo_env 4 demo_tokenizer 0 (demo_turns\<lparr>max_resident_bytes := 20\<rparr>, [])"
    using pc_reachable.step [OF demo_turns_reachable] by (simp add: set_max_resident_bytes_def)
  have k: "0 < max_resident_bytes (demo_turns\<lparr>max_resident_bytes := 20\<rparr>)" "find_slot_entry (demo_turns\<lparr>max_resident_bytes := 20\<rparr>) 3 \<noteq> None"
    "map ev_slot (fst (enforce_resident_budget (demo_turns\<lparr>max_resident_bytes := 20\<rparr>) 3)) = [1, 2]" by code_simp+
  show ?thesis using enforce_resident_budget_correct [OF plain_key_law r k(1,2) prod.collapse [symmetric]] k(3) by simp
qed

theorem prune_keeps_head_and_previous_turn_witness:
  "map fst (fst (prune_superseded_ancestors demo_turns 3)) = [1] \<and>
   entry_slots (snd (prune_superseded_ancestors demo_turns 3)) = entry_slots demo_turns - {1}"
proof -
  have k: "find_slot_entry demo_turns 3 = Some 3" by code_simp
  have o: "map fst (fst (prune_superseded_ancestors demo_turns 3)) = [1]" by code_simp
  then have "fst ` set (fst (prune_superseded_ancestors demo_turns 3)) = {1}" by (metis list.set(1,2) set_map)
  then show ?thesis
    using o prune_keeps_head_and_previous_turn [OF plain_key_law demo_turns_reachable k prod.collapse [symmetric]] by simp
qed

section \<open>The full-prompt cache\<close>

text \<open>The slots of the full cache start after the inline ones and leave the staging slot free.\<close>

definition full_inv :: "'h PrefixCache \<Rightarrow> bool" where
  "full_inv c \<longleftrightarrow> full_disabled c \<or>
     (0 < full_cap c \<and> full_slot_base c = cap c \<and> cap c + full_cap c \<le> MAX_CACHE_SLOTS \<and>
      0 \<le> full_next_slot c \<and> full_next_slot c < full_cap c \<and> distinct (map fe_slot (full_entries c)) \<and>
      (\<forall>e \<in> set (full_entries c). full_slot_base c \<le> fe_slot e \<and> fe_slot e < full_slot_base c + full_cap c))"

text \<open>The calls on it, as one request makes them: a slot that was prepared is confirmed or aborted.\<close>

inductive full_reachable :: "'h keyfun \<Rightarrow> 'h PrefixCache \<Rightarrow> int option \<Rightarrow> bool" for H where
  start: "full_entries c = [] \<Longrightarrow> full_disabled c \<Longrightarrow> full_reachable H (init_full_cache c n) None"
| hit: "full_reachable H c None \<Longrightarrow> full_reachable H (snd (lookup_full H now c p)) None"
| prepare: "full_reachable H c None \<Longrightarrow> prepare_full_snap H c p = (s, c') \<Longrightarrow> full_reachable H c' (if s < 0 then None else Some s)"
| confirm: "full_reachable H c (Some s) \<Longrightarrow> full_reachable H (confirm_full_snap H now c s p n) None"
| abort: "full_reachable H c (Some s) \<Longrightarrow> full_reachable H (abort_full_snap c s) None"

lemma drop_full_slot_filter:
  "n \<le> length es \<Longrightarrow> drop_full_slot s n es = filter (\<lambda>e. fe_slot e \<noteq> s) (take n es) @ drop n es"
proof (induction n arbitrary: es)
  case (Suc n)
  have n: "n < length es" using Suc.prems by simp
  have tk: "take (Suc n) es = take n es @ [es ! n]" using n by (rule take_Suc_conv_app_nth)
  show ?case
  proof (cases "fe_slot (es ! n) = s")
    case True
    have "take n (remove_nth n es) = take n es" "drop n (remove_nth n es) = drop (Suc n) es" "n \<le> length (remove_nth n es)"
      using n by (simp_all add: remove_nth_def)
    then show ?thesis using Suc.IH [of "remove_nth n es"] True tk by simp
  next
    case False
    then show ?thesis using Suc.IH [of es] n tk by (simp add: Cons_nth_drop_Suc [symmetric])
  qed
qed simp

lemma full_reachable_inv:
  "full_reachable H c pend \<Longrightarrow> full_inv c \<and>
     (\<forall>s. pend = Some s \<longrightarrow> \<not> full_disabled c \<and> full_slot_base c \<le> s \<and> s < full_slot_base c + full_cap c)"
proof (induction rule: full_reachable.induct)
  case (start c n)
  then show ?case by (auto simp: init_full_cache_def full_inv_def Let_def)
next
  case (hit c now p)
  show ?case
  proof (cases "full_disabled c \<or> find_full_entry c (H p (int (length p))) = None")
    case True
    then show ?thesis using hit by (auto simp: lookup_full_def)
  next
    case False
    then obtain i where i: "find_full_entry c (H p (int (length p))) = Some i" by auto
    have il: "i < length (full_entries c)" using i index_of_SomeD by (fastforce simp: find_full_entry_def)
    let ?es = "(full_entries c)[i := (full_entries c ! i)\<lparr>fe_hits := fe_hits (full_entries c ! i) + 1, fe_last_used_ns := now\<rparr>]"
    have m: "map fe_slot ?es = map fe_slot (full_entries c)" using il by (simp add: map_update list_update_same_conv)
    define fs where "fs = remove_nth i ?es @ [?es ! i]"
    have "mset fs = mset ?es" unfolding fs_def using mset_remove_nth [of i ?es] il by simp
    then have ms: "mset (map fe_slot fs) = mset (map fe_slot (full_entries c))" using m by (metis mset_map)
    have "distinct (map fe_slot fs)" using hit False distinct_mset_eq_set [OF ms] by (simp add: full_inv_def)
    moreover have "fe_slot ` set fs = fe_slot ` set (full_entries c)" using mset_eq_setD [OF ms] by simp
    then have "\<forall>e \<in> set fs. full_slot_base c \<le> fe_slot e \<and> fe_slot e < full_slot_base c + full_cap c"
      using hit False by (auto simp: full_inv_def) (metis imageE imageI)+
    moreover have "snd (lookup_full H now c p) = c\<lparr>full_entries := fs, full_lifetime_hits := full_lifetime_hits c + 1\<rparr>"
      using False i il by (simp add: lookup_full_def move_full_to_end_def Let_def fs_def)
    ultimately show ?thesis using hit False by (simp add: full_inv_def)
  qed
next
  case (prepare c p s c')
  then show ?case
    by (cases "full_entries c") (auto simp: prepare_full_snap_def full_inv_def split: if_splits)
next
  case (confirm c s now p n)
  let ?es = "case full_pending_evict c of None \<Rightarrow> full_entries c
      | Some h \<Rightarrow> (case find_full_entry c h of None \<Rightarrow> full_entries c | Some idx \<Rightarrow> remove_nth idx (full_entries c))"
  have sub: "set ?es \<subseteq> set (full_entries c)" using set_remove_nth_subset by (fastforce split: option.splits)
  have d: "distinct (map fe_slot ?es)" using confirm
    by (auto simp: full_inv_def map_remove_nth distinct_remove_nth split: option.splits)
  have "full_entries (confirm_full_snap H now c s p n) = filter (\<lambda>e. fe_slot e \<noteq> s) ?es @
     [\<lparr>fe_hash = H p (int (length p)), fe_slot = s, fe_cur_ids_len = n, fe_raw_prompt_len = int (length p), fe_last_used_ns = now, fe_hits = 0\<rparr>]"
    using confirm by (simp add: confirm_full_snap_def Let_def drop_full_slot_filter)
  moreover have "full_disabled (confirm_full_snap H now c s p n) = full_disabled c" "cap (confirm_full_snap H now c s p n) = cap c"
    "full_cap (confirm_full_snap H now c s p n) = full_cap c" "full_slot_base (confirm_full_snap H now c s p n) = full_slot_base c"
    "full_next_slot (confirm_full_snap H now c s p n) = full_next_slot c"
    by (simp_all add: confirm_full_snap_def Let_def)
  ultimately show ?case using confirm sub d by (auto simp: full_inv_def distinct_map_filter)
next
  case (abort c s)
  then show ?case by (auto simp: abort_full_snap_def full_inv_def drop_full_slot_filter distinct_map_filter)
qed

text \<open>
  The full-prompt cache only hands out slots of its own range: after the inline slots and below the
  staging slot 63, so that no inline snapshot and no disk staging can be overwritten; and what is confirmed under a prepared slot is
  what the exact-match lookup of that prompt returns.
\<close>

theorem full_cache_slots_and_roundtrip:
  assumes "full_reachable H c None" and pr: "prepare_full_snap H c p = (s, c')" and ok: "0 \<le> s"
  shows "cap c \<le> s \<and> s < MAX_SLOTS - 1 \<and> fst (lookup_full H now (confirm_full_snap H t c' s p n) p) = (s, n)"
proof -
  have inv: "full_inv c" using full_reachable_inv [OF assms(1)] by simp
  have "full_reachable H c' (Some s)" using full_reachable.prepare [OF assms(1) pr] ok by simp
  from full_reachable_inv [OF this]
  have c': "full_inv c'" "\<not> full_disabled c'" "full_slot_base c' \<le> s" "s < full_slot_base c' + full_cap c'" by auto
  have same: "cap c' = cap c" "full_entries c' = full_entries c" "find_full_entry c (H p (int (length p))) = None" "\<not> full_disabled c"
    using pr ok by (auto simp: prepare_full_snap_def split: if_splits)
  have range: "cap c \<le> s" "s < MAX_SLOTS - 1" using c' same(1) by (auto simp: full_inv_def MAX_CACHE_SLOTS_def)
  let ?key = "H p (int (length p))"
  let ?es = "case full_pending_evict c' of None \<Rightarrow> full_entries c'
      | Some h \<Rightarrow> (case find_full_entry c' h of None \<Rightarrow> full_entries c' | Some idx \<Rightarrow> remove_nth idx (full_entries c'))"
  let ?e = "\<lparr>fe_hash = ?key, fe_slot = s, fe_cur_ids_len = n, fe_raw_prompt_len = int (length p), fe_last_used_ns = t, fe_hits = 0\<rparr>"
  have sub: "set ?es \<subseteq> set (full_entries c)" using set_remove_nth_subset same(2) by (fastforce split: option.splits)
  have es: "full_entries (confirm_full_snap H t c' s p n) = filter (\<lambda>e. fe_slot e \<noteq> s) ?es @ [?e]"
    using c'(2) by (simp add: confirm_full_snap_def Let_def drop_full_slot_filter)
  have "\<forall>e \<in> set (filter (\<lambda>e. fe_slot e \<noteq> s) ?es). fe_hash e \<noteq> ?key"
    using sub same(3) by (auto simp: find_full_entry_def index_of_None_iff)
  then have "find_full_entry (confirm_full_snap H t c' s p n) ?key = Some (length (filter (\<lambda>e. fe_slot e \<noteq> s) ?es))"
    unfolding find_full_entry_def es by (intro index_of_snoc) simp_all
  then have "fst (lookup_full H now (confirm_full_snap H t c' s p n) p) = (s, n)"
    using c'(2) by (simp add: lookup_full_def es Let_def) (simp add: confirm_full_snap_def Let_def)
  then show ?thesis using range by simp
qed

theorem full_cache_slots_and_roundtrip_witness:
  "fst (prepare_full_snap plain_key (init_full_cache demo_cache 3) [4, 4]) = 2 \<and>
   fst (lookup_full plain_key 9 (confirm_full_snap plain_key 5 (snd (prepare_full_snap plain_key (init_full_cache demo_cache 3) [4, 4])) 2 [4, 4] 2) [4, 4]) = (2, 2)"
proof -
  have "full_entries demo_cache = []" "full_disabled demo_cache"
    by (simp_all add: demo_cache_def new_prefix_cache_def Let_def split: prod.split)
  then have r: "full_reachable plain_key (init_full_cache demo_cache 3) None" by (rule full_reachable.start)
  have s: "fst (prepare_full_snap plain_key (init_full_cache demo_cache 3) [4, 4]) = 2" by code_simp
  then have "prepare_full_snap plain_key (init_full_cache demo_cache 3) [4, 4] = (2, snd (prepare_full_snap plain_key (init_full_cache demo_cache 3) [4, 4]))"
    by (metis prod.collapse)
  from full_cache_slots_and_roundtrip [OF r this] s show ?thesis by simp
qed

end
