(* ===== verification/Prefix_Capture_Txn.thy ===== *)
theory Prefix_Capture_Txn
  imports Prefix_Cache_Props Prefix_Store
begin

text \<open>
  One prefix capture of the continuous-batching scheduler (\<open>server/kv/parallel_prefix_txn.h\<close>,
  \<open>server/kv/checkpoint.h\<close>): the object that owns a reservation of the prefix cache and resolves it with
  what the engine reports about the checkpoint. It composes the cache (\<open>Prefix_Cache_Ops\<close>) with the
  checkpoint protocol (\<open>Prefix_Store\<close>). The engine itself is not part of the model; its one call,
  \<open>discard_prefix_store\<close>, is returned as the list of checkpoints to discard.
\<close>

section \<open>Checkpoints\<close>

record Checkpoint = cp_id :: "32 word"

definition checkpoint_valid :: "Checkpoint \<Rightarrow> bool" where
  "checkpoint_valid k \<longleftrightarrow> cp_id k \<noteq> 0"

definition of_cache_slot :: "int \<Rightarrow> Checkpoint" where
  "of_cache_slot slot = \<lparr>cp_id = (if slot < 0 then 0 else word_of_int slot + 1)\<rparr>"

definition cache_slot :: "Checkpoint \<Rightarrow> int" where
  "cache_slot k = (if checkpoint_valid k then sint (cp_id k) - 1 else -1)"

section \<open>The transaction\<close>

text \<open>\<open>txn_engine\<close> is whether the engine pointer is set.\<close>

record 'h PrefixCaptureTxn =
  txn_reservation :: "'h InlineReservation"
  txn_engine :: bool
  txn_ticket :: PrefixCaptureTicket

datatype Resolution = Inactive | Saved | Failed | Mismatched

definition new_txn :: "'h InlineReservation \<Rightarrow> PrefixCaptureTicket \<Rightarrow> 'h PrefixCaptureTxn" where
  "new_txn r t = \<lparr>txn_reservation = r, txn_engine = True, txn_ticket = t\<rparr>"

definition txn_active :: "'h PrefixCache \<Rightarrow> 'h PrefixCaptureTxn \<Rightarrow> bool" where
  "txn_active c x \<longleftrightarrow> txn_engine x \<and> ticket_valid (txn_ticket x) \<and> reservation_active c (txn_reservation x) \<and>
     ref_equal (checkpoint (txn_ticket x))
       \<lparr>ref_id = ucast (cp_id (of_cache_slot (ir_slot (txn_reservation x)))), ref_tokens = ir_target_cut (txn_reservation x)\<rparr>"

definition target_tokens :: "'h PrefixCache \<Rightarrow> 'h PrefixCaptureTxn \<Rightarrow> int" where
  "target_tokens c x = (if txn_active c x then ref_tokens (checkpoint (txn_ticket x)) else 0)"

definition txn_clear :: "'h PrefixCaptureTxn \<Rightarrow> 'h PrefixCaptureTxn" where
  "txn_clear x = x\<lparr>txn_engine := False, txn_ticket := default_ticket\<rparr>"

definition txn_cancel :: "'h PrefixCache \<Rightarrow> 'h PrefixCaptureTxn \<Rightarrow> 'h PrefixCache \<times> 'h PrefixCaptureTxn" where
  "txn_cancel c x =
     (let (c', r) = cancel_reservation c (txn_reservation x) in (c', txn_clear (x\<lparr>txn_reservation := r\<rparr>)))"

definition discard_saved ::
  "'h PrefixCache \<Rightarrow> 'h PrefixCaptureTxn \<Rightarrow> PrefixStoreRef list \<times> 'h PrefixCache \<times> 'h PrefixCaptureTxn" where
  "discard_saved c x =
     (let (c', r) = abort_reservation c (txn_reservation x)
      in ([checkpoint (txn_ticket x)], c', txn_clear (x\<lparr>txn_reservation := r\<rparr>)))"

text \<open>The resolution, the checkpoints the engine discards, the cache and the transaction afterwards.\<close>

definition resolve ::
  "'h keyfun \<Rightarrow> 'h PrefixCache \<Rightarrow> 'h PrefixCaptureTxn \<Rightarrow> PrefixStoreEvent \<Rightarrow> token list \<Rightarrow>
     Resolution \<times> PrefixStoreRef list \<times> 'h PrefixCache \<times> 'h PrefixCaptureTxn" where
  "resolve H c x event prompt =
     (if \<not> txn_active c x then (Inactive, [], c, x)
      else if \<not> attempted event \<or> \<not> ticket_equal (ev_ticket event) (txn_ticket x) then
        (if ev_status event = EvSaved then (Mismatched, discard_saved c x)
         else (Mismatched, [], txn_cancel c x))
      else if ev_status event = EvSaved then
        (let (committed, c', r) = commit H c (txn_reservation x) prompt (ev_bytes event) False
         in (if committed then Saved else Failed, [], c', txn_clear (x\<lparr>txn_reservation := r\<rparr>)))
      else if ev_status event = EvFailed then (Failed, [], txn_cancel c x)
      else (Mismatched, [], txn_cancel c x))"

section \<open>Lemmas\<close>

text \<open>A backend slot and the checkpoint id it is known by name each other.\<close>

lemma cache_slot_of_cache_slot:
  assumes "0 \<le> slot" "slot < 2147483647"
  shows "cache_slot (of_cache_slot slot) = slot"
proof -
  have "word_of_int slot + 1 = (word_of_int (slot + 1) :: 32 word)" by simp
  moreover have "sint (word_of_int (slot + 1) :: 32 word) = slot + 1" 
    unfolding signed_of_int using assms by (simp add: signed_take_bit_int_eq_self)
  ultimately show ?thesis using assms by (auto simp: cache_slot_def of_cache_slot_def checkpoint_valid_def)
qed

lemma no_reservation_inactive: "\<not> reservation_active c no_reservation"
  by (simp add: reservation_active_def no_reservation_def)

lemma cleared_inactive: "\<not> txn_active c (txn_clear x)"
  by (simp add: txn_active_def txn_clear_def)

lemma release_owned:
  assumes "owns c r a"
  shows "\<exists>k < length (active_reservations c). a = active_reservations c ! k \<and>
    release_inline_reservation c (ir_id r) = c\<lparr>active_reservations := remove_nth k (active_reservations c)\<rparr>"
proof -
  have "find_active_reservation c (ir_id r) = Some a" using assms by (simp add: owns_def)
  then obtain k where "index_of (\<lambda>b. ar_id b = ir_id r) (active_reservations c) = Some k"
    "k < length (active_reservations c)" "a = active_reservations c ! k" by (rule find_active_index)
  then show ?thesis by (auto simp: release_inline_reservation_def)
qed

lemma abort_owned:
  assumes inv: "cache_inv H c" and own: "owns c r a"
  shows "\<exists>k l. k < length (active_reservations c) \<and> a = active_reservations c ! k \<and>
    abort_reservation c r =
      ((keep_entries c (filter (\<lambda>e. le_slot e \<noteq> ir_slot r) (entries c)) l)
         \<lparr>active_reservations := remove_nth k (active_reservations c)\<rparr>, no_reservation)"
proof -
  obtain l where l: "drop_slot_entries False (ir_slot r) (length (entries c)) c =
      keep_entries c (filter (\<lambda>e. le_slot e \<noteq> ir_slot r) (entries c)) l"
    using drop_all_normal [OF cache_inv_bytes [OF inv]] by blast
  let ?c = "keep_entries c (filter (\<lambda>e. le_slot e \<noteq> ir_slot r) (entries c)) l"
  have "owns ?c r a" using own by (auto simp: owns_def find_active_reservation_def split: if_splits)
  from release_owned [OF this] show ?thesis
    using owns_active [OF own] l by (auto simp: abort_reservation_def abort_inline_reservation_def)
qed

text \<open>The other captures in flight, in their order.\<close>

definition others :: "'h PrefixCache \<Rightarrow> 'h InlineReservation \<Rightarrow> 'h ActiveReservation list" where
  "others c r = filter (\<lambda>a. ar_id a \<noteq> ir_id r) (active_reservations c)"

lemma remove_owned:
  assumes "ids_inv c" "owns c r a" "k < length (active_reservations c)" "a = active_reservations c ! k"
  shows "remove_nth k (active_reservations c) = others c r"
proof -
  let ?xs = "active_reservations c"
  have d: "distinct (map ar_id ?xs)" using assms(1) by (simp add: ids_inv_def)
  have id: "ar_id (?xs ! k) = ir_id r" using assms(2,4)
    by (auto simp: owns_def find_active_reservation_def split: if_splits dest: find_SomeD)
  have xs: "?xs = take k ?xs @ ?xs ! k # drop (Suc k) ?xs" using assms(3) by (simp add: id_take_nth_drop)
  have "ir_id r \<notin> ar_id ` set (take k ?xs)" "ir_id r \<notin> ar_id ` set (drop (Suc k) ?xs)"
    using d id by (subst (asm) xs, force)+
  then have "filter (\<lambda>a. ar_id a \<noteq> ir_id r) (take k ?xs) = take k ?xs"
    "filter (\<lambda>a. ar_id a \<noteq> ir_id r) (drop (Suc k) ?xs) = drop (Suc k) ?xs" 
    unfolding filter_id_conv by (metis imageI)+
  then have "filter (\<lambda>a. ar_id a \<noteq> ir_id r) (take k ?xs @ ?xs ! k # drop (Suc k) ?xs) = take k ?xs @ drop (Suc k) ?xs"
    using id by simp
  then show ?thesis using xs by (simp add: others_def remove_nth_def)
qed

lemma commit_owned:
  assumes "cache_inv H c" "ids_inv c" "owns c r a" "0 < n" "n \<le> ir_target_cut r" "n \<le> int (length prompt)"
  shows "\<exists>C. commit_inline_reservation H c r prompt n bytes protect = (True, C, no_reservation) \<and>
    active_reservations C = others c r \<and>
    (\<exists>e \<in> set (entries C). le_slot e = ir_slot r \<and> le_ids e = take (nat n) prompt \<and> le_resident_bytes e = bytes)"
proof -
  obtain es b l k where k: "k < length (active_reservations c)" "a = active_reservations c ! k" and
    cm: "commit_inline_reservation H c r prompt n bytes protect =
       (True, c\<lparr>entries := es @ [new_entry H (ir_slot r) n prompt (protect \<or> ir_protect r) bytes],
          resident_bytes := b, evicted_log := l, active_reservations := remove_nth k (active_reservations c)\<rparr>, no_reservation)"
    using commit_normal [OF assms(1,3-6), of bytes protect] by blast
  show ?thesis unfolding cm using remove_owned [OF assms(2,3) k] by simp
qed

lemma cancel_owned:
  assumes "ids_inv c" "owns c (txn_reservation x) a"
  shows "txn_cancel c x = (c\<lparr>active_reservations := others c (txn_reservation x)\<rparr>, txn_clear (x\<lparr>txn_reservation := no_reservation\<rparr>))"
proof -
  obtain k where k: "k < length (active_reservations c)" "a = active_reservations c ! k"
    "release_inline_reservation c (ir_id (txn_reservation x)) = c\<lparr>active_reservations := remove_nth k (active_reservations c)\<rparr>"
    using release_owned [OF assms(2)] by blast
  then show ?thesis using assms(2) remove_owned [OF assms k(1,2)] by (simp add: txn_cancel_def cancel_reservation_def owns_def)
qed

lemma resolve_owned:
  assumes ci: "cache_inv H c" and ids: "ids_inv c" and own: "owns c (txn_reservation x) a" and cut: "0 < ir_target_cut (txn_reservation x)"
    and act: "txn_active c x" and res: "resolve H c x event prompt = (out, gone, c', x')"
  shows "x' = txn_clear (x\<lparr>txn_reservation := no_reservation\<rparr>) \<and> active_reservations c' = others c (txn_reservation x) \<and> out \<noteq> Inactive \<and>
    gone = (if ev_status event = EvSaved \<and> ev_ticket event \<noteq> txn_ticket x then [checkpoint (txn_ticket x)] else []) \<and>
    (out = Saved \<longleftrightarrow> ev_status event = EvSaved \<and> ev_ticket event = txn_ticket x \<and> ir_target_cut (txn_reservation x) \<le> int (length prompt)) \<and>
    (if out = Saved then \<exists>e \<in> set (entries c'). le_slot e = ir_slot (txn_reservation x) \<and>
         le_ids e = take (nat (ir_target_cut (txn_reservation x))) prompt \<and> le_resident_bytes e = ev_bytes event
     else entries c' = (if ev_status event = EvSaved then filter (\<lambda>e. le_slot e \<noteq> ir_slot (txn_reservation x)) (entries c) else entries c))"
proof -
  let ?r = "txn_reservation x" and ?x = "txn_clear (x\<lparr>txn_reservation := no_reservation\<rparr>)"
  have ra: "reservation_active c ?r" using act by (simp add: txn_active_def)
  obtain D where D: "abort_reservation c ?r = (D, no_reservation)" "active_reservations D = others c ?r"
      "entries D = filter (\<lambda>e. le_slot e \<noteq> ir_slot ?r) (entries c)"
    using abort_owned [OF ci own] remove_owned [OF ids own] by fastforce
  consider (other) "ev_status event = EvSaved" "ev_ticket event \<noteq> txn_ticket x"
    | (unsaved) "ev_status event \<noteq> EvSaved"
    | (short) "ev_ticket event = txn_ticket x" "ev_status event = EvSaved" "int (length prompt) < ir_target_cut ?r"
    | (fits) "ev_ticket event = txn_ticket x" "ev_status event = EvSaved" "ir_target_cut ?r \<le> int (length prompt)" by linarith
  then show ?thesis
  proof cases
    case other
    then have "resolve H c x event prompt = (Mismatched, [checkpoint (txn_ticket x)], D, ?x)"
      using act by (simp add: resolve_def discard_saved_def D(1))
    then show ?thesis using res other D(2,3) by simp
  next
    case unsaved
    then have "resolve H c x event prompt =
        (if ev_status event = EvFailed \<and> ev_ticket event = txn_ticket x then Failed else Mismatched, [], c\<lparr>active_reservations := others c ?r\<rparr>, ?x)"
      using act by (cases "ev_status event") (simp_all add: resolve_def attempted_def cancel_owned [OF ids own])
    then show ?thesis using res unsaved by (auto split: if_splits)
  next
    case short
    then have "commit H c ?r prompt (ev_bytes event) False = (False, abort_reservation c ?r)"
      using ra by (simp add: commit_def commit_inline_reservation_def)
    then have "resolve H c x event prompt = (Failed, [], D, ?x)" using short act by (simp add: resolve_def attempted_def D(1))
    then show ?thesis using res short D(2,3) by simp
  next
    case fits
    obtain C where C: "commit_inline_reservation H c ?r prompt (ir_target_cut ?r) (ev_bytes event) False = (True, C, no_reservation)"
      "active_reservations C = others c ?r" "\<exists>e \<in> set (entries C). le_slot e = ir_slot ?r \<and>
         le_ids e = take (nat (ir_target_cut ?r)) prompt \<and> le_resident_bytes e = ev_bytes event"
      using commit_owned [OF ci ids own cut order_refl fits(3)] by blast
    have "resolve H c x event prompt = (Saved, [], C, ?x)"
      using act ra fits C(1) by (simp add: resolve_def attempted_def commit_def)
    then show ?thesis using res fits C(2,3) by simp
  qed
qed

section \<open>Properties\<close>

text \<open>
  C29. A capture resolves exactly once and touches nothing of the others. For an active transaction of a
  reachable cache and any event: a matching saved event whose cut lies in the prompt commits the entry of the capture's own slot and
  reports Saved; in every other case the metadata changes at most by dropping the
  capture's own slot, and the payload is discarded exactly when a mismatching event says it was saved, under the transaction's own
  checkpoint. In all cases the other captures in flight stay as they were, the transaction is inactive
  afterwards and a further event changes nothing.
\<close>

theorem capture_resolves_once:
  assumes keys: "prefix_keys H" and reach: "pc_reachable H env cap0 tok budget (c, hs)" and r: "txn_reservation x \<in> set hs"
    and act: "txn_active c x" and res: "resolve H c x event prompt = (out, gone, c', x')"
  shows "out \<noteq> Inactive \<and> active_reservations c' = others c (txn_reservation x) \<and> \<not> txn_active c' x' \<and>
    resolve H c' x' event2 prompt2 = (Inactive, [], c', x') \<and>
    gone = (if ev_status event = EvSaved \<and> ev_ticket event \<noteq> txn_ticket x then [checkpoint (txn_ticket x)] else []) \<and>
    (out = Saved \<longleftrightarrow> ev_status event = EvSaved \<and> ev_ticket event = txn_ticket x \<and> target_tokens c x \<le> int (length prompt)) \<and>
    (if out = Saved then \<exists>e \<in> set (entries c'). le_slot e = ir_slot (txn_reservation x) \<and>
         le_ids e = take (nat (target_tokens c x)) prompt \<and> le_resident_bytes e = ev_bytes event
     else entries c' = (if ev_status event = EvSaved then filter (\<lambda>e. le_slot e \<noteq> ir_slot (txn_reservation x)) (entries c) else entries c))"
proof -
  let ?r = "txn_reservation x" and ?x = "txn_clear (x\<lparr>txn_reservation := no_reservation\<rparr>)"
  have inv: "pc_inv H (c, hs)" by (rule prefix_keys.reachable_inv [OF keys reach])
  then have ci: "cache_inv H c" and ids: "ids_inv c" and hk: "handle_ok c ?r" using r by (auto simp: pc_inv_def)
  have ra: "reservation_active c ?r" using act by (simp add: txn_active_def)
  obtain a where own: "owns c ?r a" using handle_owns [OF hk ra] by blast
  have tt: "target_tokens c x = ir_target_cut ?r" "0 < ir_target_cut ?r"
    using act hk by (auto simp: target_tokens_def txn_active_def handle_ok_def)
  have x': "x' = ?x" and c': "active_reservations c' = others c ?r"
    and rest: "out \<noteq> Inactive" "gone = (if ev_status event = EvSaved \<and> ev_ticket event \<noteq> txn_ticket x then [checkpoint (txn_ticket x)] else [])"
      "out = Saved \<longleftrightarrow> ev_status event = EvSaved \<and> ev_ticket event = txn_ticket x \<and> ir_target_cut ?r \<le> int (length prompt)"
      "if out = Saved then \<exists>e \<in> set (entries c'). le_slot e = ir_slot ?r \<and> le_ids e = take (nat (ir_target_cut ?r)) prompt \<and> le_resident_bytes e = ev_bytes event
       else entries c' = (if ev_status event = EvSaved then filter (\<lambda>e. le_slot e \<noteq> ir_slot ?r) (entries c) else entries c)"
    using resolve_owned [OF ci ids own tt(2) act res] by blast+
  have "\<not> txn_active c' x' \<and> resolve H c' x' event2 prompt2 = (Inactive, [], c', x')"
    unfolding x' using cleared_inactive by (simp add: resolve_def)
  then show ?thesis using c' rest unfolding tt(1) by blast
qed

definition demo_ticket :: PrefixCaptureTicket where
  "demo_ticket = \<lparr>ticket_id = 1, checkpoint = \<lparr>ref_id = 1, ref_tokens = 6\<rparr>\<rparr>"

definition demo_event :: PrefixStoreEvent where
  "demo_event = \<lparr>ev_status = EvSaved, ev_ticket = demo_ticket, ev_error = [], ev_bytes = 100, ev_elapsed_us = 7\<rparr>"

theorem capture_resolves_once_witness:
  "fst (resolve plain_key (snd demo_reserved) (new_txn (fst demo_reserved) demo_ticket) demo_event demo_prompt) = Saved \<and>
   active_reservations (fst (snd (snd (resolve plain_key (snd demo_reserved) (new_txn (fst demo_reserved) demo_ticket) demo_event demo_prompt)))) = []"
proof -
  let ?x = "new_txn (fst demo_reserved) demo_ticket"
  let ?res = "resolve plain_key (snd demo_reserved) ?x demo_event demo_prompt"
  have h: "txn_reservation ?x = fst demo_reserved" by (simp add: new_txn_def)
  have act: "txn_active (snd demo_reserved) ?x" by code_simp
  have saved: "fst ?res = Saved" by code_simp
  have none: "others (snd demo_reserved) (fst demo_reserved) = []" by code_simp
  have "?res = (fst ?res, fst (snd ?res), fst (snd (snd ?res)), snd (snd (snd ?res)))" by simp
  from capture_resolves_once [OF plain_key_law demo_reserved_reachable _ act this, unfolded h] saved none show ?thesis by simp
qed

end
