(* ===== verification/Request_Budget.thy ===== *)
theory Request_Budget
  imports Thinking_Budget
begin

text \<open>
  The token budget of a request: the admission gate (\<open>server/admission.h\<close>) and its use by the HTTP server
  (\<open>server/http_server.cpp\<close>), from the output cap a client asks for over the thinking and reply budgets
  to the generation cap and the hard limit the thinking-budget controller is started with. Token counts are C++ \<open>int\<close>s whose sums stay
  in range (both summands are bounded by the configuration), the JSON body is a lookup function and log output is not modelled.
\<close>

section \<open>Admission\<close>

definition kPFlashScoringBytesPerToken :: int where
  "kPFlashScoringBytesPerToken = 56 * 1024"

definition pflash_concurrent_reserve_bytes :: "int \<Rightarrow> int \<Rightarrow> int" where
  "pflash_concurrent_reserve_bytes drafter_weight_bytes max_prompt_tokens =
     max 0 drafter_weight_bytes + max 0 max_prompt_tokens * kPFlashScoringBytesPerToken"

definition fit_reply_to_context :: "int \<Rightarrow> int \<Rightarrow> int \<Rightarrow> int" where
  "fit_reply_to_context prompt_tokens max_output max_ctx = max 0 (min max_output (max_ctx - prompt_tokens))"

definition image_output_reserve :: "int \<Rightarrow> int \<Rightarrow> int" where
  "image_output_reserve max_output hard_limit_reply_budget = max 0 (min max_output hard_limit_reply_budget)"

definition trims_reply :: "bool \<Rightarrow> bool \<Rightarrow> bool \<Rightarrow> bool" where
  "trims_reply routed client_sized_reply pflash_will_run \<longleftrightarrow> \<not> pflash_will_run \<and> (\<not> routed \<or> \<not> client_sized_reply)"

definition should_reject_oversized :: "int \<Rightarrow> int \<Rightarrow> int \<Rightarrow> bool \<Rightarrow> bool" where
  "should_reject_oversized prompt_tokens max_output max_ctx compression_enabled =
     (if prompt_tokens + max_output \<le> max_ctx then False
      else if \<not> compression_enabled then True
      else prompt_tokens > max_ctx)"

definition effective_prompt_overflows :: "int \<Rightarrow> int \<Rightarrow> int \<Rightarrow> int \<Rightarrow> bool" where
  "effective_prompt_overflows effective_tokens served_from_cache_tokens max_output max_ctx =
     (let check_tokens = (if served_from_cache_tokens \<ge> 0 then served_from_cache_tokens else effective_tokens)
      in check_tokens + max_output > max_ctx)"

section \<open>The HTTP server's use of it\<close>

text \<open>A field of the request body: an integer, or a value \<open>get<int>\<close> raises on.\<close>

datatype json_field = JInt int | JOther
datatype request_error = TypeError

definition field_or_default :: "json_field \<Rightarrow> int \<Rightarrow> request_error + int" where
  "field_or_default f default_max_tokens =
     (case f of JInt value \<Rightarrow> Inr (if value > 0 then value else default_max_tokens) | JOther \<Rightarrow> Inl TypeError)"

definition resolve_max_output_tokens :: "(string \<Rightarrow> json_field option) \<Rightarrow> int \<Rightarrow> request_error + int" where
  "resolve_max_output_tokens body default_max_tokens =
     (case body ''max_tokens'' of Some f \<Rightarrow> field_or_default f default_max_tokens
      | None \<Rightarrow> (case body ''max_output_tokens'' of Some f \<Rightarrow> field_or_default f default_max_tokens
      | None \<Rightarrow> (case body ''max_completion_tokens'' of Some f \<Rightarrow> field_or_default f default_max_tokens
      | None \<Rightarrow> Inr default_max_tokens)))"

text \<open>The request fields and the server settings the budget depends on.\<close>

record BudgetRequest =
  max_output :: int
  max_output_from_client :: bool
  thinking_opt_in :: bool
  per_req_phase1_cap :: int
  per_req_reply_budget :: int

record BudgetConfig =
  default_max_tokens :: int
  max_ctx :: int
  think_max_tokens :: int
  hard_limit_reply_budget :: int
  think_close_token_ids :: "token list"
  think_marker_token_ids :: "token list"

definition parse_output_cap ::
  "BudgetConfig \<Rightarrow> (string \<Rightarrow> json_field option) \<Rightarrow> BudgetRequest \<Rightarrow> request_error + BudgetRequest" where
  "parse_output_cap config body req =
     (case resolve_max_output_tokens body (default_max_tokens config) of
        Inl e \<Rightarrow> Inl e
      | Inr n \<Rightarrow>
          (case resolve_max_output_tokens body 0 of
             Inl e \<Rightarrow> Inl e
           | Inr given \<Rightarrow>
               Inr (req\<lparr>max_output := (if n > default_max_tokens config then default_max_tokens config else n),
                        max_output_from_client := given > 0\<rparr>)))"

text \<open>
  The thinking caps of a request. \<open>request_budget_tokens\<close> and \<open>request_reply_budget\<close> are -1 when the client sets none,
  \<open>effort\<close> is the cap of its effort tier, if it chose one.
\<close>

definition resolve_thinking_caps :: "BudgetConfig \<Rightarrow> int \<Rightarrow> int \<Rightarrow> int option \<Rightarrow> BudgetRequest \<Rightarrow> BudgetRequest" where
  "resolve_thinking_caps config request_budget_tokens request_reply_budget effort req =
     (let req1 =
        (if thinking_opt_in req \<and> request_budget_tokens \<ge> 0
         then req\<lparr>per_req_phase1_cap := min request_budget_tokens (think_max_tokens config)\<rparr>
         else if thinking_opt_in req \<and> effort \<noteq> None
         then let reply_reserve = reply_reserve_within (hard_limit_reply_budget config) (max_output req);
                  room = max 0 (max_output req - reply_reserve)
              in req\<lparr>per_req_phase1_cap := min (the effort) room\<rparr>
         else req)
      in if thinking_opt_in req \<and> request_reply_budget \<ge> 0
         then req1\<lparr>per_req_reply_budget := min request_reply_budget (hard_limit_reply_budget config)\<rparr>
         else req1)"

text \<open>The context gate; \<open>pflash_will_run\<close> is computed from the prompt and the configuration.\<close>

definition validate_request_context :: "BudgetConfig \<Rightarrow> int \<Rightarrow> bool \<Rightarrow> bool \<Rightarrow> BudgetRequest \<Rightarrow> bool \<times> BudgetRequest" where
  "validate_request_context config prompt_tokens pflash_will_run routed req =
     (let req1 =
        (if trims_reply routed (max_output_from_client req) pflash_will_run
         then let fitted = fit_reply_to_context prompt_tokens (max_output req) (max_ctx config)
              in if fitted > 0 \<and> fitted < max_output req then req\<lparr>max_output := fitted\<rparr> else req
         else req)
      in (\<not> should_reject_oversized prompt_tokens (max_output req1) (max_ctx config) pflash_will_run, req1))"

datatype PflashFallbackDecision = Fallback | Refused string

definition pflash_failure_is_config_error :: "string \<Rightarrow> bool" where
  "pflash_failure_is_config_error error \<longleftrightarrow>
     prefix ''invalid PFlash strict selection config'' error \<or>
     prefix ''PFlash pflash_required needs strict budget selection'' error"

definition pflash_fallback_decision :: "string \<Rightarrow> bool \<Rightarrow> int \<Rightarrow> int \<Rightarrow> int \<Rightarrow> PflashFallbackDecision" where
  "pflash_fallback_decision error fail_closed raw_prompt_tokens reply ctx =
     (if fail_closed then Refused ''fail_closed''
      else if pflash_failure_is_config_error error then Refused ''config_error''
      else if effective_prompt_overflows raw_prompt_tokens (-1) reply ctx then Refused ''raw_exceeds_max_ctx''
      else Fallback)"

text \<open>The generation cap and the budget hook a request is decoded with; the loop settings are the hook's defaults.\<close>

definition reply_budget_of :: "BudgetConfig \<Rightarrow> BudgetRequest \<Rightarrow> int" where
  "reply_budget_of config req =
     reply_reserve_within (if per_req_reply_budget req \<ge> 0 then per_req_reply_budget req else hard_limit_reply_budget config)
       (max_output req)"

definition generation_cap :: "BudgetConfig \<Rightarrow> BudgetRequest \<Rightarrow> int" where
  "generation_cap config req =
     (let thinking_ceiling = (if per_req_phase1_cap req \<ge> 0 then per_req_phase1_cap req else think_max_tokens config) in
      if thinking_opt_in req then min (thinking_ceiling + reply_budget_of config req) (max_output req) else max_output req)"

definition default_hook :: BudgetHook where
  "default_hook = \<lparr>close_token_ids = [], marker_token_ids = [], hard_limit_remaining = 0, loop_span = 64, loop_repeats = 0\<rparr>"

definition request_hook :: "BudgetConfig \<Rightarrow> BudgetRequest \<Rightarrow> BudgetHook" where
  "request_hook config req =
     (if thinking_opt_in req \<and> think_close_token_ids config \<noteq> [] \<and> hard_limit_reply_budget config > 0
      then default_hook\<lparr>close_token_ids := think_close_token_ids config, marker_token_ids := think_marker_token_ids config,
             hard_limit_remaining := reply_budget_of config req\<rparr>
      else default_hook)"

section \<open>Lemmas\<close>

lemma reply_reserve_bounds:
  assumes "0 \<le> reserve" "0 \<le> out"
  shows "0 \<le> reply_reserve_within reserve out \<and> reply_reserve_within reserve out \<le> reserve \<and>
    2 * reply_reserve_within reserve out \<le> out"
  using assms by (auto simp: reply_reserve_within_def Let_def)

lemma resolve_max_output_positive:
  "0 < d \<Longrightarrow> resolve_max_output_tokens body d = Inr n \<Longrightarrow> 0 < n"
  by (auto simp: resolve_max_output_tokens_def field_or_default_def split: option.splits json_field.splits if_splits)

lemma parse_output_cap_range:
  "0 < default_max_tokens config \<Longrightarrow> parse_output_cap config body req0 = Inr req \<Longrightarrow>
     0 < max_output req \<and> max_output req \<le> default_max_tokens config"
  by (auto simp: parse_output_cap_def dest: resolve_max_output_positive split: sum.splits if_splits)

lemma thinking_caps_keep [simp]:
  "max_output (resolve_thinking_caps config bt rb effort req) = max_output req"
  "max_output_from_client (resolve_thinking_caps config bt rb effort req) = max_output_from_client req"
  "thinking_opt_in (resolve_thinking_caps config bt rb effort req) = thinking_opt_in req"
  by (simp_all add: resolve_thinking_caps_def Let_def)

text \<open>
  What the server lets a request think: the tokens the client asks for, cut to \<open>think_max_tokens\<close>; else the value of its effort tier
  (which may exceed \<open>think_max_tokens\<close>) cut to what the reply reserve leaves of the requested output; else \<open>think_max_tokens\<close>.
\<close>

definition thinking_limit :: "BudgetConfig \<Rightarrow> int \<Rightarrow> int option \<Rightarrow> int \<Rightarrow> int" where
  "thinking_limit config request_budget_tokens effort max_out =
     (if request_budget_tokens \<ge> 0 then min request_budget_tokens (think_max_tokens config)
      else case effort of
        Some tier \<Rightarrow> min tier (max_out - reply_reserve_within (hard_limit_reply_budget config) max_out)
      | None \<Rightarrow> think_max_tokens config)"

definition thinking_ceiling :: "BudgetConfig \<Rightarrow> BudgetRequest \<Rightarrow> int" where
  "thinking_ceiling config req = (if per_req_phase1_cap req \<ge> 0 then per_req_phase1_cap req else think_max_tokens config)"

lemma thinking_ceiling_limit:
  assumes "\<forall>e. effort = Some e \<longrightarrow> 0 \<le> e" "0 \<le> think_max_tokens config" "0 \<le> hard_limit_reply_budget config" "0 < max_output req"
    "per_req_phase1_cap req = -1" "thinking_opt_in req"
  shows "thinking_ceiling config (resolve_thinking_caps config bt rb effort req) = thinking_limit config bt effort (max_output req) \<and>
    0 \<le> thinking_limit config bt effort (max_output req)"
proof -
  have "reply_reserve_within (hard_limit_reply_budget config) (max_output req) \<le> max_output req"
    using reply_reserve_bounds [OF assms(3), of "max_output req"] assms(4) by simp
  then show ?thesis using assms
    by (cases effort) (auto simp: thinking_ceiling_def thinking_limit_def resolve_thinking_caps_def Let_def min_def max_def)
qed

lemma validate_cases:
  assumes "validate_request_context config prompt False routed req = (ok, req2)"
  shows "(req2 = req \<or> req2 = req\<lparr>max_output := max_ctx config - prompt\<rparr> \<and> 0 < max_ctx config - prompt \<and> max_ctx config - prompt < max_output req) \<and>
    (ok \<longleftrightarrow> prompt + max_output req2 \<le> max_ctx config) \<and>
    (\<not> routed \<longrightarrow> 0 < max_output req \<longrightarrow> prompt < max_ctx config \<longrightarrow> ok)"
  using assms by (auto simp: validate_request_context_def trims_reply_def fit_reply_to_context_def should_reject_oversized_def Let_def
      max_def min_def split: if_splits)

lemma generation_range:
  assumes out: "0 < max_output req" and c: "0 \<le> thinking_ceiling config req" "0 \<le> hard_limit_reply_budget config"
  shows "0 \<le> generation_cap config req \<and> generation_cap config req \<le> max_output req \<and>
    0 \<le> reply_budget_of config req \<and> 2 * reply_budget_of config req \<le> max_output req \<and>
    (thinking_opt_in req \<longrightarrow> generation_cap config req - reply_budget_of config req =
       min (thinking_ceiling config req) (max_output req - reply_budget_of config req))"
proof -
  have "0 \<le> reply_budget_of config req \<and> 2 * reply_budget_of config req \<le> max_output req"
    unfolding reply_budget_of_def using reply_reserve_bounds c(2) out by auto
  then show ?thesis using c(1) out by (auto simp: generation_cap_def thinking_ceiling_def Let_def)
qed

lemma request_hook_fields:
  "close_token_ids (request_hook config req) \<noteq> [] \<Longrightarrow> thinking_opt_in req \<and>
     close_token_ids (request_hook config req) = think_close_token_ids config \<and>
     marker_token_ids (request_hook config req) = think_marker_token_ids config \<and>
     hard_limit_remaining (request_hook config req) = reply_budget_of config req"
  by (simp add: request_hook_def default_hook_def split: if_splits)

section \<open>Properties\<close>

text \<open>
  C32. The budget of an uncompressed request holds from parsing to decoding. A direct request whose prompt is
  shorter than the context is always accepted. An accepted request gets a reply between one token and the
  server's default cap that fits the context behind its prompt; the generation cap stays within that reply. If thinking is
  limited, the controller started with these inputs emits, for every stream of candidates, what its specification says for a budget of exactly
  the request's thinking limit, cut to what the answer's reserve leaves of the reply: the client's own budget up to \<open>think_max_tokens\<close>,
  else its effort tier as far as the requested output has room (a tier is not clamped to \<open>think_max_tokens\<close>), else \<open>think_max_tokens\<close>. At most half of the
  reply is reserved for the answer, and no more than the server's or the client's reply budget.
\<close>

theorem request_budget_fits_context:
  assumes cfg: "0 < default_max_tokens config" "0 \<le> think_max_tokens config" "0 \<le> hard_limit_reply_budget config"
    and unset: "per_req_phase1_cap req0 = -1" "per_req_reply_budget req0 = -1"
    and tiers: "\<forall>e. effort = Some e \<longrightarrow> 0 \<le> e"
    and parse: "parse_output_cap config body req0 = Inr req"
    and valid: "validate_request_context config prompt False routed (resolve_thinking_caps config bt rb effort req) = (ok, req2)"
    and gen: "n_gen = generation_cap config req2" "hook = request_hook config req2"
  shows "(\<not> routed \<longrightarrow> prompt < max_ctx config \<longrightarrow> ok) \<and>
    (ok \<longrightarrow> 0 < max_output req2 \<and> max_output req2 \<le> default_max_tokens config \<and> prompt + max_output req2 \<le> max_ctx config \<and>
       \<not> effective_prompt_overflows prompt (-1) (max_output req2) (max_ctx config) \<and> 0 \<le> n_gen \<and> n_gen \<le> max_output req2) \<and>
    (close_token_ids hook \<noteq> [] \<longrightarrow> 0 \<le> hard_limit_remaining hook \<and> 2 * hard_limit_remaining hook \<le> max_output req2 \<and>
       hard_limit_remaining hook \<le> hard_limit_reply_budget config \<and> (0 \<le> rb \<longrightarrow> hard_limit_remaining hook \<le> rb) \<and>
       (\<exists>p. int p = min (thinking_limit config bt effort (max_output req)) (max_output req2 - hard_limit_remaining hook) \<and>
          (\<forall>candidates. fst (run_tokens (new_thinking_budget (Some hook) n_gen) candidates) =
             budget_spec (think_close_token_ids config) (think_marker_token_ids config) p candidates)))"
proof -
  let ?req1 = "resolve_thinking_caps config bt rb effort req"
  have m: "0 < max_output req" "max_output req \<le> default_max_tokens config" using parse_output_cap_range [OF cfg(1) parse] by auto
  have u: "per_req_phase1_cap req = -1" "per_req_reply_budget req = -1" using parse unset by (auto simp: parse_output_cap_def split: sum.splits)
  note v = validate_cases [OF valid]
  then have r2: "0 < max_output req2" "max_output req2 \<le> default_max_tokens config" "thinking_ceiling config req2 = thinking_ceiling config ?req1"
    "thinking_opt_in req2 = thinking_opt_in req" "reply_budget_of config req2 \<le> (if per_req_reply_budget ?req1 \<ge> 0 then per_req_reply_budget ?req1 else hard_limit_reply_budget config)"
    using m by (auto simp: thinking_ceiling_def reply_budget_of_def reply_reserve_within_def Let_def)
  have ceil: "0 \<le> thinking_ceiling config req2" using r2(3) cfg(2) by (simp add: thinking_ceiling_def)
  note g = generation_range [OF r2(1) ceil cfg(3), folded gen(1)]
  have limited: "hard_limit_remaining hook \<le> hard_limit_reply_budget config \<and> (0 \<le> rb \<longrightarrow> hard_limit_remaining hook \<le> rb) \<and>
      0 \<le> hard_limit_remaining hook \<and> 2 * hard_limit_remaining hook \<le> max_output req2 \<and>
      (\<exists>p. int p = min (thinking_limit config bt effort (max_output req)) (max_output req2 - hard_limit_remaining hook) \<and>
         (\<forall>candidates. fst (run_tokens (new_thinking_budget (Some hook) n_gen) candidates) =
            budget_spec (think_close_token_ids config) (think_marker_token_ids config) p candidates))" if on: "close_token_ids hook \<noteq> []"
  proof -
    note h = request_hook_fields [OF on [unfolded gen(2)], folded gen(2)]
    have opt: "thinking_opt_in req" using h r2(4) by simp
    note tl = thinking_ceiling_limit [OF tiers cfg(2,3) m(1) u(1) opt, of bt rb]
    have "per_req_reply_budget ?req1 = (if rb \<ge> 0 then min rb (hard_limit_reply_budget config) else -1)"
      using u opt by (simp add: resolve_thinking_caps_def Let_def)
    then have "hard_limit_remaining hook \<le> hard_limit_reply_budget config \<and> (0 \<le> rb \<longrightarrow> hard_limit_remaining hook \<le> rb)"
      using r2(5) h cfg(3) by (auto split: if_splits)
    moreover have "int (nat (n_gen - hard_limit_remaining hook)) = min (thinking_limit config bt effort (max_output req)) (max_output req2 - hard_limit_remaining hook)"
      using g h tl r2(3) by auto
    ultimately show ?thesis using run_new_budget [of hook n_gen] g h by metis
  qed
  have accepted: "\<not> routed \<longrightarrow> prompt < max_ctx config \<longrightarrow> ok" "ok \<longrightarrow> prompt + max_output req2 \<le> max_ctx config" using v m by auto
  then have "ok \<longrightarrow> \<not> effective_prompt_overflows prompt (-1) (max_output req2) (max_ctx config)"
    by (auto simp: effective_prompt_overflows_def)
  then show ?thesis using accepted limited g r2(1,2) by auto
qed

definition demo_config :: BudgetConfig where
  "demo_config = \<lparr>default_max_tokens = 100, max_ctx = 50, think_max_tokens = 8, hard_limit_reply_budget = 10,
     think_close_token_ids = [7, 8], think_marker_token_ids = [8]\<rparr>"

definition demo_request :: BudgetRequest where
  "demo_request = \<lparr>max_output = 0, max_output_from_client = False, thinking_opt_in = True, per_req_phase1_cap = -1, per_req_reply_budget = -1\<rparr>"

text \<open>A tier of 20 tokens, above \<open>think_max_tokens\<close>: the context leaves 30 tokens of reply, 10 of them for the answer.\<close>

theorem request_budget_fits_context_witness:
  "\<exists>req2. validate_request_context demo_config 20 False False
       (demo_request\<lparr>max_output := 64, max_output_from_client := True, per_req_phase1_cap := 20\<rparr>) = (True, req2) \<and>
     max_output req2 = 30 \<and> generation_cap demo_config req2 = 30 \<and>
     fst (run_tokens (new_thinking_budget (Some (request_hook demo_config req2)) 30) [1, 2, 3]) = budget_spec [7, 8] [8] 20 [1, 2, 3]"
proof -
  let ?body = "\<lambda>k. if k = ''max_tokens'' then Some (JInt 64) else None"
  let ?req = "demo_request\<lparr>max_output := 64, max_output_from_client := True\<rparr>"
  let ?req1 = "demo_request\<lparr>max_output := 64, max_output_from_client := True, per_req_phase1_cap := 20\<rparr>"
  let ?req2 = "demo_request\<lparr>max_output := 30, max_output_from_client := True, per_req_phase1_cap := 20\<rparr>"
  have parse: "parse_output_cap demo_config ?body demo_request = Inr ?req" by code_simp
  have caps: "resolve_thinking_caps demo_config (-1) (-1) (Some 20) ?req = ?req1" by code_simp
  have valid: "validate_request_context demo_config 20 False False ?req1 = (True, ?req2)" by code_simp
  have gen: "generation_cap demo_config ?req2 = 30" "hard_limit_remaining (request_hook demo_config ?req2) = 10"
    "close_token_ids (request_hook demo_config ?req2) \<noteq> []" "thinking_limit demo_config (-1) (Some 20) (max_output ?req) = 20" by code_simp+
  have d: "0 < default_max_tokens demo_config" "0 \<le> think_max_tokens demo_config" "0 \<le> hard_limit_reply_budget demo_config"
    "per_req_phase1_cap demo_request = -1" "per_req_reply_budget demo_request = -1"
    "think_close_token_ids demo_config = [7, 8]" "think_marker_token_ids demo_config = [8]" by (simp_all add: demo_config_def demo_request_def)
  have tier: "\<forall>e. Some 20 = Some e \<longrightarrow> 0 \<le> (e::int)" by simp
  let ?out = "fst (run_tokens (new_thinking_budget (Some (request_hook demo_config ?req2)) 30) [1, 2, 3])"
  from request_budget_fits_context [OF d(1-5) tier parse valid [folded caps] gen(1) [symmetric] refl]
  have "\<exists>p. int p = min (thinking_limit demo_config (-1) (Some 20) (max_output ?req)) (max_output ?req2 - hard_limit_remaining (request_hook demo_config ?req2)) \<and>
      ?out = budget_spec [7, 8] [8] p [1, 2, 3]"
    using gen(3) unfolding d(6,7) by blast
  then have "?out = budget_spec [7, 8] [8] 20 [1, 2, 3]" unfolding gen(2,4) by auto
  then show ?thesis using valid gen(1) by (intro exI [of _ ?req2]) simp
qed

end
