(* ===== verification/Utf8_Utils.thy ===== *)
theory Utf8_Utils
  imports Prelude
begin

unbundle bit_operations_syntax

text \<open>
  The UTF-8 helpers of the streaming path (\<open>server/utf8_utils.h\<close>). A \<open>std::string\<close> is a list of bytes.
\<close>


section \<open>Snapping to a code point\<close>

definition is_continuation :: "u8 \<Rightarrow> bool" where
  "is_continuation b \<longleftrightarrow> b AND 0xC0 = 0x80"

fun snap_back :: "u8 list \<Rightarrow> nat \<Rightarrow> nat" where
  "snap_back s 0 = 0"
| "snap_back s (Suc pos) = (if is_continuation (s ! Suc pos) then snap_back s pos else Suc pos)"

definition utf8_safe_len :: "u8 list \<Rightarrow> nat \<Rightarrow> nat" where
  "utf8_safe_len s pos = (if pos \<ge> length s then length s else snap_back s pos)"

section \<open>Sanitising\<close>

definition seq_len :: "u8 \<Rightarrow> nat" where
  "seq_len c = (if c < 0x80 then 1 else if c AND 0xE0 = 0xC0 then 2 else if c AND 0xF0 = 0xE0 then 3
     else if c AND 0xF8 = 0xF0 then 4 else 0)"

text \<open>The decoded code point of a sequence of \<open>n\<close> bytes, a \<open>uint32_t\<close>.\<close>

definition code_point :: "nat \<Rightarrow> u8 list \<Rightarrow> 32 word" where
  "code_point n s =
     (if n = 1 then ucast (s ! 0)
      else if n = 2 then push_bit 6 (ucast (s ! 0 AND 0x1F)) OR (ucast (s ! 1) AND 0x3F)
      else if n = 3
      then push_bit 12 (ucast (s ! 0 AND 0x0F)) OR push_bit 6 (ucast (s ! 1 AND 0x3F)) OR (ucast (s ! 2) AND 0x3F)
      else push_bit 18 (ucast (s ! 0 AND 0x07)) OR push_bit 12 (ucast (s ! 1 AND 0x3F)) OR
           push_bit 6 (ucast (s ! 2 AND 0x3F)) OR (ucast (s ! 3) AND 0x3F))"

definition seq_valid :: "nat \<Rightarrow> u8 list \<Rightarrow> bool" where
  "seq_valid n s =
     (if \<exists>j \<in> set [1..<n]. \<not> is_continuation (s ! j) then False
      else let cp = code_point n s in
        if n = 1 then True
        else if n = 2 then \<not> cp < 0x80
        else if n = 3 then \<not> cp < 0x800 \<and> \<not> (cp \<ge> 0xD800 \<and> cp \<le> 0xDFFF)
        else \<not> (cp < 0x10000 \<or> cp > 0x10FFFF))"

definition replacement :: "u8 list" where
  "replacement = [0xEF, 0xBF, 0xBD]"

lemma seq_len_pos: "n = seq_len c \<Longrightarrow> n \<noteq> 0 \<Longrightarrow> 1 \<le> n"
  by simp

function utf8_sanitize :: "u8 list \<Rightarrow> u8 list" where
  "utf8_sanitize [] = []"
| "utf8_sanitize (c # cs) =
     (let n = seq_len c in
      if n = 0 \<or> n > length (c # cs) then replacement @ utf8_sanitize cs
      else if seq_valid n (c # cs) then take n (c # cs) @ utf8_sanitize (drop n (c # cs))
      else replacement @ utf8_sanitize cs)"
  by pat_completeness auto
termination by (relation "measure length") auto

declare utf8_sanitize.simps [simp del]

section \<open>Reference encoding\<close>

definition scalar :: "nat \<Rightarrow> bool" where
  "scalar cp \<longleftrightarrow> cp < 0xD800 \<or> (0xDFFF < cp \<and> cp \<le> 0x10FFFF)"

definition encode_cp :: "nat \<Rightarrow> u8 list" where
  "encode_cp cp =
     (if cp < 0x80 then [word_of_nat cp]
      else if cp < 0x800 then [word_of_nat (0xC0 + cp div 64), word_of_nat (0x80 + cp mod 64)]
      else if cp < 0x10000
      then [word_of_nat (0xE0 + cp div 4096), word_of_nat (0x80 + cp div 64 mod 64), word_of_nat (0x80 + cp mod 64)]
      else [word_of_nat (0xF0 + cp div 262144), word_of_nat (0x80 + cp div 4096 mod 64),
            word_of_nat (0x80 + cp div 64 mod 64), word_of_nat (0x80 + cp mod 64)])"

definition utf8_text :: "u8 list \<Rightarrow> bool" where
  "utf8_text s \<longleftrightarrow> (\<exists>cps. (\<forall>cp \<in> set cps. scalar cp) \<and> s = concat (map encode_cp cps))"

section \<open>Bytes\<close>

lemma unat_take_bit_word: "unat (take_bit n (c :: 'a::len word)) = unat c mod 2 ^ n"
  by (simp only: unsigned_take_bit_eq take_bit_eq_mod [of n "unat c"])

lemma unat_low: "unat ((c :: u8) AND mask n) = unat c mod 2 ^ n"
  by (simp add: unat_take_bit_word flip: take_bit_eq_mask)

lemma and_high: "n \<le> 8 \<Longrightarrow> (c :: u8) AND push_bit n (mask (8 - n)) = push_bit n (drop_bit n c)"
  by (rule bit_word_eqI) (auto simp: bit_simps)

lemma unat_high:
  assumes "n \<le> 8"
  shows "unat ((c :: u8) AND push_bit n (mask (8 - n))) = unat c div 2 ^ n * 2 ^ n"
proof -
  have "push_bit n (drop_bit n c) = c - take_bit n c" by (metis bits_ident add_diff_cancel_right')
  moreover have "take_bit n c \<le> c" by (simp add: word_le_nat_alt unat_take_bit_word)
  ultimately have "unat (push_bit n (drop_bit n c)) = unat c - unat c mod 2 ^ n"
    by (simp add: unat_sub unat_take_bit_word)
  also have "\<dots> = unat c div 2 ^ n * 2 ^ n" by (simp add: minus_mod_eq_div_mult)
  finally show ?thesis using and_high [OF assms] by simp
qed

lemma high_eq:
  assumes "n \<le> 8" "k * 2 ^ n < 256"
  shows "(c :: u8) AND push_bit n (mask (8 - n)) = word_of_nat (k * 2 ^ n) \<longleftrightarrow> unat c div 2 ^ n = k"
proof -
  have "(c AND push_bit n (mask (8 - n)) = word_of_nat (k * 2 ^ n)) \<longleftrightarrow> unat c div 2 ^ n * 2 ^ n = k * 2 ^ n"
    using unat_high [OF assms(1), of c] assms(2) by (simp add: word_unat_eq_iff unat_of_nat del: of_nat_mult)
  then show ?thesis by simp
qed

lemma cont_iff: "is_continuation c \<longleftrightarrow> unat c div 64 = 2"
  using high_eq [of 6 2 c] by (simp add: is_continuation_def mask_eq_exp_minus_1)

lemma lead2_iff: "(c :: u8) AND 0xE0 = 0xC0 \<longleftrightarrow> unat c div 32 = 6"
  using high_eq [of 5 6 c] by (simp add: mask_eq_exp_minus_1)

lemma lead3_iff: "(c :: u8) AND 0xF0 = 0xE0 \<longleftrightarrow> unat c div 16 = 14"
  using high_eq [of 4 14 c] by (simp add: mask_eq_exp_minus_1)

lemma lead4_iff: "(c :: u8) AND 0xF8 = 0xF0 \<longleftrightarrow> unat c div 8 = 30"
  using high_eq [of 3 30 c] by (simp add: mask_eq_exp_minus_1)

lemma low_bits:
  "unat ((c :: u8) AND 0x3F) = unat c mod 64" "unat (c AND 0x1F) = unat c mod 32"
  "unat (c AND 0x0F) = unat c mod 16" "unat (c AND 0x07) = unat c mod 8"
  using unat_low [of c 6] unat_low [of c 5] unat_low [of c 4] unat_low [of c 3] by (simp_all add: mask_eq_exp_minus_1)

lemma seq_len_nat:
  "seq_len c = (if unat c < 128 then 1 else if unat c div 32 = 6 then 2 else if unat c div 16 = 14 then 3
     else if unat c div 8 = 30 then 4 else 0)"
  by (simp add: seq_len_def lead2_iff lead3_iff lead4_iff word_less_nat_alt)

section \<open>Code points\<close>

lemma push_or_nat:
  assumes b: "unat (b :: 32 word) < 2 ^ n" and a: "(unat (a :: 32 word) + 1) * 2 ^ n \<le> 2 ^ 32"
  shows "unat (push_bit n a OR b) = unat a * 2 ^ n + unat b"
proof -
  have "take_bit n b = b" using b by (simp add: word_unat_eq_iff unat_take_bit_word)
  then have "bit b m \<longrightarrow> m < n" for m by (metis bit_take_bit_iff)
  then have "push_bit n a AND b = 0" by (auto simp: bit_eq_iff bit_simps not_le)
  then have "push_bit n a OR b = push_bit n a + b" by (simp add: disjunctive_add_eq_or)
  moreover have "unat a * 2 ^ n < 2 ^ 32" 
  proof -
    have "unat a * 2 ^ n < (unat a + 1) * 2 ^ n" by simp
    then show ?thesis using a by (rule less_le_trans)
  qed
  then have p: "unat (push_bit n a) = unat a * 2 ^ n"
    by (simp only: unsigned_push_bit_eq) (simp add: push_bit_eq_mult take_bit_eq_mod)
  moreover have "unat (push_bit n a) + unat b < 2 ^ 32" using p a b by (simp add: algebra_simps)
  then have "unat (push_bit n a + b) = unat (push_bit n a) + unat b" by (simp add: unat_word_ariths)
  ultimately show ?thesis by simp
qed

lemma unat_ucast_byte: "unat (ucast (c :: u8) :: 32 word) = unat c"
  using unsigned_less [of c, where ?'a = nat] by (simp add: unsigned_ucast_eq take_bit_nat_eq_self_iff)

lemma unat_ucast_low: "unat ((ucast (c :: u8) :: 32 word) AND 0x3F) = unat c mod 64"
proof -
  have "(ucast c :: 32 word) AND 0x3F = take_bit 6 (ucast c)" by (simp add: take_bit_eq_mask mask_eq_exp_minus_1)
  then show ?thesis by (simp add: unat_take_bit_word unat_ucast_byte del: take_bit_of_Suc_0)
qed

lemma code_point_nat:
  "unat (code_point 1 s) = unat (s ! 0)"
  "unat (code_point 2 s) = unat (s ! 0) mod 32 * 64 + unat (s ! 1) mod 64"
  "unat (code_point 3 s) = unat (s ! 0) mod 16 * 4096 + unat (s ! 1) mod 64 * 64 + unat (s ! 2) mod 64"
  "unat (code_point 4 s) = unat (s ! 0) mod 8 * 262144 + unat (s ! 1) mod 64 * 4096 + unat (s ! 2) mod 64 * 64 + unat (s ! 3) mod 64"
proof -
  let ?u = "\<lambda>c :: u8. ucast c :: 32 word"
  note m = mod_less_divisor [of 64] mod_less_divisor [of 32] mod_less_divisor [of 16] mod_less_divisor [of 8]
  have l: "unat (?u (c AND 0x3F)) = unat c mod 64" "unat (?u (c AND 0x1F)) = unat c mod 32"
    "unat (?u (c AND 0x0F)) = unat c mod 16" "unat (?u (c AND 0x07)) = unat c mod 8" for c
    by (simp_all add: unat_ucast_byte low_bits)
  show "unat (code_point 1 s) = unat (s ! 0)" by (simp add: code_point_def unat_ucast_byte)
  have b0: "unat (?u x AND 0x3F) < 2 ^ 6" for x :: u8 by (simp add: unat_ucast_low)
  have two: "unat (push_bit 6 a OR (?u y AND 0x3F)) = unat a * 64 + unat y mod 64" if "unat a < 64" for a and y :: u8
    using push_or_nat [OF b0, of a y] that by (simp add: unat_ucast_low)
  show "unat (code_point 2 s) = unat (s ! 0) mod 32 * 64 + unat (s ! 1) mod 64"
    using two [of "?u (s ! 0 AND 0x1F)" "s ! 1"] m(2) [of "unat (s ! 0)"] by (simp add: code_point_def l)
  have three: "unat (push_bit 12 a OR push_bit 6 (?u (y AND 0x3F)) OR (?u z AND 0x3F)) = unat a * 4096 + unat y mod 64 * 64 + unat z mod 64"
    if "unat a < 64" for a and y z :: u8
  proof -
    have "unat (push_bit 6 (?u (y AND 0x3F)) OR (?u z AND 0x3F)) = unat y mod 64 * 64 + unat z mod 64"
      using two [of "?u (y AND 0x3F)" z] by (simp add: l)
    moreover have "unat y mod 64 * 64 + unat z mod 64 < 2 ^ 12"
      using m(1) [of "unat y"] m(1) [of "unat z"] by simp
    ultimately show ?thesis using push_or_nat [of "push_bit 6 (?u (y AND 0x3F)) OR (?u z AND 0x3F)" 12 a] that
      by (simp add: or.assoc)
  qed
  show "unat (code_point 3 s) = unat (s ! 0) mod 16 * 4096 + unat (s ! 1) mod 64 * 64 + unat (s ! 2) mod 64"
    using three [of "?u (s ! 0 AND 0x0F)" "s ! 1" "s ! 2"] m(3) [of "unat (s ! 0)"] by (simp add: code_point_def l)
  have "unat (push_bit 12 (?u (s ! 1 AND 0x3F)) OR push_bit 6 (?u (s ! 2 AND 0x3F)) OR (?u (s ! 3) AND 0x3F)) =
      unat (s ! 1) mod 64 * 4096 + unat (s ! 2) mod 64 * 64 + unat (s ! 3) mod 64"
    using three [of "?u (s ! 1 AND 0x3F)" "s ! 2" "s ! 3"] by (simp add: l)
  moreover have "unat (s ! 1) mod 64 * 4096 + unat (s ! 2) mod 64 * 64 + unat (s ! 3) mod 64 < 2 ^ 18"
    using m(1) [of "unat (s ! 1)"] m(1) [of "unat (s ! 2)"] m(1) [of "unat (s ! 3)"] by simp
  ultimately show "unat (code_point 4 s) = unat (s ! 0) mod 8 * 262144 + unat (s ! 1) mod 64 * 4096 + unat (s ! 2) mod 64 * 64 + unat (s ! 3) mod 64"
    using push_or_nat [of "push_bit 12 (?u (s ! 1 AND 0x3F)) OR push_bit 6 (?u (s ! 2 AND 0x3F)) OR (?u (s ! 3) AND 0x3F)" 18 "?u (s ! 0 AND 0x07)"]
      m(4) [of "unat (s ! 0)"] by (simp add: code_point_def l or.assoc)
qed

section \<open>Valid sequences are encodings\<close>

lemma unat_byte: "n < 256 \<Longrightarrow> unat (word_of_nat n :: u8) = n"
  by (simp add: unat_of_nat)

lemma byte_of_unat: "n = unat c \<Longrightarrow> word_of_nat n = (c :: u8)"
  by simp

lemma lt256: "unat (c :: u8) < 256"
  using unsigned_less [of c, where ?'a = nat] by simp

lemma less32: "(w < word_of_nat k) \<longleftrightarrow> unat (w :: 32 word) < k" if "k < 2 ^ 32"
  using that by (simp add: word_less_nat_alt unat_of_nat)

lemma seq_valid_nat:
  "seq_valid 1 s"
  "seq_valid 2 s \<longleftrightarrow> unat (s ! 1) div 64 = 2 \<and> 128 \<le> unat (code_point 2 s)"
  "seq_valid 3 s \<longleftrightarrow> unat (s ! 1) div 64 = 2 \<and> unat (s ! 2) div 64 = 2 \<and> 2048 \<le> unat (code_point 3 s) \<and>
     \<not> (55296 \<le> unat (code_point 3 s) \<and> unat (code_point 3 s) \<le> 57343)"
  "seq_valid 4 s \<longleftrightarrow> unat (s ! 1) div 64 = 2 \<and> unat (s ! 2) div 64 = 2 \<and> unat (s ! 3) div 64 = 2 \<and>
     65536 \<le> unat (code_point 4 s) \<and> unat (code_point 4 s) \<le> 1114111"
proof -
  have r: "[1..<2] = [1]" "[1..<3] = [1, 2]" "[1..<4] = [1, 2, 3 :: nat]" by (simp_all add: upt_rec)
  show "seq_valid 1 s" by (simp add: seq_valid_def)
  show "seq_valid 2 s \<longleftrightarrow> unat (s ! 1) div 64 = 2 \<and> 128 \<le> unat (code_point 2 s)"
    unfolding seq_valid_def r by (simp add: cont_iff Let_def word_less_nat_alt not_less)
  show "seq_valid 3 s \<longleftrightarrow> unat (s ! 1) div 64 = 2 \<and> unat (s ! 2) div 64 = 2 \<and> 2048 \<le> unat (code_point 3 s) \<and>
     \<not> (55296 \<le> unat (code_point 3 s) \<and> unat (code_point 3 s) \<le> 57343)"
    unfolding seq_valid_def r by (auto simp: cont_iff Let_def word_less_nat_alt word_le_nat_alt not_less)
  show "seq_valid 4 s \<longleftrightarrow> unat (s ! 1) div 64 = 2 \<and> unat (s ! 2) div 64 = 2 \<and> unat (s ! 3) div 64 = 2 \<and>
     65536 \<le> unat (code_point 4 s) \<and> unat (code_point 4 s) \<le> 1114111"
    unfolding seq_valid_def r by (auto simp: cont_iff Let_def word_less_nat_alt word_le_nat_alt not_less)
qed

lemma cont_byte: "unat (c :: u8) div 64 = 2 \<Longrightarrow> c = word_of_nat (128 + unat c mod 64)"
  using div_mult_mod_eq [of "unat c" 64] by (metis byte_of_unat mult.commute numeral_times_numeral semiring_norm(11,12,13))

lemma take_few:
  "1 \<le> length s \<Longrightarrow> take 1 s = [s ! 0]"
  "2 \<le> length s \<Longrightarrow> take 2 s = [s ! 0, s ! 1]"
  "3 \<le> length s \<Longrightarrow> take 3 s = [s ! 0, s ! 1, s ! 2]"
  "4 \<le> length s \<Longrightarrow> take 4 s = [s ! 0, s ! 1, s ! 2, s ! 3]"
  by (auto simp: numeral_eq_Suc Suc_le_length_iff)

lemma base64:
  "y < 64 \<Longrightarrow> (k * 64 + y) div 64 = (k :: nat)" "y < 64 \<Longrightarrow> (k * 64 + y) mod 64 = (y :: nat)"
  "(128 + m mod 64) mod 64 = (m mod 64 :: nat)" "(128 + m mod 64) div 64 = (2 :: nat)"
  using mod_mult_self3 [of 2 64 "m mod 64"] div_mult_self3 [of 64 2 "m mod 64"] by simp_all

lemma decode_encode:
  assumes n: "n = seq_len (s ! 0)" "n \<noteq> 0" "n \<le> length s" and v: "seq_valid n s"
  shows "scalar (unat (code_point n s)) \<and> take n s = encode_cp (unat (code_point n s))"
proof -
  let ?b = "\<lambda>i. unat (s ! i)"
  have tk: "take 1 s = [s ! 0]" "n \<ge> 2 \<Longrightarrow> take 2 s = [s ! 0, s ! 1]" "n \<ge> 3 \<Longrightarrow> take 3 s = [s ! 0, s ! 1, s ! 2]"
    "n \<ge> 4 \<Longrightarrow> take 4 s = [s ! 0, s ! 1, s ! 2, s ! 3]"
    using take_few n(2,3) by (force, force, force, force)
  consider "n = 1" "?b 0 < 128" | "n = 2" "?b 0 div 32 = 6" | "n = 3" "?b 0 div 16 = 14" | "n = 4" "?b 0 div 8 = 30"
    using n by (auto simp: seq_len_nat split: if_splits)
  then show ?thesis
  proof cases
    case 1
    then have "unat (code_point n s) = ?b 0" using code_point_nat(1) by simp
    then show ?thesis using 1 tk(1) by (simp add: scalar_def encode_cp_def)
  next
    case 2
    let ?x = "?b 0 mod 32" and ?y = "?b 1 mod 64"
    have cp: "unat (code_point n s) = ?x * 64 + ?y" using 2 by (simp add: code_point_nat)
    have v2: "?b 1 div 64 = 2" "128 \<le> ?x * 64 + ?y" using v 2 cp by (simp_all add: seq_valid_nat)
    have lim: "?x < 32" "?y < 64" by simp_all
    have "?b 0 = 192 + ?x" using div_mult_mod_eq [of "?b 0" 32] 2(2) by simp
    then have s0: "s ! 0 = word_of_nat (192 + ?x)" by (metis byte_of_unat)
    have q: "(?x * 64 + ?y) div 64 = ?x" "(?x * 64 + ?y) mod 64 = ?y" using lim by simp_all
    have "?x * 64 + ?y < 2048" using lim by linarith
    then show ?thesis unfolding cp using v2(2) q s0 cont_byte [OF v2(1)] 2(1) tk(2)
      by (simp add: scalar_def encode_cp_def)
  next
    case 3
    let ?x = "?b 0 mod 16" and ?y = "?b 1 mod 64" and ?z = "?b 2 mod 64"
    let ?c = "?x * 4096 + ?y * 64 + ?z"
    have cp: "unat (code_point n s) = ?c" using 3 by (simp add: code_point_nat)
    have v3: "?b 1 div 64 = 2" "?b 2 div 64 = 2" "2048 \<le> ?c" "\<not> (55296 \<le> ?c \<and> ?c \<le> 57343)" using v 3 cp by (simp_all add: seq_valid_nat)
    have lim: "?x < 16" "?y < 64" "?z < 64" by simp_all
    have "?b 0 = 224 + ?x" using div_mult_mod_eq [of "?b 0" 16] 3(2) by simp
    then have s0: "s ! 0 = word_of_nat (224 + ?x)" by (metis byte_of_unat)
    have c: "?c = (?x * 64 + ?y) * 64 + ?z" by simp
    have q: "?c div 64 = ?x * 64 + ?y" "?c mod 64 = ?z" unfolding c by (rule base64(1,2) [OF lim(3)])+
    then have q3: "?c div 64 mod 64 = ?y" using base64(2) [OF lim(2), of ?x] by simp
    have q': "?c div 4096 = ?x" using div_mult2_eq [of ?c 64 64] base64(1) [OF lim(2), of ?x] q(1) by simp
    define c where "c = ?c"
    have r: "2048 \<le> c" "c < 65536" "\<not> (55296 \<le> c \<and> c \<le> 57343)" using lim v3(3,4) unfolding c_def by linarith+
    have d: "c div 4096 = ?x" "c div 64 mod 64 = ?y" "c mod 64 = ?z" using q q' q3 by (simp_all only: c_def)
    have "encode_cp c = [word_of_nat (224 + ?x), word_of_nat (128 + ?y), word_of_nat (128 + ?z)]"
      unfolding encode_cp_def using r d by simp
    also have "\<dots> = take n s" using tk(3) 3(1)
      by (simp only: s0 [symmetric] cont_byte [OF v3(1), symmetric] cont_byte [OF v3(2), symmetric])
    finally show ?thesis using r unfolding cp c_def [symmetric] by (auto simp: scalar_def)
  next
    case 4
    let ?x = "?b 0 mod 8" and ?y = "?b 1 mod 64" and ?z = "?b 2 mod 64" and ?w = "?b 3 mod 64"
    let ?c = "?x * 262144 + ?y * 4096 + ?z * 64 + ?w"
    have cp: "unat (code_point n s) = ?c" using 4 by (simp add: code_point_nat)
    have v4: "?b 1 div 64 = 2" "?b 2 div 64 = 2" "?b 3 div 64 = 2" "65536 \<le> ?c" "?c \<le> 1114111" using v 4 cp by (simp_all add: seq_valid_nat)
    have lim: "?x < 8" "?y < 64" "?z < 64" "?w < 64" by simp_all
    have "?b 0 = 240 + ?x" using div_mult_mod_eq [of "?b 0" 8] 4(2) by simp
    then have s0: "s ! 0 = word_of_nat (240 + ?x)" by (metis byte_of_unat)
    have c: "?c = ((?x * 64 + ?y) * 64 + ?z) * 64 + ?w" by simp
    have q1: "?c div 64 = (?x * 64 + ?y) * 64 + ?z" "?c mod 64 = ?w" unfolding c by (rule base64(1,2) [OF lim(4)])+
    have q2: "?c div 4096 = ?x * 64 + ?y" using div_mult2_eq [of ?c 64 64] base64(1) [OF lim(3), of "?x * 64 + ?y"] q1(1) by simp
    have q3: "?c div 262144 = ?x" using div_mult2_eq [of ?c 4096 64] base64(1) [OF lim(2), of ?x] q2 by simp
    have q: "?c div 64 mod 64 = ?z" "?c div 4096 mod 64 = ?y"
      unfolding q1(1) q2 by (rule base64(2) [OF lim(3)], rule base64(2) [OF lim(2)])
    define c where "c = ?c"
    have r: "65536 \<le> c" "c \<le> 1114111" using v4(4,5) unfolding c_def by linarith+
    have d: "c div 262144 = ?x" "c div 4096 mod 64 = ?y" "c div 64 mod 64 = ?z" "c mod 64 = ?w" using q q1(2) q3 by (simp_all only: c_def)
    have "encode_cp c = [word_of_nat (240 + ?x), word_of_nat (128 + ?y), word_of_nat (128 + ?z), word_of_nat (128 + ?w)]"
      unfolding encode_cp_def using r d by simp
    also have "\<dots> = take n s" using tk(4) 4(1)
      by (simp only: s0 [symmetric] cont_byte [OF v4(1), symmetric] cont_byte [OF v4(2), symmetric] cont_byte [OF v4(3), symmetric])
    finally show ?thesis using r unfolding cp c_def [symmetric] by (auto simp: scalar_def)
  qed
qed

lemma encode_decode:
  assumes sc: "scalar cp"
  defines "e \<equiv> encode_cp cp"
  shows "seq_len (e ! 0) = length e \<and> length e \<noteq> 0 \<and> seq_valid (length e) (e @ rest)"
proof -
  let ?s = "e @ rest"
  consider "cp < 128" | "128 \<le> cp" "cp < 2048" | "2048 \<le> cp" "cp < 65536" | "65536 \<le> cp" "cp \<le> 1114111"
    using sc by (fastforce simp: scalar_def)
  then show ?thesis
  proof cases
    case 1
    then have "e = [word_of_nat cp]" by (simp add: e_def encode_cp_def)
    then show ?thesis using 1 seq_valid_nat(1) by (simp add: seq_len_nat unat_byte)
  next
    case 2
    then have e: "e = [word_of_nat (192 + cp div 64), word_of_nat (128 + cp mod 64)]" by (simp add: e_def encode_cp_def)
    have x: "cp div 64 < 32" using 2(2) by (simp add: less_mult_imp_div_less)
    have u: "unat (?s ! 0) = 192 + cp div 64" "unat (?s ! 1) = 128 + cp mod 64"
      using x by (simp_all add: e unat_byte del: of_nat_add)
    have h: "(192 + cp div 64) div 32 = 6" "(192 + cp div 64) mod 32 = cp div 64"
      using x div_mult_self3 [of 32 6 "cp div 64"] mod_mult_self3 [of 6 32 "cp div 64"] by simp_all
    have "unat (code_point 2 ?s) = cp div 64 * 64 + cp mod 64" using u h(2) by (simp add: code_point_nat base64)
    then have "unat (code_point 2 ?s) = cp" by simp
    then have "seq_valid 2 ?s" using u 2 by (simp add: seq_valid_nat base64)
    moreover have "seq_len (e ! 0) = 2" using u(1) h(1) e by (simp add: seq_len_nat del: of_nat_add)
    moreover have "length e = 2" using e by simp
    ultimately show ?thesis by simp
  next
    case 3
    then have e: "e = [word_of_nat (224 + cp div 4096), word_of_nat (128 + cp div 64 mod 64), word_of_nat (128 + cp mod 64)]"
      by (simp add: e_def encode_cp_def)
    have x: "cp div 4096 < 16" using 3(2) by (simp add: less_mult_imp_div_less)
    have y: "cp div 64 mod 64 < 64" by simp
    have u: "unat (?s ! 0) = 224 + cp div 4096" "unat (?s ! 1) = 128 + cp div 64 mod 64" "unat (?s ! 2) = 128 + cp mod 64"
      using x y by (simp_all add: e unat_byte del: of_nat_add)
    have h: "(224 + cp div 4096) div 16 = 14" "(224 + cp div 4096) mod 16 = cp div 4096"
      using x div_mult_self3 [of 16 14 "cp div 4096"] mod_mult_self3 [of 14 16 "cp div 4096"] by simp_all
    have d: "cp div 64 = cp div 4096 * 64 + cp div 64 mod 64"
      using div_mult2_eq [of cp 64 64] div_mult_mod_eq [of "cp div 64" 64] by simp
    have "unat (code_point 3 ?s) = cp div 4096 * 4096 + cp div 64 mod 64 * 64 + cp mod 64"
      using u h(2) by (simp add: code_point_nat base64)
    also have "\<dots> = (cp div 4096 * 64 + cp div 64 mod 64) * 64 + cp mod 64" by simp
    also have "\<dots> = cp" using d by simp
    finally have "seq_valid 3 ?s" using u 3 sc by (auto simp: seq_valid_nat scalar_def base64)
    moreover have "seq_len (e ! 0) = 3" using u(1) h(1) x e by (auto simp: seq_len_nat simp del: of_nat_add)
    moreover have "length e = 3" using e by simp
    ultimately show ?thesis by simp
  next
    case 4
    then have e: "e = [word_of_nat (240 + cp div 262144), word_of_nat (128 + cp div 4096 mod 64), word_of_nat (128 + cp div 64 mod 64), word_of_nat (128 + cp mod 64)]"
      by (simp add: e_def encode_cp_def)
    have x: "cp div 262144 < 5" using 4(2) by (simp add: less_mult_imp_div_less)
    have y: "cp div 4096 mod 64 < 64" "cp div 64 mod 64 < 64" by simp_all
    have u: "unat (?s ! 0) = 240 + cp div 262144" "unat (?s ! 1) = 128 + cp div 4096 mod 64"
      "unat (?s ! 2) = 128 + cp div 64 mod 64" "unat (?s ! 3) = 128 + cp mod 64"
      using x y by (simp_all add: e unat_byte del: of_nat_add)
    have h: "(240 + cp div 262144) div 8 = 30" "(240 + cp div 262144) mod 8 = cp div 262144"
      using x div_mult_self3 [of 8 30 "cp div 262144"] mod_mult_self3 [of 30 8 "cp div 262144"] by simp_all
    have d1: "cp div 64 = cp div 4096 * 64 + cp div 64 mod 64"
      using div_mult2_eq [of cp 64 64] div_mult_mod_eq [of "cp div 64" 64] by simp
    have d2: "cp div 4096 = cp div 262144 * 64 + cp div 4096 mod 64"
      using div_mult2_eq [of cp 4096 64] div_mult_mod_eq [of "cp div 4096" 64] by simp
    have "unat (code_point 4 ?s) = cp div 262144 * 262144 + cp div 4096 mod 64 * 4096 + cp div 64 mod 64 * 64 + cp mod 64"
      using u h(2) by (simp add: code_point_nat base64)
    also have "\<dots> = ((cp div 262144 * 64 + cp div 4096 mod 64) * 64 + cp div 64 mod 64) * 64 + cp mod 64" by simp
    also have "\<dots> = cp" using d1 d2 by simp
    finally have "seq_valid 4 ?s" using u 4 by (auto simp: seq_valid_nat base64)
    moreover have "seq_len (e ! 0) = 4" using u(1) h(1) x e by (auto simp: seq_len_nat simp del: of_nat_add)
    moreover have "length e = 4" using e by simp
    ultimately show ?thesis by simp
  qed
qed

section \<open>Text\<close>

lemma utf8_text_Nil: "utf8_text []"
  unfolding utf8_text_def by (intro exI [of _ "[]"]) simp

lemma utf8_text_encode: "scalar cp \<Longrightarrow> utf8_text s \<Longrightarrow> utf8_text (encode_cp cp @ s)"
proof -
  assume "scalar cp" "utf8_text s"
  then obtain cps where "\<forall>cp \<in> set cps. scalar cp" "s = concat (map encode_cp cps)" by (auto simp: utf8_text_def)
  then show ?thesis using \<open>scalar cp\<close> unfolding utf8_text_def by (intro exI [of _ "cp # cps"]) simp
qed

lemma replacement_scalar: "replacement = encode_cp 0xFFFD" "scalar 0xFFFD"
  by (simp_all add: replacement_def encode_cp_def scalar_def)

lemma sanitize_text: "utf8_text (utf8_sanitize s)"
proof (induction s rule: utf8_sanitize.induct)
  case 1
  then show ?case by (simp add: utf8_sanitize.simps utf8_text_Nil)
next
  case (2 c cs)
  let ?n = "seq_len c"
  have bad: "utf8_text (replacement @ utf8_sanitize cs)" if "utf8_text (utf8_sanitize cs)"
    using that utf8_text_encode [OF replacement_scalar(2)] by (simp add: replacement_scalar(1))
  show ?case
  proof (cases "?n = 0 \<or> ?n > length (c # cs) \<or> \<not> seq_valid ?n (c # cs)")
    case True
    then have "utf8_sanitize (c # cs) = replacement @ utf8_sanitize cs" by (auto simp: utf8_sanitize.simps(2) Let_def)
    moreover have "utf8_text (utf8_sanitize cs)" using 2 True by (cases "?n = 0 \<or> ?n > length (c # cs)") auto
    ultimately show ?thesis using bad by simp
  next
    case False
    then have "scalar (unat (code_point ?n (c # cs))) \<and> take ?n (c # cs) = encode_cp (unat (code_point ?n (c # cs)))"
      by (intro decode_encode) auto
    moreover have "utf8_text (utf8_sanitize (drop ?n (c # cs)))" using 2 False by auto
    moreover have "utf8_sanitize (c # cs) = take ?n (c # cs) @ utf8_sanitize (drop ?n (c # cs))"
      using False by (auto simp: utf8_sanitize.simps(2) Let_def)
    ultimately show ?thesis using utf8_text_encode by metis
  qed
qed

lemma sanitize_encode:
  assumes "scalar cp"
  shows "utf8_sanitize (encode_cp cp @ rest) = encode_cp cp @ utf8_sanitize rest"
proof -
  let ?e = "encode_cp cp"
  have e: "seq_len (?e ! 0) = length ?e" "length ?e \<noteq> 0" "seq_valid (length ?e) (?e @ rest)"
    using encode_decode [OF assms] by blast+
  obtain c cs where c: "?e @ rest = c # cs" "c = ?e ! 0" using e(2) by (cases ?e) auto
  have le: "length ?e \<le> length (c # cs)" using arg_cong [OF c(1), of length] by simp
  have "utf8_sanitize (c # cs) = take (length ?e) (c # cs) @ utf8_sanitize (drop (length ?e) (c # cs))"
    using e c(2) le by (simp add: utf8_sanitize.simps(2) Let_def c(1))
  then show ?thesis by (simp flip: c(1))
qed

lemma sanitize_id:
  assumes "utf8_text s"
  shows "utf8_sanitize s = s"
proof -
  obtain cps where cps: "\<forall>cp \<in> set cps. scalar cp" "s = concat (map encode_cp cps)" using assms by (auto simp: utf8_text_def)
  then have "utf8_sanitize (concat (map encode_cp cps)) = concat (map encode_cp cps)"
    by (induction cps arbitrary: s) (simp_all add: utf8_sanitize.simps(1) sanitize_encode)
  then show ?thesis by (simp add: cps(2))
qed

text \<open>The first byte of an encoding starts a sequence, the others continue it.\<close>

lemma encode_continuation:
  assumes "scalar cp" "i < length (encode_cp cp)"
  shows "is_continuation (encode_cp cp ! i) \<longleftrightarrow> i \<noteq> 0"
proof (cases i)
  case 0
  have "seq_len (encode_cp cp ! 0) \<noteq> 0" using encode_decode [OF assms(1)] by metis
  then have "unat (encode_cp cp ! 0) div 64 \<noteq> 2" by (auto simp: seq_len_nat split: if_splits)
  then show ?thesis using 0 by (simp add: cont_iff)
next
  case (Suc j)
  have "unat (word_of_nat (128 + m mod 64) :: u8) div 64 = 2" for m
  proof -
    have "128 + m mod 64 < 256" using mod_less_divisor [of 64 m] by linarith
    then have "unat (word_of_nat (128 + m mod 64) :: u8) = 128 + m mod 64" by (rule unat_byte)
    then show ?thesis by (simp only: base64(4))
  qed
  then have "is_continuation (word_of_nat (128 + m mod 64))" for m by (simp only: cont_iff)
  note this [simplified, simp]
  show ?thesis using assms(2) Suc by (auto simp: encode_cp_def nth_Cons' less_Suc_eq split: if_splits)
qed

lemma start_splits_text:
  assumes "\<forall>cp \<in> set cps. scalar cp" "k < length (concat (map encode_cp cps))" "\<not> is_continuation (concat (map encode_cp cps) ! k)"
  shows "utf8_text (take k (concat (map encode_cp cps)))"
  using assms
proof (induction cps arbitrary: k)
  case (Cons cp cps)
  let ?e = "encode_cp cp"
  have sc: "scalar cp" using Cons.prems(1) by simp
  show ?case
  proof (cases "k < length ?e")
    case True
    then have "k = 0" using Cons.prems(3) encode_continuation [OF sc True] by (simp add: nth_append)
    then show ?thesis by (simp add: utf8_text_Nil)
  next
    case False
    then have "utf8_text (take (k - length ?e) (concat (map encode_cp cps)))"
      using Cons.IH [of "k - length ?e"] Cons.prems by (simp add: nth_append)
    then show ?thesis using utf8_text_encode [OF sc] False by simp
  qed
qed simp

lemma snap_back_spec: "snap_back s p \<le> p \<and> (snap_back s p = 0 \<or> \<not> is_continuation (s ! snap_back s p)) \<and>
    (\<forall>k. snap_back s p < k \<longrightarrow> k \<le> p \<longrightarrow> is_continuation (s ! k))"
  by (induction p) (auto simp: le_Suc_eq)

section \<open>Properties\<close>

text \<open>
  C27. Sanitising a string gives well-formed UTF-8 for every input (a concatenation of encodings of Unicode scalar
  values), and leaves a string that already is well-formed unchanged.
\<close>

theorem utf8_sanitize_correct:
  "utf8_text (utf8_sanitize s) \<and> (utf8_text s \<longrightarrow> utf8_sanitize s = s)"
  using sanitize_text sanitize_id by blast

theorem utf8_sanitize_correct_witness:
  "utf8_sanitize [0x61, 0xE2, 0x82] = [0x61] @ replacement @ replacement \<and> utf8_text (utf8_sanitize [0x61, 0xE2, 0x82]) \<and>
   utf8_sanitize (encode_cp 0x20AC) = encode_cp 0x20AC"
proof -
  have "utf8_sanitize [0x61, 0xE2, 0x82] = [0x61] @ replacement @ replacement" by code_simp
  moreover have "utf8_text (encode_cp 0x20AC)" using utf8_text_encode [OF _ utf8_text_Nil, of "0x20AC"] by (simp add: scalar_def)
  ultimately show ?thesis using utf8_sanitize_correct [of "[0x61, 0xE2, 0x82]"] utf8_sanitize_correct [of "encode_cp 0x20AC"] by auto
qed

text \<open>
  Cutting well-formed text at the snapped position never splits a code point: the prefix is well-formed text, no longer
  than asked, and only continuation bytes lie between the cut and the position asked for.
\<close>

theorem utf8_safe_len_keeps_text:
  assumes "utf8_text s"
  shows "utf8_text (take (utf8_safe_len s pos) s) \<and> utf8_safe_len s pos \<le> max pos (length s) \<and>
    (pos < length s \<longrightarrow> utf8_safe_len s pos \<le> pos \<and>
       (\<forall>k. utf8_safe_len s pos < k \<longrightarrow> k \<le> pos \<longrightarrow> is_continuation (s ! k)))"
proof (cases "pos < length s")
  case True
  obtain cps where cps: "\<forall>cp \<in> set cps. scalar cp" "s = concat (map encode_cp cps)" using assms by (auto simp: utf8_text_def)
  have e: "utf8_safe_len s pos = snap_back s pos" using True by (simp add: utf8_safe_len_def)
  note sb = snap_back_spec [of s pos]
  have "utf8_text (take (snap_back s pos) s)"
  proof (cases "snap_back s pos = 0")
    case False
    then show ?thesis using start_splits_text [OF cps(1), of "snap_back s pos"] sb True cps(2) by simp
  qed (simp add: utf8_text_Nil)
  then show ?thesis using sb e True by auto
next
  case False
  then show ?thesis using assms by (simp add: utf8_safe_len_def)
qed

theorem utf8_safe_len_keeps_text_witness:
  "utf8_safe_len (encode_cp 0x61 @ encode_cp 0x20AC) 3 = 1 \<and>
   utf8_text (take (utf8_safe_len (encode_cp 0x61 @ encode_cp 0x20AC) 3) (encode_cp 0x61 @ encode_cp 0x20AC))"
proof -
  have "utf8_text (encode_cp 0x61 @ encode_cp 0x20AC @ [])" by (intro utf8_text_encode utf8_text_Nil) (simp_all add: scalar_def)
  moreover have "utf8_safe_len (encode_cp 0x61 @ encode_cp 0x20AC) 3 = 1" by code_simp
  ultimately show ?thesis using utf8_safe_len_keeps_text [of "encode_cp 0x61 @ encode_cp 0x20AC" 3] by simp
qed

end
