(* ===== verification/Prompt_Lookup.thy ===== *)
theory Prompt_Lookup
  imports Prelude
begin

unbundle bit_operations_syntax

text \<open>
  Prompt lookup drafts (\<open>PromptLookup\<close> of \<open>common/prompt_lookup.h\<close>): the tokens that followed the longest earlier
  occurrence of the current suffix, found through a hash table from trigrams to their four most recent end
  positions. The choice between lookup and draft model (\<open>PromptLookupPolicy\<close>) is floating-point
  arithmetic and is not modelled.
\<close>

section \<open>Model\<close>

definition kWays :: nat where "kWays = 4"
definition kMinMatch :: nat where "kMinMatch = 3"
definition kMaxMatch :: nat where "kMaxMatch = 32"

record PromptLookup =
  pl_hist :: "token list"
  pl_index :: "u64 \<Rightarrow> int list option"

definition pl_reset :: "PromptLookup \<Rightarrow> PromptLookup" where
  "pl_reset p = p\<lparr>pl_hist := [], pl_index := (\<lambda>_. None)\<rparr>"

definition new_prompt_lookup :: PromptLookup where
  "new_prompt_lookup = \<lparr>pl_hist = [], pl_index = (\<lambda>_. None)\<rparr>"

definition empty_ways :: "int list" where
  "empty_ways = replicate kWays (-1)"

definition trigram_key :: "token list \<Rightarrow> nat \<Rightarrow> u64" where
  "trigram_key hist e =
     foldl (\<lambda>h i. (h XOR ucast (word_of_int (hist ! i) :: 32 word)) * 0x100000001b3) 0xcbf29ce484222325 [e - 2..<Suc e]"

definition append_one :: "PromptLookup \<Rightarrow> token \<Rightarrow> PromptLookup" where
  "append_one p t =
     (let hist = pl_hist p @ [t]; e = length hist - 1 in
      if e < 2 then p\<lparr>pl_hist := hist\<rparr>
      else let key = trigram_key hist e;
               ways = (case pl_index p key of None \<Rightarrow> empty_ways | Some w \<Rightarrow> w)
           in p\<lparr>pl_hist := hist, pl_index := (pl_index p)(key := Some (int e # butlast ways))\<rparr>)"

definition pl_append :: "PromptLookup \<Rightarrow> token list \<Rightarrow> PromptLookup" where
  "pl_append p tokens = foldl append_one p tokens"

text \<open>How many tokens ending at \<open>e\<close> agree with the suffix of the history; \<open>fuel\<close> is \<open>kMaxMatch - len\<close>.\<close>

fun match_from :: "token list \<Rightarrow> nat \<Rightarrow> nat \<Rightarrow> nat \<Rightarrow> nat" where
  "match_from hist e len 0 = len"
| "match_from hist e len (Suc fuel) =
     (if int e - int len \<ge> 0 \<and> hist ! (e - len) = hist ! (length hist - 1 - len)
      then match_from hist e (Suc len) fuel else len)"

definition better_way :: "token list \<Rightarrow> nat \<times> int \<Rightarrow> int \<Rightarrow> nat \<times> int" where
  "better_way hist = (\<lambda>(best_len, best_end) e.
     if e < 0 \<or> nat e + 1 \<ge> length hist then (best_len, best_end)
     else let len = match_from hist (nat e) 0 kMaxMatch in
       if len > best_len then (len, e) else (best_len, best_end))"

text \<open>The proposed tokens and the length of the match behind them.\<close>

definition propose :: "PromptLookup \<Rightarrow> int \<Rightarrow> token list \<times> nat" where
  "propose p max_k =
     (let hist = pl_hist p; n = length hist in
      if max_k \<le> 0 \<or> n < kMinMatch + 1 then ([], 0)
      else case pl_index p (trigram_key hist (n - 1)) of
        None \<Rightarrow> ([], 0)
      | Some ways \<Rightarrow>
          (let (best_len, best_end) = foldl (better_way hist) (0, -1) ways in
           if best_len < kMinMatch then ([], 0)
           else (take (nat max_k) (drop (nat best_end + 1) hist), best_len)))"

section \<open>The index\<close>

text \<open>The end positions of the trigrams with a key, most recent first.\<close>

definition ends_of :: "token list \<Rightarrow> u64 \<Rightarrow> nat list" where
  "ends_of hist k = rev (filter (\<lambda>e. trigram_key hist e = k) [2..<length hist])"

definition index_ok :: "PromptLookup \<Rightarrow> bool" where
  "index_ok p \<longleftrightarrow> (\<forall>k. pl_index p k = (if ends_of (pl_hist p) k = [] then None
      else Some (take kWays (map int (ends_of (pl_hist p) k) @ empty_ways))))"

lemma trigram_key_append: "e < length hist \<Longrightarrow> trigram_key (hist @ ts) e = trigram_key hist e"
  unfolding trigram_key_def by (intro foldl_cong refl) (auto simp: nth_append)

lemma ends_of_snoc:
  "ends_of (hist @ [t]) k = (if 2 \<le> length hist \<and> trigram_key (hist @ [t]) (length hist) = k then length hist # ends_of hist k else ends_of hist k)"
proof -
  have "filter (\<lambda>e. trigram_key (hist @ [t]) e = k) [2..<length hist] = filter (\<lambda>e. trigram_key hist e = k) [2..<length hist]"
    by (intro filter_cong refl) (simp add: trigram_key_append)
  then show ?thesis by (simp add: ends_of_def)
qed

lemma append_one_ok:
  assumes "index_ok p"
  shows "index_ok (append_one p t)"
proof (cases "2 \<le> length (pl_hist p)")
  case False
  then show ?thesis using assms by (simp add: append_one_def index_ok_def ends_of_snoc Let_def)
next
  case True
  let ?h = "pl_hist p" and ?k = "trigram_key (pl_hist p @ [t]) (length (pl_hist p))"
  have tk: "butlast (take kWays xs) = take (kWays - 1) xs" if "length xs \<ge> kWays" for xs :: "int list"
    using that by (simp add: butlast_take)
  define w where "w = int (length ?h) # butlast (case pl_index p ?k of None \<Rightarrow> empty_ways | Some w \<Rightarrow> w)"
  have w: "w = take kWays (map int (length ?h # ends_of ?h ?k) @ empty_ways)"
    unfolding w_def using assms tk [of "map int (ends_of ?h ?k) @ empty_ways"] tk [of empty_ways]
    by (simp add: index_ok_def empty_ways_def kWays_def)
  have a: "append_one p t = p\<lparr>pl_hist := ?h @ [t], pl_index := (pl_index p)(?k := Some w)\<rparr>"
    using True by (simp add: append_one_def Let_def w_def)
  have "((pl_index p)(?k := Some w)) k = (if ends_of (?h @ [t]) k = [] then None else Some (take kWays (map int (ends_of (?h @ [t]) k) @ empty_ways)))" for k
    using assms True by (cases "k = ?k") (simp_all add: w ends_of_snoc index_ok_def)
  then show ?thesis unfolding a index_ok_def by simp
qed

lemma append_ok: "index_ok p \<Longrightarrow> index_ok (pl_append p ts)"
  unfolding pl_append_def by (induction ts arbitrary: p) (simp_all add: append_one_ok)

lemma append_hist: "pl_hist (pl_append p ts) = pl_hist p @ ts"
  unfolding pl_append_def by (induction ts arbitrary: p) (simp_all add: append_one_def Let_def)

lemma new_ok: "index_ok new_prompt_lookup"
  by (simp add: index_ok_def new_prompt_lookup_def ends_of_def)

section \<open>The match\<close>

lemma match_from_spec:
  "e < length hist \<Longrightarrow> \<forall>j < len. j \<le> e \<and> hist ! (e - j) = hist ! (length hist - 1 - j) \<Longrightarrow>
     len \<le> match_from hist e len fuel \<and> match_from hist e len fuel \<le> len + fuel \<and>
     (\<forall>j < match_from hist e len fuel. j \<le> e \<and> hist ! (e - j) = hist ! (length hist - 1 - j)) \<and>
     (match_from hist e len fuel < len + fuel \<longrightarrow> \<not> (match_from hist e len fuel \<le> e \<and>
        hist ! (e - match_from hist e len fuel) = hist ! (length hist - 1 - match_from hist e len fuel)))"
proof (induction hist e len fuel rule: match_from.induct)
  case (2 hist e len fuel)
  show ?case
  proof (cases "len \<le> e \<and> hist ! (e - len) = hist ! (length hist - 1 - len)")
    case True
    then have "\<forall>j < Suc len. j \<le> e \<and> hist ! (e - j) = hist ! (length hist - 1 - j)" using 2(3) by (auto simp: less_Suc_eq)
    with 2(1) [OF _ 2(2)] True show ?thesis by auto
  next
    case False
    then show ?thesis using 2(3) by auto
  qed
qed auto

lemma foldl_better_way:
  "foldl (better_way hist) (l, b) ways = (l', b') \<Longrightarrow>
     l \<le> l' \<and> ((l', b') = (l, b) \<or> b' \<in> set ways \<and> 0 \<le> b' \<and> nat b' + 1 < length hist \<and> l' = match_from hist (nat b') 0 kMaxMatch) \<and>
     (\<forall>e \<in> set ways. 0 \<le> e \<longrightarrow> nat e + 1 < length hist \<longrightarrow> match_from hist (nat e) 0 kMaxMatch \<le> l')"
proof (induction ways arbitrary: l b)
  case (Cons e ways)
  obtain l1 b1 where s: "better_way hist (l, b) e = (l1, b1)" by (metis surj_pair)
  then have "foldl (better_way hist) (l1, b1) ways = (l', b')" using Cons.prems by simp
  from Cons.IH [OF this] s show ?case
    by (fastforce simp: better_way_def Let_def split: if_splits)
qed simp

section \<open>Properties\<close>

text \<open>The last \<open>n\<close> tokens before position \<open>e\<close> (inclusive).\<close>

definition ending_at :: "token list \<Rightarrow> nat \<Rightarrow> nat \<Rightarrow> token list" where
  "ending_at hist e n = map (\<lambda>j. hist ! (e - j)) (rev [0..<n])"

lemma ends_of_in: "e \<in> set (ends_of hist k) \<longleftrightarrow> 2 \<le> e \<and> e < length hist \<and> trigram_key hist e = k"
  by (auto simp: ends_of_def)

lemma propose_sound:
  assumes "propose p max_k = (out, m)" "out \<noteq> []"
  shows "\<exists>e. e + 1 < length (pl_hist p) \<and> kMinMatch \<le> m \<and> m \<le> kMaxMatch \<and> m \<le> e + 1 \<and>
     (\<forall>j < m. pl_hist p ! (e - j) = pl_hist p ! (length (pl_hist p) - 1 - j)) \<and>
     out = take (nat max_k) (drop (e + 1) (pl_hist p))"
proof -
  let ?h = "pl_hist p"
  obtain ways where w: "pl_index p (trigram_key ?h (length ?h - 1)) = Some ways"
    using assms by (auto simp: propose_def Let_def split: if_splits option.splits)
  obtain l b where f: "foldl (better_way ?h) (0, -1) ways = (l, b)" by (metis surj_pair)
  have lm: "kMinMatch \<le> l" "m = l" "out = take (nat max_k) (drop (nat b + 1) ?h)"
    using assms w f by (auto simp: propose_def Let_def split: if_splits)
  have "l \<noteq> 0" using lm(1) by (simp add: kMinMatch_def)
  then have b: "0 \<le> b" "nat b + 1 < length ?h" "l = match_from ?h (nat b) 0 kMaxMatch" using foldl_better_way [OF f] by auto
  have mf: "l \<le> kMaxMatch" "\<forall>j < l. j \<le> nat b \<and> ?h ! (nat b - j) = ?h ! (length ?h - 1 - j)"
    using match_from_spec [of "nat b" ?h 0 kMaxMatch] b by auto
  have "l \<le> nat b + 1" using mf(2) [rule_format, of "l - 1"] \<open>l \<noteq> 0\<close> by linarith
  then show ?thesis using b mf lm by blast
qed

lemma trigram_match:
  assumes "2 \<le> e" "e + 1 < length hist" "\<forall>j < 3. hist ! (e - j) = hist ! (length hist - 1 - j)"
  shows "3 \<le> match_from hist e 0 kMaxMatch"
proof (rule ccontr)
  assume less: "\<not> ?thesis"
  note sp = match_from_spec [of e hist 0 kMaxMatch]
  show False using sp assms less by (auto simp: kMaxMatch_def not_le)
qed

lemma ending_at_eq: "ending_at tokens e n = ending_at tokens f n \<longleftrightarrow> (\<forall>j < n. tokens ! (e - j) = tokens ! (f - j))"
  by (auto simp: ending_at_def)

lemma trigram_key_eq:
  assumes "2 \<le> e" "2 \<le> f" "\<forall>j < 3. tokens ! (e - j) = tokens ! (f - j)"
  shows "trigram_key tokens e = trigram_key tokens f"
proof -
  have three: "[d - 2..<Suc d] = [d - 2, d - 1, d]" if "2 \<le> d" for d
  proof -
    have "d = Suc (Suc (d - 2))" using that by simp
    then obtain c where "d = Suc (Suc c)" by blast
    then show ?thesis by (simp add: upt_rec)
  qed
  show ?thesis unfolding trigram_key_def three [OF assms(1)] three [OF assms(2)]
    using assms(3) [rule_format, of 0] assms(3) [rule_format, of 1] assms(3) [rule_format, of 2] by simp
qed

text \<open>The end positions of the current trigram's key: the suffix itself, then an earlier one if there is any.\<close>

lemma earlier_end:
  assumes "2 \<le> e" "e + 1 < length tokens" "trigram_key tokens e = trigram_key tokens (length tokens - 1)"
  obtains d ds where "ends_of tokens (trigram_key tokens (length tokens - 1)) = (length tokens - 1) # d # ds"
    "2 \<le> d" "d + 1 < length tokens" "trigram_key tokens d = trigram_key tokens (length tokens - 1)"
proof -
  let ?k = "trigram_key tokens (length tokens - 1)"
  have split: "ends_of tokens ?k = (length tokens - 1) # ends_of (butlast tokens) ?k"
    using ends_of_snoc [of "butlast tokens" "last tokens" ?k] assms(1,2) by (cases "tokens = []") auto
  have "e \<in> set (ends_of (butlast tokens) ?k)" using assms ends_of_in [of e tokens ?k] split by auto
  then obtain d ds where ds: "ends_of (butlast tokens) ?k = d # ds" by (cases "ends_of (butlast tokens) ?k") auto
  have "d \<in> set (ends_of tokens ?k)" using split ds by simp
  then have "2 \<le> d" "trigram_key tokens d = ?k" by (auto simp: ends_of_in)
  moreover have "d + 1 < length tokens" using ds ends_of_in [of d "butlast tokens" ?k] by auto
  ultimately show thesis using that split ds by simp
qed

lemma propose_complete:
  assumes ok: "index_ok p" and k: "0 < max_k" and r: "propose p max_k = (out, m)"
    and e: "2 \<le> e" "e + 1 < length (pl_hist p)" "\<forall>j < 3. pl_hist p ! (e - j) = pl_hist p ! (length (pl_hist p) - 1 - j)"
    and nc: "\<forall>e. 2 \<le> e \<longrightarrow> e < length (pl_hist p) \<longrightarrow> trigram_key (pl_hist p) e = trigram_key (pl_hist p) (length (pl_hist p) - 1) \<longrightarrow>
        (\<forall>j < 3. pl_hist p ! (e - j) = pl_hist p ! (length (pl_hist p) - 1 - j))"
  shows "out \<noteq> []"
proof -
  let ?h = "pl_hist p"
  let ?k = "trigram_key ?h (length ?h - 1)"
  have "trigram_key ?h e = ?k" using e by (intro trigram_key_eq) auto
  then obtain d ds where d: "ends_of ?h ?k = (length ?h - 1) # d # ds" "2 \<le> d" "d + 1 < length ?h" "trigram_key ?h d = ?k"
    by (rule earlier_end [OF e(1,2)])
  have "\<forall>j < 3. ?h ! (d - j) = ?h ! (length ?h - 1 - j)" using nc d by auto
  then have m3: "3 \<le> match_from ?h d 0 kMaxMatch" using trigram_match d by blast
  obtain ways where w: "pl_index p ?k = Some ways" "int d \<in> set ways"
    using ok d(1) by (auto simp: index_ok_def kWays_def)
  obtain l b where f: "foldl (better_way ?h) (0, -1) ways = (l, b)" by (metis surj_pair)
  have "3 \<le> l" using foldl_better_way [OF f] w(2) m3 d(3) by fastforce
  moreover have "nat b + 1 < length ?h" using foldl_better_way [OF f] \<open>3 \<le> l\<close> by auto
  moreover have "\<not> length ?h < kMinMatch + 1" using d(2,3) by (simp add: kMinMatch_def)
  ultimately have "out = take (nat max_k) (drop (nat b + 1) ?h)"
    using r k w(1) f by (auto simp: propose_def Let_def kMinMatch_def split: if_splits)
  then show "out \<noteq> []" using k \<open>nat b + 1 < length ?h\<close> by simp
qed

text \<open>
  C28. Prompt lookup only quotes. Whatever was appended, a non-empty proposal is the text that followed an earlier occurrence, ending
  at some position \<open>e\<close>, of the last \<open>m\<close> tokens of the history, with a match length \<open>m\<close> between 3 and 32;
  and if the last three tokens occurred before (and no other trigram has their key) something is proposed.
\<close>

theorem prompt_lookup_quotes_history:
  assumes p: "p = pl_append new_prompt_lookup tokens" and k: "0 < max_k" and r: "propose p max_k = (out, m)"
  shows "(out \<noteq> [] \<longrightarrow> (\<exists>e. e + 1 < length tokens \<and> 3 \<le> m \<and> m \<le> 32 \<and> m \<le> e + 1 \<and>
        ending_at tokens e m = ending_at tokens (length tokens - 1) m \<and> out = take (nat max_k) (drop (e + 1) tokens))) \<and>
    ((\<exists>e. 2 \<le> e \<and> e + 1 < length tokens \<and> ending_at tokens e 3 = ending_at tokens (length tokens - 1) 3) \<and>
     (\<forall>e. 2 \<le> e \<longrightarrow> e < length tokens \<longrightarrow> trigram_key tokens e = trigram_key tokens (length tokens - 1) \<longrightarrow>
        ending_at tokens e 3 = ending_at tokens (length tokens - 1) 3) \<longrightarrow> out \<noteq> [])"
proof -
  have hist: "pl_hist p = tokens" using append_hist by (simp add: p new_prompt_lookup_def)
  have ok: "index_ok p" unfolding p by (rule append_ok [OF new_ok])
  have sound: "\<exists>e. e + 1 < length tokens \<and> 3 \<le> m \<and> m \<le> 32 \<and> m \<le> e + 1 \<and>
        ending_at tokens e m = ending_at tokens (length tokens - 1) m \<and> out = take (nat max_k) (drop (e + 1) tokens)" if "out \<noteq> []"
    using propose_sound [OF r that] by (simp add: hist ending_at_eq kMinMatch_def kMaxMatch_def)
  have complete: "out \<noteq> []" if e: "2 \<le> e" "e + 1 < length tokens" "ending_at tokens e 3 = ending_at tokens (length tokens - 1) 3"
    and nc: "\<forall>e. 2 \<le> e \<longrightarrow> e < length tokens \<longrightarrow> trigram_key tokens e = trigram_key tokens (length tokens - 1) \<longrightarrow>
        ending_at tokens e 3 = ending_at tokens (length tokens - 1) 3" for e
    by (rule propose_complete [OF ok k r, unfolded hist, OF e(1,2) e(3) [unfolded ending_at_eq] nc [unfolded ending_at_eq]])
  show ?thesis using sound complete by blast
qed

theorem prompt_lookup_quotes_history_witness:
  "propose (pl_append new_prompt_lookup [5, 6, 7, 8, 9, 5, 6, 7]) 2 = ([8, 9], 3) \<and>
   (\<exists>e. [8, 9] = take 2 (drop (e + 1) [5, 6, 7, 8, 9, 5, 6, 7 :: int]))"
proof -
  have r: "propose (pl_append new_prompt_lookup [5, 6, 7, 8, 9, 5, 6, 7]) 2 = ([8, 9], 3)" by code_simp
  show ?thesis using prompt_lookup_quotes_history [OF refl _ r] r by auto
qed

end
