(* ===== verification/Gbnf_Match.thy ===== *)
theory Gbnf_Match
  imports Prelude
begin

text \<open>
  The pushdown matcher of constrained decoding (\<open>common/gbnf.h\<close>, \<open>gbnf.cpp\<close>). A rule is a list of elements,
  a pointer into the rules is a pair of a rule index and an offset, and a stack is the list of its
  pointers with the top first. Code points are natural numbers; the recursion depth of the expansion is
  bounded by a fuel argument, and running out of it is an error value of its own.
\<close>

section \<open>Elements and positions\<close>

datatype ElementType = ET_END | ET_ALT | ET_RULE_REF | ET_CHAR | ET_CHAR_NOT | ET_CHAR_RNG_UPPER | ET_CHAR_ALT | ET_CHAR_ANY

record Element =
  el_type :: ElementType
  el_value :: nat

type_synonym Rule = "Element list"
type_synonym Rules = "Rule list"
type_synonym position = "nat \<times> nat"
type_synonym Stack = "position list"
type_synonym Stacks = "Stack list"

record PartialUtf8 =
  pu_value :: nat
  pu_remain :: int

datatype gbnf_error = OutOfFuel | BadAccess | LogicError string | Runtime string

type_synonym 'a result = "gbnf_error + 'a"

text \<open>The element a pointer points at; outside its rule there is nothing, read as an end.\<close>

definition at :: "Rules \<Rightarrow> position \<Rightarrow> Element" where
  "at rules p = (if fst p < length rules \<and> snd p < length (rules ! fst p) then rules ! fst p ! snd p
     else \<lparr>el_type = ET_END, el_value = 0\<rparr>)"

definition type_at :: "Rules \<Rightarrow> position \<Rightarrow> ElementType" where
  "type_at rules p = el_type (at rules p)"

definition step_by :: "position \<Rightarrow> nat \<Rightarrow> position" where
  "step_by p k = (fst p, snd p + k)"

definition is_end_of_sequence :: "Rules \<Rightarrow> position \<Rightarrow> bool" where
  "is_end_of_sequence rules p \<longleftrightarrow> type_at rules p = ET_END \<or> type_at rules p = ET_ALT"

definition room_after :: "Rules \<Rightarrow> position \<Rightarrow> nat" where
  "room_after rules p = (if fst p < length rules then length (rules ! fst p) - snd p else 0)"

lemma room_decreases: "type_at rules p \<noteq> ET_END \<Longrightarrow> 0 < k \<Longrightarrow> room_after rules (step_by p k) < room_after rules p"
  by (auto simp: type_at_def at_def room_after_def step_by_def split: if_splits)

lemma room_target: "type_at rules (step_by p k) \<noteq> ET_END \<Longrightarrow> 0 < k \<Longrightarrow> room_after rules (step_by p k) < room_after rules p"
  by (auto simp: type_at_def at_def room_after_def step_by_def split: if_splits)

lemma room_step: "room_after rules (step_by p k) \<le> room_after rules p"
  by (auto simp: room_after_def step_by_def)

section \<open>Character ranges\<close>

text \<open>The loop of \<open>match_char\<close>: whether a range so far matched, and the position.\<close>

definition range_step :: "Rules \<Rightarrow> nat \<Rightarrow> bool \<Rightarrow> position \<Rightarrow> bool \<times> position" where
  "range_step rules chr found p =
     (if type_at rules (step_by p 1) = ET_CHAR_RNG_UPPER
      then (found \<or> el_value (at rules p) \<le> chr \<and> chr \<le> el_value (at rules (step_by p 1)), step_by p 2)
      else if type_at rules p = ET_CHAR_ANY then (True, step_by p 1)
      else (found \<or> el_value (at rules p) = chr, step_by p 1))"

lemma room_range_step: "type_at rules (snd (range_step rules chr found p)) = ET_CHAR_ALT \<Longrightarrow>
    room_after rules (snd (range_step rules chr found p)) < room_after rules p"
  by (auto simp: range_step_def intro!: room_target split: if_splits)

function match_loop :: "Rules \<Rightarrow> nat \<Rightarrow> bool \<Rightarrow> position \<Rightarrow> bool \<times> position" where
  "match_loop rules chr found p =
     (if type_at rules (snd (range_step rules chr found p)) = ET_CHAR_ALT
      then match_loop rules chr (fst (range_step rules chr found p)) (snd (range_step rules chr found p))
      else range_step rules chr found p)"
  by pat_completeness auto
termination
  by (relation "measure (\<lambda>(rules, chr, found, p). room_after rules p)") (simp_all add: case_prod_beta room_range_step)

declare match_loop.simps [simp del]

definition match_char :: "Rules \<Rightarrow> position \<Rightarrow> nat \<Rightarrow> (bool \<times> position) result" where
  "match_char rules p chr =
     (let is_positive_char = (type_at rules p = ET_CHAR \<or> type_at rules p = ET_CHAR_ANY) in
      if \<not> is_positive_char \<and> type_at rules p \<noteq> ET_CHAR_NOT then Inl (LogicError ''gbnf: match_char on a non-char element'')
      else let (found, pos) = match_loop rules chr False p in Inr (found = is_positive_char, pos))"

text \<open>The range of code points a partial UTF-8 sequence could complete to.\<close>

definition partial_low :: "PartialUtf8 \<Rightarrow> nat" where
  "partial_low u =
     (let low = pu_value u * 2 ^ nat (pu_remain u * 6) in
      if low = 0 then (if pu_remain u = 2 then 2 ^ 11 else if pu_remain u = 3 then 2 ^ 16 else low) else low)"

definition partial_high :: "PartialUtf8 \<Rightarrow> nat" where
  "partial_high u =
     (if pu_remain u = 2 \<and> pu_value u = 0xD then 0xD7FF
      else if pu_remain u = 3 \<and> pu_value u = 0x4 then 0x10FFFF
      else pu_value u * 2 ^ nat (pu_remain u * 6) + (2 ^ nat (pu_remain u * 6) - 1))"

function partial_loop :: "Rules \<Rightarrow> nat \<Rightarrow> nat \<Rightarrow> bool \<Rightarrow> position \<Rightarrow> bool" where
  "partial_loop rules low high positive p =
     (if type_at rules (step_by p 1) = ET_CHAR_RNG_UPPER
      then (if el_value (at rules p) \<le> high \<and> low \<le> el_value (at rules (step_by p 1)) then positive
            else if type_at rules (step_by p 2) = ET_CHAR_ALT then partial_loop rules low high positive (step_by p 2) else \<not> positive)
      else if type_at rules p = ET_CHAR_ANY then True
      else if low \<le> el_value (at rules p) \<and> el_value (at rules p) \<le> high then positive
      else if type_at rules (step_by p 1) = ET_CHAR_ALT then partial_loop rules low high positive (step_by p 1) else \<not> positive)"
  by pat_completeness auto
termination
  by (relation "measure (\<lambda>(rules, low, high, positive, p). room_after rules p)")
    (simp_all add: room_target)

declare partial_loop.simps [simp del]

definition match_partial_char :: "Rules \<Rightarrow> position \<Rightarrow> PartialUtf8 \<Rightarrow> bool" where
  "match_partial_char rules p u =
     (let is_positive_char = (type_at rules p = ET_CHAR \<or> type_at rules p = ET_CHAR_ANY) in
      if pu_remain u < 0 \<or> (pu_remain u = 1 \<and> pu_value u < 2) then False
      else partial_loop rules (partial_low u) (partial_high u) is_positive_char p)"

section \<open>Stacks\<close>

text \<open>The end of the sequence at a position, and the start of every alternate of a rule.\<close>

function sequence_end :: "Rules \<Rightarrow> position \<Rightarrow> position" where
  "sequence_end rules p = (if is_end_of_sequence rules p then p else sequence_end rules (step_by p 1))"
  by pat_completeness auto
termination
  by (relation "measure (\<lambda>(rules, p). room_after rules p)") (simp_all add: is_end_of_sequence_def room_decreases)

declare sequence_end.simps [simp del]

lemma sequence_end_room: "room_after rules (sequence_end rules p) \<le> room_after rules p"
proof (induction rules p rule: sequence_end.induct)
  case (1 rules p)
  then show ?case by (subst sequence_end.simps) (auto intro: order_trans [OF _ room_step])
qed

function alternates_from :: "Rules \<Rightarrow> position \<Rightarrow> position list" where
  "alternates_from rules p =
     p # (if type_at rules (sequence_end rules p) = ET_ALT then alternates_from rules (step_by (sequence_end rules p) 1) else [])"
  by pat_completeness auto
termination
proof (relation "measure (\<lambda>(rules, p). room_after rules p)")
  fix rules p
  assume "type_at rules (sequence_end rules p) = ET_ALT"
  then have "room_after rules (step_by (sequence_end rules p) 1) < room_after rules (sequence_end rules p)"
    by (intro room_decreases) simp_all
  with sequence_end_room [of rules p] show "((rules, step_by (sequence_end rules p) 1), (rules, p)) \<in> measure (\<lambda>(rules, p). room_after rules p)"
    by simp
qed simp

declare alternates_from.simps [simp del]

definition alternates :: "Rules \<Rightarrow> nat \<Rightarrow> position list" where
  "alternates rules r = alternates_from rules (r, 0)"

definition push_position :: "Rules \<Rightarrow> position \<Rightarrow> Stack \<Rightarrow> Stack" where
  "push_position rules p stack = (if is_end_of_sequence rules p then stack else p # stack)"

definition add_stack :: "Stack \<Rightarrow> Stacks \<Rightarrow> Stacks" where
  "add_stack stack stacks = (if stack \<in> set stacks then stacks else stacks @ [stack])"

text \<open>A loop whose body may fail, over an accumulator.\<close>

fun fold_result :: "('a \<Rightarrow> 'b \<Rightarrow> 'b result) \<Rightarrow> 'a list \<Rightarrow> 'b \<Rightarrow> 'b result" where
  "fold_result f [] b = Inr b"
| "fold_result f (a # as) b = (case f a b of Inl e \<Rightarrow> Inl e | Inr b' \<Rightarrow> fold_result f as b')"

primrec advance_stack :: "nat \<Rightarrow> Rules \<Rightarrow> Stack \<Rightarrow> Stacks \<Rightarrow> Stacks result" where
  "advance_stack 0 = (\<lambda>rules stack new_stacks. Inl OutOfFuel)"
| "advance_stack (Suc n) = (\<lambda>rules stack new_stacks.
     case stack of
       [] \<Rightarrow> Inr (add_stack [] new_stacks)
     | p # below \<Rightarrow>
         (case type_at rules p of
            ET_RULE_REF \<Rightarrow>
              fold_result (\<lambda>subpos. advance_stack n rules (push_position rules subpos (push_position rules (step_by p 1) below)))
                (alternates rules (el_value (at rules p))) new_stacks
          | ET_CHAR \<Rightarrow> Inr (add_stack stack new_stacks)
          | ET_CHAR_NOT \<Rightarrow> Inr (add_stack stack new_stacks)
          | ET_CHAR_ANY \<Rightarrow> Inr (add_stack stack new_stacks)
          | _ \<Rightarrow> Inl (LogicError ''gbnf: stack rests on a non-terminal element'')))"

section \<open>The matcher\<close>

text \<open>One stack over one code point: it is dropped, or its top moves on and is expanded.\<close>

definition accept_stack :: "nat \<Rightarrow> Rules \<Rightarrow> nat \<Rightarrow> Stack \<Rightarrow> Stacks \<Rightarrow> Stacks result" where
  "accept_stack n rules chr stack stacks_new =
     (case stack of
        [] \<Rightarrow> Inr stacks_new
      | p # below \<Rightarrow>
          (case match_char rules p chr of
             Inl e \<Rightarrow> Inl e
           | Inr (matched, pos) \<Rightarrow>
               if \<not> matched then Inr stacks_new else advance_stack n rules (push_position rules pos below) stacks_new))"

fun accept_points :: "nat \<Rightarrow> Rules \<Rightarrow> nat list \<Rightarrow> Stacks \<Rightarrow> Stacks result" where
  "accept_points n rules [] stacks = Inr stacks"
| "accept_points n rules (c # cs) stacks =
     (case fold_result (accept_stack n rules c) stacks [] of
        Inl e \<Rightarrow> Inl e
      | Inr stacks' \<Rightarrow> if stacks' = [] then Inr [] else accept_points n rules cs stacks')"

definition initial_stacks :: "nat \<Rightarrow> Rules \<Rightarrow> nat \<Rightarrow> Stacks result" where
  "initial_stacks n rules root =
     fold_result (\<lambda>pos. advance_stack n rules (push_position rules pos [])) (alternates rules root) []"

section \<open>Decoding pieces\<close>

text \<open>Bytes are read as numbers below 256.\<close>

definition is_continuation_byte :: "nat \<Rightarrow> nat \<Rightarrow> int \<Rightarrow> bool" where
  "is_continuation_byte byte value n_remain =
     (if byte div 64 \<noteq> 2 then False
      else if n_remain = 2 \<and> value < 0x10
      then (if value = 0 then byte \<ge> 0xA0 else if value = 0xD then byte \<le> 0x9F else True)
      else if n_remain = 3
      then (if value = 0 then byte \<ge> 0x90 else if value = 4 then byte \<le> 0x8F else True)
      else True)"

fun continue_sequence :: "nat \<Rightarrow> int \<Rightarrow> nat list \<Rightarrow> (nat \<times> int \<times> nat list) option" where
  "continue_sequence value n_remain [] = Some (value, n_remain, [])"
| "continue_sequence value n_remain (b # bs) =
     (if n_remain > 0
      then (if \<not> is_continuation_byte b value n_remain then None
            else continue_sequence (value * 64 + b mod 64) (n_remain - 1) bs)
      else Some (value, n_remain, b # bs))"

lemma continue_sequence_length: "continue_sequence v n bs = Some (v', n', rest) \<Longrightarrow> length rest \<le> length bs"
  by (induction v n bs rule: continue_sequence.induct) (auto split: if_splits)

definition lead_remain :: "nat \<Rightarrow> int" where
  "lead_remain first_byte = [1, 1, 1, 1, 1, 1, 1, 1, 0, 0, 0, 0, 2, 2, 3, 4] ! (first_byte div 16) - 1"

text \<open>The sequences after the one left open: the code points, and the value and the missing bytes of the last one; None is an invalid text.\<close>

function decode_sequences :: "nat list \<Rightarrow> nat \<Rightarrow> int \<Rightarrow> nat list \<Rightarrow> (nat list \<times> PartialUtf8) option" where
  "decode_sequences [] value n_remain points = Some (points @ [0], \<lparr>pu_value = value, pu_remain = n_remain\<rparr>)"
| "decode_sequences (b # bs) value n_remain points =
     (let n = lead_remain b in
      if n < 0 \<or> b = 0xC0 \<or> b = 0xC1 \<or> b > 0xF4 then None
      else case continue_sequence (b mod 2 ^ nat (7 - n)) n bs of
        None \<Rightarrow> None
      | Some (v, n', rest) \<Rightarrow> decode_sequences rest v n' (if n' = 0 then points @ [v] else points))"
  by pat_completeness auto
termination
  by (relation "measure (\<lambda>(bs, v, n, points). length bs)") (auto dest: continue_sequence_length)

definition invalid_utf8 :: "nat list \<times> PartialUtf8" where
  "invalid_utf8 = ([0], \<lparr>pu_value = 0, pu_remain = -1\<rparr>)"

text \<open>The C string ends at the first zero byte.\<close>

definition decode_utf8 :: "u8 list \<Rightarrow> PartialUtf8 \<Rightarrow> nat list \<times> PartialUtf8" where
  "decode_utf8 bytes start =
     (if pu_remain start < 0 then invalid_utf8
      else case continue_sequence (pu_value start) (pu_remain start) (takeWhile (\<lambda>b. b \<noteq> 0) (map unat bytes)) of
        None \<Rightarrow> invalid_utf8
      | Some (value, n_remain, rest) \<Rightarrow>
          (case decode_sequences rest value n_remain (if pu_remain start > 0 \<and> n_remain = 0 then [value] else []) of
             None \<Rightarrow> invalid_utf8 | Some r \<Rightarrow> r))"

section \<open>The matcher object\<close>

record Matcher =
  m_rules :: Rules
  m_symbols :: "(u8 list \<times> nat) list"
  m_stacks :: Stacks
  m_partial :: PartialUtf8

definition no_partial :: PartialUtf8 where
  "no_partial = \<lparr>pu_value = 0, pu_remain = 0\<rparr>"

definition can_end :: "Matcher \<Rightarrow> bool" where
  "can_end m \<longleftrightarrow> pu_remain (m_partial m) = 0 \<and> [] \<in> set (m_stacks m)"

definition dead :: "Matcher \<Rightarrow> bool" where
  "dead m \<longleftrightarrow> m_stacks m = []"

definition matcher_rule_id :: "Matcher \<Rightarrow> u8 list \<Rightarrow> int" where
  "matcher_rule_id m name = (case map_of (m_symbols m) name of None \<Rightarrow> -1 | Some i \<Rightarrow> int i)"

definition partial_reachable :: "Rules \<Rightarrow> Stacks \<Rightarrow> PartialUtf8 \<Rightarrow> bool" where
  "partial_reachable rules stacks u \<longleftrightarrow> (\<exists>s \<in> set stacks. s \<noteq> [] \<and> match_partial_char rules (hd s) u)"

definition accept_bytes :: "nat \<Rightarrow> Matcher \<Rightarrow> u8 list \<Rightarrow> Matcher result" where
  "accept_bytes n m bytes =
     (let (points, u) = decode_utf8 bytes (m_partial m) in
      if pu_remain u < 0 then Inr (m\<lparr>m_stacks := []\<rparr>)
      else case accept_points n (m_rules m) (butlast points) (m_stacks m) of
        Inl e \<Rightarrow> Inl e
      | Inr stacks \<Rightarrow>
          if butlast points \<noteq> [] \<and> stacks = [] then Inr (m\<lparr>m_stacks := []\<rparr>)
          else if pu_remain u > 0 \<and> \<not> partial_reachable (m_rules m) stacks u
          then Inr (m\<lparr>m_stacks := [], m_partial := u\<rparr>)
          else Inr (m\<lparr>m_stacks := stacks, m_partial := u\<rparr>))"

text \<open>A token under test: its code points with their terminating 0, a pointer into them, and the sequence it leaves open.\<close>

record Candidate =
  cand_index :: nat
  cand_points :: "nat list"
  cand_at :: nat
  cand_partial :: PartialUtf8

definition cand_head :: "Candidate \<Rightarrow> nat" where
  "cand_head t = (if cand_at t < length (cand_points t) then cand_points t ! cand_at t else 0)"

definition cand_forward :: "Candidate \<Rightarrow> Candidate" where
  "cand_forward t = t\<lparr>cand_at := cand_at t + 1\<rparr>"

definition cand_back :: "Candidate \<Rightarrow> Candidate" where
  "cand_back t = t\<lparr>cand_at := cand_at t - 1\<rparr>"

text \<open>The loop over the candidates at a terminal: the rejected ones and those that go on.\<close>

definition sort_candidate :: "Rules \<Rightarrow> position \<Rightarrow> Candidate \<Rightarrow> Candidate list \<times> Candidate list \<Rightarrow> (Candidate list \<times> Candidate list) result" where
  "sort_candidate rules p t acc =
     (if cand_head t = 0
      then Inr (if pu_remain (cand_partial t) \<noteq> 0 \<and> \<not> match_partial_char rules p (cand_partial t)
                then (fst acc @ [t], snd acc) else acc)
      else case match_char rules p (cand_head t) of
        Inl e \<Rightarrow> Inl e
      | Inr (matched, _) \<Rightarrow>
          Inr (if matched then (fst acc, snd acc @ [cand_forward t]) else (fst acc @ [t], snd acc)))"

primrec reject_for_stack :: "nat \<Rightarrow> nat \<Rightarrow> Rules \<Rightarrow> Stack \<Rightarrow> Candidate list \<Rightarrow> Candidate list result" where
  "reject_for_stack 0 = (\<lambda>n rules stack candidates. Inl OutOfFuel)"
| "reject_for_stack (Suc d) = (\<lambda>n rules stack candidates.
     case stack of
       [] \<Rightarrow> Inr (filter (\<lambda>t. cand_head t \<noteq> 0 \<or> pu_remain (cand_partial t) \<noteq> 0) candidates)
     | p # below \<Rightarrow>
         (case fold_result (sort_candidate rules p) candidates ([], []) of
            Inl e \<Rightarrow> Inl e
          | Inr (rejects, next_candidates) \<Rightarrow>
              (case match_char rules p 0 of
                 Inl e \<Rightarrow> Inl e
               | Inr (_, after) \<Rightarrow>
                   (case advance_stack n rules (push_position rules after below) [] of
                      Inl e \<Rightarrow> Inl e
                    | Inr next_stacks \<Rightarrow>
                        (case (if next_candidates = [] then Inr [] else fold_result (reject_for_stack d n rules) next_stacks next_candidates) of
                           Inl e \<Rightarrow> Inl e
                         | Inr next_rejects \<Rightarrow> Inr (rejects @ map cand_back next_rejects))))))"

definition reject_for_stacks :: "nat \<Rightarrow> nat \<Rightarrow> Rules \<Rightarrow> Stacks \<Rightarrow> Candidate list \<Rightarrow> Candidate list result" where
  "reject_for_stacks d n rules stacks candidates =
     (if candidates = [] then Inr [] else fold_result (reject_for_stack d n rules) stacks candidates)"

definition matcher_reject :: "nat \<Rightarrow> nat \<Rightarrow> Matcher \<Rightarrow> Candidate list \<Rightarrow> Candidate list result" where
  "matcher_reject d n m candidates = reject_for_stacks d n (m_rules m) (m_stacks m) candidates"

end
