(* ===== verification/Gbnf_Lang.thy ===== *)
theory Gbnf_Lang
  imports Gbnf_Match
begin

text \<open>
  The language of a grammar as an inductive definition, independent of stacks, and the correctness of the
  pushdown matcher against it: what the stacks still accept, and that the expansion of a stack ends for every grammar
  without left recursion.
\<close>

section \<open>The language\<close>

text \<open>The characters of a range: the elements of its chain and where it ends.\<close>

definition covers :: "Rules \<Rightarrow> position \<Rightarrow> nat \<Rightarrow> bool" where
  "covers rules p chr \<longleftrightarrow>
     (if type_at rules (step_by p 1) = ET_CHAR_RNG_UPPER then el_value (at rules p) \<le> chr \<and> chr \<le> el_value (at rules (step_by p 1))
      else type_at rules p = ET_CHAR_ANY \<or> el_value (at rules p) = chr)"

definition after_range :: "Rules \<Rightarrow> position \<Rightarrow> position" where
  "after_range rules p = step_by p (if type_at rules (step_by p 1) = ET_CHAR_RNG_UPPER then 2 else 1)"

inductive chain :: "Rules \<Rightarrow> position \<Rightarrow> position list \<Rightarrow> position \<Rightarrow> bool" for rules where
  last: "type_at rules (after_range rules p) \<noteq> ET_CHAR_ALT \<Longrightarrow> chain rules p [p] (after_range rules p)"
| more: "type_at rules (after_range rules p) = ET_CHAR_ALT \<Longrightarrow> chain rules (after_range rules p) qs e \<Longrightarrow> chain rules p (p # qs) e"

definition terminal :: "Rules \<Rightarrow> position \<Rightarrow> bool" where
  "terminal rules p \<longleftrightarrow> type_at rules p \<in> {ET_CHAR, ET_CHAR_NOT, ET_CHAR_ANY}"

definition in_class :: "Rules \<Rightarrow> position \<Rightarrow> position list \<Rightarrow> nat \<Rightarrow> bool" where
  "in_class rules p qs chr \<longleftrightarrow> (\<exists>q \<in> set qs. covers rules q chr) = (type_at rules p \<noteq> ET_CHAR_NOT)"

text \<open>The texts a sequence derives, from a position to the end of its alternate.\<close>

inductive yields :: "Rules \<Rightarrow> position \<Rightarrow> nat list \<Rightarrow> bool" for rules where
  finish: "is_end_of_sequence rules p \<Longrightarrow> yields rules p []"
| char: "terminal rules p \<Longrightarrow> chain rules p qs e \<Longrightarrow> in_class rules p qs c \<Longrightarrow> yields rules e w \<Longrightarrow> yields rules p (c # w)"
| ref: "type_at rules p = ET_RULE_REF \<Longrightarrow> s \<in> set (alternates rules (el_value (at rules p))) \<Longrightarrow> yields rules s u \<Longrightarrow>
    yields rules (step_by p 1) v \<Longrightarrow> yields rules p (u @ v)"

definition language :: "Rules \<Rightarrow> nat \<Rightarrow> nat list \<Rightarrow> bool" where
  "language rules root w \<longleftrightarrow> (\<exists>s \<in> set (alternates rules root). yields rules s w)"

fun stack_yields :: "Rules \<Rightarrow> Stack \<Rightarrow> nat list \<Rightarrow> bool" where
  "stack_yields rules [] w \<longleftrightarrow> w = []"
| "stack_yields rules (p # stack) w \<longleftrightarrow> (\<exists>u v. w = u @ v \<and> yields rules p u \<and> stack_yields rules stack v)"

section \<open>Matching one character\<close>

lemma range_step_eq:
  "range_step rules chr found p = (found \<or> covers rules p chr, after_range rules p)"
  by (auto simp: range_step_def covers_def after_range_def)

lemma chain_match_loop:
  "chain rules p qs e \<Longrightarrow> match_loop rules chr found p = (found \<or> (\<exists>q \<in> set qs. covers rules q chr), e)"
proof (induction arbitrary: found rule: chain.induct)
  case (last p)
  then show ?case by (subst match_loop.simps) (simp add: range_step_eq)
next
  case (more p qs e)
  then show ?case by (subst match_loop.simps) (auto simp: range_step_eq)
qed

lemma after_range_room:
  "type_at rules (after_range rules p) = ET_CHAR_ALT \<Longrightarrow> room_after rules (after_range rules p) < room_after rules p"
  unfolding after_range_def by (rule room_target) (auto split: if_splits)

lemma chain_ex: "\<exists>qs e. chain rules p qs e"
proof (induction "room_after rules p" arbitrary: p rule: less_induct)
  case less
  show ?case
  proof (cases "type_at rules (after_range rules p) = ET_CHAR_ALT")
    case True
    then show ?thesis using less [OF after_range_room [OF True]] chain.more by blast
  next
    case False
    then show ?thesis using chain.last by blast
  qed
qed

lemma chain_unique: "chain rules p qs e \<Longrightarrow> chain rules p qs' e' \<Longrightarrow> qs' = qs \<and> e' = e"
proof (induction arbitrary: qs' e' rule: chain.induct)
  case (last p)
  from last(2,1) show ?case by (cases rule: chain.cases) auto
next
  case (more p qs e)
  from more.prems more.hyps(1) show ?case by (cases rule: chain.cases) (use more.IH in auto)
qed

lemma match_char_correct:
  assumes "chain rules p qs e"
  shows "match_char rules p chr = (if terminal rules p then Inr (in_class rules p qs chr, e)
    else Inl (LogicError ''gbnf: match_char on a non-char element''))"
  using chain_match_loop [OF assms, of chr False]
  by (cases "type_at rules p") (auto simp: match_char_def terminal_def in_class_def)

lemma yields_end [simp]: "is_end_of_sequence rules p \<Longrightarrow> yields rules p w \<longleftrightarrow> w = []"
  by (auto simp: is_end_of_sequence_def terminal_def elim: yields.cases intro: yields.finish)

lemma yields_terminal:
  assumes "terminal rules p" "chain rules p qs e"
  shows "yields rules p w \<longleftrightarrow> (\<exists>c v. w = c # v \<and> in_class rules p qs c \<and> yields rules e v)"
proof
  assume "yields rules p w"
  then show "\<exists>c v. w = c # v \<and> in_class rules p qs c \<and> yields rules e v"
  proof cases
    case (char qs' e' c v)
    then show ?thesis using chain_unique [OF assms(2) char(3)] by simp
  qed (use assms(1) in \<open>auto simp: is_end_of_sequence_def terminal_def\<close>)
qed (use assms yields.char in blast)

lemma yields_ref:
  assumes "type_at rules p = ET_RULE_REF"
  shows "yields rules p w \<longleftrightarrow> (\<exists>s \<in> set (alternates rules (el_value (at rules p))). \<exists>u v. w = u @ v \<and> yields rules s u \<and> yields rules (step_by p 1) v)"
proof
  assume "yields rules p w"
  then show "\<exists>s \<in> set (alternates rules (el_value (at rules p))). \<exists>u v. w = u @ v \<and> yields rules s u \<and> yields rules (step_by p 1) v"
    by (cases rule: yields.cases) (use assms in \<open>auto simp: is_end_of_sequence_def terminal_def\<close>)
qed (use assms yields.ref in blast)

lemma stack_yields_push [simp]:
  "stack_yields rules (push_position rules p stack) w \<longleftrightarrow> (\<exists>u v. w = u @ v \<and> yields rules p u \<and> stack_yields rules stack v)"
  by (simp add: push_position_def)

section \<open>Expanding a stack\<close>

definition some_yields :: "Rules \<Rightarrow> Stacks \<Rightarrow> nat list \<Rightarrow> bool" where
  "some_yields rules stacks w \<longleftrightarrow> (\<exists>s \<in> set stacks. stack_yields rules s w)"

lemma some_yields_add [simp]: "some_yields rules (add_stack s stacks) w \<longleftrightarrow> some_yields rules stacks w \<or> stack_yields rules s w"
  by (auto simp: some_yields_def add_stack_def)

text \<open>A loop that adds what each of its items yields adds what some of them yields.\<close>

lemma fold_result_yields:
  assumes "\<And>a b b' w. a \<in> set as \<Longrightarrow> f a b = Inr b' \<Longrightarrow> some_yields rules b' w \<longleftrightarrow> some_yields rules b w \<or> P a w"
    and "fold_result f as b = Inr b'"
  shows "some_yields rules b' w \<longleftrightarrow> some_yields rules b w \<or> (\<exists>a \<in> set as. P a w)"
  using assms
proof (induction as arbitrary: b)
  case (Cons a as)
  obtain c where c: "f a b = Inr c" "fold_result f as c = Inr b'" using Cons.prems(2) by (auto split: sum.splits)
  have "some_yields rules b' w \<longleftrightarrow> some_yields rules c w \<or> (\<exists>a \<in> set as. P a w)" using Cons.IH [OF _ c(2)] Cons.prems(1) by auto
  moreover have "some_yields rules c w \<longleftrightarrow> some_yields rules b w \<or> P a w" using Cons.prems(1) [of a b c w] c(1) by simp
  ultimately show ?case by auto
qed simp

lemma stack_yields_ref:
  assumes "type_at rules p = ET_RULE_REF"
  shows "stack_yields rules (p # below) w \<longleftrightarrow> (\<exists>s \<in> set (alternates rules (el_value (at rules p))).
     stack_yields rules (push_position rules s (push_position rules (step_by p 1) below)) w)"
proof -
  have "stack_yields rules (p # below) w \<longleftrightarrow> (\<exists>s \<in> set (alternates rules (el_value (at rules p))). \<exists>u v1 v2. w = u @ v1 @ v2 \<and>
      yields rules s u \<and> yields rules (step_by p 1) v1 \<and> stack_yields rules below v2)"
    by (auto simp: yields_ref [OF assms]) (metis append.assoc)+
  then show ?thesis unfolding stack_yields_push by blast
qed

lemma advance_yields:
  "advance_stack n rules stack acc = Inr acc' \<Longrightarrow> some_yields rules acc' w \<longleftrightarrow> some_yields rules acc w \<or> stack_yields rules stack w"
proof (induction n arbitrary: stack acc acc' w)
  case (Suc n)
  show ?case
  proof (cases stack)
    case Nil
    then show ?thesis using Suc.prems by auto
  next
    case (Cons p below)
    show ?thesis
    proof (cases "type_at rules p = ET_RULE_REF")
      case True
      let ?f = "\<lambda>subpos. advance_stack n rules (push_position rules subpos (push_position rules (step_by p 1) below))"
      have "fold_result ?f (alternates rules (el_value (at rules p))) acc = Inr acc'" using Suc.prems Cons True by simp
      from fold_result_yields [where P = "\<lambda>s. stack_yields rules (push_position rules s (push_position rules (step_by p 1) below))", OF Suc.IH this]
      show ?thesis using Cons stack_yields_ref [OF True, of below w] by simp
    next
      case False
      then show ?thesis using Suc.prems Cons by (auto split: ElementType.splits)
    qed
  qed
qed simp

text \<open>Expanded stacks are empty or rest on a terminal.\<close>

definition resting :: "Rules \<Rightarrow> Stacks \<Rightarrow> bool" where
  "resting rules stacks \<longleftrightarrow> (\<forall>s \<in> set stacks. s = [] \<or> terminal rules (hd s))"

lemma fold_result_keeps:
  assumes "\<And>a b b'. a \<in> set as \<Longrightarrow> f a b = Inr b' \<Longrightarrow> Q b \<Longrightarrow> Q b'" "fold_result f as b = Inr b'" "Q b"
  shows "Q b'"
  using assms by (induction as arbitrary: b) (auto split: sum.splits)

lemma resting_add: "resting rules stacks \<Longrightarrow> s = [] \<or> terminal rules (hd s) \<Longrightarrow> resting rules (add_stack s stacks)"
  by (auto simp: resting_def add_stack_def)

lemma advance_resting: "advance_stack n rules stack acc = Inr acc' \<Longrightarrow> resting rules acc \<Longrightarrow> resting rules acc'"
proof (induction n arbitrary: stack acc acc')
  case (Suc n)
  show ?case
  proof (cases stack)
    case Nil
    then show ?thesis using Suc.prems resting_add by auto
  next
    case (Cons p below)
    show ?thesis
    proof (cases "type_at rules p = ET_RULE_REF")
      case True
      let ?f = "\<lambda>subpos. advance_stack n rules (push_position rules subpos (push_position rules (step_by p 1) below))"
      have "fold_result ?f (alternates rules (el_value (at rules p))) acc = Inr acc'" using Suc.prems Cons True by simp
      from fold_result_keeps [where Q = "resting rules", OF Suc.IH this Suc.prems(2)] show ?thesis .
    next
      case False
      then show ?thesis using Suc.prems Cons resting_add [of rules acc "p # below"] by (auto simp: terminal_def split: ElementType.splits)
    qed
  qed
qed simp

section \<open>Accepting code points\<close>

lemma accept_stack_yields:
  assumes "accept_stack n rules c s acc = Inr acc'" "s = [] \<or> terminal rules (hd s)"
  shows "some_yields rules acc' w \<longleftrightarrow> some_yields rules acc w \<or> stack_yields rules s (c # w)"
proof (cases s)
  case (Cons p below)
  obtain qs e where ch: "chain rules p qs e" using chain_ex by blast
  have t: "terminal rules p" using assms(2) Cons by simp
  have sy: "stack_yields rules (p # below) (c # w) \<longleftrightarrow> in_class rules p qs c \<and> stack_yields rules (push_position rules e below) w"
    by (auto simp: yields_terminal [OF t ch] Cons_eq_append_conv)
  show ?thesis
  proof (cases "in_class rules p qs c")
    case True
    then have "advance_stack n rules (push_position rules e below) acc = Inr acc'"
      using assms(1) Cons match_char_correct [OF ch, of c] t by (simp add: accept_stack_def)
    from advance_yields [OF this, of w] show ?thesis using Cons sy True by simp
  next
    case False
    then have "acc' = acc" using assms(1) Cons match_char_correct [OF ch, of c] t by (simp add: accept_stack_def)
    then show ?thesis using Cons sy False by blast
  qed
qed (use assms in \<open>simp add: accept_stack_def\<close>)

lemma accept_stack_resting: "accept_stack n rules c s acc = Inr acc' \<Longrightarrow> resting rules acc \<Longrightarrow> resting rules acc'"
  by (auto simp: accept_stack_def intro: advance_resting split: list.splits sum.splits if_splits)

lemma accept_points_yields:
  "accept_points n rules cs stacks = Inr stacks' \<Longrightarrow> resting rules stacks \<Longrightarrow>
     resting rules stacks' \<and> (\<forall>w. some_yields rules stacks' w \<longleftrightarrow> some_yields rules stacks (cs @ w))"
proof (induction cs arbitrary: stacks)
  case (Cons c cs)
  obtain mid where mid: "fold_result (accept_stack n rules c) stacks [] = Inr mid"
    "(if mid = [] then Inr [] else accept_points n rules cs mid) = Inr stacks'" using Cons.prems(1) by (auto split: sum.splits)
  have none: "resting rules []" "\<not> some_yields rules [] w" for w by (simp_all add: resting_def some_yields_def)
  have "some_yields rules mid w \<longleftrightarrow> some_yields rules [] w \<or> (\<exists>s \<in> set stacks. stack_yields rules s (c # w))" for w
    by (rule fold_result_yields [OF accept_stack_yields mid(1)]) (use Cons.prems(2) in \<open>auto simp: resting_def\<close>)
  then have y: "some_yields rules mid w \<longleftrightarrow> some_yields rules stacks (c # w)" for w using none by (simp add: some_yields_def)
  have r: "resting rules mid" using fold_result_keeps [where Q = "resting rules", OF accept_stack_resting mid(1) none(1)] .
  show ?case
  proof (cases "mid = []")
    case True
    then show ?thesis using mid(2) none y by auto
  next
    case False
    then show ?thesis using Cons.IH [of mid] mid(2) r y by simp
  qed
qed simp

lemma initial_yields:
  assumes "initial_stacks n rules root = Inr stacks"
  shows "resting rules stacks \<and> (some_yields rules stacks w \<longleftrightarrow> language rules root w)"
proof -
  let ?f = "\<lambda>pos. advance_stack n rules (push_position rules pos [])"
  have f: "fold_result ?f (alternates rules root) [] = Inr stacks" using assms by (simp add: initial_stacks_def)
  have none: "resting rules []" "\<not> some_yields rules [] w" by (simp_all add: resting_def some_yields_def)
  have "some_yields rules stacks w \<longleftrightarrow> some_yields rules [] w \<or> (\<exists>s \<in> set (alternates rules root). stack_yields rules (push_position rules s []) w)"
    using fold_result_yields [where P = "\<lambda>s. stack_yields rules (push_position rules s [])", OF advance_yields f] .
  moreover have "resting rules stacks" using fold_result_keeps [where Q = "resting rules", OF advance_resting f none(1)] .
  ultimately show ?thesis using none by (simp add: language_def)
qed

lemma resting_empty: "resting rules stacks \<Longrightarrow> [] \<in> set stacks \<longleftrightarrow> some_yields rules stacks []"
proof
  assume "resting rules stacks" "some_yields rules stacks []"
  then obtain s where s: "s \<in> set stacks" "stack_yields rules s []" "s = [] \<or> terminal rules (hd s)" by (auto simp: some_yields_def resting_def)
  show "[] \<in> set stacks"
  proof (cases s)
    case (Cons p below)
    obtain qs e where "chain rules p qs e" using chain_ex by blast
    then show ?thesis using s Cons yields_terminal [of rules p qs e "[]"] by auto
  qed (use s in simp)
qed (auto simp: some_yields_def intro: bexI [of _ "[]"])

section \<open>The expansion ends\<close>

text \<open>Well-formed rules: each ends with its only end marker, a range continuation follows a character, references are in range.\<close>

definition follows :: "ElementType \<Rightarrow> ElementType \<Rightarrow> bool" where
  "follows a b \<longleftrightarrow> (b = ET_CHAR_RNG_UPPER \<longrightarrow> a \<in> {ET_CHAR, ET_CHAR_NOT, ET_CHAR_ALT}) \<and>
     (b = ET_CHAR_ALT \<longrightarrow> a \<in> {ET_CHAR, ET_CHAR_NOT, ET_CHAR_ALT, ET_CHAR_RNG_UPPER})"

definition rule_ok :: "nat \<Rightarrow> Rule \<Rightarrow> bool" where
  "rule_ok n rule \<longleftrightarrow> rule \<noteq> [] \<and> el_type (last rule) = ET_END \<and>
     (\<forall>i < length rule - 1. el_type (rule ! i) \<noteq> ET_END \<and> follows (el_type (rule ! i)) (el_type (rule ! Suc i))) \<and>
     el_type (hd rule) \<notin> {ET_CHAR_RNG_UPPER, ET_CHAR_ALT} \<and> (\<forall>e \<in> set rule. el_type e = ET_RULE_REF \<longrightarrow> el_value e < n)"

definition rules_ok :: "Rules \<Rightarrow> bool" where
  "rules_ok rules \<longleftrightarrow> (\<forall>rule \<in> set rules. rule_ok (length rules) rule)"

definition start_ok :: "Rules \<Rightarrow> position \<Rightarrow> bool" where
  "start_ok rules p \<longleftrightarrow> type_at rules p \<notin> {ET_CHAR_RNG_UPPER, ET_CHAR_ALT}"

lemma rules_follow: "rules_ok rules \<Longrightarrow> follows (type_at rules p) (type_at rules (step_by p 1))"
proof -
  assume ok: "rules_ok rules"
  show ?thesis
  proof (cases "type_at rules (step_by p 1) \<in> {ET_CHAR_RNG_UPPER, ET_CHAR_ALT}")
    case True
    then have "fst p < length rules" "Suc (snd p) < length (rules ! fst p)"
      by (auto simp: type_at_def at_def step_by_def split: if_splits)
    moreover from this have "rule_ok (length rules) (rules ! fst p)" using ok by (simp add: rules_ok_def)
    ultimately show ?thesis by (auto simp: rule_ok_def type_at_def at_def step_by_def)
  qed (simp add: follows_def)
qed

lemma start_after: "rules_ok rules \<Longrightarrow> type_at rules p \<in> {ET_RULE_REF, ET_ALT, ET_END} \<Longrightarrow> start_ok rules (step_by p 1)"
  using rules_follow [of rules p] by (auto simp: follows_def start_ok_def)

lemma start_rule: "rules_ok rules \<Longrightarrow> start_ok rules (r, 0)"
proof (cases "r < length rules")
  case True
  assume "rules_ok rules"
  then have "rule_ok (length rules) (rules ! r)" using True by (simp add: rules_ok_def)
  then have "rules ! r \<noteq> []" "el_type (rules ! r ! 0) \<notin> {ET_CHAR_RNG_UPPER, ET_CHAR_ALT}" by (auto simp: rule_ok_def hd_conv_nth [symmetric])
  then show ?thesis using True by (simp add: start_ok_def type_at_def at_def)
qed (simp add: start_ok_def type_at_def at_def)

lemma start_alternates:
  assumes ok: "rules_ok rules"
  shows "s \<in> set (alternates rules r) \<Longrightarrow> start_ok rules s"
proof -
  have "rules_ok rules \<Longrightarrow> start_ok rules p \<Longrightarrow> s \<in> set (alternates_from rules p) \<Longrightarrow> start_ok rules s" for p
  proof (induction rules p rule: alternates_from.induct)
    case (1 rules p)
    let ?e = "sequence_end rules p"
    have "s = p \<or> type_at rules ?e = ET_ALT \<and> s \<in> set (alternates_from rules (step_by ?e 1))"
      using 1(4) by (subst (asm) alternates_from.simps) (simp split: if_splits)
    then show ?case using 1 start_after [of rules ?e] by blast
  qed
  then show "s \<in> set (alternates rules r) \<Longrightarrow> start_ok rules s" using start_rule [OF ok] ok unfolding alternates_def by blast
qed

lemma start_chain: "chain rules p qs e \<Longrightarrow> rules_ok rules \<Longrightarrow> start_ok rules e"
proof (induction rule: chain.induct)
  case (last p)
  let ?q = "step_by p 1"
  show ?case
  proof (cases "type_at rules ?q = ET_CHAR_RNG_UPPER")
    case True
    then have "after_range rules p = step_by ?q 1" by (simp add: after_range_def step_by_def)
    then show ?thesis using last True rules_follow [of rules ?q] by (auto simp: start_ok_def follows_def)
  next
    case False
    then show ?thesis using last by (simp add: start_ok_def after_range_def)
  qed
qed

text \<open>
  No left recursion, with a certificate: \<open>nu\<close> holds of the rules that may derive the empty text, and a rule
  reached at the left end of another has a smaller rank.
\<close>

function left_seq :: "Rules \<Rightarrow> (nat \<Rightarrow> bool) \<Rightarrow> (nat \<Rightarrow> nat) \<Rightarrow> nat \<Rightarrow> position \<Rightarrow> bool" where
  "left_seq rules nu rank r p \<longleftrightarrow>
     (if is_end_of_sequence rules p then nu r
      else if type_at rules p = ET_RULE_REF
      then rank (el_value (at rules p)) < rank r \<and> (nu (el_value (at rules p)) \<longrightarrow> left_seq rules nu rank r (step_by p 1))
      else True)"
  by pat_completeness auto
termination
  by (relation "measure (\<lambda>(rules, nu, rank, r, p). room_after rules p)") (simp_all add: is_end_of_sequence_def room_decreases)

declare left_seq.simps [simp del]

definition left_ok :: "Rules \<Rightarrow> (nat \<Rightarrow> bool) \<Rightarrow> (nat \<Rightarrow> nat) \<Rightarrow> bool" where
  "left_ok rules nu rank \<longleftrightarrow> (\<forall>r \<in> set [0..<length rules]. \<forall>s \<in> set (alternates rules r). left_seq rules nu rank r s)"

lemma fold_result_mono:
  assumes "\<And>a b x. f a b = Inr x \<Longrightarrow> g a b = Inr x" "fold_result f as b = Inr x"
  shows "fold_result g as b = Inr x"
  using assms(2)
proof (induction as arbitrary: b)
  case (Cons a as)
  obtain b1 where "f a b = Inr b1" "fold_result f as b1 = Inr x" using Cons.prems by (auto split: sum.splits)
  then show ?case using assms(1) Cons.IH by simp
qed simp

lemma advance_more_fuel: "advance_stack n rules stack acc = Inr x \<Longrightarrow> n \<le> m \<Longrightarrow> advance_stack m rules stack acc = Inr x"
proof (induction n arbitrary: m stack acc x)
  case (Suc n)
  obtain k where k: "m = Suc k" "n \<le> k" using Suc.prems(2) by (cases m) auto
  show ?case
  proof (cases stack)
    case Nil
    then show ?thesis using Suc.prems k by simp
  next
    case (Cons p below)
    show ?thesis
    proof (cases "type_at rules p = ET_RULE_REF")
      case True
      let ?f = "\<lambda>n subpos. advance_stack n rules (push_position rules subpos (push_position rules (step_by p 1) below))"
      have "fold_result (?f n) (alternates rules (el_value (at rules p))) acc = Inr x" using Suc.prems Cons True by simp
      then have "fold_result (?f k) (alternates rules (el_value (at rules p))) acc = Inr x"
        by (rule fold_result_mono [rotated]) (rule Suc.IH [OF _ k(2)])
      then show ?thesis using Cons True k by simp
    next
      case False
      then show ?thesis using Suc.prems Cons k by (simp split: ElementType.splits)
    qed
  qed
qed simp

text \<open>The expansion of a stack returns, with some fuel that does for every accumulator.\<close>

definition expands :: "Rules \<Rightarrow> Stack \<Rightarrow> bool" where
  "expands rules stack \<longleftrightarrow> (\<exists>n. \<forall>acc. \<exists>acc'. advance_stack n rules stack acc = Inr acc')"

lemma expands_Nil: "expands rules []"
  unfolding expands_def by (intro exI [of _ 1]) simp

lemma expands_terminal: "terminal rules p \<Longrightarrow> expands rules (p # below)"
  unfolding expands_def by (intro exI [of _ 1]) (auto simp: terminal_def)

lemma fold_result_total: "(\<And>a b. a \<in> set as \<Longrightarrow> \<exists>b'. f a b = Inr b') \<Longrightarrow> \<exists>b'. fold_result f as b = Inr b'"
proof (induction as arbitrary: b)
  case (Cons a as)
  obtain b1 where "f a b = Inr b1" using Cons.prems by fastforce
  then show ?case using Cons.IH [of b1] Cons.prems by auto
qed simp

lemma common_fuel:
  assumes "\<forall>s \<in> set ss. expands rules (h s)"
  obtains n where "\<forall>s \<in> set ss. \<forall>acc. \<exists>acc'. advance_stack n rules (h s) acc = Inr acc'"
proof -
  have "\<exists>n. \<forall>s \<in> set ss. \<forall>acc. \<exists>acc'. advance_stack n rules (h s) acc = Inr acc'" using assms
  proof (induction ss)
    case (Cons s ss)
    obtain n where n: "\<forall>s \<in> set ss. \<forall>acc. \<exists>acc'. advance_stack n rules (h s) acc = Inr acc'" using Cons by auto
    obtain m where m: "\<forall>acc. \<exists>acc'. advance_stack m rules (h s) acc = Inr acc'" using Cons.prems by (auto simp: expands_def)
    have "\<exists>acc'. advance_stack (max n m) rules (h t) acc = Inr acc'" if "t \<in> set (s # ss)" for t acc
      using that n m advance_more_fuel [of n rules _ _ _ "max n m"] advance_more_fuel [of m rules _ _ _ "max n m"]
      by (metis max.cobounded1 max.cobounded2 set_ConsD)
    then show ?case by blast
  qed simp
  then show thesis using that by blast
qed

lemma expands_ref:
  assumes "type_at rules p = ET_RULE_REF"
    and "\<forall>s \<in> set (alternates rules (el_value (at rules p))). expands rules (push_position rules s (push_position rules (step_by p 1) below))"
  shows "expands rules (p # below)"
proof -
  let ?as = "alternates rules (el_value (at rules p))"
  let ?h = "\<lambda>s. push_position rules s (push_position rules (step_by p 1) below)"
  obtain n where n: "\<forall>s \<in> set ?as. \<forall>acc. \<exists>acc'. advance_stack n rules (?h s) acc = Inr acc'" using common_fuel [of ?as rules ?h] assms(2) by blast
  have "\<exists>acc'. fold_result (\<lambda>s. advance_stack n rules (?h s)) ?as acc = Inr acc'" for acc
    by (rule fold_result_total) (use n in blast)
  then show ?thesis using assms(1) unfolding expands_def by (intro exI [of _ "Suc n"]) simp
qed

text \<open>A position is an end, a terminal or a reference.\<close>

lemma start_cases:
  assumes "start_ok rules p"
  obtains (eos) "is_end_of_sequence rules p" | (letter) "terminal rules p" | (ref) "type_at rules p = ET_RULE_REF"
  using assms by (cases "type_at rules p") (auto simp: start_ok_def is_end_of_sequence_def terminal_def)

lemma ref_in_range: "rules_ok rules \<Longrightarrow> type_at rules p = ET_RULE_REF \<Longrightarrow> el_value (at rules p) < length rules"
proof -
  assume ok: "rules_ok rules" and t: "type_at rules p = ET_RULE_REF"
  then have p: "fst p < length rules" "snd p < length (rules ! fst p)" by (auto simp: type_at_def at_def split: if_splits)
  then have "rule_ok (length rules) (rules ! fst p)" "at rules p \<in> set (rules ! fst p)" using ok by (simp_all add: rules_ok_def at_def)
  then show ?thesis using t by (auto simp: rule_ok_def type_at_def)
qed

lemma expands_left:
  assumes ok: "rules_ok rules" and left: "left_ok rules nu rank"
  shows "type_at rules p = ET_RULE_REF \<Longrightarrow> (nu (el_value (at rules p)) \<Longrightarrow> expands rules (push_position rules (step_by p 1) below)) \<Longrightarrow>
    expands rules (p # below)"
proof (induction "rank (el_value (at rules p))" arbitrary: p below rule: less_induct)
  case less
  let ?r = "el_value (at rules p)" and ?S = "push_position rules (step_by p 1) below"
  have seq: "expands rules (push_position rules q ?S)" if "left_seq rules nu rank ?r q" "start_ok rules q" for q
    using that
  proof (induction "room_after rules q" arbitrary: q rule: less_induct)
    case inner: less
    from inner.prems(2) show ?case
    proof (cases rule: start_cases)
      case eos
      then show ?thesis using inner.prems(1) less.prems(2) by (simp add: left_seq.simps push_position_def)
    next
      case letter
      then show ?thesis using expands_terminal by (auto simp: push_position_def terminal_def is_end_of_sequence_def)
    next
      case ref
      then have ne: "\<not> is_end_of_sequence rules q" by (simp add: is_end_of_sequence_def)
      have l: "rank (el_value (at rules q)) < rank ?r" "nu (el_value (at rules q)) \<Longrightarrow> left_seq rules nu rank ?r (step_by q 1)"
        using inner.prems(1) ref ne by (simp_all add: left_seq.simps [of rules nu rank ?r q])
      have "expands rules (push_position rules (step_by q 1) ?S)" if "nu (el_value (at rules q))"
        using inner.hyps [OF room_decreases [of rules q 1] l(2) [OF that] start_after [OF ok]] ref by simp
      then have "expands rules (q # ?S)" using less.hyps [OF l(1) ref] by blast
      then show ?thesis using ne by (simp add: push_position_def)
    qed
  qed
  have "left_seq rules nu rank ?r s" if "s \<in> set (alternates rules ?r)" for s
    using left ref_in_range [OF ok less.prems(1)] that by (simp add: left_ok_def)
  then show ?case using expands_ref [OF less.prems(1)] seq start_alternates [OF ok] by blast
qed

lemma expands_push:
  assumes ok: "rules_ok rules" and left: "left_ok rules nu rank"
  shows "start_ok rules p \<Longrightarrow> expands rules below \<Longrightarrow> expands rules (push_position rules p below)"
proof (induction "room_after rules p" arbitrary: p rule: less_induct)
  case less
  from less.prems(1) show ?case
  proof (cases rule: start_cases)
    case ref
    then have "expands rules (push_position rules (step_by p 1) below)"
      using less.hyps [OF room_decreases [of rules p 1] start_after [OF ok]] less.prems(2) by simp
    then show ?thesis using expands_left [OF ok left ref] ref by (simp add: push_position_def is_end_of_sequence_def)
  qed (use less.prems expands_terminal in \<open>auto simp: push_position_def is_end_of_sequence_def terminal_def\<close>)
qed

section \<open>Total acceptance\<close>

definition stack_ok :: "Rules \<Rightarrow> Stack \<Rightarrow> bool" where
  "stack_ok rules stack \<longleftrightarrow> (\<forall>p \<in> set stack. start_ok rules p \<and> \<not> is_end_of_sequence rules p)"

definition stacks_ok :: "Rules \<Rightarrow> Stacks \<Rightarrow> bool" where
  "stacks_ok rules stacks \<longleftrightarrow> (\<forall>s \<in> set stacks. stack_ok rules s)"

lemma stack_ok_push [simp]: "start_ok rules p \<Longrightarrow> stack_ok rules below \<Longrightarrow> stack_ok rules (push_position rules p below)"
  by (simp add: stack_ok_def push_position_def)

lemma stack_ok_expands:
  assumes "rules_ok rules" "left_ok rules nu rank"
  shows "stack_ok rules stack \<Longrightarrow> expands rules stack"
proof (induction stack)
  case (Cons p below)
  then have "expands rules (push_position rules p below)" using expands_push [OF assms] by (simp add: stack_ok_def)
  then show ?case using Cons.prems by (simp add: stack_ok_def push_position_def)
qed (rule expands_Nil)

lemma advance_stacks_ok:
  assumes ok: "rules_ok rules"
  shows "advance_stack n rules stack acc = Inr acc' \<Longrightarrow> stack_ok rules stack \<Longrightarrow> stacks_ok rules acc \<Longrightarrow> stacks_ok rules acc'"
proof (induction n arbitrary: stack acc acc')
  case (Suc n)
  have add: "stacks_ok rules (add_stack stack acc)" using Suc.prems(2,3) by (auto simp: stacks_ok_def add_stack_def)
  show ?case
  proof (cases stack)
    case (Cons p below)
    show ?thesis
    proof (cases "type_at rules p = ET_RULE_REF")
      case True
      let ?f = "\<lambda>subpos. advance_stack n rules (push_position rules subpos (push_position rules (step_by p 1) below))"
      have f: "fold_result ?f (alternates rules (el_value (at rules p))) acc = Inr acc'" using Suc.prems Cons True by simp
      have "stack_ok rules below" "start_ok rules (step_by p 1)" using Suc.prems(2) Cons start_after [OF ok] True by (simp_all add: stack_ok_def)
      then have "stack_ok rules (push_position rules s (push_position rules (step_by p 1) below))"
        if "s \<in> set (alternates rules (el_value (at rules p)))" for s using start_alternates [OF ok that] by simp
      then show ?thesis using fold_result_keeps [where Q = "stacks_ok rules", OF _ f Suc.prems(3)] Suc.IH by blast
    next
      case False
      then show ?thesis using Suc.prems(1) Cons add by (simp split: ElementType.splits)
    qed
  qed (use Suc.prems add in simp)
qed simp

lemma accept_stack_ok:
  assumes ok: "rules_ok rules" and a: "accept_stack n rules c s acc = Inr acc'" and s: "stack_ok rules s" "stacks_ok rules acc"
  shows "stacks_ok rules acc'"
proof (cases s)
  case (Cons p below)
  obtain qs e where ch: "chain rules p qs e" using chain_ex by blast
  have "stack_ok rules (push_position rules e below)" using s(1) Cons start_chain [OF ch ok] by (simp add: stack_ok_def push_position_def)
  then show ?thesis using a Cons match_char_correct [OF ch, of c] s(2) advance_stacks_ok [OF ok]
    by (auto simp: accept_stack_def split: if_splits)
qed (use a s in \<open>simp add: accept_stack_def\<close>)

lemma accept_stack_total:
  assumes ok: "rules_ok rules" and left: "left_ok rules nu rank" and s: "stack_ok rules s" "s = [] \<or> terminal rules (hd s)"
  shows "\<exists>n0. \<forall>n \<ge> n0. \<forall>acc. \<exists>acc'. accept_stack n rules c s acc = Inr acc'"
proof (cases s)
  case (Cons p below)
  obtain qs e where ch: "chain rules p qs e" using chain_ex by blast
  have "stack_ok rules (push_position rules e below)" using s(1) Cons start_chain [OF ch ok] by (simp add: stack_ok_def push_position_def)
  then obtain n0 where "\<forall>acc. \<exists>acc'. advance_stack n0 rules (push_position rules e below) acc = Inr acc'"
    using stack_ok_expands [OF ok left] unfolding expands_def by blast
  then have "\<forall>n \<ge> n0. \<forall>acc. \<exists>acc'. advance_stack n rules (push_position rules e below) acc = Inr acc'" using advance_more_fuel by blast
  then show ?thesis using Cons match_char_correct [OF ch, of c] s(2) by (auto simp: accept_stack_def)
qed (simp add: accept_stack_def)

text \<open>Loops with eventually total bodies are eventually total.\<close>

lemma fold_result_eventually:
  assumes "\<forall>a \<in> set as. \<exists>n0. \<forall>n \<ge> n0. \<forall>b. \<exists>b'. f n a b = Inr b'"
  shows "\<exists>n0. \<forall>n \<ge> (n0 :: nat). \<forall>b. \<exists>b'. fold_result (f n) as b = Inr b'"
  using assms
proof (induction as)
  case (Cons a as)
  obtain n1 where n1: "\<forall>n \<ge> n1. \<forall>b. \<exists>b'. f n a b = Inr b'" using Cons.prems by auto
  obtain n2 where n2: "\<forall>n \<ge> n2. \<forall>b. \<exists>b'. fold_result (f n) as b = Inr b'" using Cons by auto
  have "\<exists>b'. fold_result (f n) (a # as) b = Inr b'" if "max n1 n2 \<le> n" for n b
  proof -
    obtain b1 where "f n a b = Inr b1" using n1 \<open>max n1 n2 \<le> n\<close> by fastforce
    then show ?thesis using n2 \<open>max n1 n2 \<le> n\<close> by simp
  qed
  then show ?case by blast
qed simp

lemma accept_stack_more: "accept_stack n rules c s acc = Inr x \<Longrightarrow> n \<le> m \<Longrightarrow> accept_stack m rules c s acc = Inr x"
  by (auto simp: accept_stack_def intro: advance_more_fuel split: list.splits sum.splits if_splits)

lemma accept_points_total:
  assumes ok: "rules_ok rules" and left: "left_ok rules nu rank"
  shows "stacks_ok rules stacks \<Longrightarrow> resting rules stacks \<Longrightarrow>
    \<exists>n0 stacks'. stacks_ok rules stacks' \<and> (\<forall>n \<ge> n0. accept_points n rules cs stacks = Inr stacks')"
proof (induction cs arbitrary: stacks)
  case (Cons c cs)
  have "\<forall>s \<in> set stacks. \<exists>n0. \<forall>n \<ge> n0. \<forall>acc. \<exists>acc'. accept_stack n rules c s acc = Inr acc'"
    using accept_stack_total [OF ok left] Cons.prems by (simp add: stacks_ok_def resting_def)
  then obtain n1 where n1: "\<forall>n \<ge> n1. \<forall>b. \<exists>b'. fold_result (accept_stack n rules c) stacks b = Inr b'"
    using fold_result_eventually [where f = "\<lambda>n. accept_stack n rules c"] by blast
  then obtain mid where "fold_result (accept_stack n1 rules c) stacks [] = Inr mid" by blast
  then have mid: "fold_result (accept_stack n rules c) stacks [] = Inr mid" if "n1 \<le> n" for n
    by (rule fold_result_mono [rotated]) (rule accept_stack_more [OF _ that])
  have nil: "resting rules []" "stacks_ok rules []" by (simp_all add: resting_def stacks_ok_def)
  have r: "resting rules mid" using fold_result_keeps [where Q = "resting rules", OF accept_stack_resting mid [OF order_refl] nil(1)] .
  have keep: "stacks_ok rules b'" if "s \<in> set stacks" "accept_stack n1 rules c s b = Inr b'" "stacks_ok rules b" for s b b'
    using accept_stack_ok [OF ok that(2) _ that(3)] that(1) Cons.prems(1) by (simp add: stacks_ok_def)
  have so: "stacks_ok rules mid" using fold_result_keeps [where Q = "stacks_ok rules", OF keep mid [OF order_refl] nil(2)] .
  show ?case
  proof (cases "mid = []")
    case True
    then show ?thesis using mid by (intro exI [of _ n1] exI [of _ "[]"]) (simp add: stacks_ok_def)
  next
    case False
    obtain n2 out where "stacks_ok rules out" "\<forall>n \<ge> n2. accept_points n rules cs mid = Inr out" using Cons.IH [OF so r] by blast
    then show ?thesis using mid False by (intro exI [of _ "max n1 n2"] exI [of _ out]) simp
  qed
qed auto

lemma initial_total:
  assumes ok: "rules_ok rules" and left: "left_ok rules nu rank"
  shows "\<exists>n0 stacks. stacks_ok rules stacks \<and> (\<forall>n \<ge> n0. initial_stacks n rules root = Inr stacks)"
proof -
  let ?as = "alternates rules root" and ?h = "\<lambda>s. push_position rules s []"
  have so: "stack_ok rules (?h s)" if "s \<in> set ?as" for s using start_alternates [OF ok that] by (simp add: stack_ok_def push_position_def)
  then have "\<forall>s \<in> set ?as. expands rules (?h s)" using stack_ok_expands [OF ok left] by blast
  then obtain n where "\<forall>s \<in> set ?as. \<forall>acc. \<exists>acc'. advance_stack n rules (?h s) acc = Inr acc'" using common_fuel [of ?as rules ?h] by blast
  then obtain out where out: "fold_result (\<lambda>s. advance_stack n rules (?h s)) ?as [] = Inr out"
    using fold_result_total [of ?as "\<lambda>s. advance_stack n rules (?h s)" "[]"] by blast
  have keep: "stacks_ok rules b'" if "s \<in> set ?as" "advance_stack n rules (?h s) b = Inr b'" "stacks_ok rules b" for s b b'
    using advance_stacks_ok [OF ok that(2) so [OF that(1)] that(3)] .
  have "stacks_ok rules []" by (simp add: stacks_ok_def)
  from fold_result_keeps [where Q = "stacks_ok rules", OF keep out this] have "stacks_ok rules out" .
  moreover have "fold_result (\<lambda>s. advance_stack m rules (?h s)) ?as [] = Inr out" if "n \<le> m" for m
    using out by (rule fold_result_mono [rotated]) (rule advance_more_fuel [OF _ that])
  ultimately show ?thesis unfolding initial_stacks_def by blast
qed

end
