(* ===== verification/Gbnf_Props.thy ===== *)
theory Gbnf_Props
  imports Gbnf_Lang
begin

text \<open>
  The matcher object against the language of its grammar: pieces of text that end on character boundaries are
  accepted exactly as far as the language allows.
\<close>

section \<open>Pieces of text\<close>

fun accept_pieces :: "nat \<Rightarrow> Matcher \<Rightarrow> u8 list list \<Rightarrow> Matcher result" where
  "accept_pieces n m [] = Inr m"
| "accept_pieces n m (piece # pieces) = (case accept_bytes n m piece of Inl e \<Rightarrow> Inl e | Inr m' \<Rightarrow> accept_pieces n m' pieces)"

text \<open>A piece of whole characters and its code points.\<close>

definition whole_piece :: "u8 list \<Rightarrow> nat list \<Rightarrow> bool" where
  "whole_piece piece points \<longleftrightarrow> fst (decode_utf8 piece no_partial) = points @ [0] \<and> pu_remain (snd (decode_utf8 piece no_partial)) = 0"

definition start_matcher :: "Rules \<Rightarrow> (u8 list \<times> nat) list \<Rightarrow> Stacks \<Rightarrow> Matcher" where
  "start_matcher rules symbols stacks = \<lparr>m_rules = rules, m_symbols = symbols, m_stacks = stacks, m_partial = no_partial\<rparr>"

lemma continue_none_open [simp]: "continue_sequence v 0 bs = Some (v, 0, bs)"
  by (cases bs) simp_all

lemma decode_closed:
  assumes "pu_remain u = 0"
  shows "fst (decode_utf8 bytes u) = fst (decode_utf8 bytes no_partial) \<and>
    pu_remain (snd (decode_utf8 bytes u)) = pu_remain (snd (decode_utf8 bytes no_partial))"
  using assms by (cases "takeWhile (\<lambda>b. b \<noteq> 0) (map unat bytes)") (simp_all add: decode_utf8_def no_partial_def)

lemma accept_points_dead [simp]: "accept_points n rules cs [] = Inr []"
  by (cases cs) simp_all

lemma accept_points_append:
  "accept_points n rules (cs @ ds) stacks = (case accept_points n rules cs stacks of Inl e \<Rightarrow> Inl e | Inr s \<Rightarrow> accept_points n rules ds s)"
  by (induction cs arbitrary: stacks) (auto split: sum.split)

lemma accept_whole_piece:
  assumes "whole_piece piece points" "pu_remain (m_partial m) = 0" "accept_points n (m_rules m) points (m_stacks m) = Inr stacks"
  shows "\<exists>m'. accept_bytes n m piece = Inr m' \<and> m_rules m' = m_rules m \<and> m_stacks m' = stacks \<and> pu_remain (m_partial m') = 0"
proof -
  obtain ps u where d: "decode_utf8 piece (m_partial m) = (ps, u)" by (metis surj_pair)
  have "ps = points @ [0]" "pu_remain u = 0" using decode_closed [OF assms(2), of piece] assms(1) d by (simp_all add: whole_piece_def)
  then show ?thesis using d assms(2,3) by (auto simp: accept_bytes_def)
qed

lemma accept_pieces_points:
  assumes "list_all2 whole_piece pieces points" "pu_remain (m_partial m) = 0" "accept_points n (m_rules m) (concat points) (m_stacks m) = Inr stacks"
  shows "\<exists>m'. accept_pieces n m pieces = Inr m' \<and> m_rules m' = m_rules m \<and> m_stacks m' = stacks \<and> pu_remain (m_partial m') = 0"
  using assms
proof (induction pieces points arbitrary: m rule: list_all2_induct)
  case (Cons piece pieces ps points)
  obtain mid where mid: "accept_points n (m_rules m) ps (m_stacks m) = Inr mid" "accept_points n (m_rules m) (concat points) mid = Inr stacks"
    using Cons.prems(2) by (auto simp: accept_points_append split: sum.splits)
  obtain m1 where m1: "accept_bytes n m piece = Inr m1" "m_rules m1 = m_rules m" "m_stacks m1 = mid" "pu_remain (m_partial m1) = 0"
    using accept_whole_piece [OF Cons.hyps(1) Cons.prems(1) mid(1)] by blast
  show ?case using Cons.IH [of m1] m1 mid(2) by simp
qed simp

section \<open>Properties\<close>

text \<open>
  The matcher decides the grammar: for well-formed rules without left recursion it returns, given enough recursion
  depth; after any pieces of whole characters the text may end exactly when it is a sentence of the grammar, the
  texts that can still follow are those the stacks derive, and a dead matcher has no continuation at all.
\<close>

lemma matcher_decides_grammar:
  assumes ok: "rules_ok rules" and left: "left_ok rules nu rank" and pieces: "list_all2 whole_piece pieces points"
  shows "\<exists>n0. \<forall>n \<ge> n0. \<exists>stacks m. initial_stacks n rules root = Inr stacks \<and>
    accept_pieces n (start_matcher rules symbols stacks) pieces = Inr m \<and>
    (can_end m \<longleftrightarrow> language rules root (concat points)) \<and>
    (\<forall>rest. language rules root (concat points @ rest) \<longleftrightarrow> some_yields rules (m_stacks m) rest) \<and>
    (dead m \<longrightarrow> (\<forall>rest. \<not> language rules root (concat points @ rest)))"
proof -
  obtain n1 start where i: "stacks_ok rules start" "\<forall>n \<ge> n1. initial_stacks n rules root = Inr start" using initial_total [OF ok left] by blast
  have s: "resting rules start" "some_yields rules start w \<longleftrightarrow> language rules root w" for w using initial_yields i(2) by blast+
  obtain n2 stacks where a: "\<forall>n \<ge> n2. accept_points n rules (concat points) start = Inr stacks"
    using accept_points_total [OF ok left i(1) s(1)] by blast
  have r: "resting rules stacks" "some_yields rules stacks w \<longleftrightarrow> language rules root (concat points @ w)" for w
    using accept_points_yields [OF a [rule_format, OF order_refl] s(1)] s(2) by auto
  have "\<exists>m. accept_pieces n (start_matcher rules symbols start) pieces = Inr m \<and> m_stacks m = stacks \<and> pu_remain (m_partial m) = 0"
    if "n2 \<le> n" for n
    using accept_pieces_points [OF pieces, of "start_matcher rules symbols start" n stacks] a that by (auto simp: start_matcher_def no_partial_def)
  moreover have "[] \<in> set stacks \<longleftrightarrow> language rules root (concat points)" using resting_empty [OF r(1)] r(2) [of "[]"] by simp
  moreover have "stacks = [] \<Longrightarrow> \<not> language rules root (concat points @ rest)" for rest using r(2) [of rest] by (simp add: some_yields_def)
  ultimately show ?thesis using i(2) r(2)
    by (intro exI [of _ "max n1 n2"]) (fastforce simp: can_end_def dead_def)
qed

text \<open>The grammar \<open>root ::= "a" root | "b"\<close>.\<close>

definition demo_rules :: Rules where
  "demo_rules = [[\<lparr>el_type = ET_CHAR, el_value = 97\<rparr>, \<lparr>el_type = ET_RULE_REF, el_value = 0\<rparr>, \<lparr>el_type = ET_ALT, el_value = 0\<rparr>,
     \<lparr>el_type = ET_CHAR, el_value = 98\<rparr>, \<lparr>el_type = ET_END, el_value = 0\<rparr>]]"

lemma demo_rules_ok: "rules_ok demo_rules" "left_ok demo_rules (\<lambda>_. False) (\<lambda>_. 0)"
proof -
  show "rules_ok demo_rules" by (auto simp: rules_ok_def rule_ok_def demo_rules_def follows_def less_Suc_eq numeral_nat)
  show "left_ok demo_rules (\<lambda>_. False) (\<lambda>_. 0)" by code_simp
qed

lemma demo_language: "language demo_rules 0 [97, 98]"
proof -
  have alts: "alternates demo_rules 0 = [(0, 0), (0, 3)]" by code_simp
  have t: "terminal demo_rules (0, 0)" "terminal demo_rules (0, 3)" "type_at demo_rules (0, 1) = ET_RULE_REF" "el_value (at demo_rules (0, 1)) = 0"
    "is_end_of_sequence demo_rules (0, 2)" "is_end_of_sequence demo_rules (0, 4)" "after_range demo_rules (0, 0) = (0, 1)" "after_range demo_rules (0, 3) = (0, 4)"
    "step_by (0, 1) 1 = (0, 2)" "type_at demo_rules (0, 4) = ET_END" "in_class demo_rules (0, 0) [(0, 0)] 97" "in_class demo_rules (0, 3) [(0, 3)] 98" by code_simp+
  have c: "chain demo_rules (0, 0) [(0, 0)] (0, 1)" "chain demo_rules (0, 3) [(0, 3)] (0, 4)"
    using chain.last [of demo_rules "(0, 0)"] chain.last [of demo_rules "(0, 3)"] t by simp_all
  have "yields demo_rules (0, 3) [98]" by (rule yields.char [OF t(2) c(2) t(12)]) (simp add: t)
  then have "yields demo_rules (0, 1) ([98] @ [])" 
    by (rule yields.ref [OF t(3), of "(0, 3)", rotated]) (unfold t(4,9) alts, simp_all add: t)
  then have "yields demo_rules (0, 0) [97, 98]" using yields.char [OF t(1) c(1) t(11)] by simp
  then show ?thesis by (simp add: language_def alts)
qed

text \<open>
  An inverse class and an open UTF-8 sequence: with \<open>[^\<close>U+00E9\<open>]\<close> the lead byte C3 is refused, although it can be completed to U+00FC,
  which the class accepts.
\<close>

lemma inverse_class_refuses_open_sequence:
  "let rules = [[\<lparr>el_type = ET_CHAR_NOT, el_value = 0xE9\<rparr>, \<lparr>el_type = ET_END, el_value = 0\<rparr>]] in
   \<not> match_partial_char rules (0, 0) (snd (decode_utf8 [0xC3] no_partial)) \<and>
   decode_utf8 [0xC3, 0xBC] no_partial = ([0xFC, 0], \<lparr>pu_value = 0xFC, pu_remain = 0\<rparr>) \<and> match_char rules (0, 0) 0xFC = Inr (True, (0, 1))"
  by code_simp

end
