(* ===== verification/Gbnf_Reject.thy ===== *)
theory Gbnf_Reject
  imports Gbnf_Props
begin

text \<open>
  Testing a token against the grammar (\<open>Matcher::reject\<close>) and advancing over it (\<open>Matcher::accept_bytes\<close>) are
  two different walks over the stacks. Here they are shown to agree: a candidate is rejected exactly
  when accepting it would leave no stack.
\<close>

section \<open>What an expansion adds\<close>

text \<open>A loop body that fails whatever the accumulator, or adds the same stacks to every accumulator.\<close>

definition adds_fixed :: "('a list \<Rightarrow> 'a list result) \<Rightarrow> bool" where
  "adds_fixed f \<longleftrightarrow> (\<exists>e. \<forall>b. f b = Inl e) \<or> (\<exists>D. \<forall>b. \<exists>b'. f b = Inr b' \<and> set b' = set b \<union> D)"

lemma adds_fixedD:
  "adds_fixed f \<Longrightarrow> f b = Inr b' \<Longrightarrow> \<exists>r. f [] = Inr r \<and> set b' = set b \<union> set r"
  unfolding adds_fixed_def by (metis Inl_Inr_False Inr_inject Un_empty_left empty_set)

lemma adds_fixed_Inl: "adds_fixed (\<lambda>b. Inl e)"
  by (auto simp: adds_fixed_def)

lemma adds_fixed_add: "adds_fixed (\<lambda>b. Inr (add_stack s b))"
proof -
  have "set (add_stack s b) = set b \<union> {s}" for b by (auto simp: add_stack_def)
  then show ?thesis by (auto simp: adds_fixed_def)
qed

lemma adds_fixed_id: "adds_fixed Inr"
  unfolding adds_fixed_def by (intro disjI2 exI [of _ "{}"]) simp

lemma adds_fixed_fold: "(\<And>a. a \<in> set as \<Longrightarrow> adds_fixed (f a)) \<Longrightarrow> adds_fixed (fold_result f as)"
proof (induction as)
  case Nil
  then show ?case using adds_fixed_id by (simp add: adds_fixed_def)
next
  case (Cons a as)
  have a: "adds_fixed (f a)" and as: "adds_fixed (fold_result f as)" using Cons by auto
  from a consider (fails) e where "\<forall>b. f a b = Inl e" | (adds) D where "\<forall>b. \<exists>b'. f a b = Inr b' \<and> set b' = set b \<union> D"
    unfolding adds_fixed_def by blast
  then show ?case
  proof cases
    case fails
    then show ?thesis by (simp add: adds_fixed_def)
  next
    case adds
    from as show ?thesis unfolding adds_fixed_def [of "fold_result f as"]
    proof (elim disjE exE)
      fix e assume "\<forall>b. fold_result f as b = Inl e"
      moreover have "\<exists>b'. f a b = Inr b'" for b using adds by blast
      ultimately have "\<forall>b. fold_result f (a # as) b = Inl e" by (metis fold_result.simps(2) sum.case(2))
      then show ?thesis unfolding adds_fixed_def by blast
    next
      fix E assume E: "\<forall>b. \<exists>b'. fold_result f as b = Inr b' \<and> set b' = set b \<union> E"
      have "\<exists>b'. fold_result f (a # as) b = Inr b' \<and> set b' = set b \<union> (D \<union> E)" for b
      proof -
        obtain b1 where b1: "f a b = Inr b1" "set b1 = set b \<union> D" using adds by blast
        obtain b2 where "fold_result f as b1 = Inr b2" "set b2 = set b1 \<union> E" using E by blast
        then show ?thesis using b1 by auto
      qed
      then show ?thesis unfolding adds_fixed_def by blast
    qed
  qed
qed

lemma adds_fixed_advance: "adds_fixed (advance_stack n rules stack)"
proof (induction n arbitrary: stack)
  case 0
  then show ?case by (simp add: adds_fixed_Inl)
next
  case (Suc n)
  have "advance_stack (Suc n) rules stack = (\<lambda>b. advance_stack (Suc n) rules stack b)" by simp
  show ?case
  proof (cases stack)
    case Nil
    then show ?thesis using adds_fixed_add [of "[]"] by simp
  next
    case (Cons p below)
    show ?thesis
    proof (cases "type_at rules p = ET_RULE_REF")
      case True
      then show ?thesis using Cons adds_fixed_fold [OF Suc.IH] by simp
    next
      case False
      then show ?thesis using Cons adds_fixed_add [of stack] adds_fixed_Inl by (cases "type_at rules p") simp_all
    qed
  qed
qed

lemma adds_fixed_accept: "adds_fixed (accept_stack n rules c s)"
proof (cases s)
  case (Cons p below)
  show ?thesis
  proof (cases "match_char rules p c")
    case (Inl e)
    then show ?thesis using Cons adds_fixed_Inl by (simp add: accept_stack_def [abs_def])
  next
    case (Inr r)
    then show ?thesis using Cons adds_fixed_advance adds_fixed_id by (cases r; cases "fst r") (simp_all add: accept_stack_def [abs_def])
  qed
next
  case Nil
  then show ?thesis using adds_fixed_id by (simp add: accept_stack_def [abs_def])
qed

text \<open>The stacks one stack leads to over one code point.\<close>

definition steps_to :: "nat \<Rightarrow> Rules \<Rightarrow> nat \<Rightarrow> Stack \<Rightarrow> Stack set" where
  "steps_to n rules c s = (case accept_stack n rules c s [] of Inl _ \<Rightarrow> {} | Inr r \<Rightarrow> set r)"

lemma fold_accept_set:
  "fold_result (accept_stack n rules c) stacks b = Inr b' \<Longrightarrow> set b' = set b \<union> (\<Union>s \<in> set stacks. steps_to n rules c s)"
proof (induction stacks arbitrary: b)
  case (Cons s stacks)
  obtain b1 where b1: "accept_stack n rules c s b = Inr b1" "fold_result (accept_stack n rules c) stacks b1 = Inr b'"
    using Cons.prems by (auto split: sum.splits)
  obtain r where "accept_stack n rules c s [] = Inr r" "set b1 = set b \<union> set r" using adds_fixedD [OF adds_fixed_accept b1(1)] by blast
  then show ?case using Cons.IH [OF b1(2)] by (auto simp: steps_to_def)
qed simp

section \<open>Surviving a token\<close>

fun fits :: "nat \<Rightarrow> Rules \<Rightarrow> PartialUtf8 \<Rightarrow> nat list \<Rightarrow> Stack \<Rightarrow> bool" where
  "fits n rules u [] s \<longleftrightarrow> pu_remain u = 0 \<or> s \<noteq> [] \<and> match_partial_char rules (hd s) u"
| "fits n rules u (c # cs) s \<longleftrightarrow> (\<exists>s' \<in> steps_to n rules c s. fits n rules u cs s')"

lemma accept_points_fits:
  "accept_points n rules cs stacks = Inr out \<Longrightarrow>
     (\<exists>s \<in> set stacks. fits n rules u cs s) \<longleftrightarrow> (if pu_remain u = 0 then out \<noteq> [] else partial_reachable rules out u)"
proof (induction cs arbitrary: stacks)
  case Nil
  then show ?case by (cases out) (auto simp: partial_reachable_def)
next
  case (Cons c cs)
  obtain mid where mid: "fold_result (accept_stack n rules c) stacks [] = Inr mid"
    "(if mid = [] then Inr [] else accept_points n rules cs mid) = Inr out" using Cons.prems by (auto split: sum.splits)
  have m: "set mid = (\<Union>s \<in> set stacks. steps_to n rules c s)" using fold_accept_set [OF mid(1)] by simp
  have "(\<exists>s \<in> set stacks. fits n rules u (c # cs) s) \<longleftrightarrow> (\<exists>s \<in> set mid. fits n rules u cs s)" by (auto simp: m)
  then show ?case using Cons.IH [of mid] mid(2) by (cases "mid = []") (auto simp: partial_reachable_def)
qed

definition rest_points :: "Candidate \<Rightarrow> nat list" where
  "rest_points t = takeWhile (\<lambda>c. c \<noteq> 0) (drop (cand_at t) (cand_points t))"

lemma rest_points_head:
  "cand_head t = 0 \<Longrightarrow> rest_points t = []"
  "cand_head t \<noteq> 0 \<Longrightarrow> rest_points t = cand_head t # rest_points (cand_forward t)"
proof -
  assume "cand_head t = 0"
  then show "rest_points t = []" by (cases "cand_at t < length (cand_points t)") (auto simp: rest_points_def cand_head_def Cons_nth_drop_Suc [symmetric])
next
  assume h: "cand_head t \<noteq> 0"
  then have "cand_at t < length (cand_points t)" by (simp add: cand_head_def split: if_splits)
  then have "drop (cand_at t) (cand_points t) = cand_head t # drop (Suc (cand_at t)) (cand_points t)"
    by (simp add: cand_head_def Cons_nth_drop_Suc)
  then show "rest_points t = cand_head t # rest_points (cand_forward t)" using h by (simp add: rest_points_def cand_forward_def)
qed

lemma cand_back_forward [simp]: "cand_back (cand_forward t) = t"
  by (simp add: cand_back_def cand_forward_def)

lemma cand_forward_partial [simp]: "cand_partial (cand_forward t) = cand_partial t"
  by (simp add: cand_forward_def)

text \<open>Sorting the candidates at a terminal never fails.\<close>

definition turned_away :: "Rules \<Rightarrow> position \<Rightarrow> position list \<Rightarrow> Candidate \<Rightarrow> bool" where
  "turned_away rules p qs t \<longleftrightarrow> (if cand_head t = 0 then pu_remain (cand_partial t) \<noteq> 0 \<and> \<not> match_partial_char rules p (cand_partial t)
     else \<not> in_class rules p qs (cand_head t))"

definition goes_on :: "Rules \<Rightarrow> position \<Rightarrow> position list \<Rightarrow> Candidate \<Rightarrow> bool" where
  "goes_on rules p qs t \<longleftrightarrow> cand_head t \<noteq> 0 \<and> in_class rules p qs (cand_head t)"

lemma sort_candidates:
  assumes ch: "chain rules p qs e" and t: "terminal rules p"
  shows "fold_result (sort_candidate rules p) ts (r0, s0) =
    Inr (r0 @ filter (turned_away rules p qs) ts, s0 @ map cand_forward (filter (goes_on rules p qs) ts))"
proof (induction ts arbitrary: r0 s0)
  case (Cons x ts)
  have "sort_candidate rules p x (r0, s0) =
      Inr (if turned_away rules p qs x then r0 @ [x] else r0, if goes_on rules p qs x then s0 @ [cand_forward x] else s0)"
    using match_char_correct [OF ch, of "cand_head x"] t by (simp add: sort_candidate_def turned_away_def goes_on_def)
  then show ?case using Cons.IH by simp
qed simp

section \<open>Rejecting\<close>

definition survives :: "nat \<Rightarrow> Rules \<Rightarrow> Stack \<Rightarrow> Candidate \<Rightarrow> bool" where
  "survives n rules s t \<longleftrightarrow> fits n rules (cand_partial t) (rest_points t) s"

lemma steps_to_terminal:
  assumes "chain rules p qs e" "terminal rules p" "advance_stack n rules (push_position rules e below) [] = Inr ns"
  shows "steps_to n rules c (p # below) = (if in_class rules p qs c then set ns else {})"
  using match_char_correct [OF assms(1), of c] assms(2,3) by (simp add: steps_to_def accept_stack_def)

lemma steps_to_Nil: "steps_to n rules c [] = {}"
  by (simp add: steps_to_def accept_stack_def)

lemma survives_Nil: "survives n rules [] t \<longleftrightarrow> cand_head t = 0 \<and> pu_remain (cand_partial t) = 0"
  by (cases "cand_head t = 0") (simp_all add: survives_def rest_points_head steps_to_Nil)

lemma survives_terminal:
  assumes "chain rules p qs e" "terminal rules p" "advance_stack n rules (push_position rules e below) [] = Inr ns"
  shows "survives n rules (p # below) t \<longleftrightarrow>
    (if goes_on rules p qs t then \<exists>s \<in> set ns. survives n rules s (cand_forward t) else \<not> turned_away rules p qs t)"
  by (cases "cand_head t = 0")
    (simp_all add: survives_def rest_points_head steps_to_terminal [OF assms] goes_on_def turned_away_def)

lemma fold_reject_set:
  assumes "\<And>s ts rej. s \<in> set ss \<Longrightarrow> f s ts = Inr rej \<Longrightarrow> set rej = {t \<in> set ts. \<not> survives n rules s t}"
    and "fold_result f ss ts = Inr rej"
  shows "set rej = {t \<in> set ts. \<forall>s \<in> set ss. \<not> survives n rules s t}"
  using assms
proof (induction ss arbitrary: ts)
  case (Cons s ss)
  obtain ts1 where ts1: "f s ts = Inr ts1" "fold_result f ss ts1 = Inr rej" using Cons.prems(2) by (auto split: sum.splits)
  have "set rej = {t \<in> set ts1. \<forall>s \<in> set ss. \<not> survives n rules s t}" using Cons.IH [OF _ ts1(2)] Cons.prems(1) by auto
  then show ?case using Cons.prems(1) [OF _ ts1(1)] by auto
qed simp

lemma reject_set:
  "reject_for_stack d n rules s ts = Inr rej \<Longrightarrow> s = [] \<or> terminal rules (hd s) \<Longrightarrow> set rej = {t \<in> set ts. \<not> survives n rules s t}"
proof (induction d arbitrary: s ts rej)
  case (Suc d)
  show ?case
  proof (cases s)
    case Nil
    then show ?thesis using Suc.prems by (auto simp: survives_Nil)
  next
    case (Cons p below)
    obtain qs e where ch: "chain rules p qs e" using chain_ex by blast
    have t: "terminal rules p" using Suc.prems(2) Cons by simp
    let ?go = "map cand_forward (filter (goes_on rules p qs) ts)"
    obtain ns nrej where ns: "advance_stack n rules (push_position rules e below) [] = Inr ns"
      and nr: "(if ?go = [] then Inr [] else fold_result (reject_for_stack d n rules) ns ?go) = Inr nrej"
      and rej: "rej = filter (turned_away rules p qs) ts @ map cand_back nrej"
      using Suc.prems(1) Cons sort_candidates [OF ch t, of ts "[]" "[]"] match_char_correct [OF ch, of 0] t
      by (auto split: sum.splits)
    have r: "resting rules ns" using advance_resting [OF ns] by (simp add: resting_def)
    have "set nrej = {t \<in> set ?go. \<forall>s \<in> set ns. \<not> survives n rules s t}"
    proof (cases "?go = []")
      case False
      then have "fold_result (reject_for_stack d n rules) ns ?go = Inr nrej" using nr by simp
      then show ?thesis by (rule fold_reject_set [rotated]) (use Suc.IH r in \<open>auto simp: resting_def\<close>)
    qed (use nr in simp)
    then have "set (map cand_back nrej) = {t \<in> set ts. goes_on rules p qs t \<and> (\<forall>s \<in> set ns. \<not> survives n rules s (cand_forward t))}"
      by (force simp: image_iff)
    moreover have "turned_away rules p qs t \<Longrightarrow> \<not> goes_on rules p qs t" for t by (auto simp: turned_away_def goes_on_def split: if_splits)
    ultimately show ?thesis unfolding rej Cons by (auto simp: survives_terminal [OF ch t ns])
  qed
qed simp

lemma reject_stacks_set:
  assumes "reject_for_stacks d n rules stacks ts = Inr rej" "resting rules stacks"
  shows "set rej = {t \<in> set ts. \<forall>s \<in> set stacks. \<not> survives n rules s t}"
proof (cases "ts = []")
  case False
  then have "fold_result (reject_for_stack d n rules) stacks ts = Inr rej" using assms(1) by (simp add: reject_for_stacks_def)
  then show ?thesis by (rule fold_reject_set [rotated]) (use reject_set assms(2) in \<open>auto simp: resting_def\<close>)
qed (use assms(1) in \<open>simp add: reject_for_stacks_def\<close>)

section \<open>Rejecting returns\<close>

lemma fold_reject_total:
  assumes "\<forall>s \<in> set ss. \<exists>n0. \<forall>n \<ge> n0. \<forall>ts. (\<forall>t \<in> set ts. P t) \<longrightarrow> (\<exists>rej. f n s ts = Inr rej \<and> set rej \<subseteq> set ts)"
  shows "\<exists>n0. \<forall>n \<ge> (n0 :: nat). \<forall>ts. (\<forall>t \<in> set ts. P t) \<longrightarrow> (\<exists>rej. fold_result (f n) ss ts = Inr rej \<and> set rej \<subseteq> set ts)"
  using assms
proof (induction ss)
  case (Cons s ss)
  obtain n1 where n1: "\<forall>n \<ge> n1. \<forall>ts. (\<forall>t \<in> set ts. P t) \<longrightarrow> (\<exists>rej. f n s ts = Inr rej \<and> set rej \<subseteq> set ts)" using Cons.prems by auto
  obtain n2 where n2: "\<forall>n \<ge> n2. \<forall>ts. (\<forall>t \<in> set ts. P t) \<longrightarrow> (\<exists>rej. fold_result (f n) ss ts = Inr rej \<and> set rej \<subseteq> set ts)" using Cons by auto
  have "\<exists>rej. fold_result (f n) (s # ss) ts = Inr rej \<and> set rej \<subseteq> set ts" if n: "max n1 n2 \<le> n" and P: "\<forall>t \<in> set ts. P t" for n ts
  proof -
    obtain r1 where r1: "f n s ts = Inr r1" "set r1 \<subseteq> set ts" using n1 n P by fastforce
    obtain r2 where "fold_result (f n) ss r1 = Inr r2" "set r2 \<subseteq> set r1" using n2 n P r1(2) by (metis max.boundedE subsetD)
    then show ?thesis using r1 by auto
  qed
  then show ?case by blast
qed simp

lemma reject_total:
  assumes ok: "rules_ok rules" and left: "left_ok rules nu rank"
  shows "stack_ok rules s \<Longrightarrow> s = [] \<or> terminal rules (hd s) \<Longrightarrow>
    \<exists>n0. \<forall>n \<ge> n0. \<forall>ts. (\<forall>t \<in> set ts. length (rest_points t) \<le> d) \<longrightarrow>
      (\<exists>rej. reject_for_stack (Suc d) n rules s ts = Inr rej \<and> set rej \<subseteq> set ts)"
proof (induction d arbitrary: s)
  case less: (Suc d)
  show ?case
  proof (cases s)
    case (Cons p below)
    obtain qs e where ch: "chain rules p qs e" using chain_ex by blast
    have t: "terminal rules p" using less.prems(2) Cons by simp
    have so: "stack_ok rules (push_position rules e below)"
      using less.prems(1) Cons start_chain [OF ch ok] by (simp add: stack_ok_def push_position_def)
    obtain n1 ns where ns: "\<forall>n \<ge> n1. advance_stack n rules (push_position rules e below) [] = Inr ns"
      using stack_ok_expands [OF ok left so] advance_more_fuel unfolding expands_def by meson
    have r: "resting rules ns" "stacks_ok rules ns"
      using advance_resting [OF ns [rule_format, OF order_refl]] advance_stacks_ok [OF ok ns [rule_format, OF order_refl] so]
      by (simp_all add: resting_def stacks_ok_def)
    have "\<forall>s \<in> set ns. \<exists>n0. \<forall>n \<ge> n0. \<forall>ts. (\<forall>t \<in> set ts. length (rest_points t) \<le> d) \<longrightarrow>
        (\<exists>rej. reject_for_stack (Suc d) n rules s ts = Inr rej \<and> set rej \<subseteq> set ts)"
      using less.IH r by (simp add: resting_def stacks_ok_def)
    from fold_reject_total [where f = "\<lambda>n. reject_for_stack (Suc d) n rules", OF this] obtain n2 where
      n2: "\<forall>n \<ge> n2. \<forall>ts. (\<forall>t \<in> set ts. length (rest_points t) \<le> d) \<longrightarrow>
        (\<exists>rej. fold_result (reject_for_stack (Suc d) n rules) ns ts = Inr rej \<and> set rej \<subseteq> set ts)" by blast
    have "\<exists>rej. reject_for_stack (Suc (Suc d)) n rules s ts = Inr rej \<and> set rej \<subseteq> set ts"
      if n: "max n1 n2 \<le> n" and ts: "\<forall>t \<in> set ts. length (rest_points t) \<le> Suc d" for n ts
    proof -
      let ?go = "map cand_forward (filter (goes_on rules p qs) ts)"
      have "length (rest_points (cand_forward t)) \<le> d" if "t \<in> set ts" "goes_on rules p qs t" for t
        using ts that rest_points_head(2) [of t] by (fastforce simp: goes_on_def)
      then have "\<forall>t \<in> set ?go. length (rest_points t) \<le> d" by auto
      then obtain nrej where nr: "fold_result (reject_for_stack (Suc d) n rules) ns ?go = Inr nrej" "set nrej \<subseteq> set ?go"
        using n2 n by (metis max.boundedE)
      have adv: "advance_stack n rules (push_position rules e below) [] = Inr ns" using ns n by simp
      have "set (map cand_back nrej) \<subseteq> set ts" using nr(2) by fastforce
      then show ?thesis using nr(1) adv Cons sort_candidates [OF ch t, of ts "[]" "[]"] match_char_correct [OF ch, of 0] t
        by (subst reject_for_stack.simps) auto
    qed
    then show ?thesis by blast
  qed (intro exI [of _ 0], auto)
next
  case 0
  show ?case
  proof (cases s)
    case (Cons p below)
    obtain qs e where ch: "chain rules p qs e" using chain_ex by blast
    have t: "terminal rules p" using "0.prems"(2) Cons by simp
    have so: "stack_ok rules (push_position rules e below)"
      using "0.prems"(1) Cons start_chain [OF ch ok] by (simp add: stack_ok_def push_position_def)
    obtain n1 ns where ns: "\<forall>n \<ge> n1. advance_stack n rules (push_position rules e below) [] = Inr ns"
      using stack_ok_expands [OF ok left so] advance_more_fuel unfolding expands_def by meson
    have "\<exists>rej. reject_for_stack (Suc 0) n rules s ts = Inr rej \<and> set rej \<subseteq> set ts"
      if n: "n1 \<le> n" and ts: "\<forall>t \<in> set ts. length (rest_points t) \<le> 0" for n ts
    proof -
      have "filter (goes_on rules p qs) ts = []" using ts rest_points_head(2) by (fastforce simp: filter_empty_conv goes_on_def)
      then show ?thesis using ns n Cons sort_candidates [OF ch t, of ts "[]" "[]"] match_char_correct [OF ch, of 0] t
        by (subst reject_for_stack.simps) auto
    qed
    then show ?thesis by blast
  qed (intro exI [of _ 0], auto)
qed

end
