(* ===== verification/Output_Constraint.thy ===== *)
theory Output_Constraint
  imports Gbnf_Reject
begin

text \<open>
  Constrained decoding of one request (\<open>common/output_constraint.h\<close>, \<open>output_constraint.cpp\<close>): the decoded vocabulary
  and the state machine that waits for the end of thinking, follows a grammar and lets go for a tool call. A logit row is a
  list of options, None being minus infinity; the recursion bounds of the matcher are arguments and log output is not
  modelled.
\<close>

section \<open>State\<close>

record ConstraintVocab =
  cv_pieces :: "u8 list list"
  cv_code_points :: "nat list list"
  cv_partials :: "PartialUtf8 list"
  cv_is_end :: "bool list"

definition vocab_size :: "ConstraintVocab \<Rightarrow> int" where
  "vocab_size v = int (length (cv_pieces v))"

definition build_vocab :: "u8 list list \<Rightarrow> int list \<Rightarrow> ConstraintVocab" where
  "build_vocab pieces end_tokens =
     (let texts = map (\<lambda>piece. if 0 \<in> set piece then [] else piece) pieces;
          decoded = map (\<lambda>piece. decode_utf8 piece no_partial) texts in
      \<lparr>cv_pieces = texts, cv_code_points = map fst decoded, cv_partials = map snd decoded,
       cv_is_end = map (\<lambda>i. int i \<in> set end_tokens) [0..<length pieces]\<rparr>)"

record ConstraintOptions =
  wait_for :: "u8 list"
  release_prefixes :: "u8 list list"
  calls_only :: bool

datatype ConstraintState = Waiting | Engaged | Released | Broken

record OutputConstraint =
  oc_vocab :: ConstraintVocab
  oc_initial :: Matcher
  oc_grammar :: Matcher
  oc_options :: ConstraintOptions
  oc_state :: ConstraintState
  oc_tail :: "u8 list"
  oc_head :: "u8 list"
  oc_release_window :: nat
  oc_started :: bool

definition oc_initial_state :: "ConstraintOptions \<Rightarrow> ConstraintState" where
  "oc_initial_state opts = (if wait_for opts = [] then Engaged else Waiting)"

definition oc_reset :: "OutputConstraint \<Rightarrow> OutputConstraint" where
  "oc_reset oc = oc\<lparr>oc_grammar := oc_initial oc, oc_state := oc_initial_state (oc_options oc), oc_tail := [], oc_head := [],
     oc_started := False, oc_release_window := foldl max 0 (map length (release_prefixes (oc_options oc)))\<rparr>"

definition new_output_constraint :: "ConstraintVocab \<Rightarrow> Matcher \<Rightarrow> ConstraintOptions \<Rightarrow> OutputConstraint" where
  "new_output_constraint vocab grammar opts =
     oc_reset \<lparr>oc_vocab = vocab, oc_initial = grammar, oc_grammar = grammar, oc_options = opts, oc_state = Engaged, oc_tail = [],
       oc_head = [], oc_release_window = 0, oc_started = False\<rparr>"

definition engaged :: "OutputConstraint \<Rightarrow> bool" where "engaged oc \<longleftrightarrow> oc_state oc = Engaged"
definition released :: "OutputConstraint \<Rightarrow> bool" where "released oc \<longleftrightarrow> oc_state oc = Released"
definition broken :: "OutputConstraint \<Rightarrow> bool" where "broken oc \<longleftrightarrow> oc_state oc = Broken"
definition complete :: "OutputConstraint \<Rightarrow> bool" where "complete oc \<longleftrightarrow> can_end (oc_grammar oc)"

section \<open>Checking tokens\<close>

definition piece_of :: "OutputConstraint \<Rightarrow> nat \<Rightarrow> u8 list" where
  "piece_of oc t = cv_pieces (oc_vocab oc) ! t"

text \<open>The candidate of a token: decoded once from a character boundary, or now from the open sequence.\<close>

definition candidate_of :: "OutputConstraint \<Rightarrow> nat \<Rightarrow> nat \<Rightarrow> Candidate" where
  "candidate_of oc index t =
     (if pu_remain (m_partial (oc_grammar oc)) = 0
      then \<lparr>cand_index = index, cand_points = cv_code_points (oc_vocab oc) ! t, cand_at = 0, cand_partial = cv_partials (oc_vocab oc) ! t\<rparr>
      else let (points, u) = decode_utf8 (piece_of oc t) (m_partial (oc_grammar oc))
           in \<lparr>cand_index = index, cand_points = points, cand_at = 0, cand_partial = u\<rparr>)"

definition allows :: "nat \<Rightarrow> nat \<Rightarrow> OutputConstraint \<Rightarrow> int \<Rightarrow> bool result" where
  "allows d n oc token =
     (if \<not> engaged oc then Inr True
      else if token < 0 \<or> token \<ge> vocab_size (oc_vocab oc) then Inr False
      else if cv_is_end (oc_vocab oc) ! nat token then Inr (can_end (oc_grammar oc))
      else if piece_of oc (nat token) = [] then Inr False
      else case matcher_reject d n (oc_grammar oc) [candidate_of oc 0 (nat token)] of
        Inl e \<Rightarrow> Inl e | Inr rejects \<Rightarrow> Inr (rejects = []))"

definition is_blank :: "u8 \<Rightarrow> bool" where
  "is_blank b \<longleftrightarrow> b = 32 \<or> b = 9 \<or> b = 13 \<or> b = 10"

definition starts_release :: "OutputConstraint \<Rightarrow> u8 list \<Rightarrow> bool" where
  "starts_release oc piece =
     (let output = dropWhile is_blank (oc_head oc @ piece) in
      output \<noteq> [] \<and> (\<exists>pre \<in> set (release_prefixes (oc_options oc)).
        (let n = min (length output) (length pre) in take n output = take n pre)))"

definition drop_logit :: "'l option list \<Rightarrow> nat \<Rightarrow> 'l option list" where
  "drop_logit logits t = logits[t := None]"

definition mask :: "nat \<Rightarrow> nat \<Rightarrow> OutputConstraint \<Rightarrow> 'l option list \<Rightarrow> bool \<Rightarrow> (int \<times> 'l option list) result" where
  "mask d n oc logits content_only =
     (let v = oc_vocab oc; n_vocab = length logits in
      if \<not> engaged oc then Inr (int n_vocab, logits)
      else let n_known = min n_vocab (length (cv_pieces v));
               plain = (\<lambda>t. logits ! t \<noteq> None \<and> \<not> cv_is_end v ! t \<and> piece_of oc t \<noteq> []);
               candidates = map (\<lambda>t. candidate_of oc t t) (filter plain [0..<n_known]);
               logits1 = map (\<lambda>t. if t \<ge> n_known then None
                   else if cv_is_end v ! t then (if can_end (oc_grammar oc) then logits ! t else None)
                   else if piece_of oc t = [] then None else logits ! t) [0..<n_vocab] in
        case matcher_reject d n (oc_grammar oc) candidates of
          Inl e \<Rightarrow> Inl e
        | Inr rejects \<Rightarrow>
            (let logits2 = foldl drop_logit logits1 (map cand_index rejects);
                 drops = (\<lambda>t. logits2 ! t \<noteq> None \<and> ((\<forall>b \<in> set (piece_of oc t). is_blank b) \<or>
                    \<not> calls_only (oc_options oc) \<and> starts_release oc (piece_of oc t)));
                 logits3 = (if content_only \<and> \<not> oc_started oc
                    then foldl drop_logit logits2 (filter drops (map cand_index candidates)) else logits2)
             in Inr (int (length (filter (\<lambda>t. logits3 ! t \<noteq> None) [0..<n_known])), logits3)))"

section \<open>Advancing\<close>

definition check_release :: "OutputConstraint \<Rightarrow> u8 list \<Rightarrow> OutputConstraint" where
  "check_release oc txt =
     (if oc_release_window oc = 0 then oc
      else let head = oc_head oc @ txt; output = dropWhile is_blank head; oc1 = oc\<lparr>oc_head := head\<rparr> in
        if output = [] then oc1
        else if \<exists>pre \<in> set (release_prefixes (oc_options oc)). length output \<ge> length pre \<and> take (length pre) output = pre
        then oc1\<lparr>oc_state := Released, oc_head := []\<rparr>
        else if length output \<ge> oc_release_window oc then oc1\<lparr>oc_release_window := 0, oc_head := []\<rparr>
        else oc1)"

definition feed :: "nat \<Rightarrow> OutputConstraint \<Rightarrow> u8 list \<Rightarrow> OutputConstraint result" where
  "feed n oc txt =
     (case accept_bytes n (oc_grammar oc) txt of
        Inl e \<Rightarrow> Inl e
      | Inr m \<Rightarrow>
          (let oc1 = oc\<lparr>oc_grammar := m\<rparr> in
           if dead m then Inr (oc1\<lparr>oc_state := Broken\<rparr>)
           else Inr (check_release (if \<not> oc_started oc1 \<and> (\<exists>b \<in> set txt. \<not> is_blank b) then oc1\<lparr>oc_started := True\<rparr> else oc1) txt)))"

text \<open>The position of the first occurrence of a text.\<close>

fun find_text :: "u8 list \<Rightarrow> u8 list \<Rightarrow> nat option" where
  "find_text pat [] = (if pat = [] then Some 0 else None)"
| "find_text pat (b # bs) = (if prefix pat (b # bs) then Some 0 else map_option Suc (find_text pat bs))"

definition oc_accept :: "nat \<Rightarrow> OutputConstraint \<Rightarrow> int \<Rightarrow> OutputConstraint result" where
  "oc_accept n oc token =
     (let v = oc_vocab oc; known = (token \<ge> 0 \<and> token < vocab_size v);
          piece = (if known then piece_of oc (nat token) else []) in
      if oc_state oc = Released \<or> oc_state oc = Broken then Inr oc
      else if known \<and> cv_is_end v ! nat token then Inr oc
      else if oc_state oc = Waiting
      then (if \<not> known then Inr oc
            else let tail = oc_tail oc @ piece; w = wait_for (oc_options oc) in
              (case find_text w tail of
                 None \<Rightarrow> Inr (oc\<lparr>oc_tail := (if length tail > length w then drop (length tail - length w) tail else tail)\<rparr>)
               | Some pos \<Rightarrow>
                   (let rest = drop (pos + length w) tail; oc1 = oc\<lparr>oc_tail := [], oc_state := Engaged\<rparr> in
                    if rest \<noteq> [] then feed n oc1 rest else Inr oc1)))
      else if \<not> known \<or> piece = [] then Inr (oc\<lparr>oc_state := Broken\<rparr>)
      else feed n oc piece)"

end
