(* ===== verification/Constraint_Props.thy ===== *)
theory Constraint_Props
  imports Output_Constraint
begin

text \<open>
  The three views a constrained request has of its grammar agree: what the sampler checks for one token, what it masks in a
  row of logits, and what the commit point accepts.
\<close>

section \<open>Decoding without zero bytes\<close>

text \<open>An open sequence that can only complete to a code point other than 0.\<close>

definition partial_good :: "PartialUtf8 \<Rightarrow> bool" where
  "partial_good u \<longleftrightarrow> (pu_remain u = 1 \<longrightarrow> 1 \<le> pu_value u) \<and> pu_remain u \<le> 3 \<and> 0 \<le> pu_remain u"

lemma second_byte_good: "is_continuation_byte b v 2 \<Longrightarrow> 1 \<le> v * 64 + b mod 64"
proof (cases "v = 0")
  case True
  moreover assume "is_continuation_byte b v 2"
  ultimately have "160 \<le> b" "b div 64 = 2" by (auto simp: is_continuation_byte_def split: if_splits)
  then show ?thesis using div_mult_mod_eq [of b 64] by simp
qed simp

lemma continue_good:
  "continue_sequence v n bs = Some (v', n', rest) \<Longrightarrow> 0 \<le> n \<Longrightarrow> (n = 1 \<longrightarrow> 1 \<le> v) \<Longrightarrow> (n = 0 \<longrightarrow> 1 \<le> v \<or> \<not> strict) \<Longrightarrow>
     0 \<le> n' \<and> n' \<le> n \<and> (n' = 1 \<longrightarrow> 1 \<le> v') \<and> (n' = 0 \<longrightarrow> 1 \<le> v' \<or> n = 0 \<and> \<not> strict) \<and> set rest \<subseteq> set bs \<and>
     (rest \<noteq> [] \<longrightarrow> n' = 0)"
proof (induction v n bs arbitrary: strict rule: continue_sequence.induct)
  case (2 v n b bs)
  show ?case
  proof (cases "n > 0")
    case True
    then have cb: "is_continuation_byte b v n" and go: "continue_sequence (v * 64 + b mod 64) (n - 1) bs = Some (v', n', rest)"
      using 2(2) by (auto split: if_splits)
    have "n - 1 = 1 \<longrightarrow> 1 \<le> v * 64 + b mod 64" using second_byte_good cb by auto
    moreover have "n - 1 = 0 \<longrightarrow> 1 \<le> v * 64 + b mod 64 \<or> \<not> True" using 2(4) by auto
    ultimately have "0 \<le> n' \<and> n' \<le> n - 1 \<and> (n' = 1 \<longrightarrow> 1 \<le> v') \<and> (n' = 0 \<longrightarrow> 1 \<le> v' \<or> n - 1 = 0 \<and> \<not> True) \<and> set rest \<subseteq> set bs \<and>
        (rest \<noteq> [] \<longrightarrow> n' = 0)"
      using 2(1) [OF True _ go, of True] cb True by simp
    then show ?thesis by auto
  qed (use 2 in auto)
qed auto

lemma lead_remain_range:
  assumes "0 \<le> lead_remain b" "b < 256"
  shows "lead_remain b \<le> 3 \<and> (lead_remain b = 0 \<longrightarrow> b < 128) \<and> (lead_remain b = 1 \<longrightarrow> 192 \<le> b \<and> b < 224)"
proof -
  define k where "k = b div 16"
  have k: "k < 16" "16 * k \<le> b" "b < 16 * k + 16" using assms(2) by (simp_all add: k_def)
  from k(1) have "k = 0 \<or> k = 1 \<or> k = 2 \<or> k = 3 \<or> k = 4 \<or> k = 5 \<or> k = 6 \<or> k = 7 \<or> k = 8 \<or> k = 9 \<or> k = 10 \<or> k = 11 \<or> k = 12 \<or>
      k = 13 \<or> k = 14 \<or> k = 15" by presburger
  then show ?thesis using assms(1) k(2,3) unfolding lead_remain_def k_def [symmetric] by (elim disjE) simp_all
qed

lemma decode_sequences_good:
  "decode_sequences bs v n points = Some (ps, u) \<Longrightarrow> \<forall>b \<in> set bs. 0 < b \<and> b < 256 \<Longrightarrow> 0 \<notin> set points \<Longrightarrow>
     partial_good \<lparr>pu_value = v, pu_remain = n\<rparr> \<Longrightarrow> \<exists>qs. ps = qs @ [0] \<and> 0 \<notin> set qs \<and> partial_good u"
proof (induction bs v n points rule: decode_sequences.induct)
  case (2 b bs v n points)
  let ?n = "lead_remain b" and ?v = "b mod 2 ^ nat (7 - lead_remain b)"
  have lead: "\<not> (?n < 0 \<or> b = 0xC0 \<or> b = 0xC1 \<or> b > 0xF4)" and b: "0 < b" "b < 256" using 2(2,3) by (auto simp: Let_def split: if_splits)
  obtain v' n' rest where c: "continue_sequence ?v ?n bs = Some (v', n', rest)"
    and go: "decode_sequences rest v' n' (if n' = 0 then points @ [v'] else points) = Some (ps, u)"
    using 2(2) lead by (auto simp: Let_def split: option.splits)
  have r: "?n \<le> 3" "?n = 0 \<longrightarrow> b < 128" "?n = 1 \<longrightarrow> 192 \<le> b \<and> b < 224" using lead_remain_range [of b] lead b(2) by auto
  have one: "?n = 1 \<longrightarrow> 1 \<le> ?v"
  proof
    assume n: "?n = 1"
    then have "194 \<le> b" "b < 224" using r lead by auto
    moreover from this have "b div 64 = 3" by (intro div_nat_eqI) simp_all
    ultimately have "1 \<le> b mod 64" using div_mult_mod_eq [of b 64] by simp
    then show "1 \<le> ?v" using n by simp
  qed
  have zero: "?n = 0 \<longrightarrow> 1 \<le> ?v \<or> \<not> True" using r(2) b by simp
  have g: "0 \<le> n'" "n' \<le> ?n" "n' = 1 \<longrightarrow> 1 \<le> v'" "n' = 0 \<longrightarrow> 1 \<le> v'" "set rest \<subseteq> set bs"
    using continue_good [OF c _ one zero] lead by auto
  show ?case
  proof (rule 2(1) [OF refl lead c refl refl go])
    show "\<forall>b \<in> set rest. 0 < b \<and> b < 256" using 2(3) g(5) by auto
    show "0 \<notin> set (if n' = 0 then points @ [v'] else points)" using 2(4) g(4) by auto
    show "partial_good \<lparr>pu_value = v', pu_remain = n'\<rparr>" using g r by (simp add: partial_good_def)
  qed
qed auto

lemma continue_bytes: "continue_sequence v n bs = Some (v', n', rest) \<Longrightarrow> set rest \<subseteq> set bs"
  by (induction v n bs rule: continue_sequence.induct) (auto split: if_splits)

lemma decode_good:
  assumes "partial_good u" "0 \<notin> set bytes"
  obtains qs u' where "decode_utf8 bytes u = (qs @ [0], u')" "0 \<notin> set qs" "pu_remain u' < 0 \<longrightarrow> qs = []" "0 \<le> pu_remain u' \<longrightarrow> partial_good u'"
proof -
  let ?bs = "takeWhile (\<lambda>b. b \<noteq> 0) (map unat bytes)"
  have u: "0 \<le> pu_remain u" "pu_remain u = 1 \<longrightarrow> 1 \<le> pu_value u" "pu_remain u \<le> 3" using assms(1) by (simp_all add: partial_good_def)
  have bs: "\<forall>b \<in> set ?bs. 0 < b \<and> b < 256"
  proof
    fix b assume "b \<in> set ?bs"
    then have "b \<noteq> 0" "b \<in> set (map unat bytes)" using set_takeWhileD by fastforce+
    then show "0 < b \<and> b < 256" by (auto intro: order.strict_trans2 [OF unsigned_less])
  qed
  show thesis
  proof (cases "decode_utf8 bytes u = invalid_utf8")
    case False
    obtain v n rest where c: "continue_sequence (pu_value u) (pu_remain u) ?bs = Some (v, n, rest)"
      using False u(1) by (auto simp: decode_utf8_def split: option.splits)
    let ?start = "if pu_remain u > 0 \<and> n = 0 then [v] else []"
    obtain ps u' where d: "decode_sequences rest v n ?start = Some (ps, u')" "decode_utf8 bytes u = (ps, u')"
      using False u(1) c by (auto simp: decode_utf8_def split: option.splits)
    have g: "0 \<le> n" "n \<le> pu_remain u" "n = 1 \<longrightarrow> 1 \<le> v" "n = 0 \<longrightarrow> 1 \<le> v \<or> pu_remain u = 0"
      using continue_good [OF c u(1,2), of False] by auto
    have "\<exists>qs. ps = qs @ [0] \<and> 0 \<notin> set qs \<and> partial_good u'"
    proof (rule decode_sequences_good [OF d(1)])
      show "\<forall>b \<in> set rest. 0 < b \<and> b < 256" using bs continue_bytes [OF c] by blast
      show "0 \<notin> set ?start" using g by auto
      show "partial_good \<lparr>pu_value = v, pu_remain = n\<rparr>" using g u(3) by (simp add: partial_good_def)
    qed
    then show ?thesis using d(2) that by (auto simp: partial_good_def)
  next
    case True
    then show ?thesis using that [of "[]"] by (simp add: invalid_utf8_def)
  qed
qed

text \<open>At a character boundary the value of the closed sequence no longer matters.\<close>

lemma decode_boundary:
  assumes "pu_remain u = 0" "bytes \<noteq> []" "0 \<notin> set bytes"
  shows "decode_utf8 bytes u = decode_utf8 bytes no_partial"
proof -
  obtain b bs where "bytes = b # bs" "b \<noteq> 0" using assms(2,3) by (cases bytes) auto
  then have "takeWhile (\<lambda>b. b \<noteq> 0) (map unat bytes) = unat b # takeWhile (\<lambda>b. b \<noteq> 0) (map unat bs)" by (simp add: unat_eq_zero)
  then show ?thesis using assms(1) by (simp add: decode_utf8_def no_partial_def)
qed

section \<open>Accepting a piece\<close>

lemma survives_index: "survives n rules s (candidate_of oc i t) \<longleftrightarrow> survives n rules s (candidate_of oc j t)"
  by (simp add: survives_def rest_points_def candidate_of_def split: prod.split)

lemma accept_points_ok:
  assumes ok: "rules_ok rules"
  shows "accept_points n rules cs stacks = Inr out \<Longrightarrow> stacks_ok rules stacks \<Longrightarrow> stacks_ok rules out"
proof (induction cs arbitrary: stacks)
  case (Cons c cs)
  obtain mid where mid: "fold_result (accept_stack n rules c) stacks [] = Inr mid"
    "(if mid = [] then Inr [] else accept_points n rules cs mid) = Inr out" using Cons.prems(1) by (auto split: sum.splits)
  have nil: "stacks_ok rules []" by (simp add: stacks_ok_def)
  have keep: "stacks_ok rules b'" if "s \<in> set stacks" "accept_stack n rules c s b = Inr b'" "stacks_ok rules b" for s b b'
    using accept_stack_ok [OF ok that(2) _ that(3)] that(1) Cons.prems(2) by (simp add: stacks_ok_def)
  have "stacks_ok rules mid" using fold_result_keeps [where Q = "stacks_ok rules", OF keep mid(1) nil] .
  then show ?case using Cons.IH mid(2) nil by (cases "mid = []") auto
qed simp

text \<open>What a matcher keeps while it follows its grammar.\<close>

definition matcher_ok :: "Matcher \<Rightarrow> bool" where
  "matcher_ok m \<longleftrightarrow> stacks_ok (m_rules m) (m_stacks m) \<and> resting (m_rules m) (m_stacks m) \<and> partial_good (m_partial m)"

lemma accept_bytes_ok:
  assumes ok: "rules_ok (m_rules m)" and m: "matcher_ok m" and bytes: "0 \<notin> set bytes" and a: "accept_bytes n m bytes = Inr m'"
  shows "matcher_ok m' \<and> m_rules m' = m_rules m"
proof -
  obtain qs u where d: "decode_utf8 bytes (m_partial m) = (qs @ [0], u)" "0 \<le> pu_remain u \<longrightarrow> partial_good u"
    using decode_good [of "m_partial m" bytes] m bytes unfolding matcher_ok_def by metis
  have none: "stacks_ok (m_rules m) []" "resting (m_rules m) []" by (simp_all add: stacks_ok_def resting_def)
  show ?thesis
  proof (cases "pu_remain u < 0")
    case True
    then show ?thesis using a d m none by (auto simp: accept_bytes_def matcher_ok_def)
  next
    case False
    obtain out where out: "accept_points n (m_rules m) qs (m_stacks m) = Inr out" using a d False by (auto simp: accept_bytes_def split: sum.splits)
    have "stacks_ok (m_rules m) out" "resting (m_rules m) out"
      using accept_points_ok [OF ok out] accept_points_yields [OF out] m by (simp_all add: matcher_ok_def)
    then show ?thesis using a d out False m none by (auto simp: accept_bytes_def matcher_ok_def split: if_splits)
  qed
qed

lemma accept_bytes_total:
  assumes ok: "rules_ok (m_rules m)" and left: "left_ok (m_rules m) nu rank" and m: "matcher_ok m"
  shows "\<exists>n0. \<forall>n \<ge> n0. \<exists>m'. accept_bytes n m bytes = Inr m'"
proof -
  obtain ps u where d: "decode_utf8 bytes (m_partial m) = (ps, u)" by (metis surj_pair)
  obtain n0 out where "\<forall>n \<ge> n0. accept_points n (m_rules m) (butlast ps) (m_stacks m) = Inr out"
    using accept_points_total [OF ok left] m unfolding matcher_ok_def by blast
  then show ?thesis using d by (intro exI [of _ n0]) (auto simp: accept_bytes_def)
qed

text \<open>A matcher dies over a piece exactly when none of its stacks survives it.\<close>

lemma accept_bytes_dead:
  assumes d: "decode_utf8 bytes (m_partial m) = (qs @ [0], u)" "pu_remain u < 0 \<longrightarrow> qs = []" and a: "accept_bytes n m bytes = Inr m'"
  shows "dead m' \<longleftrightarrow> \<not> (\<exists>s \<in> set (m_stacks m). fits n (m_rules m) u qs s)"
proof (cases "pu_remain u < 0")
  case True
  then have "\<not> fits n (m_rules m) u qs s" for s using d(2) by (simp add: match_partial_char_def)
  then show ?thesis using a d(1) True by (auto simp: accept_bytes_def dead_def)
next
  case False
  obtain out where out: "accept_points n (m_rules m) qs (m_stacks m) = Inr out" using a d False by (auto simp: accept_bytes_def split: sum.splits)
  have "partial_reachable (m_rules m) out u \<Longrightarrow> out \<noteq> []" by (auto simp: partial_reachable_def)
  then show ?thesis using a d(1) out False accept_points_fits [OF out, of u] by (auto simp: accept_bytes_def dead_def split: if_splits)
qed

section \<open>The constraint of a request\<close>

text \<open>Following the tokens a request keeps.\<close>

definition accept_tokens :: "nat \<Rightarrow> OutputConstraint \<Rightarrow> int list \<Rightarrow> OutputConstraint result" where
  "accept_tokens n oc tokens = fold_result (\<lambda>token oc. oc_accept n oc token) tokens oc"

definition constraint_ok :: "Rules \<Rightarrow> u8 list list \<Rightarrow> int list \<Rightarrow> OutputConstraint \<Rightarrow> bool" where
  "constraint_ok rules pieces ends oc \<longleftrightarrow> oc_vocab oc = build_vocab pieces ends \<and> m_rules (oc_grammar oc) = rules \<and>
     matcher_ok (oc_grammar oc) \<and> 0 \<notin> set (oc_tail oc)"

lemma build_vocab_sel:
  assumes "oc_vocab oc = build_vocab pieces ends"
  shows "vocab_size (oc_vocab oc) = int (length pieces)" "length (cv_pieces (oc_vocab oc)) = length pieces"
    "t < length pieces \<Longrightarrow> 0 \<notin> set (piece_of oc t)"
    "t < length pieces \<Longrightarrow> cv_is_end (oc_vocab oc) ! t \<longleftrightarrow> int t \<in> set ends"
    "t < length pieces \<Longrightarrow> cv_code_points (oc_vocab oc) ! t = fst (decode_utf8 (piece_of oc t) no_partial)"
    "t < length pieces \<Longrightarrow> cv_partials (oc_vocab oc) ! t = snd (decode_utf8 (piece_of oc t) no_partial)"
  using assms by (auto simp: build_vocab_def Let_def vocab_size_def piece_of_def)

lemma candidate_points:
  assumes oc: "oc_vocab oc = build_vocab pieces ends" and t: "t < length pieces" "piece_of oc t \<noteq> []"
  shows "candidate_of oc i t = (let (ps, u) = decode_utf8 (piece_of oc t) (m_partial (oc_grammar oc)) in
    \<lparr>cand_index = i, cand_points = ps, cand_at = 0, cand_partial = u\<rparr>)"
  using build_vocab_sel(5,6) [OF oc t(1)] decode_boundary [OF _ t(2) build_vocab_sel(3) [OF oc t(1)], of "m_partial (oc_grammar oc)"]
  by (simp add: candidate_of_def split: prod.split)

lemma check_release_sel [simp]:
  "oc_vocab (check_release oc txt) = oc_vocab oc" "oc_grammar (check_release oc txt) = oc_grammar oc" "oc_tail (check_release oc txt) = oc_tail oc"
  by (simp_all add: check_release_def Let_def)

lemma check_release_broken: "broken (check_release oc txt) \<longleftrightarrow> broken oc \<and> oc_state (check_release oc txt) \<noteq> Released"
  by (auto simp: check_release_def Let_def broken_def)

lemma feed_ok:
  assumes ok: "rules_ok rules" and oc: "constraint_ok rules pieces ends oc" and bytes: "0 \<notin> set txt" and f: "feed n oc txt = Inr oc'"
  shows "constraint_ok rules pieces ends oc'"
proof -
  obtain m where a: "accept_bytes n (oc_grammar oc) txt = Inr m" using f by (auto simp: feed_def split: sum.splits)
  have m: "matcher_ok m" "m_rules m = rules" using accept_bytes_ok [OF _ _ bytes a] oc ok by (simp_all add: constraint_ok_def)
  have "oc_vocab oc' = oc_vocab oc \<and> oc_tail oc' = oc_tail oc \<and> oc_grammar oc' = m" using f a by (auto simp: feed_def Let_def split: if_splits)
  then show ?thesis using m oc by (simp add: constraint_ok_def)
qed

lemma oc_accept_ok:
  assumes ok: "rules_ok rules" and oc: "constraint_ok rules pieces ends oc" and a: "oc_accept n oc token = Inr oc'"
  shows "constraint_ok rules pieces ends oc'"
proof -
  let ?known = "token \<ge> 0 \<and> token < vocab_size (oc_vocab oc)" and ?piece = "piece_of oc (nat token)" and ?w = "wait_for (oc_options oc)"
  have v: "oc_vocab oc = build_vocab pieces ends" using oc by (simp add: constraint_ok_def)
  have p: "0 \<notin> set ?piece" if "?known" using build_vocab_sel(1) [OF v] build_vocab_sel(3) [OF v, of "nat token"] that by (simp add: nat_less_iff)
  have upd: "constraint_ok rules pieces ends (oc\<lparr>oc_state := st\<rparr>)" "0 \<notin> set tail \<Longrightarrow> constraint_ok rules pieces ends (oc\<lparr>oc_tail := tail, oc_state := st\<rparr>)"
    "0 \<notin> set tail \<Longrightarrow> constraint_ok rules pieces ends (oc\<lparr>oc_tail := tail\<rparr>)" for st tail
    using oc by (simp_all add: constraint_ok_def)
  show ?thesis
  proof (cases "oc_state oc = Waiting \<and> ?known \<and> \<not> cv_is_end (oc_vocab oc) ! nat token")
    case True
    let ?tail = "oc_tail oc @ ?piece"
    have t: "0 \<notin> set ?tail" using True p oc by (simp add: constraint_ok_def)
    then have dr: "0 \<notin> set (drop k ?tail)" for k using in_set_dropD by metis
    show ?thesis
    proof (cases "find_text ?w ?tail")
      case None
      then show ?thesis using a True t dr upd(3) by (auto simp: oc_accept_def Let_def simp del: drop_append set_append)
    next
      case (Some pos)
      let ?rest = "drop (pos + length ?w) ?tail" and ?oc = "oc\<lparr>oc_tail := [], oc_state := Engaged\<rparr>"
      have "(if ?rest \<noteq> [] then feed n ?oc ?rest else Inr ?oc) = Inr oc'" using a True Some by (simp add: oc_accept_def Let_def del: drop_append)
      then show ?thesis using feed_ok [OF ok upd(2) dr, of "[]"] upd(2) [of "[]"] by (auto simp del: drop_append split: if_splits)
    qed
  next
    case False
    then show ?thesis using a oc p feed_ok [OF ok oc p] upd(1) by (auto simp: oc_accept_def Let_def split: if_splits)
  qed
qed

lemma accept_tokens_ok:
  assumes "rules_ok rules" "constraint_ok rules pieces ends oc" "accept_tokens n oc tokens = Inr oc'"
  shows "constraint_ok rules pieces ends oc'"
  using fold_result_keeps [where Q = "constraint_ok rules pieces ends", OF _ assms(3) [unfolded accept_tokens_def] assms(2)]
    oc_accept_ok [OF assms(1)] by blast

lemma new_constraint_ok:
  assumes ok: "rules_ok rules" and left: "left_ok rules nu rank" and i: "initial_stacks k rules root = Inr stacks"
  shows "constraint_ok rules pieces ends (new_output_constraint (build_vocab pieces ends) (start_matcher rules symbols stacks) opts)"
proof -
  obtain n0 s where s: "stacks_ok rules s" "\<forall>n \<ge> n0. initial_stacks n rules root = Inr s" using initial_total [OF ok left] by blast
  have "initial_stacks (max n0 k) rules root = Inr stacks"
    using i unfolding initial_stacks_def by (rule fold_result_mono [rotated]) (erule advance_more_fuel, simp)
  then have "stacks_ok rules stacks" using s by simp
  moreover have "resting rules stacks" using initial_yields [OF i] by blast
  ultimately show ?thesis
    by (simp add: constraint_ok_def new_output_constraint_def oc_reset_def start_matcher_def matcher_ok_def no_partial_def partial_good_def)
qed

section \<open>One verdict for a token\<close>

definition follows_token :: "nat \<Rightarrow> OutputConstraint \<Rightarrow> nat \<Rightarrow> bool" where
  "follows_token n oc t \<longleftrightarrow> (\<exists>s \<in> set (m_stacks (oc_grammar oc)). survives n (m_rules (oc_grammar oc)) s (candidate_of oc 0 t))"

lemma matcher_reject_set:
  assumes "matcher_reject d n (oc_grammar oc) (map (\<lambda>t. candidate_of oc (f t) t) ts) = Inr rej" "matcher_ok (oc_grammar oc)"
  shows "set rej = (\<lambda>t. candidate_of oc (f t) t) ` {t \<in> set ts. \<not> follows_token n oc t}"
proof -
  let ?m = "oc_grammar oc" and ?c = "\<lambda>t. candidate_of oc (f t) t"
  have "set rej = {c \<in> ?c ` set ts. \<forall>s \<in> set (m_stacks ?m). \<not> survives n (m_rules ?m) s c}"
    using reject_stacks_set [OF assms(1) [unfolded matcher_reject_def]] assms(2) by (simp add: matcher_ok_def)
  moreover have "(\<forall>s \<in> set (m_stacks ?m). \<not> survives n (m_rules ?m) s (?c t)) \<longleftrightarrow> \<not> follows_token n oc t" for t
    unfolding follows_token_def survives_index [of n "m_rules ?m" _ oc "f t" t 0] by blast
  moreover have "{c \<in> ?c ` set ts. P c} = ?c ` {t \<in> set ts. P (?c t)}" for P by auto
  ultimately show ?thesis by simp
qed

lemma matcher_reject_total:
  assumes ok: "rules_ok (m_rules m)" and left: "left_ok (m_rules m) nu rank" and m: "matcher_ok m"
  shows "\<exists>n0. \<forall>n \<ge> n0. \<forall>ts. (\<forall>t \<in> set ts. length (rest_points t) \<le> d) \<longrightarrow> (\<exists>rej. matcher_reject (Suc d) n m ts = Inr rej)"
proof -
  have "\<forall>s \<in> set (m_stacks m). \<exists>n0. \<forall>n \<ge> n0. \<forall>ts. (\<forall>t \<in> set ts. length (rest_points t) \<le> d) \<longrightarrow>
      (\<exists>rej. reject_for_stack (Suc d) n (m_rules m) s ts = Inr rej \<and> set rej \<subseteq> set ts)"
    using reject_total [OF ok left] m by (simp add: matcher_ok_def stacks_ok_def resting_def)
  from fold_reject_total [where f = "\<lambda>n. reject_for_stack (Suc d) n (m_rules m)", OF this] show ?thesis
    unfolding matcher_reject_def reject_for_stacks_def by fastforce
qed

lemma feed_verdict:
  assumes oc: "constraint_ok rules pieces ends oc" and t: "t < length pieces" "piece_of oc t \<noteq> []"
    and a: "accept_bytes n (oc_grammar oc) (piece_of oc t) = Inr m"
  shows "dead m \<longleftrightarrow> \<not> follows_token n oc t"
proof -
  have v: "oc_vocab oc = build_vocab pieces ends" and m: "partial_good (m_partial (oc_grammar oc))"
    using oc by (simp_all add: constraint_ok_def matcher_ok_def)
  obtain qs u where d: "decode_utf8 (piece_of oc t) (m_partial (oc_grammar oc)) = (qs @ [0], u)" "0 \<notin> set qs" "pu_remain u < 0 \<longrightarrow> qs = []"
    by (rule decode_good [OF m build_vocab_sel(3) [OF v t(1)]]) blast
  have "takeWhile (\<lambda>c. c \<noteq> 0) (qs @ [0]) = qs" using d(2) by (subst takeWhile_append2) (auto intro: gr0I)
  then have "survives n rs s (candidate_of oc 0 t) \<longleftrightarrow> fits n rs u qs s" for rs s
    using candidate_points [OF v t, of 0] d(1) by (simp add: survives_def rest_points_def)
  then show ?thesis using accept_bytes_dead [OF d(1,3) a] by (simp add: follows_token_def)
qed

lemma allows_verdict:
  assumes e: "engaged oc" and oc: "constraint_ok rules pieces ends oc" and t: "t < length pieces"
    and r: "matcher_reject d n (oc_grammar oc) [candidate_of oc 0 t] = Inr rej"
  shows "allows d n oc (int t) = Inr (if int t \<in> set ends then can_end (oc_grammar oc) else piece_of oc t \<noteq> [] \<and> follows_token n oc t)"
proof -
  have v: "oc_vocab oc = build_vocab pieces ends" and m: "matcher_ok (oc_grammar oc)" using oc by (simp_all add: constraint_ok_def)
  have "set rej = (if follows_token n oc t then {} else {candidate_of oc 0 t})"
    using matcher_reject_set [where f = "\<lambda>_. 0" and ts = "[t]", OF _ m] r by auto
  then have "rej = [] \<longleftrightarrow> follows_token n oc t" by (metis empty_set insert_not_empty set_empty)
  then show ?thesis using e r build_vocab_sel(1) [OF v] build_vocab_sel(4) [OF v t] t by (simp add: allows_def)
qed

lemma oc_accept_verdict:
  assumes e: "engaged oc" and oc: "constraint_ok rules pieces ends oc" and t: "t < length pieces" "int t \<notin> set ends"
    and a: "accept_bytes n (oc_grammar oc) (piece_of oc t) = Inr m"
  shows "\<exists>oc'. oc_accept n oc (int t) = Inr oc' \<and> (broken oc' \<longleftrightarrow> \<not> (piece_of oc t \<noteq> [] \<and> follows_token n oc t))"
proof -
  have v: "oc_vocab oc = build_vocab pieces ends" using oc by (simp add: constraint_ok_def)
  have st: "oc_state oc = Engaged" using e by (simp add: engaged_def)
  have known: "oc_accept n oc (int t) = (if piece_of oc t = [] then Inr (oc\<lparr>oc_state := Broken\<rparr>) else feed n oc (piece_of oc t))"
    using st build_vocab_sel(1) [OF v] build_vocab_sel(4) [OF v t(1)] t by (simp add: oc_accept_def)
  show ?thesis
  proof (cases "piece_of oc t = []")
    case False
    have "\<exists>oc'. feed n oc (piece_of oc t) = Inr oc' \<and> (broken oc' \<longleftrightarrow> dead m)"
    proof (cases "dead m")
      case alive: False
      then show ?thesis using a st by (simp add: feed_def Let_def check_release_broken) (simp add: broken_def)
    qed (use a in \<open>simp add: feed_def broken_def\<close>)
    then obtain oc' where f: "feed n oc (piece_of oc t) = Inr oc'" "broken oc' \<longleftrightarrow> dead m" by blast
    then show ?thesis using known False feed_verdict [OF oc t(1) False a] by auto
  qed (simp add: known broken_def)
qed

section \<open>Masking a row\<close>

lemma drop_logits [simp]:
  "length (foldl drop_logit logits ts) = length logits"
  "i < length logits \<Longrightarrow> foldl drop_logit logits ts ! i = (if i \<in> set ts then None else logits ! i)"
  by (induction ts arbitrary: logits) (auto simp: drop_logit_def nth_list_update)

lemma mask_verdict:
  assumes e: "engaged oc" and oc: "constraint_ok rules pieces ends oc"
    and r: "\<And>ts f. set ts \<subseteq> {..<length pieces} \<Longrightarrow> \<exists>rej. matcher_reject d n (oc_grammar oc) (map (\<lambda>t. candidate_of oc (f t) t) ts) = Inr rej"
  shows "\<exists>out. mask d n oc logits False = Inr (int (card {t. t < length out \<and> out ! t \<noteq> None}), out) \<and> length out = length logits \<and>
    (\<forall>t < length logits. out ! t = (if allows d n oc (int t) = Inr True then logits ! t else None))"
proof -
  have v: "oc_vocab oc = build_vocab pieces ends" and m: "matcher_ok (oc_grammar oc)" using oc by (simp_all add: constraint_ok_def)
  let ?k = "min (length logits) (length pieces)"
  define plain where "plain t \<longleftrightarrow> logits ! t \<noteq> None \<and> int t \<notin> set ends \<and> piece_of oc t \<noteq> []" for t
  define row where "row = map (\<lambda>t. if t \<ge> ?k then None else if int t \<in> set ends then (if can_end (oc_grammar oc) then logits ! t else None)
     else if piece_of oc t = [] then None else logits ! t) [0..<length logits]"
  have cands: "filter (\<lambda>t. logits ! t \<noteq> None \<and> \<not> cv_is_end (oc_vocab oc) ! t \<and> piece_of oc t \<noteq> []) [0..<?k] = filter plain [0..<?k]"
    by (rule filter_cong) (simp_all add: plain_def build_vocab_sel(4) [OF v])
  have row1: "map (\<lambda>t. if t \<ge> ?k then None else if cv_is_end (oc_vocab oc) ! t then (if can_end (oc_grammar oc) then logits ! t else None)
     else if piece_of oc t = [] then None else logits ! t) [0..<length logits] = row"
    unfolding row_def by (rule map_cong) (auto simp: build_vocab_sel(4) [OF v] min_le_iff_disj)
  obtain rej where rej: "matcher_reject d n (oc_grammar oc) (map (\<lambda>t. candidate_of oc t t) (filter plain [0..<?k])) = Inr rej"
    using r [of "filter plain [0..<?k]" "\<lambda>t. t"] by auto
  have idx: "cand_index ` set rej = {t. t < ?k \<and> plain t \<and> \<not> follows_token n oc t}"
    using matcher_reject_set [OF rej m] by (auto simp: image_iff candidate_of_def split: prod.splits)
  define out where "out = foldl drop_logit row (map cand_index rej)"
  have len: "length out = length logits" by (simp add: out_def row_def)
  have val: "out ! t = (if allows d n oc (int t) = Inr True then logits ! t else None)" if t: "t < length logits" for t
  proof (cases "t < length pieces")
    case True
    obtain r1 where "matcher_reject d n (oc_grammar oc) [candidate_of oc 0 t] = Inr r1" using r [of "[t]" "\<lambda>_. 0"] True by auto
    from allows_verdict [OF e oc True this] show ?thesis using t True idx by (auto simp: out_def row_def plain_def)
  next
    case False
    then have "allows d n oc (int t) = Inr False" using e build_vocab_sel(1) [OF v] by (simp add: allows_def)
    then show ?thesis using t False by (simp add: out_def row_def)
  qed
  have "t < ?k" if "t < length logits" "out ! t \<noteq> None" for t using that by (auto simp: out_def row_def split: if_splits)
  then have "{t. t < length out \<and> out ! t \<noteq> None} = {t. t < ?k \<and> out ! t \<noteq> None}" unfolding len by auto
  moreover have "length (filter (\<lambda>t. out ! t \<noteq> None) [0..<?k]) = card {t. t < ?k \<and> out ! t \<noteq> None}"
    by (auto simp: length_filter_conv_card intro!: arg_cong [where f = card])
  moreover have "mask d n oc logits False = Inr (int (length (filter (\<lambda>t. out ! t \<noteq> None) [0..<?k])), out)"
    unfolding mask_def Let_def build_vocab_sel(2) [OF v] cands row1 rej sum.case out_def using e by simp
  ultimately have "mask d n oc logits False = Inr (int (card {t. t < length out \<and> out ! t \<noteq> None}), out)" by simp
  then show ?thesis using len val by blast
qed

section \<open>Properties\<close>

lemma verdict_bounds:
  assumes ok: "rules_ok rules" and left: "left_ok rules nu rank" and oc: "constraint_ok rules pieces ends oc"
  obtains d0 where "\<forall>d \<ge> d0. \<exists>n0. \<forall>n \<ge> n0. \<forall>ts f. set ts \<subseteq> {..<length pieces} \<longrightarrow>
    (\<exists>rej. matcher_reject d n (oc_grammar oc) (map (\<lambda>t. candidate_of oc (f t) t) ts) = Inr rej)"
proof -
  have m: "matcher_ok (oc_grammar oc)" "m_rules (oc_grammar oc) = rules" using oc by (simp_all add: constraint_ok_def)
  have "finite ((\<lambda>t. length (rest_points (candidate_of oc 0 t))) ` {..<length pieces})" by simp
  then obtain b where b: "\<And>t. t < length pieces \<Longrightarrow> length (rest_points (candidate_of oc 0 t)) \<le> b"
    unfolding finite_nat_set_iff_bounded_le by auto
  have same: "rest_points (candidate_of oc i t) = rest_points (candidate_of oc 0 t)" for i t
    by (simp add: rest_points_def candidate_of_def split: prod.split)
  have "\<exists>n0. \<forall>n \<ge> n0. \<forall>ts f. set ts \<subseteq> {..<length pieces} \<longrightarrow>
      (\<exists>rej. matcher_reject d n (oc_grammar oc) (map (\<lambda>t. candidate_of oc (f t) t) ts) = Inr rej)" if d: "Suc b \<le> d" for d
  proof -
    obtain e where e: "d = Suc e" "b \<le> e" using d by (cases d) auto
    obtain n0 where n0: "\<forall>n \<ge> n0. \<forall>ts. (\<forall>t \<in> set ts. length (rest_points t) \<le> e) \<longrightarrow> (\<exists>rej. matcher_reject d n (oc_grammar oc) ts = Inr rej)"
      using matcher_reject_total [of "oc_grammar oc" nu rank e] ok left m e(1) by auto
    have "\<exists>rej. matcher_reject d n (oc_grammar oc) (map (\<lambda>t. candidate_of oc (f t) t) ts) = Inr rej"
      if n: "n0 \<le> n" and ts: "set ts \<subseteq> {..<length pieces}" for n ts f
    proof (rule n0 [rule_format, OF n])
      fix c assume "c \<in> set (map (\<lambda>t. candidate_of oc (f t) t) ts)"
      then obtain t where "t < length pieces" "c = candidate_of oc (f t) t" using ts by auto
      then show "length (rest_points c) \<le> e" using b [of t] e(2) same [of "f t" t] by simp
    qed
    then show ?thesis by blast
  qed
  then show thesis using that by blast
qed

lemma token_verdict:
  assumes e: "engaged oc" and oc: "constraint_ok rules pieces ends oc" and token: "token \<notin> set ends"
    and r: "nat token < length pieces \<Longrightarrow> \<exists>rej. matcher_reject d n (oc_grammar oc) [candidate_of oc 0 (nat token)] = Inr rej"
    and a: "\<exists>m. accept_bytes n (oc_grammar oc) (piece_of oc (nat token)) = Inr m"
  shows "\<exists>ok oc'. allows d n oc token = Inr ok \<and> oc_accept n oc token = Inr oc' \<and> (ok \<longleftrightarrow> \<not> broken oc')"
proof (cases "0 \<le> token \<and> token < int (length pieces)")
  case True
  then have t: "int (nat token) = token" "nat token < length pieces" by auto
  obtain rej where rej: "matcher_reject d n (oc_grammar oc) [candidate_of oc 0 (nat token)] = Inr rej" using r [OF t(2)] by blast
  obtain m where m: "accept_bytes n (oc_grammar oc) (piece_of oc (nat token)) = Inr m" using a by blast
  show ?thesis using allows_verdict [OF e oc t(2) rej] oc_accept_verdict [OF e oc t(2) _ m] token unfolding t(1) by auto
next
  case False
  moreover have "vocab_size (oc_vocab oc) = int (length pieces)" using build_vocab_sel(1) [of oc pieces ends] oc by (simp add: constraint_ok_def)
  ultimately have "allows d n oc token = Inr False" "oc_accept n oc token = Inr (oc\<lparr>oc_state := Broken\<rparr>)"
    using e by (auto simp: allows_def oc_accept_def engaged_def Let_def)
  then show ?thesis by (auto simp: broken_def)
qed

text \<open>
  C35. The sampler and the commit point of a constrained request agree. Whatever tokens the request has kept, while the constraint
  is engaged the check of a token, the mask of a row of logits and the advance over the token all return, given
  enough recursion depth; a token that does not end the output passes the check exactly when advancing over it does not break
  the constraint; and the mask keeps the logits of exactly the tokens that pass the check and reports how many are left.
\<close>

theorem constraint_views_agree:
  assumes ok: "rules_ok rules" and left: "left_ok rules nu rank" and start: "initial_stacks k rules root = Inr stacks"
    and run: "accept_tokens k (new_output_constraint (build_vocab pieces ends) (start_matcher rules symbols stacks) opts) tokens = Inr oc"
    and e: "engaged oc" and token: "token \<notin> set ends"
  shows "\<exists>d0. \<forall>d \<ge> d0. \<exists>n0. \<forall>n \<ge> n0. \<exists>ok oc' left out.
    allows d n oc token = Inr ok \<and> oc_accept n oc token = Inr oc' \<and> (ok \<longleftrightarrow> \<not> broken oc') \<and>
    mask d n oc logits False = Inr (left, out) \<and> left = int (card {t. t < length out \<and> out ! t \<noteq> None}) \<and> length out = length logits \<and>
    (\<forall>t < length logits. out ! t = (if allows d n oc (int t) = Inr True then logits ! t else None))"
proof -
  have oc: "constraint_ok rules pieces ends oc" using accept_tokens_ok [OF ok new_constraint_ok [OF ok left start] run] .
  obtain d0 where d0: "\<forall>d \<ge> d0. \<exists>n0. \<forall>n \<ge> n0. \<forall>ts f. set ts \<subseteq> {..<length pieces} \<longrightarrow>
    (\<exists>rej. matcher_reject d n (oc_grammar oc) (map (\<lambda>t. candidate_of oc (f t) t) ts) = Inr rej)" using verdict_bounds [OF ok left oc] .
  obtain n1 where n1: "\<forall>n \<ge> n1. \<exists>m. accept_bytes n (oc_grammar oc) (piece_of oc (nat token)) = Inr m"
    using accept_bytes_total [of "oc_grammar oc" nu rank] ok left oc unfolding constraint_ok_def by metis
  let ?agree = "\<lambda>d n. \<exists>ok oc' left out. allows d n oc token = Inr ok \<and> oc_accept n oc token = Inr oc' \<and> (ok \<longleftrightarrow> \<not> broken oc') \<and>
      mask d n oc logits False = Inr (left, out) \<and> left = int (card {t. t < length out \<and> out ! t \<noteq> None}) \<and> length out = length logits \<and>
      (\<forall>t < length logits. out ! t = (if allows d n oc (int t) = Inr True then logits ! t else None))"
  have agree: "?agree d n" if n: "n1 \<le> n" and rs: "\<And>ts f. set ts \<subseteq> {..<length pieces} \<Longrightarrow>
      \<exists>rej. matcher_reject d n (oc_grammar oc) (map (\<lambda>t. candidate_of oc (f t) t) ts) = Inr rej" for d n
    using token_verdict [OF e oc token _ n1 [rule_format, OF n]] rs [of "[nat token]" "\<lambda>_. 0"] mask_verdict [OF e oc rs, of logits]
    by auto
  have "\<exists>n0. \<forall>n \<ge> n0. ?agree d n" if d: "d0 \<le> d" for d
  proof -
    obtain n2 where n2: "\<And>n ts f. n2 \<le> n \<Longrightarrow> set ts \<subseteq> {..<length pieces} \<Longrightarrow>
        \<exists>rej. matcher_reject d n (oc_grammar oc) (map (\<lambda>t. candidate_of oc (f t) t) ts) = Inr rej" using d0 [rule_format, OF d] by blast
    show ?thesis
    proof (intro exI [of _ "max n1 n2"] allI impI)
      fix n assume "max n1 n2 \<le> n"
      then show "?agree d n" using agree [of n d] n2 by simp
    qed
  qed
  then show ?thesis by blast
qed

text \<open>The tokens \<open>a\<close>, \<open>b\<close>, \<open>c\<close> and an end token under \<open>root ::= "a" root | "b"\<close>, after \<open>a\<close>.\<close>

definition demo_constraint :: OutputConstraint where
  "demo_constraint = new_output_constraint (build_vocab [[97], [98], [99], []] [3])
     (start_matcher demo_rules [] [[(0, 0)], [(0, 3)]]) \<lparr>wait_for = [], release_prefixes = [], calls_only = False\<rparr>"

theorem constraint_views_agree_witness:
  "\<exists>oc d n ok oc' left out. accept_tokens 9 demo_constraint [0] = Inr oc \<and> engaged oc \<and> allows d n oc 2 = Inr ok \<and>
     oc_accept n oc 2 = Inr oc' \<and> (ok \<longleftrightarrow> \<not> broken oc') \<and> mask d n oc [Some (1 :: int), Some 2, Some 3, Some 4] False = Inr (left, out) \<and>
     length out = 4"
proof -
  have start: "initial_stacks 9 demo_rules 0 = Inr [[(0, 0)], [(0, 3)]]" by code_simp
  have "case accept_tokens 9 demo_constraint [0] of Inr oc \<Rightarrow> engaged oc | Inl _ \<Rightarrow> False" by code_simp
  then obtain oc where oc: "accept_tokens 9 demo_constraint [0] = Inr oc" "engaged oc" by (auto split: sum.splits)
  from constraint_views_agree [OF demo_rules_ok start oc(1) [unfolded demo_constraint_def] oc(2), of 2 "[Some 1, Some 2, Some 3, Some 4]"]
  obtain d n ok oc' left out where "allows d n oc 2 = Inr ok" "oc_accept n oc 2 = Inr oc'" "ok \<longleftrightarrow> \<not> broken oc'"
    "mask d n oc [Some (1 :: int), Some 2, Some 3, Some 4] False = Inr (left, out)" "length out = 4"
    by (fastforce dest: spec [of _ "_ :: nat"])
  then show ?thesis using oc by blast
qed

end
