(* ===== verification/Gbnf_Parse.thy ===== *)
theory Gbnf_Parse
  imports Gbnf_Match "HOL-Library.AList"
begin

text \<open>
  The GBNF parser and the construction of a matcher (\<open>common/gbnf.cpp\<close>). A pointer into the grammar text is the list of bytes from
  there to the terminating zero. Bytes are written by their ASCII code; an error keeps the fixed part of the message and
  leaves out the text it quotes.
\<close>

section \<open>Characters\<close>

definition peek :: "u8 list \<Rightarrow> nat \<Rightarrow> u8" where
  "peek s i = (if i < length s then s ! i else 0)"

definition decode_utf8_char :: "u8 list \<Rightarrow> nat \<times> u8 list" where
  "decode_utf8_char s =
     (let len = [1, 1, 1, 1, 1, 1, 1, 1, 1, 1, 1, 1, 2, 2, 3, 4] ! (unat (hd s) div 16);
          tail = takeWhile (\<lambda>b. b \<noteq> 0) (take (len - 1) (tl s)) in
      (foldl (\<lambda>value b. value * 64 + unat b mod 64) (unat (hd s) mod 2 ^ (8 - len)) tail, drop (1 + length tail) s))"

definition is_digit_char :: "u8 \<Rightarrow> bool" where
  "is_digit_char c \<longleftrightarrow> 48 \<le> c \<and> c \<le> 57"

definition is_word_char :: "u8 \<Rightarrow> bool" where
  "is_word_char c \<longleftrightarrow> (97 \<le> c \<and> c \<le> 122) \<or> (65 \<le> c \<and> c \<le> 90) \<or> c = 45 \<or> is_digit_char c"

definition hex_digit :: "u8 \<Rightarrow> nat option" where
  "hex_digit c = (if 97 \<le> c \<and> c \<le> 102 then Some (unat c - 97 + 10)
     else if 65 \<le> c \<and> c \<le> 70 then Some (unat c - 65 + 10)
     else if 48 \<le> c \<and> c \<le> 57 then Some (unat c - 48) else None)"

definition parse_hex :: "nat \<Rightarrow> u8 list \<Rightarrow> (nat \<times> u8 list) result" where
  "parse_hex n_chars s =
     (let digits = takeWhile (\<lambda>c. c \<noteq> 0 \<and> hex_digit c \<noteq> None) (take n_chars s) in
      if length digits \<noteq> n_chars then Inl (Runtime ''expecting hex chars'')
      else Inr (foldl (\<lambda>value c. value * 16 + the (hex_digit c)) 0 digits, drop n_chars s))"

function parse_space :: "bool \<Rightarrow> u8 list \<Rightarrow> u8 list" where
  "parse_space newline_ok [] = []"
| "parse_space newline_ok (c # s) =
     (if c = 35 then parse_space newline_ok (dropWhile (\<lambda>c. c \<noteq> 0 \<and> c \<noteq> 13 \<and> c \<noteq> 10) s)
      else if c = 32 \<or> c = 9 \<or> (newline_ok \<and> (c = 13 \<or> c = 10)) then parse_space newline_ok s
      else c # s)"
  by pat_completeness auto
termination
  by (relation "measure (\<lambda>(b, s). length s)") (auto simp: less_Suc_eq_le length_dropWhile_le)

definition parse_name :: "u8 list \<Rightarrow> (u8 list \<times> u8 list) result" where
  "parse_name s = (if takeWhile is_word_char s = [] then Inl (Runtime ''expecting name'')
     else Inr (takeWhile is_word_char s, dropWhile is_word_char s))"

definition parse_int :: "u8 list \<Rightarrow> (u8 list \<times> u8 list) result" where
  "parse_int s = (if takeWhile is_digit_char s = [] then Inl (Runtime ''expecting integer'')
     else Inr (takeWhile is_digit_char s, dropWhile is_digit_char s))"

text \<open>\<open>std::stoul\<close> on digits, with its result narrowed to \<open>int\<close>.\<close>

definition repeat_count :: "u8 list \<Rightarrow> int result" where
  "repeat_count digits =
     (let value = foldl (\<lambda>v d. v * 10 + (unat d - 48)) 0 digits in
      if value \<ge> 2 ^ 64 then Inl (Runtime ''stoul'') else Inr (int32_of (int value)))"

definition parse_char :: "u8 list \<Rightarrow> (nat \<times> u8 list) result" where
  "parse_char s =
     (if peek s 0 = 92
      then (let c = peek s 1; rest = drop 2 s in
        if c = 120 then parse_hex 2 rest
        else if c = 117 then parse_hex 4 rest
        else if c = 85 then parse_hex 8 rest
        else if c = 116 then Inr (9, rest)
        else if c = 114 then Inr (13, rest)
        else if c = 110 then Inr (10, rest)
        else if c = 92 \<or> c = 34 \<or> c = 91 \<or> c = 93 then Inr (unat c, rest)
        else Inl (Runtime ''unknown escape''))
      else if peek s 0 \<noteq> 0 then Inr (decode_utf8_char s)
      else Inl (Runtime ''unexpected end of input''))"

section \<open>The parser object\<close>

record Parser =
  p_symbols :: "(u8 list \<times> nat) list"
  p_rules :: Rules

definition new_parser :: Parser where
  "new_parser = \<lparr>p_symbols = [], p_rules = []\<rparr>"

definition get_symbol_id :: "Parser \<Rightarrow> u8 list \<Rightarrow> nat \<times> Parser" where
  "get_symbol_id p name =
     (case map_of (p_symbols p) name of
        Some i \<Rightarrow> (i, p)
      | None \<Rightarrow> (length (p_symbols p), p\<lparr>p_symbols := p_symbols p @ [(name, length (p_symbols p))]\<rparr>))"

fun decimal :: "nat \<Rightarrow> u8 list" where
  "decimal n = (if n < 10 then [of_nat (48 + n)] else decimal (n div 10) @ [of_nat (48 + n mod 10)])"

declare decimal.simps [simp del]

definition generate_symbol_id :: "Parser \<Rightarrow> u8 list \<Rightarrow> nat \<times> Parser" where
  "generate_symbol_id p base_name =
     (let next_id = length (p_symbols p) in
      (next_id, p\<lparr>p_symbols := AList.update (base_name @ [95] @ decimal next_id) next_id (p_symbols p)\<rparr>))"

definition add_rule :: "Parser \<Rightarrow> nat \<Rightarrow> Rule \<Rightarrow> Parser" where
  "add_rule p rule_id rule =
     (let rules = (if length (p_rules p) \<le> rule_id then p_rules p @ replicate (rule_id + 1 - length (p_rules p)) [] else p_rules p) in
      p\<lparr>p_rules := rules[rule_id := rule]\<rparr>)"

definition element :: "ElementType \<Rightarrow> nat \<Rightarrow> Element" where
  "element t v = \<lparr>el_type = t, el_value = v\<rparr>"

section \<open>Items of a sequence\<close>

text \<open>A quoted literal and a character class, up to their closing character.\<close>

lemma drop_less: "s \<noteq> [] \<Longrightarrow> 0 < k \<Longrightarrow> length (drop k s) < length s"
  by simp

lemma peek_nonempty: "peek s i \<noteq> 0 \<Longrightarrow> i < length s"
  by (auto simp: peek_def split: if_splits)

lemma parse_char_shorter: "parse_char s = Inr (c, rest) \<Longrightarrow> length rest < length s"
  using peek_nonempty [of s 0]
  by (auto simp: parse_char_def parse_hex_def decode_utf8_char_def Let_def split: if_splits)

function parse_literal :: "Rule \<Rightarrow> u8 list \<Rightarrow> (Rule \<times> u8 list) result" where
  "parse_literal rule s =
     (if peek s 0 = 34 then Inr (rule, s)
      else if peek s 0 = 0 then Inl (Runtime ''unexpected end of input'')
      else case parse_char s of
        Inl e \<Rightarrow> Inl e
      | Inr (c, rest) \<Rightarrow> parse_literal (rule @ [element ET_CHAR c]) rest)"
  by pat_completeness auto
termination
  by (relation "measure (\<lambda>(rule, s). length s)") (auto dest: parse_char_shorter)

declare parse_literal.simps [simp del]

function parse_class :: "ElementType \<Rightarrow> nat \<Rightarrow> Rule \<Rightarrow> u8 list \<Rightarrow> (Rule \<times> u8 list) result" where
  "parse_class start_type last_sym_start rule s =
     (if peek s 0 = 93 then Inr (rule, s)
      else if peek s 0 = 0 then Inl (Runtime ''unexpected end of input'')
      else case parse_char s of
        Inl e \<Rightarrow> Inl e
      | Inr (c, rest) \<Rightarrow>
          (let rule1 = rule @ [element (if last_sym_start < length rule then ET_CHAR_ALT else start_type) c] in
           if peek rest 0 = 45 \<and> peek rest 1 \<noteq> 93
           then (if peek rest 1 = 0 then Inl (Runtime ''unexpected end of input'')
                 else case parse_char (drop 1 rest) of
                   Inl e \<Rightarrow> Inl e
                 | Inr (c2, rest2) \<Rightarrow> parse_class start_type last_sym_start (rule1 @ [element ET_CHAR_RNG_UPPER c2]) rest2)
           else parse_class start_type last_sym_start rule1 rest))"
  by pat_completeness auto
termination
  by (relation "measure (\<lambda>(t, l, rule, s). length s)") (auto dest!: parse_char_shorter)

declare parse_class.simps [simp del]

text \<open>The rules a repetition adds: each of them repeats the item and may end.\<close>

fun repetition_rules :: "u8 list \<Rightarrow> Rule \<Rightarrow> bool \<Rightarrow> bool \<Rightarrow> nat \<Rightarrow> nat \<Rightarrow> Parser \<Rightarrow> nat \<times> Parser" where
  "repetition_rules rule_name prev unbounded first last_rec_rule_id 0 p = (last_rec_rule_id, p)"
| "repetition_rules rule_name prev unbounded first last_rec_rule_id (Suc n) p =
     (let (rec_rule_id, p1) = generate_symbol_id p rule_name;
          rec_rule = prev @ (if \<not> first \<or> unbounded then [element ET_RULE_REF (if unbounded then rec_rule_id else last_rec_rule_id)] else [])
            @ [element ET_ALT 0, element ET_END 0]
      in repetition_rules rule_name prev unbounded False rec_rule_id n (add_rule p1 rec_rule_id rec_rule))"

definition handle_repetitions :: "u8 list \<Rightarrow> int \<Rightarrow> int \<Rightarrow> nat \<Rightarrow> Rule \<Rightarrow> Parser \<Rightarrow> (Rule \<times> Parser) result" where
  "handle_repetitions rule_name min_times max_times last_sym_start rule p =
     (if last_sym_start = length rule then Inl (Runtime ''expecting preceding item'')
      else let prev_rule = drop last_sym_start rule;
               rule1 = (if min_times = 0 then take last_sym_start rule
                 else rule @ concat (replicate (nat (min_times - 1)) prev_rule));
               n_opt = (if max_times < 0 then 1 else int32_of (max_times - min_times));
               (last_rec_rule_id, p1) = repetition_rules rule_name prev_rule (max_times < 0) True 0 (nat n_opt) p
           in Inr (if n_opt > 0 then rule1 @ [element ET_RULE_REF last_rec_rule_id] else rule1, p1))"

text \<open>The bounds of a repetition in braces, behind the opening brace.\<close>

definition parse_bounds :: "bool \<Rightarrow> u8 list \<Rightarrow> (int \<times> int \<times> u8 list) result" where
  "parse_bounds is_nested s =
     (case parse_int s of
        Inl e \<Rightarrow> Inl (Runtime ''expecting an int'')
      | Inr (digits, int_end) \<Rightarrow>
          (case repeat_count digits of
             Inl e \<Rightarrow> Inl e
           | Inr min_times \<Rightarrow>
               (let pos = parse_space is_nested int_end in
                if peek pos 0 = 125 then Inr (min_times, min_times, parse_space is_nested (drop 1 pos))
                else if peek pos 0 = 44
                then (let pos1 = parse_space is_nested (drop 1 pos) in
                  case (if is_digit_char (peek pos1 0)
                        then (case parse_int pos1 of
                                Inl e \<Rightarrow> Inl e
                              | Inr (ds, max_end) \<Rightarrow> (case repeat_count ds of Inl e \<Rightarrow> Inl e | Inr k \<Rightarrow> Inr (k, parse_space is_nested max_end)))
                        else Inr (-1, pos1)) of
                    Inl e \<Rightarrow> Inl e
                  | Inr (max_times, pos2) \<Rightarrow>
                      if peek pos2 0 \<noteq> 125 then Inl (Runtime ''expecting }'')
                      else Inr (min_times, max_times, parse_space is_nested (drop 1 pos2)))
                else Inl (Runtime ''expecting ,''))))"

definition repeat_item :: "u8 list \<Rightarrow> int \<Rightarrow> int \<Rightarrow> nat \<Rightarrow> Rule \<Rightarrow> Parser \<Rightarrow> u8 list \<Rightarrow> (nat \<times> Rule \<times> Parser \<times> u8 list) option result" where
  "repeat_item rule_name min_times max_times last_sym_start rule p rest =
     (case handle_repetitions rule_name min_times max_times last_sym_start rule p of
        Inl e \<Rightarrow> Inl e | Inr (rule', p') \<Rightarrow> Inr (Some (last_sym_start, rule', p', rest)))"

text \<open>
  One item that is not a group: the new start of the last symbol, the rule, the parser and the rest; None where the sequence ends.
\<close>

definition sequence_item :: "u8 list \<Rightarrow> bool \<Rightarrow> nat \<Rightarrow> Rule \<Rightarrow> Parser \<Rightarrow> u8 list \<Rightarrow> (nat \<times> Rule \<times> Parser \<times> u8 list) option result" where
  "sequence_item rule_name is_nested last_sym_start rule p s =
     (let repeats = (\<lambda>min_times max_times. repeat_item rule_name min_times max_times last_sym_start rule p) in
      if peek s 0 = 34
      then (case parse_literal rule (drop 1 s) of
              Inl e \<Rightarrow> Inl e
            | Inr (rule', rest) \<Rightarrow> Inr (Some (length rule, rule', p, parse_space is_nested (drop 1 rest))))
      else if peek s 0 = 91
      then (case (if peek s 1 = 94 then parse_class ET_CHAR_NOT (length rule) rule (drop 2 s)
                  else parse_class ET_CHAR (length rule) rule (drop 1 s)) of
              Inl e \<Rightarrow> Inl e
            | Inr (rule', rest) \<Rightarrow> Inr (Some (length rule, rule', p, parse_space is_nested (drop 1 rest))))
      else if is_word_char (peek s 0)
      then (case parse_name s of
              Inl e \<Rightarrow> Inl e
            | Inr (name, rest) \<Rightarrow>
                (let (ref_rule_id, p') = get_symbol_id p name in
                 Inr (Some (length rule, rule @ [element ET_RULE_REF ref_rule_id], p', parse_space is_nested rest))))
      else if peek s 0 = 46
      then Inr (Some (length rule, rule @ [element ET_CHAR_ANY 0], p, parse_space is_nested (drop 1 s)))
      else if peek s 0 = 42 then repeats 0 (-1) (parse_space is_nested (drop 1 s))
      else if peek s 0 = 43 then repeats 1 (-1) (parse_space is_nested (drop 1 s))
      else if peek s 0 = 63 then repeats 0 1 (parse_space is_nested (drop 1 s))
      else if peek s 0 = 123
      then (case parse_bounds is_nested (parse_space is_nested (drop 1 s)) of
              Inl e \<Rightarrow> Inl e | Inr (min_times, max_times, rest) \<Rightarrow> repeats min_times max_times rest)
      else Inr None)"

section \<open>Sequences, alternates and rules\<close>

text \<open>
  Every turn of a loop reads at least one character, so the length of the text bounds the turns; a group reads its opening
  parenthesis, so it bounds the nesting too. The parser of a group is the first argument of the loops it occurs in.
\<close>

type_synonym group_parser = "u8 list \<Rightarrow> nat \<Rightarrow> bool \<Rightarrow> Parser \<Rightarrow> u8 list \<Rightarrow> (Parser \<times> u8 list) result"

primrec sequence_loop :: "nat \<Rightarrow> group_parser \<Rightarrow> u8 list \<Rightarrow> bool \<Rightarrow> nat \<Rightarrow> Rule \<Rightarrow> Parser \<Rightarrow> u8 list \<Rightarrow> (Rule \<times> Parser \<times> u8 list) result" where
  "sequence_loop 0 = (\<lambda>grp rule_name is_nested last_sym_start rule p s. Inl OutOfFuel)"
| "sequence_loop (Suc k) = (\<lambda>grp rule_name is_nested last_sym_start rule p s.
     if peek s 0 = 0 then Inr (rule, p, s)
     else if peek s 0 = 40
     then (let (sub_rule_id, p1) = generate_symbol_id p rule_name in
       case grp rule_name sub_rule_id True p1 (parse_space True (drop 1 s)) of
         Inl e \<Rightarrow> Inl e
       | Inr (p2, rest) \<Rightarrow>
           if peek rest 0 \<noteq> 41 then Inl (Runtime ''expecting )'')
           else sequence_loop k grp rule_name is_nested (length rule) (rule @ [element ET_RULE_REF sub_rule_id]) p2
             (parse_space is_nested (drop 1 rest)))
     else case sequence_item rule_name is_nested last_sym_start rule p s of
       Inl e \<Rightarrow> Inl e
     | Inr None \<Rightarrow> Inr (rule, p, s)
     | Inr (Some (last', rule', p', rest)) \<Rightarrow> sequence_loop k grp rule_name is_nested last' rule' p' rest)"

definition parse_sequence :: "group_parser \<Rightarrow> u8 list \<Rightarrow> bool \<Rightarrow> Rule \<Rightarrow> Parser \<Rightarrow> u8 list \<Rightarrow> (Rule \<times> Parser \<times> u8 list) result" where
  "parse_sequence grp rule_name is_nested rule p s = sequence_loop (Suc (length s)) grp rule_name is_nested (length rule) rule p s"

primrec alternates_loop :: "nat \<Rightarrow> group_parser \<Rightarrow> u8 list \<Rightarrow> bool \<Rightarrow> Rule \<Rightarrow> Parser \<Rightarrow> u8 list \<Rightarrow> (Rule \<times> Parser \<times> u8 list) result" where
  "alternates_loop 0 = (\<lambda>grp rule_name is_nested rule p s. Inl OutOfFuel)"
| "alternates_loop (Suc k) = (\<lambda>grp rule_name is_nested rule p s.
     if peek s 0 = 124
     then (case parse_sequence grp rule_name is_nested (rule @ [element ET_ALT 0]) p (parse_space True (drop 1 s)) of
             Inl e \<Rightarrow> Inl e
           | Inr (rule', p', rest) \<Rightarrow> alternates_loop k grp rule_name is_nested rule' p' rest)
     else Inr (rule, p, s))"

primrec parse_alternates :: "nat \<Rightarrow> group_parser" where
  "parse_alternates 0 = (\<lambda>rule_name rule_id is_nested p s. Inl OutOfFuel)"
| "parse_alternates (Suc n) = (\<lambda>rule_name rule_id is_nested p s.
     case parse_sequence (parse_alternates n) rule_name is_nested [] p s of
       Inl e \<Rightarrow> Inl e
     | Inr (rule, p1, s1) \<Rightarrow>
         (case alternates_loop (Suc (length s1)) (parse_alternates n) rule_name is_nested rule p1 s1 of
            Inl e \<Rightarrow> Inl e
          | Inr (rule', p2, s2) \<Rightarrow> Inr (add_rule p2 rule_id (rule' @ [element ET_END 0]), s2)))"

definition parse_rule :: "Parser \<Rightarrow> u8 list \<Rightarrow> (Parser \<times> u8 list) result" where
  "parse_rule p s =
     (case parse_name s of
        Inl e \<Rightarrow> Inl e
      | Inr (name, name_end) \<Rightarrow>
          (let pos = parse_space False name_end; (rule_id, p1) = get_symbol_id p name in
           if \<not> (peek pos 0 = 58 \<and> peek pos 1 = 58 \<and> peek pos 2 = 61) then Inl (Runtime ''expecting ::='')
           else case parse_alternates (Suc (length s)) name rule_id False p1 (parse_space True (drop 3 pos)) of
             Inl e \<Rightarrow> Inl e
           | Inr (p2, pos2) \<Rightarrow>
               if peek pos2 0 = 13 then Inr (p2, parse_space True (drop (if peek pos2 1 = 10 then 2 else 1) pos2))
               else if peek pos2 0 = 10 then Inr (p2, parse_space True (drop 1 pos2))
               else if peek pos2 0 \<noteq> 0 then Inl (Runtime ''expecting newline or end'')
               else Inr (p2, parse_space True pos2)))"

primrec parse_rules :: "nat \<Rightarrow> Parser \<Rightarrow> u8 list \<Rightarrow> Parser result" where
  "parse_rules 0 = (\<lambda>p s. Inl OutOfFuel)"
| "parse_rules (Suc k) = (\<lambda>p s.
     if peek s 0 = 0 then Inr p
     else case parse_rule p s of Inl e \<Rightarrow> Inl e | Inr (p', rest) \<Rightarrow> parse_rules k p' rest)"

text \<open>Every referenced rule must be defined: the first error in the order of the rules.\<close>

definition undefined_element :: "Rules \<Rightarrow> Element \<Rightarrow> bool" where
  "undefined_element rules e \<longleftrightarrow> el_type e = ET_RULE_REF \<and> (el_value e \<ge> length rules \<or> rules ! el_value e = [])"

definition check_defined :: "Parser \<Rightarrow> Parser result" where
  "check_defined p =
     (case find (\<lambda>rule. rule = [] \<or> (\<exists>e \<in> set rule. undefined_element (p_rules p) e)) (p_rules p) of
        None \<Rightarrow> Inr p
      | Some rule \<Rightarrow>
          (case find (undefined_element (p_rules p)) rule of
             None \<Rightarrow> Inl (Runtime ''Undefined rule'')
           | Some e \<Rightarrow> Inl (Runtime (if el_value e \<in> snd ` set (p_symbols p) then ''Undefined rule identifier'' else ''Undefined rule''))))"

definition parse :: "u8 list \<Rightarrow> Parser result" where
  "parse src =
     (let s = takeWhile (\<lambda>c. c \<noteq> 0) src in
      case parse_rules (Suc (length s)) new_parser (parse_space True s) of Inl e \<Rightarrow> Inl e | Inr p \<Rightarrow> check_defined p)"

section \<open>Left recursion\<close>

record LeftScan =
  rules_visited :: "bool list"
  rules_in_progress :: "bool list"
  rules_may_be_empty :: "bool list"

text \<open>Whether some alternate of a rule has no element at all.\<close>

fun has_empty_alternate :: "bool \<Rightarrow> Rule \<Rightarrow> bool" where
  "has_empty_alternate at_rule_start [] \<longleftrightarrow> False"
| "has_empty_alternate at_rule_start (e # es) \<longleftrightarrow>
     (if el_type e = ET_END \<or> el_type e = ET_ALT then at_rule_start \<or> has_empty_alternate True es else has_empty_alternate False es)"

text \<open>The loop over the leftmost nonterminals of the alternates of a rule.\<close>

fun scan_left :: "(nat \<Rightarrow> LeftScan \<Rightarrow> (bool \<times> LeftScan) result) \<Rightarrow> Rule \<Rightarrow> bool \<Rightarrow> LeftScan \<Rightarrow> (bool \<times> LeftScan) result" where
  "scan_left visit [] recurse_into_nonterminal st = Inr (False, st)"
| "scan_left visit (e # es) recurse_into_nonterminal st =
     (if el_type e = ET_RULE_REF \<and> recurse_into_nonterminal
      then (case visit (el_value e) st of
              Inl err \<Rightarrow> Inl err
            | Inr (found, st') \<Rightarrow>
                if found then Inr (True, st') else scan_left visit es (rules_may_be_empty st' ! el_value e) st')
      else scan_left visit es (el_type e = ET_END \<or> el_type e = ET_ALT) st)"

primrec detect_left_recursion :: "nat \<Rightarrow> Rules \<Rightarrow> nat \<Rightarrow> LeftScan \<Rightarrow> (bool \<times> LeftScan) result" where
  "detect_left_recursion 0 = (\<lambda>rules rule_index st. Inl OutOfFuel)"
| "detect_left_recursion (Suc n) = (\<lambda>rules rule_index st.
     if rules_in_progress st ! rule_index then Inr (True, st)
     else let rule = rules ! rule_index;
              st1 = st\<lparr>rules_in_progress := (rules_in_progress st)[rule_index := True]\<rparr>;
              st2 = (if has_empty_alternate True rule
                then st1\<lparr>rules_may_be_empty := (rules_may_be_empty st1)[rule_index := True]\<rparr> else st1) in
       case scan_left (detect_left_recursion n rules) rule True st2 of
         Inl e \<Rightarrow> Inl e
       | Inr (found, st3) \<Rightarrow>
           if found then Inr (True, st3)
           else Inr (False, st3\<lparr>rules_in_progress := (rules_in_progress st3)[rule_index := False],
                                rules_visited := (rules_visited st3)[rule_index := True]\<rparr>))"

fun find_left_recursion :: "nat \<Rightarrow> Rules \<Rightarrow> nat list \<Rightarrow> LeftScan \<Rightarrow> nat option result" where
  "find_left_recursion n rules [] st = Inr None"
| "find_left_recursion n rules (i # is) st =
     (if rules_visited st ! i then find_left_recursion n rules is st
      else case detect_left_recursion n rules i st of
        Inl e \<Rightarrow> Inl e
      | Inr (found, st') \<Rightarrow> if found then Inr (Some i) else find_left_recursion n rules is st')"

definition new_scan :: "nat \<Rightarrow> LeftScan" where
  "new_scan n = \<lparr>rules_visited = replicate n False, rules_in_progress = replicate n False, rules_may_be_empty = replicate n False\<rparr>"

section \<open>Compiling a grammar\<close>

text \<open>Reading the rules behind their end, for a root that is only mentioned, is \<^const>\<open>BadAccess\<close>.\<close>

definition compile :: "nat \<Rightarrow> u8 list \<Rightarrow> u8 list \<Rightarrow> Matcher result" where
  "compile n src root =
     (case parse src of
        Inl e \<Rightarrow> Inl e
      | Inr p \<Rightarrow>
          if p_rules p = [] then Inl (Runtime ''empty grammar'')
          else case map_of (p_symbols p) root of
            None \<Rightarrow> Inl (Runtime ''grammar does not contain the root rule'')
          | Some root_id \<Rightarrow>
              (let rules = p_rules p; n_rules = length rules in
               case find_left_recursion (Suc n_rules) rules [0..<n_rules] (new_scan n_rules) of
                 Inl e \<Rightarrow> Inl e
               | Inr (Some i) \<Rightarrow> Inl (Runtime ''unsupported grammar, left recursion'')
               | Inr None \<Rightarrow>
                   if root_id \<ge> n_rules then Inl BadAccess
                   else case initial_stacks n rules root_id of
                     Inl e \<Rightarrow> Inl e
                   | Inr stacks \<Rightarrow> Inr \<lparr>m_rules = rules, m_symbols = p_symbols p, m_stacks = stacks, m_partial = no_partial\<rparr>))"

end
