(* ===== verification/Gbnf_Parse_Ok.thy ===== *)
theory Gbnf_Parse_Ok
  imports Gbnf_Parse Gbnf_Props
begin

text \<open>
  The parser returns on every text, and the rules it builds are well formed: what the matcher relies on.
\<close>

section \<open>The parser returns\<close>

lemma parse_space_le: "length (parse_space b s) \<le> length s"
  by (induction b s rule: parse_space.induct) (auto intro: order_trans le_SucI length_dropWhile_le)

text \<open>What is left of a text is no longer than the text.\<close>

lemma rest_le:
  "length t \<le> n \<Longrightarrow> length (parse_space b t) \<le> n"
  "length t \<le> n \<Longrightarrow> length t - k \<le> n"
  "length t \<le> n \<Longrightarrow> length (dropWhile P t) \<le> n"
  using parse_space_le [of b t] length_dropWhile_le [of P t] by auto

lemma parse_char_fuel [simp]: "parse_char s \<noteq> Inl OutOfFuel"
  by (simp add: parse_char_def parse_hex_def Let_def)

lemma parse_literal_total: "parse_literal rule s \<noteq> Inl OutOfFuel \<and> (\<forall>rule' rest. parse_literal rule s = Inr (rule', rest) \<longrightarrow> length rest \<le> length s)"
proof (induction rule s rule: parse_literal.induct)
  case (1 rule s)
  show ?case
  proof (cases "peek s 0 = 34 \<or> peek s 0 = 0 \<or> (\<exists>e. parse_char s = Inl e)")
    case True
    then show ?thesis by (subst (1 2) parse_literal.simps) auto
  next
    case False
    then obtain c rest where c: "parse_char s = Inr (c, rest)" by (cases "parse_char s") auto
    show ?thesis using 1 [OF _ _ c refl] parse_char_shorter [OF c] c False by (subst (1 2) parse_literal.simps) fastforce
  qed
qed

lemma parse_class_total:
  "parse_class t l rule s \<noteq> Inl OutOfFuel \<and> (\<forall>rule' rest. parse_class t l rule s = Inr (rule', rest) \<longrightarrow> length rest \<le> length s)"
proof (induction t l rule s rule: parse_class.induct)
  case (1 t l rule s)
  show ?case
  proof (cases "peek s 0 = 93 \<or> peek s 0 = 0 \<or> (\<exists>e. parse_char s = Inl e)")
    case True
    then show ?thesis by (subst (1 2) parse_class.simps) auto
  next
    case False
    then obtain c rest where c: "parse_char s = Inr (c, rest)" by (cases "parse_char s") auto
    note len = parse_char_shorter [OF c]
    let ?rule1 = "rule @ [element (if l < length rule then ET_CHAR_ALT else t) c]"
    show ?thesis
    proof (cases "peek rest 0 = 45 \<and> peek rest 1 \<noteq> 93")
      case range: True
      show ?thesis
      proof (cases "peek rest 1 = 0 \<or> (\<exists>e. parse_char (drop 1 rest) = Inl e)")
        case True
        then show ?thesis using c False range by (subst (1 2) parse_class.simps) auto
      next
        case go: False
        then obtain c2 rest2 where c2: "parse_char (drop 1 rest) = Inr (c2, rest2)" by (cases "parse_char (drop 1 rest)") auto
        then show ?thesis using 1(1) [OF _ _ c refl refl range _ c2 refl] parse_char_shorter [OF c2] len c False range go
          by (subst (1 2) parse_class.simps) fastforce
      qed
    next
      case no_range: False
      then show ?thesis using 1(2) [OF _ _ c refl refl no_range] len c False by (subst (1 2) parse_class.simps) fastforce
    qed
  qed
qed

lemmas parse_literal_fuel = parse_literal_total [THEN conjunct1]
  and parse_literal_le = parse_literal_total [THEN conjunct2, rule_format]
  and parse_class_fuel = parse_class_total [THEN conjunct1]
  and parse_class_le = parse_class_total [THEN conjunct2, rule_format]

lemma parse_bounds_total:
  "parse_bounds b s \<noteq> Inl OutOfFuel \<and> (\<forall>lo hi rest. parse_bounds b s = Inr (lo, hi, rest) \<longrightarrow> length rest \<le> length s)"
  by (auto simp: parse_bounds_def parse_int_def repeat_count_def Let_def intro!: rest_le split: if_splits sum.splits)

lemmas parse_bounds_fuel = parse_bounds_total [THEN conjunct1]
  and parse_bounds_le = parse_bounds_total [THEN conjunct2, rule_format]

lemma handle_repetitions_fuel: "handle_repetitions rule_name lo hi l rule p \<noteq> Inl OutOfFuel"
  by (auto simp: handle_repetitions_def Let_def split: prod.splits)

lemma is_word_char_0 [simp]: "\<not> is_word_char 0"
  by (simp add: is_word_char_def is_digit_char_def)

lemma parse_name_shorter: "parse_name s = Inr (name, rest) \<Longrightarrow> length rest < length s"
  by (cases s) (auto simp: parse_name_def less_Suc_eq_le length_dropWhile_le split: if_splits)

lemma repeat_item_total:
  "repeat_item rule_name lo hi l rule p rest' \<noteq> Inl OutOfFuel"
  "repeat_item rule_name lo hi l rule p rest' = Inr (Some (l', rule', p', rest)) \<Longrightarrow> rest = rest'"
  using handle_repetitions_fuel [of rule_name lo hi l rule p] by (auto simp: repeat_item_def split: sum.splits)

lemma tail_less: "s \<noteq> [] \<Longrightarrow> length t \<le> length s - Suc k \<Longrightarrow> length t < length s"
  by (cases s) auto

text \<open>A turn of a sequence reads something.\<close>

lemma sequence_item_total:
  "sequence_item rule_name b l rule p s \<noteq> Inl OutOfFuel"
  "sequence_item rule_name b l rule p s = Inr (Some (l', rule', p', rest)) \<Longrightarrow> length rest < length s"
proof -
  have lit: "parse_literal rule t \<noteq> Inl OutOfFuel" "parse_class c l2 rule t \<noteq> Inl OutOfFuel" "parse_bounds b t \<noteq> Inl OutOfFuel" for c l2 t
    by (simp_all add: parse_literal_fuel parse_class_fuel parse_bounds_fuel)
  have name: "parse_name s \<noteq> Inl OutOfFuel" by (simp add: parse_name_def)
  show "sequence_item rule_name b l rule p s \<noteq> Inl OutOfFuel"
    using lit name repeat_item_total(1) by (auto simp: sequence_item_def Let_def split: sum.splits prod.splits if_splits)
  assume item: "sequence_item rule_name b l rule p s = Inr (Some (l', rule', p', rest))"
  have "s \<noteq> []" using item by (auto simp: sequence_item_def peek_def)
  then have short: "length t \<le> length s - Suc k \<Longrightarrow> length t < length s" for t :: "u8 list" and k by (rule tail_less)
  have sp: "length (parse_space b t) \<le> length t" for t by (rule parse_space_le)
  have closed: "length (parse_space b (drop 1 t)) < length s" if "length t \<le> length (drop (Suc k) s)" for t k
    using that sp [of "drop 1 t"] \<open>s \<noteq> []\<close> by (cases s) auto
  consider (lit) "peek s 0 = 34" | (cls) "peek s 0 = 91" | (word) "peek s 0 \<noteq> 34" "peek s 0 \<noteq> 91" "is_word_char (peek s 0)"
    | (rest) "peek s 0 \<noteq> 34" "peek s 0 \<noteq> 91" "\<not> is_word_char (peek s 0)" by blast
  then show "length rest < length s"
  proof cases
    case lit
    then obtain t where "parse_literal rule (drop 1 s) = Inr (rule', t)" "rest = parse_space b (drop 1 t)"
      using item by (auto simp: sequence_item_def split: sum.splits)
    then show ?thesis using closed [of t 0] parse_literal_le by fastforce
  next
    case cls
    then obtain t where "parse_class ET_CHAR_NOT (length rule) rule (drop 2 s) = Inr (rule', t) \<or> parse_class ET_CHAR (length rule) rule (drop 1 s) = Inr (rule', t)"
        "rest = parse_space b (drop 1 t)"
      using item by (cases "peek s 1 = 94") (auto simp: sequence_item_def split: sum.splits)
    moreover from this have "length t \<le> length (drop (Suc 0) s)"
      using parse_class_le [of ET_CHAR_NOT "length rule" rule "drop 2 s" rule' t] parse_class_le [of ET_CHAR "length rule" rule "drop 1 s" rule' t] by auto
    ultimately show ?thesis using closed [of t 0] by simp
  next
    case word
    then obtain n t where "parse_name s = Inr (n, t)" "rest = parse_space b t"
      using item by (auto simp: sequence_item_def Let_def split: sum.splits prod.splits)
    then show ?thesis using parse_name_shorter [of s n t] sp [of t] by simp
  next
    case rest
    then have "rest = parse_space b (drop 1 s) \<or> (\<exists>lo hi. parse_bounds b (parse_space b (drop 1 s)) = Inr (lo, hi, rest))"
      using item by (auto simp: sequence_item_def Let_def dest!: repeat_item_total(2) split: if_splits sum.splits)
    then show ?thesis using closed [of s 0] sp [of "drop 1 s"] parse_bounds_le [of b "parse_space b (drop 1 s)"] short [of rest 0] by fastforce
  qed
qed

text \<open>A group parser that reads within its text, and that returns on texts shorter than a bound.\<close>

definition grp_reads :: "group_parser \<Rightarrow> bool" where
  "grp_reads grp \<longleftrightarrow> (\<forall>name i b p s p' rest. grp name i b p s = Inr (p', rest) \<longrightarrow> length rest \<le> length s)"

definition grp_returns :: "nat \<Rightarrow> group_parser \<Rightarrow> bool" where
  "grp_returns n grp \<longleftrightarrow> (\<forall>name i b p s. length s < n \<longrightarrow> grp name i b p s \<noteq> Inl OutOfFuel)"

lemma sequence_loop_reads:
  assumes g: "grp_reads grp"
  shows "sequence_loop k grp name b l rule p s = Inr (rule', p', rest) \<Longrightarrow> length rest \<le> length s"
proof (induction k arbitrary: l rule p s)
  case (Suc k)
  consider (stop) "rest = s" | (sub) i p1 p2 r l1 rule1 where "grp name i True p1 (parse_space True (drop 1 s)) = Inr (p2, r)"
      "sequence_loop k grp name b l1 rule1 p2 (parse_space b (drop 1 r)) = Inr (rule', p', rest)"
    | (item) l1 rule1 p1 r where "sequence_item name b l rule p s = Inr (Some (l1, rule1, p1, r))" "sequence_loop k grp name b l1 rule1 p1 r = Inr (rule', p', rest)"
    using Suc.prems by (auto split: if_splits sum.splits prod.splits option.splits)
  then show ?case
  proof cases
    case sub
    have "length r \<le> length (parse_space True (drop 1 s))" using g sub(1) unfolding grp_reads_def by blast
    then show ?thesis using Suc.IH [OF sub(2)] parse_space_le [of True "drop 1 s"] parse_space_le [of b "drop 1 r"] by simp
  next
    case item
    then show ?thesis using Suc.IH [OF item(2)] sequence_item_total(2) [OF item(1)] by simp
  qed simp
qed simp

lemma sequence_loop_returns:
  assumes g: "grp_reads grp" "grp_returns n grp"
  shows "length s < k \<Longrightarrow> length s \<le> n \<Longrightarrow> sequence_loop k grp name b l rule p s \<noteq> Inl OutOfFuel"
proof (induction k arbitrary: l rule p s)
  case (Suc k)
  show ?case
  proof (cases "peek s 0 = 40")
    case True
    then have "s \<noteq> []" by (auto simp: peek_def)
    then have len: "length (parse_space True (drop 1 s)) < length s" using parse_space_le [of True "drop 1 s"] by (cases s) auto
    have "grp name i True p1 (parse_space True (drop 1 s)) \<noteq> Inl OutOfFuel" for i p1
      using g(2) len Suc.prems unfolding grp_returns_def by auto
    moreover have "sequence_loop k grp name b l1 rule1 p2 (parse_space b (drop 1 r)) \<noteq> Inl OutOfFuel"
      if "grp name i True p1 (parse_space True (drop 1 s)) = Inr (p2, r)" for i p1 p2 r l1 rule1
    proof (rule Suc.IH)
      have "length r \<le> length (parse_space True (drop 1 s))" using g(1) that unfolding grp_reads_def by blast
      then show "length (parse_space b (drop 1 r)) < k" "length (parse_space b (drop 1 r)) \<le> n"
        using len Suc.prems parse_space_le [of b "drop 1 r"] by simp_all
    qed
    ultimately show ?thesis using True by (auto simp: Let_def split: sum.splits prod.splits)
  next
    case False
    have "sequence_loop k grp name b l1 rule1 p1 r \<noteq> Inl OutOfFuel" if "sequence_item name b l rule p s = Inr (Some (l1, rule1, p1, r))" for l1 rule1 p1 r
      using Suc.IH sequence_item_total(2) [OF that] Suc.prems by simp
    then show ?thesis using False sequence_item_total(1) by (auto split: sum.splits option.splits)
  qed
qed simp

lemma alternates_loop_reads:
  assumes g: "grp_reads grp"
  shows "alternates_loop k grp name b rule p s = Inr (rule', p', rest) \<Longrightarrow> length rest \<le> length s"
proof (induction k arbitrary: rule p s)
  case (Suc k)
  show ?case
  proof (cases "peek s 0 = 124")
    case True
    then obtain rule1 p1 r where r: "parse_sequence grp name b (rule @ [element ET_ALT 0]) p (parse_space True (drop 1 s)) = Inr (rule1, p1, r)"
      "alternates_loop k grp name b rule1 p1 r = Inr (rule', p', rest)" using Suc.prems by (auto split: sum.splits)
    show ?thesis using Suc.IH [OF r(2)] sequence_loop_reads [OF g r(1) [unfolded parse_sequence_def]] parse_space_le [of True "drop 1 s"] by simp
  qed (use Suc.prems in simp)
qed simp

lemma alternates_loop_returns:
  assumes g: "grp_reads grp" "grp_returns n grp"
  shows "length s < k \<Longrightarrow> length s \<le> n \<Longrightarrow> alternates_loop k grp name b rule p s \<noteq> Inl OutOfFuel"
proof (induction k arbitrary: rule p s)
  case (Suc k)
  show ?case
  proof (cases "peek s 0 = 124")
    case True
    then have "s \<noteq> []" by (auto simp: peek_def)
    then have len: "length (parse_space True (drop 1 s)) < length s" using parse_space_le [of True "drop 1 s"] by (cases s) auto
    let ?seq = "parse_sequence grp name b (rule @ [element ET_ALT 0]) p (parse_space True (drop 1 s))"
    have "?seq \<noteq> Inl OutOfFuel" unfolding parse_sequence_def by (rule sequence_loop_returns [OF g]) (use len Suc.prems in simp_all)
    moreover have "alternates_loop k grp name b rule1 p1 r \<noteq> Inl OutOfFuel" if "?seq = Inr (rule1, p1, r)" for rule1 p1 r
      using Suc.IH [of r] sequence_loop_reads [OF g(1) that [unfolded parse_sequence_def]] len Suc.prems by simp
    ultimately show ?thesis using True by (auto split: sum.splits)
  qed simp
qed simp

lemma parse_alternates_reads: "grp_reads (parse_alternates n)"
proof (induction n)
  case (Suc n)
  have "length rest \<le> length s" if pa: "parse_alternates (Suc n) name i b p s = Inr (p', rest)" for name i b p s p' rest
  proof -
    obtain rule1 p1 s1 rule2 p2 where a: "parse_sequence (parse_alternates n) name b [] p s = Inr (rule1, p1, s1)"
      "alternates_loop (Suc (length s1)) (parse_alternates n) name b rule1 p1 s1 = Inr (rule2, p2, rest)"
      using pa by (auto split: sum.splits simp del: alternates_loop.simps)
    show ?thesis using sequence_loop_reads [OF Suc a(1) [unfolded parse_sequence_def]] alternates_loop_reads [OF Suc a(2)] by simp
  qed
  then show ?case unfolding grp_reads_def by blast
qed (simp add: grp_reads_def)

lemma parse_alternates_returns: "grp_returns n (parse_alternates n)"
proof (induction n)
  case (Suc n)
  note g = parse_alternates_reads [of n] Suc
  have "parse_alternates (Suc n) name i b p s \<noteq> Inl OutOfFuel" if s: "length s \<le> n" for name i b p s
  proof -
    let ?seq = "parse_sequence (parse_alternates n) name b [] p s"
    have "?seq \<noteq> Inl OutOfFuel" unfolding parse_sequence_def by (rule sequence_loop_returns [OF g]) (use s in simp_all)
    moreover have "alternates_loop (Suc (length s1)) (parse_alternates n) name b rule1 p1 s1 \<noteq> Inl OutOfFuel" if "?seq = Inr (rule1, p1, s1)" for rule1 p1 s1
      by (rule alternates_loop_returns [OF g]) (use sequence_loop_reads [OF g(1) that [unfolded parse_sequence_def]] s in simp_all)
    ultimately show ?thesis by (auto simp del: alternates_loop.simps split: sum.splits)
  qed
  then show ?case by (simp add: grp_returns_def less_Suc_eq_le)
qed (simp add: grp_returns_def)

lemma parse_rule_total:
  "parse_rule p s \<noteq> Inl OutOfFuel"
  "parse_rule p s = Inr (p', rest) \<Longrightarrow> length rest < length s"
proof -
  have a: "parse_alternates (Suc (length s)) nm i False p1 (parse_space True (drop 3 (parse_space False t))) \<noteq> Inl OutOfFuel \<and>
      (\<forall>p2 r. parse_alternates (Suc (length s)) nm i False p1 (parse_space True (drop 3 (parse_space False t))) = Inr (p2, r) \<longrightarrow> length r < length s)"
    if t: "parse_name s = Inr (nm', t)" for nm nm' t i p1
  proof -
    have "length (parse_space True (drop 3 (parse_space False t))) < length s"
      using parse_name_shorter [OF t] parse_space_le [of False t] parse_space_le [of True "drop 3 (parse_space False t)"] by simp
    then show ?thesis using parse_alternates_returns [of "Suc (length s)"] parse_alternates_reads [of "Suc (length s)"]
      unfolding grp_returns_def grp_reads_def by (meson le_less_trans less_SucI)
  qed
  have "parse_name s \<noteq> Inl OutOfFuel" by (simp add: parse_name_def)
  then show "parse_rule p s \<noteq> Inl OutOfFuel"
    using a by (auto simp: parse_rule_def Let_def simp del: parse_alternates.simps split: sum.splits prod.splits)
  assume r: "parse_rule p s = Inr (p', rest)"
  then obtain nm t i p1 p2 r2 k where n: "parse_name s = Inr (nm, t)"
    and al: "parse_alternates (Suc (length s)) nm i False p1 (parse_space True (drop 3 (parse_space False t))) = Inr (p2, r2)"
    and "rest = parse_space True (drop k r2)"
    by (auto simp: parse_rule_def Let_def simp del: parse_alternates.simps split: sum.splits prod.splits if_splits) (metis drop0)
  then show "length rest < length s" using a [OF n] parse_space_le [of True "drop k r2"] by fastforce
qed

lemma parse_rules_returns: "length s < k \<Longrightarrow> parse_rules k p s \<noteq> Inl OutOfFuel"
proof (induction k arbitrary: p s)
  case (Suc k)
  have "parse_rules k p' rest \<noteq> Inl OutOfFuel" if "parse_rule p s = Inr (p', rest)" for p' rest
    using Suc.IH [of rest p'] parse_rule_total(2) [OF that] Suc.prems by simp
  then show ?case using parse_rule_total(1) [of p s] by (auto split: sum.splits)
qed simp

lemma parse_returns: "parse src \<noteq> Inl OutOfFuel"
proof -
  let ?s = "takeWhile (\<lambda>c. c \<noteq> 0) src"
  have "parse_rules (Suc (length ?s)) new_parser (parse_space True ?s) \<noteq> Inl OutOfFuel"
    by (rule parse_rules_returns) (simp add: less_Suc_eq_le parse_space_le)
  moreover have "check_defined p \<noteq> Inl OutOfFuel" for p by (simp add: check_defined_def split: option.splits)
  ultimately show ?thesis by (auto simp: parse_def Let_def simp del: parse_rules.simps split: sum.splits)
qed

end
