(* ===== verification/Gbnf_Parse_Wf.thy ===== *)
theory Gbnf_Parse_Wf
  imports Gbnf_Parse_Ok
begin

text \<open>
  Well-formedness of parsed rules: a range end or a further character of a class stands behind a character of
  the class, a rule ends with its only END, and every reference is in range.
\<close>

section \<open>Bodies of rules\<close>

fun linked :: "ElementType \<Rightarrow> Rule \<Rightarrow> bool" where
  "linked t [] \<longleftrightarrow> True"
| "linked t (e # es) \<longleftrightarrow> el_type e \<noteq> ET_END \<and> follows t (el_type e) \<and> linked (el_type e) es"

abbreviation body_ok :: "Rule \<Rightarrow> bool" where
  "body_ok es \<equiv> linked ET_ALT es"

lemma linked_append: "linked t (xs @ ys) \<longleftrightarrow> linked t xs \<and> linked (if xs = [] then t else el_type (last xs)) ys"
  by (induction xs arbitrary: t) auto

lemma body_linked: "body_ok ys \<Longrightarrow> linked t ys"
  by (cases ys) (auto simp: follows_def)

lemma body_append: "body_ok xs \<Longrightarrow> body_ok ys \<Longrightarrow> body_ok (xs @ ys)"
  by (simp add: linked_append body_linked)

lemma body_concat: "body_ok xs \<Longrightarrow> body_ok (concat (replicate n xs))"
  by (induction n) (simp_all add: body_append)

lemma follows_start [simp]:
  "follows t ET_END" "follows t ET_ALT" "follows t ET_RULE_REF" "follows t ET_CHAR" "follows t ET_CHAR_NOT" "follows t ET_CHAR_ANY"
  by (simp_all add: follows_def)

lemma element_sel [simp]: "el_type (element t v) = t" "el_value (element t v) = v"
  by (simp_all add: element_def)

lemma linked_nth: "linked t es \<Longrightarrow> Suc i < length es \<Longrightarrow> follows (el_type (es ! i)) (el_type (es ! Suc i))"
proof (induction es arbitrary: t i)
  case (Cons e es)
  then show ?case by (cases i; cases es) auto
qed simp

lemma linked_no_end: "linked t es \<Longrightarrow> e \<in> set es \<Longrightarrow> el_type e \<noteq> ET_END"
  by (induction es arbitrary: t) auto

definition rule_formed :: "Rule \<Rightarrow> bool" where
  "rule_formed rule \<longleftrightarrow> rule = [] \<or> (\<exists>body v. rule = body @ [element ET_END v] \<and> body_ok body)"

lemma rule_formed_ok:
  assumes "rule_formed rule" "rule \<noteq> []" "\<forall>e \<in> set rule. el_type e = ET_RULE_REF \<longrightarrow> el_value e < n"
  shows "rule_ok n rule"
proof -
  obtain body v where r: "rule = body @ [element ET_END v]" and b: "body_ok body" using assms(1,2) by (auto simp: rule_formed_def)
  have "el_type (rule ! i) \<noteq> ET_END \<and> follows (el_type (rule ! i)) (el_type (rule ! Suc i))" if "i < length rule - 1" for i
    using that r b linked_no_end [OF b nth_mem, of i] linked_nth [OF b, of i]
    by (cases "Suc i < length body") (auto simp: nth_append follows_def)
  moreover have "el_type (hd rule) \<notin> {ET_CHAR_RNG_UPPER, ET_CHAR_ALT}" using r b by (cases body) (auto simp: follows_def)
  ultimately show ?thesis using r assms(2,3) by (simp add: rule_ok_def)
qed

section \<open>What the parser keeps\<close>

definition parser_ok :: "Parser \<Rightarrow> bool" where
  "parser_ok p \<longleftrightarrow> (\<forall>rule \<in> set (p_rules p). rule_formed rule)"

text \<open>A sequence under construction: what stands before the last symbol, and the symbol itself.\<close>

definition sequence_ok :: "nat \<Rightarrow> Rule \<Rightarrow> bool" where
  "sequence_ok l rule \<longleftrightarrow> l \<le> length rule \<and> body_ok (take l rule) \<and> body_ok (drop l rule)"

lemma sequence_ok_body: "sequence_ok l rule \<Longrightarrow> body_ok rule"
  unfolding sequence_ok_def using body_append [of "take l rule" "drop l rule"] by simp

lemma sequence_ok_item: "body_ok rule \<Longrightarrow> body_ok item \<Longrightarrow> sequence_ok (length rule) (rule @ item)"
  by (simp add: sequence_ok_def)

lemma parser_ok_symbols [simp]: "parser_ok (p\<lparr>p_symbols := x\<rparr>) = parser_ok p"
  by (simp add: parser_ok_def)

lemma get_symbol_ok: "get_symbol_id p name = (i, p') \<Longrightarrow> parser_ok p \<Longrightarrow> parser_ok p'"
  by (auto simp: get_symbol_id_def split: option.splits)

lemma generate_symbol_ok: "generate_symbol_id p name = (i, p') \<Longrightarrow> parser_ok p \<Longrightarrow> parser_ok p'"
  by (auto simp: generate_symbol_id_def Let_def)

lemma add_rule_ok: "parser_ok p \<Longrightarrow> rule_formed rule \<Longrightarrow> parser_ok (add_rule p i rule)"
  by (auto simp: parser_ok_def add_rule_def Let_def rule_formed_def [of "[]"] dest!: set_update_subset_insert [THEN subsetD] split: if_splits)

lemma repetition_rules_ok:
  "repetition_rules name prev u f l n p = (i, p') \<Longrightarrow> body_ok prev \<Longrightarrow> parser_ok p \<Longrightarrow> parser_ok p'"
proof (induction name prev u f l n p rule: repetition_rules.induct)
  case (2 name prev u f l n p)
  obtain j p1 where g: "generate_symbol_id p name = (j, p1)" by (cases "generate_symbol_id p name")
  let ?rec = "if \<not> f \<or> u then [element ET_RULE_REF (if u then j else l)] else []"
  have "body_ok ?rec" by simp
  then have "body_ok (prev @ ?rec @ [element ET_ALT 0])" using 2(3) by (intro body_append) simp_all
  then have "rule_formed (prev @ ?rec @ [element ET_ALT 0, element ET_END 0])" unfolding rule_formed_def
    by (intro disjI2 exI [of _ "prev @ ?rec @ [element ET_ALT 0]"] exI [of _ 0]) simp
  then show ?case using 2(1) [OF g [symmetric] refl refl _ 2(3) add_rule_ok] generate_symbol_ok [OF g 2(4)] 2(2) g by (simp add: Let_def)
qed simp

lemma handle_repetitions_ok:
  assumes h: "handle_repetitions name lo hi l rule p = Inr (rule', p')" and ok: "sequence_ok l rule" "parser_ok p"
  shows "sequence_ok l rule' \<and> parser_ok p'"
proof -
  let ?prev = "drop l rule" and ?n = "nat (if hi < 0 then 1 else int32_of (hi - lo))"
  obtain i p1 where r: "repetition_rules name ?prev (hi < 0) True 0 ?n p = (i, p1)" by (metis surj_pair)
  have prev: "body_ok ?prev" "body_ok (take l rule)" "l \<le> length rule" using ok(1) by (simp_all add: sequence_ok_def)
  have p1: "parser_ok p1" using repetition_rules_ok [OF r prev(1) ok(2)] .
  have tl: "body_ok (?prev @ concat (replicate m ?prev))" for m using prev(1) by (intro body_append body_concat)
  then have tl2: "body_ok (?prev @ concat (replicate m ?prev) @ [element ET_RULE_REF i])" for m
    using body_append [OF tl, of "[element ET_RULE_REF i]" m] by simp
  show ?thesis using h r p1 prev tl tl2 by (auto simp: handle_repetitions_def Let_def sequence_ok_def split: if_splits)
qed

lemma parse_literal_ok: "parse_literal rule s = Inr (rule', rest) \<Longrightarrow> \<exists>es. rule' = rule @ es \<and> body_ok es"
proof (induction rule s rule: parse_literal.induct)
  case (1 rule s)
  show ?case
  proof (cases "peek s 0 = 34")
    case False
    then obtain c r where c: "peek s 0 \<noteq> 0" "parse_char s = Inr (c, r)" "parse_literal (rule @ [element ET_CHAR c]) r = Inr (rule', rest)"
      using 1(2) by (subst (asm) parse_literal.simps) (auto split: if_splits sum.splits)
    obtain es where "rule' = (rule @ [element ET_CHAR c]) @ es" "body_ok es" using 1(1) [OF False c(1,2) refl c(3)] by blast
    then show ?thesis using body_append [of "[element ET_CHAR c]" es] by (intro exI [of _ "element ET_CHAR c # es"]) simp
  qed (use 1(2) in \<open>subst (asm) parse_literal.simps, auto\<close>)
qed

text \<open>A class after its first character can go on with a further character or a range.\<close>

definition in_char_class :: "ElementType \<Rightarrow> bool" where
  "in_char_class t \<longleftrightarrow> t \<in> {ET_CHAR, ET_CHAR_NOT, ET_CHAR_ALT, ET_CHAR_RNG_UPPER}"

lemma class_step:
  assumes t: "t \<in> {ET_CHAR, ET_CHAR_NOT}" and cls: "body_ok cls" "cls \<noteq> [] \<Longrightarrow> in_char_class (el_type (last cls))"
  shows "body_ok (cls @ [element (if cls \<noteq> [] then ET_CHAR_ALT else t) c])"
    "body_ok (cls @ [element (if cls \<noteq> [] then ET_CHAR_ALT else t) c, element ET_CHAR_RNG_UPPER c2])"
  using assms by (auto simp: linked_append in_char_class_def follows_def)

lemma parse_class_ok:
  "parse_class t l rule s = Inr (rule', rest) \<Longrightarrow> t \<in> {ET_CHAR, ET_CHAR_NOT} \<Longrightarrow> rule = base @ cls \<Longrightarrow> l = length base \<Longrightarrow> body_ok cls \<Longrightarrow>
     cls \<noteq> [] \<longrightarrow> in_char_class (el_type (last cls)) \<Longrightarrow> \<exists>es. rule' = base @ es \<and> body_ok es"
proof (induction t l rule s arbitrary: cls rule: parse_class.induct)
  case (1 t l rule s)
  show ?case
  proof (cases "peek s 0 = 93")
    case False
    let ?e = "element (if l < length rule then ET_CHAR_ALT else t)"
    have l: "l < length rule \<longleftrightarrow> cls \<noteq> []" using 1(5,6) by simp
    obtain c r where c: "peek s 0 \<noteq> 0" "parse_char s = Inr (c, r)"
      using 1(3) False by (subst (asm) parse_class.simps) (auto split: if_splits sum.splits)
    have step: "body_ok (cls @ [?e c])" "body_ok (cls @ [?e c, element ET_CHAR_RNG_UPPER c2])" for c2
      using class_step [OF 1(4,7)] 1(8) unfolding l by blast+
    show ?thesis
    proof (cases "peek r 0 = 45 \<and> peek r 1 \<noteq> 93")
      case True
      then obtain c2 r2 where c2: "peek r 1 \<noteq> 0" "parse_char (drop 1 r) = Inr (c2, r2)"
        "parse_class t l ((rule @ [?e c]) @ [element ET_CHAR_RNG_UPPER c2]) r2 = Inr (rule', rest)"
        using 1(3) False c by (subst (asm) parse_class.simps) (auto simp: Let_def split: if_splits sum.splits)
      show ?thesis
        by (rule 1(1) [OF False c(1,2) refl refl True c2(1,2) refl c2(3) 1(4), of "cls @ [?e c, element ET_CHAR_RNG_UPPER c2]"])
          (use 1(5,6) step in \<open>simp_all add: in_char_class_def\<close>)
    next
      case no_range: False
      then have go: "parse_class t l (rule @ [?e c]) r = Inr (rule', rest)"
        using 1(3) False c by (subst (asm) parse_class.simps) (auto simp: Let_def split: if_splits sum.splits)
      show ?thesis
        by (rule 1(2) [OF False c(1,2) refl refl no_range go 1(4), of "cls @ [?e c]"])
          (use 1(4-6) step in \<open>auto simp: in_char_class_def\<close>)
    qed
  qed (use 1 in \<open>subst (asm) parse_class.simps, auto\<close>)
qed

lemma repeat_item_ok:
  "repeat_item name lo hi l rule p r = Inr (Some (l', rule', p', rest)) \<Longrightarrow> sequence_ok l rule \<Longrightarrow> parser_ok p \<Longrightarrow> sequence_ok l' rule' \<and> parser_ok p'"
  using handle_repetitions_ok by (auto simp: repeat_item_def split: sum.splits)

lemma sequence_item_ok:
  assumes item: "sequence_item name b l rule p s = Inr (Some (l', rule', p', rest))" and ok: "sequence_ok l rule" "parser_ok p"
  shows "sequence_ok l' rule' \<and> parser_ok p'"
proof -
  have body: "body_ok rule" using sequence_ok_body [OF ok(1)] .
  consider (lit) "peek s 0 = 34" | (cls) "peek s 0 = 91" | (word) "peek s 0 \<noteq> 34" "peek s 0 \<noteq> 91" "is_word_char (peek s 0)"
    | (any) "peek s 0 = 46" | (rest) "peek s 0 \<noteq> 34" "peek s 0 \<noteq> 91" "\<not> is_word_char (peek s 0)" "peek s 0 \<noteq> 46" by blast
  then show ?thesis
  proof cases
    case lit
    then obtain t where "parse_literal rule (drop 1 s) = Inr (rule', t)" "l' = length rule" "p' = p"
      using item by (auto simp: sequence_item_def split: sum.splits)
    then show ?thesis using parse_literal_ok [of rule "drop 1 s" rule' t] sequence_ok_item [OF body] ok(2) by auto
  next
    case cls
    then obtain t where "parse_class ET_CHAR_NOT (length rule) rule (drop 2 s) = Inr (rule', t) \<or> parse_class ET_CHAR (length rule) rule (drop 1 s) = Inr (rule', t)"
        "l' = length rule" "p' = p"
      using item by (cases "peek s 1 = 94") (auto simp: sequence_item_def split: sum.splits)
    moreover from this have "\<exists>es. rule' = rule @ es \<and> body_ok es"
      using parse_class_ok [of ET_CHAR_NOT _ rule "drop 2 s" rule' t rule "[]"] parse_class_ok [of ET_CHAR _ rule "drop 1 s" rule' t rule "[]"] by auto
    ultimately show ?thesis using sequence_ok_item [OF body] ok(2) by auto
  next
    case word
    then obtain nm t i where "get_symbol_id p nm = (i, p')" "l' = length rule" "rule' = rule @ [element ET_RULE_REF i]"
      using item by (auto simp: sequence_item_def Let_def split: sum.splits prod.splits)
    then show ?thesis using get_symbol_ok ok(2) sequence_ok_item [OF body, of "[element ET_RULE_REF i]"] by auto
  next
    case any
    then have "l' = length rule" "rule' = rule @ [element ET_CHAR_ANY 0]" "p' = p"
      using item by (simp_all add: sequence_item_def is_word_char_def is_digit_char_def)
    then show ?thesis using ok(2) sequence_ok_item [OF body, of "[element ET_CHAR_ANY 0]"] by auto
  next
    case rest
    then obtain lo hi r where "repeat_item name lo hi l rule p r = Inr (Some (l', rule', p', rest))"
      using item by (auto simp: sequence_item_def Let_def split: if_splits sum.splits)
    then show ?thesis using repeat_item_ok ok by blast
  qed
qed

definition grp_keeps :: "group_parser \<Rightarrow> bool" where
  "grp_keeps grp \<longleftrightarrow> (\<forall>name i b p s p' rest. grp name i b p s = Inr (p', rest) \<longrightarrow> parser_ok p \<longrightarrow> parser_ok p')"

lemma sequence_loop_ok:
  assumes g: "grp_keeps grp"
  shows "sequence_loop k grp name b l rule p s = Inr (rule', p', rest) \<Longrightarrow> sequence_ok l rule \<Longrightarrow> parser_ok p \<Longrightarrow> body_ok rule' \<and> parser_ok p'"
proof (induction k arbitrary: l rule p s)
  case (Suc k)
  consider (stop) "rule' = rule" "p' = p" | (sub) i p1 p2 r where "generate_symbol_id p name = (i, p1)" "grp name i True p1 (parse_space True (drop 1 s)) = Inr (p2, r)"
      "sequence_loop k grp name b (length rule) (rule @ [element ET_RULE_REF i]) p2 (parse_space b (drop 1 r)) = Inr (rule', p', rest)"
    | (item) l1 rule1 p1 r where "sequence_item name b l rule p s = Inr (Some (l1, rule1, p1, r))" "sequence_loop k grp name b l1 rule1 p1 r = Inr (rule', p', rest)"
    using Suc.prems(1) by (auto split: if_splits sum.splits prod.splits option.splits)
  then show ?case
  proof cases
    case stop
    then show ?thesis using Suc.prems sequence_ok_body by simp
  next
    case sub
    have "parser_ok p2" using g sub(2) generate_symbol_ok [OF sub(1) Suc.prems(3)] unfolding grp_keeps_def by blast
    then show ?thesis using Suc.IH [OF sub(3)] sequence_ok_item [OF sequence_ok_body [OF Suc.prems(2)], of "[element ET_RULE_REF i]"] by simp
  next
    case item
    then show ?thesis using Suc.IH [OF item(2)] sequence_item_ok [OF item(1) Suc.prems(2,3)] by simp
  qed
qed simp

lemma parse_sequence_ok:
  assumes "grp_keeps grp" "parse_sequence grp name b rule p s = Inr (rule', p', rest)" "body_ok rule" "parser_ok p"
  shows "body_ok rule' \<and> parser_ok p'"
  using sequence_loop_ok [OF assms(1) assms(2) [unfolded parse_sequence_def]] assms(3,4) by (simp add: sequence_ok_def)

lemma alternates_loop_ok:
  assumes g: "grp_keeps grp"
  shows "alternates_loop k grp name b rule p s = Inr (rule', p', rest) \<Longrightarrow> body_ok rule \<Longrightarrow> parser_ok p \<Longrightarrow> body_ok rule' \<and> parser_ok p'"
proof (induction k arbitrary: rule p s)
  case (Suc k)
  show ?case
  proof (cases "peek s 0 = 124")
    case True
    then obtain rule1 p1 r where r: "parse_sequence grp name b (rule @ [element ET_ALT 0]) p (parse_space True (drop 1 s)) = Inr (rule1, p1, r)"
      "alternates_loop k grp name b rule1 p1 r = Inr (rule', p', rest)" using Suc.prems(1) by (auto split: sum.splits)
    have "body_ok (rule @ [element ET_ALT 0])" using Suc.prems(2) by (rule body_append) simp
    then show ?thesis using Suc.IH [OF r(2)] parse_sequence_ok [OF g r(1) _ Suc.prems(3)] by blast
  qed (use Suc.prems in simp)
qed simp

lemma parse_alternates_ok: "grp_keeps (parse_alternates n)"
proof (induction n)
  case (Suc n)
  have "parser_ok p'" if pa: "parse_alternates (Suc n) name i b p s = Inr (p', rest)" and ok: "parser_ok p" for name i b p s p' rest
  proof -
    obtain rule1 p1 s1 rule2 p2 where a: "parse_sequence (parse_alternates n) name b [] p s = Inr (rule1, p1, s1)"
      "alternates_loop (Suc (length s1)) (parse_alternates n) name b rule1 p1 s1 = Inr (rule2, p2, rest)"
      "p' = add_rule p2 i (rule2 @ [element ET_END 0])"
      using pa by (auto split: sum.splits simp del: alternates_loop.simps)
    have "body_ok rule2" "parser_ok p2" using parse_sequence_ok [OF Suc a(1) _ ok] alternates_loop_ok [OF Suc a(2)] by simp_all
    moreover from this have "rule_formed (rule2 @ [element ET_END 0])" unfolding rule_formed_def by blast
    ultimately show ?thesis using a(3) add_rule_ok by blast
  qed
  then show ?case unfolding grp_keeps_def by blast
qed (simp add: grp_keeps_def)

lemma parse_rule_ok: "parse_rule p s = Inr (p', rest) \<Longrightarrow> parser_ok p \<Longrightarrow> parser_ok p'"
proof -
  assume r: "parse_rule p s = Inr (p', rest)" and ok: "parser_ok p"
  obtain nm i p1 t r2 where "get_symbol_id p nm = (i, p1)" "parse_alternates (Suc (length s)) nm i False p1 t = Inr (p', r2)"
    using r by (auto simp: parse_rule_def Let_def simp del: parse_alternates.simps split: sum.splits prod.splits if_splits)
  then show ?thesis using get_symbol_ok ok parse_alternates_ok [of "Suc (length s)"] unfolding grp_keeps_def by blast
qed

lemma parse_rules_ok: "parse_rules k p s = Inr p' \<Longrightarrow> parser_ok p \<Longrightarrow> parser_ok p'"
  by (induction k arbitrary: p s) (auto dest: parse_rule_ok split: if_splits sum.splits)

text \<open>A parsed grammar is well formed.\<close>

lemma parse_well_formed:
  assumes "parse src = Inr p"
  shows "rules_ok (p_rules p)"
proof -
  let ?s = "takeWhile (\<lambda>c. c \<noteq> 0) src"
  obtain p1 where r: "parse_rules (Suc (length ?s)) new_parser (parse_space True ?s) = Inr p1" and c: "check_defined p1 = Inr p"
    using assms by (auto simp: parse_def Let_def simp del: parse_rules.simps split: sum.splits)
  have p: "p = p1" and d: "find (\<lambda>rule. rule = [] \<or> (\<exists>e \<in> set rule. undefined_element (p_rules p1) e)) (p_rules p1) = None"
    using c by (auto simp: check_defined_def split: option.splits)
  have "parser_ok p1" by (rule parse_rules_ok [OF r]) (simp add: parser_ok_def new_parser_def)
  moreover have "rule \<noteq> [] \<and> (\<forall>e \<in> set rule. \<not> undefined_element (p_rules p1) e)" if "rule \<in> set (p_rules p1)" for rule
    using d that by (auto simp: find_None_iff)
  ultimately show ?thesis unfolding rules_ok_def p by (auto simp: parser_ok_def undefined_element_def intro!: rule_formed_ok) (meson not_le)
qed

end
