(* ===== verification/Gbnf_Left.thy ===== *)
theory Gbnf_Left
  imports Gbnf_Parse_Wf
begin

text \<open>
  Left recursion: the depth-first search of the compiler against the relation it searches, and what that relation
  means for the expansion of stacks.
\<close>

section \<open>Left references\<close>

definition literal_empty :: "Rules \<Rightarrow> nat \<Rightarrow> bool" where
  "literal_empty rules r \<longleftrightarrow> has_empty_alternate True (rules ! r)"

definition ends_alternate :: "Element \<Rightarrow> bool" where
  "ends_alternate e \<longleftrightarrow> el_type e = ET_END \<or> el_type e = ET_ALT"

text \<open>The references a scan of a rule visits.\<close>

fun left_refs :: "(nat \<Rightarrow> bool) \<Rightarrow> Rule \<Rightarrow> bool \<Rightarrow> nat set" where
  "left_refs nu [] go = {}"
| "left_refs nu (e # es) go =
     (if el_type e = ET_RULE_REF \<and> go then insert (el_value e) (left_refs nu es (nu (el_value e))) else left_refs nu es (ends_alternate e))"

definition left_edges :: "Rules \<Rightarrow> (nat \<times> nat) set" where
  "left_edges rules = {(r, s). r < length rules \<and> s \<in> left_refs (literal_empty rules) (rules ! r) True}"

lemma left_refs_subset: "left_refs nu es go \<subseteq> {el_value e | e. e \<in> set es \<and> el_type e = ET_RULE_REF}"
  by (induction nu es go rule: left_refs.induct) auto

lemma left_edges_range: "rules_ok rules \<Longrightarrow> (r, s) \<in> left_edges rules \<Longrightarrow> r < length rules \<and> s < length rules"
  using left_refs_subset [of "literal_empty rules" "rules ! r" True]
  by (fastforce simp: left_edges_def rules_ok_def rule_ok_def)

section \<open>The search\<close>

definition cyclic_below :: "Rules \<Rightarrow> nat \<Rightarrow> bool" where
  "cyclic_below rules i \<longleftrightarrow> (\<exists>j. (i, j) \<in> (left_edges rules)\<^sup>* \<and> (j, j) \<in> (left_edges rules)\<^sup>+)"

definition scan_ok :: "Rules \<Rightarrow> LeftScan \<Rightarrow> bool" where
  "scan_ok rules st \<longleftrightarrow> length (rules_visited st) = length rules \<and> length (rules_in_progress st) = length rules \<and>
     length (rules_may_be_empty st) = length rules \<and>
     (\<forall>j < length rules. rules_may_be_empty st ! j \<longrightarrow> literal_empty rules j) \<and>
     (\<forall>j < length rules. rules_visited st ! j \<longrightarrow> \<not> cyclic_below rules j)"

text \<open>What a visit that finds nothing leaves behind.\<close>

definition clean_visit :: "Rules \<Rightarrow> LeftScan \<Rightarrow> LeftScan \<Rightarrow> bool" where
  "clean_visit rules st st' \<longleftrightarrow> scan_ok rules st' \<and> rules_in_progress st' = rules_in_progress st \<and>
     (\<forall>j < length rules. rules_may_be_empty st ! j \<longrightarrow> rules_may_be_empty st' ! j) \<and>
     (\<forall>j < length rules. rules_visited st ! j \<longrightarrow> rules_visited st' ! j)"

definition avoids :: "Rules \<Rightarrow> LeftScan \<Rightarrow> nat \<Rightarrow> bool" where
  "avoids rules st i \<longleftrightarrow> (\<forall>j. (i, j) \<in> (left_edges rules)\<^sup>* \<longrightarrow> \<not> rules_in_progress st ! j)"

definition room :: "LeftScan \<Rightarrow> nat" where
  "room st = length (filter (\<lambda>b. \<not> b) (rules_in_progress st))"

text \<open>The contract of a visit, for a bound on the rules that are not in progress.\<close>

definition visit_spec :: "Rules \<Rightarrow> nat \<Rightarrow> (nat \<Rightarrow> LeftScan \<Rightarrow> (bool \<times> LeftScan) result) \<Rightarrow> bool" where
  "visit_spec rules n visit \<longleftrightarrow> (\<forall>i st. i < length rules \<longrightarrow> scan_ok rules st \<longrightarrow> room st < n \<longrightarrow>
     (\<exists>found st'. visit i st = Inr (found, st') \<and> (found \<longleftrightarrow> \<not> avoids rules st i \<or> cyclic_below rules i) \<and>
       (\<not> found \<longrightarrow> clean_visit rules st st' \<and> rules_may_be_empty st' ! i = literal_empty rules i \<and> rules_visited st' ! i)))"

lemma visit_specD:
  assumes "visit_spec rules n visit" "i < length rules" "scan_ok rules st" "room st < n"
  obtains found st' where "visit i st = Inr (found, st')" "found \<longleftrightarrow> \<not> avoids rules st i \<or> cyclic_below rules i"
    "\<not> found \<Longrightarrow> clean_visit rules st st' \<and> rules_may_be_empty st' ! i = literal_empty rules i \<and> rules_visited st' ! i"
proof -
  have "\<exists>found st'. visit i st = Inr (found, st') \<and> (found \<longleftrightarrow> \<not> avoids rules st i \<or> cyclic_below rules i) \<and>
       (\<not> found \<longrightarrow> clean_visit rules st st' \<and> rules_may_be_empty st' ! i = literal_empty rules i \<and> rules_visited st' ! i)"
    using assms unfolding visit_spec_def by blast
  then show thesis using that by blast
qed

lemma clean_visit_trans: "clean_visit rules a b \<Longrightarrow> clean_visit rules b c \<Longrightarrow> clean_visit rules a c"
  unfolding clean_visit_def by simp

lemma scan_left_spec:
  assumes v: "visit_spec rules n visit"
  shows "scan_ok rules st \<Longrightarrow> room st < n \<Longrightarrow> \<forall>e \<in> set es. el_type e = ET_RULE_REF \<longrightarrow> el_value e < length rules \<Longrightarrow>
    \<exists>found st'. scan_left visit es go st = Inr (found, st') \<and>
      (found \<longleftrightarrow> (\<exists>j \<in> left_refs (literal_empty rules) es go. \<not> avoids rules st j \<or> cyclic_below rules j)) \<and> (\<not> found \<longrightarrow> clean_visit rules st st')"
proof (induction es arbitrary: st go)
  case Nil
  then show ?case by (auto simp: clean_visit_def)
next
  case (Cons e es)
  show ?case
  proof (cases "el_type e = ET_RULE_REF \<and> go")
    case False
    then show ?thesis using Cons.IH [OF Cons.prems(1,2), of "ends_alternate e"] Cons.prems(3) by (auto simp: ends_alternate_def)
  next
    case True
    have r: "el_value e < length rules" using Cons.prems(3) True by simp
    obtain f st1 where vis: "visit (el_value e) st = Inr (f, st1)" "f \<longleftrightarrow> \<not> avoids rules st (el_value e) \<or> cyclic_below rules (el_value e)"
      "\<not> f \<Longrightarrow> clean_visit rules st st1 \<and> rules_may_be_empty st1 ! el_value e = literal_empty rules (el_value e) \<and> rules_visited st1 ! el_value e"
      using visit_specD [OF v r Cons.prems(1,2)] by blast
    show ?thesis
    proof (cases f)
      case found: True
      then show ?thesis using vis(1,2) True by auto
    next
      case no: False
      have c: "clean_visit rules st st1" "rules_may_be_empty st1 ! el_value e = literal_empty rules (el_value e)" using vis(3) [OF no] by simp_all
      have st1: "scan_ok rules st1" "room st1 < n" "avoids rules st1 = avoids rules st"
        using c(1) Cons.prems(2) by (simp_all add: clean_visit_def room_def avoids_def [abs_def])
      obtain f2 st2 where s: "scan_left visit es (literal_empty rules (el_value e)) st1 = Inr (f2, st2)"
        "f2 \<longleftrightarrow> (\<exists>j \<in> left_refs (literal_empty rules) es (literal_empty rules (el_value e)). \<not> avoids rules st j \<or> cyclic_below rules j)"
        "\<not> f2 \<longrightarrow> clean_visit rules st1 st2"
        using Cons.IH [OF st1(1,2), of "literal_empty rules (el_value e)"] Cons.prems(3) unfolding st1(3) by auto
      then show ?thesis using vis(1,2) no True c clean_visit_trans [OF c(1)] by auto
    qed
  qed
qed

text \<open>The relation seen from one rule.\<close>

lemma left_edges_of: "i < length rules \<Longrightarrow> (i, j) \<in> left_edges rules \<longleftrightarrow> j \<in> left_refs (literal_empty rules) (rules ! i) True"
  by (simp add: left_edges_def)

lemma marked_progress:
  assumes "scan_ok rules st" "i < length rules" "j < length rules"
  shows "(rules_in_progress st)[i := True] ! j \<longleftrightarrow> j = i \<or> rules_in_progress st ! j"
  using assms by (auto simp: scan_ok_def nth_list_update)

lemma search_step:
  assumes ok: "rules_ok rules" and st: "scan_ok rules st" and i: "i < length rules" "\<not> rules_in_progress st ! i"
    and st2: "rules_in_progress st2 = (rules_in_progress st)[i := True]"
  shows "(\<exists>j \<in> left_refs (literal_empty rules) (rules ! i) True. \<not> avoids rules st2 j \<or> cyclic_below rules j) \<longleftrightarrow>
    \<not> avoids rules st i \<or> cyclic_below rules i" (is "?l \<longleftrightarrow> ?r")
proof -
  let ?E = "left_edges rules"
  have range: "k < length rules" if "(i, k) \<in> ?E\<^sup>*" for k
    using that by (induction rule: rtrancl_induct) (use i left_edges_range [OF ok] in auto)
  have edge: "j \<in> left_refs (literal_empty rules) (rules ! i) True \<longleftrightarrow> (i, j) \<in> ?E" for j using left_edges_of [OF i(1)] by simp
  show ?thesis
  proof
    assume ?l
    then obtain j where j: "(i, j) \<in> ?E" "\<not> avoids rules st2 j \<or> cyclic_below rules j" using edge by blast
    from j(2) show ?r
    proof
      assume "\<not> avoids rules st2 j"
      then obtain k where k: "(j, k) \<in> ?E\<^sup>*" "rules_in_progress st2 ! k" by (auto simp: avoids_def)
      then have ik: "(i, k) \<in> ?E\<^sup>+" using j(1) by (meson rtrancl_into_trancl2)
      then have "k = i \<or> rules_in_progress st ! k" using k(2) marked_progress [OF st i(1) range] by (auto simp: st2 dest: trancl_into_rtrancl)
      then show ?r using ik by (auto simp: avoids_def cyclic_below_def dest: trancl_into_rtrancl)
    next
      assume "cyclic_below rules j"
      then show ?r using j(1) unfolding cyclic_below_def by (meson converse_rtrancl_into_rtrancl)
    qed
  next
    assume ?r
    then consider k where "(i, k) \<in> ?E\<^sup>*" "rules_in_progress st ! k" | k where "(i, k) \<in> ?E\<^sup>*" "(k, k) \<in> ?E\<^sup>+"
      by (auto simp: avoids_def cyclic_below_def)
    then show ?l
    proof cases
      case (1 k)
      then obtain j where "(i, j) \<in> ?E" "(j, k) \<in> ?E\<^sup>*" using i(2) by (metis converse_rtranclE)
      then show ?thesis using 1 edge marked_progress [OF st i(1) range] by (auto simp: avoids_def st2)
    next
      case (2 k)
      show ?thesis
      proof (cases "k = i")
        case True
        then obtain j where "(i, j) \<in> ?E" "(j, i) \<in> ?E\<^sup>*" using 2(2) by (meson tranclD)
        then show ?thesis using edge marked_progress [OF st i(1) i(1)] by (auto simp: avoids_def st2)
      next
        case False
        then obtain j where "(i, j) \<in> ?E" "(j, k) \<in> ?E\<^sup>*" using 2(1) by (metis converse_rtranclE)
        then show ?thesis using edge 2(2) by (auto simp: cyclic_below_def)
      qed
    qed
  qed
qed

lemma room_mark: "scan_ok rules st \<Longrightarrow> i < length rules \<Longrightarrow> \<not> rules_in_progress st ! i \<Longrightarrow>
    rules_in_progress st2 = (rules_in_progress st)[i := True] \<Longrightarrow> room st2 < room st"
proof -
  have "i < length bs \<Longrightarrow> \<not> bs ! i \<Longrightarrow> length (filter Not (bs[i := True])) < length (filter Not bs)" for i bs
    by (induction bs arbitrary: i) (auto simp: nth_Cons split: nat.splits)
  then show "scan_ok rules st \<Longrightarrow> i < length rules \<Longrightarrow> \<not> rules_in_progress st ! i \<Longrightarrow>
    rules_in_progress st2 = (rules_in_progress st)[i := True] \<Longrightarrow> room st2 < room st" by (simp add: room_def scan_ok_def)
qed

lemma detect_spec:
  assumes ok: "rules_ok rules"
  shows "visit_spec rules n (detect_left_recursion n rules)"
proof (induction n)
  case (Suc n)
  have "\<exists>found st'. detect_left_recursion (Suc n) rules i st = Inr (found, st') \<and> (found \<longleftrightarrow> \<not> avoids rules st i \<or> cyclic_below rules i) \<and>
       (\<not> found \<longrightarrow> clean_visit rules st st' \<and> rules_may_be_empty st' ! i = literal_empty rules i \<and> rules_visited st' ! i)"
    if i: "i < length rules" and st: "scan_ok rules st" and room: "room st < Suc n" for i st
  proof (cases "rules_in_progress st ! i")
    case True
    then show ?thesis by (auto simp: avoids_def)
  next
    case False
    let ?st1 = "st\<lparr>rules_in_progress := (rules_in_progress st)[i := True]\<rparr>"
    define st2 where "st2 = (if has_empty_alternate True (rules ! i) then ?st1\<lparr>rules_may_be_empty := (rules_may_be_empty ?st1)[i := True]\<rparr> else ?st1)"
    have s2: "rules_in_progress st2 = (rules_in_progress st)[i := True]" "rules_visited st2 = rules_visited st"
      "length (rules_may_be_empty st2) = length (rules_may_be_empty st)" by (simp_all add: st2_def)
    have em: "rules_may_be_empty st2 ! j \<longleftrightarrow> (if j = i then rules_may_be_empty st ! i \<or> literal_empty rules i else rules_may_be_empty st ! j)" if "j < length rules" for j
      using st i that by (simp add: st2_def scan_ok_def literal_empty_def)
    have ok2: "scan_ok rules st2" using st s2 em unfolding scan_ok_def by auto
    have r2: "room st2 < n" using room_mark [OF st i False s2(1)] room by simp
    have refs: "\<forall>e \<in> set (rules ! i). el_type e = ET_RULE_REF \<longrightarrow> el_value e < length rules" using ok nth_mem [OF i] unfolding rules_ok_def rule_ok_def by blast
    obtain f st3 where s: "scan_left (detect_left_recursion n rules) (rules ! i) True st2 = Inr (f, st3)"
      "f \<longleftrightarrow> \<not> avoids rules st i \<or> cyclic_below rules i" "\<not> f \<longrightarrow> clean_visit rules st2 st3"
      using scan_left_spec [OF Suc ok2 r2 refs, of True] unfolding search_step [OF ok st i False s2(1)] by blast
    let ?st' = "st3\<lparr>rules_in_progress := (rules_in_progress st3)[i := False], rules_visited := (rules_visited st3)[i := True]\<rparr>"
    have d: "detect_left_recursion (Suc n) rules i st = Inr (f, if f then st3 else ?st')"
      using False s(1) by (simp add: Let_def st2_def [symmetric])
    have "clean_visit rules st ?st' \<and> rules_may_be_empty ?st' ! i = literal_empty rules i \<and> rules_visited ?st' ! i" if nf: "\<not> f"
    proof -
      have c: "clean_visit rules st2 st3" using s(3) nf by simp
      then have k3: "scan_ok rules st3" "rules_in_progress st3 = (rules_in_progress st)[i := True]" by (simp_all add: clean_visit_def s2)
      have restored: "(rules_in_progress st3)[i := False] = rules_in_progress st" using k3(2) False by (simp add: list_update_id list_update_overwrite) (metis list_update_id)
      have acyc: "\<not> cyclic_below rules i" using s(2) nf by simp
      have ok3: "scan_ok rules ?st'" using k3(1) acyc i unfolding scan_ok_def by (auto simp: nth_list_update)
      have e: "rules_may_be_empty st3 ! i = literal_empty rules i"
        using c k3(1) em [OF i] i unfolding clean_visit_def scan_ok_def by auto
      have mono: "rules_may_be_empty st3 ! j" if "j < length rules" "rules_may_be_empty st ! j" for j
        using c em [OF that(1)] that by (auto simp: clean_visit_def split: if_splits)
      have vis: "rules_visited ?st' ! j" if "j < length rules" "j = i \<or> rules_visited st ! j" for j
        using c k3(1) that s2(2) i by (auto simp: clean_visit_def scan_ok_def nth_list_update)
      show ?thesis using ok3 restored e mono vis i unfolding clean_visit_def by simp
    qed
    then show ?thesis using d s(2) by auto
  qed
  then show ?case unfolding visit_spec_def by blast
qed (simp add: visit_spec_def)

lemma find_spec:
  assumes ok: "rules_ok rules"
  shows "set is \<subseteq> {..<length rules} \<Longrightarrow> scan_ok rules st \<Longrightarrow> \<forall>j < length rules. \<not> rules_in_progress st ! j \<Longrightarrow>
    \<exists>r. find_left_recursion (Suc (length rules)) rules is st = Inr r \<and> (r = None \<longleftrightarrow> (\<forall>i \<in> set is. \<not> cyclic_below rules i))"
proof (induction "is" arbitrary: st)
  case (Cons i "is")
  have i: "i < length rules" using Cons.prems(1) by simp
  show ?case
  proof (cases "rules_visited st ! i")
    case True
    then have "\<not> cyclic_below rules i" using Cons.prems(2) i by (simp add: scan_ok_def)
    then show ?thesis using Cons.IH [OF _ Cons.prems(2,3)] Cons.prems(1) True by auto
  next
    case False
    have room: "room st < Suc (length rules)"
      using Cons.prems(2) length_filter_le [of Not "rules_in_progress st"] by (simp add: room_def scan_ok_def)
    have "k < length rules" if "(i, k) \<in> (left_edges rules)\<^sup>*" for k
      using that by (induction rule: rtrancl_induct) (use i left_edges_range [OF ok] in auto)
    then have clear: "avoids rules st i" using Cons.prems(3) by (simp add: avoids_def)
    obtain f st1 where d: "detect_left_recursion (Suc (length rules)) rules i st = Inr (f, st1)" "f \<longleftrightarrow> cyclic_below rules i"
      "\<not> f \<Longrightarrow> clean_visit rules st st1"
      using visit_specD [OF detect_spec [OF ok] i Cons.prems(2) room] clear by blast
    show ?thesis
    proof (cases f)
      case True
      then show ?thesis using d False by (auto simp del: detect_left_recursion.simps)
    next
      case no: False
      have "scan_ok rules st1" "\<forall>j < length rules. \<not> rules_in_progress st1 ! j"
        using d(3) [OF no] Cons.prems(3) by (simp_all add: clean_visit_def)
      then show ?thesis using Cons.IH [of st1] Cons.prems(1) d no False by (auto simp del: detect_left_recursion.simps)
    qed
  qed
qed simp

text \<open>The search decides whether the left references have a cycle.\<close>

lemma find_left_recursion_exact:
  assumes ok: "rules_ok rules"
  shows "\<exists>r. find_left_recursion (Suc (length rules)) rules [0..<length rules] (new_scan (length rules)) = Inr r \<and>
    (r = None \<longleftrightarrow> acyclic (left_edges rules))"
proof -
  let ?E = "left_edges rules"
  have "set [0..<length rules] \<subseteq> {..<length rules}" "scan_ok rules (new_scan (length rules))" "\<forall>j < length rules. \<not> rules_in_progress (new_scan (length rules)) ! j"
    by (auto simp: scan_ok_def new_scan_def)
  from find_spec [OF ok this] obtain r where r: "find_left_recursion (Suc (length rules)) rules [0..<length rules] (new_scan (length rules)) = Inr r"
    "r = None \<longleftrightarrow> (\<forall>i \<in> set [0..<length rules]. \<not> cyclic_below rules i)" by blast
  have "i < length rules" if "(i, i) \<in> ?E\<^sup>+" for i using that left_edges_range [OF ok] by (meson tranclD)
  then have "(\<forall>i \<in> set [0..<length rules]. \<not> cyclic_below rules i) \<longleftrightarrow> acyclic ?E"
    by (auto simp: acyclic_def cyclic_below_def)
  then show ?thesis using r by blast
qed

section \<open>Ranks\<close>

lemma acyclic_rank:
  assumes "acyclic E" "finite E" "(a, b) \<in> E"
  shows "card {c. (b, c) \<in> E\<^sup>+} < card {c. (a, c) \<in> E\<^sup>+}"
proof (rule psubset_card_mono)
  have "{c. (a, c) \<in> E\<^sup>+} \<subseteq> snd ` (E\<^sup>+)" by force
  then show "finite {c. (a, c) \<in> E\<^sup>+}" by (rule finite_subset) (simp add: assms(2))
  have "b \<notin> {c. (b, c) \<in> E\<^sup>+}" using assms(1) by (simp add: acyclic_def)
  moreover have "b \<in> {c. (a, c) \<in> E\<^sup>+}" using assms(3) by blast
  moreover have "{c. (b, c) \<in> E\<^sup>+} \<subseteq> {c. (a, c) \<in> E\<^sup>+}" using assms(3) by (auto intro: trancl_into_trancl2)
  ultimately show "{c. (b, c) \<in> E\<^sup>+} \<subset> {c. (a, c) \<in> E\<^sup>+}" by blast
qed

lemma left_edges_finite: "rules_ok rules \<Longrightarrow> finite (left_edges rules)"
  by (rule finite_subset [of _ "{..<length rules} \<times> {..<length rules}"]) (use left_edges_range in auto)

text \<open>The state of the scan at an offset of a rule.\<close>

fun scan_flag :: "(nat \<Rightarrow> bool) \<Rightarrow> Rule \<Rightarrow> bool \<Rightarrow> nat \<Rightarrow> bool" where
  "scan_flag nu es go 0 = go"
| "scan_flag nu [] go (Suc k) = False"
| "scan_flag nu (e # es) go (Suc k) = scan_flag nu es (if el_type e = ET_RULE_REF \<and> go then nu (el_value e) else ends_alternate e) k"

lemma scan_flag_step: "k < length es \<Longrightarrow> scan_flag nu es go (Suc k) =
    (if el_type (es ! k) = ET_RULE_REF \<and> scan_flag nu es go k then nu (el_value (es ! k)) else ends_alternate (es ! k))"
proof (induction es arbitrary: go k)
  case (Cons e es)
  then show ?case by (cases k) auto
qed simp

lemma scan_flag_ref: "k < length es \<Longrightarrow> el_type (es ! k) = ET_RULE_REF \<Longrightarrow> scan_flag nu es go k \<Longrightarrow> el_value (es ! k) \<in> left_refs nu es go"
proof (induction es arbitrary: go k)
  case (Cons e es)
  then show ?case by (cases k) (auto split: if_splits)
qed simp

text \<open>An alternate of references to rules with an empty alternate, and the grammars that write such alternates only in rules with one.\<close>

function sequence_empty :: "(nat \<Rightarrow> bool) \<Rightarrow> Rules \<Rightarrow> position \<Rightarrow> bool" where
  "sequence_empty nu rules p \<longleftrightarrow>
     (if is_end_of_sequence rules p then True
      else type_at rules p = ET_RULE_REF \<and> nu (el_value (at rules p)) \<and> sequence_empty nu rules (step_by p 1))"
  by pat_completeness auto
termination
  by (relation "measure (\<lambda>(nu, rules, p). room_after rules p)") (simp_all add: is_end_of_sequence_def room_decreases)

declare sequence_empty.simps [simp del]

definition plainly_empty :: "Rules \<Rightarrow> bool" where
  "plainly_empty rules \<longleftrightarrow> (\<forall>r \<in> set [0..<length rules]. (\<exists>s \<in> set (alternates rules r). sequence_empty (literal_empty rules) rules s) \<longrightarrow> literal_empty rules r)"

lemma left_seq_of_flag:
  assumes rank: "\<And>s. s \<in> left_refs nu (rules ! r) True \<Longrightarrow> rank s < rank r" and r: "r < length rules"
  shows "fst p = r \<Longrightarrow> scan_flag nu (rules ! r) True (snd p) \<Longrightarrow> (sequence_empty nu rules p \<Longrightarrow> nu r) \<Longrightarrow> left_seq rules nu rank r p"
proof (induction "room_after rules p" arbitrary: p rule: less_induct)
  case less
  show ?case
  proof (cases "type_at rules p = ET_RULE_REF")
    case True
    then have p: "snd p < length (rules ! r)" "at rules p = rules ! r ! snd p" using less.prems(1) by (auto simp: type_at_def at_def split: if_splits)
    have ne: "\<not> is_end_of_sequence rules p" using True by (simp add: is_end_of_sequence_def)
    have "el_value (at rules p) \<in> left_refs nu (rules ! r) True" using scan_flag_ref [OF p(1) _ less.prems(2)] True p(2) by (simp add: type_at_def)
    moreover have "left_seq rules nu rank r (step_by p 1)" if nu: "nu (el_value (at rules p))"
    proof (rule less.hyps)
      show "room_after rules (step_by p 1) < room_after rules p" using True by (intro room_decreases) simp_all
      show "fst (step_by p 1) = r" using less.prems(1) by (simp add: step_by_def)
      show "scan_flag nu (rules ! r) True (snd (step_by p 1))" using scan_flag_step [OF p(1), of nu True] less.prems(2) True nu p(2) by (simp add: step_by_def type_at_def)
      show "nu r" if "sequence_empty nu rules (step_by p 1)" using less.prems(3) that ne True nu sequence_empty.simps [of nu rules p] by simp
    qed
    ultimately show ?thesis using rank ne True by (subst left_seq.simps) simp
  next
    case False
    then show ?thesis using less.prems(3) by (subst left_seq.simps) (simp add: sequence_empty.simps)
  qed
qed

lemma alternate_flags: "s \<in> set (alternates_from rules p) \<Longrightarrow> fst p = r \<Longrightarrow> scan_flag nu (rules ! r) True (snd p) \<Longrightarrow>
    fst s = r \<and> scan_flag nu (rules ! r) True (snd s)"
proof (induction rules p rule: alternates_from.induct)
  case (1 rules p)
  let ?q = "sequence_end rules p"
  have fq: "fst ?q = fst p" 
  proof (induction rules p rule: sequence_end.induct)
    case (1 rules p)
    then show ?case by (subst sequence_end.simps) (simp add: step_by_def)
  qed
  consider "s = p" | "type_at rules ?q = ET_ALT" "s \<in> set (alternates_from rules (step_by ?q 1))"
    using 1(2) by (subst (asm) alternates_from.simps) (auto split: if_splits)
  then show ?case
  proof cases
    case 2
    then have q: "snd ?q < length (rules ! r)" "ends_alternate (rules ! r ! snd ?q)" "el_type (rules ! r ! snd ?q) \<noteq> ET_RULE_REF"
      using fq 1(3) by (auto simp: type_at_def at_def ends_alternate_def split: if_splits)
    then show ?thesis using 1(1) [OF 2] fq 1(3) scan_flag_step [OF q(1), of nu True] by (simp add: step_by_def)
  qed (use 1 in simp)
qed

text \<open>A grammar without a cycle of left references and with plain empty alternates has a rank for every rule.\<close>

lemma left_ok_of_acyclic:
  assumes ok: "rules_ok rules" and ac: "acyclic (left_edges rules)" and plain: "plainly_empty rules"
  shows "left_ok rules (literal_empty rules) (\<lambda>r. card {c. (r, c) \<in> (left_edges rules)\<^sup>+})"
  unfolding left_ok_def
proof (intro ballI)
  fix r s assume r: "r \<in> set [0..<length rules]" and s: "s \<in> set (alternates rules r)"
  have "fst s = r \<and> scan_flag (literal_empty rules) (rules ! r) True (snd s)" using alternate_flags [OF s [unfolded alternates_def]] by simp
  moreover have "sequence_empty (literal_empty rules) rules s \<Longrightarrow> literal_empty rules r" using plain r s unfolding plainly_empty_def by blast
  moreover have "card {c. (t, c) \<in> (left_edges rules)\<^sup>+} < card {c. (r, c) \<in> (left_edges rules)\<^sup>+}" if "t \<in> left_refs (literal_empty rules) (rules ! r) True" for t
    by (rule acyclic_rank [OF ac left_edges_finite [OF ok]]) (use that r in \<open>simp add: left_edges_def\<close>)
  ultimately show "left_seq rules (literal_empty rules) (\<lambda>r. card {c. (r, c) \<in> (left_edges rules)\<^sup>+}) r s" using left_seq_of_flag r by auto
qed

end
