(* ===== verification/Gbnf_Compile.thy ===== *)
theory Gbnf_Compile
  imports Gbnf_Left
begin

text \<open>
  From the text of a grammar to the decisions of its matcher, and the two kinds of grammar text the compiler takes without
  being able to serve them.
\<close>

section \<open>Compiling\<close>

lemma compile_cases:
  "compile n src root =
     (case parse src of
        Inl e \<Rightarrow> Inl e
      | Inr p \<Rightarrow>
          if p_rules p = [] then Inl (Runtime ''empty grammar'')
          else case map_of (p_symbols p) root of
            None \<Rightarrow> Inl (Runtime ''grammar does not contain the root rule'')
          | Some r \<Rightarrow>
              if \<not> acyclic (left_edges (p_rules p)) then Inl (Runtime ''unsupported grammar, left recursion'')
              else if r \<ge> length (p_rules p) then Inl BadAccess
              else case initial_stacks n (p_rules p) r of
                Inl e \<Rightarrow> Inl e | Inr stacks \<Rightarrow> Inr (start_matcher (p_rules p) (p_symbols p) stacks))"
proof (cases "parse src")
  case (Inr p)
  obtain f where "find_left_recursion (Suc (length (p_rules p))) (p_rules p) [0..<length (p_rules p)] (new_scan (length (p_rules p))) = Inr f"
    "f = None \<longleftrightarrow> acyclic (left_edges (p_rules p))" using find_left_recursion_exact [OF parse_well_formed [OF Inr]] by blast
  then show ?thesis using Inr by (cases f) (simp_all add: compile_def Let_def start_matcher_def split: option.split sum.split)
qed (simp add: compile_def)

text \<open>
  C33. A compiled grammar decides its language. For a grammar text in which a rule that derives the empty text through other rules also
  has an empty alternate, the compiler returns, given enough recursion depth; it succeeds exactly when the text parses, the root is among
  the rules and the left references have no cycle; and the matcher it gives, after any pieces of whole characters, may end
  exactly when the text so far is a sentence of the grammar, goes on exactly with the texts its stacks derive, and is dead
  only when nothing can follow.
\<close>

theorem compiled_grammar_decides_language:
  assumes plain: "\<And>p. parse src = Inr p \<Longrightarrow> plainly_empty (p_rules p)" and pieces: "list_all2 whole_piece pieces points"
  shows "\<exists>n0. \<forall>n \<ge> n0. compile n src root \<noteq> Inl OutOfFuel \<and>
    ((\<exists>m0. compile n src root = Inr m0) \<longleftrightarrow>
       (\<exists>p r. parse src = Inr p \<and> map_of (p_symbols p) root = Some r \<and> r < length (p_rules p) \<and> acyclic (left_edges (p_rules p)))) \<and>
    (\<forall>m0. compile n src root = Inr m0 \<longrightarrow>
       (\<exists>r m. map_of (m_symbols m0) root = Some r \<and> accept_pieces n m0 pieces = Inr m \<and>
         (can_end m \<longleftrightarrow> language (m_rules m0) r (concat points)) \<and>
         (\<forall>rest. language (m_rules m0) r (concat points @ rest) \<longleftrightarrow> some_yields (m_rules m0) (m_stacks m) rest) \<and>
         (dead m \<longrightarrow> (\<forall>rest. \<not> language (m_rules m0) r (concat points @ rest)))))"
proof (cases "\<exists>p r. parse src = Inr p \<and> map_of (p_symbols p) root = Some r \<and> r < length (p_rules p) \<and> acyclic (left_edges (p_rules p))")
  case True
  then obtain p r where p: "parse src = Inr p" "map_of (p_symbols p) root = Some r" "r < length (p_rules p)" "acyclic (left_edges (p_rules p))" by blast
  have c: "compile n src root = (case initial_stacks n (p_rules p) r of Inl e \<Rightarrow> Inl e | Inr stacks \<Rightarrow> Inr (start_matcher (p_rules p) (p_symbols p) stacks))" for n
    using p by (auto simp: compile_cases)
  obtain n0 where n0: "\<forall>n \<ge> n0. \<exists>stacks m. initial_stacks n (p_rules p) r = Inr stacks \<and>
      accept_pieces n (start_matcher (p_rules p) (p_symbols p) stacks) pieces = Inr m \<and>
      (can_end m \<longleftrightarrow> language (p_rules p) r (concat points)) \<and>
      (\<forall>rest. language (p_rules p) r (concat points @ rest) \<longleftrightarrow> some_yields (p_rules p) (m_stacks m) rest) \<and>
      (dead m \<longrightarrow> (\<forall>rest. \<not> language (p_rules p) r (concat points @ rest)))"
    using matcher_decides_grammar [OF parse_well_formed [OF p(1)] left_ok_of_acyclic [OF parse_well_formed [OF p(1)] p(4) plain [OF p(1)]] pieces] by blast
  show ?thesis
  proof (intro exI [of _ n0] allI impI)
    fix n assume "n0 \<le> n"
    then obtain stacks m where i: "initial_stacks n (p_rules p) r = Inr stacks"
      and m: "accept_pieces n (start_matcher (p_rules p) (p_symbols p) stacks) pieces = Inr m"
        "can_end m \<longleftrightarrow> language (p_rules p) r (concat points)"
        "\<forall>rest. language (p_rules p) r (concat points @ rest) \<longleftrightarrow> some_yields (p_rules p) (m_stacks m) rest"
        "dead m \<longrightarrow> (\<forall>rest. \<not> language (p_rules p) r (concat points @ rest))" using n0 by blast
    show "compile n src root \<noteq> Inl OutOfFuel \<and> ((\<exists>m0. compile n src root = Inr m0) \<longleftrightarrow>
        (\<exists>p r. parse src = Inr p \<and> map_of (p_symbols p) root = Some r \<and> r < length (p_rules p) \<and> acyclic (left_edges (p_rules p)))) \<and>
      (\<forall>m0. compile n src root = Inr m0 \<longrightarrow> (\<exists>r m. map_of (m_symbols m0) root = Some r \<and> accept_pieces n m0 pieces = Inr m \<and>
         (can_end m \<longleftrightarrow> language (m_rules m0) r (concat points)) \<and>
         (\<forall>rest. language (m_rules m0) r (concat points @ rest) \<longleftrightarrow> some_yields (m_rules m0) (m_stacks m) rest) \<and>
         (dead m \<longrightarrow> (\<forall>rest. \<not> language (m_rules m0) r (concat points @ rest)))))"
      unfolding c i using True p(2) m by (simp add: start_matcher_def)
  qed
next
  case False
  then have "\<exists>e. compile n src root = Inl e \<and> e \<noteq> OutOfFuel" for n
    using parse_returns [of src] by (auto simp: compile_cases not_le split: sum.split option.split)
  then show ?thesis using False by (metis Inl_Inr_False Inl_inject)
qed

text \<open>The text \<open>root ::= "a" root | "b"\<close>.\<close>

definition demo_text :: "u8 list" where
  "demo_text = map of_char ''root ::= \"a\" root | \"b\"''"

definition root_name :: "u8 list" where
  "root_name = map of_char ''root''"

theorem compiled_grammar_decides_language_witness:
  "\<exists>n m0 m. compile n demo_text root_name = Inr m0 \<and> accept_pieces n m0 [[97], [98]] = Inr m \<and> can_end m"
proof -
  have parsed: "parse demo_text = Inr \<lparr>p_symbols = [(root_name, 0)], p_rules = demo_rules\<rparr>" by code_simp
  have plain: "plainly_empty demo_rules" by code_simp
  have pieces: "list_all2 whole_piece [[97], [98]] [[97], [98]]" by (simp add: whole_piece_def) code_simp
  have "left_edges demo_rules = {}"
  proof -
    have "left_refs (literal_empty demo_rules) (demo_rules ! 0) True = {}" by (simp add: demo_rules_def ends_alternate_def)
    then show ?thesis by (auto simp: left_edges_def demo_rules_def)
  qed
  then have root: "map_of [(root_name, 0)] root_name = Some 0" "0 < length demo_rules" "acyclic (left_edges demo_rules)"
    by (simp_all add: demo_rules_def acyclic_def)
  from compiled_grammar_decides_language [of demo_text, OF _ pieces, of root_name] parsed plain
  obtain n where n: "(\<exists>m0. compile n demo_text root_name = Inr m0) \<longleftrightarrow> True"
    "\<forall>m0. compile n demo_text root_name = Inr m0 \<longrightarrow> (\<exists>r m. map_of (m_symbols m0) root_name = Some r \<and> accept_pieces n m0 [[97], [98]] = Inr m \<and>
       (can_end m \<longleftrightarrow> language (m_rules m0) r [97, 98]))"
    using root by fastforce
  then obtain m0 where m0: "compile n demo_text root_name = Inr m0" by blast
  then have "m_rules m0 = demo_rules" "m_symbols m0 = [(root_name, 0)]"
    using parsed by (auto simp: compile_cases start_matcher_def split: if_splits option.splits sum.splits)
  then show ?thesis using n(2) m0 demo_language by fastforce
qed

section \<open>Grammars the compiler cannot serve\<close>

text \<open>The text \<open>root ::= ("a"*)*\<close>.\<close>

definition nested_text :: "u8 list" where
  "nested_text = map of_char ''root ::= (\"a\"*)*''"

definition nested_rules :: Rules where
  "nested_rules =
     [[element ET_RULE_REF 3, element ET_END 0],
      [element ET_RULE_REF 2, element ET_END 0],
      [element ET_CHAR 97, element ET_RULE_REF 2, element ET_ALT 0, element ET_END 0],
      [element ET_RULE_REF 1, element ET_RULE_REF 3, element ET_ALT 0, element ET_END 0]]"

lemma nested_advance:
  "advance_stack n nested_rules [(3, 0)] acc = Inl OutOfFuel \<and> advance_stack n nested_rules [(1, 0), (3, 1)] acc = Inl OutOfFuel \<and>
   advance_stack n nested_rules [(3, 1)] acc = Inl OutOfFuel"
proof (induction n arbitrary: acc)
  case (Suc n)
  have alts: "alternates nested_rules (el_value (at nested_rules (3, 0))) = [(1, 0)]"
    "alternates nested_rules (el_value (at nested_rules (1, 0))) = [(2, 0), (2, 3)]"
    "alternates nested_rules (el_value (at nested_rules (3, 1))) = [(3, 0), (3, 3)]" by code_simp+
  have t: "type_at nested_rules (3, 0) = ET_RULE_REF" "type_at nested_rules (1, 0) = ET_RULE_REF" "type_at nested_rules (3, 1) = ET_RULE_REF"
    "type_at nested_rules (2, 0) = ET_CHAR" by code_simp+
  have push: "push_position nested_rules (1, 0) (push_position nested_rules (step_by (3, 0) 1) []) = [(1, 0), (3, 1)]"
    "push_position nested_rules (2, 0) (push_position nested_rules (step_by (1, 0) 1) [(3, 1)]) = [(2, 0), (3, 1)]"
    "push_position nested_rules (2, 3) (push_position nested_rules (step_by (1, 0) 1) [(3, 1)]) = [(3, 1)]"
    "push_position nested_rules (3, 0) (push_position nested_rules (step_by (3, 1) 1) []) = [(3, 0)]" by code_simp+
  have leaf: "advance_stack n nested_rules [(2, 0), (3, 1)] acc = Inl OutOfFuel \<or> (\<exists>b. advance_stack n nested_rules [(2, 0), (3, 1)] acc = Inr b)"
    by (cases n) (simp_all add: t)
  show ?case using Suc leaf by (auto simp: alts t push simp del: One_nat_def)
qed simp

text \<open>
  C34. A repetition of a repetition is compiled into an endless expansion. The grammar \<open>root ::= ("a"*)*\<close> parses and the search for
  left recursion reports nothing, yet no recursion depth is enough to expand the initial stacks: the outer repetition refers to the
  group, which can be empty but has no empty alternate, so its own reference behind it is never visited by the search.
\<close>

theorem nested_repetition_never_returns:
  "parse nested_text = Inr \<lparr>p_symbols = [(root_name, 0), (root_name @ [95, 49], 1), (root_name @ [95, 50], 2), (root_name @ [95, 51], 3)], p_rules = nested_rules\<rparr> \<and>
   find_left_recursion 5 nested_rules [0..<4] (new_scan 4) = Inr None \<and> compile n nested_text root_name = Inl OutOfFuel"
proof -
  have p: "parse nested_text = Inr \<lparr>p_symbols = [(root_name, 0), (root_name @ [95, 49], 1), (root_name @ [95, 50], 2), (root_name @ [95, 51], 3)], p_rules = nested_rules\<rparr>"
    by code_simp
  have f: "find_left_recursion 5 nested_rules [0..<4] (new_scan 4) = Inr None" by code_simp
  have "alternates nested_rules 0 = [(0, 0)]" "push_position nested_rules (0, 0) [] = [(0, 0)]" "type_at nested_rules (0, 0) = ET_RULE_REF"
    "el_value (at nested_rules (0, 0)) = 3" "alternates nested_rules 3 = [(3, 0), (3, 3)]"
    "push_position nested_rules (3, 0) (push_position nested_rules (step_by (0, 0) 1) []) = [(3, 0)]" by code_simp+
  then have "initial_stacks n nested_rules 0 = Inl OutOfFuel" by (cases n) (simp_all add: initial_stacks_def nested_advance)
  moreover have "length nested_rules = 4" "nested_rules \<noteq> []" by (simp_all add: nested_rules_def)
  ultimately have "compile n nested_text root_name = Inl OutOfFuel" using p f by (simp add: compile_def)
  then show ?thesis using p f by simp
qed

text \<open>
  A root that is only mentioned. In \<open>a ::= root{0} "x"\<close> the reference is dropped by its repetition count, so no check
  looks at it, but its name has got an index: the compiler reads the rules behind their end.
\<close>

lemma mentioned_root_reads_past_the_rules: "compile n (map of_char ''a ::= root{0} \"x\"'') root_name = Inl BadAccess"
proof -
  let ?src = "map of_char ''a ::= root{0} \"x\"'' :: u8 list"
  have "parse ?src = Inr \<lparr>p_symbols = [([97], 0), (root_name, 1)], p_rules = [[element ET_CHAR 120, element ET_END 0]]\<rparr>" by code_simp
  moreover have "find_left_recursion 2 [[element ET_CHAR 120, element ET_END 0]] [0..<1] (new_scan 1) = Inr None" by code_simp
  moreover have "map_of [([97], 0), (root_name, 1)] root_name = Some (1 :: nat)" by code_simp
  ultimately show ?thesis by (simp add: compile_def numeral_2_eq_2)
qed

end
