(* ===== verification/Tool_Memory.thy ===== *)
theory Tool_Memory
  imports Prelude "HOL-Library.AList"
begin

text \<open>
  Exact replay of tool-calling turns (\<open>server/tool_memory.h\<close>, \<open>tool_memory.cpp\<close>): raw texts by the identifiers of their tool
  calls, with a least-recently-used order and byte accounting. The hash maps are association lists with distinct keys; an
  iterator into the order is the identifier it points at, so the order and the map of its iterators are one list. The
  mutex makes every operation atomic.
\<close>

section \<open>State\<close>

type_synonym raw_text = "u8 list"

record Block =
  size_bytes :: nat
  refs :: nat

record ToolMemory =
  max_entries :: nat
  max_bytes :: nat
  total_bytes :: nat
  blocks :: "(raw_text \<times> Block) list"
  by_id :: "(raw_text \<times> raw_text) list"
  lru :: "raw_text list"

definition new_tool_memory :: "nat \<Rightarrow> nat \<Rightarrow> ToolMemory" where
  "new_tool_memory entries bytes = \<lparr>max_entries = entries, max_bytes = bytes, total_bytes = 0, blocks = [], by_id = [], lru = []\<rparr>"

definition disabled :: "ToolMemory \<Rightarrow> bool" where
  "disabled m \<longleftrightarrow> max_entries m = 0 \<or> max_bytes m = 0"

definition tm_stats :: "ToolMemory \<Rightarrow> nat \<times> nat \<times> nat \<times> nat" where
  "tm_stats m = (max_entries m, max_bytes m, length (by_id m), total_bytes m)"

section \<open>Operations\<close>

definition touch :: "raw_text \<Rightarrow> ToolMemory \<Rightarrow> ToolMemory" where
  "touch call_id m = m\<lparr>lru := remove1 call_id (lru m) @ [call_id]\<rparr>"

definition give_back :: "nat \<Rightarrow> ToolMemory \<Rightarrow> ToolMemory" where
  "give_back n m = m\<lparr>total_bytes := (if n > total_bytes m then 0 else total_bytes m - n)\<rparr>"

definition release_block :: "raw_text \<Rightarrow> ToolMemory \<Rightarrow> ToolMemory" where
  "release_block txt m =
     (case map_of (blocks m) txt of
        None \<Rightarrow> m
      | Some b \<Rightarrow>
          (let b' = (if refs b > 0 then b\<lparr>refs := refs b - 1\<rparr> else b) in
           if refs b' = 0 then (give_back (size_bytes b') m)\<lparr>blocks := AList.delete txt (blocks m)\<rparr>
           else m\<lparr>blocks := AList.update txt b' (blocks m)\<rparr>))"

definition drop_entry :: "raw_text \<Rightarrow> ToolMemory \<Rightarrow> ToolMemory" where
  "drop_entry call_id m =
     (case map_of (by_id m) call_id of
        None \<Rightarrow> m
      | Some txt \<Rightarrow>
          (let m1 = give_back (length txt) (release_block txt m) in
           m1\<lparr>by_id := AList.delete call_id (by_id m1), lru := remove1 call_id (lru m1)\<rparr>))"

definition over_limits :: "ToolMemory \<Rightarrow> bool" where
  "over_limits m \<longleftrightarrow> by_id m \<noteq> [] \<and>
     ((max_entries m > 0 \<and> length (by_id m) > max_entries m) \<or> (max_bytes m > 0 \<and> total_bytes m > max_bytes m))"

text \<open>The loop ends only because the oldest identifier in the order always has an entry; None is a loop that never ends.\<close>

partial_function (option) prune :: "ToolMemory \<Rightarrow> ToolMemory option" where
  "prune m = (if over_limits m then (case lru m of [] \<Rightarrow> Some m | oldest # _ \<Rightarrow> prune (drop_entry oldest m)) else Some m)"

declare prune.simps [code]

definition unique_ids :: "raw_text list \<Rightarrow> raw_text list" where
  "unique_ids call_ids = foldl (\<lambda>u i. if i = [] \<or> i \<in> set u then u else u @ [i]) [] call_ids"

definition find_or_create :: "raw_text \<Rightarrow> ToolMemory \<Rightarrow> ToolMemory" where
  "find_or_create raw m =
     (case map_of (blocks m) raw of
        Some _ \<Rightarrow> m
      | None \<Rightarrow> m\<lparr>blocks := AList.update raw \<lparr>size_bytes = length raw, refs = 0\<rparr> (blocks m), total_bytes := total_bytes m + length raw\<rparr>)"

definition add_entry :: "raw_text \<Rightarrow> raw_text \<Rightarrow> ToolMemory \<Rightarrow> ToolMemory" where
  "add_entry raw call_id m =
     touch call_id (m\<lparr>by_id := AList.update call_id raw (by_id m), total_bytes := total_bytes m + length raw,
       blocks := AList.map_entry raw (\<lambda>b. b\<lparr>refs := refs b + 1\<rparr>) (blocks m)\<rparr>)"

definition associate :: "raw_text \<Rightarrow> ToolMemory \<Rightarrow> raw_text \<Rightarrow> ToolMemory" where
  "associate raw m call_id =
     (case map_of (by_id m) call_id of
        Some txt \<Rightarrow> if txt = raw then touch call_id m else add_entry raw call_id (drop_entry call_id m)
      | None \<Rightarrow> add_entry raw call_id m)"

definition remember :: "raw_text list \<Rightarrow> raw_text \<Rightarrow> ToolMemory \<Rightarrow> ToolMemory option" where
  "remember call_ids raw m =
     (if disabled m \<or> raw = [] then Some m
      else let ids = unique_ids call_ids in
        if ids = [] then Some m else prune (foldl (associate raw) (find_or_create raw m) ids))"

fun lookup_from :: "raw_text option \<Rightarrow> raw_text list \<Rightarrow> ToolMemory \<Rightarrow> raw_text \<times> ToolMemory" where
  "lookup_from found [] m = (case found of None \<Rightarrow> [] | Some txt \<Rightarrow> txt, m)"
| "lookup_from found (i # ids) m =
     (if i = [] then ([], m)
      else case map_of (by_id m) i of
        None \<Rightarrow> ([], m)
      | Some txt \<Rightarrow>
          (case found of
             None \<Rightarrow> lookup_from (Some txt) ids (touch i m)
           | Some result \<Rightarrow> if result \<noteq> txt then ([], m) else lookup_from found ids (touch i m)))"

definition tm_lookup :: "raw_text list \<Rightarrow> ToolMemory \<Rightarrow> raw_text \<times> ToolMemory" where
  "tm_lookup call_ids m = lookup_from None call_ids m"

end
