(* ===== verification/Tool_Memory_Props.thy ===== *)
theory Tool_Memory_Props
  imports Tool_Memory
begin

text \<open>
  Exact accounting of the tool memory, that pruning ends within the limits, and that a remembered text is replayed.
\<close>

section \<open>Association lists\<close>

lemma delete_split:
  assumes "distinct (map fst al)" "map_of al k = Some v"
  obtains xs ys where "al = xs @ (k, v) # ys" "AList.delete k al = xs @ ys" "k \<notin> fst ` set (xs @ ys)"
proof -
  obtain xs ys where s: "al = xs @ (k, v) # ys" using map_of_SomeD [OF assms(2)] by (meson split_list)
  moreover have "k \<notin> fst ` set (xs @ ys)" using assms(1) s by auto
  moreover from this have "AList.delete k xs = xs" "AList.delete k ys = ys" by (simp_all add: image_Un)
  then have "AList.delete k al = xs @ ys" by (simp add: s AList.delete_eq)
  ultimately show thesis using that by blast
qed

lemma update_new: "k \<notin> fst ` set al \<Longrightarrow> AList.update k v al = al @ [(k, v)]"
  by (induction al) auto

lemma map_entry_keys [simp]: "map fst (AList.map_entry k f al) = map fst al"
  by (induction al) auto

lemma remove1_last [simp]: "x \<notin> set xs \<Longrightarrow> remove1 x (xs @ [x]) = xs"
  by (simp add: remove1_append)

section \<open>The invariant\<close>

definition uses :: "raw_text \<Rightarrow> ToolMemory \<Rightarrow> nat" where
  "uses t m = length (filter (\<lambda>e. snd e = t) (by_id m))"

definition key_bytes :: "(raw_text \<times> 'a) list \<Rightarrow> nat" where
  "key_bytes al = sum_list (map (\<lambda>e. length (fst e)) al)"

definition value_bytes :: "('a \<times> raw_text) list \<Rightarrow> nat" where
  "value_bytes al = sum_list (map (\<lambda>e. length (snd e)) al)"

text \<open>The memory is consistent; only a text in the given set may be without a use.\<close>

definition tm_inv :: "raw_text set \<Rightarrow> ToolMemory \<Rightarrow> bool" where
  "tm_inv X m \<longleftrightarrow> distinct (map fst (by_id m)) \<and> distinct (map fst (blocks m)) \<and> distinct (lru m) \<and> set (lru m) = fst ` set (by_id m) \<and>
     (\<forall>t b. map_of (blocks m) t = Some b \<longrightarrow> size_bytes b = length t \<and> refs b = uses t m \<and> (refs b = 0 \<longrightarrow> t \<in> X)) \<and>
     (\<forall>e \<in> set (by_id m). map_of (blocks m) (snd e) \<noteq> None) \<and>
     total_bytes m = key_bytes (blocks m) + value_bytes (by_id m)"

lemma bytes_Cons [simp]: "key_bytes (e # al) = length (fst e) + key_bytes al" "value_bytes (f # bl) = length (snd f) + value_bytes bl"
  by (simp_all add: key_bytes_def value_bytes_def)

lemma bytes_append [simp]: "key_bytes (al @ al') = key_bytes al + key_bytes al'" "value_bytes (bl @ bl') = value_bytes bl + value_bytes bl'"
  by (simp_all add: key_bytes_def value_bytes_def)

lemma bytes_Nil [simp]: "key_bytes [] = 0" "value_bytes [] = 0"
  by (simp_all add: key_bytes_def value_bytes_def)

lemma key_bytes_keys: "map fst al = map fst al' \<Longrightarrow> key_bytes al = key_bytes al'"
proof -
  have "key_bytes al = sum_list (map length (map fst al))" "key_bytes al' = sum_list (map length (map fst al'))"
    by (simp_all add: key_bytes_def comp_def)
  moreover assume "map fst al = map fst al'"
  ultimately show ?thesis by (simp only:)
qed

section \<open>Dropping an entry\<close>

lemma drop_entry_eq:
  assumes inv: "tm_inv X m" and t: "map_of (by_id m) i = Some t"
  obtains b where "map_of (blocks m) t = Some b" "0 < uses t m"
    "drop_entry i m = m\<lparr>total_bytes := total_bytes m - (if uses t m = 1 then length t else 0) - length t,
       blocks := (if uses t m = 1 then AList.delete t (blocks m) else AList.update t (b\<lparr>refs := uses t m - 1\<rparr>) (blocks m)),
       by_id := AList.delete i (by_id m), lru := remove1 i (lru m)\<rparr>"
proof -
  have mem: "(i, t) \<in> set (by_id m)" using map_of_SomeD [OF t] .
  then obtain b where b: "map_of (blocks m) t = Some b" using inv by (fastforce simp: tm_inv_def)
  have r: "refs b = uses t m" "size_bytes b = length t" using inv b by (auto simp: tm_inv_def)
  have pos: "0 < uses t m" using mem by (force simp: uses_def filter_empty_conv)
  obtain xs ys where "by_id m = xs @ (i, t) # ys" using mem by (meson split_list)
  then have v: "length t \<le> value_bytes (by_id m)" by simp
  have "(t, b) \<in> set (blocks m)" using b by (rule map_of_SomeD)
  then obtain xs' ys' where "blocks m = xs' @ (t, b) # ys'" by (meson split_list)
  then have k: "length t \<le> key_bytes (blocks m)" by simp
  have tot: "total_bytes m = key_bytes (blocks m) + value_bytes (by_id m)" using inv by (simp add: tm_inv_def)
  have "drop_entry i m = m\<lparr>total_bytes := total_bytes m - (if uses t m = 1 then length t else 0) - length t,
       blocks := (if uses t m = 1 then AList.delete t (blocks m) else AList.update t (b\<lparr>refs := uses t m - 1\<rparr>) (blocks m)),
       by_id := AList.delete i (by_id m), lru := remove1 i (lru m)\<rparr>"
    using t b r pos v k tot by (auto simp: drop_entry_def release_block_def give_back_def Let_def)
  then show thesis using that b pos by blast
qed

lemma drop_entry_inv:
  assumes inv: "tm_inv X m" and t: "map_of (by_id m) i = Some t"
  shows "tm_inv X (drop_entry i m)"
proof -
  obtain b where b: "map_of (blocks m) t = Some b" "0 < uses t m"
    and eq: "drop_entry i m = m\<lparr>total_bytes := total_bytes m - (if uses t m = 1 then length t else 0) - length t,
       blocks := (if uses t m = 1 then AList.delete t (blocks m) else AList.update t (b\<lparr>refs := uses t m - 1\<rparr>) (blocks m)),
       by_id := AList.delete i (by_id m), lru := remove1 i (lru m)\<rparr>" using drop_entry_eq [OF assms] .
  have d: "distinct (map fst (by_id m))" "distinct (map fst (blocks m))" "distinct (lru m)" "set (lru m) = fst ` set (by_id m)"
    and bl: "map_of (blocks m) s = Some c \<Longrightarrow> size_bytes c = length s \<and> refs c = uses s m \<and> (refs c = 0 \<longrightarrow> s \<in> X)"
    and ent: "e \<in> set (by_id m) \<Longrightarrow> map_of (blocks m) (snd e) \<noteq> None"
    and tot: "total_bytes m = key_bytes (blocks m) + value_bytes (by_id m)" for s c e using inv unfolding tm_inv_def by blast+
  obtain xs ys where bi: "by_id m = xs @ (i, t) # ys" "AList.delete i (by_id m) = xs @ ys" "i \<notin> fst ` set (xs @ ys)" using delete_split [OF d(1) t] .
  obtain xs' ys' where bk: "blocks m = xs' @ (t, b) # ys'" "AList.delete t (blocks m) = xs' @ ys'" "t \<notin> fst ` set (xs' @ ys')" using delete_split [OF d(2) b(1)] .
  let ?m = "drop_entry i m"
  have byid: "by_id ?m = xs @ ys" unfolding eq by (simp add: bi(2))
  have uses: "uses s ?m = (if s = t then uses t m - 1 else uses s m)" for s unfolding uses_def byid unfolding bi(1) by simp
  have other: "map_of (blocks ?m) s = map_of (blocks m) s" if "s \<noteq> t" for s unfolding eq using that by (simp add: AList.delete_conv' AList.update_conv')
  have same: "map_of (blocks ?m) t = (if uses t m = 1 then None else Some (b\<lparr>refs := uses t m - 1\<rparr>))" unfolding eq by (simp add: AList.delete_conv' AList.update_conv')
  have keys: "distinct (map fst (blocks ?m))" unfolding eq using d(2) by (simp add: AList.distinct_delete AList.distinct_update)
  have kb: "key_bytes (blocks ?m) = key_bytes (blocks m) - (if uses t m = 1 then length t else 0)"
  proof (cases "uses t m = 1")
    case False
    have "map fst (blocks ?m) = map fst (blocks m)" unfolding eq using False bk(1) by (auto simp: AList.update_keys)
    then show ?thesis using False key_bytes_keys by simp
  next
    case True
    then have "blocks ?m = xs' @ ys'" unfolding eq by (simp add: bk(2))
    then show ?thesis using True by (simp add: bk(1))
  qed
  have blk: "size_bytes c = length s \<and> refs c = uses s ?m \<and> (refs c = 0 \<longrightarrow> s \<in> X)" if c: "map_of (blocks ?m) s = Some c" for s c
  proof (cases "s = t")
    case True
    then show ?thesis using same c bl [OF b(1)] uses [of t] b(2) by (auto split: if_splits)
  next
    case False
    then show ?thesis using other [OF False] c bl [of s c] uses [of s] by simp
  qed
  have used: "map_of (blocks ?m) (snd e) \<noteq> None" if "e \<in> set (by_id ?m)" for e
  proof (cases "snd e = t")
    case True
    have "e \<in> set (xs @ ys)" using that unfolding byid .
    then have "uses t m \<noteq> 1" using True by (auto simp: uses_def bi filter_empty_conv)
    then show ?thesis using True same by simp
  next
    case False
    then show ?thesis using other [OF False] ent that unfolding byid bi(1) by auto
  qed
  have "total_bytes ?m = key_bytes (blocks ?m) + value_bytes (by_id ?m)" unfolding kb byid unfolding eq using tot bk(1) by (auto simp: bi(1))
  moreover have "distinct (lru ?m)" "set (lru ?m) = fst ` set (by_id ?m)" "distinct (map fst (by_id ?m))"
    unfolding byid unfolding eq using d bi(3) by (auto simp: bi(1))
  ultimately show ?thesis unfolding tm_inv_def using keys blk used by blast
qed

lemma drop_entry_sel:
  assumes "tm_inv X m" "map_of (by_id m) i = Some t"
  shows "lru (drop_entry i m) = remove1 i (lru m)" "map_of (by_id (drop_entry i m)) = (map_of (by_id m))(i := None)"
    "max_entries (drop_entry i m) = max_entries m" "max_bytes (drop_entry i m) = max_bytes m"
    "s \<noteq> t \<Longrightarrow> map_of (blocks (drop_entry i m)) s = map_of (blocks m) s"
    "length (by_id (drop_entry i m)) < length (by_id m)"
proof -
  obtain b where eq: "drop_entry i m = m\<lparr>total_bytes := total_bytes m - (if uses t m = 1 then length t else 0) - length t,
       blocks := (if uses t m = 1 then AList.delete t (blocks m) else AList.update t (b\<lparr>refs := uses t m - 1\<rparr>) (blocks m)),
       by_id := AList.delete i (by_id m), lru := remove1 i (lru m)\<rparr>" using drop_entry_eq [OF assms] .
  show "lru (drop_entry i m) = remove1 i (lru m)" "map_of (by_id (drop_entry i m)) = (map_of (by_id m))(i := None)"
    "max_entries (drop_entry i m) = max_entries m" "max_bytes (drop_entry i m) = max_bytes m"
    "s \<noteq> t \<Longrightarrow> map_of (blocks (drop_entry i m)) s = map_of (blocks m) s"
    unfolding eq by (simp_all add: AList.delete_conv' AList.update_conv')
  have "distinct (map fst (by_id m))" using assms(1) by (simp add: tm_inv_def)
  then obtain xs ys where "by_id m = xs @ (i, t) # ys" "AList.delete i (by_id m) = xs @ ys" using delete_split [OF _ assms(2)] by blast
  then have "length (AList.delete i (by_id m)) < length (by_id m)" by (simp only: length_append list.size)
  then show "length (by_id (drop_entry i m)) < length (by_id m)" unfolding eq by simp
qed

section \<open>Adding entries\<close>

lemma tm_inv_keys: "tm_inv X m \<Longrightarrow> i \<in> set (lru m) \<longleftrightarrow> map_of (by_id m) i \<noteq> None"
  by (simp add: tm_inv_def map_of_eq_None_iff)

lemma touch_sel [simp]: "by_id (touch i m) = by_id m" "blocks (touch i m) = blocks m" "max_entries (touch i m) = max_entries m"
    "max_bytes (touch i m) = max_bytes m" "total_bytes (touch i m) = total_bytes m" "lru (touch i m) = remove1 i (lru m) @ [i]"
  by (simp_all add: touch_def)

lemma tm_inv_mono: "tm_inv X m \<Longrightarrow> X \<subseteq> Y \<Longrightarrow> tm_inv Y m"
  unfolding tm_inv_def by blast

lemma touch_inv: "tm_inv X m \<Longrightarrow> map_of (by_id m) i \<noteq> None \<Longrightarrow> tm_inv X (touch i m)"
proof -
  assume inv: "tm_inv X m" and i: "map_of (by_id m) i \<noteq> None"
  have "i \<in> set (lru m)" using tm_inv_keys [OF inv] i by simp
  then have "distinct (remove1 i (lru m) @ [i])" "set (remove1 i (lru m) @ [i]) = set (lru m)" using inv by (auto simp: tm_inv_def)
  then show ?thesis using inv unfolding tm_inv_def uses_def touch_sel by metis
qed

lemma find_or_create_inv:
  assumes inv: "tm_inv {} m"
  shows "tm_inv {raw} (find_or_create raw m) \<and> map_of (blocks (find_or_create raw m)) raw \<noteq> None \<and> by_id (find_or_create raw m) = by_id m \<and>
    lru (find_or_create raw m) = lru m \<and> max_entries (find_or_create raw m) = max_entries m \<and> max_bytes (find_or_create raw m) = max_bytes m"
proof (cases "map_of (blocks m) raw")
  case None
  then have new: "raw \<notin> fst ` set (blocks m)" by (simp add: map_of_eq_None_iff)
  have d: "distinct (map fst (by_id m))" "distinct (map fst (blocks m))" "distinct (lru m)" "set (lru m) = fst ` set (by_id m)"
    and bl: "map_of (blocks m) s = Some c \<Longrightarrow> size_bytes c = length s \<and> refs c = uses s m \<and> (refs c = 0 \<longrightarrow> s \<in> {})"
    and ent: "e \<in> set (by_id m) \<Longrightarrow> map_of (blocks m) (snd e) \<noteq> None"
    and tot: "total_bytes m = key_bytes (blocks m) + value_bytes (by_id m)" for s c e using inv unfolding tm_inv_def by blast+
  let ?m = "find_or_create raw m"
  have eq: "?m = m\<lparr>blocks := blocks m @ [(raw, \<lparr>size_bytes = length raw, refs = 0\<rparr>)], total_bytes := total_bytes m + length raw\<rparr>"
    using None by (simp add: find_or_create_def update_new [OF new])
  have unused: "uses raw m = 0" using ent None by (force simp: uses_def filter_empty_conv)
  have uses: "uses s ?m = uses s m" for s by (simp add: eq uses_def)
  have blk: "map_of (blocks ?m) s = (if s = raw then Some \<lparr>size_bytes = length raw, refs = 0\<rparr> else map_of (blocks m) s)" for s
    using None by (simp add: eq map_add_def split: option.split)
  have "size_bytes c = length s \<and> refs c = uses s ?m \<and> (refs c = 0 \<longrightarrow> s \<in> {raw})" if "map_of (blocks ?m) s = Some c" for s c
    using that bl [of s c] unused blk [of s] uses [of s] by (auto split: if_splits)
  moreover have "map_of (blocks ?m) (snd e) \<noteq> None" if "e \<in> set (by_id m)" for e using ent [OF that] blk by simp
  moreover have "distinct (map fst (blocks ?m))" "by_id ?m = by_id m" "lru ?m = lru m" "total_bytes ?m = key_bytes (blocks ?m) + value_bytes (by_id m)"
    using d new tot by (simp_all add: eq)
  ultimately have "tm_inv {raw} ?m" unfolding tm_inv_def using d by metis
  then show ?thesis using blk by (simp add: eq)
next
  case (Some b)
  then show ?thesis using tm_inv_mono [OF inv, of "{raw}"] by (simp add: find_or_create_def)
qed

lemma tm_add_entry_inv:
  assumes inv: "tm_inv {raw} m" and raw: "map_of (blocks m) raw \<noteq> None" and new: "map_of (by_id m) i = None"
  shows "tm_inv {raw} (add_entry raw i m)"
proof -
  obtain b where b: "map_of (blocks m) raw = Some b" using raw by blast
  have d: "distinct (map fst (by_id m))" "distinct (map fst (blocks m))" "distinct (lru m)" "set (lru m) = fst ` set (by_id m)"
    and bl: "map_of (blocks m) s = Some c \<Longrightarrow> size_bytes c = length s \<and> refs c = uses s m \<and> (refs c = 0 \<longrightarrow> s \<in> {raw})"
    and ent: "e \<in> set (by_id m) \<Longrightarrow> map_of (blocks m) (snd e) \<noteq> None"
    and tot: "total_bytes m = key_bytes (blocks m) + value_bytes (by_id m)" for s c e using inv unfolding tm_inv_def by blast+
  let ?m = "add_entry raw i m"
  have ni: "i \<notin> fst ` set (by_id m)" using new by (simp add: map_of_eq_None_iff)
  have by_id: "by_id ?m = by_id m @ [(i, raw)]" by (simp add: add_entry_def update_new [OF ni])
  have blk: "map_of (blocks ?m) s = (if s = raw then Some (b\<lparr>refs := refs b + 1\<rparr>) else map_of (blocks m) s)" for s
    using b by (simp add: add_entry_def AList.map_of_map_entry)
  have keys: "map fst (blocks ?m) = map fst (blocks m)" by (simp add: add_entry_def)
  have uses: "uses s ?m = (if s = raw then uses s m + 1 else uses s m)" for s by (simp add: uses_def by_id)
  have "total_bytes ?m = key_bytes (blocks ?m) + value_bytes (by_id ?m)" using tot key_bytes_keys [OF keys] by (simp add: by_id) (simp add: add_entry_def)
  moreover have "distinct (map fst (blocks ?m))" unfolding keys using d(2) .
  moreover have "distinct (map fst (by_id ?m))" "distinct (lru ?m)" "set (lru ?m) = fst ` set (by_id ?m)"
    using d ni by (simp_all add: by_id) (simp_all add: add_entry_def remove1_idem)
  moreover have "size_bytes c = length s \<and> refs c = uses s ?m \<and> (refs c = 0 \<longrightarrow> s \<in> {raw})" if "map_of (blocks ?m) s = Some c" for s c
    using that bl [OF b] bl [of s c] uses [of s] blk [of s] by (auto split: if_splits)
  moreover have "map_of (blocks ?m) (snd e) \<noteq> None" if "e \<in> set (by_id ?m)" for e using that ent [of e] blk [of "snd e"] by (auto simp: by_id)
  ultimately show ?thesis unfolding tm_inv_def by blast
qed

lemma associate_spec:
  assumes inv: "tm_inv {raw} m" and raw: "map_of (blocks m) raw \<noteq> None"
  shows "tm_inv {raw} (associate raw m i) \<and> map_of (blocks (associate raw m i)) raw \<noteq> None \<and>
    map_of (by_id (associate raw m i)) = (map_of (by_id m))(i \<mapsto> raw) \<and> lru (associate raw m i) = remove1 i (lru m) @ [i] \<and>
    max_entries (associate raw m i) = max_entries m \<and> max_bytes (associate raw m i) = max_bytes m"
proof -
  have add: "map_of (blocks (add_entry raw i n)) raw \<noteq> None \<and> map_of (by_id (add_entry raw i n)) = (map_of (by_id n))(i \<mapsto> raw) \<and>
      lru (add_entry raw i n) = remove1 i (lru n) @ [i] \<and> max_entries (add_entry raw i n) = max_entries n \<and> max_bytes (add_entry raw i n) = max_bytes n"
    if "map_of (blocks n) raw \<noteq> None" for n using that by (auto simp: add_entry_def AList.map_of_map_entry AList.update_conv')
  consider (none) "map_of (by_id m) i = None" | (same) "map_of (by_id m) i = Some raw" | (other) t where "map_of (by_id m) i = Some t" "t \<noteq> raw" by blast
  then show ?thesis
  proof cases
    case none
    then show ?thesis using add [OF raw] tm_add_entry_inv [OF inv raw none] by (simp add: associate_def)
  next
    case same
    then show ?thesis using touch_inv [OF inv, of i] raw by (auto simp: associate_def)
  next
    case other
    note sel = drop_entry_sel [OF inv other(1)]
    have a: "associate raw m i = add_entry raw i (drop_entry i m)" using other by (simp add: associate_def)
    have r: "map_of (blocks (drop_entry i m)) raw \<noteq> None" using sel(5) other(2) raw by simp
    have "i \<notin> set (remove1 i (lru m))" using inv by (simp add: tm_inv_def)
    then show ?thesis unfolding a using add [OF r] tm_add_entry_inv [OF drop_entry_inv [OF inv other(1)] r] sel(1-4) by (simp add: remove1_idem)
  qed
qed

lemma associate_all:
  "tm_inv {raw} m \<Longrightarrow> map_of (blocks m) raw \<noteq> None \<Longrightarrow> distinct ids \<Longrightarrow>
     tm_inv {raw} (foldl (associate raw) m ids) \<and>
     map_of (by_id (foldl (associate raw) m ids)) = (\<lambda>j. if j \<in> set ids then Some raw else map_of (by_id m) j) \<and>
     lru (foldl (associate raw) m ids) = filter (\<lambda>j. j \<notin> set ids) (lru m) @ ids \<and>
     max_entries (foldl (associate raw) m ids) = max_entries m \<and> max_bytes (foldl (associate raw) m ids) = max_bytes m"
proof (induction ids arbitrary: m)
  case (Cons i ids)
  note a = associate_spec [OF Cons.prems(1,2), of i]
  have "distinct (lru m)" using Cons.prems(1) by (simp add: tm_inv_def)
  then have "remove1 i (lru m) = filter (\<lambda>j. j \<noteq> i) (lru m)" by (simp add: distinct_remove1_removeAll removeAll_filter_not_eq eq_commute)
  then show ?case using Cons.IH [of "associate raw m i"] a Cons.prems(3) by (auto simp: fun_eq_iff)
qed simp

lemma tm_inv_used: "tm_inv {raw} m \<Longrightarrow> map_of (by_id m) i = Some raw \<Longrightarrow> tm_inv {} m"
proof -
  assume inv: "tm_inv {raw} m" and i: "map_of (by_id m) i = Some raw"
  have "0 < uses raw m" using map_of_SomeD [OF i] by (force simp: uses_def filter_empty_conv)
  then show ?thesis using inv unfolding tm_inv_def by (metis less_irrefl singletonD)
qed

section \<open>Pruning\<close>

text \<open>Pruning ends within the limits and keeps whatever dropping the oldest entry keeps.\<close>

lemma prune_spec:
  assumes inv: "tm_inv {} m" and step: "\<And>m1 i is. tm_inv {} m1 \<Longrightarrow> P m1 \<Longrightarrow> over_limits m1 \<Longrightarrow> lru m1 = i # is \<Longrightarrow> P (drop_entry i m1)" and P: "P m"
  shows "\<exists>m'. prune m = Some m' \<and> tm_inv {} m' \<and> \<not> over_limits m' \<and> P m'"
  using inv P
proof (induction "length (by_id m)" arbitrary: m rule: less_induct)
  case less
  show ?case
  proof (cases "over_limits m")
    case True
    then have "fst ` set (by_id m) \<noteq> {}" by (simp add: over_limits_def)
    then have "lru m \<noteq> []" using less.prems(1) by (metis tm_inv_def list.set(1))
    then obtain i "is" where l: "lru m = i # is" by (cases "lru m") auto
    then obtain t where t: "map_of (by_id m) i = Some t" using tm_inv_keys [OF less.prems(1), of i] by auto
    show ?thesis using less.hyps [OF drop_entry_sel(6) [OF less.prems(1) t] drop_entry_inv [OF less.prems(1) t] step [OF less.prems True l]] True l
      by (simp add: prune.simps [of m])
  next
    case False
    then show ?thesis using less.prems by (simp add: prune.simps [of m])
  qed
qed

lemma unique_ids_spec: "distinct (unique_ids ids) \<and> set (unique_ids ids) = set ids - {[]}"
proof -
  have "distinct u \<Longrightarrow> [] \<notin> set u \<Longrightarrow> distinct (foldl (\<lambda>u i. if i = [] \<or> i \<in> set u then u else u @ [i]) u ids) \<and>
      set (foldl (\<lambda>u i. if i = [] \<or> i \<in> set u then u else u @ [i]) u ids) = set u \<union> (set ids - {[]})" for u
    by (induction ids arbitrary: u) auto
  from this [of "[]"] show ?thesis by (simp add: unique_ids_def)
qed

lemma length_lru: "tm_inv X m \<Longrightarrow> length (lru m) = length (by_id m)"
  unfolding tm_inv_def by (metis distinct_card length_map set_map)

text \<open>Entries that all hold one text.\<close>

lemma one_text_bytes:
  assumes inv: "tm_inv {} m" and raw: "\<And>e. e \<in> set (by_id m) \<Longrightarrow> snd e = raw"
  shows "total_bytes m \<le> (1 + length (by_id m)) * length raw"
proof -
  have "(\<And>e. e \<in> set al \<Longrightarrow> snd e = raw) \<Longrightarrow> value_bytes al = length al * length raw" for al :: "(raw_text \<times> raw_text) list"
    by (induction al) auto
  then have v: "value_bytes (by_id m) = length (by_id m) * length raw" using raw by blast
  have "fst e = raw" if "e \<in> set (blocks m)" for e
  proof -
    have "map_of (blocks m) (fst e) = Some (snd e)" using inv that by (simp add: tm_inv_def)
    then have "uses (fst e) m \<noteq> 0" using inv unfolding tm_inv_def by (metis empty_iff)
    then show ?thesis using raw by (auto simp: uses_def filter_empty_conv)
  qed
  moreover have "distinct (map fst (blocks m))" using inv by (simp add: tm_inv_def)
  moreover have "(\<And>e. e \<in> set al \<Longrightarrow> fst e = raw) \<Longrightarrow> distinct (map fst al) \<Longrightarrow> key_bytes al \<le> length raw" for al :: "(raw_text \<times> Block) list"
    by (cases al rule: remdups_adj.cases) auto
  ultimately have "key_bytes (blocks m) \<le> length raw" by blast
  then show ?thesis using inv v by (simp add: tm_inv_def)
qed

definition fits_memory :: "ToolMemory \<Rightarrow> raw_text list \<Rightarrow> raw_text \<Rightarrow> bool" where
  "fits_memory m ids raw \<longleftrightarrow> length ids \<le> max_entries m \<and> (1 + length ids) * length raw \<le> max_bytes m"

text \<open>While pruning, the newest entries stay as long as they fit on their own.\<close>

definition newest :: "raw_text list \<Rightarrow> raw_text \<Rightarrow> nat \<Rightarrow> nat \<Rightarrow> ToolMemory \<Rightarrow> bool" where
  "newest ids raw entries bytes m \<longleftrightarrow> (\<exists>older. lru m = older @ ids) \<and> (\<forall>i \<in> set ids. map_of (by_id m) i = Some raw) \<and>
     max_entries m = entries \<and> max_bytes m = bytes"

lemma newest_drop:
  assumes inv: "tm_inv {} m" and new: "newest ids raw entries bytes m" and over: "over_limits m" and l: "lru m = i # is"
    and fits: "length ids \<le> entries" "(1 + length ids) * length raw \<le> bytes"
  shows "newest ids raw entries bytes (drop_entry i m)"
proof -
  obtain t where t: "map_of (by_id m) i = Some t" using tm_inv_keys [OF inv, of i] l by auto
  obtain older where o: "lru m = older @ ids" and ids: "\<forall>j \<in> set ids. map_of (by_id m) j = Some raw" and lim: "max_entries m = entries" "max_bytes m = bytes"
    using new by (auto simp: newest_def)
  show ?thesis
  proof (cases older)
    case Nil
    have "snd e = raw" if "e \<in> set (by_id m)" for e
    proof -
      have "fst e \<in> set ids" using inv that o Nil by (force simp: tm_inv_def)
      moreover have "map_of (by_id m) (fst e) = Some (snd e)" using inv that by (simp add: tm_inv_def)
      ultimately show ?thesis using ids by simp
    qed
    then have "total_bytes m \<le> bytes" using one_text_bytes [OF inv] fits(2) length_lru [OF inv] o Nil by fastforce
    then show ?thesis using over fits(1) length_lru [OF inv] o Nil lim by (simp add: over_limits_def)
  next
    case (Cons j rest)
    then have "i = j" "lru (drop_entry i m) = rest @ ids" using l o drop_entry_sel(1) [OF inv t] by auto
    moreover have "i \<notin> set ids" using inv o Cons l by (auto simp: tm_inv_def)
    ultimately show ?thesis using ids lim drop_entry_sel(2-4) [OF inv t] by (auto simp: newest_def)
  qed
qed

section \<open>Reachable memories\<close>

lemma lookup_from_spec:
  "tm_inv X m \<Longrightarrow> lookup_from f ids m = (r, m') \<Longrightarrow> tm_inv X m' \<and> by_id m' = by_id m \<and> total_bytes m' = total_bytes m \<and> blocks m' = blocks m \<and>
     max_entries m' = max_entries m \<and> max_bytes m' = max_bytes m"
proof (induction f ids m rule: lookup_from.induct)
  case (2 f i ids m)
  show ?case
  proof (cases "map_of (by_id m) i")
    case (Some t)
    have inv: "tm_inv X (touch i m)" using touch_inv [OF 2(3)] Some by simp
    show ?thesis using 2 Some inv by (cases f) (auto split: if_splits)
  qed (use 2 in \<open>auto split: if_splits\<close>)
qed simp

lemma lookup_from_replays:
  "(\<And>i. i \<in> set ids \<Longrightarrow> i \<noteq> [] \<and> map_of (by_id m) i = Some raw) \<Longrightarrow> f = Some raw \<or> f = None \<and> ids \<noteq> [] \<Longrightarrow> fst (lookup_from f ids m) = raw"
proof (induction f ids m rule: lookup_from.induct)
  case (2 f i ids m)
  have i: "i \<noteq> []" "map_of (by_id m) i = Some raw" using 2(3) by auto
  show ?case
  proof (cases f)
    case None
    then show ?thesis using 2(1) [OF i None] 2(3) i by simp
  next
    case (Some t)
    then show ?thesis using 2(2) [OF i Some] 2(3,4) i by simp
  qed
qed auto

lemma remember_spec:
  assumes inv: "tm_inv {} m" and en: "\<not> disabled m" "raw \<noteq> []" and ids: "unique_ids call_ids \<noteq> []"
  shows "\<exists>m'. remember call_ids raw m = Some m' \<and> tm_inv {} m' \<and> \<not> over_limits m' \<and> max_entries m' = max_entries m \<and> max_bytes m' = max_bytes m \<and>
    (fits_memory m (unique_ids call_ids) raw \<longrightarrow> (\<forall>i \<in> set (unique_ids call_ids). map_of (by_id m') i = Some raw))"
proof -
  let ?ids = "unique_ids call_ids" and ?m = "foldl (associate raw) (find_or_create raw m) (unique_ids call_ids)"
  have f: "tm_inv {raw} (find_or_create raw m)" "map_of (blocks (find_or_create raw m)) raw \<noteq> None"
    "max_entries (find_or_create raw m) = max_entries m" "max_bytes (find_or_create raw m) = max_bytes m" using find_or_create_inv [OF inv, of raw] by auto
  have a: "tm_inv {raw} ?m" "map_of (by_id ?m) = (\<lambda>j. if j \<in> set ?ids then Some raw else map_of (by_id (find_or_create raw m)) j)"
    "lru ?m = filter (\<lambda>j. j \<notin> set ?ids) (lru (find_or_create raw m)) @ ?ids" "max_entries ?m = max_entries m" "max_bytes ?m = max_bytes m"
    using associate_all [OF f(1,2), of ?ids] unique_ids_spec [of call_ids] f(3,4) by auto
  have inv': "tm_inv {} ?m" using tm_inv_used [OF a(1), of "hd ?ids"] a(2) ids by simp
  let ?P = "\<lambda>x. max_entries x = max_entries m \<and> max_bytes x = max_bytes m \<and> (fits_memory m ?ids raw \<longrightarrow> newest ?ids raw (max_entries m) (max_bytes m) x)"
  have P: "?P ?m" using a by (auto simp: newest_def)
  have step: "?P (drop_entry i m1)" if m1: "tm_inv {} m1" "?P m1" "over_limits m1" "lru m1 = i # is" for m1 i "is"
  proof -
    obtain t where t: "map_of (by_id m1) i = Some t" using tm_inv_keys [OF m1(1), of i] m1(4) by auto
    show ?thesis using newest_drop [OF m1(1) _ m1(3,4), of ?ids raw "max_entries m" "max_bytes m"] m1(2) drop_entry_sel(3,4) [OF m1(1) t] by (simp add: fits_memory_def)
  qed
  have "\<exists>m'. prune ?m = Some m' \<and> tm_inv {} m' \<and> \<not> over_limits m' \<and> ?P m'"
    by (rule prune_spec [where P = ?P, OF inv' _ P]) (rule step)
  then obtain m' where "prune ?m = Some m'" "tm_inv {} m'" "\<not> over_limits m'" "?P m'" by blast
  then show ?thesis using en ids by (auto simp: remember_def Let_def newest_def)
qed

inductive tm_reachable :: "nat \<Rightarrow> nat \<Rightarrow> ToolMemory \<Rightarrow> bool" for entries bytes where
  start: "tm_reachable entries bytes (new_tool_memory entries bytes)"
| remember: "tm_reachable entries bytes m \<Longrightarrow> remember call_ids raw m = Some m' \<Longrightarrow> tm_reachable entries bytes m'"
| lookup: "tm_reachable entries bytes m \<Longrightarrow> tm_lookup call_ids m = (raw, m') \<Longrightarrow> tm_reachable entries bytes m'"

lemma tm_reachable_inv:
  "tm_reachable entries bytes m \<Longrightarrow> tm_inv {} m \<and> \<not> over_limits m \<and> max_entries m = entries \<and> max_bytes m = bytes \<and> (disabled m \<longrightarrow> by_id m = [])"
proof (induction rule: tm_reachable.induct)
  case start
  then show ?case by (simp add: tm_inv_def new_tool_memory_def over_limits_def uses_def)
next
  case (remember m call_ids raw m')
  show ?case
  proof (cases "disabled m \<or> raw = [] \<or> unique_ids call_ids = []")
    case True
    then have "m' = m" using remember.hyps(2) by (auto simp: remember_def Let_def split: if_splits)
    then show ?thesis using remember.IH by simp
  next
    case False
    then have d: "\<not> disabled m" "raw \<noteq> []" "unique_ids call_ids \<noteq> []" by auto
    show ?thesis using remember_spec [OF _ d] remember.hyps(2) remember.IH d(1) by (auto simp: disabled_def)
  qed
next
  case (lookup m call_ids raw m')
  have "tm_inv {} m'" "by_id m' = by_id m" "total_bytes m' = total_bytes m" "max_entries m' = max_entries m" "max_bytes m' = max_bytes m"
    using lookup_from_spec [of "{}" m None call_ids raw m'] lookup.IH lookup.hyps(2) by (simp_all add: tm_lookup_def)
  then show ?case using lookup.IH by (auto simp: over_limits_def disabled_def)
qed

section \<open>Properties\<close>

text \<open>
  C36. The tool memory accounts exactly and stays within its limits. In every reachable memory the byte count is the size of all stored texts and
  of the copies the identifiers hold, every identifier is in the order exactly once and has its text stored, a stored
  text counts the identifiers that use it and has at least one, and neither limit is exceeded; and every further call of \<open>remember\<close> returns.
\<close>

theorem tool_memory_accounts_exactly:
  assumes "tm_reachable entries bytes m"
  shows "total_bytes m = sum_list (map (\<lambda>e. length (fst e)) (blocks m)) + sum_list (map (\<lambda>e. length (snd e)) (by_id m)) \<and>
    length (by_id m) \<le> entries \<and> total_bytes m \<le> bytes \<and>
    distinct (lru m) \<and> set (lru m) = fst ` set (by_id m) \<and>
    (\<forall>i t. map_of (by_id m) i = Some t \<longrightarrow> map_of (blocks m) t \<noteq> None) \<and>
    (\<forall>t b. map_of (blocks m) t = Some b \<longrightarrow> 0 < refs b \<and> refs b = card {i. map_of (by_id m) i = Some t}) \<and>
    (\<exists>m'. remember call_ids raw m = Some m')"
proof -
  have inv: "tm_inv {} m" and over: "\<not> over_limits m" and lim: "max_entries m = entries" "max_bytes m = bytes" and dis: "disabled m \<longrightarrow> by_id m = []"
    using tm_reachable_inv [OF assms] by auto
  have d: "distinct (map fst (by_id m))" and tot: "total_bytes m = key_bytes (blocks m) + value_bytes (by_id m)" using inv by (simp_all add: tm_inv_def)
  have empty: "total_bytes m = 0" if "by_id m = []" using one_text_bytes [OF inv, of "[]"] that by simp
  have "length (by_id m) \<le> entries" "total_bytes m \<le> bytes"
    using over lim dis empty by (cases "by_id m = []"; auto simp: over_limits_def disabled_def)+
  moreover have crd: "card {i. map_of (by_id m) i = Some t} = uses t m" for t
  proof -
    have "{i. map_of (by_id m) i = Some t} = fst ` set (filter (\<lambda>e. snd e = t) (by_id m))" using d by force
    moreover have "distinct (map fst (filter (\<lambda>e. snd e = t) (by_id m)))" using d by (simp add: distinct_map_filter)
    ultimately show ?thesis using distinct_card [of "map fst (filter (\<lambda>e. snd e = t) (by_id m))"] by (simp add: uses_def)
  qed
  moreover have "\<exists>m'. remember call_ids raw m = Some m'"
    using remember_spec [OF inv, of raw call_ids] by (cases "disabled m \<or> raw = [] \<or> unique_ids call_ids = []") (auto simp: remember_def Let_def)
  moreover have "map_of (blocks m) t \<noteq> None" if "map_of (by_id m) i = Some t" for i t using inv map_of_SomeD [OF that] by (force simp: tm_inv_def)
  moreover have "0 < refs b \<and> refs b = card {i. map_of (by_id m) i = Some t}" if "map_of (blocks m) t = Some b" for t b
    unfolding crd using inv that unfolding tm_inv_def by (metis empty_iff gr0I)
  moreover have "distinct (lru m) \<and> set (lru m) = fst ` set (by_id m)" using inv unfolding tm_inv_def by blast
  ultimately show ?thesis using tot unfolding key_bytes_def value_bytes_def by blast
qed

text \<open>
  C37. A remembered turn is replayed. When the identifiers of a turn and the copies of its text fit the limits on their own, looking
  up any of the identifiers right after \<open>remember\<close> gives back exactly the text, whatever was stored before.
\<close>

theorem remembered_text_is_replayed:
  assumes reach: "tm_reachable entries bytes m" and raw: "raw \<noteq> []"
    and fits: "0 < entries" "length (unique_ids call_ids) \<le> entries" "(1 + length (unique_ids call_ids)) * length raw \<le> bytes"
    and ids: "ids \<noteq> []" "set ids \<subseteq> set call_ids - {[]}"
  shows "\<exists>m'. remember call_ids raw m = Some m' \<and> fst (tm_lookup ids m') = raw"
proof -
  have inv: "tm_inv {} m" "max_entries m = entries" "max_bytes m = bytes" using tm_reachable_inv [OF reach] by auto
  have u: "set (unique_ids call_ids) = set call_ids - {[]}" using unique_ids_spec by blast
  have "0 < bytes" using fits(3) raw by (cases "bytes = 0") auto
  then have en: "\<not> disabled m" using inv fits(1) by (simp add: disabled_def)
  have ne: "unique_ids call_ids \<noteq> []" using ids u by (metis empty_iff hd_in_set list.set(1) subsetD)
  obtain m' where "remember call_ids raw m = Some m'" "\<forall>i \<in> set (unique_ids call_ids). map_of (by_id m') i = Some raw"
    using remember_spec [OF inv(1) en raw ne] fits inv(2,3) by (auto simp: fits_memory_def)
  moreover have "fst (tm_lookup ids m') = raw" if "\<forall>i \<in> set (unique_ids call_ids). map_of (by_id m') i = Some raw" for m'
    unfolding tm_lookup_def by (rule lookup_from_replays) (use that ids u in auto)
  ultimately show ?thesis by blast
qed

text \<open>A memory for two identifiers and twelve bytes, after the turns \<open>a, b\<close> and \<open>b, c\<close>.\<close>

definition demo_memory :: "ToolMemory option" where
  "demo_memory = Option.bind (remember [[97], [98], [97]] [1, 2, 3] (new_tool_memory 2 12)) (remember [[98], [99]] [4, 5])"

lemma demo_memory_reachable:
  assumes "demo_memory = Some m"
  shows "tm_reachable 2 12 m"
  using assms unfolding demo_memory_def Option.bind_eq_Some_conv by (meson tm_reachable.remember tm_reachable.start)

lemma demo_memory_value: "demo_memory = Some \<lparr>max_entries = 2, max_bytes = 12, total_bytes = 6, blocks = [([4, 5], \<lparr>size_bytes = 2, refs = 2\<rparr>)],
    by_id = [([98], [4, 5]), ([99], [4, 5])], lru = [[98], [99]]\<rparr>"
  by code_simp

theorem tool_memory_accounts_exactly_witness:
  "\<exists>m m'. demo_memory = Some m \<and> by_id m \<noteq> [] \<and> total_bytes m \<le> 12 \<and> remember [[100]] [7] m = Some m'"
  using tool_memory_accounts_exactly [OF demo_memory_reachable [OF demo_memory_value], of "[[100]]" "[7]"] by (simp add: demo_memory_value)

theorem remembered_text_is_replayed_witness:
  "\<exists>m m'. demo_memory = Some m \<and> remember [[100], [101]] [7, 8, 9] m = Some m' \<and> fst (tm_lookup [[101]] m') = [7, 8, 9]"
proof -
  have "length (unique_ids [[100], [101]]) = 2" by code_simp
  then show ?thesis
    using remembered_text_is_replayed [OF demo_memory_reachable [OF demo_memory_value], of "[7, 8, 9]" "[[100], [101]]" "[[101]]"]
    by (simp add: demo_memory_value)
qed

end
