(* ===== verification/Spec2Isabelle.thy ===== *)
theory Spec2Isabelle
  imports Seq_Slot_Props Qwen_Serving Prefix_Cache_Budget Prefix_Capture_Txn Request_Budget Utf8_Utils Prompt_Lookup
    Client_Send_Buffer Chain_Spec Constraint_Props Gbnf_Compile Tool_Memory_Props
    Paged_Kv_Offload_Props
begin

text \<open>
  Verification of the serving core of Lucebox (\<open>src/server/src\<close>), the C++ inference server. The
  development models the code that decides which request owns which KV memory, which cached prefix a
  request restores from and how many tokens it may write, and leaves the tensor arithmetic to the backends.

  \<^bold>\<open>The program and its parts.\<close> The HTTP server parses a request, fixes its token budget and
  admits it against the context (\<open>http_server.cpp\<close>, \<open>admission.h\<close>). The prompt is cut at chat boundaries
  (\<open>kv/chat_boundaries.cpp\<close>, \<open>kv/cuts.cpp\<close>); the prefix cache (\<open>kv/prefix_cache.cpp\<close>) looks for the longest
  resident prefix and reserves a slot for the capture of a new one. With concurrent serving, the scheduler
  (\<open>scheduler.cpp\<close>) plans steps of decode rows and prompt slices for an engine (\<open>concurrency/seq_engine.h\<close>,
  \<open>qwen35_seq_engine.cpp\<close>), makes room for them by parking or evicting requests, and hands the engine's outputs to their slots; a slot manager
  (\<open>concurrency/seq_slot_manager.cpp\<close>) runs several sequences over one paged KV pool
  (\<open>concurrency/paged_kv_pool.cpp\<close>), under memory pressure a sequence's KV is copied to the host and back
  (\<open>concurrency/paged_kv_offload.cpp\<close>), and captures are resolved by transactions (\<open>kv/parallel_prefix_txn.h\<close>).
  While a sequence decodes, drafts are verified (\<open>chain_spec_shapes.h\<close>, \<open>prompt_lookup.h\<close>), a grammar restricts the tokens
  (\<open>gbnf.cpp\<close>, \<open>output_constraint.cpp\<close>), the thinking budget replaces tokens (\<open>thinking_budget.h\<close>), the raw text of a
  tool call is kept for exact replay (\<open>tool_memory.cpp\<close>), and the text goes out through UTF-8 repair (\<open>utf8_utils.h\<close>) and a
  send buffer (\<open>client_send_buffer.h\<close>).

  \<^bold>\<open>Theories.\<close>
  \<^item> \<open>Prelude\<close>: integer types, wrapping casts and shared lemmas; \<open>C_Text\<close>: \<open>strtol\<close>, \<open>atoi\<close>;
    \<open>Std_Heap\<close>: the libstdc++ heap algorithms the pool's free lists run on.
  \<^item> \<open>Paged_Kv_Pool\<close>, \<open>Paged_Kv_Props\<close>: \<open>PagedKvPool\<close>. One definition per method over a record of the private
    fields; the properties are about every state reachable by pool operations: blocks are
    partitioned between free lists and sequences, rows of different sequences never alias, failures change
    nothing, a reservation is never stranded, rollback and retry reproduce an append, stale
    handles stay stale.
  \<^item> \<open>Slot_Kv\<close>: the allocator interface \<open>SlotKv\<close> as a record of functions with a locale for its contract,
    interpreted on the pool. \<open>Seq_Slot_Manager\<close>, \<open>Seq_Slot_Inv\<close>, \<open>Seq_Slot_Props\<close>: \<open>SeqSlotManager\<close> over any such
    allocator, its invariant inside the locale, and admission, prefill, decode, eviction and retirement
    properties. \<open>Sampler_Cfg\<close>, \<open>Prefix_Store\<close>: the request data these pass around.
    \<open>Seq_Slot_Reach\<close> holds the reachable managers and what an operation leaves of the slots it does not address.
  \<^item> \<open>Paged_Kv_Offload\<close>: \<open>PagedKvOffload\<close> and the plane layouts of the engines, over device tensors as byte lists.
    A copy carries ggml's assertions: an allocated tensor, a span inside it, and no stride gap inside the span.
    \<open>Paged_Kv_Offload_Copy\<close> is about the copies alone, \<open>Paged_Kv_Offload_Inv\<close> about the cases of each operation and the interleaving with
    other slots; \<open>Paged_Kv_Offload_Props\<close>: suspended KV comes back byte for byte, refusals change nothing.
  \<^item> \<open>Seq_Engine\<close>, \<open>Seq_Engine_Props\<close>: plans and results of a step, the division of prompt tokens among prompts, and the check of a
    result, which accepts exactly the results that answer the plan. \<open>Sched_Slot\<close>, \<open>Sched_Slot_Props\<close>: a scheduler slot and what an output of the
    engine does to it. \<open>Sched_Loop\<close>: one pass of \<open>scheduler_loop\<close> after admission, over the engine as a record of functions;
    \<open>Sched_Loop_Props\<close>: its plans keep to the thinking budget. \<open>Sched_Room\<close> has the engine contract as a locale, and proves in it that the
    loop that makes room returns and loses no request; \<open>Sched_Pass\<close> extends it to the whole pass.
  \<^item> \<open>Qwen_Host_Engine\<close>: the host side of the Qwen engine over the slot manager and the offload object; \<open>Qwen_Engine_Contract\<close>,
    \<open>Qwen_Serving\<close>: it keeps both contracts, so passes of the scheduler over it return and lose no request.
  \<^item> \<open>Chat_Boundaries\<close>, \<open>Cuts\<close>, \<open>Prefix_Hash\<close>: where prompts are cut and how a prefix is
    keyed (SHA-1 and FNV-1a at their bit widths).
  \<^item> \<open>Evict_Victim\<close>: the choice of an eviction victim, proved to be the least entry of an explicit ranking.
    \<open>Prefix_Cache\<close>, \<open>Prefix_Cache_Ops\<close>: \<open>PrefixCache\<close>, every operation of the inline and the full-prompt
    cache over an abstract key function whose law is the locale \<open>prefix_keys\<close>, interpreted on
    \<open>hash_prefix\<close>. \<open>Prefix_Cache_Inv\<close>, \<open>Prefix_Cache_Commit\<close>, \<open>Prefix_Cache_Reserve\<close>, \<open>Prefix_Cache_Steps\<close>:
    normal forms of the operations and the invariant of the cache with the handles its callers hold, by rule induction over
    reachable states. \<open>Prefix_Cache_Props\<close>, \<open>Prefix_Cache_Budget\<close>: exact byte
    accounting, longest-prefix lookup, commit and cancel round trips, what a reservation, eviction and pruning may take. The
    read of the last boundary of a prompt that has none is undefined in the code; it is the value None of \<open>reserve_inline_snap\<close>,
    and \<open>reserve_defined\<close> says when it cannot happen.
  \<^item> \<open>Prefix_Capture_Txn\<close>: \<open>BasicPrefixCaptureTxn\<close> over a cache reservation; a capture resolves once and leaves the others alone.
  \<^item> \<open>Thinking_Budget\<close>, \<open>Request_Budget\<close>: the thinking-budget controller as a refinement of a
    specification of the emitted stream, and the budget of a request from its JSON fields to that controller.
  \<^item> \<open>Chain_Spec\<close>, \<open>Prompt_Lookup\<close>: speculative decoding; accepted drafts are the target's greedy
    continuation, and lookup drafts quote the history.
  \<^item> \<open>Gbnf_Match\<close>: the pushdown matcher of \<open>gbnf.cpp\<close>; \<open>Gbnf_Lang\<close>: the language of a grammar and its prefixes, the
    specification; \<open>Gbnf_Props\<close>: acceptance decides that language; \<open>Gbnf_Reject\<close>: rejection of token candidates agrees with feeding them.
    \<open>Gbnf_Parse\<close>: the text parser, the left-recursion search and the compiler; \<open>Gbnf_Parse_Ok\<close>, \<open>Gbnf_Parse_Wf\<close>: it returns on every text,
    with well-formed rules; \<open>Gbnf_Left\<close>: the search is exact for the left edges it follows; \<open>Gbnf_Compile\<close>: compilation decides the
    language of the parsed rules, and a left recursion it misses.
  \<^item> \<open>Output_Constraint\<close>, \<open>Constraint_Props\<close>: \<open>OutputConstraint\<close>, its token check, logit mask and commit, which agree while a grammar is
    engaged.
  \<^item> \<open>Tool_Memory\<close>, \<open>Tool_Memory_Props\<close>: \<open>ToolMemory\<close>, its exact accounting under both limits and the replay of a turn.
  \<^item> \<open>Utf8_Utils\<close>, \<open>Client_Send_Buffer\<close>: the output path, against the definition of UTF-8 and as a byte stream.

  \<^bold>\<open>Conventions.\<close> A class is a record of its private fields, a method a function that returns its result
  and the new record, an error status a datatype value. \<open>size_t\<close> and \<open>uint32_t\<close> quantities are natural numbers with the
  narrowing casts written out, 64-bit counters and hashes are words, \<open>int\<close> is an integer. Operations are
  total functions; a loop has a termination proof by a measure (block tables, entries to evict), and the only loop that may wait for its
  environment, the flush of a send buffer, returns an option and is proved to return; so do the pruning loop of the tool
  memory and the scheduler's loop that makes room, which are \<open>partial_function\<close>s, and the device copies, where None is an aborted assertion. Fuel appears in one place: the expansion of a
  grammar's stacks and the rejection of candidates recurse on rule references without a bound of their own, so they take a recursion
  depth and yield the error value \<open>OutOfFuel\<close>; for the grammars the compiler accepts with plainly empty alternates a sufficient depth is proved to
  exist, and for a nested repetition none is. The 32-token bound of a lookup match is the code's own limit. Random seeds, clock
  readings, environment variables and the answers of system calls are arguments.

  \<^bold>\<open>Assumptions.\<close> Fewer than \<open>2\<^sup>6\<^sup>4 - 2\<close> reservations are made during the life of a cache. The lookup
  property of the cache assumes that the prompt's prefixes do not collide with other resident keys. The planes of an
  offload object are assumed to be allocated tensors whose blocks stay within packed runs, as those of the engines do. The tokenizer, the target model
  (its next token) and the engine are parameters.

  \<^bold>\<open>Not modelled.\<close> The model backends, kernels and vendored ggml (floating-point tensor code); the
  admission of requests into scheduler slots (queue, disk and prefix waiters), its threads and its share of wall time; the GPU passes of the engines; the disk tiers of the cache and GGUF loading (file I/O); the tokenizer, chat
  templates and JSON adapters, with the translation of JSON schemas to grammars; the probe of the host's free memory; the floating-point policies (draft
  widths, lookup against draft model, sampling of logits). Log output is left out everywhere.
\<close>

end
